(* ===== verification/OI_Prelude.thy ===== *)
theory OI_Prelude
  imports Main "HOL-Library.Word"
begin

text \<open>
  What the components of the development share: the types that name machine integers and bytes,
  the exceptions of the C++ code, the C library's memory primitives on byte lists (an allocator,
  memcpy, memmove), little-endian byte codecs, and the list lemmas the component proofs use.

  A byte is a \<open>char\<close> and a block of memory is a \<open>char list\<close>. A \<open>size_t\<close> is a \<open>nat\<close> below
  \<open>2 ^ 64\<close> with its wrap-around written out where the code can reach it; values that cross the
  wire at a fixed width are words.
\<close>

section \<open>Types\<close>

type_synonym byte = char
type_synonym bytes = "char list"
type_synonym u16 = "16 word"
type_synonym u32 = "32 word"
type_synonym u64 = "64 word"

text \<open>The exceptions the C++ sources throw; a C function that returns NULL is an \<open>option\<close>.\<close>

datatype exc = BadAlloc | OutOfRange | ParserException

abbreviation SIZE_MAX :: nat where
  "SIZE_MAX \<equiv> 18446744073709551615"

abbreviation SIZE_MOD :: nat where
  "SIZE_MOD \<equiv> 18446744073709551616"

abbreviation OBJECT_MAX :: nat where
  "OBJECT_MAX \<equiv> 9223372036854775807"

abbreviation INT32_MAX :: nat where
  "INT32_MAX \<equiv> 2147483647"

text \<open>Result codes (cbaselib/include/oi_errno.h).\<close>

abbreviation (input) OI_OK :: int where "OI_OK \<equiv> 0"
abbreviation (input) OI_ERR_FAIL :: int where "OI_ERR_FAIL \<equiv> - 1"
abbreviation (input) OI_ERR_TIMEOUT :: int where "OI_ERR_TIMEOUT \<equiv> - 2"
abbreviation (input) OI_ERR_CONNECT :: int where "OI_ERR_CONNECT \<equiv> - 3"
abbreviation (input) OI_ERR_BUSY :: int where "OI_ERR_BUSY \<equiv> - 5"

text \<open>No session (cbaselib/include/oi_header.h).\<close>

abbreviation (input) INVALID_SID :: int where "INVALID_SID \<equiv> - 1"

text \<open>Subtraction on \<open>size_t\<close>, which wraps; it is the ordinary one where the result is not negative.\<close>

definition size_sub :: "nat \<Rightarrow> nat \<Rightarrow> nat" where
  "size_sub a b = (a + SIZE_MOD - b) mod SIZE_MOD"

section \<open>Memory primitives\<close>

text \<open>
  The allocator is a parameter of every operation that allocates: \<open>avail n\<close> says whether a request
  of \<open>n\<close> bytes is granted and \<open>junk\<close> is the content of fresh memory, which \<open>malloc\<close> leaves
  unspecified. No object is larger than PTRDIFF_MAX bytes.
\<close>

record allocator =
  avail :: "nat \<Rightarrow> bool"
  junk :: "nat \<Rightarrow> char"

text \<open>An allocator that grants everything, for the concrete examples.\<close>

definition demo_alloc :: allocator where
  "demo_alloc = \<lparr>avail = (\<lambda>_. True), junk = (\<lambda>_. CHR 0x00)\<rparr>"

definition malloc :: "allocator \<Rightarrow> nat \<Rightarrow> bytes option" where
  "malloc A n = (if avail A n \<and> n \<le> OBJECT_MAX then Some (map (junk A) [0..<n]) else None)"

definition memcpy :: "nat \<Rightarrow> bytes \<Rightarrow> bytes \<Rightarrow> bytes" where
  "memcpy i d m = take i m @ d @ drop (i + length d) m"

definition memmove :: "nat \<Rightarrow> nat \<Rightarrow> nat \<Rightarrow> bytes \<Rightarrow> bytes" where
  "memmove dst src n m = memcpy dst (take n (drop src m)) m"

section \<open>Little-endian codecs\<close>

fun le_bytes :: "nat \<Rightarrow> nat \<Rightarrow> bytes" where
  "le_bytes 0 v = []"
| "le_bytes (Suc n) v = char_of v # le_bytes n (v div 256)"

fun le_val :: "bytes \<Rightarrow> nat" where
  "le_val [] = 0"
| "le_val (c # cs) = of_char c + 256 * le_val cs"

section \<open>Lemmas on lists and memory\<close>

lemma size_sub_le [simp]: "b \<le> a \<Longrightarrow> a < SIZE_MOD \<Longrightarrow> size_sub a b = a - b"
proof -
  assume "b \<le> a" and "a < SIZE_MOD"
  then have "a + SIZE_MOD - b = (a - b) + SIZE_MOD" and lt: "a - b < SIZE_MOD" by linarith+
  then have "size_sub a b = (a - b + SIZE_MOD) mod SIZE_MOD" by (simp only: size_sub_def)
  also have "\<dots> = (a - b) mod SIZE_MOD" by (rule mod_add_self2)
  also have "\<dots> = a - b" using lt by (rule mod_less)
  finally show ?thesis .
qed

named_theorems mem_simps "contents of memory blocks after a copy"

lemma length_malloc: "malloc A n = Some m \<Longrightarrow> length m = n \<and> n \<le> OBJECT_MAX"
  by (auto simp: malloc_def split: if_splits)

lemma length_memcpy [simp]:
  "i + length d \<le> length m \<Longrightarrow> length (memcpy i d m) = length m"
  by (simp add: memcpy_def)

lemma length_memmove [simp]:
  "dst + n \<le> length m \<Longrightarrow> length (memmove dst src n m) = length m"
  by (simp add: memmove_def)

lemma take_memcpy [mem_simps]: "i \<le> length m \<Longrightarrow> take i (memcpy i d m) = take i m"
  by (simp add: memcpy_def)

lemma drop_memcpy [mem_simps]: "i \<le> length m \<Longrightarrow> drop i (memcpy i d m) = d @ drop (i + length d) m"
  by (simp add: memcpy_def)

lemma memcpy_nil [simp]: "memcpy i [] m = m"
  by (simp add: memcpy_def)

text \<open>A window \<open>[h, h+n)\<close> of memory after a copy right behind it.\<close>

lemma window_memcpy_end [mem_simps]:
  assumes "h + n + length d \<le> length m"
  shows "take (n + length d) (drop h (memcpy (h + n) d m)) = take n (drop h m) @ d"
proof -
  have "drop h (memcpy (h + n) d m) = take n (drop h m) @ d @ drop (h + n + length d) m"
    using assms by (simp add: memcpy_def drop_take)
  then show ?thesis using assms by simp
qed

lemma window_take_drop:
  "take k (drop i (take n (drop h m))) = take (min k (n - i)) (drop (h + i) m)"
  by (simp add: drop_take min.commute add.commute)

section \<open>Lemmas on the codecs\<close>

lemma length_le_bytes [simp]: "length (le_bytes n v) = n"
  by (induction n arbitrary: v) auto

lemma le_val_le_bytes [simp]: "le_val (le_bytes n v) = v mod 256 ^ n"
proof (induction n arbitrary: v)
  case 0
  then show ?case by simp
next
  case (Suc n)
  have "v mod 256 ^ Suc n = v mod 256 + 256 * (v div 256 mod 256 ^ n)"
    by (simp add: mod_mult2_eq)
  with Suc show ?case by simp
qed

lemma le_val_less: "le_val bs < 256 ^ length bs"
proof (induction bs)
  case Nil
  then show ?case by simp
next
  case (Cons c cs)
  have "of_char c < (256 :: nat)" by simp
  moreover obtain P where P: "P = (256 :: nat) ^ length cs" by simp
  ultimately have "of_char c + 256 * le_val cs < 256 * P" using Cons by linarith
  with P show ?case by simp
qed

lemma le_bytes_le_val [simp]: "le_bytes (length bs) (le_val bs) = bs"
proof (induction bs)
  case Nil
  then show ?case by simp
next
  case (Cons c cs)
  have c: "of_char c < (256 :: nat)" by simp
  then have "(of_char c + 256 * le_val cs) div 256 = le_val cs" by simp
  moreover have "char_of (of_char c + 256 * le_val cs) = char_of (of_char c :: nat)"
    by (simp only: char_of_quasi_inj mod_mult_self2)
  ultimately show ?case using Cons by simp
qed

lemma unat_mod_256 [simp]:
  fixes v :: "'a::len word"
  assumes "8 dvd LENGTH('a)"
  shows "unat v mod 256 ^ (LENGTH('a) div 8) = unat v"
proof -
  from assms have "(256 :: nat) ^ (LENGTH('a) div 8) = 2 ^ LENGTH('a)"
    using power_mult [of "2 :: nat" 8 "LENGTH('a) div 8"] by simp
  moreover have "unat v < 2 ^ LENGTH('a)" by simp
  ultimately show ?thesis by simp
qed

text \<open>The sign of a 32-bit integer, and a length that fits a non-negative one.\<close>

lemma odd_div_half:
  assumes "0 \<le> (k :: int)" and "k < 2 * m" and "0 < m"
  shows "odd (k div m) \<longleftrightarrow> m \<le> k"
proof (cases "m \<le> k")
  case True
  have "k div m = 1" using assms True by (intro int_div_pos_eq [of k m 1 "k - m"]) auto
  with True show ?thesis by simp
next
  case False
  with assms show ?thesis by simp
qed

lemma sint_neg_u32: "sint (q :: u32) < 0 \<longleftrightarrow> unat q > INT32_MAX"
proof -
  have "sint q < 0 \<longleftrightarrow> bit (uint q) 31"
    by (simp add: sint_uint)
  also have "\<dots> \<longleftrightarrow> odd (uint q div 2147483648)" by (simp add: bit_iff_odd)
  also have "\<dots> \<longleftrightarrow> 2147483648 \<le> uint q"
    using uint_lt2p [of q] by (intro odd_div_half) simp_all
  also have "\<dots> \<longleftrightarrow> unat q > INT32_MAX" by (subst uint_nat) linarith
  finally show ?thesis .
qed

lemma unat_len32 [simp]: "n \<le> INT32_MAX \<Longrightarrow> unat (word_of_nat n :: u32) = n"
  by (simp add: unat_of_nat)

end
