(* ===== verification/OI_Bytes.thy ===== *)
theory OI_Bytes
  imports OI_Prelude
begin

text \<open>
  The byte buffer \<open>OI::Base::Bytes\<close> (cbaselib/base/src/oi_bytes.cpp): one allocated block, a head
  offset that deletion from the front advances, and a count of valid bytes. The record has the
  four fields of the class; \<open>m_pMemory = []\<close> stands for the null pointer. Every operation is
  given in its release-build form (asserts are compiled out).

  The abstraction \<open>content\<close> is the valid window \<open>[m_iHead, m_iHead + m_iSize)\<close>. The lemmas show
  that every operation keeps the representation invariant \<open>bytes_ok\<close> and acts on \<open>content\<close> as the
  list operation of its name; the locale \<open>byte_buffer\<close> is the contract the other components
  rely on, interpreted here on the class's own operations.
\<close>

section \<open>State\<close>

record bytes_obj =
  m_pMemory :: bytes
  m_iCapacity :: nat
  m_iHead :: nat
  m_iSize :: nat

text \<open>
  A source argument \<open>(pData, iLength)\<close>: memory outside this buffer, given by its content, or
  \<open>iLength\<close> bytes at an offset of the buffer's own block (the aliasing case \<open>Overlaps\<close> detects).
\<close>

datatype src = Ext bytes | Own nat nat

fun src_len :: "src \<Rightarrow> nat" where
  "src_len (Ext d) = length d"
| "src_len (Own off n) = n"

section \<open>Operations\<close>

definition Bytes_empty :: bytes_obj where
  "Bytes_empty = \<lparr>m_pMemory = [], m_iCapacity = 0, m_iHead = 0, m_iSize = 0\<rparr>"

definition content :: "bytes_obj \<Rightarrow> bytes" where
  "content b = take (m_iSize b) (drop (m_iHead b) (m_pMemory b))"

text \<open>The doubling loop of \<open>Grow\<close>; its start value is never 0.\<close>

function grow_cap :: "nat \<Rightarrow> nat \<Rightarrow> exc + nat" where
  "grow_cap c iNeed =
     (if c = 0 \<or> c > SIZE_MAX div 2 then Inl BadAlloc
      else if 2 * c < iNeed then grow_cap (2 * c) iNeed else Inr (2 * c))"
  by pat_completeness auto
termination
  by (relation "measure (\<lambda>(c, iNeed). SIZE_MAX - c)") auto

definition Grow :: "allocator \<Rightarrow> nat \<Rightarrow> bytes_obj \<Rightarrow> exc + bytes_obj" where
  "Grow A iNeed b =
     (if (m_iHead b + iNeed) mod SIZE_MOD \<le> m_iCapacity b then Inr b
      else if iNeed \<le> m_iCapacity b \<and> m_iHead b \<ge> m_iSize b then
        Inr (b\<lparr>m_pMemory := (if m_iSize b > 0 then memmove 0 (m_iHead b) (m_iSize b) (m_pMemory b)
                              else m_pMemory b), m_iHead := 0\<rparr>)
      else case grow_cap (if m_iCapacity b \<noteq> 0 then m_iCapacity b else 32) iNeed of
        Inl e \<Rightarrow> Inl e
      | Inr iCapacity \<Rightarrow>
          (case malloc A iCapacity of
            None \<Rightarrow> Inl BadAlloc
          | Some pMem \<Rightarrow>
              Inr \<lparr>m_pMemory = (if m_iSize b > 0
                     then memcpy 0 (take (m_iSize b) (drop (m_iHead b) (m_pMemory b))) pMem
                     else pMem),
                   m_iCapacity = iCapacity, m_iHead = 0, m_iSize = m_iSize b\<rparr>))"

definition Bytes_new :: "allocator \<Rightarrow> bytes \<Rightarrow> exc + bytes_obj" where
  "Bytes_new A d =
     (if length d = 0 then Inr Bytes_empty
      else case Grow A (length d) Bytes_empty of
        Inl e \<Rightarrow> Inl e
      | Inr b \<Rightarrow> Inr (b\<lparr>m_pMemory := memcpy (m_iHead b) d (m_pMemory b), m_iSize := length d\<rparr>))"

definition Bytes_copy :: "allocator \<Rightarrow> bytes_obj \<Rightarrow> exc + bytes_obj" where
  "Bytes_copy A other =
     (if m_iSize other > 0 then
        (case Grow A (m_iSize other) Bytes_empty of
          Inl e \<Rightarrow> Inl e
        | Inr b \<Rightarrow> Inr (b\<lparr>m_pMemory := memcpy (m_iHead b) (content other) (m_pMemory b),
                          m_iSize := m_iSize other\<rparr>))
      else Inr Bytes_empty)"

text \<open>
  Copy assignment from another object empties the target before it grows it, so the target is
  returned also when the growth throws.
\<close>

definition Bytes_assign :: "allocator \<Rightarrow> bytes_obj \<Rightarrow> bytes_obj \<Rightarrow> exc option \<times> bytes_obj" where
  "Bytes_assign A other b =
     (let b0 = b\<lparr>m_iHead := 0, m_iSize := 0\<rparr>
      in if m_iSize other > 0 then
           (case Grow A (m_iSize other) b0 of
             Inl e \<Rightarrow> (Some e, b0)
           | Inr b1 \<Rightarrow> (None, b1\<lparr>m_pMemory := memcpy (m_iHead b1) (content other) (m_pMemory b1),
                                 m_iSize := m_iSize other\<rparr>))
         else (None, b0))"

text \<open>Move construction and move assignment: the new object and what is left of the source.\<close>

definition Bytes_move :: "bytes_obj \<Rightarrow> bytes_obj \<times> bytes_obj" where
  "Bytes_move other = (other, Bytes_empty)"

definition Capacity :: "bytes_obj \<Rightarrow> nat" where
  "Capacity b = m_iCapacity b - m_iHead b"

definition Reserve :: "allocator \<Rightarrow> nat \<Rightarrow> bytes_obj \<Rightarrow> exc + nat \<times> bytes_obj" where
  "Reserve A iSize b =
     (case Grow A iSize b of
       Inl e \<Rightarrow> Inl e
     | Inr b1 \<Rightarrow>
         (let b2 = (if iSize < m_iSize b1 then b1\<lparr>m_iSize := iSize\<rparr> else b1);
              b3 = (if m_iSize b2 = 0 then b2\<lparr>m_iHead := 0\<rparr> else b2)
          in Inr (Capacity b3, b3)))"

definition Commit :: "nat \<Rightarrow> bytes_obj \<Rightarrow> exc + bytes_obj" where
  "Commit n b = (if n > Capacity b - m_iSize b then Inl OutOfRange
                 else Inr (b\<lparr>m_iSize := m_iSize b + n\<rparr>))"

text \<open>What a caller does between \<open>Reserve\<close> and \<open>Commit\<close>: write through \<open>End()\<close>.\<close>

definition write_end :: "bytes \<Rightarrow> bytes_obj \<Rightarrow> bytes_obj" where
  "write_end d b = b\<lparr>m_pMemory := memcpy (m_iHead b + m_iSize b) d (m_pMemory b)\<rparr>"

definition Swap :: "bytes_obj \<Rightarrow> bytes_obj \<Rightarrow> bytes_obj \<times> bytes_obj" where
  "Swap a b = (b, a)"

definition Clear :: "bytes_obj \<Rightarrow> bytes_obj" where
  "Clear b = b\<lparr>m_iSize := 0, m_iHead := 0\<rparr>"

definition Append_ext :: "allocator \<Rightarrow> bytes \<Rightarrow> bytes_obj \<Rightarrow> exc + bytes_obj" where
  "Append_ext A d b =
     (if length d = 0 then Inr b
      else if length d > SIZE_MAX - m_iSize b then Inl BadAlloc
      else case Grow A (m_iSize b + length d) b of
        Inl e \<Rightarrow> Inl e
      | Inr b1 \<Rightarrow> Inr (b1\<lparr>m_pMemory := memcpy (m_iHead b1 + m_iSize b1) d (m_pMemory b1),
                           m_iSize := m_iSize b1 + length d\<rparr>))"

fun Append :: "allocator \<Rightarrow> src \<Rightarrow> bytes_obj \<Rightarrow> exc + nat \<times> bytes_obj" where
  "Append A (Ext d) b = (case Append_ext A d b of Inl e \<Rightarrow> Inl e | Inr b1 \<Rightarrow> Inr (length d, b1))"
| "Append A (Own off n) b =
     (if n = 0 then Inr (0, b)
      else if n > SIZE_MAX - m_iSize b then Inl BadAlloc
      else case Bytes_new A (take n (drop off (m_pMemory b))) of
        Inl e \<Rightarrow> Inl e
      | Inr stCopy \<Rightarrow>
          (case Append_ext A (content stCopy) b of Inl e \<Rightarrow> Inl e | Inr b1 \<Rightarrow> Inr (n, b1)))"

definition Erase :: "nat \<Rightarrow> nat \<Rightarrow> bytes_obj \<Rightarrow> nat \<times> bytes_obj" where
  "Erase iOffset iLength0 b =
     (if iOffset > m_iSize b then (0, b)
      else let iLength = (if iLength0 > m_iSize b - iOffset then m_iSize b - iOffset else iLength0)
      in if iLength = 0 then (0, b)
         else if iOffset = 0 then
           (let b1 = b\<lparr>m_iHead := m_iHead b + iLength, m_iSize := m_iSize b - iLength\<rparr>
            in (iLength, if m_iSize b1 = 0 then b1\<lparr>m_iHead := 0\<rparr> else b1))
         else
           (iLength,
            b\<lparr>m_pMemory := memmove (m_iHead b + iOffset) (m_iHead b + iOffset + iLength)
                             (m_iSize b - iOffset - iLength) (m_pMemory b),
              m_iSize := m_iSize b - iLength\<rparr>))"

text \<open>\<open>Erase(const char*, size_t)\<close>, the pointer given relative to \<open>Data()\<close>.\<close>

definition Erase_ptr :: "int \<Rightarrow> nat \<Rightarrow> bytes_obj \<Rightarrow> bytes_obj" where
  "Erase_ptr p iLength b =
     (if p < 0 \<or> p > int (m_iSize b) then b else snd (Erase (nat p) iLength b))"

definition Erase_int :: "int \<Rightarrow> nat \<Rightarrow> bytes_obj \<Rightarrow> bytes_obj" where
  "Erase_int iOffset iLength b = (if iOffset \<ge> 0 then snd (Erase (nat iOffset) iLength b) else b)"

definition Insert_ext :: "allocator \<Rightarrow> nat \<Rightarrow> bytes \<Rightarrow> bytes_obj \<Rightarrow> exc + bytes_obj" where
  "Insert_ext A iOffset d b =
     (if iOffset \<ge> m_iSize b then Append_ext A d b
      else if length d = 0 then Inr b
      else if length d > SIZE_MAX - m_iSize b then Inl BadAlloc
      else if iOffset = 0 \<and> m_iHead b \<ge> length d then
        Inr (b\<lparr>m_iHead := m_iHead b - length d, m_iSize := m_iSize b + length d,
               m_pMemory := memcpy (m_iHead b - length d) d (m_pMemory b)\<rparr>)
      else case Grow A (m_iSize b + length d) b of
        Inl e \<Rightarrow> Inl e
      | Inr b1 \<Rightarrow>
          (let m1 = memmove (m_iHead b1 + iOffset + length d) (m_iHead b1 + iOffset)
                      (m_iSize b1 - iOffset) (m_pMemory b1);
               m2 = memcpy (m_iHead b1 + iOffset) d m1
           in Inr (b1\<lparr>m_pMemory := m2, m_iSize := m_iSize b1 + length d\<rparr>)))"

fun Insert :: "allocator \<Rightarrow> nat \<Rightarrow> src \<Rightarrow> bytes_obj \<Rightarrow> exc + nat \<times> bytes_obj" where
  "Insert A iOffset (Ext d) b =
     (case Insert_ext A iOffset d b of Inl e \<Rightarrow> Inl e | Inr b1 \<Rightarrow> Inr (length d, b1))"
| "Insert A iOffset (Own off n) b =
     (if iOffset \<ge> m_iSize b then Append A (Own off n) b
      else if n = 0 then Inr (0, b)
      else if n > SIZE_MAX - m_iSize b then Inl BadAlloc
      else case Bytes_new A (take n (drop off (m_pMemory b))) of
        Inl e \<Rightarrow> Inl e
      | Inr stCopy \<Rightarrow>
          (case Insert_ext A iOffset (content stCopy) b of Inl e \<Rightarrow> Inl e | Inr b1 \<Rightarrow> Inr (n, b1)))"

definition AppendForward :: "allocator \<Rightarrow> src \<Rightarrow> bytes_obj \<Rightarrow> exc + nat \<times> bytes_obj" where
  "AppendForward A s b = Insert A 0 s b"

definition Replace :: "nat \<Rightarrow> bytes \<Rightarrow> bytes_obj \<Rightarrow> nat \<times> bytes_obj" where
  "Replace iOffset d b =
     (if (iOffset > m_iSize b \<or> length d > m_iSize b - iOffset) \<and> iOffset \<ge> m_iSize b then (0, b)
      else let iLength = (if iOffset > m_iSize b \<or> length d > m_iSize b - iOffset
                          then m_iSize b - iOffset else length d)
      in if iLength = 0 then (0, b)
         else (iLength, b\<lparr>m_pMemory := memcpy (m_iHead b + iOffset) (take iLength d) (m_pMemory b)\<rparr>))"

section \<open>Invariant\<close>

definition bytes_ok :: "bytes_obj \<Rightarrow> bool" where
  "bytes_ok b \<longleftrightarrow> length (m_pMemory b) = m_iCapacity b \<and> m_iCapacity b \<le> OBJECT_MAX
     \<and> m_iHead b + m_iSize b \<le> m_iCapacity b"

declare grow_cap.simps [simp del]

section \<open>Lemmas\<close>

lemma length_content [simp]: "bytes_ok b \<Longrightarrow> length (content b) = m_iSize b"
  by (auto simp: content_def bytes_ok_def)

lemma content_size_0 [simp]: "m_iSize b = 0 \<Longrightarrow> content b = []"
  by (simp add: content_def)

lemma bytes_ok_empty [simp]: "bytes_ok Bytes_empty" and content_empty [simp]: "content Bytes_empty = []"
  by (simp_all add: bytes_ok_def content_def Bytes_empty_def)

lemma grow_cap_ge: "grow_cap c n = Inr k \<Longrightarrow> n \<le> k \<and> c \<le> k \<and> k \<le> SIZE_MAX"
proof (induction c n rule: grow_cap.induct)
  case (1 c n)
  then show ?case
    by (subst (asm) (2) grow_cap.simps) (auto split: if_splits)
qed

text \<open>
  \<open>Grow\<close> keeps the content and makes room for \<open>iNeed\<close> bytes behind the head. The bound excludes the
  wrap-around of \<open>m_iHead + iNeed\<close>.
\<close>

lemma Grow_room:
  assumes ok: "bytes_ok b" and ret: "Grow A n b = Inr b'" and bound: "m_iHead b + n < SIZE_MOD"
  shows "bytes_ok b' \<and> content b' = content b \<and> m_iSize b' = m_iSize b
    \<and> m_iHead b' + n \<le> m_iCapacity b'"
proof -
  have wrap: "(m_iHead b + n) mod SIZE_MOD = m_iHead b + n"
    using bound by (rule mod_less)
  show ?thesis
  proof (cases "m_iHead b + n \<le> m_iCapacity b")
    case True
    with ret ok show ?thesis by (simp add: Grow_def wrap)
  next
    case nofit: False
    show ?thesis
    proof (cases "n \<le> m_iCapacity b \<and> m_iHead b \<ge> m_iSize b")
      case True
      with ret nofit have "b' = b\<lparr>m_pMemory := (if m_iSize b > 0
          then memmove 0 (m_iHead b) (m_iSize b) (m_pMemory b) else m_pMemory b), m_iHead := 0\<rparr>"
        by (simp add: Grow_def wrap)
      with True ok show ?thesis
        by (auto simp: bytes_ok_def content_def memmove_def memcpy_def)
    next
      case False
      with ret nofit obtain k m
        where k: "grow_cap (if m_iCapacity b \<noteq> 0 then m_iCapacity b else 32) n = Inr k"
          and m: "malloc A k = Some m"
          and b': "b' = \<lparr>m_pMemory = (if m_iSize b > 0
                     then memcpy 0 (take (m_iSize b) (drop (m_iHead b) (m_pMemory b))) m else m),
               m_iCapacity = k, m_iHead = 0, m_iSize = m_iSize b\<rparr>"
        unfolding Grow_def wrap by (simp only: if_False split: sum.splits option.splits) auto
      from length_malloc [OF m] grow_cap_ge [OF k]
      have "length m = k" "k \<le> OBJECT_MAX" "n \<le> k" "m_iCapacity b \<le> k" by (auto split: if_splits)
      with b' ok show ?thesis
        by (auto simp: bytes_ok_def content_def memcpy_def)
    qed
  qed
qed

lemma Grow_empty_room:
  assumes "Grow A n Bytes_empty = Inr b" and "n < SIZE_MOD"
  shows "bytes_ok b \<and> m_iSize b = 0 \<and> m_iHead b + n \<le> m_iCapacity b"
  using Grow_room [OF bytes_ok_empty assms(1)] assms(2) by (simp add: Bytes_empty_def)

text \<open>Filling the reserved room: the step that \<open>Append\<close>, the constructors and \<open>Commit\<close> share.\<close>

lemma fill_end:
  assumes "bytes_ok b" and "m_iHead b + (m_iSize b + length d) \<le> m_iCapacity b"
  defines "b' \<equiv> b\<lparr>m_pMemory := memcpy (m_iHead b + m_iSize b) d (m_pMemory b),
                   m_iSize := m_iSize b + length d\<rparr>"
  shows "bytes_ok b' \<and> content b' = content b @ d"
  using assms by (simp add: bytes_ok_def content_def window_memcpy_end add.assoc)

lemma Append_ext_content:
  assumes ok: "bytes_ok b" and ret: "Append_ext A d b = Inr b'" and len: "length d \<le> OBJECT_MAX"
  shows "bytes_ok b' \<and> content b' = content b @ d"
proof (cases "d = []")
  case True
  with assms show ?thesis by (simp add: Append_ext_def)
next
  case False
  with ret obtain b1 where g: "Grow A (m_iSize b + length d) b = Inr b1"
    and b': "b' = b1\<lparr>m_pMemory := memcpy (m_iHead b1 + m_iSize b1) d (m_pMemory b1),
                      m_iSize := m_iSize b1 + length d\<rparr>"
    by (auto simp: Append_ext_def split: if_splits sum.splits)
  from ok len have "m_iHead b + (m_iSize b + length d) < SIZE_MOD"
    by (simp add: bytes_ok_def)
  from Grow_room [OF ok g this] fill_end [of b1 d] b' show ?thesis by simp
qed

lemma Bytes_new_content:
  assumes "Bytes_new A d = Inr b" and "length d \<le> OBJECT_MAX"
  shows "bytes_ok b \<and> content b = d"
proof (cases "d = []")
  case True
  with assms show ?thesis by (simp add: Bytes_new_def)
next
  case False
  with assms obtain b1 where g: "Grow A (length d) Bytes_empty = Inr b1"
    and b: "b = b1\<lparr>m_pMemory := memcpy (m_iHead b1) d (m_pMemory b1), m_iSize := length d\<rparr>"
    by (auto simp: Bytes_new_def split: if_splits sum.splits)
  from assms(2) have "length d < SIZE_MOD" by simp
  from Grow_empty_room [OF g this] fill_end [of b1 d] b show ?thesis
    by (simp add: content_def [of b1])
qed

lemma Bytes_copy_content:
  assumes "Bytes_copy A other = Inr b" and ok: "bytes_ok other"
  shows "bytes_ok b \<and> content b = content other"
proof -
  have eq: "Bytes_copy A other = Bytes_new A (content other)"
    unfolding Bytes_copy_def Bytes_new_def length_content [OF ok] by simp
  have "length (content other) \<le> OBJECT_MAX" using ok by (simp add: bytes_ok_def)
  with assms(1) show ?thesis unfolding eq by (rule Bytes_new_content)
qed

lemma Bytes_assign_content:
  assumes "bytes_ok b" and "bytes_ok other" and "Bytes_assign A other b = (r, b')"
  shows "bytes_ok b' \<and> content b' = (if r = None then content other else [])"
proof -
  let ?b0 = "b\<lparr>m_iHead := 0, m_iSize := 0\<rparr>"
  have ok0: "bytes_ok ?b0" and c0: "content ?b0 = []"
    using assms(1) by (simp_all add: bytes_ok_def content_def)
  show ?thesis
  proof (cases "m_iSize other > 0")
    case False
    with assms ok0 c0 show ?thesis by (auto simp: Bytes_assign_def Let_def content_def)
  next
    case True
    show ?thesis
    proof (cases "Grow A (m_iSize other) ?b0")
      case (Inl e)
      with True assms ok0 c0 show ?thesis by (auto simp: Bytes_assign_def Let_def)
    next
      case (Inr b1)
      have "m_iHead ?b0 + m_iSize other < SIZE_MOD" using assms(2) by (simp add: bytes_ok_def)
      from Grow_room [OF ok0 Inr this] fill_end [of b1 "content other"] True Inr assms
      show ?thesis by (auto simp: Bytes_assign_def Let_def content_def [of b1])
    qed
  qed
qed


lemma Append_content:
  assumes "bytes_ok b" and "Append A s b = Inr (n, b')" and "src_len s \<le> OBJECT_MAX"
    and "\<And>off k. s = Own off k \<Longrightarrow> off + k \<le> m_iCapacity b"
  shows "bytes_ok b' \<and> n = src_len s \<and> content b' = content b @
    (case s of Ext d \<Rightarrow> d | Own off k \<Rightarrow> take k (drop off (m_pMemory b)))"
proof (cases s)
  case (Ext d)
  with assms show ?thesis
    by (auto split: sum.splits dest: Append_ext_content)
next
  case (Own off k)
  let ?d = "take k (drop off (m_pMemory b))"
  have k: "length ?d = k" using assms(1,4) Own by (auto simp: bytes_ok_def)
  show ?thesis
  proof (cases "k = 0")
    case True
    with Own assms show ?thesis by simp
  next
    case False
    with Own assms(2) obtain c where c: "Bytes_new A ?d = Inr c"
      and a: "Append_ext A (content c) b = Inr b'" and n: "n = k"
      by (auto split: if_splits sum.splits)
    from Bytes_new_content [OF c] k assms(3) Own have "content c = ?d" by simp
    with Append_ext_content [OF assms(1) a] k n Own assms(3) show ?thesis by simp
  qed
qed

text \<open>The three ways \<open>Erase\<close> acts, once the length is clipped to what is there.\<close>

lemma Erase_past: "off > m_iSize b \<or> min n (m_iSize b - off) = 0 \<Longrightarrow> Erase off n b = (0, b)"
  by (auto simp: Erase_def Let_def)

lemma Erase_front:
  assumes "k = min n (m_iSize b)" and "0 < k"
  shows "Erase 0 n b = (k, if m_iSize b = k then b\<lparr>m_iHead := 0, m_iSize := 0\<rparr>
    else b\<lparr>m_iHead := m_iHead b + k, m_iSize := m_iSize b - k\<rparr>)"
  using assms by (auto simp: Erase_def Let_def min_def)

lemma Erase_inside:
  assumes "0 < off" and "off \<le> m_iSize b" and "k = min n (m_iSize b - off)" and "0 < k"
  shows "Erase off n b = (k, b\<lparr>m_pMemory := memmove (m_iHead b + off) (m_iHead b + off + k)
    (m_iSize b - off - k) (m_pMemory b), m_iSize := m_iSize b - k\<rparr>)"
  using assms by (auto simp: Erase_def Let_def min_def)

lemma memmove_window:
  assumes "h + off + k + r \<le> length m"
  shows "take (off + r) (drop h (memmove (h + off) (h + off + k) r m))
    = take off (drop h m) @ take r (drop (h + off + k) m)"
  using assms by (simp add: memmove_def memcpy_def drop_take)

lemma Erase_capacity [simp]: "m_iCapacity (snd (Erase off n b)) = m_iCapacity b"
  by (simp add: Erase_def Let_def)

lemma Erase_content:
  assumes ok: "bytes_ok b"
  shows "bytes_ok (snd (Erase off n b))
    \<and> content (snd (Erase off n b)) = take off (content b) @ drop (off + n) (content b)
    \<and> fst (Erase off n b) = (if off > m_iSize b then 0 else min n (m_iSize b - off))"
proof -
  define k where "k = min n (m_iSize b - off)"
  have clip: "drop (off + k) (content b) = drop (off + n) (content b)"
    using ok by (simp add: k_def min_def)
  consider "off > m_iSize b \<or> k = 0" | "off = 0" "0 < k" | "0 < off" "off \<le> m_iSize b" "0 < k"
    by linarith
  then show ?thesis
  proof cases
    case 1
    then have "take off (content b) @ drop (off + n) (content b) = content b"
      using ok clip [symmetric] by auto
    with 1 ok show ?thesis by (auto simp: Erase_past k_def)
  next
    case 2
    then have e: "Erase 0 n b = (k, if m_iSize b = k then b\<lparr>m_iHead := 0, m_iSize := 0\<rparr>
        else b\<lparr>m_iHead := m_iHead b + k, m_iSize := m_iSize b - k\<rparr>)"
      by (intro Erase_front) (simp_all add: k_def)
    have "k \<le> m_iSize b" using 2 by (simp add: k_def)
    then have "bytes_ok (snd (Erase 0 n b)) \<and> content (snd (Erase 0 n b)) = drop k (content b)"
      using ok e by (simp add: bytes_ok_def content_def drop_take add.commute)
    with 2 e clip show ?thesis by (simp add: k_def)
  next
    case 3
    define r where "r = m_iSize b - off - k"
    have e: "Erase off n b = (k, b\<lparr>m_pMemory := memmove (m_iHead b + off) (m_iHead b + off + k)
        r (m_pMemory b), m_iSize := m_iSize b - k\<rparr>)"
      unfolding r_def by (rule Erase_inside [OF 3(1,2) k_def 3(3)])
    have sz: "m_iSize b = off + k + r" "m_iSize b - k = off + r" using 3 by (auto simp: r_def k_def)
    have len: "m_iHead b + off + k + r \<le> length (m_pMemory b)" "length (m_pMemory b) = m_iCapacity b"
      using ok sz by (simp_all add: bytes_ok_def)
    have "content (snd (Erase off n b)) = take off (content b) @ drop (off + k) (content b)"
      using memmove_window [OF len(1)] sz by (simp add: e content_def drop_take add.commute add.left_commute)
    moreover have "bytes_ok (snd (Erase off n b))"
      using ok e sz len by (simp add: bytes_ok_def)
    ultimately show ?thesis using 3 e clip by (simp add: k_def)
  qed
qed

lemma Reserve_content:
  assumes "bytes_ok b" and "Reserve A n b = Inr (c, b')" and "m_iHead b + n < SIZE_MOD"
  shows "bytes_ok b' \<and> content b' = take n (content b) \<and> c = Capacity b' \<and> n \<le> c"
proof -
  from assms(2) obtain b1 where g: "Grow A n b = Inr b1"
    and b': "b' = (let b2 = (if n < m_iSize b1 then b1\<lparr>m_iSize := n\<rparr> else b1)
                   in if m_iSize b2 = 0 then b2\<lparr>m_iHead := 0\<rparr> else b2)" and c: "c = Capacity b'"
    by (auto simp: Reserve_def Let_def split: sum.splits)
  note b1 = Grow_room [OF assms(1) g assms(3)]
  have "bytes_ok b'" and "content b' = take n (content b1)"
    using b1 by (auto simp: b' Let_def bytes_ok_def content_def min_def)
  moreover have "n \<le> Capacity b'"
    using b1 by (auto simp: b' Let_def Capacity_def)
  ultimately show ?thesis using b1 c by simp
qed

text \<open>Writing \<open>d\<close> through \<open>End()\<close> after a \<open>Reserve\<close> and committing it appends \<open>d\<close>.\<close>

lemma Commit_content:
  assumes "bytes_ok b" and "m_iSize b + length d \<le> Capacity b"
  shows "\<exists>b'. Commit (length d) (write_end d b) = Inr b' \<and> bytes_ok b' \<and> content b' = content b @ d"
proof -
  have room: "m_iHead b + (m_iSize b + length d) \<le> m_iCapacity b"
    using assms by (auto simp: Capacity_def bytes_ok_def)
  from fill_end [OF assms(1) room] assms(2) show ?thesis
    by (simp add: Commit_def write_end_def Capacity_def)
qed

lemma Commit_past: "n > Capacity b - m_iSize b \<Longrightarrow> Commit n b = Inl OutOfRange"
  by (simp add: Commit_def)

lemma Clear_content [simp]: "content (Clear b) = []" and Clear_ok: "bytes_ok b \<Longrightarrow> bytes_ok (Clear b)"
  by (simp_all add: Clear_def content_def bytes_ok_def)

lemma insert_window:
  assumes "h + off + r + length d \<le> length m"
  shows "take (off + r + length d)
      (drop h (memcpy (h + off) d (memmove (h + off + length d) (h + off) r m)))
    = take off (drop h m) @ d @ take r (drop (h + off) m)"
  using assms by (simp add: memmove_def memcpy_def drop_take)

lemma Insert_ext_content:
  assumes ok: "bytes_ok b" and ret: "Insert_ext A off d b = Inr b'" and len: "length d \<le> OBJECT_MAX"
  shows "bytes_ok b' \<and> content b' = take off (content b) @ d @ drop off (content b)"
proof -
  consider "off \<ge> m_iSize b" | "d = []" "off < m_iSize b" | "off = 0" "m_iHead b \<ge> length d" "d \<noteq> []"
      "0 < m_iSize b"
    | "off < m_iSize b" "d \<noteq> []" "\<not> (off = 0 \<and> m_iHead b \<ge> length d)"
    by (cases "off = 0") force+
  then show ?thesis
  proof cases
    case 1
    with ret Append_ext_content [OF ok _ len] ok show ?thesis by (simp add: Insert_ext_def)
  next
    case 2
    with ret ok show ?thesis by (simp add: Insert_ext_def)
  next
    case 3
    with ret have b': "b' = b\<lparr>m_iHead := m_iHead b - length d, m_iSize := m_iSize b + length d,
               m_pMemory := memcpy (m_iHead b - length d) d (m_pMemory b)\<rparr>"
      by (simp add: Insert_ext_def split: if_splits)
    have h: "m_iHead b - length d \<le> length (m_pMemory b)"
      "m_iHead b - length d + length d = m_iHead b" using 3 ok by (auto simp: bytes_ok_def)
    have "content b' = d @ content b"
      using 3 drop_memcpy [OF h(1), of d] h(2) by (simp add: content_def b')
    moreover have "bytes_ok b'" using b' 3 ok by (simp add: bytes_ok_def)
    ultimately show ?thesis using 3 by simp
  next
    case 4
    with ret obtain b1 where g: "Grow A (m_iSize b + length d) b = Inr b1"
      and b': "b' = b1\<lparr>m_pMemory := memcpy (m_iHead b1 + off) d
          (memmove (m_iHead b1 + off + length d) (m_iHead b1 + off) (m_iSize b1 - off) (m_pMemory b1)),
          m_iSize := m_iSize b1 + length d\<rparr>"
      by (auto simp: Insert_ext_def Let_def split: if_splits sum.splits)
    have "m_iHead b + (m_iSize b + length d) < SIZE_MOD" using ok len by (simp add: bytes_ok_def)
    note b1 = Grow_room [OF ok g this]
    define r where "r = m_iSize b1 - off"
    have sz: "m_iSize b1 = off + r" using 4(1) b1 by (simp add: r_def)
    have "m_iHead b1 + off + r + length d \<le> length (m_pMemory b1)"
      using b1 sz by (simp add: bytes_ok_def)
    from insert_window [OF this] sz have "content b' = take off (content b1) @ d @ drop off (content b1)"
      by (simp add: b' content_def drop_take add.commute add.left_commute)
    moreover have "bytes_ok b'"
      using b1 sz by (simp add: b' bytes_ok_def)
    ultimately show ?thesis using b1 by simp
  qed
qed

lemma Insert_content:
  assumes "bytes_ok b" and "Insert A off s b = Inr (n, b')" and "src_len s \<le> OBJECT_MAX"
    and "\<And>o' k. s = Own o' k \<Longrightarrow> o' + k \<le> m_iCapacity b"
  shows "bytes_ok b' \<and> n = src_len s \<and> content b' = take off (content b) @
    (case s of Ext d \<Rightarrow> d | Own o' k \<Rightarrow> take k (drop o' (m_pMemory b))) @ drop off (content b)"
proof (cases s)
  case (Ext d)
  with assms Insert_ext_content [OF assms(1)] show ?thesis by (auto split: sum.splits)
next
  case (Own o' k)
  let ?d = "take k (drop o' (m_pMemory b))"
  have k: "length ?d = k" using assms(1,4) Own by (auto simp: bytes_ok_def)
  consider "off \<ge> m_iSize b" | "off < m_iSize b" "k = 0" | "off < m_iSize b" "k \<noteq> 0" by linarith
  then show ?thesis
  proof cases
    case 1
    with assms Own Append_content [OF assms(1) _ assms(3,4)] show ?thesis by auto
  next
    case 2
    with Own assms show ?thesis by simp
  next
    case 3
    with Own assms(2) obtain c where c: "Bytes_new A ?d = Inr c"
      and a: "Insert_ext A off (content c) b = Inr b'" and n: "n = k"
      by (auto split: if_splits sum.splits)
    from Bytes_new_content [OF c] k assms(3) Own have "content c = ?d" by simp
    with Insert_ext_content [OF assms(1) a] k n Own assms(3) show ?thesis by simp
  qed
qed

lemma Replace_content:
  assumes ok: "bytes_ok b"
  shows "bytes_ok (snd (Replace off d b)) \<and> content (snd (Replace off d b)) =
    (let n = min (length d) (m_iSize b - off) in take off (content b) @ take n d @ drop (off + n) (content b))"
proof -
  define n where "n = min (length d) (m_iSize b - off)"
  have r: "Replace off d b = (if n = 0 then (0, b) else
      (n, b\<lparr>m_pMemory := memcpy (m_iHead b + off) (take n d) (m_pMemory b)\<rparr>))"
    by (auto simp: Replace_def Let_def n_def min_def)
  show ?thesis
  proof (cases "n = 0")
    case True
    with ok r show ?thesis by (simp add: Let_def n_def [symmetric])
  next
    case False
    have n: "length (take n d) = n" "off + n \<le> m_iSize b" using False by (auto simp: n_def)
    then have "min (m_iCapacity b - m_iHead b) off = off" using ok by (auto simp: bytes_ok_def)
    with n ok r False show ?thesis
      by (simp add: Let_def n_def [symmetric] bytes_ok_def content_def memcpy_def drop_take
            add.commute add.left_commute)
  qed
qed

text \<open>With memory available and sizes far from the address space's end, appending succeeds.\<close>

lemma grow_cap_returns:
  "0 < c \<Longrightarrow> c \<le> 2 ^ 61 \<Longrightarrow> n \<le> 2 ^ 61 \<Longrightarrow> \<exists>k. grow_cap c n = Inr k \<and> k \<le> 2 ^ 62"
proof (induction c n rule: grow_cap.induct)
  case (1 c n)
  show ?case
  proof (cases "2 * c < n")
    case True
    with 1 obtain k where "grow_cap (2 * c) n = Inr k \<and> k \<le> 2 ^ 62" by fastforce
    with True 1 show ?thesis by (subst grow_cap.simps) simp
  next
    case False
    with 1 show ?thesis by (subst grow_cap.simps) simp
  qed
qed

lemma Grow_returns:
  assumes "bytes_ok b" and "\<forall>k. avail A k" and "m_iCapacity b \<le> 2 ^ 61" and "n \<le> 2 ^ 61"
  shows "\<exists>b'. Grow A n b = Inr b'"
proof -
  have "0 < (if m_iCapacity b \<noteq> 0 then m_iCapacity b else 32)"
    and "(if m_iCapacity b \<noteq> 0 then m_iCapacity b else 32) \<le> 2 ^ 61" using assms(3) by auto
  from grow_cap_returns [OF this assms(4)] obtain k
    where "grow_cap (if m_iCapacity b \<noteq> 0 then m_iCapacity b else 32) n = Inr k" "k \<le> 2 ^ 62" by blast
  with assms(2) show ?thesis by (simp add: Grow_def malloc_def)
qed

lemma Append_ext_returns:
  assumes "bytes_ok b" and "\<forall>k. avail A k" and "m_iCapacity b \<le> 2 ^ 61" and "m_iSize b + length d \<le> 2 ^ 61"
  shows "\<exists>b'. Append_ext A d b = Inr b'"
  using Grow_returns [OF assms] assms(4) by (auto simp: Append_ext_def)

section \<open>The contract of the buffer\<close>

text \<open>
  What the stream, the session and the log queue rely on: appending adds at the end, erasing from
  the front drops a prefix, clearing empties, and each keeps the buffer well formed. Inside the
  locale, a producer/consumer law: what is consumed after a run of appends is a prefix of what
  was appended, in order.
\<close>

locale byte_buffer =
  fixes invar :: "'b \<Rightarrow> bool"
    and cont :: "'b \<Rightarrow> bytes"
    and app :: "bytes \<Rightarrow> 'b \<Rightarrow> exc + 'b"
    and drop_front :: "nat \<Rightarrow> 'b \<Rightarrow> 'b"
    and clr :: "'b \<Rightarrow> 'b"
  assumes app_law: "invar b \<Longrightarrow> app d b = Inr b' \<Longrightarrow> length d \<le> OBJECT_MAX
      \<Longrightarrow> invar b' \<and> cont b' = cont b @ d"
    and drop_law: "invar b \<Longrightarrow> invar (drop_front n b) \<and> cont (drop_front n b) = drop n (cont b)"
    and clr_law: "invar b \<Longrightarrow> invar (clr b) \<and> cont (clr b) = []"
begin

fun app_all :: "bytes list \<Rightarrow> 'b \<Rightarrow> exc + 'b" where
  "app_all [] b = Inr b"
| "app_all (d # ds) b = (case app d b of Inl e \<Rightarrow> Inl e | Inr b' \<Rightarrow> app_all ds b')"

lemma app_all_law:
  "invar b \<Longrightarrow> app_all ds b = Inr b' \<Longrightarrow> list_all (\<lambda>d. length d \<le> OBJECT_MAX) ds
     \<Longrightarrow> invar b' \<and> cont b' = cont b @ concat ds"
proof (induction ds arbitrary: b)
  case Nil
  then show ?case by simp
next
  case (Cons d ds)
  from Cons.prems obtain b1 where b1: "app d b = Inr b1" "app_all ds b1 = Inr b'"
    by (auto split: sum.splits)
  from app_law [OF Cons.prems(1) b1(1)] Cons.prems(3) Cons.IH [OF _ b1(2)] show ?case by simp
qed

lemma drop_after_app:
  assumes "invar b" and "app d b = Inr b'" and "length d \<le> OBJECT_MAX"
  shows "cont (drop_front (length (cont b)) b') = d"
  using app_law [OF assms] drop_law [of b' "length (cont b)"] by simp

end

interpretation oi_bytes: byte_buffer bytes_ok content "Append_ext A" "\<lambda>n b. snd (Erase 0 n b)" Clear
  for A
proof (unfold_locales, goal_cases)
  case (1 b d b')
  then show ?case by (rule Append_ext_content)
next
  case (2 b n)
  then show ?case using Erase_content [of b 0 n] by simp
next
  case (3 b)
  then show ?case by (simp add: Clear_ok)
qed

section \<open>Sequences of operations\<close>

text \<open>
  The operations a caller can issue, and the same sequence on plain lists. A source is memory
  outside the buffer or a window of the buffer's own current content.
\<close>

datatype bytes_src = Outside bytes | Window nat nat

datatype bytes_op =
    OpAppend bytes_src
  | OpInsert nat bytes_src
  | OpErase nat nat
  | OpReplace nat bytes
  | OpReserve nat
  | OpClear

fun src_at :: "bytes_obj \<Rightarrow> bytes_src \<Rightarrow> src" where
  "src_at b (Outside d) = Ext d"
| "src_at b (Window i n) = Own (m_iHead b + i) n"

fun src_bytes :: "bytes \<Rightarrow> bytes_src \<Rightarrow> bytes" where
  "src_bytes xs (Outside d) = d"
| "src_bytes xs (Window i n) = take n (drop i xs)"

fun src_legal :: "bytes \<Rightarrow> bytes_src \<Rightarrow> bool" where
  "src_legal xs (Outside d) \<longleftrightarrow> length d \<le> OBJECT_MAX"
| "src_legal xs (Window i n) \<longleftrightarrow> i + n \<le> length xs"

fun bytes_step :: "allocator \<Rightarrow> bytes_op \<Rightarrow> bytes_obj \<Rightarrow> exc + bytes_obj" where
  "bytes_step A (OpAppend s) b = (case Append A (src_at b s) b of Inl e \<Rightarrow> Inl e | Inr (n, b') \<Rightarrow> Inr b')"
| "bytes_step A (OpInsert i s) b = (case Insert A i (src_at b s) b of Inl e \<Rightarrow> Inl e | Inr (n, b') \<Rightarrow> Inr b')"
| "bytes_step A (OpErase i n) b = Inr (snd (Erase i n b))"
| "bytes_step A (OpReplace i d) b = Inr (snd (Replace i d b))"
| "bytes_step A (OpReserve n) b = (case Reserve A n b of Inl e \<Rightarrow> Inl e | Inr (c, b') \<Rightarrow> Inr b')"
| "bytes_step A OpClear b = Inr (Clear b)"

fun list_step :: "bytes_op \<Rightarrow> bytes \<Rightarrow> bytes" where
  "list_step (OpAppend s) xs = xs @ src_bytes xs s"
| "list_step (OpInsert i s) xs = take i xs @ src_bytes xs s @ drop i xs"
| "list_step (OpErase i n) xs = take i xs @ drop (i + n) xs"
| "list_step (OpReplace i d) xs =
     (let n = min (length d) (length xs - i) in take i xs @ take n d @ drop (i + n) xs)"
| "list_step (OpReserve n) xs = take n xs"
| "list_step OpClear xs = []"

fun op_legal :: "bytes_op \<Rightarrow> bytes \<Rightarrow> bool" where
  "op_legal (OpAppend s) xs = src_legal xs s"
| "op_legal (OpInsert i s) xs = src_legal xs s"
| "op_legal (OpReserve n) xs = (n \<le> OBJECT_MAX)"
| "op_legal _ xs = True"

fun bytes_run :: "allocator \<Rightarrow> bytes_op list \<Rightarrow> bytes_obj \<Rightarrow> exc + bytes_obj" where
  "bytes_run A [] b = Inr b"
| "bytes_run A (op # ops) b = (case bytes_step A op b of Inl e \<Rightarrow> Inl e | Inr b' \<Rightarrow> bytes_run A ops b')"

fun ops_legal :: "bytes_op list \<Rightarrow> bytes \<Rightarrow> bool" where
  "ops_legal [] xs = True"
| "ops_legal (op # ops) xs = (op_legal op xs \<and> ops_legal ops (list_step op xs))"

lemma src_at_laws:
  assumes "bytes_ok b" and "src_legal (content b) s"
  shows "src_len (src_at b s) \<le> OBJECT_MAX"
    and "\<And>o' k. src_at b s = Own o' k \<Longrightarrow> o' + k \<le> m_iCapacity b"
    and "(case src_at b s of Ext d \<Rightarrow> d | Own o' k \<Rightarrow> take k (drop o' (m_pMemory b))) = src_bytes (content b) s"
proof -
  have "src_len (src_at b s) \<le> OBJECT_MAX \<and> (\<forall>o' k. src_at b s = Own o' k \<longrightarrow> o' + k \<le> m_iCapacity b)
    \<and> (case src_at b s of Ext d \<Rightarrow> d | Own o' k \<Rightarrow> take k (drop o' (m_pMemory b))) = src_bytes (content b) s"
  proof (cases s)
    case (Outside d)
    then show ?thesis using assms by simp
  next
    case (Window i n)
    have le: "i + n \<le> m_iSize b" using assms Window by simp
    then have "n = min n (m_iSize b - i)" by simp
    then have "take n (drop i (content b)) = take n (drop (m_iHead b + i) (m_pMemory b))"
      unfolding content_def window_take_drop by simp
    with le assms(1) Window show ?thesis by (auto simp: bytes_ok_def)
  qed
  then show "src_len (src_at b s) \<le> OBJECT_MAX" and "\<And>o' k. src_at b s = Own o' k \<Longrightarrow> o' + k \<le> m_iCapacity b"
    and "(case src_at b s of Ext d \<Rightarrow> d | Own o' k \<Rightarrow> take k (drop o' (m_pMemory b))) = src_bytes (content b) s"
    by blast+
qed

lemma bytes_step_refines:
  assumes ok: "bytes_ok b" and legal: "op_legal op (content b)" and step: "bytes_step A op b = Inr b'"
  shows "bytes_ok b' \<and> content b' = list_step op (content b)"
proof (cases op)
  case (OpAppend s)
  with step obtain n where a: "Append A (src_at b s) b = Inr (n, b')" by (auto split: sum.splits)
  have l: "src_legal (content b) s" using legal OpAppend by simp
  note L = src_at_laws [OF ok l]
  from Append_content [OF ok a L(1,2)] L(3) OpAppend show ?thesis by simp
next
  case (OpInsert i s)
  with step obtain n where a: "Insert A i (src_at b s) b = Inr (n, b')" by (auto split: sum.splits)
  have l: "src_legal (content b) s" using legal OpInsert by simp
  note L = src_at_laws [OF ok l]
  from Insert_content [OF ok a L(1,2)] L(3) OpInsert show ?thesis by simp
next
  case (OpErase i n)
  with step Erase_content [OF ok, of i n] show ?thesis by auto
next
  case (OpReplace i d)
  with step Replace_content [OF ok, of i d] ok show ?thesis by (auto simp: Let_def)
next
  case (OpReserve n)
  with step obtain c where r: "Reserve A n b = Inr (c, b')" by (auto split: sum.splits)
  have "m_iHead b + n < SIZE_MOD" using ok legal OpReserve by (simp add: bytes_ok_def)
  from Reserve_content [OF ok r this] OpReserve show ?thesis by simp
next
  case OpClear
  with step ok show ?thesis by (auto simp: Clear_ok)
qed

lemma grow_cap_le: "grow_cap c n = Inr k \<Longrightarrow> k = 2 * c \<or> k < 2 * n"
proof (induction c n rule: grow_cap.induct)
  case (1 c n)
  then show ?case by (subst (asm) (2) grow_cap.simps) (auto split: if_splits)
qed

lemma Grow_cap_bound:
  assumes ok: "bytes_ok b" and g: "Grow A n b = Inr b'" and n: "m_iSize b \<le> n" "m_iHead b + n < SIZE_MOD"
  shows "m_iCapacity b' \<le> max (m_iCapacity b) (max 64 (4 * n))"
proof -
  have wrap: "(m_iHead b + n) mod SIZE_MOD = m_iHead b + n" using n(2) by (rule mod_less)
  consider "m_iHead b + n \<le> m_iCapacity b"
    | "\<not> m_iHead b + n \<le> m_iCapacity b" "n \<le> m_iCapacity b \<and> m_iHead b \<ge> m_iSize b"
    | "\<not> m_iHead b + n \<le> m_iCapacity b" "\<not> (n \<le> m_iCapacity b \<and> m_iHead b \<ge> m_iSize b)" by blast
  then show ?thesis
  proof cases
    case 1
    with g show ?thesis by (simp add: Grow_def wrap)
  next
    case 2
    with g have "m_iCapacity b' = m_iCapacity b" by (auto simp: Grow_def wrap)
    then show ?thesis by simp
  next
    case 3
    with g obtain k where k: "grow_cap (if m_iCapacity b \<noteq> 0 then m_iCapacity b else 32) n = Inr k"
      and b': "m_iCapacity b' = k"
      unfolding Grow_def wrap by (simp only: if_False split: sum.splits option.splits) auto
    have "2 * m_iCapacity b \<le> 4 * n" using 3 n(1) by auto
    with grow_cap_le [OF k] b' show ?thesis by (auto split: if_splits)
  qed
qed

text \<open>Appending when memory is available: it succeeds, and the block stays within a factor of its use.\<close>

lemma Append_ext_total:
  assumes "bytes_ok b" and "\<forall>k. avail A k" and "m_iCapacity b \<le> 2 ^ 61" and "m_iSize b + length d \<le> 2 ^ 61"
  shows "\<exists>b'. Append_ext A d b = Inr b' \<and> bytes_ok b' \<and> content b' = content b @ d
    \<and> m_iCapacity b' \<le> max (m_iCapacity b) (max 64 (4 * (m_iSize b + length d)))"
proof -
  from Append_ext_returns [OF assms] obtain b' where b': "Append_ext A d b = Inr b'" ..
  have "length d \<le> OBJECT_MAX" using assms(4) by simp
  from Append_ext_content [OF assms(1) b' this] have c: "bytes_ok b'" "content b' = content b @ d" by auto
  have "m_iCapacity b' \<le> max (m_iCapacity b) (max 64 (4 * (m_iSize b + length d)))"
  proof (cases "d = []")
    case True
    with b' show ?thesis by (simp add: Append_ext_def)
  next
    case False
    with b' obtain b1 where g: "Grow A (m_iSize b + length d) b = Inr b1" and "m_iCapacity b' = m_iCapacity b1"
      by (auto simp: Append_ext_def split: if_splits sum.splits)
    moreover have "m_iHead b + (m_iSize b + length d) < SIZE_MOD" using assms(1,4) by (simp add: bytes_ok_def)
    ultimately show ?thesis using Grow_cap_bound [OF assms(1) g] by simp
  qed
  with b' c show ?thesis by auto
qed

text \<open>The same for a buffer whose contents stay far below the size of the address space.\<close>

lemma Append_ext_within:
  assumes "bytes_ok b" and "\<forall>k. avail A k" and "m_iCapacity b \<le> 2 ^ 61" and "m_iSize b + length d \<le> 2 ^ 59"
  obtains b' where "Append_ext A d b = Inr b'" "bytes_ok b'" "content b' = content b @ d" "m_iCapacity b' \<le> 2 ^ 61"
    "m_iSize b' = m_iSize b + length d"
proof -
  have "m_iSize b + length d \<le> 2 ^ 61" using assms(4) by simp
  from Append_ext_total [OF assms(1-3) this] obtain b' where b': "Append_ext A d b = Inr b'" "bytes_ok b'"
    "content b' = content b @ d" "m_iCapacity b' \<le> max (m_iCapacity b) (max 64 (4 * (m_iSize b + length d)))" by blast
  have "4 * (m_iSize b + length d) \<le> 2 ^ 61" using assms(4) by simp
  with b'(4) assms(3) have "m_iCapacity b' \<le> 2 ^ 61" by auto
  moreover have "m_iSize b' = m_iSize b + length d" using b'(2,3) assms(1) by (metis length_append length_content)
  ultimately show ?thesis using b' that by blast
qed

section \<open>Properties\<close>

text \<open>
  C11: the buffer refines a plain byte list. Any sequence of \<open>Append\<close>, \<open>Insert\<close> (sources outside the
  buffer or inside its own content), \<open>Erase\<close>, \<open>Replace\<close>, \<open>Reserve\<close> and \<open>Clear\<close> that throws nothing keeps
  the representation invariant and leaves exactly the bytes the list operations give.
\<close>

theorem bytes_run_refines:
  assumes "bytes_ok b" and "ops_legal ops (content b)" and "bytes_run A ops b = Inr b'"
  shows "bytes_ok b' \<and> content b' = fold list_step ops (content b)"
  using assms
proof (induction ops arbitrary: b)
  case Nil
  then show ?case by simp
next
  case (Cons op ops)
  then obtain b1 where b1: "bytes_step A op b = Inr b1" "bytes_run A ops b1 = Inr b'"
    by (auto split: sum.splits)
  from Cons.prems bytes_step_refines [OF _ _ b1(1)]
  have "bytes_ok b1" "content b1 = list_step op (content b)" by simp_all
  with Cons.IH [OF _ _ b1(2)] Cons.prems(2) show ?case by simp
qed

theorem bytes_run_refines_witness:
  "\<exists>b'. bytes_run \<lparr>avail = \<lambda>_. True, junk = \<lambda>_. CHR ''?''\<rparr>
      [OpAppend (Outside ''hello''), OpErase 0 2, OpInsert 1 (Window 0 2), OpReplace 2 ''XY''] Bytes_empty = Inr b'
    \<and> content b' = ''llXYo''"
proof -
  let ?A = "\<lparr>avail = \<lambda>_. True, junk = \<lambda>_. CHR ''?''\<rparr>"
  let ?ops = "[OpAppend (Outside ''hello''), OpErase 0 2, OpInsert 1 (Window 0 2), OpReplace 2 ''XY'']"
  have "\<exists>b'. bytes_run ?A ?ops Bytes_empty = Inr b'"
    by (simp add: Append_ext_def Insert_ext_def Bytes_new_def Grow_def grow_cap.simps malloc_def Bytes_empty_def
        Erase_def Replace_def memcpy_def memmove_def upt_rec content_def)
  then obtain b' where b': "bytes_run ?A ?ops Bytes_empty = Inr b'" ..
  have "ops_legal ?ops (content Bytes_empty)" by simp
  from bytes_run_refines [OF bytes_ok_empty this b'] have "content b' = ''llXYo''" by simp
  with b' show ?thesis by blast
qed

text \<open>
  Appending succeeds when memory is available, whatever the head offset, and the block it leaves
  is never more than four times the bytes it holds (or 64 bytes, or as large as it was).
\<close>

theorem Append_ext_capacity:
  assumes "bytes_ok b" and "\<forall>k. avail A k" and "m_iCapacity b \<le> 2 ^ 61" and "m_iSize b + length d \<le> 2 ^ 61"
  shows "\<exists>b'. Append_ext A d b = Inr b' \<and> content b' = content b @ d
    \<and> m_iCapacity b' \<le> max (m_iCapacity b) (max 64 (4 * length (content b')))"
  using Append_ext_total [OF assms] assms(1) by auto

theorem Append_ext_capacity_witness:
  "\<exists>b'. Append_ext \<lparr>avail = \<lambda>_. True, junk = \<lambda>_. CHR ''?''\<rparr> ''abc'' Bytes_empty = Inr b' \<and> content b' = ''abc''
    \<and> m_iCapacity b' \<le> 64"
  using Append_ext_capacity [of Bytes_empty "\<lparr>avail = \<lambda>_. True, junk = \<lambda>_. CHR ''?''\<rparr>" "''abc''"]
  by (simp add: Bytes_empty_def bytes_ok_def content_def [of "\<lparr>m_pMemory = [], m_iCapacity = 0, m_iHead = 0, m_iSize = 0\<rparr>"]) auto

end
