(* ===== verification/OI_Stream.thy ===== *)
theory OI_Stream
  imports OI_Bytes "HOL-Library.Char_ord" "HOL-Library.List_Lexorder"
begin

text \<open>
  The serialisation stream \<open>OI::Base::BytesStream\<close> (cbaselib/base/inc/oi_bytes_stream.h and
  src/oi_bytes_stream.cpp): a byte buffer with a read cursor and a snapshot of it. Encoding appends
  at the end, decoding reads at the cursor and throws \<open>ParserException\<close> when bytes are missing.

  A write returns the exception it threw, if any, and the stream as it is then; a read returns an
  exception or a value, and the stream. A C++ integer, enum or floating-point type of \<open>n\<close> bits is a
  word of that length (floats as their bit pattern), written little-endian. \<open>std::vector\<close> is a list,
  \<open>std::map\<close> a list of pairs in ascending key order.

  The locale \<open>pb_codec\<close> is what the overloads of \<open>WritePb\<close>/\<open>ReadPb\<close> for one type promise together:
  a field written is a header and a payload, and reading the payload gives the value back. It is
  interpreted on the overloads for words, bool, string, Bytes, vectors and maps.
\<close>

section \<open>State and cursor\<close>

record stream =
  buf :: bytes_obj
  m_iCurrentPosition :: nat
  m_iSnapshotPosition :: nat

type_synonym wr = "stream \<Rightarrow> exc option \<times> stream"
type_synonym 'a rd = "stream \<Rightarrow> (exc + 'a) \<times> stream"

definition Stream_empty :: stream where
  "Stream_empty = \<lparr>buf = Bytes_empty, m_iCurrentPosition = 0, m_iSnapshotPosition = 0\<rparr>"

definition Stream_of :: "allocator \<Rightarrow> bytes \<Rightarrow> exc + stream" where
  "Stream_of A d = (case Bytes_new A d of Inl e \<Rightarrow> Inl e
     | Inr b \<Rightarrow> Inr \<lparr>buf = b, m_iCurrentPosition = 0, m_iSnapshotPosition = 0\<rparr>)"

definition Stream_Clear :: "stream \<Rightarrow> stream" where
  "Stream_Clear s = s\<lparr>buf := Clear (buf s), m_iCurrentPosition := 0, m_iSnapshotPosition := 0\<rparr>"

definition AddCurPos :: "nat \<Rightarrow> stream \<Rightarrow> stream" where
  "AddCurPos n s = s\<lparr>m_iCurrentPosition := (m_iCurrentPosition s + n) mod SIZE_MOD\<rparr>"

definition RemainSize :: "stream \<Rightarrow> nat" where
  "RemainSize s = size_sub (m_iSize (buf s)) (m_iCurrentPosition s)"

text \<open>The \<open>n\<close> bytes at \<open>GetCurPtr()\<close>.\<close>

definition cur_bytes :: "nat \<Rightarrow> stream \<Rightarrow> bytes" where
  "cur_bytes n s = take n (drop (m_iHead (buf s) + m_iCurrentPosition s) (m_pMemory (buf s)))"

definition StartTransaction :: "stream \<Rightarrow> stream" where
  "StartTransaction s = s\<lparr>m_iSnapshotPosition := m_iCurrentPosition s\<rparr>"

definition RollBack :: "stream \<Rightarrow> stream" where
  "RollBack s = s\<lparr>m_iCurrentPosition := m_iSnapshotPosition s\<rparr>"

section \<open>Plain values\<close>

definition s_append :: "allocator \<Rightarrow> bytes \<Rightarrow> wr" where
  "s_append A d s = (case Append_ext A d (buf s) of Inl e \<Rightarrow> (Some e, s)
     | Inr b \<Rightarrow> (None, s\<lparr>buf := b\<rparr>))"

definition w_then :: "wr \<Rightarrow> wr \<Rightarrow> wr" where
  "w_then f g s = (case f s of (Some e, s') \<Rightarrow> (Some e, s') | (None, s') \<Rightarrow> g s')"

definition put_word :: "allocator \<Rightarrow> 'a::len word \<Rightarrow> wr" where
  "put_word A v = s_append A (le_bytes (LENGTH('a) div 8) (unat v))"

definition get_word :: "'a::len word rd" where
  "get_word s = (if RemainSize s < LENGTH('a) div 8 then (Inl ParserException, s)
     else (Inr (word_of_nat (le_val (cur_bytes (LENGTH('a) div 8) s))), AddCurPos (LENGTH('a) div 8) s))"

definition put_bool :: "allocator \<Rightarrow> bool \<Rightarrow> wr" where
  "put_bool A v = s_append A [char_of (if v then 1 else 0 :: nat)]"

definition get_bool :: "bool rd" where
  "get_bool s = (if RemainSize s < 1 then (Inl ParserException, s)
     else let iValue = le_val (cur_bytes 1 s)
          in if iValue > 1 then (Inl ParserException, s) else (Inr (iValue \<noteq> 0), AddCurPos 1 s))"

definition WriteLenPrefixed :: "allocator \<Rightarrow> bytes \<Rightarrow> wr" where
  "WriteLenPrefixed A d s =
     (if length d > INT32_MAX then (Some ParserException, s)
      else w_then (put_word A (word_of_nat (length d) :: u32))
             (\<lambda>s. if length d > 0 then s_append A d s else (None, s)) s)"

definition ReadLenPrefix :: "nat rd" where
  "ReadLenPrefix s = (case get_word s of
       (Inl e, s') \<Rightarrow> (Inl e, s')
     | (Inr (iSize :: u32), s') \<Rightarrow>
         if sint iSize < 0 \<or> RemainSize s' < unat iSize then (Inl ParserException, s')
         else (Inr (unat iSize), s'))"

definition put_string :: "allocator \<Rightarrow> bytes \<Rightarrow> wr" where
  "put_string A d = WriteLenPrefixed A d"

definition get_string :: "bytes rd" where
  "get_string s = (case ReadLenPrefix s of
       (Inl e, s') \<Rightarrow> (Inl e, s')
     | (Inr n, s') \<Rightarrow> (Inr (cur_bytes n s'), AddCurPos n s'))"

definition put_stream :: "allocator \<Rightarrow> stream \<Rightarrow> wr" where
  "put_stream A t = s_append A (content (buf t))"

fun put_each :: "('a \<Rightarrow> wr) \<Rightarrow> 'a list \<Rightarrow> wr" where
  "put_each w [] s = (None, s)"
| "put_each w (v # vs) s = w_then (w v) (put_each w vs) s"

fun get_each :: "'a rd \<Rightarrow> nat \<Rightarrow> 'a list rd" where
  "get_each r 0 s = (Inr [], s)"
| "get_each r (Suc n) s = (case r s of
       (Inl e, s') \<Rightarrow> (Inl e, s')
     | (Inr v, s') \<Rightarrow> (case get_each r n s' of
           (Inl e, s'') \<Rightarrow> (Inl e, s'') | (Inr vs, s'') \<Rightarrow> (Inr (v # vs), s'')))"

definition put_vector :: "allocator \<Rightarrow> ('a \<Rightarrow> wr) \<Rightarrow> 'a list \<Rightarrow> wr" where
  "put_vector A w vs = w_then (put_word A (word_of_nat (length vs) :: u32)) (put_each w vs)"

text \<open>\<open>iMinElem\<close> is \<open>sizeof(T)\<close> for a fixed-size element type and 1 otherwise.\<close>

definition get_vector :: "nat \<Rightarrow> 'a rd \<Rightarrow> 'a list rd" where
  "get_vector iMinElem r s = (case get_word s of
       (Inl e, s') \<Rightarrow> (Inl e, s')
     | (Inr (iSize :: u32), s') \<Rightarrow>
         if unat iSize > RemainSize s' div iMinElem then (Inl ParserException, s')
         else get_each r (unat iSize) s')"

section \<open>Tagged fields\<close>

datatype PbHeaderState = PB_HEADER_OK | PB_HEADER_NEED_MORE | PB_HEADER_BAD

text \<open>The data pointer of \<open>WritePbRaw\<close> is \<open>None\<close> for NULL.\<close>

definition WritePbRaw :: "allocator \<Rightarrow> u32 \<Rightarrow> bytes option \<Rightarrow> u32 \<Rightarrow> wr" where
  "WritePbRaw A iSequence pData iSize s =
     (if sint iSequence < 0 \<or> sint iSize < 0 then (Some ParserException, s)
      else w_then (put_word A iSequence) (w_then (put_word A iSize)
        (\<lambda>s. if iSize > 0 then
               (case pData of None \<Rightarrow> (Some ParserException, s)
                | Some d \<Rightarrow> s_append A (take (unat iSize) d) s)
             else (None, s))) s)"

definition PreparePbHeader :: "stream \<Rightarrow> PbHeaderState \<times> (u32 \<times> u32) option \<times> stream" where
  "PreparePbHeader s =
     (if RemainSize s < 8 then (PB_HEADER_NEED_MORE, None, s)
      else let iSequenceValue = word_of_nat (le_val (take 4 (cur_bytes 8 s)));
               iSizeValue = word_of_nat (le_val (drop 4 (cur_bytes 8 s)))
      in if sint (iSequenceValue :: u32) < 0 \<or> sint (iSizeValue :: u32) < 0
           then (PB_HEADER_BAD, None, s)
         else if RemainSize s < 8 + unat iSizeValue then (PB_HEADER_NEED_MORE, None, s)
         else (PB_HEADER_OK, Some (iSequenceValue, iSizeValue), AddCurPos 8 s))"

definition ReadPbHeader :: "(u32 \<times> u32) rd" where
  "ReadPbHeader s = (case PreparePbHeader s of
       (_, Some h, s') \<Rightarrow> (Inr h, s')
     | (_, None, s') \<Rightarrow> (Inl ParserException, s'))"

definition SkipPb :: "u32 \<Rightarrow> unit rd" where
  "SkipPb iSize s = (if RemainSize s < unat iSize then (Inl ParserException, s)
     else (Inr (), AddCurPos (unat iSize) s))"

definition WritePb_word :: "allocator \<Rightarrow> u32 \<Rightarrow> 'a::len word \<Rightarrow> wr" where
  "WritePb_word A iSequence v =
     WritePbRaw A iSequence (Some (le_bytes (LENGTH('a) div 8) (unat v))) (word_of_nat (LENGTH('a) div 8))"

definition WritePb_bool :: "allocator \<Rightarrow> u32 \<Rightarrow> bool \<Rightarrow> wr" where
  "WritePb_bool A iSequence v = WritePbRaw A iSequence (Some [char_of (if v then 1 else 0 :: nat)]) 1"

definition WritePb_string :: "allocator \<Rightarrow> u32 \<Rightarrow> bytes \<Rightarrow> wr" where
  "WritePb_string A iSequence d s =
     (if length d > INT32_MAX then (Some ParserException, s)
      else WritePbRaw A iSequence (if d = [] then None else Some d) (word_of_nat (length d)) s)"

text \<open>A nested object: its serialised form in a stream of its own is the payload.\<close>

definition WritePb_obj :: "allocator \<Rightarrow> ('o \<Rightarrow> wr) \<Rightarrow> u32 \<Rightarrow> 'o \<Rightarrow> wr" where
  "WritePb_obj A serialize iSequence v s =
     (case serialize v Stream_empty of
       (Some e, _) \<Rightarrow> (Some e, s)
     | (None, stInner) \<Rightarrow>
         let d = content (buf stInner)
         in if length d > INT32_MAX then (Some ParserException, s)
            else WritePbRaw A iSequence (if length d > 0 then Some d else None) (word_of_nat (length d)) s)"

definition WritePb_vector :: "(u32 \<Rightarrow> 'a \<Rightarrow> wr) \<Rightarrow> u32 \<Rightarrow> 'a list \<Rightarrow> wr" where
  "WritePb_vector w iSequence = put_each (w iSequence)"

definition ReadPb_word :: "u32 \<Rightarrow> 'a::len word rd" where
  "ReadPb_word iSize s =
     (if iSize \<noteq> word_of_nat (LENGTH('a) div 8) \<or> RemainSize s < unat iSize then (Inl ParserException, s)
      else (Inr (word_of_nat (le_val (cur_bytes (LENGTH('a) div 8) s))), AddCurPos (unat iSize) s))"

definition ReadPb_bool :: "u32 \<Rightarrow> bool rd" where
  "ReadPb_bool iSize s =
     (if iSize \<noteq> 1 \<or> RemainSize s < unat iSize then (Inl ParserException, s)
      else let iValue = le_val (cur_bytes 1 s)
           in if iValue > 1 then (Inl ParserException, s)
              else (Inr (iValue \<noteq> 0), AddCurPos (unat iSize) s))"

definition ReadPb_string :: "u32 \<Rightarrow> bytes rd" where
  "ReadPb_string iSize s =
     (if RemainSize s < unat iSize then (Inl ParserException, s)
      else (Inr (if iSize = 0 then [] else cur_bytes (unat iSize) s), AddCurPos (unat iSize) s))"

text \<open>\<open>ReadPb\<close> into a Bytes object clears it and appends the payload.\<close>

definition ReadPb_bytes :: "allocator \<Rightarrow> u32 \<Rightarrow> bytes_obj \<Rightarrow> stream \<Rightarrow> exc option \<times> bytes_obj \<times> stream" where
  "ReadPb_bytes A iSize b s =
     (if RemainSize s < unat iSize then (Some ParserException, b, s)
      else if iSize > 0 then
        (case Append_ext A (cur_bytes (unat iSize) s) (Clear b) of
          Inl e \<Rightarrow> (Some e, Clear b, s)
        | Inr b' \<Rightarrow> (None, b', AddCurPos (unat iSize) s))
      else (None, Clear b, AddCurPos (unat iSize) s))"

text \<open>
  A decoder that updates an object in place returns the exception, if any, the object as it was
  left and the stream. \<open>ReadPb_obj\<close> runs a nested object's decoder on a stream of the payload only
  and refuses left-over bytes.
\<close>

type_synonym 'o upd = "'o \<Rightarrow> stream \<Rightarrow> exc option \<times> 'o \<times> stream"

definition ReadPb_obj :: "allocator \<Rightarrow> 'o upd \<Rightarrow> u32 \<Rightarrow> 'o upd" where
  "ReadPb_obj A deserialize iSize v s =
     (if RemainSize s < unat iSize then (Some ParserException, v, s)
      else case (if iSize > 0 then s_append A (cur_bytes (unat iSize) s) Stream_empty
                 else (None, Stream_empty)) of
        (Some e, _) \<Rightarrow> (Some e, v, s)
      | (None, stSub) \<Rightarrow>
          (case deserialize v stSub of
            (Some e, v', _) \<Rightarrow> (Some e, v', s)
          | (None, v', stSub') \<Rightarrow>
              if RemainSize stSub' \<noteq> 0 then (Some ParserException, v', s)
              else (None, v', AddCurPos (unat iSize) s)))"

text \<open>An element of a vector field is decoded into a fresh value and pushed back.\<close>

definition ReadPb_vector :: "(u32 \<Rightarrow> 'a rd) \<Rightarrow> u32 \<Rightarrow> 'a list upd" where
  "ReadPb_vector r iSize vs s = (case r iSize s of
       (Inl e, s') \<Rightarrow> (Some e, vs, s')
     | (Inr v, s') \<Rightarrow> (None, vs @ [v], s'))"

text \<open>A decoder of a fresh value from a decoder in place and the default value.\<close>

definition rd_of_upd :: "'o \<Rightarrow> (u32 \<Rightarrow> 'o upd) \<Rightarrow> u32 \<Rightarrow> 'o rd" where
  "rd_of_upd v0 u iSize s = (case u iSize v0 s of
       (Some e, _, s') \<Rightarrow> (Inl e, s') | (None, v, s') \<Rightarrow> (Inr v, s'))"

text \<open>
  The loop every generated \<open>deserialize\<close> and the map decoder share: read a header, dispatch on the
  sequence number, until the stream is used up. Each round consumes at least the eight bytes of
  the header, so \<open>RemainSize\<close> rounds of fuel are enough; out of fuel is \<open>None\<close>.
\<close>

fun pb_loop :: "(u32 \<Rightarrow> u32 \<Rightarrow> 'o upd) \<Rightarrow> nat \<Rightarrow> 'o \<Rightarrow> stream \<Rightarrow> (exc option \<times> 'o \<times> stream) option" where
  "pb_loop field fuel v s =
     (if RemainSize s = 0 then Some (None, v, s)
      else case fuel of
        0 \<Rightarrow> None
      | Suc fuel' \<Rightarrow>
          (case ReadPbHeader s of
            (Inl e, s') \<Rightarrow> Some (Some e, v, s')
          | (Inr (iSequence, iSize), s') \<Rightarrow>
              (case field iSequence iSize v s' of
                (Some e, v', s'') \<Rightarrow> Some (Some e, v', s'')
              | (None, v', s'') \<Rightarrow> pb_loop field fuel' v' s'')))"

declare pb_loop.simps [simp del]

definition pb_fields :: "(u32 \<Rightarrow> u32 \<Rightarrow> 'o upd) \<Rightarrow> 'o upd" where
  "pb_fields field v s = (case pb_loop field (RemainSize s) v s of
       Some r \<Rightarrow> r | None \<Rightarrow> (Some ParserException, v, s))"

section \<open>Maps\<close>

definition map_insert :: "'k::linorder \<Rightarrow> 'v \<Rightarrow> ('k \<times> 'v) list \<Rightarrow> ('k \<times> 'v) list" where
  "map_insert k v m = (if k \<in> set (map fst m) then m else insort_key fst (k, v) m)"

fun put_pairs :: "allocator \<Rightarrow> (u32 \<Rightarrow> 'k \<Rightarrow> wr) \<Rightarrow> (u32 \<Rightarrow> 'v \<Rightarrow> wr) \<Rightarrow> ('k \<times> 'v) list \<Rightarrow> wr" where
  "put_pairs A wk wv [] stAll = (None, stAll)"
| "put_pairs A wk wv ((k, v) # m) stAll =
     (case w_then (wk 0 k) (wv 1 v) Stream_empty of
       (Some e, _) \<Rightarrow> (Some e, stAll)
     | (None, stPair) \<Rightarrow>
         let d = content (buf stPair); iPairSize = word_of_nat (length d) :: u32
         in w_then (WritePbRaw A 0 (if iPairSize \<noteq> 0 then Some d else None) iPairSize)
              (put_pairs A wk wv m) stAll)"

definition WritePb_map :: "allocator \<Rightarrow> (u32 \<Rightarrow> 'k \<Rightarrow> wr) \<Rightarrow> (u32 \<Rightarrow> 'v \<Rightarrow> wr)
    \<Rightarrow> u32 \<Rightarrow> ('k \<times> 'v) list \<Rightarrow> wr" where
  "WritePb_map A wk wv iSequence m s =
     (case put_pairs A wk wv m Stream_empty of
       (Some e, _) \<Rightarrow> (Some e, s)
     | (None, stAll) \<Rightarrow>
         let d = content (buf stAll); iSize = word_of_nat (length d) :: u32
         in WritePbRaw A iSequence (if iSize \<noteq> 0 then Some d else None) iSize s)"

text \<open>One field of a pair: key under 0, value under 1, anything else skipped.\<close>

definition pair_field :: "(u32 \<Rightarrow> 'k rd) \<Rightarrow> (u32 \<Rightarrow> 'v rd)
    \<Rightarrow> u32 \<Rightarrow> u32 \<Rightarrow> ('k option \<times> 'v option) upd" where
  "pair_field rk rv iFieldSequence iFieldSize kv s =
     (if iFieldSequence = 0 then
        (case rk iFieldSize s of (Inl e, s') \<Rightarrow> (Some e, kv, s') | (Inr k, s') \<Rightarrow> (None, (Some k, snd kv), s'))
      else if iFieldSequence = 1 then
        (case rv iFieldSize s of (Inl e, s') \<Rightarrow> (Some e, kv, s') | (Inr v, s') \<Rightarrow> (None, (fst kv, Some v), s'))
      else (case SkipPb iFieldSize s of (Inl e, s') \<Rightarrow> (Some e, kv, s') | (Inr _, s') \<Rightarrow> (None, kv, s')))"

definition map_pair :: "allocator \<Rightarrow> (u32 \<Rightarrow> 'k::linorder rd) \<Rightarrow> (u32 \<Rightarrow> 'v rd)
    \<Rightarrow> u32 \<Rightarrow> u32 \<Rightarrow> ('k \<times> 'v) list upd" where
  "map_pair A rk rv iPairSequence iPairSize m stAll =
     (case (if iPairSize > 0 then s_append A (cur_bytes (unat iPairSize) stAll) Stream_empty
            else (None, Stream_empty)) of
       (Some e, _) \<Rightarrow> (Some e, m, stAll)
     | (None, stPair) \<Rightarrow>
         let stAll' = AddCurPos (unat iPairSize) stAll
         in (case pb_fields (pair_field rk rv) (None, None) stPair of
              (Some e, _, _) \<Rightarrow> (Some e, m, stAll')
            | (None, (Some k, Some v), _) \<Rightarrow> (None, map_insert k v m, stAll')
            | (None, _, _) \<Rightarrow> (Some ParserException, m, stAll')))"

definition ReadPb_map :: "allocator \<Rightarrow> (u32 \<Rightarrow> 'k::linorder rd) \<Rightarrow> (u32 \<Rightarrow> 'v rd)
    \<Rightarrow> u32 \<Rightarrow> ('k \<times> 'v) list upd" where
  "ReadPb_map A rk rv iSize m s =
     (if RemainSize s < unat iSize then (Some ParserException, m, s)
      else case (if iSize > 0 then s_append A (cur_bytes (unat iSize) s) Stream_empty
                 else (None, Stream_empty)) of
        (Some e, _) \<Rightarrow> (Some e, m, s)
      | (None, stAll) \<Rightarrow>
          (case pb_fields (map_pair A rk rv) [] stAll of
            (r, m', _) \<Rightarrow> (r, m', AddCurPos (unat iSize) s)))"

section \<open>Invariant and abstraction\<close>

definition stream_ok :: "stream \<Rightarrow> bool" where
  "stream_ok s \<longleftrightarrow> bytes_ok (buf s) \<and> m_iCurrentPosition s \<le> m_iSize (buf s)"

definition unread :: "stream \<Rightarrow> bytes" where
  "unread s = drop (m_iCurrentPosition s) (content (buf s))"

definition pb_field :: "u32 \<Rightarrow> bytes \<Rightarrow> bytes" where
  "pb_field iSequence d = le_bytes 4 (unat iSequence) @ le_bytes 4 (length d) @ d"

text \<open>
  \<open>writes w d\<close>: whenever \<open>w\<close> returns normally it has appended \<open>d\<close> and moved no cursor.
  \<open>reads r d v\<close>: on a stream whose unread part starts with \<open>d\<close>, \<open>r\<close> returns \<open>v\<close> and has consumed
  exactly \<open>d\<close>.
\<close>

definition writes :: "wr \<Rightarrow> bytes \<Rightarrow> bool" where
  "writes w d \<longleftrightarrow> (\<forall>s s'. stream_ok s \<longrightarrow> w s = (None, s') \<longrightarrow>
     stream_ok s' \<and> content (buf s') = content (buf s) @ d
     \<and> m_iCurrentPosition s' = m_iCurrentPosition s \<and> m_iSnapshotPosition s' = m_iSnapshotPosition s)"

definition reads :: "'a rd \<Rightarrow> bytes \<Rightarrow> 'a \<Rightarrow> bool" where
  "reads r d v \<longleftrightarrow> (\<forall>s rest. stream_ok s \<longrightarrow> unread s = d @ rest \<longrightarrow> r s = (Inr v, AddCurPos (length d) s))"

definition all_avail :: "allocator \<Rightarrow> bool" where
  "all_avail A \<longleftrightarrow> (\<forall>n. avail A n)"

section \<open>Lemmas: cursor and appends\<close>

lemma stream_ok_empty [simp]: "stream_ok Stream_empty" "content (buf Stream_empty) = []"
  "m_iCurrentPosition Stream_empty = 0"
  by (simp_all add: stream_ok_def Stream_empty_def)

lemma RemainSize_unread: "stream_ok s \<Longrightarrow> RemainSize s = length (unread s)"
  by (simp add: RemainSize_def unread_def stream_ok_def bytes_ok_def)

lemma cur_bytes_unread: "stream_ok s \<Longrightarrow> n \<le> length (unread s) \<Longrightarrow> cur_bytes n s = take n (unread s)"
proof -
  assume ok: "stream_ok s" and n: "n \<le> length (unread s)"
  have u: "unread s = take (m_iSize (buf s) - m_iCurrentPosition s)
      (drop (m_iHead (buf s) + m_iCurrentPosition s) (m_pMemory (buf s)))"
    by (simp add: unread_def content_def drop_take add.commute)
  have "length (unread s) = m_iSize (buf s) - m_iCurrentPosition s"
    using ok by (simp add: unread_def stream_ok_def)
  with n show ?thesis by (simp add: cur_bytes_def u)
qed

lemma AddCurPos_unread:
  assumes "stream_ok s" and "n \<le> length (unread s)"
  shows "stream_ok (AddCurPos n s) \<and> unread (AddCurPos n s) = drop n (unread s)
    \<and> buf (AddCurPos n s) = buf s \<and> m_iCurrentPosition (AddCurPos n s) = m_iCurrentPosition s + n"
proof -
  have le: "m_iCurrentPosition s + n \<le> m_iSize (buf s)" "m_iSize (buf s) \<le> OBJECT_MAX"
    using assms by (auto simp: stream_ok_def unread_def bytes_ok_def)
  then have "(m_iCurrentPosition s + n) mod SIZE_MOD = m_iCurrentPosition s + n" by (intro mod_less) linarith
  then show ?thesis using assms(1) le by (simp add: AddCurPos_def stream_ok_def unread_def add.commute)
qed

lemma AddCurPos_AddCurPos [simp]: "AddCurPos m (AddCurPos n s) = AddCurPos (n + m) s"
  by (simp add: AddCurPos_def mod_add_left_eq add.assoc)

lemma s_append_writes: "length d \<le> OBJECT_MAX \<Longrightarrow> writes (s_append A d) d"
  unfolding writes_def
proof (intro allI impI)
  fix s s' assume d: "length d \<le> OBJECT_MAX" and ok: "stream_ok s" and w: "s_append A d s = (None, s')"
  then obtain b where b: "Append_ext A d (buf s) = Inr b" and s': "s' = s\<lparr>buf := b\<rparr>"
    by (auto simp: s_append_def split: sum.splits)
  from ok have "bytes_ok (buf s)" by (simp add: stream_ok_def)
  from oi_bytes.app_law [OF this b d] ok
  have b2: "bytes_ok b" "content b = content (buf s) @ d" by simp_all
  then have "m_iSize b = m_iSize (buf s) + length d"
    using \<open>bytes_ok (buf s)\<close> by (metis length_content length_append)
  with b2 ok show "stream_ok s' \<and> content (buf s') = content (buf s) @ d
     \<and> m_iCurrentPosition s' = m_iCurrentPosition s \<and> m_iSnapshotPosition s' = m_iSnapshotPosition s"
    by (simp add: s' stream_ok_def)
qed

lemma writesD:
  assumes "writes w d" and "stream_ok s" and "w s = (None, s')"
  shows "stream_ok s'" and "content (buf s') = content (buf s) @ d" and "unread s' = unread s @ d"
    and "m_iCurrentPosition s' = m_iCurrentPosition s"
proof -
  note w = assms(1) [unfolded writes_def, rule_format, OF assms(2,3)]
  then show "stream_ok s'" and c: "content (buf s') = content (buf s) @ d"
    and p: "m_iCurrentPosition s' = m_iCurrentPosition s" by simp_all
  have "m_iCurrentPosition s \<le> length (content (buf s))" using assms(2) by (simp add: stream_ok_def)
  then show "unread s' = unread s @ d" unfolding unread_def c p by simp
qed

lemma writes_skip [simp]: "writes (\<lambda>s. (None, s)) []"
  by (simp add: writes_def)

lemma writes_throw [simp]: "writes (\<lambda>s. (Some e, s)) d"
  by (simp add: writes_def)

lemma writes_then: "writes f d1 \<Longrightarrow> writes g d2 \<Longrightarrow> writes (w_then f g) (d1 @ d2)"
proof -
  assume f: "writes f d1" and g: "writes g d2"
  show ?thesis unfolding writes_def
  proof (intro allI impI)
    fix s s' assume ok: "stream_ok s" and w: "w_then f g s = (None, s')"
    then obtain s1 where 1: "f s = (None, s1)" "g s1 = (None, s')"
      by (auto simp: w_then_def split: prod.splits option.splits)
    note f = f [unfolded writes_def, rule_format, OF ok 1(1)]
    with g [unfolded writes_def, rule_format, OF _ 1(2)] show "stream_ok s' \<and> content (buf s') = content (buf s) @ d1 @ d2
     \<and> m_iCurrentPosition s' = m_iCurrentPosition s \<and> m_iSnapshotPosition s' = m_iSnapshotPosition s" by simp
  qed
qed

lemma writes_each: "(\<And>v. v \<in> set vs \<Longrightarrow> writes (w v) (e v)) \<Longrightarrow> writes (put_each w vs) (concat (map e vs))"
proof (induction vs)
  case Nil
  have "put_each w [] = (\<lambda>s. (None, s))" by (rule ext) simp
  then show ?case by simp
next
  case (Cons v vs)
  have "put_each w (v # vs) = w_then (w v) (put_each w vs)" by (rule ext) simp
  with Cons show ?case by (simp add: writes_then)
qed

lemma writes_word: "LENGTH('a) \<le> 64 \<Longrightarrow> writes (put_word A (v :: 'a::len word)) (le_bytes (LENGTH('a) div 8) (unat v))"
  unfolding put_word_def by (rule s_append_writes) simp

lemma put_u32: "writes (put_word A (v :: u32)) (le_bytes 4 (unat v))"
  using writes_word [of A v] by simp

lemma reads_intro:
  assumes "\<And>s. stream_ok s \<Longrightarrow> length d \<le> length (unread s) \<Longrightarrow> take (length d) (unread s) = d
    \<Longrightarrow> r s = (Inr v, AddCurPos (length d) s)"
  shows "reads r d v"
  unfolding reads_def using assms by simp

lemma get_word_reads:
  fixes v :: "'a::len word"
  assumes "8 dvd LENGTH('a)"
  shows "reads get_word (le_bytes (LENGTH('a) div 8) (unat v)) v"
  by (rule reads_intro) (simp add: get_word_def RemainSize_unread cur_bytes_unread assms)

lemma get_word_short:
  "stream_ok s \<Longrightarrow> length (unread s) < LENGTH('a) div 8
    \<Longrightarrow> (get_word s :: (exc + 'a::len word) \<times> stream) = (Inl ParserException, s)"
  by (simp add: get_word_def RemainSize_unread)

lemma get_bool_reads: "reads get_bool [char_of (if v then 1 else 0 :: nat)] v"
  by (rule reads_intro) (auto simp: get_bool_def RemainSize_unread cur_bytes_unread Let_def)

lemma put_string_writes:
  "length d \<le> INT32_MAX \<Longrightarrow> writes (put_string A d) (le_bytes 4 (length d) @ d)"
proof -
  assume d: "length d \<le> INT32_MAX"
  have "writes (\<lambda>s. if length d > 0 then s_append A d s else (None, s)) d"
    using d s_append_writes [of d A] by (cases "d = []") simp_all
  from writes_then [OF put_u32 [of A "word_of_nat (length d)"] this] d show ?thesis
    unfolding put_string_def WriteLenPrefixed_def [abs_def] by simp
qed

lemma get_string_reads:
  assumes "length d \<le> INT32_MAX"
  shows "reads get_string (le_bytes 4 (length d) @ d) d"
proof (rule reads_intro)
  fix s assume s: "stream_ok s" "length (le_bytes 4 (length d) @ d) \<le> length (unread s)"
    "take (length (le_bytes 4 (length d) @ d)) (unread s) = le_bytes 4 (length d) @ d"
  then obtain rest where u: "unread s = le_bytes 4 (length d) @ d @ rest"
    by (metis append_take_drop_id append.assoc)
  have g: "get_word s = (Inr (word_of_nat (length d) :: u32), AddCurPos 4 s)"
    using get_word_reads [of "word_of_nat (length d) :: u32"] s(1) u assms by (simp add: reads_def)
  from AddCurPos_unread [OF s(1), of 4] u
  have a: "stream_ok (AddCurPos 4 s)" "unread (AddCurPos 4 s) = d @ rest" by simp_all
  have "ReadLenPrefix s = (Inr (length d), AddCurPos 4 s)"
    using g a assms by (simp add: ReadLenPrefix_def RemainSize_unread sint_neg_u32)
  with a cur_bytes_unread [OF a(1), of "length d"]
  show "get_string s = (Inr d, AddCurPos (length (le_bytes 4 (length d) @ d)) s)"
    by (simp add: get_string_def)
qed

section \<open>Lemmas: tagged fields\<close>

lemma length_pb_field [simp]: "length (pb_field q d) = 8 + length d"
  by (simp add: pb_field_def)

lemma WritePbRaw_writes:
  assumes "length d \<le> INT32_MAX" and "d \<noteq> [] \<Longrightarrow> pd = Some d"
  shows "writes (WritePbRaw A q pd (word_of_nat (length d))) (pb_field q d)"
proof (cases "sint q < 0")
  case True
  then have "WritePbRaw A q pd (word_of_nat (length d)) = (\<lambda>s. (Some ParserException, s))"
    by (simp add: WritePbRaw_def [abs_def])
  then show ?thesis by simp
next
  case False
  let ?n = "word_of_nat (length d) :: u32"
  have n: "unat ?n = length d" "?n > 0 \<longleftrightarrow> d \<noteq> []"
    using assms(1) by (auto simp: word_less_nat_alt)
  have "writes (\<lambda>s. if ?n > 0 then (case pd of None \<Rightarrow> (Some ParserException, s)
                | Some d \<Rightarrow> s_append A (take (unat ?n) d) s) else (None, s)) d"
  proof (cases "d = []")
    case True
    then show ?thesis by simp
  next
    case False
    with assms n s_append_writes [of d A] show ?thesis by simp
  qed
  from writes_then [OF put_u32 [of A q] writes_then [OF put_u32 [of A ?n] this]] n(1) False assms(1)
  show ?thesis
    by (simp add: WritePbRaw_def [abs_def] pb_field_def sint_neg_u32)
qed

lemma WritePbRaw_seq: "WritePbRaw A q pd n s = (None, s') \<Longrightarrow> \<not> sint q < 0"
  by (auto simp: WritePbRaw_def split: if_splits)

lemma PreparePbHeader_ok:
  assumes ok: "stream_ok s" and u: "unread s = pb_field q d @ rest"
    and q: "\<not> sint q < 0" and d: "length d \<le> INT32_MAX"
  shows "PreparePbHeader s = (PB_HEADER_OK, Some (q, word_of_nat (length d)), AddCurPos 8 s)"
proof -
  have r: "RemainSize s = 8 + length d + length rest"
    using ok u by (simp add: RemainSize_unread)
  have c: "cur_bytes 8 s = le_bytes 4 (unat q) @ le_bytes 4 (length d)"
    using cur_bytes_unread [OF ok, of 8] u by (simp add: pb_field_def)
  have "unat q mod 4294967296 = unat q" using unat_mod_256 [of q] by simp
  moreover have "length d mod 4294967296 = length d" using d by simp
  ultimately show ?thesis
    using q d by (simp add: PreparePbHeader_def r c sint_neg_u32)
qed

text \<open>Fewer bytes than the whole field: nothing is consumed and the decoder asks for more.\<close>

lemma PreparePbHeader_partial:
  assumes ok: "stream_ok s" and u: "unread s @ later = pb_field q d @ rest" and short: "length (unread s) < 8 + length d"
    and q: "\<not> sint q < 0" and d: "length d \<le> INT32_MAX"
  shows "PreparePbHeader s = (PB_HEADER_NEED_MORE, None, s)"
proof (cases "length (unread s) < 8")
  case True
  then show ?thesis using ok by (simp add: PreparePbHeader_def RemainSize_unread)
next
  case False
  have "cur_bytes 8 s = take 8 (unread s @ later)"
    using cur_bytes_unread [OF ok, of 8] False by simp
  then have c: "cur_bytes 8 s = le_bytes 4 (unat q) @ le_bytes 4 (length d)"
    unfolding u by (simp add: pb_field_def)
  have "unat q mod 4294967296 = unat q" using unat_mod_256 [of q] by simp
  moreover have "length d mod 4294967296 = length d" using d by simp
  ultimately show ?thesis
    using q d False short ok by (simp add: PreparePbHeader_def RemainSize_unread c sint_neg_u32)
qed

lemma ReadPbHeader_ok:
  "stream_ok s \<Longrightarrow> unread s = pb_field q d @ rest \<Longrightarrow> \<not> sint q < 0 \<Longrightarrow> length d \<le> INT32_MAX
    \<Longrightarrow> ReadPbHeader s = (Inr (q, word_of_nat (length d)), AddCurPos 8 s)"
  by (simp add: ReadPbHeader_def PreparePbHeader_ok)

lemma PreparePbHeader_progress:
  assumes "stream_ok s" and "PreparePbHeader s = (st, h, s')"
  shows "stream_ok s' \<and> buf s' = buf s \<and> (case h of None \<Rightarrow> s' = s
    | Some (q, n) \<Rightarrow> st = PB_HEADER_OK \<and> length (unread s) = 8 + length (unread s') \<and> unat n \<le> length (unread s'))"
proof (cases h)
  case None
  with assms show ?thesis by (auto simp: PreparePbHeader_def Let_def split: if_splits)
next
  case (Some qn)
  obtain q n where qn: "qn = (q, n)" by (cases qn)
  from assms Some qn have s': "s' = AddCurPos 8 s" and st: "st = PB_HEADER_OK"
    and r: "8 + unat n \<le> length (unread s)"
    by (auto simp: PreparePbHeader_def Let_def RemainSize_unread split: if_splits)
  with AddCurPos_unread [OF assms(1), of 8] Some qn show ?thesis by simp
qed

section \<open>The loop over fields\<close>

definition field_reads :: "(u32 \<Rightarrow> u32 \<Rightarrow> 'o upd) \<Rightarrow> u32 \<Rightarrow> bytes \<Rightarrow> 'o \<Rightarrow> 'o \<Rightarrow> bool" where
  "field_reads field q d v v' \<longleftrightarrow> \<not> sint q < 0 \<and> length d \<le> INT32_MAX \<and>
     (\<forall>s rest. stream_ok s \<longrightarrow> unread s = d @ rest \<longrightarrow>
        field q (word_of_nat (length d)) v s = (None, v', AddCurPos (length d) s))"

fun fields_read :: "(u32 \<Rightarrow> u32 \<Rightarrow> 'o upd) \<Rightarrow> 'o \<Rightarrow> (u32 \<times> bytes) list \<Rightarrow> 'o \<Rightarrow> bool" where
  "fields_read field v [] v' = (v = v')"
| "fields_read field v ((q, d) # fs) v' = (\<exists>v1. field_reads field q d v v1 \<and> fields_read field v1 fs v')"

definition pb_layout :: "(u32 \<times> bytes) list \<Rightarrow> bytes" where
  "pb_layout fs = concat (map (\<lambda>(q, d). pb_field q d) fs)"

lemma pb_layout_simps [simp]: "pb_layout [] = []" "pb_layout ((q, d) # fs) = pb_field q d @ pb_layout fs"
  "pb_layout (fs @ gs) = pb_layout fs @ pb_layout gs"
  by (simp_all add: pb_layout_def)

lemma length_pb_layout: "length fs \<le> length (pb_layout fs)"
  by (induction fs) (auto simp: pb_layout_def)

lemma fields_read_append:
  "fields_read field v (fs @ gs) v' \<longleftrightarrow> (\<exists>v1. fields_read field v fs v1 \<and> fields_read field v1 gs v')"
proof (induction fs arbitrary: v)
  case Nil
  then show ?case by simp
next
  case (Cons f fs)
  then show ?case by (cases f) auto
qed

lemma pb_loop_layout:
  "fields_read field v fs v' \<Longrightarrow> stream_ok s \<Longrightarrow> unread s = pb_layout fs \<Longrightarrow> length fs \<le> fuel
    \<Longrightarrow> \<exists>s'. pb_loop field fuel v s = Some (None, v', s') \<and> stream_ok s' \<and> unread s' = [] \<and> buf s' = buf s"
proof (induction fs arbitrary: v s fuel)
  case Nil
  then show ?case by (subst pb_loop.simps) (simp add: RemainSize_unread)
next
  case (Cons f fs)
  obtain q d where f: "f = (q, d)" by (cases f)
  from Cons.prems(1) f obtain v1 where v1: "field_reads field q d v v1" "fields_read field v1 fs v'" by auto
  then have q: "\<not> sint q < 0" and d: "length d \<le> INT32_MAX" by (simp_all add: field_reads_def)
  have u: "unread s = pb_field q d @ pb_layout fs" using Cons.prems(3) f by simp
  obtain fuel' where fuel': "fuel = Suc fuel'" "length fs \<le> fuel'"
    using Cons.prems(4) by (cases fuel) auto
  note h = ReadPbHeader_ok [OF Cons.prems(2) u q d]
  from AddCurPos_unread [OF Cons.prems(2), of 8] u
  have s1: "stream_ok (AddCurPos 8 s)" "unread (AddCurPos 8 s) = d @ pb_layout fs" by (simp_all add: pb_field_def)
  from AddCurPos_unread [OF Cons.prems(2), of "8 + length d"] u
  have s2: "stream_ok (AddCurPos (8 + length d) s)" "unread (AddCurPos (8 + length d) s) = pb_layout fs"
    "buf (AddCurPos (8 + length d) s) = buf s" by simp_all
  from v1(1) s1 have r: "field q (word_of_nat (length d)) v (AddCurPos 8 s) = (None, v1, AddCurPos (8 + length d) s)"
    by (simp add: field_reads_def)
  from Cons.IH [OF v1(2) s2(1,2) fuel'(2)] obtain s'
    where "pb_loop field fuel' v1 (AddCurPos (8 + length d) s) = Some (None, v', s')"
      "stream_ok s'" "unread s' = []" "buf s' = buf s" using s2(3) by auto
  moreover have "RemainSize s \<noteq> 0" using Cons.prems(2) u by (simp add: RemainSize_unread)
  ultimately show ?case by (subst pb_loop.simps) (simp add: fuel'(1) h r)
qed

lemma pb_fields_layout:
  assumes "fields_read field v fs v'" and "stream_ok s" and "unread s = pb_layout fs"
  shows "\<exists>s'. pb_fields field v s = (None, v', s') \<and> stream_ok s' \<and> unread s' = [] \<and> buf s' = buf s"
proof -
  have "length fs \<le> RemainSize s" using assms(2,3) length_pb_layout by (simp add: RemainSize_unread)
  from pb_loop_layout [OF assms this] show ?thesis by (auto simp: pb_fields_def)
qed

text \<open>Enough fuel: a field decoder that never gives bytes back cannot exhaust it.\<close>

definition field_monotone :: "(u32 \<Rightarrow> u32 \<Rightarrow> 'o upd) \<Rightarrow> bool" where
  "field_monotone field \<longleftrightarrow> (\<forall>q n v s r v' s'. stream_ok s \<longrightarrow> field q n v s = (r, v', s') \<longrightarrow>
     stream_ok s' \<and> length (unread s') \<le> length (unread s))"

lemma pb_loop_returns:
  assumes mono: "field_monotone field"
  shows "stream_ok s \<Longrightarrow> length (unread s) \<le> fuel \<Longrightarrow> \<exists>r. pb_loop field fuel v s = Some r"
proof (induction fuel arbitrary: v s)
  case 0
  then show ?case by (subst pb_loop.simps) (simp add: RemainSize_unread)
next
  case (Suc fuel)
  obtain st h s1 where h: "PreparePbHeader s = (st, h, s1)" by (metis prod_cases3)
  show ?case
  proof (cases h)
    case None
    with h show ?thesis by (subst pb_loop.simps) (simp add: ReadPbHeader_def)
  next
    case (Some qn)
    obtain q n where qn: "qn = (q, n)" by (cases qn)
    from PreparePbHeader_progress [OF Suc.prems(1) h] Some qn
    have s1: "stream_ok s1" "length (unread s) = 8 + length (unread s1)" by auto
    obtain r v' s' where f: "field q n v s1 = (r, v', s')" by (metis prod_cases3)
    from mono [unfolded field_monotone_def, rule_format, OF s1(1) f] s1(2) Suc.prems(2)
    have "stream_ok s'" and "length (unread s') \<le> fuel" by auto
    from Suc.IH [OF this] h Some qn f show ?thesis
      by (subst pb_loop.simps) (auto simp: ReadPbHeader_def split: option.splits)
  qed
qed

section \<open>The contract of a field type\<close>

locale pb_codec =
  fixes enc :: "'v \<Rightarrow> bytes"
    and ok :: "'v \<Rightarrow> bool"
    and wr :: "allocator \<Rightarrow> u32 \<Rightarrow> 'v \<Rightarrow> wr"
    and rd :: "allocator \<Rightarrow> u32 \<Rightarrow> 'v rd"
  assumes wr_law: "ok v \<Longrightarrow> writes (wr A q v) (pb_field q (enc v))"
    and wr_seq: "wr A q v s = (None, s') \<Longrightarrow> \<not> sint q < 0"
    and len_law: "ok v \<Longrightarrow> length (enc v) \<le> INT32_MAX"
    and rd_law: "ok v \<Longrightarrow> all_avail A \<Longrightarrow> reads (rd A (word_of_nat (length (enc v)))) (enc v) v"
begin

text \<open>A field written at the end of a stream comes back: its header, then its value.\<close>

lemma field_roundtrip:
  assumes v: "ok v" and A: "all_avail A" and s: "stream_ok s" "unread s = []"
    and w: "wr A q v s = (None, s1)"
  shows "\<exists>s2 s3. ReadPbHeader s1 = (Inr (q, word_of_nat (length (enc v))), s2)
    \<and> rd A (word_of_nat (length (enc v))) s2 = (Inr v, s3) \<and> unread s3 = []"
proof -
  from writesD [OF wr_law [OF v] s(1) w] s(2)
  have s1: "stream_ok s1" "unread s1 = pb_field q (enc v) @ []" by simp_all
  note h = ReadPbHeader_ok [OF s1 wr_seq [OF w] len_law [OF v]]
  from AddCurPos_unread [OF s1(1), of 8] s1(2)
  have s2: "stream_ok (AddCurPos 8 s1)" "unread (AddCurPos 8 s1) = enc v @ []" by (simp_all add: pb_field_def)
  from rd_law [OF v A, unfolded reads_def, rule_format, OF s2]
  have "rd A (word_of_nat (length (enc v))) (AddCurPos 8 s1) = (Inr v, AddCurPos (length (enc v)) (AddCurPos 8 s1))" .
  moreover have "unread (AddCurPos (length (enc v)) (AddCurPos 8 s1)) = []"
    using AddCurPos_unread [OF s2(1), of "length (enc v)"] s2(2) by simp
  ultimately show ?thesis using h by blast
qed

lemma vector_writes:
  "list_all ok vs \<Longrightarrow> writes (WritePb_vector (wr A) q vs) (pb_layout (map (\<lambda>v. (q, enc v)) vs))"
  unfolding WritePb_vector_def pb_layout_def
  using writes_each [of vs "wr A q" "\<lambda>v. pb_field q (enc v)"]
  by (simp add: list_all_iff wr_law comp_def)

lemma field_reads_set:
  assumes "ok v" and "all_avail A" and "\<not> sint q < 0"
    and "\<And>n o' s. field q n o' s = (case rd A n s of (Inl e, s') \<Rightarrow> (Some e, o', s')
           | (Inr x, s') \<Rightarrow> (None, f x o', s'))"
  shows "field_reads field q (enc v) o' (f v o')"
  using assms rd_law [OF assms(1,2)] len_law [OF assms(1)] by (simp add: field_reads_def reads_def)

lemma fields_read_vector:
  assumes "all_avail A" and "\<not> sint q < 0"
    and "\<And>n o' s. field q n o' s = (case rd A n s of (Inl e, s') \<Rightarrow> (Some e, o', s')
           | (Inr x, s') \<Rightarrow> (None, f x o', s'))"
  shows "list_all ok vs \<Longrightarrow> fields_read field o' (map (\<lambda>v. (q, enc v)) vs) (fold f vs o')"
proof (induction vs arbitrary: o')
  case Nil
  then show ?case by simp
next
  case (Cons v vs)
  have "field_reads field q (enc v) o' (f v o')"
    by (rule field_reads_set [where A = A and f = f]) (use Cons.prems assms in auto)
  with Cons show ?case by auto
qed

end

interpretation word_codec: pb_codec
  "\<lambda>v :: 'a::len word. le_bytes (LENGTH('a) div 8) (unat v)"
  "\<lambda>_. 8 dvd LENGTH('a) \<and> LENGTH('a) \<le> 64" WritePb_word "\<lambda>_. ReadPb_word"
proof (unfold_locales, goal_cases)
  case (1 v A q)
  then have "le_bytes (LENGTH('a) div 8) (unat v) \<noteq> []" "length (le_bytes (LENGTH('a) div 8) (unat v)) \<le> INT32_MAX"
    by (auto simp flip: length_0_conv simp: dvd_div_eq_0_iff)
  then show ?case unfolding WritePb_word_def
    using WritePbRaw_writes [of "le_bytes (LENGTH('a) div 8) (unat v)" _ A q] by simp
next
  case (2 A q v s s')
  then show ?case unfolding WritePb_word_def by (rule WritePbRaw_seq)
next
  case (3 v)
  then have "LENGTH('a) div 8 \<le> 8" by (auto simp: div_le_mono [of _ 64 8, simplified])
  then show ?case by simp
next
  case (4 v A)
  then have "LENGTH('a) div 8 \<le> 8" by (auto simp: div_le_mono [of _ 64 8, simplified])
  then have n: "LENGTH('a) div 8 \<le> INT32_MAX" by simp
  show ?case
    by (rule reads_intro) (use 4 n in \<open>simp add: ReadPb_word_def RemainSize_unread cur_bytes_unread\<close>)
qed

interpretation bool_codec: pb_codec "\<lambda>v. [char_of (if v then 1 else 0 :: nat)]" "\<lambda>_. True"
  WritePb_bool "\<lambda>_. ReadPb_bool"
proof (unfold_locales, goal_cases)
  case (1 v A q)
  show ?case unfolding WritePb_bool_def
    using WritePbRaw_writes [of "[char_of (if v then 1 else 0 :: nat)]" _ A q] by simp
next
  case (2 A q v s s')
  then show ?case unfolding WritePb_bool_def by (rule WritePbRaw_seq)
next
  case (3 v)
  show ?case by simp
next
  case (4 v A)
  show ?case by (rule reads_intro) (auto simp: ReadPb_bool_def RemainSize_unread cur_bytes_unread Let_def)
qed

interpretation string_codec: pb_codec "\<lambda>d. d" "\<lambda>d. length d \<le> INT32_MAX"
  WritePb_string "\<lambda>_. ReadPb_string"
proof (unfold_locales, goal_cases)
  case (1 d A q)
  then show ?case unfolding WritePb_string_def [abs_def]
    using WritePbRaw_writes [of d "if d = [] then None else Some d" A q] by simp
next
  case (2 A q d s s')
  then show ?case by (auto simp: WritePb_string_def split: if_splits dest: WritePbRaw_seq)
next
  case (3 d)
  then show ?case .
next
  case (4 d A)
  have "(word_of_nat (length d) :: u32) = 0 \<longleftrightarrow> d = []" using 4(1) by (simp add: unat_eq_0 [symmetric])
  then show ?case
    by (intro reads_intro) (use 4 in \<open>auto simp: ReadPb_string_def RemainSize_unread cur_bytes_unread\<close>)
qed

lemma string_too_long: "length d > INT32_MAX \<Longrightarrow> WritePb_string A q d s = (Some ParserException, s)"
  by (simp add: WritePb_string_def)

section \<open>Nested objects and maps\<close>

text \<open>A payload copied into a stream of its own.\<close>

lemma sub_stream:
  assumes ok: "stream_ok s" and u: "unread s = d @ rest" and d: "length d \<le> INT32_MAX" and A: "all_avail A"
  shows "\<exists>t. (if (word_of_nat (length d) :: u32) > 0
      then s_append A (cur_bytes (unat (word_of_nat (length d) :: u32)) s) Stream_empty
      else (None, Stream_empty)) = (None, t) \<and> stream_ok t \<and> unread t = d \<and> content (buf t) = d"
proof (cases "d = []")
  case True
  then show ?thesis by (simp add: unread_def)
next
  case False
  have n: "unat (word_of_nat (length d) :: u32) = length d" using d by simp
  have pos: "(word_of_nat (length d) :: u32) > 0" using False n by (simp add: word_less_nat_alt)
  have c: "cur_bytes (length d) s = d" using cur_bytes_unread [OF ok, of "length d"] u by simp
  have "\<exists>b. Append_ext A d Bytes_empty = Inr b"
    using d A Append_ext_returns [OF bytes_ok_empty, of A d] by (simp add: all_avail_def Bytes_empty_def)
  then obtain t where t: "s_append A d Stream_empty = (None, t)"
    by (auto simp: s_append_def Stream_empty_def)
  have "length d \<le> OBJECT_MAX" using d by simp
  from writesD [OF s_append_writes [OF this] stream_ok_empty(1) t]
  have "stream_ok t \<and> unread t = d \<and> content (buf t) = d" by (simp add: unread_def)
  with t pos n c show ?thesis by simp
qed

locale pb_object =
  fixes lay :: "'o \<Rightarrow> bytes"
    and okobj :: "'o \<Rightarrow> bool"
    and ser :: "allocator \<Rightarrow> 'o \<Rightarrow> wr"
    and deser :: "allocator \<Rightarrow> 'o upd"
    and v0 :: 'o
  assumes ser_law: "okobj v \<Longrightarrow> writes (ser A v) (lay v)"
    and deser_law: "okobj v \<Longrightarrow> all_avail A \<Longrightarrow> stream_ok s \<Longrightarrow> unread s = lay v
      \<Longrightarrow> \<exists>s'. deser A v0 s = (None, v, s') \<and> stream_ok s' \<and> unread s' = []"
begin

lemma object_roundtrip:
  assumes "okobj v" and "all_avail A" and "stream_ok s" and "unread s = []" and "ser A v s = (None, s1)"
  shows "\<exists>s2. deser A v0 s1 = (None, v, s2) \<and> unread s2 = []"
  using writesD [OF ser_law [OF assms(1)] assms(3,5)] assms(4) deser_law [OF assms(1,2), of s1] by auto

lemma WritePb_obj_writes:
  assumes "okobj v" and "length (lay v) \<le> INT32_MAX"
  shows "writes (WritePb_obj A (ser A) q v) (pb_field q (lay v))"
  unfolding writes_def
proof (intro allI impI)
  fix s s' assume s: "stream_ok s" and w: "WritePb_obj A (ser A) q v s = (None, s')"
  obtain t where t: "ser A v Stream_empty = (None, t)"
    using w by (auto simp: WritePb_obj_def split: prod.splits option.splits)
  from writesD [OF ser_law [OF assms(1)] stream_ok_empty(1) t] have c: "content (buf t) = lay v" by simp
  have "WritePbRaw A q (if length (lay v) > 0 then Some (lay v) else None) (word_of_nat (length (lay v))) s = (None, s')"
    using w t c assms(2) by (auto simp: WritePb_obj_def Let_def split: if_splits)
  from WritePbRaw_writes [OF assms(2), unfolded writes_def, rule_format, OF _ s this]
  show "stream_ok s' \<and> content (buf s') = content (buf s) @ pb_field q (lay v)
     \<and> m_iCurrentPosition s' = m_iCurrentPosition s \<and> m_iSnapshotPosition s' = m_iSnapshotPosition s" by simp
qed

lemma ReadPb_obj_reads:
  assumes "okobj v" and "length (lay v) \<le> INT32_MAX" and A: "all_avail A"
  shows "reads (rd_of_upd v0 (ReadPb_obj A (deser A)) (word_of_nat (length (lay v)))) (lay v) v"
  unfolding reads_def
proof (intro allI impI)
  fix s rest assume s: "stream_ok s" "unread s = lay v @ rest"
  from sub_stream [OF s assms(2) A] obtain t where
    t: "(if (word_of_nat (length (lay v)) :: u32) > 0
      then s_append A (cur_bytes (unat (word_of_nat (length (lay v)) :: u32)) s) Stream_empty
      else (None, Stream_empty)) = (None, t)" "stream_ok t" "unread t = lay v" by blast
  from deser_law [OF assms(1) A t(2,3)] obtain t' where
    t': "deser A v0 t = (None, v, t')" "stream_ok t'" "unread t' = []" by blast
  have "\<not> RemainSize s < unat (word_of_nat (length (lay v)) :: u32)"
    using s assms(2) by (simp add: RemainSize_unread)
  moreover have "RemainSize t' = 0" using t' by (simp add: RemainSize_unread)
  ultimately show "rd_of_upd v0 (ReadPb_obj A (deser A)) (word_of_nat (length (lay v))) s
      = (Inr v, AddCurPos (length (lay v)) s)"
    unfolding rd_of_upd_def ReadPb_obj_def using t(1) t'(1) assms(2) by simp
qed

end

sublocale pb_object \<subseteq> as_field: pb_codec lay "\<lambda>v. okobj v \<and> length (lay v) \<le> INT32_MAX"
  "\<lambda>A q v. WritePb_obj A (ser A) q v" "\<lambda>A. rd_of_upd v0 (ReadPb_obj A (deser A))"
proof (unfold_locales, goal_cases)
  case (1 v A q)
  then show ?case by (simp add: WritePb_obj_writes)
next
  case (2 A q v s s')
  then show ?case
    by (auto simp: WritePb_obj_def Let_def split: prod.splits option.splits if_splits dest: WritePbRaw_seq)
next
  case (3 v)
  then show ?case by simp
next
  case (4 v A)
  then show ?case by (simp add: ReadPb_obj_reads)
qed

locale pb_map = key: pb_codec encK okK wrK rdK + val: pb_codec encV okV wrV rdV
  for encK :: "'k::linorder \<Rightarrow> bytes" and okK wrK rdK and encV :: "'v \<Rightarrow> bytes" and okV wrV rdV
begin

definition pair_bytes :: "'k \<times> 'v \<Rightarrow> bytes" where
  "pair_bytes kv = pb_field 0 (encK (fst kv)) @ pb_field 1 (encV (snd kv))"

definition map_bytes :: "('k \<times> 'v) list \<Rightarrow> bytes" where
  "map_bytes m = pb_layout (map (\<lambda>kv. (0, pair_bytes kv)) m)"

definition pair_ok :: "'k \<times> 'v \<Rightarrow> bool" where
  "pair_ok kv \<longleftrightarrow> okK (fst kv) \<and> okV (snd kv) \<and> length (pair_bytes kv) \<le> INT32_MAX"

lemma put_pairs_writes: "list_all pair_ok m \<Longrightarrow> writes (put_pairs A (wrK A) (wrV A) m) (map_bytes m)"
proof (induction m)
  case Nil
  have "put_pairs A (wrK A) (wrV A) [] = (\<lambda>s. (None, s))" by (rule ext) simp
  then show ?case by (simp add: map_bytes_def)
next
  case (Cons kv m)
  obtain k v where kv: "kv = (k, v)" by (cases kv)
  from Cons.prems have p: "okK k" "okV v" "length (pair_bytes (k, v)) \<le> INT32_MAX"
    by (auto simp: pair_ok_def kv)
  have wp: "writes (w_then (wrK A 0 k) (wrV A 1 v)) (pair_bytes (k, v))"
    using writes_then [OF key.wr_law [OF p(1)] val.wr_law [OF p(2)]] by (simp add: pair_bytes_def)
  show ?case
  proof (cases "w_then (wrK A 0 k) (wrV A 1 v) Stream_empty")
    case (Pair r t)
    show ?thesis
    proof (cases r)
      case (Some e)
      then have "put_pairs A (wrK A) (wrV A) (kv # m) = (\<lambda>s. (Some e, s))"
        using Pair by (intro ext) (simp add: kv)
      then show ?thesis by simp
    next
      case None
      from writesD [OF wp stream_ok_empty(1) Pair [unfolded None]] have c: "content (buf t) = pair_bytes (k, v)" by simp
      let ?n = "word_of_nat (length (pair_bytes (k, v))) :: u32"
      have "unat ?n = length (pair_bytes (k, v))" using p(3) by (rule unat_len32)
      moreover have "length (pair_bytes (k, v)) > 0" by (simp add: pair_bytes_def)
      ultimately have nz: "?n \<noteq> 0" by (metis unat_0 less_irrefl)
      have "put_pairs A (wrK A) (wrV A) (kv # m)
          = w_then (WritePbRaw A 0 (Some (pair_bytes (k, v))) ?n) (put_pairs A (wrK A) (wrV A) m)"
        using Pair None c nz by (intro ext) (simp add: kv Let_def)
      with writes_then [OF WritePbRaw_writes [OF p(3)] Cons.IH] Cons.prems show ?thesis
        by (simp add: map_bytes_def kv)
    qed
  qed
qed

lemma pair_fields_read:
  assumes "pair_ok kv" and A: "all_avail A"
  shows "fields_read (pair_field (rdK A) (rdV A)) (None, None)
    [(0, encK (fst kv)), (1, encV (snd kv))] (Some (fst kv), Some (snd kv))"
proof -
  have "field_reads (pair_field (rdK A) (rdV A)) 0 (encK (fst kv)) (None, None) (Some (fst kv), None)"
    using key.field_reads_set [of "fst kv" A 0 "pair_field (rdK A) (rdV A)" "\<lambda>k p. (Some k, snd p)" "(None, None)"]
      assms by (simp add: pair_field_def pair_ok_def)
  moreover have "field_reads (pair_field (rdK A) (rdV A)) 1 (encV (snd kv)) (Some (fst kv), None) (Some (fst kv), Some (snd kv))"
    using val.field_reads_set [of "snd kv" A 1 "pair_field (rdK A) (rdV A)" "\<lambda>v p. (fst p, Some v)" "(Some (fst kv), None)"]
      assms by (simp add: pair_field_def pair_ok_def)
  ultimately show ?thesis by auto
qed

lemma map_pair_reads:
  assumes p: "pair_ok kv" and A: "all_avail A"
  shows "field_reads (map_pair A (rdK A) (rdV A)) 0 (pair_bytes kv) m (map_insert (fst kv) (snd kv) m)"
  unfolding field_reads_def
proof (intro conjI allI impI)
  show len: "length (pair_bytes kv) \<le> INT32_MAX" using p by (simp add: pair_ok_def)
  fix s rest assume s: "stream_ok s" "unread s = pair_bytes kv @ rest"
  from sub_stream [OF s len A] obtain t where
    t: "(if (word_of_nat (length (pair_bytes kv)) :: u32) > 0
      then s_append A (cur_bytes (unat (word_of_nat (length (pair_bytes kv)) :: u32)) s) Stream_empty
      else (None, Stream_empty)) = (None, t)" "stream_ok t" "unread t = pair_bytes kv" by blast
  have "unread t = pb_layout [(0, encK (fst kv)), (1, encV (snd kv))]" using t(3) by (simp add: pair_bytes_def)
  from pb_fields_layout [OF pair_fields_read [OF p A] t(2) this] obtain t'
    where "pb_fields (pair_field (rdK A) (rdV A)) (None, None) t = (None, (Some (fst kv), Some (snd kv)), t')" by blast
  then show "map_pair A (rdK A) (rdV A) 0 (word_of_nat (length (pair_bytes kv))) m s
      = (None, map_insert (fst kv) (snd kv) m, AddCurPos (length (pair_bytes kv)) s)"
    unfolding map_pair_def using t(1) len by (simp add: Let_def)
qed simp

text \<open>Inserting in ascending key order rebuilds the list.\<close>

lemma map_insert_last: "\<forall>x \<in> set m. fst x < k \<Longrightarrow> map_insert k v m = m @ [(k, v)]"
proof (induction m)
  case Nil
  then show ?case by (simp add: map_insert_def)
next
  case (Cons x m)
  then have "k \<notin> set (map fst (x # m))" by auto
  then have k: "k \<notin> set (map fst m)" and x: "fst x < k" using Cons.prems by auto
  with Cons have "insort_key fst (k, v) m = m @ [(k, v)]" by (simp add: map_insert_def)
  with x \<open>k \<notin> set (map fst (x # m))\<close> show ?case by (auto simp: map_insert_def)
qed

lemma fields_read_map:
  assumes A: "all_avail A"
  shows "list_all pair_ok m \<Longrightarrow> sorted_wrt (\<lambda>a b. fst a < fst b) (acc @ m)
    \<Longrightarrow> fields_read (map_pair A (rdK A) (rdV A)) acc (map (\<lambda>kv. (0, pair_bytes kv)) m) (acc @ m)"
proof (induction m arbitrary: acc)
  case Nil
  then show ?case by simp
next
  case (Cons kv m)
  then have "map_insert (fst kv) (snd kv) acc = acc @ [kv]"
    by (subst map_insert_last) (auto simp: sorted_wrt_append)
  with map_pair_reads [of kv A acc] A Cons.prems Cons.IH [of "acc @ [kv]"] show ?case by auto
qed

lemma map_roundtrip:
  assumes m: "list_all pair_ok m" "sorted_wrt (\<lambda>a b. fst a < fst b) m" "length (map_bytes m) \<le> INT32_MAX"
    and A: "all_avail A" and s: "stream_ok s" "unread s = []"
    and w: "WritePb_map A (wrK A) (wrV A) q m s = (None, s1)"
  shows "\<exists>s2 s3. ReadPbHeader s1 = (Inr (q, word_of_nat (length (map_bytes m))), s2)
    \<and> ReadPb_map A (rdK A) (rdV A) (word_of_nat (length (map_bytes m))) m0 s2 = (None, m, s3) \<and> unread s3 = []"
proof -
  let ?d = "map_bytes m" and ?n = "word_of_nat (length (map_bytes m)) :: u32"
  have n0: "?n = 0 \<longleftrightarrow> ?d = []" using m(3) unat_len32 [OF m(3)] by (metis length_0_conv unat_0 unat_eq_zero)
  from w obtain t where t: "put_pairs A (wrK A) (wrV A) m Stream_empty = (None, t)"
    by (auto simp: WritePb_map_def split: prod.splits option.splits)
  from writesD [OF put_pairs_writes [OF m(1)] stream_ok_empty(1) t] have c: "content (buf t) = ?d" by simp
  have w2: "WritePbRaw A q (if ?n \<noteq> 0 then Some ?d else None) ?n s = (None, s1)"
    using w t c by (auto simp: WritePb_map_def Let_def split: if_splits)
  have "writes (WritePbRaw A q (if ?n \<noteq> 0 then Some ?d else None) ?n) (pb_field q ?d)"
    using n0 by (intro WritePbRaw_writes m(3)) simp
  from writesD [OF this s(1) w2] s(2) have s1: "stream_ok s1" "unread s1 = pb_field q ?d @ []" by simp_all
  note h = ReadPbHeader_ok [OF s1 WritePbRaw_seq [OF w2] m(3)]
  let ?s2 = "AddCurPos 8 s1"
  from AddCurPos_unread [OF s1(1), of 8] s1(2)
  have s2: "stream_ok ?s2" "unread ?s2 = ?d @ []" by (simp_all add: pb_field_def)
  from sub_stream [OF s2 m(3) A] obtain t2 where t2: "(if ?n > 0
      then s_append A (cur_bytes (unat ?n) ?s2) Stream_empty else (None, Stream_empty)) = (None, t2)"
      "stream_ok t2" "unread t2 = ?d" by blast
  from pb_fields_layout [OF fields_read_map [OF A m(1), of "[]"] t2(2)] m(2) t2(3) obtain t3
    where t3: "pb_fields (map_pair A (rdK A) (rdV A)) [] t2 = (None, m, t3)" by (auto simp: map_bytes_def)
  have "\<not> RemainSize ?s2 < unat ?n" using s2 m(3) by (simp add: RemainSize_unread)
  then have "ReadPb_map A (rdK A) (rdV A) ?n m0 ?s2 = (None, m, AddCurPos (unat ?n) ?s2)"
    unfolding ReadPb_map_def using t2(1) t3 by simp
  moreover have "unread (AddCurPos (unat ?n) ?s2) = []"
    using AddCurPos_unread [OF s2(1), of "length ?d"] s2(2) m(3) by simp
  ultimately show ?thesis using h by blast
qed

end

interpretation string_map: pb_map
  "\<lambda>d. d" "\<lambda>d. length d \<le> INT32_MAX" WritePb_string "\<lambda>_. ReadPb_string"
  "\<lambda>d. d" "\<lambda>d. length d \<le> INT32_MAX" WritePb_string "\<lambda>_. ReadPb_string"
  by unfold_locales

end
