(* ===== verification/OI_Session.thy ===== *)
theory OI_Session
  imports OI_Stream
begin

text \<open>
  Sessions (cbaselib/net/src/oi_session.cpp, oi_net_session.cpp) and the protocol session that
  splits the received bytes into frames (cbaselib/proto/src/oi_rpc_session.cpp, oi_parser.cpp).

  The record holds the fields of \<open>Session\<close>, \<open>NetSession\<close> and \<open>ProtoSession\<close>; the channel is represented
  by whether one is attached and whether its write event is on. \<open>iMgrCloses\<close> counts the calls to
  \<open>SessionManager::CloseSession\<close>. An operation that holds the session lock is one step. Each handler
  takes the receiver of complete frames, \<open>DeliverRpc\<close>, as the argument \<open>deliver\<close>; the locale
  \<open>frame_sink\<close> says what the session relies on: a delivery leaves the receiving side alone.

  The specification of the receiver is \<open>split_frames\<close>: how a byte sequence falls into frames. The
  lemmas show that \<open>OnDataIn\<close> delivers exactly these frames, and that the cut of the byte stream into
  reads does not matter.
\<close>

section \<open>State\<close>

datatype io_status = IO_ST_CONNECTED | IO_ST_WILL_CLOSE | IO_ST_CLOSED

abbreviation PARSER_ERR_OTHER :: int where "PARSER_ERR_OTHER \<equiv> - 9997"
abbreviation SESSION_MANAGER_NORMAL_CLOSE :: int where "SESSION_MANAGER_NORMAL_CLOSE \<equiv> - 20000"
abbreviation EMSGSIZE :: int where "EMSGSIZE \<equiv> 90"
abbreviation ENOBUFS :: int where "ENOBUFS \<equiv> 105"
abbreviation ETIMEDOUT :: int where "ETIMEDOUT \<equiv> 110"

record 'e session =
  iStatus :: io_status
  iErrorCode :: int
  iQueuedBytes :: nat
  iMaxSendQueueBytes :: nat
  iMaxReceiveBufferBytes :: nat
  stOutputBuffer :: bytes_obj
  stInputBuffer :: bytes_obj
  bChannel :: bool
  bWriteEvent :: bool
  bIncompleteTimer :: bool
  m_iFrameBytes :: nat
  m_bDatagram :: bool
  iMgrCloses :: nat
  stEnv :: 'e

type_synonym 'e deliver = "u32 \<Rightarrow> bytes \<Rightarrow> 'e session \<Rightarrow> 'e session"

section \<open>Session\<close>

definition IsClosed :: "'e session \<Rightarrow> bool" where
  "IsClosed s \<longleftrightarrow> iStatus s \<noteq> IO_ST_CONNECTED"

text \<open>\<open>Session::AllowSend\<close> and \<open>ForbidSend\<close> with what the channel does to its write event.\<close>

definition AllowSend :: "'e session \<Rightarrow> 'e session" where
  "AllowSend s = (if bChannel s then s\<lparr>bWriteEvent := True\<rparr> else s)"

definition ForbidSend :: "'e session \<Rightarrow> 'e session" where
  "ForbidSend s = (if bChannel s \<and> \<not> IsClosed s then s\<lparr>bWriteEvent := False\<rparr> else s)"

definition DetachChannel :: "'e session \<Rightarrow> 'e session" where
  "DetachChannel s = s\<lparr>bChannel := False\<rparr>"

definition SendResult :: "allocator \<Rightarrow> bytes_obj \<Rightarrow> 'e session \<Rightarrow> exc + int \<times> 'e session" where
  "SendResult A stBytes s =
     (if IsClosed s then Inr (OI_ERR_CONNECT, s)
      else if iQueuedBytes s > iMaxSendQueueBytes s
           \<or> m_iSize stBytes > iMaxSendQueueBytes s - iQueuedBytes s then Inr (OI_ERR_BUSY, s)
      else case Append_ext A (content stBytes) (stOutputBuffer s) of
        Inl e \<Rightarrow> Inl e
      | Inr b \<Rightarrow> Inr (OI_OK, AllowSend (s\<lparr>stOutputBuffer := b,
                          iQueuedBytes := iQueuedBytes s + m_iSize stBytes\<rparr>)))"

definition Send :: "allocator \<Rightarrow> bytes_obj \<Rightarrow> 'e session \<Rightarrow> exc + bool \<times> 'e session" where
  "Send A stBytes s = (case SendResult A stBytes s of Inl e \<Rightarrow> Inl e | Inr (c, s') \<Rightarrow> Inr (c = OI_OK, s'))"

definition SetSendQueueLimit :: "nat \<Rightarrow> 'e session \<Rightarrow> 'e session" where
  "SetSendQueueLimit n s = s\<lparr>iMaxSendQueueBytes := n\<rparr>"

definition PendingSendBytes :: "'e session \<Rightarrow> nat" where
  "PendingSendBytes s = iQueuedBytes s"

definition OnBytesSent :: "nat \<Rightarrow> 'e session \<Rightarrow> 'e session" where
  "OnBytesSent n s = s\<lparr>iQueuedBytes := size_sub (iQueuedBytes s) n\<rparr>"

definition ReceiveAllowance :: "'e session \<Rightarrow> nat" where
  "ReceiveAllowance s = (if m_iSize (stInputBuffer s) < iMaxReceiveBufferBytes s
     then iMaxReceiveBufferBytes s - m_iSize (stInputBuffer s) else 0)"

text \<open>The channel's output buffer takes over what the session has queued; \<open>OnDataOut\<close> is empty.\<close>

definition SwapOutBuff :: "allocator \<Rightarrow> bytes_obj \<Rightarrow> 'e session \<Rightarrow> exc + bytes_obj \<times> 'e session" where
  "SwapOutBuff A out s =
     (if m_iSize out = 0 then Inr (stOutputBuffer s, s\<lparr>stOutputBuffer := Clear out\<rparr>)
      else case Append_ext A (content (stOutputBuffer s)) out of
        Inl e \<Rightarrow> Inl e
      | Inr b \<Rightarrow> Inr (b, s\<lparr>stOutputBuffer := Clear (stOutputBuffer s)\<rparr>))"

definition SendDrained :: "'e session \<Rightarrow> 'e session" where
  "SendDrained s = (if m_iSize (stOutputBuffer s) = 0 then ForbidSend s else s)"

section \<open>NetSession\<close>

definition Close :: "int \<Rightarrow> 'e session \<Rightarrow> 'e session" where
  "Close iError s = (if iStatus s = IO_ST_CONNECTED
     then AllowSend (s\<lparr>iErrorCode := iError, iStatus := IO_ST_WILL_CLOSE\<rparr>) else s)"

text \<open>
  \<open>SessionManager::CloseSession\<close> calls \<open>ActiveClose\<close> on the session when it is still in the table; that
  does nothing to a session that is closing.
\<close>

definition PassiveClose :: "int \<Rightarrow> 'e session \<Rightarrow> 'e session" where
  "PassiveClose iError s = (let s1 = Close iError s
     in if iError \<noteq> SESSION_MANAGER_NORMAL_CLOSE then s1\<lparr>iMgrCloses := iMgrCloses s1 + 1\<rparr> else s1)"

definition ActiveClose :: "'e session \<Rightarrow> 'e session" where
  "ActiveClose s = Close SESSION_MANAGER_NORMAL_CLOSE s"

section \<open>ProtoSession\<close>

definition EncodePbFrame :: "allocator \<Rightarrow> u32 \<Rightarrow> stream \<Rightarrow> exc + stream" where
  "EncodePbFrame A iId stBody =
     (if m_iSize (buf stBody) > INT32_MAX then Inl ParserException
      else let iSize = word_of_nat (m_iSize (buf stBody)) :: u32;
               pData = (if iSize > 0 then Some (content (buf stBody)) else None)
      in case WritePbRaw A iId pData iSize Stream_empty of
           (Some e, _) \<Rightarrow> Inl e | (None, s) \<Rightarrow> Inr s)"

text \<open>
  \<open>JBytesParser::DecodeProtocol\<close>: the stream it writes to is constructed from a copy of the new
  \<open>Bytes\<close> object, which is what it returns.
\<close>

definition JBytes_DecodeProtocol :: "allocator \<Rightarrow> stream \<Rightarrow> exc + bytes_obj" where
  "JBytes_DecodeProtocol A stObuff =
     (let pPointer = Bytes_empty
      in case Bytes_copy A pPointer of
           Inl e \<Rightarrow> Inl e
         | Inr c \<Rightarrow> (case put_stream A stObuff \<lparr>buf = c, m_iCurrentPosition = 0, m_iSnapshotPosition = 0\<rparr> of
             (Some e, _) \<Rightarrow> Inl e | (None, _) \<Rightarrow> Inr pPointer))"

definition JBytes_EncodeProtocol :: "allocator \<Rightarrow> bytes_obj \<Rightarrow> exc + stream" where
  "JBytes_EncodeProtocol A p = (case Bytes_copy A p of Inl e \<Rightarrow> Inl e
     | Inr b \<Rightarrow> (case Bytes_copy A b of Inl e \<Rightarrow> Inl e
        | Inr b' \<Rightarrow> Inr \<lparr>buf = b', m_iCurrentPosition = 0, m_iSnapshotPosition = 0\<rparr>))"

definition CancelIncompleteTimer :: "'e session \<Rightarrow> 'e session" where
  "CancelIncompleteTimer s = s\<lparr>bIncompleteTimer := False\<rparr>"

text \<open>\<open>timer_ok\<close>: whether allocating, initialising and starting the libuv timer succeeds.\<close>

definition ArmIncompleteTimer :: "bool \<Rightarrow> 'e session \<Rightarrow> 'e session" where
  "ArmIncompleteTimer timer_ok s =
     (if bIncompleteTimer s \<or> IsClosed s then s
      else if timer_ok then s\<lparr>bIncompleteTimer := True\<rparr>
      else PassiveClose ENOBUFS s)"

text \<open>The callback of the timer.\<close>

definition IncompleteTimeout :: "'e session \<Rightarrow> 'e session" where
  "IncompleteTimeout s = PassiveClose ETIMEDOUT (CancelIncompleteTimer s)"

text \<open>
  The loop of \<open>OnDataIn\<close> over the stream that holds the input: the exception that ended it, the stream
  and the session. Every round that goes on consumes a header, so \<open>RemainSize\<close> rounds are enough.
\<close>

fun data_in_loop :: "allocator \<Rightarrow> 'e deliver \<Rightarrow> nat \<Rightarrow> stream \<Rightarrow> 'e session
    \<Rightarrow> (exc option \<times> stream \<times> 'e session) option" where
  "data_in_loop A deliver fuel st s =
     (if RemainSize st = 0 then Some (None, st, s)
      else if RemainSize st \<ge> 8 \<and> unat (word_of_nat (le_val (drop 4 (cur_bytes 8 st))) :: u32) > m_iFrameBytes s
        then Some (None, st, if m_bDatagram s then s else PassiveClose EMSGSIZE s)
      else (case PreparePbHeader (StartTransaction st) of
          (PB_HEADER_NEED_MORE, _, st1) \<Rightarrow> Some (None, RollBack st1, s)
        | (PB_HEADER_OK, Some (iIdLocal, iSize), st1) \<Rightarrow>
            (let s1 = CancelIncompleteTimer s
             in case (if iSize > 0 then s_append A (cur_bytes (unat iSize) st1) Stream_empty
                      else (None, Stream_empty)) of
                  (Some e, _) \<Rightarrow> Some (Some e, st1, s1)
                | (None, stBody) \<Rightarrow>
                    (case fuel of 0 \<Rightarrow> None
                     | Suc fuel' \<Rightarrow> data_in_loop A deliver fuel' (AddCurPos (unat iSize) st1)
                         (deliver iIdLocal (content (buf stBody)) s1)))
        | (_, _, st1) \<Rightarrow> Some (None, st1, if m_bDatagram s then s else PassiveClose PARSER_ERR_OTHER s)))"

declare data_in_loop.simps [simp del]

definition OnDataIn :: "allocator \<Rightarrow> bool \<Rightarrow> 'e deliver \<Rightarrow> 'e session \<Rightarrow> exc + 'e session" where
  "OnDataIn A timer_ok deliver s =
     (let st = \<lparr>buf = stInputBuffer s, m_iCurrentPosition = 0, m_iSnapshotPosition = 0\<rparr>
      in case data_in_loop A deliver (RemainSize st) st (s\<lparr>stInputBuffer := Bytes_empty\<rparr>) of
           None \<Rightarrow> Inl ParserException
         | Some (Some e, _, _) \<Rightarrow> Inl e
         | Some (None, st', s') \<Rightarrow>
             (let s1 = s'\<lparr>stInputBuffer := snd (Erase 0 (m_iCurrentPosition st') (buf st'))\<rparr>
              in if m_bDatagram s1 then Inr (s1\<lparr>stInputBuffer := Clear (stInputBuffer s1)\<rparr>)
                 else if IsClosed s1
                   then Inr (let s2 = CancelIncompleteTimer s1 in s2\<lparr>stInputBuffer := Clear (stInputBuffer s2)\<rparr>)
                 else if m_iSize (stInputBuffer s1) \<noteq> 0 then Inr (ArmIncompleteTimer timer_ok s1)
                 else Inr (CancelIncompleteTimer s1)))"

text \<open>\<open>SwapInBuff\<close> with the channel's input buffer: the buffer left to the channel and the session.\<close>

definition SwapInBuff :: "allocator \<Rightarrow> bool \<Rightarrow> 'e deliver \<Rightarrow> bytes_obj \<Rightarrow> 'e session \<Rightarrow> exc + bytes_obj \<times> 'e session" where
  "SwapInBuff A timer_ok deliver inb s =
     (if m_iSize inb > ReceiveAllowance s then Inr (Clear inb, PassiveClose ENOBUFS s)
      else case (if m_iSize (stInputBuffer s) = 0 then Inr (stInputBuffer s, s\<lparr>stInputBuffer := inb\<rparr>)
                 else (case Append_ext A (content inb) (stInputBuffer s) of
                         Inl e \<Rightarrow> Inl e | Inr b \<Rightarrow> Inr (inb, s\<lparr>stInputBuffer := b\<rparr>))) of
        Inl e \<Rightarrow> Inl e
      | Inr (rest, s1) \<Rightarrow> (case OnDataIn A timer_ok deliver s1 of
            Inl e \<Rightarrow> Inl e | Inr s2 \<Rightarrow> Inr (Clear rest, s2)))"

section \<open>Specification of the receiver\<close>

datatype frame_end = Wait | TooLarge | BadHeader

function split_frames :: "nat \<Rightarrow> bytes \<Rightarrow> (u32 \<times> bytes) list \<times> bytes \<times> frame_end" where
  "split_frames limit bs =
     (if length bs < 8 then ([], bs, Wait)
      else let q = le_val (take 4 bs); n = le_val (take 4 (drop 4 bs))
      in if n > limit then ([], bs, TooLarge)
         else if q > INT32_MAX \<or> n > INT32_MAX then ([], bs, BadHeader)
         else if length bs < 8 + n then ([], bs, Wait)
         else case split_frames limit (drop (8 + n) bs) of
           (fs, rest, e) \<Rightarrow> ((word_of_nat q, take n (drop 8 bs)) # fs, rest, e))"
  by pat_completeness auto
termination
  by (relation "measure (\<lambda>(limit, bs). length bs)") auto

declare split_frames.simps [simp del]

section \<open>Lemmas: frames\<close>

text \<open>How the first bytes decide, as rewrite rules.\<close>

lemma split_short: "length bs < 8 \<Longrightarrow> split_frames limit bs = ([], bs, Wait)"
  by (subst split_frames.simps) simp

lemma split_nil [simp]: "split_frames limit [] = ([], [], Wait)"
  by (simp add: split_short)

lemma split_field:
  assumes "\<not> sint q < 0" and "length d \<le> INT32_MAX" and "length d \<le> limit"
  shows "split_frames limit (pb_field q d @ rest) =
    (case split_frames limit rest of (fs, r, e) \<Rightarrow> ((q, d) # fs, r, e))"
proof -
  have "unat q mod 4294967296 = unat q" using unat_mod_256 [of q] by simp
  moreover have "length d mod 4294967296 = length d" using assms(2) by simp
  ultimately show ?thesis
    using assms by (subst split_frames.simps) (simp add: pb_field_def Let_def sint_neg_u32)
qed

lemma split_append:
  "split_frames limit a = (fs, r, e) \<Longrightarrow> split_frames limit (a @ b) =
     (if e = Wait then case split_frames limit (r @ b) of (fs', r', e') \<Rightarrow> (fs @ fs', r', e') else (fs, r @ b, e))"
proof (induction limit a arbitrary: fs r e rule: split_frames.induct)
  case (1 limit a)
  let ?n = "le_val (take 4 (drop 4 a))" and ?q = "le_val (take 4 a)"
  consider "length a < 8" | "length a \<ge> 8" "?n > limit" | "length a \<ge> 8" "?n \<le> limit" "?q > INT32_MAX \<or> ?n > INT32_MAX"
    | "length a \<ge> 8" "?n \<le> limit" "\<not> (?q > INT32_MAX \<or> ?n > INT32_MAX)" "length a < 8 + ?n"
    | "length a \<ge> 8" "?n \<le> limit" "\<not> (?q > INT32_MAX \<or> ?n > INT32_MAX)" "length a \<ge> 8 + ?n" by linarith
  then show ?case
  proof cases
    case 1
    then show ?thesis using "1.prems" by (simp add: split_short split: prod.splits)
  next
    case 2
    then have "split_frames limit a = ([], a, TooLarge)" "split_frames limit (a @ b) = ([], a @ b, TooLarge)"
      by (subst split_frames.simps; simp add: Let_def)+
    then show ?thesis using "1.prems" by simp
  next
    case 3
    then have "split_frames limit a = ([], a, BadHeader)" "split_frames limit (a @ b) = ([], a @ b, BadHeader)"
      by (subst split_frames.simps; auto simp: Let_def)+
    then show ?thesis using "1.prems" by simp
  next
    case 4
    then have "split_frames limit a = ([], a, Wait)" by (subst split_frames.simps) (simp add: Let_def)
    then show ?thesis using "1.prems" by (auto split: prod.splits)
  next
    case 5
    obtain fs1 r1 e1 where s1: "split_frames limit (drop (8 + ?n) a) = (fs1, r1, e1)" by (metis prod_cases3)
    let ?f = "(word_of_nat ?q, take ?n (drop 8 a)) :: u32 \<times> bytes"
    have a: "split_frames limit a = (?f # fs1, r1, e1)"
      using 5 s1 by (subst split_frames.simps) (simp add: Let_def)
    have ab: "split_frames limit (a @ b) = (case split_frames limit (drop (8 + ?n) a @ b) of (fs, r, e) \<Rightarrow> (?f # fs, r, e))"
      using 5 by (subst split_frames.simps) (simp add: Let_def)
    have IH: "split_frames limit (drop (8 + ?n) a @ b) =
     (if e1 = Wait then case split_frames limit (r1 @ b) of (fs', r', e') \<Rightarrow> (fs1 @ fs', r', e') else (fs1, r1 @ b, e1))"
      by (rule "1.IH" [OF _ refl refl]) (use 5 s1 in auto)
    from a ab IH "1.prems" show ?thesis by (auto split: prod.splits)
  qed
qed

lemma split_rest_bound: "split_frames limit a = (fs, r, Wait) \<Longrightarrow> length r < 8 + limit"
proof (induction limit a arbitrary: fs rule: split_frames.induct)
  case (1 limit a)
  show ?case
    using "1.prems" [unfolded split_frames.simps [of limit a]] "1.IH" by (auto simp: Let_def split: if_splits prod.splits)
qed

section \<open>The receiver of frames\<close>

text \<open>
  What the session relies on when it hands a frame over: the receiving side of the session is as it
  was. A delivery may send on the session or close it.
\<close>

definition rx_same :: "'e session \<Rightarrow> 'e session \<Rightarrow> bool" where
  "rx_same s s' \<longleftrightarrow> stInputBuffer s' = stInputBuffer s \<and> m_iFrameBytes s' = m_iFrameBytes s
     \<and> m_bDatagram s' = m_bDatagram s \<and> bIncompleteTimer s' = bIncompleteTimer s
     \<and> iMaxReceiveBufferBytes s' = iMaxReceiveBufferBytes s"

fun deliver_all :: "'e deliver \<Rightarrow> (u32 \<times> bytes) list \<Rightarrow> 'e session \<Rightarrow> 'e session" where
  "deliver_all deliver [] s = s"
| "deliver_all deliver ((q, d) # fs) s = deliver_all deliver fs (deliver q d (CancelIncompleteTimer s))"

fun frame_stop :: "frame_end \<Rightarrow> 'e session \<Rightarrow> 'e session" where
  "frame_stop Wait s = s"
| "frame_stop TooLarge s = (if m_bDatagram s then s else PassiveClose EMSGSIZE s)"
| "frame_stop BadHeader s = (if m_bDatagram s then s else PassiveClose PARSER_ERR_OTHER s)"

text \<open>What is left of the session after the loop, by how it ended.\<close>

definition after_data :: "bool \<Rightarrow> bytes_obj \<Rightarrow> 'e session \<Rightarrow> 'e session" where
  "after_data timer_ok b s =
     (if m_bDatagram s then s\<lparr>stInputBuffer := Clear b\<rparr>
      else if IsClosed s then (CancelIncompleteTimer s)\<lparr>stInputBuffer := Clear b\<rparr>
      else if m_iSize b \<noteq> 0 then ArmIncompleteTimer timer_ok (s\<lparr>stInputBuffer := b\<rparr>)
      else CancelIncompleteTimer (s\<lparr>stInputBuffer := b\<rparr>))"

lemma cursor_marks [simp]:
  "stream_ok (StartTransaction st) = stream_ok st" "unread (StartTransaction st) = unread st"
  "buf (StartTransaction st) = buf st" "m_iCurrentPosition (StartTransaction st) = m_iCurrentPosition st"
  "RollBack (StartTransaction st) = StartTransaction st" "RemainSize (StartTransaction st) = RemainSize st"
  by (simp_all add: StartTransaction_def RollBack_def stream_ok_def unread_def RemainSize_def)

lemma IsClosed_input [simp]: "IsClosed (s\<lparr>stInputBuffer := b\<rparr>) = IsClosed s"
  by (simp add: IsClosed_def)

lemma PassiveClose_simps [simp]:
  "stInputBuffer (PassiveClose e s) = stInputBuffer s" "m_bDatagram (PassiveClose e s) = m_bDatagram s"
  "m_iFrameBytes (PassiveClose e s) = m_iFrameBytes s" "stEnv (PassiveClose e s) = stEnv s"
  "stOutputBuffer (PassiveClose e s) = stOutputBuffer s" "iQueuedBytes (PassiveClose e s) = iQueuedBytes s"
  "iMaxReceiveBufferBytes (PassiveClose e s) = iMaxReceiveBufferBytes s" "IsClosed (PassiveClose e s)"
  by (simp_all add: PassiveClose_def Close_def AllowSend_def IsClosed_def Let_def)

lemma CancelIncompleteTimer_simps [simp]:
  "stInputBuffer (CancelIncompleteTimer s) = stInputBuffer s" "m_bDatagram (CancelIncompleteTimer s) = m_bDatagram s"
  "m_iFrameBytes (CancelIncompleteTimer s) = m_iFrameBytes s" "IsClosed (CancelIncompleteTimer s) = IsClosed s"
  "stEnv (CancelIncompleteTimer s) = stEnv s" "bIncompleteTimer (CancelIncompleteTimer s) = False"
  "iMaxReceiveBufferBytes (CancelIncompleteTimer s) = iMaxReceiveBufferBytes s" "iStatus (CancelIncompleteTimer s) = iStatus s"
  by (simp_all add: CancelIncompleteTimer_def IsClosed_def)

text \<open>The header of the unread bytes, as the loop and as the specification read it.\<close>

lemma header_values:
  assumes "stream_ok st" and "8 \<le> length (unread st)"
  shows "take 4 (cur_bytes 8 st) = take 4 (unread st)" "drop 4 (cur_bytes 8 st) = take 4 (drop 4 (unread st))"
    and "unat (word_of_nat (le_val (take 4 (unread st))) :: u32) = le_val (take 4 (unread st))"
    and "unat (word_of_nat (le_val (take 4 (drop 4 (unread st)))) :: u32) = le_val (take 4 (drop 4 (unread st)))"
proof -
  show "take 4 (cur_bytes 8 st) = take 4 (unread st)" "drop 4 (cur_bytes 8 st) = take 4 (drop 4 (unread st))"
    using cur_bytes_unread [OF assms] by (simp_all add: drop_take)
  have "le_val (take 4 (unread st)) < 256 ^ 4" "le_val (take 4 (drop 4 (unread st))) < 256 ^ 4"
    using le_val_less [of "take 4 (unread st)"] le_val_less [of "take 4 (drop 4 (unread st))"] assms(2) by simp_all
  then show "unat (word_of_nat (le_val (take 4 (unread st))) :: u32) = le_val (take 4 (unread st))"
    and "unat (word_of_nat (le_val (take 4 (drop 4 (unread st)))) :: u32) = le_val (take 4 (drop 4 (unread st)))"
    by (simp_all add: unat_of_nat)
qed

locale frame_sink =
  fixes deliver :: "'e deliver"
  assumes sink_rx: "rx_same s (deliver q d s)"
begin

lemma deliver_all_rx:
  "stInputBuffer (deliver_all deliver fs s) = stInputBuffer s" "m_iFrameBytes (deliver_all deliver fs s) = m_iFrameBytes s"
  "m_bDatagram (deliver_all deliver fs s) = m_bDatagram s" "iMaxReceiveBufferBytes (deliver_all deliver fs s) = iMaxReceiveBufferBytes s"
  using sink_rx by (induction fs arbitrary: s) (auto simp: rx_same_def)

lemma data_in_loop_split:
  "stream_ok st \<Longrightarrow> all_avail A \<Longrightarrow> split_frames (m_iFrameBytes s) (unread st) = (fs, rest, e)
    \<Longrightarrow> length (unread st) \<le> fuel
    \<Longrightarrow> \<exists>st'. data_in_loop A deliver fuel st s = Some (None, st', frame_stop e (deliver_all deliver fs s))
        \<and> stream_ok st' \<and> unread st' = rest \<and> buf st' = buf st"
proof (induction fuel arbitrary: st s fs)
  case 0
  then show ?case by (subst data_in_loop.simps) (auto simp: RemainSize_unread)
next
  case (Suc fuel)
  note st = \<open>stream_ok st\<close>
  let ?u = "unread st" and ?n = "le_val (take 4 (drop 4 (unread st)))" and ?q = "le_val (take 4 (unread st))"
  consider "?u = []" | "?u \<noteq> []" "length ?u < 8" | "length ?u \<ge> 8" "?n > m_iFrameBytes s"
    | "length ?u \<ge> 8" "?n \<le> m_iFrameBytes s" "?q > INT32_MAX \<or> ?n > INT32_MAX"
    | "length ?u \<ge> 8" "?n \<le> m_iFrameBytes s" "\<not> (?q > INT32_MAX \<or> ?n > INT32_MAX)" "length ?u < 8 + ?n"
    | "length ?u \<ge> 8" "?n \<le> m_iFrameBytes s" "\<not> (?q > INT32_MAX \<or> ?n > INT32_MAX)" "length ?u \<ge> 8 + ?n"
    by linarith
  then show ?case
  proof cases
    case 1
    then show ?thesis using Suc.prems by (subst data_in_loop.simps) (auto simp: RemainSize_unread)
  next
    case 2
    then show ?thesis using Suc.prems
      by (subst data_in_loop.simps) (auto simp: RemainSize_unread PreparePbHeader_def split_short)
  next
    case 3
    then have sp: "split_frames (m_iFrameBytes s) ?u = ([], ?u, TooLarge)" by (subst split_frames.simps) (simp add: Let_def)
    have "data_in_loop A deliver (Suc fuel) st s = Some (None, st, frame_stop TooLarge s)"
      using 3 st by (subst data_in_loop.simps) (auto simp: RemainSize_unread header_values)
    with sp st Suc.prems(3) show ?thesis by simp
  next
    case 4
    then have sp: "split_frames (m_iFrameBytes s) ?u = ([], ?u, BadHeader)" by (subst split_frames.simps) (auto simp: Let_def)
    have "PreparePbHeader (StartTransaction st) = (PB_HEADER_BAD, None, StartTransaction st)"
      using 4 st header_values [of "StartTransaction st"] by (simp add: PreparePbHeader_def RemainSize_unread sint_neg_u32 Let_def)
    then have "data_in_loop A deliver (Suc fuel) st s = Some (None, StartTransaction st, frame_stop BadHeader s)"
      using 4 st by (subst data_in_loop.simps) (auto simp: RemainSize_unread header_values)
    with sp st Suc.prems(3) show ?thesis by simp
  next
    case 5
    then have sp: "split_frames (m_iFrameBytes s) ?u = ([], ?u, Wait)" by (subst split_frames.simps) (auto simp: Let_def)
    have "PreparePbHeader (StartTransaction st) = (PB_HEADER_NEED_MORE, None, StartTransaction st)"
      using 5 st header_values [of "StartTransaction st"] by (simp add: PreparePbHeader_def RemainSize_unread sint_neg_u32 Let_def)
    then have "data_in_loop A deliver (Suc fuel) st s = Some (None, StartTransaction st, s)"
      using 5 st by (subst data_in_loop.simps) (auto simp: RemainSize_unread header_values)
    with sp st Suc.prems(3) show ?thesis by simp
  next
    case 6
    let ?d = "take ?n (drop 8 ?u)"
    obtain fs1 where sp: "split_frames (m_iFrameBytes s) (drop (8 + ?n) ?u) = (fs1, rest, e)"
      and fs: "fs = (word_of_nat ?q, ?d) # fs1"
      using Suc.prems(3) [unfolded split_frames.simps [of _ ?u]] 6 by (auto simp: Let_def split: prod.splits)
    have hd: "PreparePbHeader (StartTransaction st) = (PB_HEADER_OK, Some (word_of_nat ?q, word_of_nat ?n), AddCurPos 8 (StartTransaction st))"
      using 6 st header_values [of "StartTransaction st"] by (simp add: PreparePbHeader_def RemainSize_unread sint_neg_u32 Let_def)
    let ?st1 = "AddCurPos 8 (StartTransaction st)" and ?st2 = "AddCurPos ?n (AddCurPos 8 (StartTransaction st))"
    have st1: "stream_ok ?st1" "unread ?st1 = ?d @ drop (8 + ?n) ?u"
      using AddCurPos_unread [of "StartTransaction st" 8] st 6 append_take_drop_id [of ?n "drop 8 ?u"]
      by (simp_all add: add.commute)
    have st2: "stream_ok ?st2" "unread ?st2 = drop (8 + ?n) ?u" "buf ?st2 = buf st"
      using AddCurPos_unread [of "StartTransaction st" "8 + ?n"] st 6 by simp_all
    have n: "length ?d = ?n" "?n \<le> INT32_MAX" and ne: "?u \<noteq> []" using 6 by auto
    from n have "length ?d \<le> INT32_MAX" by simp
    from sub_stream [OF st1 this Suc.prems(2)] obtain stBody where
      body: "(if (word_of_nat ?n :: u32) > 0 then s_append A (cur_bytes (unat (word_of_nat ?n :: u32)) ?st1) Stream_empty
        else (None, Stream_empty)) = (None, stBody)" and c: "content (buf stBody) = ?d" unfolding n(1) by blast
    let ?s1 = "deliver (word_of_nat ?q) ?d (CancelIncompleteTimer s)"
    have m: "m_iFrameBytes ?s1 = m_iFrameBytes s" using sink_rx [of "CancelIncompleteTimer s"] by (simp add: rx_same_def)
    have "length (unread ?st2) \<le> fuel" using st2 Suc.prems(4) 6 by simp
    from Suc.IH [OF st2(1) Suc.prems(2) _ this, of ?s1 fs1] sp st2 m obtain st' where
      st': "data_in_loop A deliver fuel ?st2 ?s1 = Some (None, st', frame_stop e (deliver_all deliver fs1 ?s1))"
        "stream_ok st'" "unread st' = rest" "buf st' = buf st" by auto
    have "data_in_loop A deliver (Suc fuel) st s = Some (None, st', frame_stop e (deliver_all deliver fs s))"
      using 6 st body c hd st'(1) n ne
      by (subst data_in_loop.simps) (simp add: RemainSize_unread header_values fs Let_def)
    with st' show ?thesis by blast
  qed
qed

lemma OnDataIn_split:
  assumes ok: "bytes_ok (stInputBuffer s)" and A: "all_avail A"
    and sp: "split_frames (m_iFrameBytes s) (content (stInputBuffer s)) = (fs, rest, e)"
  shows "\<exists>b. bytes_ok b \<and> content b = rest \<and> m_iCapacity b = m_iCapacity (stInputBuffer s)
    \<and> OnDataIn A timer_ok deliver s
      = Inr (after_data timer_ok b (frame_stop e (deliver_all deliver fs (s\<lparr>stInputBuffer := Bytes_empty\<rparr>))))"
proof -
  let ?st = "\<lparr>buf = stInputBuffer s, m_iCurrentPosition = 0, m_iSnapshotPosition = 0\<rparr>"
  let ?s0 = "s\<lparr>stInputBuffer := Bytes_empty\<rparr>"
  let ?s1 = "frame_stop e (deliver_all deliver fs ?s0)"
  have st: "stream_ok ?st" "unread ?st = content (stInputBuffer s)"
    using ok by (simp_all add: stream_ok_def unread_def)
  have f: "length (unread ?st) \<le> RemainSize ?st" using st by (simp add: RemainSize_unread)
  from data_in_loop_split [OF st(1) A _ f, of ?s0 fs rest e] sp st obtain st' where
    l: "data_in_loop A deliver (RemainSize ?st) ?st ?s0 = Some (None, st', ?s1)"
    and st': "stream_ok st'" "unread st' = rest" "buf st' = stInputBuffer s" by auto
  let ?b = "snd (Erase 0 (m_iCurrentPosition st') (buf st'))"
  have b: "bytes_ok ?b" "content ?b = rest" "m_iCapacity ?b = m_iCapacity (stInputBuffer s)"
    using oi_bytes.drop_law [of "buf st'" "m_iCurrentPosition st'"] ok st' by (simp_all add: unread_def)
  have "OnDataIn A timer_ok deliver s = Inr (after_data timer_ok ?b ?s1)"
    by (simp add: OnDataIn_def l Let_def after_data_def CancelIncompleteTimer_def IsClosed_def)
  with b show ?thesis by blast
qed

end

text \<open>The recording sink: every delivered frame, in order.\<close>

definition record_frame :: "(u32 \<times> bytes) list deliver" where
  "record_frame q d s = s\<lparr>stEnv := stEnv s @ [(q, d)]\<rparr>"

interpretation recorder: frame_sink record_frame
  by unfold_locales (simp add: record_frame_def rx_same_def)

lemma deliver_all_record:
  "stEnv (deliver_all record_frame fs s) = stEnv s @ fs" "IsClosed (deliver_all record_frame fs s) = IsClosed s"
  by (induction fs arbitrary: s) (auto simp: record_frame_def IsClosed_def)

section \<open>Receiving a byte stream in pieces\<close>

text \<open>Reads handed to the session one after another, until it closes.\<close>

fun receive_run :: "allocator \<Rightarrow> 'e deliver \<Rightarrow> bytes_obj list \<Rightarrow> 'e session \<Rightarrow> exc + 'e session" where
  "receive_run A deliver [] s = Inr s"
| "receive_run A deliver (c # cs) s = (if IsClosed s then Inr s
     else case SwapInBuff A True deliver c s of Inl e \<Rightarrow> Inl e | Inr (_, s') \<Rightarrow> receive_run A deliver cs s')"

definition rx_ok :: "'e session \<Rightarrow> bool" where
  "rx_ok s \<longleftrightarrow> bytes_ok (stInputBuffer s) \<and> m_iCapacity (stInputBuffer s) \<le> 2 ^ 61 \<and> \<not> m_bDatagram s
     \<and> iMaxReceiveBufferBytes s \<le> 2 ^ 59"

definition piece_ok :: "'e session \<Rightarrow> bytes_obj \<Rightarrow> bool" where
  "piece_ok s c \<longleftrightarrow> bytes_ok c \<and> m_iCapacity c \<le> 2 ^ 61 \<and> m_iSize c + 8 + m_iFrameBytes s \<le> iMaxReceiveBufferBytes s"

lemma after_data_rx:
  assumes "\<not> m_bDatagram s"
  shows "stEnv (after_data True b s) = stEnv s \<and> m_iFrameBytes (after_data True b s) = m_iFrameBytes s
    \<and> iMaxReceiveBufferBytes (after_data True b s) = iMaxReceiveBufferBytes s \<and> \<not> m_bDatagram (after_data True b s)
    \<and> IsClosed (after_data True b s) = IsClosed s
    \<and> stInputBuffer (after_data True b s) = (if IsClosed s then Clear b else b)"
  using assms by (simp add: after_data_def ArmIncompleteTimer_def CancelIncompleteTimer_def IsClosed_def)

lemma SwapInBuff_split:
  assumes s: "rx_ok s" and A: "all_avail A" and c: "piece_ok s c"
    and w: "m_iSize (stInputBuffer s) < 8 + m_iFrameBytes s" and open_s: "\<not> IsClosed s"
    and sp: "split_frames (m_iFrameBytes s) (content (stInputBuffer s) @ content c) = (fs, rest, e)"
  shows "\<exists>b s'. SwapInBuff A True record_frame c s = Inr (b, s') \<and> rx_ok s' \<and> stEnv s' = stEnv s @ fs
    \<and> m_iFrameBytes s' = m_iFrameBytes s \<and> iMaxReceiveBufferBytes s' = iMaxReceiveBufferBytes s
    \<and> (if e = Wait then \<not> IsClosed s' \<and> content (stInputBuffer s') = rest else IsClosed s')"
proof -
  let ?i = "stInputBuffer s"
  have size: "m_iSize ?i + m_iSize c \<le> iMaxReceiveBufferBytes s" "iMaxReceiveBufferBytes s \<le> 2 ^ 59"
    using c w s by (simp_all add: piece_ok_def rx_ok_def)
  have "\<exists>rest' i'. (if m_iSize ?i = 0 then Inr (?i, s\<lparr>stInputBuffer := c\<rparr>)
      else (case Append_ext A (content c) ?i of Inl e \<Rightarrow> Inl e | Inr b \<Rightarrow> Inr (c, s\<lparr>stInputBuffer := b\<rparr>)))
      = Inr (rest', s\<lparr>stInputBuffer := i'\<rparr>) \<and> bytes_ok i' \<and> content i' = content ?i @ content c \<and> m_iCapacity i' \<le> 2 ^ 61"
  proof (cases "m_iSize ?i = 0")
    case True
    with s c show ?thesis by (auto simp: piece_ok_def rx_ok_def content_def)
  next
    case False
    obtain b' where "Append_ext A (content c) ?i = Inr b'" "bytes_ok b'" "content b' = content ?i @ content c" "m_iCapacity b' \<le> 2 ^ 61"
      by (rule Append_ext_within [of ?i A "content c"]) (use s c A size in \<open>simp_all add: rx_ok_def piece_ok_def all_avail_def\<close>)
    then show ?thesis using False by auto
  qed
  then obtain r' i' where sw: "(if m_iSize ?i = 0 then Inr (?i, s\<lparr>stInputBuffer := c\<rparr>)
      else (case Append_ext A (content c) ?i of Inl e \<Rightarrow> Inl e | Inr b \<Rightarrow> Inr (c, s\<lparr>stInputBuffer := b\<rparr>)))
      = Inr (r', s\<lparr>stInputBuffer := i'\<rparr>)"
    and i': "bytes_ok i'" "content i' = content ?i @ content c" "m_iCapacity i' \<le> 2 ^ 61" by blast
  let ?s1 = "s\<lparr>stInputBuffer := i'\<rparr>"
  from recorder.OnDataIn_split [of ?s1 A fs rest e True] i' A sp obtain b where
    b: "bytes_ok b" "content b = rest" "m_iCapacity b = m_iCapacity i'" and
    o: "OnDataIn A True record_frame ?s1 = Inr (after_data True b (frame_stop e (deliver_all record_frame fs (?s1\<lparr>stInputBuffer := Bytes_empty\<rparr>))))"
    by auto
  let ?s2 = "frame_stop e (deliver_all record_frame fs (s\<lparr>stInputBuffer := Bytes_empty\<rparr>))"
  have "m_iSize c \<le> ReceiveAllowance s" using size c by (auto simp: ReceiveAllowance_def piece_ok_def)
  then have r: "SwapInBuff A True record_frame c s = Inr (Clear r', after_data True b ?s2)"
    using sw o by (simp add: SwapInBuff_def)
  let ?d = "deliver_all record_frame fs (s\<lparr>stInputBuffer := Bytes_empty\<rparr>)"
  have nd: "\<not> m_bDatagram s" using s by (simp add: rx_ok_def)
  have d: "stEnv ?d = stEnv s @ fs" "\<not> IsClosed ?d" "\<not> m_bDatagram ?d"
    "m_iFrameBytes ?d = m_iFrameBytes s" "iMaxReceiveBufferBytes ?d = iMaxReceiveBufferBytes s"
    using nd open_s by (simp_all add: deliver_all_record recorder.deliver_all_rx)
  have s2: "stEnv ?s2 = stEnv s @ fs" "IsClosed ?s2 = (e \<noteq> Wait)" "m_bDatagram ?s2 = False"
    "m_iFrameBytes ?s2 = m_iFrameBytes s" "iMaxReceiveBufferBytes ?s2 = iMaxReceiveBufferBytes s"
    by (cases e; simp add: d)+
  obtain s3 where s3: "s3 = ?s2" by simp
  note s3_rx = after_data_rx [of s3 b]
  have c0: "m_iCapacity (Clear b) = m_iCapacity b" by (simp add: Clear_def)
  have "rx_ok (after_data True b s3)"
    using s2 b i'(3) size(2) c0 Clear_ok [OF b(1)] s3_rx unfolding rx_ok_def s3 [symmetric] by simp
  moreover have "stEnv (after_data True b s3) = stEnv s @ fs \<and> m_iFrameBytes (after_data True b s3) = m_iFrameBytes s
      \<and> iMaxReceiveBufferBytes (after_data True b s3) = iMaxReceiveBufferBytes s
      \<and> (if e = Wait then \<not> IsClosed (after_data True b s3) \<and> content (stInputBuffer (after_data True b s3)) = rest
         else IsClosed (after_data True b s3))"
    using s2 b s3_rx unfolding s3 [symmetric] by simp
  ultimately show ?thesis using r unfolding s3 [symmetric] by blast
qed

lemma receive_run_split:
  "rx_ok s \<Longrightarrow> all_avail A \<Longrightarrow> list_all (piece_ok s) cs \<Longrightarrow> \<not> IsClosed s
    \<Longrightarrow> split_frames (m_iFrameBytes s) (content (stInputBuffer s)) = ([], content (stInputBuffer s), Wait)
    \<Longrightarrow> split_frames (m_iFrameBytes s) (content (stInputBuffer s) @ concat (map content cs)) = (fs, rest, e)
    \<Longrightarrow> \<exists>s'. receive_run A record_frame cs s = Inr s' \<and> stEnv s' = stEnv s @ fs
      \<and> (if e = Wait then \<not> IsClosed s' \<and> content (stInputBuffer s') = rest else IsClosed s')"
proof (induction cs arbitrary: s fs)
  case Nil
  then show ?case by simp
next
  case (Cons c cs)
  obtain fs1 r1 e1 where sp1: "split_frames (m_iFrameBytes s) (content (stInputBuffer s) @ content c) = (fs1, r1, e1)"
    by (metis prod_cases3)
  have w: "m_iSize (stInputBuffer s) < 8 + m_iFrameBytes s"
    using split_rest_bound [OF Cons.prems(5)] Cons.prems(1) by (simp add: rx_ok_def)
  from SwapInBuff_split [OF Cons.prems(1,2) _ w Cons.prems(4) sp1] Cons.prems(3) obtain b s1 where
    s1: "SwapInBuff A True record_frame c s = Inr (b, s1)" "rx_ok s1" "stEnv s1 = stEnv s @ fs1"
      "m_iFrameBytes s1 = m_iFrameBytes s" "iMaxReceiveBufferBytes s1 = iMaxReceiveBufferBytes s"
      "if e1 = Wait then \<not> IsClosed s1 \<and> content (stInputBuffer s1) = r1 else IsClosed s1" by auto
  have sp: "split_frames (m_iFrameBytes s) ((content (stInputBuffer s) @ content c) @ concat (map content cs)) = (fs, rest, e)"
    using Cons.prems(6) by simp
  show ?case
  proof (cases "e1 = Wait")
    case False
    with split_append [OF sp1, of "concat (map content cs)"] sp have "fs = fs1" "e = e1" by auto
    moreover have "receive_run A record_frame (c # cs) s = Inr s1"
      using s1 False Cons.prems(4) by (cases cs) simp_all
    ultimately show ?thesis using s1 False by simp
  next
    case True
    obtain fs2 where fs2: "split_frames (m_iFrameBytes s1) (content (stInputBuffer s1) @ concat (map content cs)) = (fs2, rest, e)"
      "fs = fs1 @ fs2"
      using split_append [OF sp1, of "concat (map content cs)"] sp True s1 by (auto split: prod.splits)
    have "split_frames (m_iFrameBytes s) r1 = ([], r1, Wait)"
      using split_append [OF sp1, of "[]"] sp1 True by (auto split: prod.splits)
    with Cons.IH [OF s1(2) Cons.prems(2) _ _ _ fs2(1)] s1 True Cons.prems(3,4) fs2(2)
    show ?thesis by (auto simp: piece_ok_def)
  qed
qed

lemma EncodePbFrame_content:
  assumes "EncodePbFrame A q body = Inr st" and "bytes_ok (buf body)"
  shows "content (buf st) = pb_field q (content (buf body)) \<and> \<not> sint q < 0 \<and> m_iSize (buf body) \<le> INT32_MAX"
proof -
  let ?d = "content (buf body)"
  have len: "length ?d = m_iSize (buf body)" "length ?d \<le> INT32_MAX"
    using assms by (simp_all add: EncodePbFrame_def split: if_splits)
  have pos: "(0 < (word_of_nat (length ?d) :: u32)) = (?d \<noteq> [])"
    using unat_len32 [OF len(2)] by (simp add: word_less_nat_alt)
  from assms(1) len pos have w: "WritePbRaw A q (if ?d \<noteq> [] then Some ?d else None) (word_of_nat (length ?d)) Stream_empty = (None, st)"
    unfolding EncodePbFrame_def Let_def len(1) [symmetric] pos
    by (auto split: if_splits prod.splits option.splits)
  have "writes (WritePbRaw A q (if ?d \<noteq> [] then Some ?d else None) (word_of_nat (length ?d))) (pb_field q ?d)"
    using len(2) by (intro WritePbRaw_writes) auto
  from writesD(2) [OF this stream_ok_empty(1) w] WritePbRaw_seq [OF w] len show ?thesis by simp
qed

lemma split_all:
  "list_all (\<lambda>(q, d). \<not> sint q < 0 \<and> length d \<le> INT32_MAX \<and> length d \<le> limit) fs
    \<Longrightarrow> split_frames limit (concat (map (\<lambda>(q, d). pb_field q d) fs)) = (fs, [], Wait)"
proof (induction fs)
  case Nil
  then show ?case by simp
next
  case (Cons f fs)
  then show ?case by (cases f) (simp add: split_field)
qed

text \<open>A new session with the default limits, and a buffer holding given bytes.\<close>

definition fresh_session :: "(u32 \<times> bytes) list session" where
  "fresh_session = \<lparr>iStatus = IO_ST_CONNECTED, iErrorCode = 0, iQueuedBytes = 0, iMaxSendQueueBytes = 67108864,
     iMaxReceiveBufferBytes = 67108872, stOutputBuffer = Bytes_empty, stInputBuffer = Bytes_empty, bChannel = True,
     bWriteEvent = False, bIncompleteTimer = False, m_iFrameBytes = 65536, m_bDatagram = False, iMgrCloses = 0, stEnv = []\<rparr>"

definition piece :: "bytes \<Rightarrow> bytes_obj" where
  "piece d = \<lparr>m_pMemory = d, m_iCapacity = length d, m_iHead = 0, m_iSize = length d\<rparr>"

lemma piece_laws: "content (piece d) = d" "length d \<le> OBJECT_MAX \<Longrightarrow> bytes_ok (piece d)"
  by (simp_all add: piece_def content_def bytes_ok_def)

lemma fresh_session_laws:
  "rx_ok fresh_session" "\<not> IsClosed fresh_session" "content (stInputBuffer fresh_session) = []" "stEnv fresh_session = []"
  "m_iFrameBytes fresh_session = 65536"
  "length d \<le> 64 \<Longrightarrow> piece_ok fresh_session (piece d)"
proof -
  show "rx_ok fresh_session" "\<not> IsClosed fresh_session" "content (stInputBuffer fresh_session) = []" "stEnv fresh_session = []"
    "m_iFrameBytes fresh_session = 65536"
    by (simp_all add: fresh_session_def rx_ok_def IsClosed_def) (simp add: Bytes_empty_def)
  assume "length d \<le> 64"
  then show "piece_ok fresh_session (piece d)"
    using piece_laws(2) [of d] by (simp add: piece_ok_def fresh_session_def) (simp add: piece_def)
qed

section \<open>Properties\<close>





text \<open>
  A header that declares more than the frame limit closes a stream session at once, without
  waiting for the body: error EMSGSIZE, nothing delivered, the buffered bytes dropped, no timer left.
\<close>

theorem oversized_header_closes:
  assumes "bytes_ok (stInputBuffer s)" and "all_avail A" and "\<not> m_bDatagram s" and "\<not> IsClosed s" and "frame_sink deliver"
    and "8 \<le> length (content (stInputBuffer s))"
    and "le_val (take 4 (drop 4 (content (stInputBuffer s)))) > m_iFrameBytes s"
  shows "\<exists>s'. OnDataIn A timer_ok deliver s = Inr s' \<and> IsClosed s' \<and> iErrorCode s' = EMSGSIZE \<and> stEnv s' = stEnv s
    \<and> content (stInputBuffer s') = [] \<and> \<not> bIncompleteTimer s' \<and> iMgrCloses s' = iMgrCloses s + 1"
proof -
  have "split_frames (m_iFrameBytes s) (content (stInputBuffer s)) = ([], content (stInputBuffer s), TooLarge)"
    using assms(6,7) by (subst split_frames.simps) (simp add: Let_def)
  from frame_sink.OnDataIn_split [OF assms(5,1,2) this, of timer_ok] obtain b where
    o: "OnDataIn A timer_ok deliver s = Inr (after_data timer_ok b (frame_stop TooLarge (s\<lparr>stInputBuffer := Bytes_empty\<rparr>)))"
    by auto
  let ?s1 = "PassiveClose EMSGSIZE (s\<lparr>stInputBuffer := Bytes_empty\<rparr>)"
  have "frame_stop TooLarge (s\<lparr>stInputBuffer := Bytes_empty\<rparr>) = ?s1" using assms(3) by simp
  with o have o2: "OnDataIn A timer_ok deliver s = Inr ((CancelIncompleteTimer ?s1)\<lparr>stInputBuffer := Clear b\<rparr>)"
    using assms(3) by (simp add: after_data_def)
  show ?thesis unfolding o2 using assms(4)
    by (simp add: CancelIncompleteTimer_def PassiveClose_def Close_def AllowSend_def IsClosed_def Let_def)
qed

theorem oversized_header_closes_witness:
  "\<exists>s'. OnDataIn \<lparr>avail = \<lambda>_. True, junk = \<lambda>_. CHR ''?''\<rparr> True record_frame
      (fresh_session\<lparr>stInputBuffer := piece (le_bytes 4 1 @ le_bytes 4 65537)\<rparr>) = Inr s' \<and> iErrorCode s' = EMSGSIZE"
proof -
  let ?A = "\<lparr>avail = \<lambda>_. True, junk = \<lambda>_. CHR ''?''\<rparr>"
  let ?s = "fresh_session\<lparr>stInputBuffer := piece (le_bytes 4 1 @ le_bytes 4 65537)\<rparr>"
  have A: "all_avail ?A" by (simp add: all_avail_def)
  have p: "bytes_ok (stInputBuffer ?s)" "\<not> m_bDatagram ?s" "\<not> IsClosed ?s" "8 \<le> length (content (stInputBuffer ?s))"
    "le_val (take 4 (drop 4 (content (stInputBuffer ?s)))) > m_iFrameBytes ?s"
    using piece_laws [of "le_bytes 4 1 @ le_bytes 4 65537"] by (simp_all add: fresh_session_def IsClosed_def)
  from oversized_header_closes [OF p(1) A p(2,3) recorder.frame_sink_axioms p(4,5)] show ?thesis by blast
qed

text \<open>
  The partial-frame timer runs exactly while a stream session that is open holds an incomplete
  frame. (The timer is started once per incomplete frame: \<open>ArmIncompleteTimer\<close> leaves a running one alone.)
\<close>

theorem incomplete_timer_exact:
  assumes "bytes_ok (stInputBuffer s)" and "all_avail A" and "\<not> m_bDatagram s" and "frame_sink deliver"
    and "OnDataIn A True deliver s = Inr s'"
  shows "bIncompleteTimer s' \<longleftrightarrow> \<not> IsClosed s' \<and> content (stInputBuffer s') \<noteq> []"
proof -
  obtain fs rest e where "split_frames (m_iFrameBytes s) (content (stInputBuffer s)) = (fs, rest, e)" by (metis prod_cases3)
  from frame_sink.OnDataIn_split [OF assms(4,1,2) this, of True] obtain b s1 where
    b: "bytes_ok b" and s': "s' = after_data True b s1" and s1: "m_bDatagram s1 = m_bDatagram s"
    using assms(5) frame_sink.deliver_all_rx(3) [OF assms(4)] by (cases e) fastforce+
  have ne: "m_iSize b \<noteq> 0 \<longleftrightarrow> content b \<noteq> []" using b length_content [OF b] by (metis content_size_0 list.size(3))
  show ?thesis unfolding s' using s1 assms(3) ne
    by (auto simp: after_data_def ArmIncompleteTimer_def CancelIncompleteTimer_def IsClosed_def)
qed

theorem incomplete_timer_exact_witness:
  "\<exists>s'. OnDataIn \<lparr>avail = \<lambda>_. True, junk = \<lambda>_. CHR ''?''\<rparr> True record_frame (fresh_session\<lparr>stInputBuffer := piece ''abc''\<rparr>) = Inr s'
    \<and> (bIncompleteTimer s' \<longleftrightarrow> \<not> IsClosed s' \<and> content (stInputBuffer s') \<noteq> [])"
proof -
  let ?A = "\<lparr>avail = \<lambda>_. True, junk = \<lambda>_. CHR ''?''\<rparr>" and ?s = "fresh_session\<lparr>stInputBuffer := piece ''abc''\<rparr>"
  have A: "all_avail ?A" by (simp add: all_avail_def)
  have p: "bytes_ok (stInputBuffer ?s)" "\<not> m_bDatagram ?s" "content (stInputBuffer ?s) = ''abc''"
    by (simp_all add: piece_laws fresh_session_def)
  obtain s' where s': "OnDataIn ?A True record_frame ?s = Inr s'"
    using recorder.OnDataIn_split [OF p(1) A, of "[]" "''abc''" Wait True] p(3) by (auto simp: split_short)
  from incomplete_timer_exact [OF p(1) A p(2) recorder.frame_sink_axioms s'] s' show ?thesis by blast
qed

text \<open>
  \<open>JBytesParser::DecodeProtocol\<close> never returns the bytes it was given: whatever the input, the
  object it returns is empty.
\<close>

theorem JBytes_decode_is_empty:
  "case JBytes_DecodeProtocol A st of Inl e \<Rightarrow> True | Inr b \<Rightarrow> content b = []"
  by (simp add: JBytes_DecodeProtocol_def Let_def split: sum.splits prod.splits option.splits)

end
