(* ===== verification/OI_Tcp.thy ===== *)
theory OI_Tcp
  imports OI_Session
begin

text \<open>
  The TCP channel (cbaselib/net/src/oi_tcp_channel.cpp, oi_net_channel.cpp, oi_channel.cpp) between a
  socket and a session, and the poll callback that drives it (oi_poll.cpp, \<open>OnPoll\<close>).

  The socket is the operating system's: a script of what its calls will return. \<open>Got d\<close> is data that
  arrived, handed out up to the size asked for; \<open>Sent n\<close> accepts at least one and at most \<open>n + 1\<close> of
  the bytes offered. An empty script is a socket that would block. \<open>wire\<close> is what the system has
  accepted for sending so far.

  The step relation \<open>tcp_step\<close> interleaves the application's sends with the poll thread's work, one
  critical section per step; \<open>tcp_reach\<close> is reachability with the bytes the application was told were
  accepted.
\<close>

section \<open>Socket\<close>

datatype sock_in = Got bytes | RecvAgain | RecvIntr | RecvEof | RecvFault int
datatype sock_out = Sent nat | SendAgain | SendIntr | SendFault int

fun sock_weight :: "sock_in list \<Rightarrow> nat" where
  "sock_weight [] = 0"
| "sock_weight (Got d # ks) = Suc (length d) + sock_weight ks"
| "sock_weight (_ # ks) = Suc (sock_weight ks)"

fun NetOs_Recv :: "nat \<Rightarrow> sock_in list \<Rightarrow> sock_in \<times> sock_in list" where
  "NetOs_Recv limit [] = (RecvAgain, [])"
| "NetOs_Recv limit (Got d # ks) = (if d = [] then (RecvEof, ks)
     else if length d \<le> limit then (Got d, ks) else (Got (take limit d), Got (drop limit d) # ks))"
| "NetOs_Recv limit (k # ks) = (k, ks)"

section \<open>Channel\<close>

record 'e tcp =
  sess :: "'e session"
  chIn :: bytes_obj
  chOut :: bytes_obj
  wire :: bytes

abbreviation ROUND_MAX :: nat where "ROUND_MAX \<equiv> 4194304"

definition swap_in :: "allocator \<Rightarrow> bool \<Rightarrow> 'e deliver \<Rightarrow> 'e tcp \<Rightarrow> exc + 'e tcp" where
  "swap_in A timer_ok deliver t = (case SwapInBuff A timer_ok deliver (chIn t) (sess t) of
     Inl e \<Rightarrow> Inl e | Inr (b, s) \<Rightarrow> Inr (t\<lparr>chIn := b, sess := s\<rparr>))"

definition close_with :: "int \<Rightarrow> 'e tcp \<Rightarrow> 'e tcp" where
  "close_with iError t = t\<lparr>sess := PassiveClose iError (sess t)\<rparr>"

definition then_close :: "int \<Rightarrow> exc + 'e tcp \<Rightarrow> exc + 'e tcp" where
  "then_close iError r = (case r of Inl e \<Rightarrow> Inl e | Inr t \<Rightarrow> Inr (close_with iError t))"

text \<open>The branch for a full receive buffer.\<close>

definition swap_full :: "allocator \<Rightarrow> bool \<Rightarrow> 'e deliver \<Rightarrow> 'e tcp \<Rightarrow> exc + 'e tcp" where
  "swap_full A timer_ok deliver t = (case swap_in A timer_ok deliver t of Inl e \<Rightarrow> Inl e
     | Inr t' \<Rightarrow> Inr (if \<not> IsClosed (sess t') \<and> ReceiveAllowance (sess t') = 0 then close_with ENOBUFS t' else t'))"

definition make_room :: "allocator \<Rightarrow> bytes_obj \<Rightarrow> exc + bytes_obj" where
  "make_room A b = (if Capacity b - m_iSize b < 16384
     then (case Reserve A (m_iSize b + 65536) b of Inl e \<Rightarrow> Inl e | Inr (c, b') \<Rightarrow> Inr b') else Inr b)"

definition commit_read :: "bytes \<Rightarrow> 'e tcp \<Rightarrow> exc + 'e tcp" where
  "commit_read d t = (case Commit (length d) (write_end d (chIn t)) of Inl e \<Rightarrow> Inl e
     | Inr b \<Rightarrow> Inr (t\<lparr>chIn := b\<rparr>))"

function DataIn :: "allocator \<Rightarrow> bool \<Rightarrow> 'e deliver \<Rightarrow> sock_in list \<Rightarrow> nat \<Rightarrow> 'e tcp \<Rightarrow> exc + 'e tcp" where
  "DataIn A timer_ok deliver ks iRound t =
     (if m_iSize (chIn t) \<ge> ReceiveAllowance (sess t) then swap_full A timer_ok deliver t
      else if iRound \<ge> ROUND_MAX then swap_in A timer_ok deliver t
      else case make_room A (chIn t) of
        Inl e \<Rightarrow> Inl e
      | Inr b \<Rightarrow>
          (let t1 = t\<lparr>chIn := b\<rparr>;
               iReadLimit = min (Capacity b - m_iSize b)
                 (min (ReceiveAllowance (sess t) - m_iSize b) (ROUND_MAX - iRound))
           in case NetOs_Recv iReadLimit ks of
                (Got d, ks') \<Rightarrow>
                  if d = [] then then_close 0 (swap_in A timer_ok deliver t1)
                  else (case commit_read d t1 of Inl e \<Rightarrow> Inl e
                    | Inr t2 \<Rightarrow> DataIn A timer_ok deliver ks' (iRound + length d) t2)
              | (RecvAgain, _) \<Rightarrow> swap_in A timer_ok deliver t1
              | (RecvIntr, ks') \<Rightarrow> DataIn A timer_ok deliver ks' iRound t1
              | (RecvEof, _) \<Rightarrow> then_close 0 (swap_in A timer_ok deliver t1)
              | (RecvFault e, _) \<Rightarrow> then_close e (swap_in A timer_ok deliver t1)))"
  by pat_completeness auto

lemma NetOs_Recv_weight:
  "NetOs_Recv n ks = (Got d, ks') \<Longrightarrow> d \<noteq> [] \<Longrightarrow> sock_weight ks' < sock_weight ks"
  "NetOs_Recv n ks = (RecvIntr, ks') \<Longrightarrow> sock_weight ks' < sock_weight ks"
  by (induction n ks rule: NetOs_Recv.induct) (auto split: if_splits)

termination DataIn
proof (relation "measure (\<lambda>(A, timer_ok, deliver, ks, iRound, t). sock_weight ks)", goal_cases)
  case 1
  show ?case by simp
next
  case (2 A timer_ok deliver ks iRound t b t1 iReadLimit r ks' d t2)
  then show ?case by (auto intro: NetOs_Recv_weight(1) [OF sym])
next
  case (3 A timer_ok deliver ks iRound t b t1 iReadLimit r ks')
  then show ?case by (auto intro: NetOs_Recv_weight(2) [OF sym])
qed

declare DataIn.simps [simp del]

fun data_out_loop :: "sock_out list \<Rightarrow> 'e tcp \<Rightarrow> 'e tcp" where
  "data_out_loop ks t =
     (if m_iSize (chOut t) = 0 then t\<lparr>sess := SendDrained (sess t)\<rparr>
      else case ks of
        Sent n # ks' \<Rightarrow>
          (let k = min (n + 1) (m_iSize (chOut t))
           in data_out_loop ks' (t\<lparr>wire := wire t @ take k (content (chOut t)),
                chOut := snd (Erase 0 k (chOut t)), sess := OnBytesSent k (sess t)\<rparr>))
      | SendIntr # ks' \<Rightarrow> data_out_loop ks' t
      | SendFault e # ks' \<Rightarrow> close_with e t
      | SendAgain # ks' \<Rightarrow> t
      | [] \<Rightarrow> t)"

declare data_out_loop.simps [simp del]

definition DataOut :: "allocator \<Rightarrow> sock_out list \<Rightarrow> 'e tcp \<Rightarrow> exc + 'e tcp" where
  "DataOut A ks t = (case SwapOutBuff A (chOut t) (sess t) of Inl e \<Rightarrow> Inl e
     | Inr (b, s) \<Rightarrow> Inr (data_out_loop ks (t\<lparr>chOut := b, sess := s\<rparr>)))"

text \<open>\<open>TryClose\<close> destroys a closed channel: \<open>None\<close>. Its \<open>OnClose\<close> stops the timer and unregisters the session.\<close>

definition TryClose :: "'e tcp \<Rightarrow> 'e tcp option" where
  "TryClose t = (if IsClosed (sess t) then None else Some t)"

definition OnPoll :: "allocator \<Rightarrow> bool \<Rightarrow> 'e deliver \<Rightarrow> bool \<Rightarrow> sock_in list \<Rightarrow> bool \<Rightarrow> sock_out list
    \<Rightarrow> 'e tcp \<Rightarrow> exc + 'e tcp option" where
  "OnPoll A timer_ok deliver readable kin writable kout t =
     (case (if readable then DataIn A timer_ok deliver kin 0 t else Inr t) of
        Inl e \<Rightarrow> Inl e
      | Inr t1 \<Rightarrow> (case (if writable then DataOut A kout t1 else Inr t1) of
            Inl e \<Rightarrow> Inl e | Inr t2 \<Rightarrow> Inr (TryClose t2)))"

section \<open>Steps and reachability\<close>

inductive tcp_reach :: "allocator \<Rightarrow> bool \<Rightarrow> 'e deliver \<Rightarrow> 'e tcp \<Rightarrow> bytes \<Rightarrow> 'e tcp \<Rightarrow> bool"
  for A timer_ok deliver t0 where
  start: "tcp_reach A timer_ok deliver t0 [] t0"
| send: "tcp_reach A timer_ok deliver t0 acc t \<Longrightarrow> bytes_ok d \<Longrightarrow> SendResult A d (sess t) = Inr (iCode, s')
    \<Longrightarrow> tcp_reach A timer_ok deliver t0 (if iCode = OI_OK then acc @ content d else acc) (t\<lparr>sess := s'\<rparr>)"
| data_in: "tcp_reach A timer_ok deliver t0 acc t \<Longrightarrow> DataIn A timer_ok deliver ks 0 t = Inr t'
    \<Longrightarrow> tcp_reach A timer_ok deliver t0 acc t'"
| data_out: "tcp_reach A timer_ok deliver t0 acc t \<Longrightarrow> DataOut A ks t = Inr t' \<Longrightarrow> tcp_reach A timer_ok deliver t0 acc t'"
| set_limit: "tcp_reach A timer_ok deliver t0 acc t \<Longrightarrow> n \<le> 2 ^ 59
    \<Longrightarrow> tcp_reach A timer_ok deliver t0 acc (t\<lparr>sess := SetSendQueueLimit n (sess t)\<rparr>)"
| timeout: "tcp_reach A timer_ok deliver t0 acc t \<Longrightarrow> tcp_reach A timer_ok deliver t0 acc (t\<lparr>sess := IncompleteTimeout (sess t)\<rparr>)"
| active_close: "tcp_reach A timer_ok deliver t0 acc t \<Longrightarrow> tcp_reach A timer_ok deliver t0 acc (t\<lparr>sess := ActiveClose (sess t)\<rparr>)"
| detach: "tcp_reach A timer_ok deliver t0 acc t \<Longrightarrow> tcp_reach A timer_ok deliver t0 acc (t\<lparr>sess := DetachChannel (sess t)\<rparr>)"

text \<open>
  The sending side is consistent: the count of queued bytes is the two buffers' sizes, and whenever
  something is queued on an attached channel its write event is on, so the poll thread will come.
\<close>

definition tx_ok :: "'e tcp \<Rightarrow> bool" where
  "tx_ok t \<longleftrightarrow> bytes_ok (stOutputBuffer (sess t)) \<and> bytes_ok (chOut t)
     \<and> m_iCapacity (stOutputBuffer (sess t)) \<le> 2 ^ 61 \<and> m_iCapacity (chOut t) \<le> 2 ^ 61
     \<and> iQueuedBytes (sess t) = m_iSize (stOutputBuffer (sess t)) + m_iSize (chOut t)
     \<and> iQueuedBytes (sess t) \<le> 2 ^ 59 \<and> iMaxSendQueueBytes (sess t) \<le> 2 ^ 59
     \<and> (bChannel (sess t) \<and> 0 < iQueuedBytes (sess t) \<longrightarrow> bWriteEvent (sess t))"

definition unsent :: "'e tcp \<Rightarrow> bytes" where
  "unsent t = content (chOut t) @ content (stOutputBuffer (sess t))"

text \<open>What the receiving side leaves of the sending side.\<close>

definition tx_keep :: "'e session \<Rightarrow> 'e session \<Rightarrow> bool" where
  "tx_keep s s' \<longleftrightarrow> stOutputBuffer s' = stOutputBuffer s \<and> iQueuedBytes s' = iQueuedBytes s
     \<and> iMaxSendQueueBytes s' = iMaxSendQueueBytes s \<and> bChannel s' = bChannel s \<and> (bWriteEvent s \<longrightarrow> bWriteEvent s')"

lemma tx_keep_refl [simp]: "tx_keep s s"
  by (simp add: tx_keep_def)

lemma tx_keep_trans: "tx_keep s s' \<Longrightarrow> tx_keep s' s'' \<Longrightarrow> tx_keep s s''"
  by (auto simp: tx_keep_def)

lemma tx_keep_close: "tx_keep s (PassiveClose e s)" "tx_keep s (CancelIncompleteTimer s)" "tx_keep s (ActiveClose s)"
  "tx_keep s (IncompleteTimeout s)" "tx_keep s (ArmIncompleteTimer b s)"
  by (auto simp: tx_keep_def PassiveClose_def CancelIncompleteTimer_def ActiveClose_def Close_def AllowSend_def
      IncompleteTimeout_def ArmIncompleteTimer_def IsClosed_def Let_def)

lemma tx_keep_input [simp]: "tx_keep s (s'\<lparr>stInputBuffer := b\<rparr>) = tx_keep s s'"
  "tx_keep (s\<lparr>stInputBuffer := b\<rparr>) s' = tx_keep s s'"
  by (auto simp: tx_keep_def)

lemma tx_ok_keep:
  assumes "tx_ok t" and "tx_keep (sess t) s'"
  shows "tx_ok (t\<lparr>sess := s', chIn := b\<rparr>) \<and> unsent (t\<lparr>sess := s', chIn := b\<rparr>) = unsent t"
  using assms unfolding tx_ok_def tx_keep_def unsent_def by simp

definition in_keep :: "'a tcp \<Rightarrow> 'a tcp \<Rightarrow> bool" where
  "in_keep t t' \<longleftrightarrow> chOut t' = chOut t \<and> wire t' = wire t \<and> tx_keep (sess t) (sess t')"

locale quiet_sink = frame_sink +
  assumes sink_tx: "tx_keep s (deliver q d s)"
begin

lemma deliver_tx: "tx_keep s (deliver q d (CancelIncompleteTimer s))"
  using tx_keep_trans [OF tx_keep_close(2) sink_tx] .

lemma data_in_loop_tx: "data_in_loop A deliver fuel st s = Some (e, st', s') \<Longrightarrow> tx_keep s s'"
proof (induction fuel arbitrary: st s)
  case 0
  then show ?case
    by (subst (asm) data_in_loop.simps)
      (auto simp: Let_def tx_keep_close split: if_splits prod.splits PbHeaderState.splits option.splits)
next
  case (Suc fuel)
  from Suc.prems show ?case
    by (subst (asm) data_in_loop.simps)
      (auto simp: Let_def tx_keep_close split: if_splits prod.splits PbHeaderState.splits option.splits
        dest!: Suc.IH intro: tx_keep_trans [OF deliver_tx])
qed

lemma OnDataIn_tx: "OnDataIn A timer_ok deliver s = Inr s' \<Longrightarrow> tx_keep s s'"
  by (auto simp: OnDataIn_def Let_def split: option.splits prod.splits if_splits dest!: data_in_loop_tx
      intro!: tx_keep_trans [OF _ tx_keep_close(2)] tx_keep_trans [OF _ tx_keep_close(5)])

lemma SwapInBuff_tx: "SwapInBuff A timer_ok deliver inb s = Inr (b, s') \<Longrightarrow> tx_keep s s'"
  by (auto simp: SwapInBuff_def tx_keep_close split: if_splits sum.splits prod.splits dest!: OnDataIn_tx)

lemma swap_in_keep: "swap_in A timer_ok deliver t = Inr t' \<Longrightarrow> in_keep t t'"
  by (auto simp: swap_in_def in_keep_def split: sum.splits prod.splits dest: SwapInBuff_tx)

lemma close_keep: "in_keep t t' \<Longrightarrow> in_keep t (close_with e t')"
  by (auto simp: in_keep_def close_with_def intro: tx_keep_trans [OF _ tx_keep_close(1)])

lemma swap_full_keep: "swap_full A timer_ok deliver t = Inr t' \<Longrightarrow> in_keep t t'"
  by (auto simp: swap_full_def split: sum.splits if_splits dest!: swap_in_keep intro: close_keep)

lemma then_close_keep: "then_close e (swap_in A timer_ok deliver t) = Inr t' \<Longrightarrow> in_keep t t'"
  by (auto simp: then_close_def split: sum.splits dest!: swap_in_keep intro: close_keep)

lemma in_keep_chIn: "in_keep (t\<lparr>chIn := b\<rparr>) t' \<Longrightarrow> in_keep t t'"
  by (simp add: in_keep_def)

lemma commit_read_keep: "commit_read d t = Inr t2 \<Longrightarrow> in_keep t2 t' \<Longrightarrow> in_keep t t'"
  by (auto simp: commit_read_def in_keep_def split: sum.splits)

lemma DataIn_keep: "DataIn A timer_ok deliver ks r t = Inr t' \<Longrightarrow> in_keep t t'"
proof (induction ks arbitrary: r t rule: measure_induct_rule [of sock_weight])
  case (less ks)
  show ?case
  proof (cases "ReceiveAllowance (sess t) \<le> m_iSize (chIn t) \<or> ROUND_MAX \<le> r")
    case True
    with less.prems show ?thesis
      by (subst (asm) DataIn.simps) (auto split: if_splits dest: swap_in_keep swap_full_keep)
  next
    case False
    with less.prems obtain b where b: "make_room A (chIn t) = Inr b"
      by (subst (asm) DataIn.simps) (auto split: sum.splits)
    define limit where "limit = min (Capacity b - m_iSize b)
        (min (ReceiveAllowance (sess t) - m_iSize b) (ROUND_MAX - r))"
    obtain k ks' where k: "NetOs_Recv limit ks = (k, ks')" by (cases "NetOs_Recv limit ks")
    have step: "DataIn A timer_ok deliver ks r t = (case k of
          Got d \<Rightarrow> if d = [] then then_close 0 (swap_in A timer_ok deliver (t\<lparr>chIn := b\<rparr>))
            else (case commit_read d (t\<lparr>chIn := b\<rparr>) of Inl e \<Rightarrow> Inl e
              | Inr t2 \<Rightarrow> DataIn A timer_ok deliver ks' (r + length d) t2)
        | RecvAgain \<Rightarrow> swap_in A timer_ok deliver (t\<lparr>chIn := b\<rparr>)
        | RecvIntr \<Rightarrow> DataIn A timer_ok deliver ks' r (t\<lparr>chIn := b\<rparr>)
        | RecvEof \<Rightarrow> then_close 0 (swap_in A timer_ok deliver (t\<lparr>chIn := b\<rparr>))
        | RecvFault e \<Rightarrow> then_close e (swap_in A timer_ok deliver (t\<lparr>chIn := b\<rparr>)))"
      using False b k by (subst DataIn.simps) (simp add: Let_def limit_def [symmetric])
    show ?thesis
    proof (cases k)
      case (Got d)
      show ?thesis
      proof (cases "d = []")
        case True
        with Got step less.prems have "then_close 0 (swap_in A timer_ok deliver (t\<lparr>chIn := b\<rparr>)) = Inr t'" by simp
        from in_keep_chIn [OF then_close_keep [OF this]] show ?thesis .
      next
        case False
        with Got step less.prems obtain t2 where t2: "commit_read d (t\<lparr>chIn := b\<rparr>) = Inr t2"
          "DataIn A timer_ok deliver ks' (r + length d) t2 = Inr t'" by (auto split: sum.splits)
        have "sock_weight ks' < sock_weight ks" using NetOs_Recv_weight(1) k Got False by blast
        from commit_read_keep [OF t2(1) less.IH [OF this t2(2)]] show ?thesis by (rule in_keep_chIn)
      qed
    next
      case RecvIntr
      have "sock_weight ks' < sock_weight ks" using NetOs_Recv_weight(2) k RecvIntr by blast
      from less.IH [OF this] step less.prems RecvIntr show ?thesis by (auto intro: in_keep_chIn)
    qed (use step less.prems in \<open>auto dest: then_close_keep [OF sym] swap_in_keep [OF sym] in_keep_chIn\<close>)
  qed
qed

end

interpretation quiet_recorder: quiet_sink record_frame
  by unfold_locales (simp add: record_frame_def tx_keep_def)

section \<open>The sending side\<close>

lemma SendResult_tx:
  assumes t: "tx_ok t" and A: "all_avail A" and d: "bytes_ok d" and r: "SendResult A d (sess t) = Inr (c, s')"
  shows "tx_ok (t\<lparr>sess := s'\<rparr>) \<and> unsent (t\<lparr>sess := s'\<rparr>) = unsent t @ (if c = OI_OK then content d else [])"
proof (cases "IsClosed (sess t) \<or> iQueuedBytes (sess t) > iMaxSendQueueBytes (sess t)
    \<or> m_iSize d > iMaxSendQueueBytes (sess t) - iQueuedBytes (sess t)")
  case True
  with r have "s' = sess t" "c \<noteq> OI_OK" by (auto simp: SendResult_def split: if_splits)
  with t show ?thesis by simp
next
  case False
  let ?o = "stOutputBuffer (sess t)"
  from False have q: "iQueuedBytes (sess t) + m_iSize d \<le> iMaxSendQueueBytes (sess t)" by linarith
  with t have size: "m_iSize ?o + length (content d) \<le> 2 ^ 59" using d by (simp add: tx_ok_def)
  obtain b where b: "Append_ext A (content d) ?o = Inr b" "bytes_ok b" "content b = content ?o @ content d"
      "m_iCapacity b \<le> 2 ^ 61" "m_iSize b = m_iSize ?o + length (content d)"
    by (rule Append_ext_within [of ?o A "content d"]) (use t A size in \<open>simp_all add: tx_ok_def all_avail_def\<close>)
  have s': "c = OI_OK" "s' = AllowSend ((sess t)\<lparr>stOutputBuffer := b, iQueuedBytes := iQueuedBytes (sess t) + m_iSize d\<rparr>)"
    using r False b(1) by (auto simp: SendResult_def)
  show ?thesis
    using t b q s' d unfolding tx_ok_def unsent_def by (auto simp: AllowSend_def)
qed

lemma SwapOutBuff_tx:
  assumes t: "tx_ok t" and A: "all_avail A"
  shows "\<exists>b s'. SwapOutBuff A (chOut t) (sess t) = Inr (b, s') \<and> tx_ok (t\<lparr>chOut := b, sess := s'\<rparr>)
    \<and> content b = unsent t \<and> m_iSize (stOutputBuffer s') = 0 \<and> bChannel s' = bChannel (sess t) \<and> iStatus s' = iStatus (sess t)"
proof (cases "m_iSize (chOut t) = 0")
  case True
  have "content (chOut t) = []" using True by (simp add: content_def)
  moreover have "SwapOutBuff A (chOut t) (sess t) = Inr (stOutputBuffer (sess t), (sess t)\<lparr>stOutputBuffer := Clear (chOut t)\<rparr>)"
    using True by (simp add: SwapOutBuff_def)
  moreover have "bytes_ok (Clear (chOut t))" "m_iCapacity (Clear (chOut t)) = m_iCapacity (chOut t)" "m_iSize (Clear (chOut t)) = 0"
    using t by (simp_all add: tx_ok_def Clear_ok) (simp_all add: Clear_def)
  ultimately show ?thesis using t True unfolding tx_ok_def unsent_def by auto
next
  case False
  let ?o = "stOutputBuffer (sess t)"
  have size: "m_iSize (chOut t) + length (content ?o) \<le> 2 ^ 59" using t by (simp add: tx_ok_def)
  obtain b where b: "Append_ext A (content ?o) (chOut t) = Inr b" "bytes_ok b" "content b = content (chOut t) @ content ?o"
      "m_iCapacity b \<le> 2 ^ 61" "m_iSize b = m_iSize (chOut t) + length (content ?o)"
    by (rule Append_ext_within [of "chOut t" A "content ?o"]) (use t A size in \<open>simp_all add: tx_ok_def all_avail_def\<close>)
  have ok: "bytes_ok (Clear ?o)" "m_iCapacity (Clear ?o) = m_iCapacity ?o" "m_iSize (Clear ?o) = 0"
    using t by (simp_all add: tx_ok_def Clear_ok) (simp_all add: Clear_def)
  have "SwapOutBuff A (chOut t) (sess t) = Inr (b, (sess t)\<lparr>stOutputBuffer := Clear ?o\<rparr>)"
    using False b(1) by (simp add: SwapOutBuff_def)
  moreover have "tx_ok (t\<lparr>chOut := b, sess := (sess t)\<lparr>stOutputBuffer := Clear ?o\<rparr>\<rparr>)"
    using t b ok unfolding tx_ok_def by auto
  ultimately show ?thesis using b(3) ok(3) by (simp add: unsent_def)
qed

lemma sent_tx:
  assumes t: "tx_ok t" and k: "k \<le> m_iSize (chOut t)"
  shows "tx_ok (t\<lparr>wire := w, chOut := snd (Erase 0 k (chOut t)), sess := OnBytesSent k (sess t)\<rparr>)
    \<and> content (snd (Erase 0 k (chOut t))) = drop k (content (chOut t))"
proof -
  have e: "bytes_ok (snd (Erase 0 k (chOut t)))" "content (snd (Erase 0 k (chOut t))) = drop k (content (chOut t))"
    using oi_bytes.drop_law [of "chOut t" k] t by (simp_all add: tx_ok_def)
  have sz: "m_iSize (snd (Erase 0 k (chOut t))) = m_iSize (chOut t) - k"
    using e t length_content [OF e(1)] by (simp add: tx_ok_def)
  have q: "size_sub (iQueuedBytes (sess t)) k = iQueuedBytes (sess t) - k"
    using t k by (intro size_sub_le) (simp_all add: tx_ok_def)
  show ?thesis using t e sz q k unfolding tx_ok_def by (auto simp: OnBytesSent_def)
qed

lemma close_tx: "tx_ok t \<Longrightarrow> tx_ok (close_with e t) \<and> unsent (close_with e t) = unsent t \<and> wire (close_with e t) = wire t"
  using tx_ok_keep [of t "PassiveClose e (sess t)" "chIn t"] tx_keep_close(1) [of "sess t" e]
  by (simp add: close_with_def)

lemma SendDrained_tx:
  assumes "tx_ok t" and "m_iSize (chOut t) = 0"
  shows "tx_ok (t\<lparr>sess := SendDrained (sess t)\<rparr>)" "unsent (t\<lparr>sess := SendDrained (sess t)\<rparr>) = unsent t"
  using assms by (auto simp: tx_ok_def unsent_def SendDrained_def ForbidSend_def)

lemma data_out_loop_tx:
  "tx_ok t \<Longrightarrow> tx_ok (data_out_loop ks t) \<and> wire (data_out_loop ks t) @ unsent (data_out_loop ks t) = wire t @ unsent t"
proof (induction ks arbitrary: t)
  case Nil
  then show ?case using SendDrained_tx [of t] by (subst (1 2 3) data_out_loop.simps) simp
next
  case (Cons k ks)
  show ?case
  proof (cases "m_iSize (chOut t) = 0")
    case True
    then show ?thesis using Cons.prems SendDrained_tx [of t] by (subst (1 2 3) data_out_loop.simps) simp
  next
    case False
    show ?thesis
    proof (cases k)
      case (Sent n)
      let ?k = "min (n + 1) (m_iSize (chOut t))"
      let ?t1 = "t\<lparr>wire := wire t @ take ?k (content (chOut t)), chOut := snd (Erase 0 ?k (chOut t)), sess := OnBytesSent ?k (sess t)\<rparr>"
      have l: "data_out_loop (k # ks) t = data_out_loop ks ?t1"
        using False Sent by (subst data_out_loop.simps) (simp add: Let_def)
      have "tx_ok ?t1" and c: "content (snd (Erase 0 ?k (chOut t))) = drop ?k (content (chOut t))"
        using sent_tx [OF Cons.prems, of ?k] by simp_all
      moreover have "wire ?t1 @ unsent ?t1 = wire t @ unsent t"
        using c by (simp add: unsent_def OnBytesSent_def)
      ultimately show ?thesis using Cons.IH [of ?t1] l by simp
    next
      case SendIntr
      then show ?thesis using False Cons.IH [OF Cons.prems] by (subst (1 2 3) data_out_loop.simps) simp
    next
      case (SendFault e)
      then show ?thesis using False close_tx [OF Cons.prems] by (subst (1 2 3) data_out_loop.simps) simp
    next
      case SendAgain
      then show ?thesis using False Cons.prems by (subst (1 2 3) data_out_loop.simps) simp
    qed
  qed
qed

lemma DataOut_tx:
  assumes "tx_ok t" and "all_avail A"
  shows "\<exists>t'. DataOut A ks t = Inr t' \<and> tx_ok t' \<and> wire t' @ unsent t' = wire t @ unsent t"
proof -
  from SwapOutBuff_tx [OF assms] obtain b s' where s: "SwapOutBuff A (chOut t) (sess t) = Inr (b, s')"
    "tx_ok (t\<lparr>chOut := b, sess := s'\<rparr>)" "content b = unsent t" "m_iSize (stOutputBuffer s') = 0" by blast
  let ?t1 = "t\<lparr>chOut := b, sess := s'\<rparr>"
  have "wire ?t1 @ unsent ?t1 = wire t @ unsent t" using s(3,4) by (simp add: unsent_def content_def [of "stOutputBuffer s'"])
  with data_out_loop_tx [OF s(2), of ks] s(1) show ?thesis by (simp add: DataOut_def)
qed

lemma tcp_reach_tx:
  assumes A: "all_avail A" and sink: "quiet_sink deliver" and t0: "tx_ok t0" "unsent t0 = []" "wire t0 = []"
  shows "tcp_reach A timer_ok deliver t0 acc t \<Longrightarrow> tx_ok t \<and> wire t @ unsent t = acc"
proof (induction rule: tcp_reach.induct)
  case start
  then show ?case using t0 by simp
next
  case (send acc t d iCode s')
  then show ?case using SendResult_tx [OF _ A send.hyps(2,3)] by auto
next
  case (data_in acc t ks t')
  from quiet_sink.DataIn_keep [OF sink data_in.hyps(2)]
  have k: "chOut t' = chOut t" "wire t' = wire t" "tx_keep (sess t) (sess t')" by (simp_all add: in_keep_def)
  have "t' = t\<lparr>sess := sess t', chIn := chIn t'\<rparr>" using k by simp
  with tx_ok_keep [OF _ k(3), of "chIn t'"] data_in.IH k(2) show ?case by metis
next
  case (data_out acc t ks t')
  then show ?case using DataOut_tx [OF _ A, of t ks] by auto
next
  case (set_limit acc t n)
  then show ?case by (simp add: tx_ok_def unsent_def SetSendQueueLimit_def)
next
  case (timeout acc t)
  then show ?case using tx_ok_keep [of t "IncompleteTimeout (sess t)" "chIn t"] by (simp add: tx_keep_close)
next
  case (active_close acc t)
  then show ?case using tx_ok_keep [of t "ActiveClose (sess t)" "chIn t"] by (simp add: tx_keep_close)
next
  case (detach acc t)
  then show ?case by (simp add: tx_ok_def unsent_def DetachChannel_def)
qed

section \<open>Properties\<close>


definition fresh_tcp :: "(u32 \<times> bytes) list tcp" where
  "fresh_tcp = \<lparr>sess = fresh_session, chIn = Bytes_empty, chOut = Bytes_empty, wire = []\<rparr>"


text \<open>
  When the socket takes everything offered, one pass of the poll thread empties both buffers,
  puts every accepted byte on the wire in order and switches the write event off.
\<close>

theorem DataOut_drains:
  assumes "tx_ok t" and "all_avail A" and "\<not> IsClosed (sess t)" and "bChannel (sess t)" and "PendingSendBytes (sess t) \<le> n + 1"
  shows "\<exists>t'. DataOut A [Sent n] t = Inr t' \<and> wire t' = wire t @ content (chOut t) @ content (stOutputBuffer (sess t))
    \<and> PendingSendBytes (sess t') = 0 \<and> \<not> bWriteEvent (sess t')"
proof -
  from SwapOutBuff_tx [OF assms(1,2)] obtain b s' where s: "SwapOutBuff A (chOut t) (sess t) = Inr (b, s')"
    "tx_ok (t\<lparr>chOut := b, sess := s'\<rparr>)" "content b = unsent t" "m_iSize (stOutputBuffer s') = 0"
    "bChannel s'" "\<not> IsClosed s'" using assms(3,4) by (auto simp: IsClosed_def)
  let ?t1 = "t\<lparr>chOut := b, sess := s'\<rparr>"
  have "bytes_ok b" using s(2) by (simp add: tx_ok_def)
  then have len2: "m_iSize b = length (unsent t)" using s(3) length_content by metis
  have len1: "length (unsent t) = PendingSendBytes (sess t)"
    using assms(1) by (simp add: tx_ok_def unsent_def PendingSendBytes_def)
  have len3: "iQueuedBytes s' = m_iSize b" using s(2,4) by (simp add: tx_ok_def)
  note len = len1 len2 len3
  let ?t2 = "?t1\<lparr>wire := wire t @ unsent t, chOut := snd (Erase 0 (m_iSize b) b), sess := OnBytesSent (m_iSize b) s'\<rparr>"
  have "tx_ok ?t2" and c: "content (snd (Erase 0 (m_iSize b) b)) = []"
    using sent_tx [OF s(2), of "m_iSize b"] len s(3) by simp_all
  then have z: "m_iSize (snd (Erase 0 (m_iSize b) b)) = 0" by (simp add: tx_ok_def) (metis length_content list.size(3))
  have q: "iQueuedBytes (OnBytesSent (m_iSize b) s') = 0"
    using \<open>tx_ok ?t2\<close> z s(4) by (simp add: tx_ok_def OnBytesSent_def)
  have fin: "\<not> bWriteEvent (SendDrained s'') \<and> iQueuedBytes (SendDrained s'') = iQueuedBytes s''"
    if "bChannel s''" "\<not> IsClosed s''" "m_iSize (stOutputBuffer s'') = 0" for s'' :: "'a session"
    using that by (simp add: SendDrained_def ForbidSend_def)
  show ?thesis
  proof (cases "m_iSize b = 0")
    case True
    with len s have "data_out_loop [Sent n] ?t1 = ?t1\<lparr>sess := SendDrained s'\<rparr>" by (subst data_out_loop.simps) simp
    with True s len fin [of s'] show ?thesis by (simp add: DataOut_def PendingSendBytes_def unsent_def)
  next
    case False
    have "data_out_loop [Sent n] ?t1 = data_out_loop [] ?t2"
      using False len assms(5) s(3) by (subst data_out_loop.simps) (simp add: Let_def min_def)
    also have "\<dots> = ?t2\<lparr>sess := SendDrained (OnBytesSent (m_iSize b) s')\<rparr>"
      using z by (subst data_out_loop.simps) simp
    finally show ?thesis using s q fin [of "OnBytesSent (m_iSize b) s'"]
      by (simp add: DataOut_def PendingSendBytes_def unsent_def OnBytesSent_def IsClosed_def)
  qed
qed

theorem DataOut_drains_witness:
  "\<exists>t'. DataOut \<lparr>avail = \<lambda>_. True, junk = \<lambda>_. CHR ''?''\<rparr> [Sent 9] fresh_tcp = Inr t' \<and> wire t' = [] \<and> \<not> bWriteEvent (sess t')"
proof -
  have t: "tx_ok fresh_tcp" by (simp add: fresh_tcp_def fresh_session_def tx_ok_def) (simp_all add: Bytes_empty_def)
  have "wire fresh_tcp @ content (chOut fresh_tcp) @ content (stOutputBuffer (sess fresh_tcp)) = []"
    "\<not> IsClosed (sess fresh_tcp)" "bChannel (sess fresh_tcp)" "PendingSendBytes (sess fresh_tcp) \<le> 9 + 1"
    by (simp_all add: fresh_tcp_def fresh_session_def IsClosed_def PendingSendBytes_def)
  with DataOut_drains [OF t, of "\<lparr>avail = \<lambda>_. True, junk = \<lambda>_. CHR ''?''\<rparr>" 9] show ?thesis by (auto simp: all_avail_def)
qed

end
