(* ===== verification/OI_Timer.thy ===== *)
theory OI_Timer
  imports OI_Prelude
begin

text \<open>
  The timer wheel (cbaselib/timer/src/oi_timer_manager.cpp, oi_timer_level.cpp, oi_timer.cpp). Level 0
  has one slot per tick; a slot of level \<open>i + 1\<close> stands for a whole turn of level \<open>i\<close>; the last level
  has one slot for everything farther away. A tick fires the current slot of level 0 and, when a
  level has come full circle, distributes the next slot of the level above over the lower ones.

  A timer object is a number; \<open>timers\<close> gives its \<open>TimerData\<close> (the level pointer as an index). Times
  of the monotonic clock are integers in microseconds, given to the operations that read it.

  The invariant \<open>wheel_ok\<close> bounds how long each level still waits for its next turn, in every
  intermediate state of a tick, and from it follows that a timer with target tick \<open>X\<close> fires once, at
  tick \<open>X\<close> or \<open>X + 1\<close>.
\<close>

section \<open>State\<close>

record timer_data =
  m_iOffsetMilliseconds :: int
  m_iTriggerTick :: int
  m_pCurrentLevel :: "nat option"
  m_iLevelTick :: nat

record level =
  m_iMaxTick :: nat
  m_iLevelOffsetTick :: nat
  m_iOffset :: nat
  m_vTimerTickDatas :: "nat list list"

record wheel =
  m_iCurrentTick :: int
  m_iTickOffsetMilliseconds :: nat
  m_stLastTickMonotonic :: int
  m_vTimerLevels :: "level list"
  timers :: "nat \<Rightarrow> timer_data"

definition no_timer :: timer_data where
  "no_timer = \<lparr>m_iOffsetMilliseconds = 0, m_iTriggerTick = 0, m_pCurrentLevel = None, m_iLevelTick = 0\<rparr>"

section \<open>Levels\<close>

definition Level_Init :: "nat \<Rightarrow> nat \<Rightarrow> level" where
  "Level_Init iMaxTick iLevelOffsetTick = \<lparr>m_iMaxTick = iMaxTick, m_iLevelOffsetTick = iLevelOffsetTick,
     m_iOffset = 0, m_vTimerTickDatas = replicate iMaxTick []\<rparr>"

definition IsLevelEnd :: "level \<Rightarrow> bool" where
  "IsLevelEnd L \<longleftrightarrow> m_iOffset L = 0"

text \<open>\<open>TimerLevel::AddTimer\<close> on level \<open>k\<close>; the slot number is computed in 32 bits.\<close>

definition Level_AddTimer :: "nat \<Rightarrow> nat \<Rightarrow> nat \<Rightarrow> wheel \<Rightarrow> wheel" where
  "Level_AddTimer k t iLevelOffset w =
     (let L = m_vTimerLevels w ! k;
          iOffset = ((iLevelOffset + m_iOffset L) mod 2 ^ 32) mod m_iMaxTick L
      in w\<lparr>m_vTimerLevels := (m_vTimerLevels w)[k := L\<lparr>m_vTimerTickDatas :=
             (m_vTimerTickDatas L)[iOffset := m_vTimerTickDatas L ! iOffset @ [t]]\<rparr>],
           timers := (timers w)(t := (timers w t)\<lparr>m_pCurrentLevel := Some k, m_iLevelTick := iOffset\<rparr>)\<rparr>)"

definition Level_RemoveTimer :: "nat \<Rightarrow> nat \<Rightarrow> wheel \<Rightarrow> bool \<times> wheel" where
  "Level_RemoveTimer k t w =
     (let L = m_vTimerLevels w ! k; j = m_iLevelTick (timers w t); vTimerList = m_vTimerTickDatas L ! j
      in if t \<in> set vTimerList
         then (True, w\<lparr>m_vTimerLevels := (m_vTimerLevels w)[k := L\<lparr>m_vTimerTickDatas :=
                 (m_vTimerTickDatas L)[j := remove1 t vTimerList]\<rparr>]\<rparr>)
         else (False, w))"

text \<open>The first part of \<open>RunTick\<close>: the current slot is taken out and the level moves on.\<close>

definition take_slot :: "nat \<Rightarrow> wheel \<Rightarrow> nat list \<times> wheel" where
  "take_slot k w =
     (let L = m_vTimerLevels w ! k; off = m_iOffset L
      in (m_vTimerTickDatas L ! off,
          w\<lparr>m_vTimerLevels := (m_vTimerLevels w)[k := L\<lparr>m_vTimerTickDatas := (m_vTimerTickDatas L)[off := []],
              m_iOffset := (if off + 1 \<ge> m_iMaxTick L then 0 else off + 1)\<rparr>]\<rparr>))"

section \<open>Manager\<close>

text \<open>The level count is at least 3; \<open>iOffset\<close> is the number of ticks still to wait.\<close>

function add_timer_at :: "nat \<Rightarrow> nat \<Rightarrow> int \<Rightarrow> wheel \<Rightarrow> wheel" where
  "add_timer_at k t iOffset w =
     (let n = length (m_vTimerLevels w)
      in if k < n - 1 then
           (let L = m_vTimerLevels w ! k; iLevelOffset = iOffset div int (m_iLevelOffsetTick L) - 1
            in if iLevelOffset \<ge> int (m_iMaxTick L) then add_timer_at (k + 1) t iOffset w
               else Level_AddTimer k t (nat (iLevelOffset mod 2 ^ 32)) w)
         else Level_AddTimer (n - 1) t 0 w)"
  by pat_completeness auto
termination
  by (relation "measure (\<lambda>(k, t, iOffset, w). length (m_vTimerLevels w) - k)") auto

declare add_timer_at.simps [simp del]

definition add_timer :: "nat \<Rightarrow> wheel \<Rightarrow> wheel" where
  "add_timer t w =
     (let iOffset = m_iTriggerTick (timers w t) - m_iCurrentTick w
      in add_timer_at 0 t (if iOffset \<le> 0 then 1 else iOffset) w)"

definition InitData :: "nat \<Rightarrow> int \<Rightarrow> int \<Rightarrow> wheel \<Rightarrow> wheel" where
  "InitData t iMillsec iTicks w = w\<lparr>timers := (timers w)(t := (timers w t)\<lparr>m_iOffsetMilliseconds := iMillsec,
     m_iTriggerTick := m_iCurrentTick w + iTicks\<rparr>)\<rparr>"

definition TicksFromNow :: "int \<Rightarrow> int \<Rightarrow> wheel \<Rightarrow> int" where
  "TicksFromNow now iMillisecond w =
     (let iElapsedUs = (if now - m_stLastTickMonotonic w < 0 then 0 else now - m_stLastTickMonotonic w);
          iTickUs = int (m_iTickOffsetMilliseconds w) * 1000;
          iDueUs = iElapsedUs + iMillisecond * 1000;
          iTicks = (iDueUs + iTickUs - 1) div iTickUs
      in if iTicks < 1 then 1 else iTicks)"

text \<open>The \<open>int\<close> argument is converted to \<open>uint32_t\<close> by the division with the tick length.\<close>

definition milling2tick :: "int \<Rightarrow> wheel \<Rightarrow> int" where
  "milling2tick iMillisecond w =
     (let ms = nat (iMillisecond mod 2 ^ 32); off = m_iTickOffsetMilliseconds w
      in int ((ms div off + (if ms mod off > 0 then 1 else 0)) mod 2 ^ 32))"

definition AddTimer :: "int \<Rightarrow> nat \<Rightarrow> int \<Rightarrow> wheel \<Rightarrow> wheel" where
  "AddTimer now t iMillisecond w = add_timer t (InitData t iMillisecond (TicksFromNow now iMillisecond w) w)"

text \<open>\<open>RemoveTimer\<close> of a timer that was never added has no level: the precondition of its assert.\<close>

definition RemoveTimer :: "nat \<Rightarrow> wheel \<Rightarrow> bool \<times> wheel" where
  "RemoveTimer t w = (case m_pCurrentLevel (timers w t) of None \<Rightarrow> (False, w) | Some k \<Rightarrow> Level_RemoveTimer k t w)"

definition uniform_level :: "nat \<Rightarrow> wheel \<Rightarrow> wheel" where
  "uniform_level k w = (if IsLevelEnd (m_vTimerLevels w ! (k - 1))
     then (case take_slot k w of (vCurrentList, w') \<Rightarrow> fold add_timer vCurrentList w') else w)"

definition try_uniform :: "wheel \<Rightarrow> wheel" where
  "try_uniform w = fold uniform_level [1..<length (m_vTimerLevels w)] w"

definition run_tick :: "wheel \<Rightarrow> nat list \<times> wheel" where
  "run_tick w =
     (let w1 = w\<lparr>m_stLastTickMonotonic := m_stLastTickMonotonic w + int (m_iTickOffsetMilliseconds w) * 1000,
                 m_iCurrentTick := m_iCurrentTick w + 1\<rparr>
      in case take_slot 0 w1 of (vDue, w2) \<Rightarrow>
           (vDue, if IsLevelEnd (m_vTimerLevels w2 ! 0) then try_uniform w2 else w2))"

text \<open>
  A callback, \<open>OnTimer\<close>, may itself add and remove timers, then asks to be reset or ends, or throws
  (which is reported and ends it). It is given as what it does to the manager and how it ends.
\<close>

datatype timer_op = OpAdd nat int | OpRemove nat
datatype timer_end = RESET_TIMER | END_TIMER | Throws

type_synonym callbacks = "nat \<Rightarrow> timer_op list \<times> timer_end"

fun do_op :: "int \<Rightarrow> timer_op \<Rightarrow> wheel \<Rightarrow> wheel" where
  "do_op now (OpAdd t ms) w = AddTimer now t ms w"
| "do_op now (OpRemove t) w = snd (RemoveTimer t w)"

definition run_timer :: "int \<Rightarrow> callbacks \<Rightarrow> nat \<Rightarrow> wheel \<Rightarrow> wheel" where
  "run_timer now cb t w =
     (case cb t of (ops, e) \<Rightarrow>
        (let w1 = fold (do_op now) ops w
         in if e = RESET_TIMER
            then (let ms = m_iOffsetMilliseconds (timers w1 t)
                  in add_timer t (InitData t ms (milling2tick ms w1) w1))
            else w1))"

text \<open>The ticks of \<open>Update\<close>, with the log of what fired at which tick.\<close>

fun update_ticks :: "int \<Rightarrow> callbacks \<Rightarrow> nat \<Rightarrow> wheel \<Rightarrow> (int \<times> nat) list \<times> wheel" where
  "update_ticks now cb 0 w = ([], w)"
| "update_ticks now cb (Suc n) w =
     (case run_tick w of (vDue, w1) \<Rightarrow>
        (case update_ticks now cb n (fold (run_timer now cb) vDue w1) of
          (log, w2) \<Rightarrow> (map (\<lambda>t. (m_iCurrentTick w1, t)) vDue @ log, w2)))"

definition Update :: "int \<Rightarrow> callbacks \<Rightarrow> wheel \<Rightarrow> (int \<times> nat) list \<times> wheel" where
  "Update now cb w =
     (let iDeltaUs = now - m_stLastTickMonotonic w
      in if iDeltaUs \<le> 0 then ([], w)
         else update_ticks now cb (nat ((iDeltaUs div 1000) div int (m_iTickOffsetMilliseconds w))) w)"

text \<open>\<open>Init\<close> from the configured values; \<open>None\<close> is a refused configuration.\<close>

fun make_levels :: "nat list \<Rightarrow> nat \<Rightarrow> level list" where
  "make_levels [] iLevelTick = []"
| "make_levels (m # ms) iLevelTick = Level_Init m iLevelTick # make_levels ms (iLevelTick * m mod 2 ^ 32)"

fun slots_ok :: "int list \<Rightarrow> nat \<Rightarrow> bool" where
  "slots_ok [] iTotal = True"
| "slots_ok (m # ms) iTotal =
     (0 < m \<and> m \<le> 4294967295 \<and> iTotal * nat m \<le> 4294967295 \<and> slots_ok ms (iTotal * nat m))"

definition Wheel_Init :: "int \<Rightarrow> nat \<Rightarrow> nat \<Rightarrow> int list option \<Rightarrow> wheel option" where
  "Wheel_Init now iOffsetMilliseconds iTimerLevelCount lvs =
     (if iOffsetMilliseconds = 0 \<or> 1000 mod iOffsetMilliseconds \<noteq> 0 then None
      else if iTimerLevelCount \<le> 2 then None
      else let vTimerLevels = (case lvs of Some l \<Rightarrow> l
               | None \<Rightarrow> (replicate iTimerLevelCount 128)[iTimerLevelCount - 1 := 1])
      in if length vTimerLevels \<noteq> iTimerLevelCount \<or> vTimerLevels ! (iTimerLevelCount - 1) \<noteq> 1 then None
         else if \<not> slots_ok vTimerLevels 1 then None
         else Some \<lparr>m_iCurrentTick = 0, m_iTickOffsetMilliseconds = iOffsetMilliseconds, m_stLastTickMonotonic = now,
                m_vTimerLevels = make_levels (map nat vTimerLevels) 1, timers = \<lambda>_. no_timer\<rparr>)"

section \<open>Invariant\<close>

text \<open>
  \<open>next_run p Ls i\<close> bounds the ticks until level \<open>i\<close> is run next, when the levels below \<open>p\<close> have been
  dealt with in the current tick and the others have not: level 0 runs every tick, level \<open>i + 1\<close>
  when level \<open>i\<close> wraps round, and level \<open>p\<close> in this tick if the level below it stands at 0.
\<close>

fun next_run :: "nat \<Rightarrow> level list \<Rightarrow> nat \<Rightarrow> nat" where
  "next_run p Ls 0 = (if p = 0 then 0 else 1)"
| "next_run p Ls (Suc i) = (if Suc i = p \<and> m_iOffset (Ls ! i) = 0 then 0
     else next_run p Ls i + (m_iMaxTick (Ls ! i) - 1 - m_iOffset (Ls ! i)) * m_iLevelOffsetTick (Ls ! i))"

definition levels_ok :: "level list \<Rightarrow> bool" where
  "levels_ok Ls \<longleftrightarrow> 3 \<le> length Ls \<and> m_iLevelOffsetTick (Ls ! 0) = 1 \<and> m_iMaxTick (last Ls) = 1
     \<and> (\<forall>i < length Ls. 0 < m_iMaxTick (Ls ! i) \<and> m_iMaxTick (Ls ! i) \<le> 2 ^ 31 \<and> 0 < m_iLevelOffsetTick (Ls ! i)
         \<and> m_iOffset (Ls ! i) < m_iMaxTick (Ls ! i) \<and> length (m_vTimerTickDatas (Ls ! i)) = m_iMaxTick (Ls ! i))
     \<and> (\<forall>i. Suc i < length Ls \<longrightarrow> m_iLevelOffsetTick (Ls ! Suc i) = m_iLevelOffsetTick (Ls ! i) * m_iMaxTick (Ls ! i))"

definition ring_dist :: "level \<Rightarrow> nat \<Rightarrow> nat" where
  "ring_dist L j = (j + m_iMaxTick L - m_iOffset L) mod m_iMaxTick L"

definition located :: "wheel \<Rightarrow> nat \<Rightarrow> nat \<Rightarrow> nat \<Rightarrow> bool" where
  "located w t i j \<longleftrightarrow> i < length (m_vTimerLevels w) \<and> j < m_iMaxTick (m_vTimerLevels w ! i)
     \<and> t \<in> set (m_vTimerTickDatas (m_vTimerLevels w ! i) ! j)"

definition active :: "wheel \<Rightarrow> nat set" where
  "active w = {t. \<exists>i j. located w t i j}"

text \<open>A timer of a higher level is looked at again in time; one of level 0 fires at its tick or one later.\<close>

definition in_time :: "nat \<Rightarrow> wheel \<Rightarrow> nat \<Rightarrow> nat \<Rightarrow> nat \<Rightarrow> bool" where
  "in_time p w t i j \<longleftrightarrow>
     (let due = m_iCurrentTick w + int (next_run p (m_vTimerLevels w) i)
            + int (ring_dist (m_vTimerLevels w ! i) j * m_iLevelOffsetTick (m_vTimerLevels w ! i));
          X = m_iTriggerTick (timers w t)
      in if i = 0 then due = X \<or> due = X + 1 else due \<le> X)"

definition wheel_at :: "nat \<Rightarrow> wheel \<Rightarrow> bool" where
  "wheel_at p w \<longleftrightarrow> levels_ok (m_vTimerLevels w)
     \<and> (\<forall>i < length (m_vTimerLevels w). \<forall>xs \<in> set (m_vTimerTickDatas (m_vTimerLevels w ! i)). distinct xs)
     \<and> (\<forall>t i j. located w t i j \<longrightarrow> m_pCurrentLevel (timers w t) = Some i \<and> m_iLevelTick (timers w t) = j
          \<and> in_time p w t i j)
     \<and> (\<forall>t k. m_pCurrentLevel (timers w t) = Some k \<longrightarrow> k < length (m_vTimerLevels w)
          \<and> m_iLevelTick (timers w t) < m_iMaxTick (m_vTimerLevels w ! k))"

definition wheel_ok :: "wheel \<Rightarrow> bool" where
  "wheel_ok w \<longleftrightarrow> 0 < m_iTickOffsetMilliseconds w \<and> wheel_at (length (m_vTimerLevels w)) w"

section \<open>Lemmas: how long a level waits\<close>

lemma levels_okD:
  assumes "levels_ok Ls" and "i < length Ls"
  shows "0 < m_iMaxTick (Ls ! i)" "m_iMaxTick (Ls ! i) \<le> 2 ^ 31" "0 < m_iLevelOffsetTick (Ls ! i)"
    "m_iOffset (Ls ! i) < m_iMaxTick (Ls ! i)" "length (m_vTimerTickDatas (Ls ! i)) = m_iMaxTick (Ls ! i)"
  using assms unfolding levels_ok_def by blast+

lemma levels_ok_unit:
  "levels_ok Ls \<Longrightarrow> Suc i < length Ls \<Longrightarrow> m_iLevelOffsetTick (Ls ! Suc i) = m_iLevelOffsetTick (Ls ! i) * m_iMaxTick (Ls ! i)"
  unfolding levels_ok_def by blast

lemma next_run_le_unit: "levels_ok Ls \<Longrightarrow> i < length Ls \<Longrightarrow> next_run p Ls i \<le> m_iLevelOffsetTick (Ls ! i)"
proof (induction i)
  case 0
  then show ?case by (simp add: levels_ok_def)
next
  case (Suc i)
  let ?M = "m_iMaxTick (Ls ! i)" and ?U = "m_iLevelOffsetTick (Ls ! i)" and ?o = "m_iOffset (Ls ! i)"
  have M: "0 < ?M" using levels_okD(1) [OF Suc.prems(1), of i] Suc.prems(2) by simp
  have "next_run p Ls i + (?M - 1 - ?o) * ?U \<le> ?U + (?M - 1) * ?U"
    using Suc by (intro add_mono mult_le_mono) simp_all
  also have "\<dots> = ?U * ?M" using M by (cases ?M) (simp_all add: algebra_simps)
  finally show ?case using levels_ok_unit [OF Suc.prems] by simp
qed

text \<open>Only offsets and sizes of the levels below matter.\<close>

definition same_shape :: "level \<Rightarrow> level \<Rightarrow> bool" where
  "same_shape L L' \<longleftrightarrow> m_iMaxTick L' = m_iMaxTick L \<and> m_iLevelOffsetTick L' = m_iLevelOffsetTick L \<and> m_iOffset L' = m_iOffset L"

lemma next_run_cong:
  "(\<And>k. k < i \<Longrightarrow> same_shape (Ls ! k) (Ls' ! k)) \<Longrightarrow> next_run p Ls' i = next_run p Ls i"
  by (induction i) (simp_all add: same_shape_def)

lemma next_run_phase_below: "i < p \<Longrightarrow> i < q \<Longrightarrow> next_run p Ls i = next_run q Ls i"
  by (induction i) simp_all

text \<open>A level above the current one waits no longer once the current one has been passed over.\<close>

lemma next_run_skip:
  assumes "0 < p" and "m_iOffset (Ls ! (p - 1)) \<noteq> 0"
  shows "next_run (Suc p) Ls i \<le> next_run p Ls i"
proof (induction i)
  case 0
  then show ?case using assms by simp
next
  case (Suc i)
  show ?case
  proof (cases "Suc i = p")
    case True
    then show ?thesis using assms next_run_phase_below [of i "Suc p" p Ls] by auto
  next
    case False
    then show ?thesis using Suc by auto
  qed
qed

text \<open>The tick begins: everything is one tick nearer.\<close>

lemma next_run_tick:
  assumes "i < n"
  shows "next_run n Ls i = Suc (next_run 0 Ls i)"
  using assms by (induction i) simp_all

text \<open>Level \<open>p\<close> runs: its offset moves on, and no level above it waits longer.\<close>

lemma next_run_moved:
  assumes ok: "levels_ok Ls" and p: "p < length Ls" and run: "p = 0 \<or> m_iOffset (Ls ! (p - 1)) = 0"
    and Ls': "Ls' = Ls[p := L']" and L': "m_iMaxTick L' = m_iMaxTick (Ls ! p)" "m_iLevelOffsetTick L' = m_iLevelOffsetTick (Ls ! p)"
      "m_iOffset L' = (if m_iOffset (Ls ! p) + 1 \<ge> m_iMaxTick (Ls ! p) then 0 else m_iOffset (Ls ! p) + 1)"
  shows "i < p \<Longrightarrow> next_run (Suc p) Ls' i = next_run p Ls i"
    and "next_run p Ls p = 0" and "p < i \<Longrightarrow> i < length Ls \<Longrightarrow> next_run (Suc p) Ls' i \<le> next_run p Ls i"
proof -
  let ?M = "m_iMaxTick (Ls ! p)" and ?U = "m_iLevelOffsetTick (Ls ! p)" and ?o = "m_iOffset (Ls ! p)"
  have below: "next_run (Suc p) Ls' i = next_run (Suc p) Ls i" if "i \<le> p" for i
    using that by (intro next_run_cong) (simp add: same_shape_def Ls')
  show "i < p \<Longrightarrow> next_run (Suc p) Ls' i = next_run p Ls i"
    using below [of i] next_run_phase_below [of i "Suc p" p Ls] by simp
  show at: "next_run p Ls p = 0" using run by (cases p) simp_all
  have o: "?o < ?M" using levels_okD(4) [OF ok p] .
  have q: "next_run (Suc p) Ls' p \<le> ?U" using below [of p] next_run_le_unit [OF ok p, of "Suc p"] by simp
  have nth: "Ls' ! p = L'" using p by (simp add: Ls')
  show "p < i \<Longrightarrow> i < length Ls \<Longrightarrow> next_run (Suc p) Ls' i \<le> next_run p Ls i"
  proof (induction i)
    case (Suc i)
    show ?case
    proof (cases "i = p")
      case True
      show ?thesis
      proof (cases "?o + 1 \<ge> ?M")
        case True
        then show ?thesis using \<open>i = p\<close> nth L' by simp
      next
        case False
        then obtain r where r: "?M - 1 - ?o = Suc r" "?M - 1 - (?o + 1) = r" by (cases "?M - 1 - ?o") auto
        have "next_run (Suc p) Ls' (Suc p) = next_run (Suc p) Ls' p + r * ?U"
          using nth L' False r by simp
        also have "\<dots> \<le> Suc r * ?U" using q by simp
        also have "\<dots> = next_run p Ls (Suc p)" using at r by simp
        finally show ?thesis using \<open>i = p\<close> by simp
      qed
    next
      case False
      then have "Ls' ! i = Ls ! i" by (simp add: Ls')
      then show ?thesis using False Suc by simp
    qed
  qed simp
qed

lemma next_run_no_end: "m_iOffset (Ls ! 0) \<noteq> 0 \<Longrightarrow> i < n \<Longrightarrow> next_run n Ls i = next_run 1 Ls i"
proof (induction i)
  case (Suc i)
  then show ?case by (cases i) simp_all
qed simp

section \<open>Lemmas: slots\<close>

lemma ring_dist_slot:
  assumes "m_iOffset L < m_iMaxTick L" and "d < m_iMaxTick L" and "m_iMaxTick L \<le> 2 ^ 31"
  shows "ring_dist L (((d + m_iOffset L) mod 2 ^ 32) mod m_iMaxTick L) = d"
proof -
  let ?M = "m_iMaxTick L" and ?o = "m_iOffset L"
  have "(d + ?o) mod 2 ^ 32 = d + ?o" using assms by (intro mod_less) simp
  moreover have "((d + ?o) mod ?M + ?M - ?o) mod ?M = d"
  proof (cases "d + ?o < ?M")
    case True
    then show ?thesis using assms by simp
  next
    case False
    then have "(d + ?o) mod ?M = d + ?o - ?M" using assms by (simp add: le_mod_geq)
    then show ?thesis using False assms by simp
  qed
  ultimately show ?thesis by (simp add: ring_dist_def)
qed

lemma ring_dist_current:
  assumes "m_iOffset L < m_iMaxTick L"
  shows "ring_dist L (m_iOffset L) = 0"
  using assms by (simp add: ring_dist_def)

lemma ring_dist_moved:
  assumes "m_iOffset L < m_iMaxTick L" and "j < m_iMaxTick L" and "j \<noteq> m_iOffset L"
    and "m_iMaxTick L' = m_iMaxTick L" and "m_iOffset L' = (if m_iOffset L + 1 \<ge> m_iMaxTick L then 0 else m_iOffset L + 1)"
  shows "ring_dist L j = Suc (ring_dist L' j)"
proof -
  let ?M = "m_iMaxTick L" and ?o = "m_iOffset L"
  consider "j > ?o" | "j < ?o" "?o + 1 < ?M" | "j < ?o" "?o + 1 = ?M" using assms by linarith
  then show ?thesis
  proof cases
    case 1
    then have "(j + ?M - ?o) mod ?M = j - ?o" "(j + ?M - (?o + 1)) mod ?M = j - (?o + 1)"
      using assms(1,2) by (simp_all add: le_mod_geq)
    then show ?thesis using 1 assms by (simp add: ring_dist_def)
  next
    case 2
    then show ?thesis using assms by (simp add: ring_dist_def)
  next
    case 3
    then have "(j + ?M) mod ?M = j" "(j + ?M - ?o) mod ?M = Suc j" using assms by simp_all
    then show ?thesis using 3 assms by (simp add: ring_dist_def)
  qed
qed

text \<open>What no operation inside a tick changes.\<close>

definition same_frame :: "wheel \<Rightarrow> wheel \<Rightarrow> bool" where
  "same_frame w w' \<longleftrightarrow> m_iCurrentTick w' = m_iCurrentTick w \<and> m_iTickOffsetMilliseconds w' = m_iTickOffsetMilliseconds w
     \<and> m_stLastTickMonotonic w' = m_stLastTickMonotonic w \<and> length (m_vTimerLevels w') = length (m_vTimerLevels w)
     \<and> (\<forall>t. m_iTriggerTick (timers w' t) = m_iTriggerTick (timers w t)
          \<and> m_iOffsetMilliseconds (timers w' t) = m_iOffsetMilliseconds (timers w t))"

lemma same_frame_refl [simp]: "same_frame w w"
  by (simp add: same_frame_def)

lemma same_frame_trans: "same_frame w w' \<Longrightarrow> same_frame w' w'' \<Longrightarrow> same_frame w w''"
  by (simp add: same_frame_def)

lemma datas_shape: "same_shape (Ls ! i) (Ls[k := (Ls ! k)\<lparr>m_vTimerTickDatas := ds\<rparr>] ! i)"
proof (cases "k = i")
  case True
  then show ?thesis by (cases "i < length Ls") (simp_all add: same_shape_def list_update_beyond)
next
  case False
  then show ?thesis by (simp add: same_shape_def)
qed

lemma levels_ok_datas:
  assumes "levels_ok Ls" and "k < length Ls" and "length ds = m_iMaxTick (Ls ! k)"
  shows "levels_ok (Ls[k := (Ls ! k)\<lparr>m_vTimerTickDatas := ds\<rparr>])"
proof -
  let ?Ls' = "Ls[k := (Ls ! k)\<lparr>m_vTimerTickDatas := ds\<rparr>]"
  have ne: "Ls \<noteq> []" using assms(2) by auto
  have "m_iMaxTick (?Ls' ! i) = m_iMaxTick (Ls ! i)" "m_iLevelOffsetTick (?Ls' ! i) = m_iLevelOffsetTick (Ls ! i)"
    "m_iOffset (?Ls' ! i) = m_iOffset (Ls ! i)" for i
    using datas_shape [of Ls i k ds] by (simp_all add: same_shape_def)
  moreover have "last ?Ls' = ?Ls' ! (length Ls - 1)" "last Ls = Ls ! (length Ls - 1)"
    using ne by (simp_all add: last_conv_nth)
  ultimately show ?thesis using assms unfolding levels_ok_def by (auto simp: nth_list_update)
qed

lemma wheel_atD:
  assumes "wheel_at p w" and "located w t i j"
  shows "m_pCurrentLevel (timers w t) = Some i" "m_iLevelTick (timers w t) = j" "in_time p w t i j"
  using assms unfolding wheel_at_def by blast+

lemma Level_AddTimer_at:
  fixes d :: nat
  assumes ok: "wheel_at p w" and t: "t \<notin> active w" and k: "k < length (m_vTimerLevels w)"
    and d: "d < m_iMaxTick (m_vTimerLevels w ! k)"
    and time: "let due = m_iCurrentTick w + int (next_run p (m_vTimerLevels w) k) + int (d * m_iLevelOffsetTick (m_vTimerLevels w ! k));
        X = m_iTriggerTick (timers w t) in if k = 0 then due = X \<or> due = X + 1 else due \<le> X"
  shows "wheel_at p (Level_AddTimer k t d w) \<and> active (Level_AddTimer k t d w) = insert t (active w)
    \<and> same_frame w (Level_AddTimer k t d w)"
proof -
  let ?Ls = "m_vTimerLevels w" and ?L = "m_vTimerLevels w ! k"
  define j where "j = ((d + m_iOffset ?L) mod 2 ^ 32) mod m_iMaxTick ?L"
  define ds where "ds = (m_vTimerTickDatas ?L)[j := m_vTimerTickDatas ?L ! j @ [t]]"
  define Ls' where "Ls' = ?Ls[k := ?L\<lparr>m_vTimerTickDatas := ds\<rparr>]"
  let ?w' = "Level_AddTimer k t d w"
  have w': "?w' = w\<lparr>m_vTimerLevels := Ls', timers := (timers w)(t := (timers w t)\<lparr>m_pCurrentLevel := Some k, m_iLevelTick := j\<rparr>)\<rparr>"
    by (simp add: Level_AddTimer_def Let_def Ls'_def ds_def j_def)
  have lok: "levels_ok ?Ls" using ok by (simp add: wheel_at_def)
  note L = levels_okD [OF lok k]
  have j: "j < m_iMaxTick ?L" "ring_dist ?L j = d" using ring_dist_slot [OF L(4) d L(2)] L(1) by (simp_all add: j_def)
  have len: "length ds = m_iMaxTick ?L" "j < length (m_vTimerTickDatas ?L)" using L(5) j by (simp_all add: ds_def)
  have lok': "levels_ok Ls'" unfolding Ls'_def by (rule levels_ok_datas [OF lok k len(1)])
  have shape: "same_shape (?Ls ! i) (Ls' ! i)" for i unfolding Ls'_def by (rule datas_shape)
  have nr: "next_run p Ls' i = next_run p ?Ls i" for i by (rule next_run_cong) (rule shape)
  have rd: "ring_dist (Ls' ! i) a = ring_dist (?Ls ! i) a" for i a using shape [of i] by (simp add: ring_dist_def same_shape_def)
  have loc: "located ?w' u i a \<longleftrightarrow> (u = t \<and> i = k \<and> a = j) \<or> located w u i a" for u i a
    using k len j by (auto simp: located_def w' Ls'_def ds_def nth_list_update split: if_splits)
  have dist: "distinct xs" if "i < length Ls'" "xs \<in> set (m_vTimerTickDatas (Ls' ! i))" for i xs
  proof (cases "i = k")
    case False
    then show ?thesis using that ok by (simp add: Ls'_def wheel_at_def)
  next
    case True
    then have "xs \<in> insert (m_vTimerTickDatas ?L ! j @ [t]) (set (m_vTimerTickDatas ?L))"
      using that k set_update_subset_insert [of "m_vTimerTickDatas ?L" j] by (auto simp: Ls'_def ds_def)
    moreover have "distinct (m_vTimerTickDatas ?L ! j)" using ok k len(2) by (simp add: wheel_at_def)
    moreover have "t \<notin> set (m_vTimerTickDatas ?L ! j)" using t k j by (auto simp: active_def located_def)
    ultimately show ?thesis using ok k by (auto simp: wheel_at_def)
  qed
  have it: "in_time p ?w' u i a \<longleftrightarrow> in_time p w u i a" for u i a
    using shape [of i] by (simp add: in_time_def w' nr rd same_shape_def)
  have "in_time p w t k j" using time j(2) by (simp add: in_time_def Let_def)
  have "wheel_at p ?w'"
    unfolding wheel_at_def
  proof (intro conjI allI impI ballI)
    show "levels_ok (m_vTimerLevels ?w')" using lok' by (simp add: w')
    show "\<And>i xs. i < length (m_vTimerLevels ?w') \<Longrightarrow> xs \<in> set (m_vTimerTickDatas (m_vTimerLevels ?w' ! i)) \<Longrightarrow> distinct xs"
      using dist by (simp add: w')
    fix u i a assume l: "located ?w' u i a"
    show "in_time p ?w' u i a" using l loc [of u i a] \<open>in_time p w t k j\<close> wheel_atD(3) [OF ok] it by auto
    show "m_pCurrentLevel (timers ?w' u) = Some i" "m_iLevelTick (timers ?w' u) = a"
      using l loc [of u i a] wheel_atD(1,2) [OF ok] t by (auto simp: w' active_def)
  next
    fix u m assume m: "m_pCurrentLevel (timers ?w' u) = Some m"
    then have "m < length ?Ls \<and> m_iLevelTick (timers ?w' u) < m_iMaxTick (?Ls ! m)"
      using ok k j(1) by (auto simp: wheel_at_def w' split: if_splits)
    then show "m < length (m_vTimerLevels ?w')" "m_iLevelTick (timers ?w' u) < m_iMaxTick (m_vTimerLevels ?w' ! m)"
      using shape [of m] by (simp_all add: w' Ls'_def [symmetric] same_shape_def) (simp add: Ls'_def)
  qed
  moreover have "active ?w' = insert t (active w)" using loc by (auto simp: active_def)
  moreover have "same_frame w ?w'" by (simp add: same_frame_def w' Ls'_def)
  ultimately show ?thesis by blast
qed

lemma int_div_le: "0 < u \<Longrightarrow> a div u * u \<le> (a :: int)"
  by (simp add: minus_mod_eq_div_mult [symmetric])

text \<open>Inserting: \<open>o'\<close> ticks from now, or one tick for a target that is already reached.\<close>

lemma add_timer_at_ok:
  assumes ok: "wheel_at p w" and p: "0 < p" and t: "t \<notin> active w"
    and X: "m_iTriggerTick (timers w t) = m_iCurrentTick w + o' \<or> k = 0 \<and> o' = 1 \<and> m_iTriggerTick (timers w t) = m_iCurrentTick w"
    and k: "k < length (m_vTimerLevels w)" and o': "int (m_iLevelOffsetTick (m_vTimerLevels w ! k)) \<le> o'"
  shows "wheel_at p (add_timer_at k t o' w) \<and> active (add_timer_at k t o' w) = insert t (active w)
    \<and> same_frame w (add_timer_at k t o' w)"
  using X k o'
proof (induction "length (m_vTimerLevels w) - k" arbitrary: k)
  case 0
  then show ?case by simp
next
  case (Suc r)
  let ?Ls = "m_vTimerLevels w" and ?n = "length (m_vTimerLevels w)"
  let ?U = "m_iLevelOffsetTick (?Ls ! k)" and ?M = "m_iMaxTick (?Ls ! k)"
  have lok: "levels_ok ?Ls" using ok by (simp add: wheel_at_def)
  note L = levels_okD [OF lok \<open>k < ?n\<close>]
  have nr: "next_run p ?Ls k \<le> ?U" by (rule next_run_le_unit [OF lok \<open>k < ?n\<close>])
  show ?case
  proof (cases "k < ?n - 1")
    case False
    then have kn: "k = ?n - 1" "0 < k" using \<open>k < ?n\<close> lok by (auto simp: levels_ok_def)
    have "wheel_at p (Level_AddTimer k t 0 w) \<and> active (Level_AddTimer k t 0 w) = insert t (active w) \<and> same_frame w (Level_AddTimer k t 0 w)"
      by (rule Level_AddTimer_at [OF ok t \<open>k < ?n\<close>]) (use L(1) kn nr Suc.prems in \<open>auto simp: Let_def\<close>)
    then show ?thesis using False kn by (subst (1 2 3) add_timer_at.simps) (simp add: Let_def)
  next
    case True
    let ?l = "o' div int ?U - 1"
    have pos: "1 \<le> o' div int ?U" using Suc.prems(3) L(3) by (simp add: pos_imp_zdiv_pos_iff zdiv_mono1 int_one_le_iff_zero_less)
    show ?thesis
    proof (cases "?l \<ge> int ?M")
      case big: True
      have "int ?U * int ?M \<le> int ?U * (o' div int ?U)" using big by (intro mult_left_mono) simp_all
      also have "\<dots> \<le> o'" using int_div_le [of "int ?U" o'] L(3) by (simp add: mult.commute)
      finally have next_u: "int (m_iLevelOffsetTick (?Ls ! Suc k)) \<le> o'"
        using levels_ok_unit [OF lok, of k] True by simp
      have X': "m_iTriggerTick (timers w t) = m_iCurrentTick w + o' \<or> Suc k = 0 \<and> o' = 1 \<and> m_iTriggerTick (timers w t) = m_iCurrentTick w"
        using Suc.prems(1) big L(1) lok by (auto simp: levels_ok_def)
      have "wheel_at p (add_timer_at (Suc k) t o' w) \<and> active (add_timer_at (Suc k) t o' w) = insert t (active w)
          \<and> same_frame w (add_timer_at (Suc k) t o' w)"
        by (rule Suc.hyps(1) [OF _ X' _ next_u]) (use Suc.hyps(2) True in auto)
      then show ?thesis using True big by (subst (1 2 3) add_timer_at.simps) (simp add: Let_def)
    next
      case small: False
      define d where "d = nat ?l"
      have d: "d < ?M" "int d = ?l" using small pos by (auto simp: d_def)
      have "int ?M \<le> int (2 ^ 31)" using L(2) by (simp only: of_nat_le_iff)
      then have "?l < 2 ^ 32" using small by simp
      then have m: "nat (?l mod 2 ^ 32) = d" using pos by (simp add: d_def)
      have quot: "o' div int ?U = int d + 1" using d(2) by simp
      have split: "int (d * ?U) + int ?U = o' div int ?U * int ?U"
        unfolding quot by (simp add: algebra_simps)
      have le: "o' div int ?U * int ?U \<le> o'" using int_div_le [of "int ?U" o'] L(3) by simp
      have "wheel_at p (Level_AddTimer k t d w) \<and> active (Level_AddTimer k t d w) = insert t (active w) \<and> same_frame w (Level_AddTimer k t d w)"
      proof (rule Level_AddTimer_at [OF ok t \<open>k < ?n\<close> d(1)])
        show "let due = m_iCurrentTick w + int (next_run p ?Ls k) + int (d * ?U); X = m_iTriggerTick (timers w t)
          in if k = 0 then due = X \<or> due = X + 1 else due \<le> X"
        proof (cases "k = 0")
          case True
          then have "?U = 1" using lok by (simp add: levels_ok_def)
          then show ?thesis using True d(2) p Suc.prems(1) by (auto simp: Let_def)
        next
          case False
          then show ?thesis using split le nr Suc.prems(1) by (auto simp: Let_def)
        qed
      qed
      then show ?thesis using True small m by (subst (1 2 3) add_timer_at.simps) (simp add: Let_def)
    qed
  qed
qed

lemma add_timer_ok:
  assumes "wheel_at p w" and "0 < p" and "t \<notin> active w" and "m_iCurrentTick w \<le> m_iTriggerTick (timers w t)"
  shows "wheel_at p (add_timer t w) \<and> active (add_timer t w) = insert t (active w) \<and> same_frame w (add_timer t w)"
proof -
  let ?o = "m_iTriggerTick (timers w t) - m_iCurrentTick w"
  have lok: "levels_ok (m_vTimerLevels w)" using assms(1) by (simp add: wheel_at_def)
  then have "0 < length (m_vTimerLevels w)" "m_iLevelOffsetTick (m_vTimerLevels w ! 0) = 1" by (auto simp: levels_ok_def)
  then show ?thesis using assms unfolding add_timer_def Let_def by (intro add_timer_at_ok) auto
qed

lemma fold_add_timer_ok:
  "wheel_at p w \<Longrightarrow> 0 < p \<Longrightarrow> distinct ts \<Longrightarrow> set ts \<inter> active w = {} \<Longrightarrow> (\<And>t. t \<in> set ts \<Longrightarrow> m_iCurrentTick w \<le> m_iTriggerTick (timers w t))
    \<Longrightarrow> wheel_at p (fold add_timer ts w) \<and> active (fold add_timer ts w) = set ts \<union> active w \<and> same_frame w (fold add_timer ts w)"
proof (induction ts arbitrary: w)
  case Nil
  then show ?case by simp
next
  case (Cons t ts)
  from add_timer_ok [OF Cons.prems(1,2), of t] Cons.prems
  have 1: "wheel_at p (add_timer t w)" "active (add_timer t w) = insert t (active w)" "same_frame w (add_timer t w)" by auto
  have "wheel_at p (fold add_timer ts (add_timer t w)) \<and> active (fold add_timer ts (add_timer t w)) = set ts \<union> active (add_timer t w)
      \<and> same_frame (add_timer t w) (fold add_timer ts (add_timer t w))"
    by (rule Cons.IH) (use 1 Cons.prems in \<open>auto simp: same_frame_def\<close>)
  then show ?case using 1 by (auto intro: same_frame_trans)
qed

lemma located_unique: "wheel_at p w \<Longrightarrow> located w t i j \<Longrightarrow> located w t i' j' \<Longrightarrow> i = i' \<and> j = j'"
  by (metis wheel_atD(1,2) option.inject)

text \<open>A level runs: its current slot leaves the wheel, everything else keeps its bound.\<close>

lemma take_slot_ok:
  assumes ok: "wheel_at p w" and p: "p < length (m_vTimerLevels w)" and run: "p = 0 \<or> m_iOffset (m_vTimerLevels w ! (p - 1)) = 0"
    and take: "take_slot p w = (ts, w')"
  shows "wheel_at (Suc p) w' \<and> distinct ts \<and> active w = set ts \<union> active w' \<and> set ts \<inter> active w' = {} \<and> same_frame w w'
    \<and> (\<forall>t \<in> set ts. if p = 0 then m_iCurrentTick w = m_iTriggerTick (timers w t) \<or> m_iCurrentTick w = m_iTriggerTick (timers w t) + 1
         else m_iCurrentTick w \<le> m_iTriggerTick (timers w t))"
proof -
  let ?Ls = "m_vTimerLevels w" and ?L = "m_vTimerLevels w ! p" and ?o = "m_iOffset (m_vTimerLevels w ! p)"
  define L' where "L' = ?L\<lparr>m_vTimerTickDatas := (m_vTimerTickDatas ?L)[?o := []], m_iOffset := (if ?o + 1 \<ge> m_iMaxTick ?L then 0 else ?o + 1)\<rparr>"
  define Ls' where "Ls' = ?Ls[p := L']"
  have w': "w' = w\<lparr>m_vTimerLevels := Ls'\<rparr>" and ts: "ts = m_vTimerTickDatas ?L ! ?o"
    using take by (auto simp: take_slot_def Let_def Ls'_def L'_def)
  have lok: "levels_ok ?Ls" using ok by (simp add: wheel_at_def)
  note L = levels_okD [OF lok p]
  have L': "m_iMaxTick L' = m_iMaxTick ?L" "m_iLevelOffsetTick L' = m_iLevelOffsetTick ?L"
    "m_iOffset L' = (if ?o + 1 \<ge> m_iMaxTick ?L then 0 else ?o + 1)" by (simp_all add: L'_def)
  note moved = next_run_moved [OF lok p run Ls'_def L']
  have nth: "Ls' ! i = (if i = p then L' else ?Ls ! i)" for i using p by (simp add: Ls'_def)
  have lok': "levels_ok Ls'"
  proof -
    have ne: "?Ls \<noteq> []" "Ls' \<noteq> []" using p by (auto simp: Ls'_def)
    have "last Ls' = Ls' ! (length ?Ls - 1)" "last ?Ls = ?Ls ! (length ?Ls - 1)"
      using ne by (simp_all add: last_conv_nth Ls'_def)
    moreover have "m_iMaxTick (Ls' ! i) = m_iMaxTick (?Ls ! i)" "m_iLevelOffsetTick (Ls' ! i) = m_iLevelOffsetTick (?Ls ! i)" for i
      by (simp_all add: nth L')
    moreover have "m_iOffset (Ls' ! i) < m_iMaxTick (?Ls ! i)" "length (m_vTimerTickDatas (Ls' ! i)) = m_iMaxTick (?Ls ! i)"
      if "i < length ?Ls" for i
      using levels_okD [OF lok that] L by (auto simp: nth L'_def)
    ultimately show ?thesis using lok unfolding levels_ok_def by (simp add: Ls'_def [symmetric]) (simp add: Ls'_def)
  qed
  have loc: "located w' u i j \<longleftrightarrow> located w u i j \<and> \<not> (i = p \<and> j = ?o)" for u i j
    using p L by (auto simp: located_def w' nth L'_def nth_list_update Ls'_def split: if_splits)
  have tsloc: "t \<in> set ts \<longleftrightarrow> located w t p ?o" for t using p L by (simp add: located_def ts)
  have uniq: "i = i' \<and> j = j'" if "located w u i j" "located w u i' j'" for u i j i' j'
    using that ok by (rule located_unique [rotated])
  have time: "in_time (Suc p) w' u i j" if l: "located w u i j" "\<not> (i = p \<and> j = ?o)" for u i j
  proof -
    have it: "in_time p w u i j" and i: "i < length ?Ls" and j: "j < m_iMaxTick (?Ls ! i)"
      using wheel_atD(3) [OF ok l(1)] l(1) by (simp_all add: located_def)
    consider "i < p" | "i = p" | "p < i" by linarith
    then show ?thesis
    proof cases
      case 1
      then show ?thesis using it moved(1) [of i] by (simp add: in_time_def w' nth)
    next
      case 2
      then have "ring_dist ?L j = Suc (ring_dist L' j)" using ring_dist_moved [OF L(4) _ _ L'(1,3)] l(2) j by simp
      moreover have "next_run (Suc p) Ls' p \<le> m_iLevelOffsetTick ?L"
        using next_run_le_unit [OF lok', of p "Suc p"] p by (simp add: Ls'_def [symmetric] nth L') (simp add: Ls'_def)
      moreover have "p = 0 \<Longrightarrow> m_iLevelOffsetTick ?L = 1" using lok by (simp add: levels_ok_def)
      ultimately show ?thesis using it 2 moved(2) by (cases "p = 0") (auto simp: in_time_def w' nth L' Let_def)
    next
      case 3
      then show ?thesis using it moved(3) [of i] i by (auto simp: in_time_def w' nth Let_def)
    qed
  qed
  have "wheel_at (Suc p) w'"
    unfolding wheel_at_def
  proof (intro conjI allI impI ballI)
    show "levels_ok (m_vTimerLevels w')" using lok' by (simp add: w')
    fix i xs assume i: "i < length (m_vTimerLevels w')" and xs: "xs \<in> set (m_vTimerTickDatas (m_vTimerLevels w' ! i))"
    then have "xs = [] \<or> xs \<in> set (m_vTimerTickDatas (?Ls ! i))"
      using set_update_subset_insert [of "m_vTimerTickDatas ?L" ?o "[]"] by (auto simp: w' nth L'_def split: if_splits)
    then show "distinct xs" using ok i by (auto simp: wheel_at_def w' Ls'_def)
  next
    fix u i j assume l: "located w' u i j"
    show "in_time (Suc p) w' u i j" using l time loc by blast
    show "m_pCurrentLevel (timers w' u) = Some i" "m_iLevelTick (timers w' u) = j"
      using l loc [of u i j] wheel_atD(1,2) [OF ok] by (auto simp: w')
  next
    fix u m assume "m_pCurrentLevel (timers w' u) = Some m"
    then have m: "m < length ?Ls" "m_iLevelTick (timers w' u) < m_iMaxTick (?Ls ! m)" using ok by (simp_all add: wheel_at_def w')
    show "m < length (m_vTimerLevels w')" using m(1) by (simp add: w' Ls'_def)
    show "m_iLevelTick (timers w' u) < m_iMaxTick (m_vTimerLevels w' ! m)" using m(2) by (auto simp: w' nth L')
  qed
  moreover have "distinct ts" using ok p L ts by (simp add: wheel_at_def)
  moreover have "active w = set ts \<union> active w'"
  proof (intro set_eqI iffI)
    fix u assume "u \<in> active w"
    then obtain i j where "located w u i j" by (auto simp: active_def)
    then show "u \<in> set ts \<union> active w'" using loc [of u i j] tsloc [of u] by (auto simp: active_def)
  next
    fix u assume "u \<in> set ts \<union> active w'"
    then obtain i j where "located w u i j" using tsloc [of u] loc [of u] by (auto simp: active_def)
    then show "u \<in> active w" by (auto simp: active_def)
  qed
  moreover have "set ts \<inter> active w' = {}"
  proof -
    have False if u: "u \<in> set ts" "located w' u i j" for u i j
      using uniq [of u i j p ?o] u tsloc [of u] loc [of u i j] by simp
    then show ?thesis by (auto simp: active_def)
  qed
  moreover have "same_frame w w'" by (simp add: same_frame_def w' Ls'_def)
  moreover have "\<forall>t \<in> set ts. if p = 0 then m_iCurrentTick w = m_iTriggerTick (timers w t) \<or> m_iCurrentTick w = m_iTriggerTick (timers w t) + 1
      else m_iCurrentTick w \<le> m_iTriggerTick (timers w t)"
  proof
    fix t assume "t \<in> set ts"
    then have "in_time p w t p ?o" using tsloc ok by (simp add: wheel_at_def)
    then show "if p = 0 then m_iCurrentTick w = m_iTriggerTick (timers w t) \<or> m_iCurrentTick w = m_iTriggerTick (timers w t) + 1
      else m_iCurrentTick w \<le> m_iTriggerTick (timers w t)"
      using moved(2) ring_dist_current [OF L(4)] by (simp add: in_time_def Let_def)
  qed
  ultimately show ?thesis by blast
qed

lemma skip_level_ok:
  assumes "wheel_at p w" and "0 < p" and "m_iOffset (m_vTimerLevels w ! (p - 1)) \<noteq> 0"
  shows "wheel_at (Suc p) w"
proof -
  have "in_time (Suc p) w t i j" if "in_time p w t i j" for t i j
    using that next_run_skip [OF assms(2,3), of i] assms(2) by (auto simp: in_time_def Let_def)
  with assms(1) show ?thesis unfolding wheel_at_def by blast
qed

lemma uniform_level_ok:
  assumes ok: "wheel_at p w" and p: "0 < p" "p < length (m_vTimerLevels w)"
  shows "wheel_at (Suc p) (uniform_level p w) \<and> active (uniform_level p w) = active w \<and> same_frame w (uniform_level p w)"
proof (cases "m_iOffset (m_vTimerLevels w ! (p - 1)) = 0")
  case False
  then show ?thesis using skip_level_ok [OF ok p(1)] by (simp add: uniform_level_def IsLevelEnd_def)
next
  case True
  obtain ts w1 where take: "take_slot p w = (ts, w1)" by (cases "take_slot p w")
  from take_slot_ok [OF ok p(2) _ take] True p(1)
  have 1: "wheel_at (Suc p) w1" "distinct ts" "active w = set ts \<union> active w1" "set ts \<inter> active w1 = {}" "same_frame w w1"
    "\<And>t. t \<in> set ts \<Longrightarrow> m_iCurrentTick w \<le> m_iTriggerTick (timers w t)" by auto
  have "wheel_at (Suc p) (fold add_timer ts w1) \<and> active (fold add_timer ts w1) = set ts \<union> active w1 \<and> same_frame w1 (fold add_timer ts w1)"
    by (rule fold_add_timer_ok) (use 1 in \<open>auto simp: same_frame_def\<close>)
  then show ?thesis using 1 take True by (auto simp: uniform_level_def IsLevelEnd_def intro: same_frame_trans)
qed

lemma uniform_from_ok:
  "wheel_at p w \<Longrightarrow> 0 < p \<Longrightarrow> p \<le> n \<Longrightarrow> n = length (m_vTimerLevels w)
    \<Longrightarrow> wheel_at n (fold uniform_level [p..<n] w) \<and> active (fold uniform_level [p..<n] w) = active w
      \<and> same_frame w (fold uniform_level [p..<n] w)"
proof (induction "n - p" arbitrary: p w)
  case 0
  then show ?case by simp
next
  case (Suc k)
  then have p: "p < n" by simp
  from uniform_level_ok [of p w] Suc.prems p have 1: "wheel_at (Suc p) (uniform_level p w)"
    "active (uniform_level p w) = active w" "same_frame w (uniform_level p w)" by auto
  have "wheel_at n (fold uniform_level [Suc p..<n] (uniform_level p w))
      \<and> active (fold uniform_level [Suc p..<n] (uniform_level p w)) = active (uniform_level p w)
      \<and> same_frame (uniform_level p w) (fold uniform_level [Suc p..<n] (uniform_level p w))"
    by (rule Suc.hyps(1)) (use 1 Suc.hyps(2) Suc.prems p in \<open>auto simp: same_frame_def\<close>)
  with 1 p show ?case by (auto simp: upt_conv_Cons intro: same_frame_trans)
qed

text \<open>One tick: what fires, what stays, and when.\<close>

lemma run_tick_ok:
  assumes ok: "wheel_ok w" and run: "run_tick w = (due, w')"
  shows "wheel_ok w' \<and> m_iCurrentTick w' = m_iCurrentTick w + 1 \<and> distinct due
    \<and> active w = set due \<union> active w' \<and> set due \<inter> active w' = {}
    \<and> (\<forall>t. m_iTriggerTick (timers w' t) = m_iTriggerTick (timers w t) \<and> m_iOffsetMilliseconds (timers w' t) = m_iOffsetMilliseconds (timers w t))
    \<and> m_iTickOffsetMilliseconds w' = m_iTickOffsetMilliseconds w
    \<and> m_stLastTickMonotonic w' = m_stLastTickMonotonic w + int (m_iTickOffsetMilliseconds w) * 1000
    \<and> (\<forall>t \<in> set due. m_iCurrentTick w' = m_iTriggerTick (timers w t) \<or> m_iCurrentTick w' = m_iTriggerTick (timers w t) + 1)"
proof -
  let ?n = "length (m_vTimerLevels w)"
  define w1 where "w1 = w\<lparr>m_stLastTickMonotonic := m_stLastTickMonotonic w + int (m_iTickOffsetMilliseconds w) * 1000,
     m_iCurrentTick := m_iCurrentTick w + 1\<rparr>"
  have at: "wheel_at ?n w" and n: "3 \<le> ?n" using ok by (auto simp: wheel_ok_def wheel_at_def levels_ok_def)
  have loc1: "located w1 t i j \<longleftrightarrow> located w t i j" for t i j by (simp add: located_def w1_def)
  have "in_time 0 w1 t i j" if "located w t i j" for t i j
    using wheel_atD(3) [OF at that] next_run_tick [of i ?n "m_vTimerLevels w"] that
    by (auto simp: in_time_def w1_def Let_def located_def)
  with at have at1: "wheel_at 0 w1" by (auto simp: wheel_at_def loc1) (auto simp: w1_def)
  have act1: "active w1 = active w" by (simp add: active_def loc1)
  obtain ts w2 where take: "take_slot 0 w1 = (ts, w2)" by (cases "take_slot 0 w1")
  have n1: "0 < length (m_vTimerLevels w1)" using n by (auto simp: w1_def)
  from take_slot_ok [OF at1 n1 _ take]
  have 2: "wheel_at (Suc 0) w2" "distinct ts" "active w1 = set ts \<union> active w2" "set ts \<inter> active w2 = {}" "same_frame w1 w2"
    "\<forall>t \<in> set ts. m_iCurrentTick w1 = m_iTriggerTick (timers w1 t) \<or> m_iCurrentTick w1 = m_iTriggerTick (timers w1 t) + 1" by auto
  have len2: "length (m_vTimerLevels w2) = ?n" using 2(5) by (simp add: same_frame_def w1_def)
  define w3 where "w3 = (if IsLevelEnd (m_vTimerLevels w2 ! 0) then try_uniform w2 else w2)"
  have 3: "wheel_at ?n w3 \<and> active w3 = active w2 \<and> same_frame w2 w3"
  proof (cases "m_iOffset (m_vTimerLevels w2 ! 0) = 0")
    case True
    have "wheel_at (length (m_vTimerLevels w2)) (try_uniform w2) \<and> active (try_uniform w2) = active w2 \<and> same_frame w2 (try_uniform w2)"
      unfolding try_uniform_def by (rule uniform_from_ok) (use 2 len2 n in auto)
    with True len2 show ?thesis by (simp add: w3_def IsLevelEnd_def)
  next
    case False
    have "in_time ?n w2 t i j" if "located w2 t i j" for t i j
      using wheel_atD(3) [OF 2(1) that] next_run_no_end [OF False, of i ?n] that len2
      by (simp add: in_time_def located_def)
    with 2(1) have "wheel_at ?n w2" unfolding wheel_at_def by blast
    with False show ?thesis by (simp add: w3_def IsLevelEnd_def)
  qed
  have res: "due = ts" "w' = w3" using run take by (simp_all add: run_tick_def Let_def w1_def [symmetric] w3_def)
  have "same_frame w1 w'" using 2(5) 3 res by (auto intro: same_frame_trans)
  then show ?thesis using 2 3 res act1 ok by (auto simp: wheel_ok_def same_frame_def w1_def)
qed

section \<open>Lemmas: the interface\<close>

definition same_timers :: "nat set \<Rightarrow> wheel \<Rightarrow> wheel \<Rightarrow> bool" where
  "same_timers S w w' \<longleftrightarrow> m_iCurrentTick w' = m_iCurrentTick w \<and> m_iTickOffsetMilliseconds w' = m_iTickOffsetMilliseconds w
     \<and> m_stLastTickMonotonic w' = m_stLastTickMonotonic w
     \<and> (\<forall>t. t \<notin> S \<longrightarrow> m_iTriggerTick (timers w' t) = m_iTriggerTick (timers w t))"

lemma InitData_ok:
  assumes "wheel_at p w" and "t \<notin> active w"
  shows "wheel_at p (InitData t ms k w) \<and> active (InitData t ms k w) = active w \<and> same_timers {t} w (InitData t ms k w)
    \<and> m_iTriggerTick (timers (InitData t ms k w) t) = m_iCurrentTick w + k \<and> length (m_vTimerLevels (InitData t ms k w)) = length (m_vTimerLevels w)"
proof -
  let ?w' = "InitData t ms k w"
  have loc: "located ?w' u i j = located w u i j" for u i j by (simp add: located_def InitData_def)
  have ne: "u \<noteq> t" if "located w u i j" for u i j using that assms(2) by (auto simp: active_def)
  have "in_time p ?w' u i j" if "located w u i j" for u i j
    using wheel_atD(3) [OF assms(1) that] ne [OF that] by (simp add: in_time_def InitData_def)
  then have "wheel_at p ?w'" using assms(1) ne unfolding wheel_at_def loc by (simp add: InitData_def)
  then show ?thesis by (simp add: active_def loc) (simp add: InitData_def same_timers_def)
qed

lemma schedule_ok:
  assumes ok: "wheel_ok w" and t: "t \<notin> active w" and k: "0 \<le> k"
  shows "wheel_ok (add_timer t (InitData t ms k w)) \<and> active (add_timer t (InitData t ms k w)) = insert t (active w)
    \<and> same_timers {t} w (add_timer t (InitData t ms k w))
    \<and> m_iTriggerTick (timers (add_timer t (InitData t ms k w)) t) = m_iCurrentTick w + k"
proof -
  let ?n = "length (m_vTimerLevels w)" and ?w1 = "InitData t ms k w"
  have at: "wheel_at ?n w" and n: "0 < ?n" using ok by (auto simp: wheel_ok_def wheel_at_def levels_ok_def)
  note 1 = InitData_ok [OF at t, of ms k]
  have c: "m_iCurrentTick ?w1 = m_iCurrentTick w" by (simp add: InitData_def)
  have "wheel_at ?n (add_timer t ?w1) \<and> active (add_timer t ?w1) = insert t (active ?w1) \<and> same_frame ?w1 (add_timer t ?w1)"
    by (rule add_timer_ok) (use 1 n t k c in auto)
  with 1 ok show ?thesis by (auto simp: wheel_ok_def same_frame_def same_timers_def)
qed

lemma TicksFromNow_pos: "1 \<le> TicksFromNow now ms w"
  by (simp add: TicksFromNow_def Let_def)

lemma milling2tick_nonneg: "0 \<le> milling2tick ms w"
  by (simp add: milling2tick_def Let_def)

lemma AddTimer_ok:
  assumes "wheel_ok w" and "t \<notin> active w"
  shows "wheel_ok (AddTimer now t ms w) \<and> active (AddTimer now t ms w) = insert t (active w) \<and> same_timers {t} w (AddTimer now t ms w)
    \<and> m_iTriggerTick (timers (AddTimer now t ms w) t) = m_iCurrentTick w + TicksFromNow now ms w"
  unfolding AddTimer_def using TicksFromNow_pos [of now ms w] by (intro schedule_ok [OF assms]) simp

lemma RemoveTimer_ok:
  assumes ok: "wheel_ok w"
  shows "wheel_ok (snd (RemoveTimer t w)) \<and> active (snd (RemoveTimer t w)) = active w - {t} \<and> same_timers {} w (snd (RemoveTimer t w))
    \<and> fst (RemoveTimer t w) = (t \<in> active w)"
proof (cases "t \<in> active w")
  case False
  have "RemoveTimer t w = (False, w)"
  proof (cases "m_pCurrentLevel (timers w t)")
    case None
    then show ?thesis by (simp add: RemoveTimer_def)
  next
    case (Some k)
    then have "\<not> located w t k (m_iLevelTick (timers w t))" "k < length (m_vTimerLevels w)"
      "m_iLevelTick (timers w t) < m_iMaxTick (m_vTimerLevels w ! k)"
      using False ok by (auto simp: active_def wheel_ok_def wheel_at_def)
    then show ?thesis using Some by (simp add: RemoveTimer_def Level_RemoveTimer_def located_def Let_def)
  qed
  with False ok show ?thesis by (simp add: same_timers_def)
next
  case True
  then obtain k j where l: "located w t k j" by (auto simp: active_def)
  let ?n = "length (m_vTimerLevels w)" and ?Ls = "m_vTimerLevels w" and ?L = "m_vTimerLevels w ! k"
  have at: "wheel_at ?n w" using ok by (simp add: wheel_ok_def)
  have lok: "levels_ok ?Ls" using at by (simp add: wheel_at_def)
  note d = wheel_atD [OF at l]
  have k: "k < ?n" "j < m_iMaxTick ?L" "t \<in> set (m_vTimerTickDatas ?L ! j)" using l by (simp_all add: located_def)
  note L = levels_okD [OF lok k(1)]
  define ds where "ds = (m_vTimerTickDatas ?L)[j := remove1 t (m_vTimerTickDatas ?L ! j)]"
  define Ls' where "Ls' = ?Ls[k := ?L\<lparr>m_vTimerTickDatas := ds\<rparr>]"
  define w' where "w' = w\<lparr>m_vTimerLevels := Ls'\<rparr>"
  have r: "RemoveTimer t w = (True, w')"
    using d k by (simp add: RemoveTimer_def Level_RemoveTimer_def Let_def w'_def Ls'_def ds_def)
  have dj: "distinct (m_vTimerTickDatas ?L ! j)" using at k L(5) by (simp add: wheel_at_def)
  have loc: "located w' u i a \<longleftrightarrow> located w u i a \<and> u \<noteq> t" for u i a
  proof -
    have "located w' u i a \<longleftrightarrow> located w u i a \<and> \<not> (u = t \<and> i = k \<and> a = j)"
      using k L(5) dj by (auto simp: located_def w'_def Ls'_def ds_def nth_list_update split: if_splits)
    then show ?thesis using located_unique [OF at l] by blast
  qed
  have shape: "same_shape (?Ls ! i) (Ls' ! i)" for i unfolding Ls'_def by (rule datas_shape)
  have nr: "next_run ?n Ls' i = next_run ?n ?Ls i" for i by (rule next_run_cong) (rule shape)
  have it: "in_time ?n w' u i a \<longleftrightarrow> in_time ?n w u i a" for u i a
    using shape [of i] nr by (simp add: in_time_def w'_def same_shape_def ring_dist_def)
  have lok': "levels_ok Ls'" unfolding Ls'_def by (rule levels_ok_datas [OF lok k(1)]) (simp add: ds_def L(5))
  have "wheel_at ?n w'"
    unfolding wheel_at_def
  proof (intro conjI allI impI ballI)
    show "levels_ok (m_vTimerLevels w')" using lok' by (simp add: w'_def)
    fix i xs assume i: "i < length (m_vTimerLevels w')" and xs: "xs \<in> set (m_vTimerTickDatas (m_vTimerLevels w' ! i))"
    then have "xs = remove1 t (m_vTimerTickDatas ?L ! j) \<or> xs \<in> set (m_vTimerTickDatas (?Ls ! i))"
      using set_update_subset_insert [of "m_vTimerTickDatas ?L" j "remove1 t (m_vTimerTickDatas ?L ! j)"] k
      by (cases "i = k") (auto simp: w'_def Ls'_def ds_def)
    then show "distinct xs" using at i dj by (auto simp: wheel_at_def w'_def Ls'_def distinct_remove1)
  next
    fix u i a assume "located w' u i a"
    then have "located w u i a" using loc by blast
    from wheel_atD [OF at this] show "in_time ?n w' u i a" "m_pCurrentLevel (timers w' u) = Some i" "m_iLevelTick (timers w' u) = a"
      by (simp_all add: it) (simp_all add: w'_def)
  next
    fix u m assume "m_pCurrentLevel (timers w' u) = Some m"
    then have m: "m < ?n" "m_iLevelTick (timers w' u) < m_iMaxTick (?Ls ! m)" using at by (simp_all add: wheel_at_def w'_def)
    show "m < length (m_vTimerLevels w')" using m(1) by (simp add: w'_def Ls'_def)
    show "m_iLevelTick (timers w' u) < m_iMaxTick (m_vTimerLevels w' ! m)" using m(2) shape [of m] by (simp add: w'_def same_shape_def)
  qed
  moreover have "active w' = active w - {t}" using loc by (auto simp: active_def)
  ultimately show ?thesis using r True ok by (simp add: wheel_ok_def same_timers_def w'_def Ls'_def)
qed

lemma active_not_late:
  assumes "wheel_ok w" and "t \<in> active w"
  shows "m_iCurrentTick w \<le> m_iTriggerTick (timers w t)"
proof -
  let ?n = "length (m_vTimerLevels w)"
  have at: "wheel_at ?n w" and n: "0 < ?n" using assms(1) by (auto simp: wheel_ok_def wheel_at_def levels_ok_def)
  obtain i j where l: "located w t i j" using assms(2) by (auto simp: active_def)
  obtain r :: int where r: "r = int (next_run ?n (m_vTimerLevels w) i)" by blast
  obtain d :: int where d: "d = int (ring_dist (m_vTimerLevels w ! i) j * m_iLevelOffsetTick (m_vTimerLevels w ! i))" by blast
  have "0 \<le> r" "0 \<le> d" unfolding r d by (rule of_nat_0_le_iff)+
  moreover have "i = 0 \<longrightarrow> r = 1" using n r by auto
  moreover have "if i = 0 then m_iCurrentTick w + r + d = m_iTriggerTick (timers w t) \<or> m_iCurrentTick w + r + d = m_iTriggerTick (timers w t) + 1
      else m_iCurrentTick w + r + d \<le> m_iTriggerTick (timers w t)"
    using wheel_atD(3) [OF at l] unfolding in_time_def Let_def r d .
  ultimately show ?thesis by (auto split: if_splits)
qed

section \<open>Interleavings\<close>

text \<open>
  Every critical section of the wheel lock is a step: another thread or a callback adds a timer that
  is not in the wheel or removes one, a periodic timer that ended its callback is put back, or the
  poll thread advances one tick. \<open>others t\<close> is a run of such steps that leaves timer \<open>t\<close> alone, with
  the log of what fired at which tick.
\<close>

inductive others :: "nat \<Rightarrow> wheel \<Rightarrow> (int \<times> nat) list \<Rightarrow> wheel \<Rightarrow> bool" for t w0 where
  start: "others t w0 [] w0"
| add: "others t w0 log w \<Longrightarrow> u \<noteq> t \<Longrightarrow> u \<notin> active w \<Longrightarrow> others t w0 log (AddTimer now u ms w)"
| remove: "others t w0 log w \<Longrightarrow> u \<noteq> t \<Longrightarrow> others t w0 log (snd (RemoveTimer u w))"
| reset: "others t w0 log w \<Longrightarrow> u \<noteq> t \<Longrightarrow> u \<notin> active w \<Longrightarrow> others t w0 log (add_timer u (InitData u ms (milling2tick ms w) w))"
| tick: "others t w0 log w \<Longrightarrow> run_tick w = (due, w') \<Longrightarrow> others t w0 (log @ map (Pair (m_iCurrentTick w')) due) w'"

lemma others_fires:
  assumes w0: "wheel_ok w0" "t \<in> active w0"
  shows "others t w0 log w \<Longrightarrow> wheel_ok w \<and> m_iTriggerTick (timers w t) = m_iTriggerTick (timers w0 t)
    \<and> m_iTickOffsetMilliseconds w = m_iTickOffsetMilliseconds w0
    \<and> m_stLastTickMonotonic w = m_stLastTickMonotonic w0 + (m_iCurrentTick w - m_iCurrentTick w0) * (int (m_iTickOffsetMilliseconds w0) * 1000)
    \<and> (if t \<in> active w then filter (\<lambda>e. snd e = t) log = []
       else \<exists>F. filter (\<lambda>e. snd e = t) log = [(F, t)] \<and> (F = m_iTriggerTick (timers w0 t) \<or> F = m_iTriggerTick (timers w0 t) + 1))"
proof (induction rule: others.induct)
  case start
  then show ?case using w0 by simp
next
  case (add log w u now ms)
  then show ?case using AddTimer_ok [of w u now ms] by (auto simp: same_timers_def)
next
  case (remove log w u)
  then show ?case using RemoveTimer_ok [of w u] by (auto simp: same_timers_def)
next
  case (reset log w u ms)
  then show ?case using schedule_ok [of w u "milling2tick ms w" ms] milling2tick_nonneg by (auto simp: same_timers_def)
next
  case (tick log w due w')
  note r = run_tick_ok [OF conjunct1 [OF tick.IH] tick.hyps(2)]
  have base: "m_stLastTickMonotonic w' = m_stLastTickMonotonic w0 + (m_iCurrentTick w' - m_iCurrentTick w0) * (int (m_iTickOffsetMilliseconds w0) * 1000)"
    using r tick.IH by (simp add: algebra_simps)
  have fs: "filter (\<lambda>e. snd e = t) (map (Pair (m_iCurrentTick w')) due) = (if t \<in> set due then [(m_iCurrentTick w', t)] else [])"
  proof -
    have "filter (\<lambda>e. snd e = t) (map (Pair (m_iCurrentTick w')) due) = map (Pair (m_iCurrentTick w')) (filter (\<lambda>u. u = t) due)"
      by (simp add: filter_map comp_def)
    moreover have "distinct due" using r by blast
    then have "filter (\<lambda>u. u = t) due = (if t \<in> set due then [t] else [])" by (induction due) auto
    ultimately show ?thesis by simp
  qed
  show ?case
  proof (cases "t \<in> active w")
    case False
    then have "t \<notin> set due" "t \<notin> active w'" using r by blast+
    with False fs tick.IH r base show ?thesis by auto
  next
    case True
    then have "t \<in> set due \<and> t \<notin> active w' \<or> t \<notin> set due \<and> t \<in> active w'" using r by blast
    then show ?thesis using True fs tick.IH r base by auto
  qed
qed

lemma TicksFromNow_enough:
  assumes "0 < m_iTickOffsetMilliseconds w" and "m_stLastTickMonotonic w \<le> now"
  shows "now - m_stLastTickMonotonic w + ms * 1000 \<le> TicksFromNow now ms w * (int (m_iTickOffsetMilliseconds w) * 1000)"
proof -
  let ?t = "int (m_iTickOffsetMilliseconds w) * 1000" and ?d = "now - m_stLastTickMonotonic w + ms * 1000"
  have t: "0 < ?t" using assms(1) by simp
  have "?d + ?t - 1 = (?d + ?t - 1) div ?t * ?t + (?d + ?t - 1) mod ?t" by (rule div_mult_mod_eq [symmetric])
  moreover have "(?d + ?t - 1) mod ?t \<le> ?t - 1" using pos_mod_bound [OF t, of "?d + ?t - 1"] by linarith
  ultimately have ceil: "?d \<le> (?d + ?t - 1) div ?t * ?t" by linarith
  have "(?d + ?t - 1) div ?t * ?t \<le> TicksFromNow now ms w * ?t"
    using t assms(2) by (intro mult_right_mono) (simp_all add: TicksFromNow_def Let_def)
  with ceil show ?thesis by linarith
qed

lemma make_levels_length [simp]: "length (make_levels ms u) = length ms"
  by (induction ms u rule: make_levels.induct) simp_all

lemma make_levels_nth:
  assumes "slots_ok ms u" and "i < length ms"
  shows "m_iMaxTick (make_levels (map nat ms) u ! i) = nat (ms ! i) \<and> 0 < ms ! i
    \<and> m_iLevelOffsetTick (make_levels (map nat ms) u ! i) = u * prod_list (map nat (take i ms))
    \<and> m_iOffset (make_levels (map nat ms) u ! i) = 0
    \<and> m_vTimerTickDatas (make_levels (map nat ms) u ! i) = replicate (nat (ms ! i)) []"
  using assms
proof (induction ms arbitrary: u i)
  case (Cons m ms)
  have small: "u * nat m < 2 ^ 32" using Cons.prems(1) by simp
  show ?case
  proof (cases i)
    case 0
    then show ?thesis using Cons.prems by (simp add: Level_Init_def)
  next
    case (Suc k)
    then show ?thesis using Cons.prems Cons.IH [of "u * nat m" k] small by (simp add: algebra_simps)
  qed
qed simp

lemma prod_list_map_pos: "\<forall>m \<in> set ms. (0::int) < m \<Longrightarrow> 0 < prod_list (map nat ms)"
  by (induction ms) simp_all

lemma make_levels_ok:
  assumes ok: "slots_ok ms 1" and n: "3 \<le> length ms" and l: "ms ! (length ms - 1) = 1" and small: "\<forall>m \<in> set ms. m \<le> 2 ^ 31"
  shows "levels_ok (make_levels (map nat ms) 1)"
proof -
  let ?Ls = "make_levels (map nat ms) 1"
  note nth = make_levels_nth [OF ok]
  have pos: "0 < m" if "m \<in> set ms" for m using that nth by (metis in_set_conv_nth)
  have unit: "0 < prod_list (map nat (take i ms))" for i
    using pos by (intro prod_list_map_pos) (meson in_set_takeD)
  have "last ?Ls = ?Ls ! (length ms - 1)" using n by (subst last_conv_nth) (auto simp flip: length_0_conv)
  then have la: "m_iMaxTick (last ?Ls) = 1" using nth [of "length ms - 1"] n l by simp
  have le: "nat (ms ! i) \<le> 2 ^ 31" if "i < length ms" for i
    using small nth_mem [OF that] by (metis nat_le_iff of_nat_numeral of_nat_power)
  have step: "m_iLevelOffsetTick (?Ls ! Suc i) = m_iLevelOffsetTick (?Ls ! i) * m_iMaxTick (?Ls ! i)" if "Suc i < length ms" for i
    using nth [of i] nth [OF that] that by (simp add: take_Suc_conv_app_nth)
  have first: "m_iLevelOffsetTick (?Ls ! 0) = 1" using nth [of 0] n by (cases ms) simp_all
  show ?thesis unfolding levels_ok_def
    using n la first step nth le unit by (simp add: Suc_le_eq)
qed

section \<open>The clock\<close>

definition clock :: "wheel \<Rightarrow> int \<times> nat \<times> int" where
  "clock w = (m_iCurrentTick w, m_iTickOffsetMilliseconds w, m_stLastTickMonotonic w)"

lemma clock_Level_AddTimer [simp]: "clock (Level_AddTimer k t d w) = clock w"
  by (simp add: clock_def Level_AddTimer_def Let_def)

lemma clock_add_timer_at [simp]: "clock (add_timer_at k t d w) = clock w"
proof (induction k t d w rule: add_timer_at.induct)
  case (1 k t d w)
  then show ?case by (subst add_timer_at.simps) (simp add: Let_def)
qed

lemma clock_add_timer [simp]: "clock (add_timer t w) = clock w"
  by (simp add: add_timer_def Let_def)

lemma clock_InitData [simp]: "clock (InitData t ms k w) = clock w"
  by (simp add: clock_def InitData_def)

lemma clock_do_op [simp]: "clock (do_op now p w) = clock w"
proof (cases p)
  case (OpAdd t ms)
  then show ?thesis by (simp add: AddTimer_def)
next
  case (OpRemove t)
  then show ?thesis by (simp add: RemoveTimer_def Level_RemoveTimer_def Let_def clock_def split: option.split)
qed

lemma clock_fold: "(\<And>x w. clock (f x w) = clock w) \<Longrightarrow> clock (fold f xs w) = clock w"
  by (induction xs arbitrary: w) simp_all

lemma clock_run_timer [simp]: "clock (run_timer now cb t w) = clock w"
  by (simp add: run_timer_def Let_def clock_fold split: prod.split)

lemma clock_take_slot: "take_slot k w = (l, w') \<Longrightarrow> clock w' = clock w"
  by (auto simp: take_slot_def Let_def clock_def)

lemma clock_uniform_level [simp]: "clock (uniform_level k w) = clock w"
  by (auto simp: uniform_level_def clock_fold clock_take_slot split: prod.split)

lemma clock_run_tick:
  "run_tick w = (due, w') \<Longrightarrow> clock w' = (m_iCurrentTick w + 1, m_iTickOffsetMilliseconds w,
     m_stLastTickMonotonic w + int (m_iTickOffsetMilliseconds w) * 1000)"
  by (auto simp: run_tick_def try_uniform_def clock_fold Let_def split: prod.splits dest!: clock_take_slot)
     (simp_all add: clock_def)

lemma update_ticks_clock:
  assumes "update_ticks now cb n w = (log, w')"
  shows "clock w' = (m_iCurrentTick w + int n, m_iTickOffsetMilliseconds w,
      m_stLastTickMonotonic w + int n * (int (m_iTickOffsetMilliseconds w) * 1000))
    \<and> (\<forall>(F, t) \<in> set log. m_iCurrentTick w < F \<and> F \<le> m_iCurrentTick w + int n)"
  using assms
proof (induction n arbitrary: w log)
  case 0
  then show ?case by (simp add: clock_def)
next
  case (Suc n)
  obtain due w1 where r: "run_tick w = (due, w1)" by force
  obtain w2 where w2: "w2 = fold (run_timer now cb) due w1" by blast
  obtain log' where u: "update_ticks now cb n w2 = (log', w')" and l: "log = map (Pair (m_iCurrentTick w1)) due @ log'"
    using Suc.prems r w2 by (auto split: prod.splits)
  have "clock w2 = clock w1" unfolding w2 by (simp add: clock_fold)
  then have c2: "clock w2 = (m_iCurrentTick w + 1, m_iTickOffsetMilliseconds w, m_stLastTickMonotonic w + int (m_iTickOffsetMilliseconds w) * 1000)"
    and c1: "m_iCurrentTick w1 = m_iCurrentTick w + 1"
    using clock_run_tick [OF r] by (simp_all add: clock_def)
  show ?case using Suc.IH [OF u] c1 c2 unfolding l by (auto simp: clock_def algebra_simps)
qed

section \<open>Properties\<close>

lemma Wheel_Init_empty:
  assumes i: "Wheel_Init now off n lvs = Some w" and small: "\<And>l. lvs = Some l \<Longrightarrow> \<forall>m \<in> set l. m \<le> 2 ^ 31"
  shows "wheel_ok w \<and> active w = {} \<and> length (m_vTimerLevels w) = n \<and> m_stLastTickMonotonic w = now"
proof -
  let ?ms = "case lvs of Some l \<Rightarrow> l | None \<Rightarrow> (replicate n 128)[n - 1 := 1]"
  obtain ms where ms: "ms = ?ms" by blast
  have c: "off \<noteq> 0" "3 \<le> n" "length ms = n" "ms ! (n - 1) = 1" "slots_ok ms 1"
    and w: "w = \<lparr>m_iCurrentTick = 0, m_iTickOffsetMilliseconds = off, m_stLastTickMonotonic = now,
                m_vTimerLevels = make_levels (map nat ms) 1, timers = \<lambda>_. no_timer\<rparr>"
    using i unfolding Wheel_Init_def Let_def ms [symmetric] by (auto split: if_splits)
  have "\<forall>m \<in> set ms. m \<le> 2 ^ 31"
  proof (cases lvs)
    case None
    have "set ms \<subseteq> insert 1 (set (replicate n 128))" unfolding ms None by (simp add: set_update_subset_insert)
    then show ?thesis by (fastforce split: if_splits)
  next
    case (Some l)
    then show ?thesis using small ms by simp
  qed
  then have ok: "levels_ok (make_levels (map nat ms) 1)" using c by (intro make_levels_ok) simp_all
  have e: "m_vTimerTickDatas (make_levels (map nat ms) 1 ! i) = replicate (nat (ms ! i)) []" if "i < n" for i
    using make_levels_nth [OF c(5)] that c(3) by blast
  have nl: "\<not> located w t i j" for t i j
    using e [of i] make_levels_nth [OF c(5), of i] c(3) by (auto simp: located_def w)
  have "wheel_ok w" unfolding wheel_ok_def wheel_at_def using ok c nl e
    by (auto simp: w no_timer_def)
  then show ?thesis using nl c by (simp add: active_def w)
qed

definition demo_wheel :: wheel where
  "demo_wheel = \<lparr>m_iCurrentTick = 0, m_iTickOffsetMilliseconds = 10, m_stLastTickMonotonic = 0,
     m_vTimerLevels = [Level_Init 2 1, Level_Init 2 2, Level_Init 1 4], timers = \<lambda>_. no_timer\<rparr>"

lemma demo_wheel_init: "Wheel_Init 0 10 3 (Some [2, 2, 1]) = Some demo_wheel"
  by (simp add: Wheel_Init_def demo_wheel_def)

lemmas wheel_eval = demo_wheel_def Level_Init_def AddTimer_def add_timer_def InitData_def TicksFromNow_def
  add_timer_at.simps Level_AddTimer_def Let_def no_timer_def run_tick_def take_slot_def IsLevelEnd_def
  try_uniform_def uniform_level_def numeral_2_eq_2 upt_rec

lemma demo_wheel_ok: "wheel_ok demo_wheel" and demo_wheel_empty: "active demo_wheel = {}"
  using Wheel_Init_empty [OF demo_wheel_init] by simp_all

lemma demo_added: "wheel_ok (AddTimer 0 7 10 demo_wheel)" "7 \<in> active (AddTimer 0 7 10 demo_wheel)"
  using AddTimer_ok [OF demo_wheel_ok, of 7 0 10] demo_wheel_empty by simp_all

lemma demo_run: "others 7 (AddTimer 0 7 10 demo_wheel) [(1, 7)] (snd (run_tick (AddTimer 0 7 10 demo_wheel)))"
proof -
  have "fst (run_tick (AddTimer 0 7 10 demo_wheel)) = [7]" "m_iCurrentTick (snd (run_tick (AddTimer 0 7 10 demo_wheel))) = 1"
    by (simp_all add: wheel_eval)
  then show ?thesis
    using others.tick [OF others.start [of 7 "AddTimer 0 7 10 demo_wheel"] prod.collapse [symmetric]] by simp
qed

text \<open>
  C9: a timer fires exactly once and on time. While it is left alone, whatever is added, removed or
  put back around it, a timer with target tick \<open>X\<close> is still waiting as long as it has not fired, never
  past tick \<open>X\<close>, and otherwise has fired exactly once, at tick \<open>X\<close> or \<open>X + 1\<close>.
\<close>

theorem timer_fires_once_on_time:
  assumes "wheel_ok w0" and "t \<in> active w0" and "others t w0 log w"
  defines "X \<equiv> m_iTriggerTick (timers w0 t)"
  shows "(t \<in> active w \<and> (\<forall>F. (F, t) \<notin> set log) \<and> m_iCurrentTick w \<le> X)
    \<or> (t \<notin> active w \<and> (\<exists>F \<in> {X, X + 1}. filter (\<lambda>e. snd e = t) log = [(F, t)]))"
proof -
  note o' = others_fires [OF assms(1,2,3)]
  have none: "(F, t) \<notin> set log" if "filter (\<lambda>e. snd e = t) log = []" for F
    using that by (auto simp: filter_empty_conv)
  show ?thesis
  proof (cases "t \<in> active w")
    case True
    then have "m_iCurrentTick w \<le> m_iTriggerTick (timers w t)" using active_not_late o' by blast
    with True o' none show ?thesis by (auto simp: X_def)
  next
    case False
    with o' show ?thesis by (auto simp: X_def)
  qed
qed

theorem timer_fires_once_on_time_witness:
  "wheel_ok (AddTimer 0 7 10 demo_wheel) \<and> 7 \<in> active (AddTimer 0 7 10 demo_wheel)
   \<and> others 7 (AddTimer 0 7 10 demo_wheel) [(1, 7)] (snd (run_tick (AddTimer 0 7 10 demo_wheel)))
   \<and> m_iTriggerTick (timers (AddTimer 0 7 10 demo_wheel) 7) = 1
   \<and> 7 \<notin> active (snd (run_tick (AddTimer 0 7 10 demo_wheel)))"
  using timer_fires_once_on_time [OF demo_added demo_run] demo_added demo_run
  by (simp add: wheel_eval)

text \<open>
  A timer never fires early. If \<open>AddTimer\<close> is called with \<open>ms\<close> milliseconds at the monotonic time
  \<open>now\<close>, then at every tick at which the timer fires the wheel's time base has reached \<open>now + ms\<close>.
\<close>

theorem timer_never_early:
  assumes "wheel_ok w" and "t \<notin> active w" and "m_stLastTickMonotonic w \<le> now"
    and "others t (AddTimer now t ms w) log w'" and "(F, t) \<in> set log"
  shows "now + ms * 1000 \<le> m_stLastTickMonotonic w + (F - m_iCurrentTick w) * (int (m_iTickOffsetMilliseconds w) * 1000)"
proof -
  let ?u = "int (m_iTickOffsetMilliseconds w) * 1000"
  note a = AddTimer_ok [OF assms(1,2), of now ms]
  then have act: "t \<in> active (AddTimer now t ms w)" by blast
  obtain fs where fs: "filter (\<lambda>e. snd e = t) log = fs" by blast
  have "(F, t) \<in> set fs" using assms(5) fs by auto
  with others_fires [OF conjunct1 [OF a] act assms(4)]
  have "m_iTriggerTick (timers (AddTimer now t ms w) t) \<le> F" unfolding fs by (auto split: if_splits)
  then have F: "TicksFromNow now ms w \<le> F - m_iCurrentTick w" using a by linarith
  have pos: "0 < m_iTickOffsetMilliseconds w" using assms(1) by (simp add: wheel_ok_def)
  from F pos have "TicksFromNow now ms w * ?u \<le> (F - m_iCurrentTick w) * ?u" by (intro mult_right_mono) simp_all
  with TicksFromNow_enough [OF pos assms(3), of ms] show ?thesis by linarith
qed

theorem timer_never_early_witness:
  "(1, 7) \<in> set [(1 :: int, 7 :: nat)] \<and> (0 :: int) + 10 * 1000 \<le> m_stLastTickMonotonic demo_wheel
     + (1 - m_iCurrentTick demo_wheel) * (int (m_iTickOffsetMilliseconds demo_wheel) * 1000)"
  using timer_never_early [OF demo_wheel_ok _ _ demo_run, of 1] demo_wheel_empty by (simp add: demo_wheel_def)

text \<open>
  Removing a timer that is in the wheel takes out that timer and no other and says so; removing
  one that is not there, for instance while it is firing, changes nothing and says so.
\<close>

theorem RemoveTimer_exact:
  assumes "wheel_ok w"
  shows "fst (RemoveTimer t w) = (t \<in> active w) \<and> active (snd (RemoveTimer t w)) = active w - {t} \<and> wheel_ok (snd (RemoveTimer t w))"
  using RemoveTimer_ok [OF assms] by blast

theorem RemoveTimer_exact_witness:
  "fst (RemoveTimer 7 (AddTimer 0 7 10 demo_wheel)) \<and> 7 \<notin> active (snd (RemoveTimer 7 (AddTimer 0 7 10 demo_wheel)))"
  using RemoveTimer_exact [OF demo_added(1), of 7] demo_added(2) by simp

text \<open>
  Initialisation. A configuration that \<open>Init\<close> accepts, with no level of more than \<open>2\<^sup>3\<^sup>1\<close>
  slots, gives an empty wheel that satisfies the invariant.
\<close>

theorem Wheel_Init_ok:
  assumes "Wheel_Init now off n lvs = Some w" and "\<And>l. lvs = Some l \<Longrightarrow> \<forall>m \<in> set l. m \<le> 2 ^ 31"
  shows "wheel_ok w \<and> active w = {} \<and> length (m_vTimerLevels w) = n \<and> m_stLastTickMonotonic w = now"
  using Wheel_Init_empty [OF assms] by blast

theorem Wheel_Init_ok_witness:
  "\<exists>w. Wheel_Init 0 10 3 (Some [2, 2, 1]) = Some w \<and> wheel_ok w"
  using Wheel_Init_ok [OF demo_wheel_init] demo_wheel_init by simp

text \<open>
  \<open>Update\<close> catches up. When the clock stands at or after the wheel's base, whatever the callbacks
  do, \<open>Update\<close> runs exactly the whole ticks that have passed: afterwards less than one tick is left,
  the base has moved by the ticks run, and everything that fired did so at a tick that had passed.
\<close>

theorem Update_catches_up:
  assumes "0 < m_iTickOffsetMilliseconds w" and "m_stLastTickMonotonic w \<le> now" and "Update now cb w = (log, w')"
  defines "u \<equiv> int (m_iTickOffsetMilliseconds w) * 1000"
  shows "m_stLastTickMonotonic w' \<le> now \<and> now < m_stLastTickMonotonic w' + u
    \<and> m_stLastTickMonotonic w' = m_stLastTickMonotonic w + (m_iCurrentTick w' - m_iCurrentTick w) * u
    \<and> (\<forall>(F, t) \<in> set log. m_stLastTickMonotonic w + (F - m_iCurrentTick w) * u \<le> now)"
proof -
  let ?d = "now - m_stLastTickMonotonic w"
  have u: "0 < u" using assms(1) by (simp add: u_def)
  obtain n where n: "int n = ?d div u" using assms(2) u by (metis diff_ge_0_iff_ge nonneg_int_cases pos_imp_zdiv_nonneg_iff)
  have n': "nat ((?d div 1000) div int (m_iTickOffsetMilliseconds w)) = n"
    using n by (simp add: u_def zdiv_zmult2_eq [symmetric] mult.commute)
  have up: "update_ticks now cb n w = (log, w')"
  proof (cases "?d \<le> 0")
    case True
    then have "n = 0" using n assms(2) by simp
    then show ?thesis using True assms(3) by (simp add: Update_def)
  next
    case False
    then show ?thesis using assms(3) n' by (simp add: Update_def Let_def)
  qed
  note c = update_ticks_clock [OF up]
  have q: "?d div u * u + ?d mod u = ?d" by (rule div_mult_mod_eq)
  have m: "0 \<le> ?d mod u" "?d mod u < u" using u by simp_all
  have base: "m_stLastTickMonotonic w' = m_stLastTickMonotonic w + int n * u" and cur: "m_iCurrentTick w' = m_iCurrentTick w + int n"
    using c by (simp_all add: clock_def u_def)
  have "m_stLastTickMonotonic w + (F - m_iCurrentTick w) * u \<le> now" if "(F, t) \<in> set log" for F t
  proof -
    have "(F - m_iCurrentTick w) * u \<le> int n * u" using c that u by (intro mult_right_mono) auto
    then show ?thesis using q m unfolding n by linarith
  qed
  moreover have "m_stLastTickMonotonic w' \<le> now" "now < m_stLastTickMonotonic w' + u" using base q m unfolding n by linarith+
  moreover have "m_stLastTickMonotonic w' = m_stLastTickMonotonic w + (m_iCurrentTick w' - m_iCurrentTick w) * u" using base cur by simp
  ultimately show ?thesis by blast
qed

theorem Update_catches_up_witness:
  "m_stLastTickMonotonic (snd (Update 25000 (\<lambda>_. ([], END_TIMER)) demo_wheel)) \<le> 25000
   \<and> 25000 < m_stLastTickMonotonic (snd (Update 25000 (\<lambda>_. ([], END_TIMER)) demo_wheel)) + 10000"
  using Update_catches_up [of demo_wheel 25000 "\<lambda>_. ([], END_TIMER)", OF _ _ prod.collapse [symmetric]]
  by (simp add: demo_wheel_def)

end
