(* ===== verification/OI_Calendar.thy ===== *)
theory OI_Calendar
  imports OI_Prelude "HOL-Library.Signed_Division"
begin

text \<open>
  Calendar periods of the timer library (timer/src/oi_timer_helper.cpp, timer/inc/oi_duration.h):
  the number of a day, week, month and year of a timestamp in local time, and the questions whether
  two timestamps fall into the same period or a later one has been entered.

  Years, timestamps and period numbers are unbounded integers: the sources add an \<open>int64_t\<close> offset to
  a \<open>time_t\<close> and 1900 to \<open>tm_year\<close>, and signed overflow there is undefined. The unsigned arithmetic
  of \<open>CivilDays\<close> is kept at its 32 bits. The C library's \<open>localtime_r\<close> is modelled over the offset
  from UTC that the time zone database gives for a moment, which is the parameter \<open>tz\<close>.
\<close>

section \<open>Day numbers\<close>

definition FloorDiv :: "int \<Rightarrow> int \<Rightarrow> int" where
  "FloorDiv iFirst iSecond =
    (let iQ = iFirst sdiv iSecond; iR = iFirst smod iSecond
     in if iR \<noteq> 0 \<and> ((iFirst < 0) \<noteq> (iSecond < 0)) then iQ - 1 else iQ)"

definition CivilDays :: "int \<Rightarrow> u32 \<Rightarrow> u32 \<Rightarrow> int" where
  "CivilDays iYear0 iMonth iDay =
    (let iYear = iYear0 - of_bool (iMonth \<le> 2);
         iEra = (if iYear \<ge> 0 then iYear else iYear - 399) sdiv 400;
         iYoe = (word_of_int (iYear - iEra * 400) :: u32);
         iDoy = (153 * (iMonth + (if iMonth > 2 then - 3 else 9)) + 2) div 5 + iDay - 1;
         iDoe = iYoe * 365 + iYoe div 4 - iYoe div 100 + iDoy
     in iEra * 146097 + uint iDoe - 719468)"

section \<open>The calendar\<close>

text \<open>
  The Gregorian calendar by counting: the lengths of years and months, the date after a date, and the
  date of a day number found by walking through the years of a 400-year cycle and the months of a year.
\<close>

definition leap :: "int \<Rightarrow> bool" where
  "leap y \<longleftrightarrow> y mod 4 = 0 \<and> (y mod 100 \<noteq> 0 \<or> y mod 400 = 0)"

definition month_lens :: "int \<Rightarrow> int list" where
  "month_lens y = [31, if leap y then 29 else 28, 31, 30, 31, 30, 31, 31, 30, 31, 30, 31]"

definition year_len :: "int \<Rightarrow> int" where
  "year_len y = (if leap y then 366 else 365)"

definition year_start :: "int \<Rightarrow> int" where
  "year_start y = 365 * (y - 1) + (y - 1) div 4 - (y - 1) div 100 + (y - 1) div 400 - 719162"

definition month_start :: "int \<Rightarrow> int \<Rightarrow> int" where
  "month_start y m = sum_list (take (nat (m - 1)) (month_lens y))"

definition day_number :: "int \<Rightarrow> int \<Rightarrow> int \<Rightarrow> int" where
  "day_number y m d = year_start y + month_start y m + d - 1"

definition valid_date :: "int \<Rightarrow> int \<Rightarrow> int \<Rightarrow> bool" where
  "valid_date y m d \<longleftrightarrow> 1 \<le> m \<and> m \<le> 12 \<and> 1 \<le> d \<and> d \<le> month_lens y ! nat (m - 1)"


definition next_date :: "int \<times> int \<times> int \<Rightarrow> int \<times> int \<times> int" where
  "next_date date = (case date of (y, m, d) \<Rightarrow>
    if d < month_lens y ! nat (m - 1) then (y, m, d + 1)
    else if m < 12 then (y, m + 1, 1) else (y + 1, 1, 1))"

function year_scan :: "int \<Rightarrow> int \<Rightarrow> int \<times> int" where
  "year_scan y r = (if r < year_len y then (y, r) else year_scan (y + 1) (r - year_len y))"
  by auto
termination
  by (relation "measure (\<lambda>(y, r). nat r)") (auto simp: year_len_def split: if_splits)

fun month_scan :: "int list \<Rightarrow> int \<Rightarrow> int \<Rightarrow> int \<times> int" where
  "month_scan [] m r = (m, r)"
| "month_scan (l # ls) m r = (if r < l then (m, r) else month_scan ls (m + 1) (r - l))"

definition civil_of_day :: "int \<Rightarrow> int \<times> int \<times> int" where
  "civil_of_day n =
    (let (k, r) = year_scan 1 ((n + 719162) mod 146097); y = k + 400 * ((n + 719162) div 146097);
         (m, d) = month_scan (month_lens y) 1 r
     in (y, m, d + 1))"

declare year_scan.simps [simp del]


section \<open>The C library's local time\<close>

text \<open>The fields the sources use, and when \<open>localtime_r\<close> fails: the year does not fit an \<open>int\<close>.\<close>

record tm =
  tm_sec :: int
  tm_min :: int
  tm_hour :: int
  tm_mday :: int
  tm_mon :: int
  tm_year :: int
  tm_wday :: int

definition localtime_r :: "(int \<Rightarrow> int) \<Rightarrow> int \<Rightarrow> tm option" where
  "localtime_r tz iClock =
    (let here = iClock + tz iClock; n = here div 86400; s = here mod 86400; (y, m, d) = civil_of_day n
     in if - 2147483648 \<le> y - 1900 \<and> y - 1900 \<le> 2147483647
        then Some \<lparr>tm_sec = s mod 60, tm_min = s div 60 mod 60, tm_hour = s div 3600,
          tm_mday = d, tm_mon = m - 1, tm_year = y - 1900, tm_wday = (n + 4) mod 7\<rparr>
        else None)"

section \<open>Periods of a timestamp\<close>

definition ToLocal :: "(int \<Rightarrow> int) \<Rightarrow> int \<Rightarrow> int \<Rightarrow> tm option" where
  "ToLocal tz iTimestamp iOffset = localtime_r tz (iTimestamp + iOffset)"

definition DayOf :: "tm \<Rightarrow> int" where
  "DayOf stLocal = CivilDays (tm_year stLocal + 1900) (word_of_int (tm_mon stLocal) + 1) (word_of_int (tm_mday stLocal))"

definition WeekStarting :: "tm \<Rightarrow> int \<Rightarrow> int" where
  "WeekStarting stLocal iWeekday = FloorDiv (DayOf stLocal + (4 - iWeekday)) 7"

abbreviation (input) WeekdaySunday :: int where "WeekdaySunday \<equiv> 0"
abbreviation (input) WeekdayMonday :: int where "WeekdayMonday \<equiv> 1"
abbreviation (input) WeekdaySaturday :: int where "WeekdaySaturday \<equiv> 6"

definition WeekOf :: "tm \<Rightarrow> int" where
  "WeekOf stLocal = WeekStarting stLocal WeekdayMonday"

definition KnownWeekday :: "int \<Rightarrow> bool" where
  "KnownWeekday iWeekday \<longleftrightarrow> iWeekday \<ge> WeekdaySunday \<and> iWeekday \<le> WeekdaySaturday"

definition WeekdaySlot :: "(int \<Rightarrow> int) \<Rightarrow> int \<Rightarrow> int \<Rightarrow> int \<Rightarrow> int option" where
  "WeekdaySlot tz iTimestamp iWeekday iOffset =
    (if \<not> KnownWeekday iWeekday then None
     else case ToLocal tz iTimestamp iOffset of
       None \<Rightarrow> None
     | Some stLocal \<Rightarrow> Some (WeekStarting stLocal iWeekday))"

definition MonthOf :: "tm \<Rightarrow> int" where
  "MonthOf stLocal = tm_year stLocal * 12 + tm_mon stLocal"

definition YearOf :: "tm \<Rightarrow> int" where
  "YearOf stLocal = tm_year stLocal"

definition Slot :: "(int \<Rightarrow> int) \<Rightarrow> int \<Rightarrow> int \<Rightarrow> (tm \<Rightarrow> int) \<Rightarrow> int option" where
  "Slot tz iTimestamp iOffset fnSlotOf =
    (case ToLocal tz iTimestamp iOffset of None \<Rightarrow> None | Some stLocal \<Rightarrow> Some (fnSlotOf stLocal))"

definition PeriodOf :: "(int \<Rightarrow> int) \<Rightarrow> int \<Rightarrow> int \<Rightarrow> (tm \<Rightarrow> int) \<Rightarrow> int" where
  "PeriodOf tz iTimestamp iOffset fnSlotOf =
    (case Slot tz iTimestamp iOffset fnSlotOf of None \<Rightarrow> 0 | Some iSlot \<Rightarrow> iSlot)"

definition SameOf :: "(int \<Rightarrow> int) \<Rightarrow> int \<Rightarrow> int \<Rightarrow> int \<Rightarrow> (tm \<Rightarrow> int) \<Rightarrow> bool" where
  "SameOf tz iFirst iSecond iOffset fnSlotOf =
    (case (Slot tz iFirst iOffset fnSlotOf, Slot tz iSecond iOffset fnSlotOf) of
       (Some iLeft, Some iRight) \<Rightarrow> iLeft = iRight
     | _ \<Rightarrow> False)"

definition CrossOf :: "(int \<Rightarrow> int) \<Rightarrow> int \<Rightarrow> int \<Rightarrow> int \<Rightarrow> (tm \<Rightarrow> int) \<Rightarrow> bool" where
  "CrossOf tz iOld iNow iOffset fnSlotOf =
    (case (Slot tz iOld iOffset fnSlotOf, Slot tz iNow iOffset fnSlotOf) of
       (Some iOldSlot, Some iNowSlot) \<Rightarrow> iNowSlot > iOldSlot
     | _ \<Rightarrow> False)"

definition Shift :: "int \<Rightarrow> int \<Rightarrow> int" where
  "Shift iTimestamp iOffset = iTimestamp + iOffset"

record TimeMark =
  iTimestamp :: int
  iOffsetSeconds :: int

definition Capture :: "int \<Rightarrow> int \<Rightarrow> TimeMark" where
  "Capture iNow iOffset = \<lparr>iTimestamp = iNow, iOffsetSeconds = iOffset\<rparr>"

definition DayPeriod :: "(int \<Rightarrow> int) \<Rightarrow> int \<Rightarrow> int \<Rightarrow> int" where
  "DayPeriod tz t iOffset = PeriodOf tz t iOffset DayOf"

definition WeekPeriod :: "(int \<Rightarrow> int) \<Rightarrow> int \<Rightarrow> int \<Rightarrow> int" where
  "WeekPeriod tz t iOffset = PeriodOf tz t iOffset WeekOf"

definition WeekdayPeriod :: "(int \<Rightarrow> int) \<Rightarrow> int \<Rightarrow> int \<Rightarrow> int \<Rightarrow> int" where
  "WeekdayPeriod tz t iWeekday iOffset =
    (case WeekdaySlot tz t iWeekday iOffset of None \<Rightarrow> 0 | Some iSlot \<Rightarrow> iSlot)"

definition MonthPeriod :: "(int \<Rightarrow> int) \<Rightarrow> int \<Rightarrow> int \<Rightarrow> int" where
  "MonthPeriod tz t iOffset = PeriodOf tz t iOffset MonthOf"

definition YearPeriod :: "(int \<Rightarrow> int) \<Rightarrow> int \<Rightarrow> int \<Rightarrow> int" where
  "YearPeriod tz t iOffset = PeriodOf tz t iOffset YearOf"

definition SameDay :: "(int \<Rightarrow> int) \<Rightarrow> int \<Rightarrow> int \<Rightarrow> int \<Rightarrow> bool" where
  "SameDay tz iFirst iSecond iOffset = SameOf tz iFirst iSecond iOffset DayOf"

definition SameWeek :: "(int \<Rightarrow> int) \<Rightarrow> int \<Rightarrow> int \<Rightarrow> int \<Rightarrow> bool" where
  "SameWeek tz iFirst iSecond iOffset = SameOf tz iFirst iSecond iOffset WeekOf"

definition SameWeekday :: "(int \<Rightarrow> int) \<Rightarrow> int \<Rightarrow> int \<Rightarrow> int \<Rightarrow> int \<Rightarrow> bool" where
  "SameWeekday tz iFirst iSecond iWeekday iOffset =
    (case (WeekdaySlot tz iFirst iWeekday iOffset, WeekdaySlot tz iSecond iWeekday iOffset) of
       (Some iLeft, Some iRight) \<Rightarrow> iLeft = iRight
     | _ \<Rightarrow> False)"

definition SameMonth :: "(int \<Rightarrow> int) \<Rightarrow> int \<Rightarrow> int \<Rightarrow> int \<Rightarrow> bool" where
  "SameMonth tz iFirst iSecond iOffset = SameOf tz iFirst iSecond iOffset MonthOf"

definition SameYear :: "(int \<Rightarrow> int) \<Rightarrow> int \<Rightarrow> int \<Rightarrow> int \<Rightarrow> bool" where
  "SameYear tz iFirst iSecond iOffset = SameOf tz iFirst iSecond iOffset YearOf"

definition CrossDay :: "(int \<Rightarrow> int) \<Rightarrow> int \<Rightarrow> int \<Rightarrow> int \<Rightarrow> bool" where
  "CrossDay tz iOld iNow iOffset = CrossOf tz iOld iNow iOffset DayOf"

definition CrossWeek :: "(int \<Rightarrow> int) \<Rightarrow> int \<Rightarrow> int \<Rightarrow> int \<Rightarrow> bool" where
  "CrossWeek tz iOld iNow iOffset = CrossOf tz iOld iNow iOffset WeekOf"

definition CrossWeekday :: "(int \<Rightarrow> int) \<Rightarrow> int \<Rightarrow> int \<Rightarrow> int \<Rightarrow> int \<Rightarrow> bool" where
  "CrossWeekday tz iOld iNow iWeekday iOffset =
    (case (WeekdaySlot tz iOld iWeekday iOffset, WeekdaySlot tz iNow iWeekday iOffset) of
       (Some iOldSlot, Some iNowSlot) \<Rightarrow> iNowSlot > iOldSlot
     | _ \<Rightarrow> False)"

definition CrossMonth :: "(int \<Rightarrow> int) \<Rightarrow> int \<Rightarrow> int \<Rightarrow> int \<Rightarrow> bool" where
  "CrossMonth tz iOld iNow iOffset = CrossOf tz iOld iNow iOffset MonthOf"

definition CrossYear :: "(int \<Rightarrow> int) \<Rightarrow> int \<Rightarrow> int \<Rightarrow> int \<Rightarrow> bool" where
  "CrossYear tz iOld iNow iOffset = CrossOf tz iOld iNow iOffset YearOf"

text \<open>The overloads that take a saved mark.\<close>

definition CrossDay_mark :: "(int \<Rightarrow> int) \<Rightarrow> TimeMark \<Rightarrow> int \<Rightarrow> bool" where
  "CrossDay_mark tz stSaved iNow = CrossDay tz (iTimestamp stSaved) iNow (iOffsetSeconds stSaved)"

definition CrossWeek_mark :: "(int \<Rightarrow> int) \<Rightarrow> TimeMark \<Rightarrow> int \<Rightarrow> bool" where
  "CrossWeek_mark tz stSaved iNow = CrossWeek tz (iTimestamp stSaved) iNow (iOffsetSeconds stSaved)"

definition CrossWeekday_mark :: "(int \<Rightarrow> int) \<Rightarrow> TimeMark \<Rightarrow> int \<Rightarrow> int \<Rightarrow> bool" where
  "CrossWeekday_mark tz stSaved iNow iWeekday =
    CrossWeekday tz (iTimestamp stSaved) iNow iWeekday (iOffsetSeconds stSaved)"

definition CrossMonth_mark :: "(int \<Rightarrow> int) \<Rightarrow> TimeMark \<Rightarrow> int \<Rightarrow> bool" where
  "CrossMonth_mark tz stSaved iNow = CrossMonth tz (iTimestamp stSaved) iNow (iOffsetSeconds stSaved)"

definition CrossYear_mark :: "(int \<Rightarrow> int) \<Rightarrow> TimeMark \<Rightarrow> int \<Rightarrow> bool" where
  "CrossYear_mark tz stSaved iNow = CrossYear tz (iTimestamp stSaved) iNow (iOffsetSeconds stSaved)"

section \<open>Durations\<close>

datatype duration = Milliseconds int | Seconds int | Minutes int | Hours int | Days int

fun MS :: "duration \<Rightarrow> int" where
  "MS (Milliseconds n) = n"
| "MS (Seconds n) = n * 1000"
| "MS (Minutes n) = n * 60 * 1000"
| "MS (Hours n) = n * 60 * 60 * 1000"
| "MS (Days n) = n * 24 * 60 * 60 * 1000"

section \<open>The day number is the number of days\<close>

lemma div_pred: "0 < k \<Longrightarrow> y div k = (y - 1) div k + of_bool (y mod k = 0)" for y k :: int
proof (cases "y mod k = 0")
  case True
  assume k: "0 < k"
  have "y - 1 = k * (y div k - 1) + (k - 1)" using True mult_div_mod_eq [of k y] by (simp add: algebra_simps)
  moreover have "(k * (y div k - 1) + (k - 1)) div k = y div k - 1" using k by simp
  ultimately have "(y - 1) div k = y div k - 1" by metis
  then show ?thesis using True by simp
next
  case False
  assume k: "0 < k"
  then have m: "0 < y mod k" "y mod k < k" using False pos_mod_sign [OF k, of y] pos_mod_bound [OF k, of y] by linarith+
  have "(y - 1) div k = y div k"
    by (rule int_div_pos_eq [where r = "y mod k - 1"]) (use m in \<open>simp_all\<close>)
  then show ?thesis using False by simp
qed

lemma leap_mods: "y mod 400 = 0 \<Longrightarrow> y mod 100 = 0" "y mod 100 = 0 \<Longrightarrow> y mod 4 = 0" for y :: int
  by presburger+

lemma year_start_step: "year_start (y + 1) = year_start y + year_len y"
proof -
  obtain a b c where abc: "(y - 1) div 4 = a" "(y - 1) div 100 = b" "(y - 1) div 400 = c" by blast
  obtain p q r where pqr: "(y mod 4 = 0) = p" "(y mod 100 = 0) = q" "(y mod 400 = 0) = r" by blast
  have "y div 4 = a + of_bool p" "y div 100 = b + of_bool q" "y div 400 = c + of_bool r"
    using div_pred [of 4 y] div_pred [of 100 y] div_pred [of 400 y] unfolding abc pqr by simp_all
  moreover have "r \<Longrightarrow> q" "q \<Longrightarrow> p" using leap_mods [of y] unfolding pqr by blast+
  ultimately show ?thesis
    unfolding year_start_def year_len_def leap_def abc pqr by (cases p; cases q; cases r) (simp_all add: abc)
qed

lemma FloorDiv_div: "b \<noteq> 0 \<Longrightarrow> FloorDiv a b = a div b"
proof -
  assume "b \<noteq> 0"
  have "a smod b = 0 \<longleftrightarrow> b dvd a"
    by (simp add: signed_modulo_int_def sgn_0_0 flip: dvd_eq_mod_eq_0) auto
  then show ?thesis using \<open>b \<noteq> 0\<close>
    by (cases "a < 0"; cases "b < 0"; cases "a = 0") (simp_all add: FloorDiv_def Let_def divide_int_eq_signed_divide_int sgn_if)
qed

lemma word_div_of_int:
  assumes "0 \<le> a" "a < 2 ^ 32" "0 \<le> b" "b < 2 ^ 32"
  shows "(word_of_int a :: u32) div word_of_int b = word_of_int (a div b)"
proof -
  have "a div b < 2 ^ 32" "0 \<le> a div b" using assms
    by (metis div_by_0 div_by_1 dual_order.strict_trans1 int_one_le_iff_zero_less order_le_less zdiv_mono2 zero_less_numeral zero_less_power, simp add: assms pos_imp_zdiv_nonneg_iff div_int_pos_iff)
  then show ?thesis using assms by (intro word_uint_eqI) (simp add: uint_div_distrib uint_word_of_int)
qed
  

lemma month_cases:
  assumes "1 \<le> m" "m \<le> (12 :: int)"
  obtains "m = 1" | "m = 2" | "m = 3" | "m = 4" | "m = 5" | "m = 6"
    | "m = 7" | "m = 8" | "m = 9" | "m = 10" | "m = 11" | "m = 12"
proof -
  have "m = 1 \<or> m = 2 \<or> m = 3 \<or> m = 4 \<or> m = 5 \<or> m = 6 \<or> m = 7 \<or> m = 8 \<or> m = 9 \<or> m = 10
      \<or> m = 11 \<or> m = 12"
    using assms by presburger
  then show thesis using that by blast
qed

lemma doe_word:
  assumes "0 \<le> yoe" "yoe < 400" "0 \<le> doy" "doy < 1000"
  shows "uint (word_of_int yoe * 365 + word_of_int yoe div 4 - word_of_int yoe div 100 + word_of_int doy :: u32)
    = yoe * 365 + yoe div 4 - yoe div 100 + doy"
proof -
  have d: "(word_of_int yoe :: u32) div 4 = word_of_int (yoe div 4)"
      "(word_of_int yoe :: u32) div 100 = word_of_int (yoe div 100)"
    using word_div_of_int [of yoe 4] word_div_of_int [of yoe 100] assms by simp_all
  have W: "(word_of_int yoe * 365 + word_of_int (yoe div 4) - word_of_int (yoe div 100) + word_of_int doy :: u32)
      = word_of_int (yoe * 365 + yoe div 4 - yoe div 100 + doy)" by simp
  have "0 \<le> yoe * 365 + yoe div 4 - yoe div 100 + doy" "yoe * 365 + yoe div 4 - yoe div 100 + doy < 4294967296"
    using assms by linarith+
  then show ?thesis unfolding d W uint_word_of_int by simp
qed

lemma era_div: "(if y \<ge> 0 then y else y - 399) sdiv 400 = y div 400" for y :: int
proof (cases "y \<ge> 0")
  case True
  then show ?thesis by (simp add: signed_divide_int_def sgn_if)
next
  case False
  have "y - 399 = - (- y + 399)" by simp
  have "(- y + 399) div 400 = - (y div 400)" 
    using False by linarith
  then show ?thesis using False by (simp add: signed_divide_int_def sgn_if)
qed

lemma four_hundred_years:
  fixes y :: int
  defines "e \<equiv> y div 400" and "k \<equiv> y mod 400"
  shows "e * 146097 + (k * 365 + k div 4 - k div 100) = 365 * y + y div 4 - y div 100 + y div 400"
proof -
  have y: "y = k + 400 * e" unfolding e_def k_def by simp
  have "y div 4 = k div 4 + 100 * e" "y div 100 = k div 100 + 4 * e" "y div 400 = e"
    using div_mult_self1 [of 4 k "100 * e"] div_mult_self1 [of 100 k "4 * e"]
    unfolding y by (simp_all add: e_def k_def)
  then show ?thesis unfolding \<open>y div 4 = _\<close> \<open>y div 100 = _\<close> \<open>y div 400 = e\<close> by (subst y) simp
qed

lemma CivilDays_day_number:
  assumes m: "1 \<le> m" "m \<le> 12" and d: "1 \<le> d" "d \<le> 31"
  shows "CivilDays y (word_of_int m) (word_of_int d) = day_number y m d"
proof -
  define mp where "mp = (if m > 2 then m - 3 else m + 9)"
  define doy where "doy = (153 * mp + 2) div 5 + d - 1"
  define z where "z = y - of_bool (m \<le> 2)"
  have mp: "0 \<le> mp" "mp \<le> 11" using m by (auto simp: mp_def)
  have le2: "(word_of_int m :: u32) \<le> 2 \<longleftrightarrow> m \<le> 2" using m by (cases rule: month_cases [OF m]) simp_all
  have w1: "(word_of_int m + (if (word_of_int m :: u32) > 2 then - 3 else 9)) = (word_of_int mp :: u32)"
    using m by (cases rule: month_cases [OF m]) (simp_all add: mp_def)
  have "(153 * word_of_int mp + 2 :: u32) div 5 = word_of_int (153 * mp + 2) div word_of_int 5" by simp
  also have "\<dots> = word_of_int ((153 * mp + 2) div 5)" by (rule word_div_of_int) (use mp in simp_all)
  finally have w2: "((153 * word_of_int mp + 2 :: u32) div 5 + word_of_int d - 1) = word_of_int doy"
    by (simp add: doy_def)
  have dd: "0 \<le> doy" "doy < 1000" using mp d unfolding doy_def by linarith+
  have "CivilDays y (word_of_int m) (word_of_int d)
      = z div 400 * 146097 + (z mod 400 * 365 + z mod 400 div 4 - z mod 400 div 100 + doy) - 719468"
    unfolding CivilDays_def Let_def le2 w1 w2 z_def[symmetric] era_div
    using doe_word [of "z mod 400" doy] dd by (simp add: minus_div_mult_eq_mod)
  also have "\<dots> = 365 * z + z div 4 - z div 100 + z div 400 + doy - 719468"
    using four_hundred_years [of z] by linarith
  finally have C: "CivilDays y (word_of_int m) (word_of_int d) = 365 * z + z div 4 - z div 100 + z div 400 + doy - 719468" .
  have Y: "year_start (y + 1) = 365 * y + y div 4 - y div 100 + y div 400 - 719162"
    by (simp add: year_start_def)
  show ?thesis
  proof (cases "m \<le> 2")
    case True
    then have "m = 1 \<or> m = 2" using m by linarith
    then show ?thesis using True
      by (auto simp: C day_number_def year_start_def month_start_def z_def doy_def mp_def month_lens_def)
  next
    case False
    have "CivilDays y (word_of_int m) (word_of_int d) = year_start (y + 1) - 306 + doy"
      using False by (simp add: C Y z_def)
    then show ?thesis unfolding year_start_step day_number_def year_len_def using False
      by (cases rule: month_cases [OF m])
        (simp_all add: month_start_def doy_def mp_def month_lens_def numeral_eq_Suc)
  qed
qed


lemma year_scan_spec:
  "year_scan y r = (y', r') \<Longrightarrow> 0 \<le> r \<Longrightarrow> year_start y' + r' = year_start y + r \<and> 0 \<le> r' \<and> r' < year_len y'"
proof (induction y r rule: year_scan.induct)
  case (1 y r)
  show ?case
  proof (cases "r < year_len y")
    case True
    then show ?thesis using 1 by (simp add: year_scan.simps [of y])
  next
    case False
    then show ?thesis using 1 year_start_step [of y] by (auto simp: year_scan.simps [of y r])
  qed
qed

lemma month_scan_spec:
  "month_scan ls m r = (m', d) \<Longrightarrow> 0 \<le> r \<Longrightarrow> r < sum_list ls \<Longrightarrow>
    \<exists>i < length ls. m' = m + int i \<and> 0 \<le> d \<and> d < ls ! i \<and> r = sum_list (take i ls) + d"
proof (induction ls m r rule: month_scan.induct)
  case (1 m r)
  then show ?case by simp
next
  case (2 l ls m r)
  show ?case
  proof (cases "r < l")
    case True
    then show ?thesis using 2(2-) by (intro exI [of _ 0]) simp
  next
    case False
    then obtain i where "i < length ls" "m' = m + 1 + int i" "0 \<le> d" "d < ls ! i" "r - l = sum_list (take i ls) + d"
      using 2 by auto
    then show ?thesis by (intro exI [of _ "Suc i"]) simp
  qed
qed

lemma sum_month_lens: "sum_list (month_lens y) = year_len y"
  by (simp add: month_lens_def year_len_def)

lemma length_month_lens [simp]: "length (month_lens y) = 12"
  by (simp add: month_lens_def)

lemma year_start_period: "year_start (k + 400 * q) = year_start k + 146097 * q"
  using div_mult_self1 [of 4 "k - 1" "100 * q"] div_mult_self1 [of 100 "k - 1" "4 * q"] div_mult_self1 [of 400 "k - 1" q]
  by (simp add: year_start_def algebra_simps)

lemma year_len_period: "year_len (k + 400 * q) = year_len k"
  using year_start_step [of "k + 400 * q"] year_start_step [of k] year_start_period [of "k + 1" q] year_start_period [of k q]
  by (simp add: algebra_simps)

lemma civil_of_day_spec:
  assumes "civil_of_day n = (y, m, d)"
  shows "valid_date y m d" "day_number y m d = n"
proof -
  define q r where "q = (n + 719162) div 146097" and "r = (n + 719162) mod 146097"
  obtain k s where ks: "year_scan 1 r = (k, s)" by fastforce
  obtain m' d' where md: "month_scan (month_lens (k + 400 * q)) 1 s = (m', d')" by fastforce
  have eq: "y = k + 400 * q" "m = m'" "d = d' + 1"
    using assms ks md by (simp_all add: civil_of_day_def q_def r_def Let_def)
  have n: "n + 719162 = 146097 * q + r" "0 \<le> r" by (simp_all add: q_def r_def)
  have yr: "year_start k + s = year_start 1 + r" "0 \<le> s" "s < year_len k"
    using year_scan_spec [OF ks n(2)] by auto
  obtain i where i: "i < 12" "m' = 1 + int i" "0 \<le> d'" "d' < month_lens y ! i" "s = sum_list (take i (month_lens y)) + d'"
    using month_scan_spec [OF md] yr by (auto simp: sum_month_lens year_len_period eq)
  show "valid_date y m d" using i eq by (simp add: valid_date_def)
  have "month_start y m = sum_list (take i (month_lens y))" using i eq by (simp add: month_start_def)
  moreover have "year_start y = n - s" using year_start_period [of k q] yr n eq by (simp add: year_start_def [of 1])
  ultimately show "day_number y m d = n" using i eq by (simp add: day_number_def)
qed


lemma month_start_step:
  assumes "1 \<le> m" "m \<le> 12"
  shows "month_start y (m + 1) = month_start y m + month_lens y ! nat (m - 1)"
  using assms by (elim month_cases) (simp_all add: month_start_def month_lens_def numeral_eq_Suc)

lemma month_start_13: "month_start y 13 = year_len y"
  by (simp add: month_start_def flip: sum_month_lens)

lemma month_start_1 [simp]: "month_start y 1 = 0"
  by (simp add: month_start_def)

lemma month_len_pos: "1 \<le> m \<Longrightarrow> m \<le> 12 \<Longrightarrow> 28 \<le> month_lens y ! nat (m - 1) \<and> month_lens y ! nat (m - 1) \<le> 31"
  by (erule (1) month_cases) (simp_all add: month_lens_def numeral_eq_Suc)

lemma next_date_spec:
  assumes "valid_date y m d" "next_date (y, m, d) = (y', m', d')"
  shows "valid_date y' m' d' \<and> day_number y' m' d' = day_number y m d + 1"
  using assms month_start_step [of m y] month_start_13 [of y] year_start_step [of y]
    month_len_pos [of "m + 1" y] month_len_pos [of 1 "y + 1"] 
  by (auto simp: next_date_def valid_date_def day_number_def split: if_splits)

lemma month_start_mono: "1 \<le> m \<Longrightarrow> m < m' \<Longrightarrow> m' \<le> 13 \<Longrightarrow> month_start y m + month_lens y ! nat (m - 1) \<le> month_start y m'"
proof (induction "nat (m' - m - 1)" arbitrary: m')
  case 0
  then have "m' = m + 1" by linarith
  then show ?case using 0 month_start_step [of m y] by simp
next
  case (Suc n)
  then have "month_start y m + month_lens y ! nat (m - 1) \<le> month_start y (m' - 1)" by (intro Suc(1)) linarith+
  moreover have "month_start y m' = month_start y (m' - 1) + month_lens y ! nat (m' - 1 - 1)"
    using month_start_step [of "m' - 1" y] Suc by simp
  moreover have "28 \<le> month_lens y ! nat (m' - 1 - 1)" using month_len_pos [of "m' - 1" y] Suc by simp
  ultimately show ?case by linarith
qed

lemma year_start_mono: "y < y' \<Longrightarrow> year_start y + year_len y \<le> year_start y'"
proof (induction "nat (y' - y - 1)" arbitrary: y')
  case 0
  then have "y' = y + 1" by linarith
  then show ?case using year_start_step [of y] by simp
next
  case (Suc n)
  then have "year_start y + year_len y \<le> year_start (y' - 1)" by (intro Suc(1)) linarith+
  then show ?case using year_start_step [of "y' - 1"] by (simp add: year_len_def split: if_splits)
qed

lemma valid_in_year: 
  assumes "valid_date y m d" shows "year_start y \<le> day_number y m d \<and> day_number y m d < year_start y + year_len y"
  using assms month_start_mono [of m 13 y] month_start_mono [of 1 m y] month_len_pos [of 1 y]
  by (cases "m = 1") (auto simp: valid_date_def day_number_def month_start_13)

lemma day_number_inj:
  assumes v: "valid_date y m d" "valid_date y' m' d'" and e: "day_number y m d = day_number y' m' d'"
  shows "y = y' \<and> m = m' \<and> d = d'"
proof -
  have y: "y = y'"
    using valid_in_year [OF v(1)] valid_in_year [OF v(2)] e year_start_mono [of y y'] year_start_mono [of y' y] by linarith
  moreover have m: "m = m'"
    using v e month_start_mono [of m m' y] month_start_mono [of m' m y]
    unfolding y day_number_def valid_date_def by linarith
  ultimately show ?thesis using e by (simp add: day_number_def)
qed

lemma civil_of_day_next: "civil_of_day (n + 1) = next_date (civil_of_day n)"
proof -
  obtain y m d where c: "civil_of_day n = (y, m, d)" by (cases "civil_of_day n")
  obtain y' m' d' where c': "civil_of_day (n + 1) = (y', m', d')" by (cases "civil_of_day (n + 1)")
  obtain y'' m'' d'' where n: "next_date (y, m, d) = (y'', m'', d'')" by (cases "next_date (y, m, d)")
  show ?thesis
    using next_date_spec [OF civil_of_day_spec(1) [OF c] n] civil_of_day_spec [OF c] civil_of_day_spec [OF c']
      day_number_inj [of y' m' d' y'' m'' d''] by (simp add: c c' n)
qed

section \<open>Slots and their boundaries\<close>

text \<open>
  A numbering of days by periods: the number grows by one on every day that begins a period and stays
  otherwise. Then two days differ in their numbers exactly by the boundaries between them.
\<close>

locale period =
  fixes slot :: "int \<Rightarrow> int" and starts :: "int \<Rightarrow> bool"
  assumes grows: "slot (n + 1) = slot n + of_bool (starts (n + 1))"
begin

lemma slot_le: "a \<le> b \<Longrightarrow> slot a \<le> slot b"
  by (induction b rule: int_ge_induct) (simp_all add: grows)

lemma slot_same_iff: "a \<le> b \<Longrightarrow> slot a = slot b \<longleftrightarrow> (\<forall>n. a < n \<and> n \<le> b \<longrightarrow> \<not> starts n)"
proof (induction b rule: int_ge_induct)
  case base
  then show ?case by auto
next
  case (step b)
  have "(\<forall>n. a < n \<and> n \<le> b + 1 \<longrightarrow> \<not> starts n) \<longleftrightarrow> (\<forall>n. a < n \<and> n \<le> b \<longrightarrow> \<not> starts n) \<and> \<not> starts (b + 1)"
    using step(1) by (metis le_less linorder_not_le zle_add1_eq_le zless_add1_eq)
  moreover have "slot a = slot (b + 1) \<longleftrightarrow> slot a = slot b \<and> \<not> starts (b + 1)"
    using slot_le [OF step(1)] grows [of b] by (auto simp: of_bool_def split: if_splits)
  ultimately show ?case using step by simp
qed

lemma slot_less_iff: "slot a < slot b \<longleftrightarrow> (\<exists>n. a < n \<and> n \<le> b \<and> starts n)"
proof (cases "a \<le> b")
  case True
  then show ?thesis using slot_le [OF True] slot_same_iff [OF True] by (auto simp: less_le)
next
  case False
  then show ?thesis using slot_le [of b a] by auto
qed

end

section \<open>Boundaries\<close>

text \<open>The local day a timestamp falls on, counted from 1 January 1970.\<close>

definition local_day :: "(int \<Rightarrow> int) \<Rightarrow> int \<Rightarrow> int \<Rightarrow> int" where
  "local_day tz iOffset t = (t + iOffset + tz (t + iOffset)) div 86400"

definition weekday :: "int \<Rightarrow> int" where
  "weekday n = (n + 4) mod 7"

definition month_begins :: "int \<Rightarrow> bool" where
  "month_begins n = (case civil_of_day n of (y, m, d) \<Rightarrow> d = 1)"

definition year_begins :: "int \<Rightarrow> bool" where
  "year_begins n = (case civil_of_day n of (y, m, d) \<Rightarrow> m = 1 \<and> d = 1)"

definition month_index :: "int \<Rightarrow> int" where
  "month_index n = (case civil_of_day n of (y, m, d) \<Rightarrow> (y - 1900) * 12 + (m - 1))"

definition year_index :: "int \<Rightarrow> int" where
  "year_index n = (case civil_of_day n of (y, m, d) \<Rightarrow> y - 1900)"

interpretation day_period: period "\<lambda>n. n" "\<lambda>n. True"
  by unfold_locales simp

interpretation week_period: period "\<lambda>n. (n + (4 - w)) div 7" "\<lambda>n. (n + (4 - w)) mod 7 = 0" for w
proof
  fix n
  show "(n + 1 + (4 - w)) div 7 = (n + (4 - w)) div 7 + of_bool ((n + 1 + (4 - w)) mod 7 = 0)"
    using div_pred [of 7 "n + 1 + (4 - w)"] by (simp add: algebra_simps)
qed

lemma civil_of_day_steps:
  "\<exists>y m d. civil_of_day n = (y, m, d) \<and> valid_date y m d \<and> civil_of_day (n + 1) = next_date (y, m, d)"
  by (cases "civil_of_day n") (simp add: civil_of_day_next civil_of_day_spec(1))

interpretation month_period: period month_index month_begins
proof
  fix n
  show "month_index (n + 1) = month_index n + of_bool (month_begins (n + 1))"
  proof -
    obtain y m d where "civil_of_day n = (y, m, d)" "valid_date y m d" "civil_of_day (n + 1) = next_date (y, m, d)"
      using civil_of_day_steps [of n] by blast
    then show ?thesis
      by (cases "d < month_lens y ! nat (m - 1)"; cases "m < 12")
        (simp_all add: month_index_def month_begins_def next_date_def valid_date_def)
  qed
qed

interpretation year_period: period year_index year_begins
proof
  fix n
  show "year_index (n + 1) = year_index n + of_bool (year_begins (n + 1))"
  proof -
    obtain y m d where "civil_of_day n = (y, m, d)" "valid_date y m d" "civil_of_day (n + 1) = next_date (y, m, d)"
      using civil_of_day_steps [of n] by blast
    then show ?thesis
      by (cases "d < month_lens y ! nat (m - 1)"; cases "m < 12")
        (simp_all add: year_index_def year_begins_def next_date_def valid_date_def)
  qed
qed

lemma weekday_boundary:
  assumes "KnownWeekday w"
  shows "(n + (4 - w)) mod 7 = 0 \<longleftrightarrow> weekday n = w"
proof -
  have "weekday n = w \<longleftrightarrow> (n + 4) mod 7 = w mod 7" using assms by (simp add: weekday_def KnownWeekday_def)
  also have "\<dots> \<longleftrightarrow> (n + 4 - w) mod 7 = 0" by (metis mod_eq_dvd_iff dvd_eq_mod_eq_0)
  finally show ?thesis by (simp add: algebra_simps)
qed

lemma ToLocal_day:
  assumes "ToLocal tz t off = Some st"
  shows "DayOf st = local_day tz off t" "MonthOf st = month_index (local_day tz off t)"
    "YearOf st = year_index (local_day tz off t)"
    "WeekStarting st w = (local_day tz off t + (4 - w)) div 7"
proof -
  obtain y m d where c: "civil_of_day (local_day tz off t) = (y, m, d)" by (cases "civil_of_day (local_day tz off t)")
  then have st: "tm_year st = y - 1900" "tm_mon st = m - 1" "tm_mday st = d"
    using assms by (auto simp: ToLocal_def localtime_r_def local_day_def Let_def split: if_splits)
  have v: "valid_date y m d" "day_number y m d = local_day tz off t" using civil_of_day_spec [OF c] by auto
  have "word_of_int (m - 1) + 1 = (word_of_int m :: u32)" by simp
  then show D: "DayOf st = local_day tz off t"
    using CivilDays_day_number [of m d y] v month_len_pos [of m y] by (simp add: DayOf_def st valid_date_def)
  show "MonthOf st = month_index (local_day tz off t)" "YearOf st = year_index (local_day tz off t)"
    by (simp_all add: MonthOf_def YearOf_def st month_index_def year_index_def c)
  show "WeekStarting st w = (local_day tz off t + (4 - w)) div 7" by (simp add: WeekStarting_def FloorDiv_div D)
qed

lemmas slot_of_day = Slot_def WeekdaySlot_def CrossOf_def SameOf_def CrossDay_def CrossWeek_def CrossWeekday_def
  CrossMonth_def CrossYear_def SameDay_def SameWeek_def SameWeekday_def SameMonth_def SameYear_def WeekOf_def

text \<open>
  C37: \<open>CivilDays\<close> counts the days of the Gregorian calendar: 1 January 1970 is day 0, and the day
  after a date, with months of 28 to 31 days and leap years every 4 years but not every 100 unless
  every 400, has the next number. The 32-bit arithmetic never wraps for a date.
\<close>

theorem CivilDays_counts_days:
  "CivilDays 1970 1 1 = 0 \<and>
   (valid_date y m d \<longrightarrow> next_date (y, m, d) = (y', m', d') \<longrightarrow>
     CivilDays y' (word_of_int m') (word_of_int d') = CivilDays y (word_of_int m) (word_of_int d) + 1)"
proof -
  have "CivilDays 1970 1 1 = 0" using CivilDays_day_number [of 1 1 1970] by (simp add: day_number_def year_start_def)
  moreover have "CivilDays y' (word_of_int m') (word_of_int d') = CivilDays y (word_of_int m) (word_of_int d) + 1"
    if v: "valid_date y m d" and n: "next_date (y, m, d) = (y', m', d')"
    using next_date_spec [OF v n] v CivilDays_day_number [of m d y] CivilDays_day_number [of m' d' y']
      month_len_pos [of m y] month_len_pos [of m' y'] by (simp add: valid_date_def)
  ultimately show ?thesis by blast
qed

theorem CivilDays_counts_days_witness:
  "CivilDays 2000 (word_of_int 2) (word_of_int 29) + 1 = CivilDays 2000 (word_of_int 3) (word_of_int 1)"
  using CivilDays_counts_days [of 2000 2 29 2000 3 1] by (simp add: valid_date_def next_date_def month_lens_def leap_def)

text \<open>
  With an offset and two timestamps that have a local time, a period is crossed exactly when a
  boundary of that period lies after the old timestamp's local day and not after the new one's: any
  midnight for \<open>CrossDay\<close>, the midnight that begins a Monday for \<open>CrossWeek\<close> and the given weekday for
  \<open>CrossWeekday\<close>, the first of a month for \<open>CrossMonth\<close> and 1 January for \<open>CrossYear\<close>. In particular
  nothing is crossed when time goes backwards.
\<close>

theorem Cross_iff_boundary:
  assumes old: "ToLocal tz t0 off \<noteq> None" and now: "ToLocal tz t1 off \<noteq> None" and w: "KnownWeekday w"
  defines "a \<equiv> local_day tz off t0" and "b \<equiv> local_day tz off t1"
  shows "(CrossDay tz t0 t1 off \<longleftrightarrow> a < b)
    \<and> (CrossWeek tz t0 t1 off \<longleftrightarrow> (\<exists>n. a < n \<and> n \<le> b \<and> weekday n = 1))
    \<and> (CrossWeekday tz t0 t1 w off \<longleftrightarrow> (\<exists>n. a < n \<and> n \<le> b \<and> weekday n = w))
    \<and> (CrossMonth tz t0 t1 off \<longleftrightarrow> (\<exists>n. a < n \<and> n \<le> b \<and> month_begins n))
    \<and> (CrossYear tz t0 t1 off \<longleftrightarrow> (\<exists>n. a < n \<and> n \<le> b \<and> year_begins n))"
proof -
  obtain p q where pq: "ToLocal tz t0 off = Some p" "ToLocal tz t1 off = Some q" using old now by blast
  note days = ToLocal_day [OF pq(1), folded a_def] ToLocal_day [OF pq(2), folded b_def]
  have mon: "KnownWeekday 1" by (simp add: KnownWeekday_def)
  have day: "CrossDay tz t0 t1 off \<longleftrightarrow> a < b"
    and week: "CrossWeek tz t0 t1 off \<longleftrightarrow> (a + (4 - 1)) div 7 < (b + (4 - 1)) div 7"
    and weekday: "CrossWeekday tz t0 t1 w off \<longleftrightarrow> (a + (4 - w)) div 7 < (b + (4 - w)) div 7"
    and month: "CrossMonth tz t0 t1 off \<longleftrightarrow> month_index a < month_index b"
    and year: "CrossYear tz t0 t1 off \<longleftrightarrow> year_index a < year_index b"
    by (simp_all only: slot_of_day pq days w option.case prod.case simp_thms if_False not_True_eq_False)
  show ?thesis
    unfolding day week weekday month year week_period.slot_less_iff month_period.slot_less_iff
      year_period.slot_less_iff weekday_boundary [OF w] weekday_boundary [OF mon] by blast
qed

definition utc :: "int \<Rightarrow> int" where
  "utc t = 0"

text \<open>From Thursday 4 January 2001 to Tuesday 9 January 2001, in UTC.\<close>

lemma demo_local:
  "ToLocal utc 978566400 0 \<noteq> None" "ToLocal utc 978998400 0 \<noteq> None"
  "local_day utc 0 978566400 = 11326" "local_day utc 0 978998400 = 11331"
  by (simp_all add: ToLocal_def localtime_r_def utc_def local_day_def civil_of_day_def year_scan.simps
      year_len_def leap_def month_lens_def)

theorem Cross_iff_boundary_witness:
  "CrossDay utc 978566400 978998400 0 \<and> \<not> CrossDay utc 978998400 978566400 0
    \<and> CrossWeek utc 978566400 978998400 0"
proof -
  have "weekday 11330 = 1" by (simp add: weekday_def)
  moreover have "(11326 :: int) < 11330 \<and> (11330 :: int) \<le> 11331" by simp
  ultimately have "\<exists>n. 11326 < n \<and> n \<le> 11331 \<and> weekday n = 1" by blast
  moreover have "KnownWeekday 1" by (simp add: KnownWeekday_def)
  ultimately show ?thesis
    using Cross_iff_boundary [of utc 978566400 0 978998400 1] Cross_iff_boundary [of utc 978998400 0 978566400 1]
      demo_local by (simp only:) simp
qed

text \<open>
  For the same inputs, two timestamps are in the same period exactly when no boundary lies between
  their local days, in either direction; so for a timestamp that is not later than the other, one of
  crossed and same holds and never both.
\<close>

theorem Same_iff_no_boundary:
  assumes old: "ToLocal tz t0 off \<noteq> None" and now: "ToLocal tz t1 off \<noteq> None" and w: "KnownWeekday w"
    and le: "local_day tz off t0 \<le> local_day tz off t1"
  shows "(SameDay tz t0 t1 off \<longleftrightarrow> \<not> CrossDay tz t0 t1 off)
    \<and> (SameWeek tz t0 t1 off \<longleftrightarrow> \<not> CrossWeek tz t0 t1 off)
    \<and> (SameWeekday tz t0 t1 w off \<longleftrightarrow> \<not> CrossWeekday tz t0 t1 w off)
    \<and> (SameMonth tz t0 t1 off \<longleftrightarrow> \<not> CrossMonth tz t0 t1 off)
    \<and> (SameYear tz t0 t1 off \<longleftrightarrow> \<not> CrossYear tz t0 t1 off)"
proof -
  obtain p q where pq: "ToLocal tz t0 off = Some p" "ToLocal tz t1 off = Some q" using old now by blast
  note days = ToLocal_day [OF pq(1)] ToLocal_day [OF pq(2)]
  have slots: "x \<le> y \<Longrightarrow> (x = y) = (\<not> x < y)" for x y :: int by auto
  show ?thesis
    using day_period.slot_le [OF le] week_period.slot_le [OF le] month_period.slot_le [OF le] year_period.slot_le [OF le]
    by (simp only: slot_of_day pq days w option.case prod.case simp_thms if_False not_True_eq_False slots)
qed

theorem Same_iff_no_boundary_witness:
  "SameDay utc 978566400 978998400 0 = (\<not> CrossDay utc 978566400 978998400 0)"
  using Same_iff_no_boundary [of utc 978566400 0 978998400 1] demo_local by (simp add: KnownWeekday_def)

text \<open>
  Where there is no answer the functions report none: for a weekday outside 0 to 6, or a timestamp
  without a local time, the period number is 0 and nothing is the same or crossed.
\<close>

theorem unknown_weekday_or_time:
  "(\<not> KnownWeekday w \<or> ToLocal tz t off = None \<longrightarrow>
      WeekdayPeriod tz t w off = 0 \<and> \<not> SameWeekday tz t u w off \<and> \<not> SameWeekday tz u t w off
      \<and> \<not> CrossWeekday tz t u w off \<and> \<not> CrossWeekday tz u t w off)
    \<and> (ToLocal tz t off = None \<longrightarrow>
      PeriodOf tz t off f = 0 \<and> \<not> SameOf tz t u off f \<and> \<not> SameOf tz u t off f \<and> \<not> CrossOf tz t u off f
      \<and> \<not> CrossOf tz u t off f)"
  by (auto simp: WeekdayPeriod_def PeriodOf_def slot_of_day split: option.splits)

theorem unknown_weekday_or_time_witness: "WeekdayPeriod utc 0 7 0 = 0"
  using unknown_weekday_or_time [of 7 utc 0 0] by (simp add: KnownWeekday_def)

end
