(* ===== verification/OI_Decimal.thy ===== *)
theory OI_Decimal
  imports OI_Prelude
begin

text \<open>
  Decimal text of integers, which several components print and parse: \<open>std::to_string\<close> and
  \<open>std::from_chars\<close> (integer keys of JSON objects), and the integers of the Redis protocol.
\<close>

section \<open>Printing\<close>

definition digit :: "nat \<Rightarrow> char" where
  "digit d = char_of (48 + d)"

fun dec :: "nat \<Rightarrow> string" where
  "dec n = (if n < 10 then [digit n] else dec (n div 10) @ [digit (n mod 10)])"

declare dec.simps [simp del]

definition to_string :: "int \<Rightarrow> string" where
  "to_string i = (if i < 0 then CHR ''-'' # dec (nat (- i)) else dec (nat i))"

section \<open>Parsing\<close>

definition is_digit :: "char \<Rightarrow> bool" where
  "is_digit c \<longleftrightarrow> 48 \<le> (of_char c :: nat) \<and> (of_char c :: nat) \<le> 57"

definition digit_val :: "char \<Rightarrow> nat" where
  "digit_val c = of_char c - 48"

definition dec_val :: "string \<Rightarrow> nat" where
  "dec_val cs = foldl (\<lambda>n c. 10 * n + digit_val c) 0 cs"

text \<open>
  \<open>std::from_chars\<close> into an integer type with range \<open>lo..hi\<close>, followed by the check that the whole
  text was used. A minus sign is accepted only for a signed type; a plus sign never is.
\<close>

definition from_chars :: "bool \<Rightarrow> int \<Rightarrow> int \<Rightarrow> string \<Rightarrow> int option" where
  "from_chars sgnd lo hi s =
     (let neg = (sgnd \<and> s \<noteq> [] \<and> hd s = CHR ''-'');
          ds = (if neg then tl s else s);
          v = (if neg then - int (dec_val ds) else int (dec_val ds))
      in if ds = [] \<or> \<not> list_all is_digit ds then None
         else if v < lo \<or> v > hi then None else Some v)"

text \<open>\<open>std::isspace\<close> in the C locale, the white space that \<open>strtol\<close> and \<open>atoi\<close> skip.\<close>

definition is_space :: "char \<Rightarrow> bool" where
  "is_space c \<longleftrightarrow> c = CHR '' '' \<or> (9 \<le> (of_char c :: nat) \<and> (of_char c :: nat) \<le> 13)"

text \<open>
  \<open>strtol\<close> with base 10 on a C string: the value and the text that is left at the end pointer, which is
  the whole text when there are no digits. A value beyond the range of \<open>long\<close> is cut off there.
\<close>

definition strtol :: "string \<Rightarrow> int \<times> string" where
  "strtol s =
     (let t = dropWhile is_space s; neg = (t \<noteq> [] \<and> hd t = CHR ''-'');
          u = (if t \<noteq> [] \<and> (hd t = CHR ''-'' \<or> hd t = CHR ''+'') then tl t else t);
          ds = takeWhile is_digit u; v = (if neg then - int (dec_val ds) else int (dec_val ds))
      in if ds = [] then (0, s)
         else (max (- 9223372036854775808) (min 9223372036854775807 v), dropWhile is_digit u))"

section \<open>Lemmas\<close>

lemma digit_laws [simp]:
  assumes "d < 10"
  shows "is_digit (digit d)" "digit_val (digit d) = d"
  using assms by (simp_all add: digit_def is_digit_def digit_val_def)

lemma digit_inj: "d < 10 \<Longrightarrow> e < 10 \<Longrightarrow> digit d = digit e \<longleftrightarrow> d = e"
  by (metis digit_laws(2))

lemma dec_val_snoc [simp]: "dec_val (cs @ [c]) = 10 * dec_val cs + digit_val c"
  by (simp add: dec_val_def)

lemma dec_val_nil [simp]: "dec_val [] = 0"
  by (simp add: dec_val_def)

lemma dec_val_dec [simp]: "dec_val (dec n) = n"
proof (induction n rule: dec.induct)
  case (1 n)
  show ?case
  proof (cases "n < 10")
    case True
    then show ?thesis by (subst dec.simps) (simp add: dec_val_def)
  next
    case False
    with 1 show ?thesis by (subst dec.simps) simp
  qed
qed

lemma dec_digits [simp]: "list_all is_digit (dec n)"
proof (induction n rule: dec.induct)
  case (1 n)
  then show ?case by (subst dec.simps) simp
qed

lemma dec_nonempty [simp]: "dec n \<noteq> []"
  by (subst dec.simps) simp

lemma length_dec_pos: "0 < length (dec n)"
  by simp

lemma dec_inj: "dec m = dec n \<longleftrightarrow> m = n"
  by (metis dec_val_dec)

lemma not_digit_minus [simp]: "\<not> is_digit CHR ''-''"
  by (simp add: is_digit_def)

lemma hd_dec: "is_digit (hd (dec n))"
  using dec_digits [of n] dec_nonempty [of n] by (cases "dec n") (simp_all del: dec_digits dec_nonempty)

lemma hd_dec_minus: "hd (dec n) \<noteq> CHR ''-''"
  using hd_dec [of n] not_digit_minus by metis

lemma hd_dec_nonzero: "0 < n \<Longrightarrow> hd (dec n) \<noteq> digit 0"
proof (induction n rule: dec.induct)
  case (1 n)
  show ?case
  proof (cases "n < 10")
    case True
    with 1 digit_inj [of n 0] show ?thesis by (subst dec.simps) simp
  next
    case False
    with 1 show ?thesis by (subst dec.simps) simp
  qed
qed

lemma dec_val_bound: "list_all is_digit cs \<Longrightarrow> dec_val cs < 10 ^ length cs"
proof (induction cs rule: rev_induct)
  case Nil
  then show ?case by simp
next
  case (snoc c cs)
  then have "dec_val cs + 1 \<le> 10 ^ length cs" "digit_val c < 10"
    by (auto simp: is_digit_def digit_val_def)
  then show ?case by simp
qed

lemma from_chars_to_string:
  assumes "lo \<le> i" and "i \<le> hi" and "sgnd \<or> 0 \<le> i"
  shows "from_chars sgnd lo hi (to_string i) = Some i"
  using assms hd_dec_minus [of "nat i"] by (auto simp: from_chars_def to_string_def Let_def)

lemma from_chars_range: "from_chars sgnd lo hi s = Some v \<Longrightarrow> lo \<le> v \<and> v \<le> hi"
  by (auto simp: from_chars_def Let_def split: if_splits)

lemma to_string_inj: "to_string i = to_string j \<Longrightarrow> i = j"
proof -
  assume eq: "to_string i = to_string j"
  have "from_chars True (min i j) (max i j) (to_string i) = Some i"
    by (rule from_chars_to_string) simp_all
  moreover have "from_chars True (min i j) (max i j) (to_string j) = Some j"
    by (rule from_chars_to_string) simp_all
  ultimately have "Some i = Some j" by (simp only: eq)
  then show "i = j" by (simp only: option.inject)
qed

end
