(* ===== verification/OI_NetAddr.thy ===== *)
theory OI_NetAddr
  imports OI_Decimal
begin

text \<open>
  Network addresses (cbaselib/net/src/oi_socket.cpp, classes \<open>Ipv4Addr\<close>, \<open>Ipv6Addr\<close> and \<open>NetAddr\<close>).

  An address is its family, the text of the host and the port; the text is the one \<open>inet_ntop\<close> prints, so
  that two equal addresses have one text. The conversions of the operating system are the argument
  \<open>inet\<close>: \<open>pton4\<close> and \<open>pton6\<close> take a text and return the printed form of the address it denotes, if it is
  one. The endpoint text is the key of sessions in the tables of the session manager and the UDP channel;
  \<open>Endpoint_inject\<close> says that it determines the address.
\<close>

section \<open>Addresses\<close>

record inet =
  pton4 :: "string \<Rightarrow> string option"
  pton6 :: "string \<Rightarrow> string option"

datatype NetAddr = AF_UNSPEC | AF_INET string nat | AF_INET6 string nat

definition c_str :: "string \<Rightarrow> string" where
  "c_str s = takeWhile (\<lambda>c. c \<noteq> CHR 0x00) s"

definition StripIpv6Brackets :: "string \<Rightarrow> string" where
  "StripIpv6Brackets s =
     (if length s \<ge> 2 \<and> hd s = CHR ''['' \<and> last s = CHR '']'' then take (length s - 2) (drop 1 s) else s)"

definition Ipv4_Init :: "inet \<Rightarrow> string \<Rightarrow> nat \<Rightarrow> NetAddr option" where
  "Ipv4_Init N sAddress iPort = map_option (\<lambda>h. AF_INET h iPort) (pton4 N (c_str sAddress))"

definition Ipv6_Init :: "inet \<Rightarrow> string \<Rightarrow> nat \<Rightarrow> NetAddr option" where
  "Ipv6_Init N sAddress iPort = map_option (\<lambda>h. AF_INET6 h iPort) (pton6 N (c_str (StripIpv6Brackets sAddress)))"

text \<open>The port number, or \<open>None\<close> where \<open>Fill\<close> sets \<open>bBadPort\<close>.\<close>

definition port_number :: "string \<Rightarrow> nat option" where
  "port_number sPort =
     (case strtol (c_str sPort) of (iPortNumber, rest) \<Rightarrow>
        if sPort = [] \<or> rest \<noteq> [] \<or> iPortNumber < 0 \<or> iPortNumber > 65535 then None
        else Some (nat iPortNumber))"

text \<open>The address that is set, whether it was recognised, and \<open>bBadPort\<close>.\<close>

definition Fill :: "inet \<Rightarrow> string \<Rightarrow> string \<Rightarrow> NetAddr \<times> bool \<times> bool" where
  "Fill N sIp sPort =
     (case port_number sPort of
        None \<Rightarrow> (AF_UNSPEC, False, True)
      | Some p \<Rightarrow> (case Ipv4_Init N sIp p of
            Some a \<Rightarrow> (a, True, False)
          | None \<Rightarrow> (case Ipv6_Init N sIp p of
                Some a \<Rightarrow> (a, True, False)
              | None \<Rightarrow> (AF_UNSPEC, False, False))))"

definition NetAddr_Init :: "inet \<Rightarrow> string \<Rightarrow> string \<Rightarrow> NetAddr \<times> bool" where
  "NetAddr_Init N sIp sPort = (case Fill N sIp sPort of (a, ok, _) \<Rightarrow> (a, ok))"

text \<open>
  An \<open>addrinfo\<close> list or a \<open>sockaddr\<close> as the addresses it holds; entries of other families are
  \<open>AF_UNSPEC\<close>. The first IPv4 address is taken, else the first IPv6 address.
\<close>

fun Ipv4_Find :: "NetAddr list \<Rightarrow> NetAddr option" where
  "Ipv4_Find [] = None"
| "Ipv4_Find (AF_INET h p # l) = Some (AF_INET h p)"
| "Ipv4_Find (_ # l) = Ipv4_Find l"

fun Ipv6_Find :: "NetAddr list \<Rightarrow> NetAddr option" where
  "Ipv6_Find [] = None"
| "Ipv6_Find (AF_INET6 h p # l) = Some (AF_INET6 h p)"
| "Ipv6_Find (_ # l) = Ipv6_Find l"

definition Init_list :: "NetAddr list \<Rightarrow> NetAddr \<times> bool" where
  "Init_list l = (case Ipv4_Find l of
      Some a \<Rightarrow> (a, True)
    | None \<Rightarrow> (case Ipv6_Find l of Some a \<Rightarrow> (a, True) | None \<Rightarrow> (AF_UNSPEC, False)))"

definition Init_sockaddr :: "NetAddr \<Rightarrow> NetAddr \<times> bool" where
  "Init_sockaddr a = (a, a \<noteq> AF_UNSPEC)"

fun Host :: "NetAddr \<Rightarrow> string" where
  "Host (AF_INET h p) = h"
| "Host (AF_INET6 h p) = h"
| "Host AF_UNSPEC = []"

fun Port :: "NetAddr \<Rightarrow> nat" where
  "Port (AF_INET h p) = p"
| "Port (AF_INET6 h p) = p"
| "Port AF_UNSPEC = 0"

definition Ipv4_Endpoint :: "string \<Rightarrow> nat \<Rightarrow> string" where
  "Ipv4_Endpoint h p = (if h = [] then [] else h @ '':'' @ to_string (int p))"

definition Ipv6_Endpoint :: "string \<Rightarrow> nat \<Rightarrow> string" where
  "Ipv6_Endpoint h p = (if h = [] then [] else ''['' @ h @ '']:'' @ to_string (int p))"

fun Endpoint :: "NetAddr \<Rightarrow> string" where
  "Endpoint (AF_INET h p) = Ipv4_Endpoint h p"
| "Endpoint (AF_INET6 h p) = Ipv6_Endpoint h p"
| "Endpoint AF_UNSPEC = []"

definition Endpoint_text :: "inet \<Rightarrow> string \<Rightarrow> string \<Rightarrow> string" where
  "Endpoint_text N sIp sPort = (case Fill N sIp sPort of
      (a, True, _) \<Rightarrow> Endpoint a
    | (_, False, _) \<Rightarrow> sIp @ '':'' @ sPort)"

fun IsUnspecified :: "NetAddr \<Rightarrow> bool" where
  "IsUnspecified (AF_INET h p) = (h = ''0.0.0.0'')"
| "IsUnspecified (AF_INET6 h p) = (h = ''::'')"
| "IsUnspecified AF_UNSPEC = False"

text \<open>
  \<open>OnResolve\<close>: the answer of \<open>getaddrinfo\<close> (\<open>None\<close> when its status is not 0) is printed and read again
  with the configured port.
\<close>

definition OnResolve :: "inet \<Rightarrow> string \<Rightarrow> NetAddr list option \<Rightarrow> bool \<times> NetAddr" where
  "OnResolve N sPort response = (case response of
      None \<Rightarrow> (False, AF_UNSPEC)
    | Some l \<Rightarrow> (case Init_list l of
          (a, False) \<Rightarrow> (False, a)
        | (a, True) \<Rightarrow>
            if Host a = [] then (False, a)
            else (case NetAddr_Init N (Host a) sPort of (b, ok) \<Rightarrow> (ok, b))))"

section \<open>Lemmas\<close>

lemma digit_not_special: "is_digit c \<Longrightarrow> c \<noteq> CHR ''-'' \<and> c \<noteq> CHR ''+'' \<and> c \<noteq> CHR 0x00 \<and> \<not> is_space c \<and> c \<noteq> CHR '':''"
  by (auto simp: is_digit_def is_space_def)

lemma dec_not_Nil [simp]: "dec n \<noteq> []"
  by (subst dec.simps) simp

lemma dec_set: "c \<in> set (dec n) \<Longrightarrow> is_digit c"
  using dec_digits [of n] by (simp add: list_all_iff)

lemma c_str_dec [simp]: "c_str (dec n) = dec n"
  unfolding c_str_def by (rule takeWhile_eq_all_conv [THEN iffD2]) (use dec_set digit_not_special in blast)

lemma strtol_dec: "strtol (dec n) = (min 9223372036854775807 (int n), [])"
proof -
  have d: "\<forall>c \<in> set (dec n). is_digit c" using dec_set by blast
  have h: "is_digit (hd (dec n))" using d by simp
  then have "dropWhile is_space (dec n) = dec n"
    using digit_not_special by (cases "dec n") auto
  moreover have "takeWhile is_digit (dec n) = dec n" "dropWhile is_digit (dec n) = []"
    using d by (simp_all only: takeWhile_eq_all_conv dropWhile_eq_Nil_conv)
  ultimately show ?thesis
    using digit_not_special [OF h] by (simp add: strtol_def Let_def del: takeWhile_eq_all_conv)
qed

lemma port_number_dec [simp]: "p \<le> 65535 \<Longrightarrow> port_number (to_string (int p)) = Some p"
  by (simp add: port_number_def to_string_def strtol_dec)

lemma port_number_range: "port_number s = Some p \<Longrightarrow> p \<le> 65535"
  by (auto simp: port_number_def split: prod.splits if_splits)

text \<open>The text after the last colon is the port, and what is before it the host.\<close>

lemma colon_split:
  assumes "CHR '':'' \<notin> set p" and "CHR '':'' \<notin> set q" and "h @ CHR '':'' # p = k @ CHR '':'' # q"
  shows "h = k \<and> p = q"
proof -
  have "takeWhile (\<lambda>c. c \<noteq> CHR '':'') (rev p @ CHR '':'' # rev h) = rev p" using assms(1) by (simp add: takeWhile_append)
  moreover have "takeWhile (\<lambda>c. c \<noteq> CHR '':'') (rev q @ CHR '':'' # rev k) = rev q" using assms(2) by (simp add: takeWhile_append)
  moreover have "rev p @ CHR '':'' # rev h = rev q @ CHR '':'' # rev k" using arg_cong [OF assms(3), of rev] by simp
  ultimately show ?thesis by simp
qed

lemma dec_no_colon [simp]: "CHR '':'' \<notin> set (dec n)"
  using dec_set digit_not_special by blast

text \<open>What \<open>inet_ntop\<close> prints: no text of an IPv4 address begins with a bracket.\<close>

fun printed :: "NetAddr \<Rightarrow> bool" where
  "printed (AF_INET h p) \<longleftrightarrow> h \<noteq> [] \<and> hd h \<noteq> CHR ''['' \<and> p \<le> 65535"
| "printed (AF_INET6 h p) \<longleftrightarrow> h \<noteq> [] \<and> p \<le> 65535"
| "printed AF_UNSPEC \<longleftrightarrow> False"

lemma v4_v6_differ: "h \<noteq> [] \<Longrightarrow> hd h \<noteq> c \<Longrightarrow> h @ s \<noteq> c # t"
  by (cases h) auto

text \<open>
  The endpoint text determines the address, so that a table of sessions by endpoint never mixes two
  peers.
\<close>

lemma Endpoint_inject:
  assumes "printed a" and "printed b"
  shows "Endpoint a = Endpoint b \<longleftrightarrow> a = b"
proof
  assume e: "Endpoint a = Endpoint b"
  show "a = b"
  proof (cases a; cases b)
    fix h p k q assume "a = AF_INET h p" "b = AF_INET k q"
    with e assms show ?thesis
      by (auto simp: Ipv4_Endpoint_def to_string_def dec_inj dest: colon_split [OF dec_no_colon dec_no_colon])
  next
    fix h p k q assume "a = AF_INET6 h p" "b = AF_INET6 k q"
    with e assms show ?thesis
      using colon_split [OF dec_no_colon dec_no_colon, of "h @ '']''" p "k @ '']''" q]
      by (auto simp: Ipv6_Endpoint_def to_string_def dec_inj)
  next
    fix h p k q assume "a = AF_INET h p" "b = AF_INET6 k q"
    with e assms show ?thesis by (simp add: Ipv4_Endpoint_def Ipv6_Endpoint_def v4_v6_differ)
  next
    fix h p k q assume "a = AF_INET6 h p" "b = AF_INET k q"
    with e assms show ?thesis by (simp add: Ipv4_Endpoint_def Ipv6_Endpoint_def v4_v6_differ [symmetric])
  qed (use assms in simp_all)
qed simp

lemma Endpoint_printed [simp]: "printed a \<Longrightarrow> Endpoint a \<noteq> []"
  by (cases a) (simp_all add: Ipv4_Endpoint_def Ipv6_Endpoint_def)

lemma Fill_port: "Fill N h s = (a, True, b) \<Longrightarrow> Port a \<le> 65535 \<and> a \<noteq> AF_UNSPEC"
  by (auto simp: Fill_def Ipv4_Init_def Ipv6_Init_def dest: port_number_range split: option.splits)

lemma Fill_bad_port: "Fill N h s = (a, ok, True) \<longleftrightarrow> a = AF_UNSPEC \<and> \<not> ok \<and> port_number s = None"
  by (auto simp: Fill_def split: option.splits)

text \<open>Of the answers of the name service an IPv4 address is preferred wherever it stands.\<close>

lemma Init_list_prefers_v4:
  "AF_INET h p \<in> set l \<Longrightarrow> \<exists>h' p'. Init_list l = (AF_INET h' p', True) \<and> AF_INET h' p' \<in> set l"
proof -
  have "AF_INET h p \<in> set l \<Longrightarrow> \<exists>h' p'. Ipv4_Find l = Some (AF_INET h' p') \<and> AF_INET h' p' \<in> set l"
    by (induction l rule: Ipv4_Find.induct) auto
  then show "AF_INET h p \<in> set l \<Longrightarrow> ?thesis" by (auto simp: Init_list_def)
qed

end
