(* ===== verification/OI_Manager.thy ===== *)
theory OI_Manager
  imports OI_NetAddr OI_Session
begin

text \<open>
  The session manager (cbaselib/net/src/oi_session_manager.cpp) with the connecting channel
  (oi_connect_channel.cpp, oi_net_helper.cpp) and the destruction of channels (oi_net_channel.cpp): the
  table of sessions by number, and the attempts to connect with the coroutines that wait for them.

  Connecting runs on the poll thread. An attempt has a generation and is either a name that is being
  resolved (\<open>jobs\<close>) or a socket that is being connected (\<open>conns\<close>). What the operating system answers and
  what the overridden methods do is an argument: a \<open>plan\<close> says for one call of \<open>StartClient\<close> whether the
  name service takes the request, how \<open>connect\<close> ends and what the method that is called in the end
  (\<open>OnAddSession\<close> or \<open>OnConnectFailed\<close>) does, which may start the next attempt before the call returns. Other
  threads run critical sections: posting a request to the poll thread, suspending on an awaiter, sending.

  \<open>fault\<close> records that an object was used after it was freed or that an assertion failed; the theorems say
  that this never happens. \<open>suspended\<close> and \<open>ready\<close> are the coroutines
  that were suspended and that were handed to the scheduler, \<open>closed_fds\<close> the descriptors
  that were closed, \<open>added\<close> and \<open>deleted\<close> the sessions for which \<open>OnAddSession\<close> and \<open>OnDelSession\<close> were called.
\<close>

section \<open>State\<close>

datatype SESSION_TYPE = SESSION_TYPE_INVALID | SESSION_TYPE_TCP | SESSION_TYPE_UDP

text \<open>
  The shared object of an awaiter and its request to the poll thread; it exists while one of the two
  holds it. \<open>vWaiters\<close> are the suspended coroutines.
\<close>

record ConnectWait =
  bDone :: bool
  bResult :: bool
  vWaiters :: "nat list"
  wAwaiter :: bool
  wRequest :: bool

text \<open>A session as far as the manager deals with it; the channel holds one reference.\<close>

record msession =
  se_endpoint :: string
  se_fd :: int
  se_closed :: bool
  se_error :: int
  se_channel :: bool
  se_refs :: nat

record mgr =
  m_vConnectWaiters :: "nat list"
  iConnectGeneration :: nat
  bConnectPending :: bool
  bServiceDown :: bool
  bServiceSeen :: bool
  sIpAddress :: string
  sPort :: string
  sEndpoint :: string
  sServiceName :: string
  iSessionType :: SESSION_TYPE
  mSessionMap :: "int list"
  iCurrentSessionId :: int
  objs :: "int \<Rightarrow> msession option"
  holders :: "int list"
  waits :: "ConnectWait list"
  posted :: "nat list"
  jobs :: "nat list"
  conns :: "nat list"
  suspended :: "nat list"
  ready :: "nat list"
  closed_fds :: "int list"
  added :: "int list"
  deleted :: "int list"
  stop_requested :: bool
  fault :: bool

definition SessionManager :: "string \<Rightarrow> string \<Rightarrow> string \<Rightarrow> string \<Rightarrow> mgr" where
  "SessionManager ip port service endpoint = \<lparr>m_vConnectWaiters = [], iConnectGeneration = 0, bConnectPending = False,
    bServiceDown = False, bServiceSeen = False, sIpAddress = ip, sPort = port, sEndpoint = endpoint, sServiceName = service,
    iSessionType = SESSION_TYPE_TCP, mSessionMap = [], iCurrentSessionId = 0, objs = (\<lambda>_. None), holders = [],
    waits = [], posted = [], jobs = [], conns = [], suspended = [], ready = [], closed_fds = [], added = [], deleted = [],
    stop_requested = False, fault = False\<rparr>"

section \<open>Limits\<close>

record limits =
  mgrMaxSendQueueBytes :: nat
  mgrMaxReceiveBufferBytes :: nat
  mgrMaxFrameBytes :: nat
  mgrIncompleteFrameTimeout :: nat
  mgrIdleTimeout :: nat

definition conf :: "(string \<Rightarrow> int option) \<Rightarrow> string \<Rightarrow> int \<Rightarrow> int" where
  "conf cfg key d = (case cfg key of None \<Rightarrow> d | Some v \<Rightarrow> v)"

text \<open>The part of \<open>SessionManager::Init\<close> that reads and checks the limits.\<close>

definition Init_limits :: "(string \<Rightarrow> int option) \<Rightarrow> string \<Rightarrow> limits option" where
  "Init_limits cfg sId =
    (let iSendLimit = conf cfg (sId @ ''.max_send_queue_bytes'') 67108864;
         iReceiveLimit = conf cfg (sId @ ''.max_receive_buffer_bytes'') 67108872;
         iFrameLimit = conf cfg (sId @ ''.max_frame_bytes'') 67108864;
         iFrameTimeout = conf cfg (sId @ ''.incomplete_frame_timeout_ms'') 10000;
         iIdleTimeout = conf cfg (sId @ ''.idle_timeout_ms'') 60000
     in if iSendLimit \<le> 0 \<or> iSendLimit > int SIZE_MAX then None
        else if iFrameLimit < 8 \<or> iFrameLimit > int INT32_MAX \<or> iReceiveLimit < iFrameLimit + 8
          \<or> iReceiveLimit > int SIZE_MAX \<or> iFrameTimeout \<le> 0 \<or> iIdleTimeout \<le> 0 then None
        else Some \<lparr>mgrMaxSendQueueBytes = nat iSendLimit, mgrMaxReceiveBufferBytes = nat iReceiveLimit,
          mgrMaxFrameBytes = nat iFrameLimit, mgrIncompleteFrameTimeout = nat iFrameTimeout, mgrIdleTimeout = nat iIdleTimeout\<rparr>)"

definition GetSessionTypeByString :: "string \<Rightarrow> SESSION_TYPE" where
  "GetSessionTypeByString sType = (if sType = ''tcp'' then SESSION_TYPE_TCP else if sType = ''udp'' then SESSION_TYPE_UDP
     else SESSION_TYPE_INVALID)"

section \<open>Coroutines that wait for a connection\<close>

text \<open>\<open>ConnectWait::Finish\<close>; \<open>lock\<close> of a weak pointer succeeds while there is a strong one.\<close>

definition Finish :: "bool \<Rightarrow> nat \<Rightarrow> mgr \<Rightarrow> mgr" where
  "Finish r w m =
    (if w < length (waits m) then
       let c = waits m ! w
       in if bDone c then m
          else m\<lparr>waits := (waits m)[w := c\<lparr>bDone := True, bResult := r, vWaiters := []\<rparr>], ready := ready m @ vWaiters c\<rparr>
     else m\<lparr>fault := True\<rparr>)"

definition expired :: "mgr \<Rightarrow> nat \<Rightarrow> bool" where
  "expired m w \<longleftrightarrow> \<not> wAwaiter (waits m ! w) \<and> \<not> wRequest (waits m ! w)"

definition finish_weak :: "bool \<Rightarrow> nat \<Rightarrow> mgr \<Rightarrow> mgr" where
  "finish_weak r w m = (if expired m w then m else Finish r w m)"

definition finish_all :: "bool \<Rightarrow> nat list \<Rightarrow> mgr \<Rightarrow> mgr" where
  "finish_all r ws m = fold (finish_weak r) ws m"

definition FinishConnectWaiters :: "bool \<Rightarrow> mgr \<Rightarrow> mgr" where
  "FinishConnectWaiters r m = finish_all r (m_vConnectWaiters m) (m\<lparr>m_vConnectWaiters := []\<rparr>)"

text \<open>\<open>ConnectAwaiter::Suspend\<close>: whether the coroutine is suspended.\<close>

definition Suspend :: "nat \<Rightarrow> nat \<Rightarrow> mgr \<Rightarrow> bool \<times> mgr" where
  "Suspend w h m =
    (let c = waits m ! w
     in if bDone c then (False, m)
        else (True, m\<lparr>waits := (waits m)[w := c\<lparr>vWaiters := vWaiters c @ [h]\<rparr>], suspended := suspended m @ [h]\<rparr>))"

definition hold_request :: "bool \<Rightarrow> nat \<Rightarrow> mgr \<Rightarrow> mgr" where
  "hold_request b w m = m\<lparr>waits := (waits m)[w := (waits m ! w)\<lparr>wRequest := b\<rparr>]\<rparr>"

definition drop_awaiter :: "nat \<Rightarrow> mgr \<Rightarrow> mgr" where
  "drop_awaiter w m = m\<lparr>waits := (waits m)[w := (waits m ! w)\<lparr>wAwaiter := False\<rparr>]\<rparr>"

text \<open>\<open>make_shared\<close>: a new object, held by the awaiter.\<close>

definition new_wait :: "mgr \<Rightarrow> nat \<times> mgr" where
  "new_wait m = (length (waits m), m\<lparr>waits := waits m @
     [\<lparr>bDone = False, bResult = False, vWaiters = [], wAwaiter = True, wRequest = False\<rparr>]\<rparr>)"

section \<open>The table of sessions\<close>

definition DefaultInit :: "string \<Rightarrow> string \<Rightarrow> mgr \<Rightarrow> mgr" where
  "DefaultInit ip port m = m\<lparr>sIpAddress := ip, sPort := port\<rparr>"

definition session_at :: "string \<Rightarrow> mgr \<Rightarrow> int \<Rightarrow> bool" where
  "session_at e m sid \<longleftrightarrow> (case objs m sid of None \<Rightarrow> False | Some s \<Rightarrow> se_endpoint s = e)"

definition HasEndpoint :: "string \<Rightarrow> mgr \<Rightarrow> bool" where
  "HasEndpoint e m \<longleftrightarrow> list_ex (session_at e m) (mSessionMap m)"

text \<open>\<open>NetSession::Close\<close> on the session as the manager sees it.\<close>

definition close_obj :: "int \<Rightarrow> msession \<Rightarrow> msession" where
  "close_obj err s = (if se_closed s then s else s\<lparr>se_closed := True, se_error := err\<rparr>)"

definition on_obj :: "int \<Rightarrow> (msession \<Rightarrow> msession) \<Rightarrow> mgr \<Rightarrow> mgr" where
  "on_obj sid f m = (case objs m sid of
      None \<Rightarrow> m\<lparr>fault := True\<rparr>
    | Some s \<Rightarrow> m\<lparr>objs := (objs m)(sid \<mapsto> f s)\<rparr>)"

text \<open>The call of \<open>OnSessionClosed\<close> ends the remote calls of the session; it does not touch this state.\<close>

definition CloseSession :: "int \<Rightarrow> mgr \<Rightarrow> mgr" where
  "CloseSession sid m =
    (if sid \<in> set (mSessionMap m)
     then on_obj sid (close_obj SESSION_MANAGER_NORMAL_CLOSE) (m\<lparr>mSessionMap := removeAll sid (mSessionMap m)\<rparr>)
     else m)"

definition CloseEndpoint :: "string \<Rightarrow> mgr \<Rightarrow> mgr" where
  "CloseEndpoint e m = (if e = [] then m else fold CloseSession (filter (session_at e m) (mSessionMap m)) m)"

definition CloseAllSessions :: "mgr \<Rightarrow> mgr" where
  "CloseAllSessions m = fold CloseSession (mSessionMap m) m"

text \<open>\<open>NetSession::PassiveClose\<close>, called by the channel on the poll thread.\<close>

definition session_PassiveClose :: "int \<Rightarrow> int \<Rightarrow> mgr \<Rightarrow> mgr" where
  "session_PassiveClose err sid m =
    (let m1 = on_obj sid (close_obj err) m
     in if err \<noteq> SESSION_MANAGER_NORMAL_CLOSE then CloseSession sid m1 else m1)"

text \<open>
  \<open>AddSession\<close> of a new descriptor: a session with its channel enters the table under the next number.
  The number is an \<open>int\<close>; it is never exhausted in practice.
\<close>

definition AddSession :: "inet \<Rightarrow> (mgr \<Rightarrow> mgr) \<Rightarrow> int \<Rightarrow> mgr \<Rightarrow> mgr" where
  "AddSession N OnAdd fd m =
    (let sid = iCurrentSessionId m + 1
     in OnAdd (m\<lparr>iCurrentSessionId := sid, mSessionMap := mSessionMap m @ [sid],
         objs := (objs m)(sid \<mapsto> \<lparr>se_endpoint = Endpoint_text N (sIpAddress m) (sPort m), se_fd = fd, se_closed = False,
           se_error = 0, se_channel = True, se_refs = 1\<rparr>), added := added m @ [sid]\<rparr>))"

text \<open>References: the last one deletes the session.\<close>

definition Release :: "int \<Rightarrow> mgr \<Rightarrow> mgr" where
  "Release sid m = (case objs m sid of
      None \<Rightarrow> m\<lparr>fault := True\<rparr>
    | Some s \<Rightarrow> if se_refs s = 1 then m\<lparr>objs := (objs m)(sid := None)\<rparr>
                else m\<lparr>objs := (objs m)(sid \<mapsto> s\<lparr>se_refs := se_refs s - 1\<rparr>)\<rparr>)"

definition DelSession :: "int \<Rightarrow> mgr \<Rightarrow> mgr" where
  "DelSession sid m = (if sid \<in> set (mSessionMap m) then m\<lparr>fault := True\<rparr> else m\<lparr>deleted := deleted m @ [sid]\<rparr>)"

text \<open>
  \<open>NetChannel::TryClose\<close> and \<open>Destroy\<close>, called by the poll loop as long as the channel exists. The
  destructor of the channel closes the descriptor.
\<close>

definition Channel_TryClose :: "int \<Rightarrow> mgr \<Rightarrow> mgr" where
  "Channel_TryClose sid m = (case objs m sid of
      None \<Rightarrow> m\<lparr>fault := True\<rparr>
    | Some s \<Rightarrow>
        if se_closed s
        then Release sid (DelSession sid (on_obj sid (\<lambda>s. s\<lparr>se_channel := False\<rparr>) (m\<lparr>closed_fds := closed_fds m @ [se_fd s]\<rparr>)))
        else m)"

text \<open>
  \<open>SendBytesResult\<close> takes a reference under the manager's lock, sends without it and gives the reference
  back; the two parts are separate steps of the sending thread. The session numbers with such a reference
  are \<open>holders\<close>.
\<close>

definition send_begin :: "int \<Rightarrow> mgr \<Rightarrow> int \<times> mgr" where
  "send_begin sid m =
    (if sid \<notin> set (mSessionMap m) then (OI_ERR_CONNECT, m)
     else (OI_OK, (on_obj sid (\<lambda>s. s\<lparr>se_refs := se_refs s + 1\<rparr>) m)\<lparr>holders := holders m @ [sid]\<rparr>))"

definition send_end :: "int \<Rightarrow> mgr \<Rightarrow> mgr" where
  "send_end sid m = Release sid (m\<lparr>holders := remove1 sid (holders m)\<rparr>)"

section \<open>Connecting\<close>

datatype connect_out = NoSocket | Refused | InProgress | Connected int

definition CompleteConnect :: "inet \<Rightarrow> (mgr \<Rightarrow> mgr) \<Rightarrow> int \<Rightarrow> nat \<Rightarrow> mgr \<Rightarrow> mgr" where
  "CompleteConnect N OnAdd fd iGeneration m =
    (if iGeneration \<noteq> iConnectGeneration m \<or> \<not> bConnectPending m \<or> bServiceDown m
     then m\<lparr>closed_fds := closed_fds m @ [fd]\<rparr>
     else finish_all True (m_vConnectWaiters m)
       (AddSession N OnAdd fd (m\<lparr>m_vConnectWaiters := [], bConnectPending := False\<rparr>)))"

definition AbortSession :: "(mgr \<Rightarrow> mgr) \<Rightarrow> nat \<Rightarrow> mgr \<Rightarrow> mgr" where
  "AbortSession OnFailed iGeneration m =
    (if iGeneration \<noteq> iConnectGeneration m \<or> \<not> bConnectPending m then m
     else OnFailed ((FinishConnectWaiters False (m\<lparr>bConnectPending := False\<rparr>))
       \<lparr>iCurrentSessionId := iCurrentSessionId m + 1\<rparr>))"

definition CancelConnect :: "mgr \<Rightarrow> mgr" where
  "CancelConnect m =
    (if \<not> bConnectPending m then m
     else FinishConnectWaiters False (m\<lparr>iConnectGeneration := iConnectGeneration m + 1, bConnectPending := False\<rparr>))"

text \<open>
  \<open>ConnectChannel::StartConnect\<close> with \<open>CreateSocket\<close> and \<open>SocketConnect\<close>: whether it succeeded. A connection
  in progress has a channel with the current generation.
\<close>

definition StartTcpConnect :: "inet \<Rightarrow> (mgr \<Rightarrow> mgr) \<Rightarrow> connect_out \<Rightarrow> mgr \<Rightarrow> bool \<times> mgr" where
  "StartTcpConnect N hook out m =
    (if iSessionType m \<noteq> SESSION_TYPE_TCP then (False, m)
     else case out of
        NoSocket \<Rightarrow> (False, m)
      | Refused \<Rightarrow> (False, AbortSession hook (iConnectGeneration m) m)
      | InProgress \<Rightarrow> (True, m\<lparr>conns := iConnectGeneration m # conns m\<rparr>)
      | Connected fd \<Rightarrow> (True, CompleteConnect N hook fd (iConnectGeneration m) m))"

definition OnResolved :: "inet \<Rightarrow> (mgr \<Rightarrow> mgr) \<Rightarrow> connect_out \<Rightarrow> nat \<Rightarrow> bool \<Rightarrow> NetAddr \<Rightarrow> mgr \<Rightarrow> mgr" where
  "OnResolved N hook out iGeneration bOk stAddr m =
    (if iGeneration \<noteq> iConnectGeneration m \<or> \<not> bConnectPending m then m
     else if bServiceDown m \<or> \<not> bOk \<or> Host stAddr = [] then AbortSession hook iGeneration m
     else let m1 = (DefaultInit (Host stAddr) (sPort m) m)\<lparr>sEndpoint := Endpoint stAddr\<rparr>
       in if HasEndpoint (sEndpoint m1) m1
          then FinishConnectWaiters True (m1\<lparr>bConnectPending := False\<rparr>)
          else case StartTcpConnect N hook out m1 of
              (True, m2) \<Rightarrow> m2
            | (False, m2) \<Rightarrow> AbortSession hook iGeneration m2)"

text \<open>\<open>NetAddr::Resolve\<close>: a literal address is answered at once, a name goes to the name service.\<close>

definition Resolve :: "inet \<Rightarrow> (mgr \<Rightarrow> mgr) \<Rightarrow> bool \<Rightarrow> connect_out \<Rightarrow> nat \<Rightarrow> mgr \<Rightarrow> mgr" where
  "Resolve N hook taken out iGeneration m = (case Fill N (sIpAddress m) (sPort m) of
      (a, True, _) \<Rightarrow> OnResolved N hook out iGeneration True a m
    | (_, False, True) \<Rightarrow> OnResolved N hook out iGeneration False AF_UNSPEC m
    | (_, False, False) \<Rightarrow>
        if taken then m\<lparr>jobs := iGeneration # jobs m\<rparr> else OnResolved N hook out iGeneration False AF_UNSPEC m)"

fun pop_expired :: "mgr \<Rightarrow> nat list \<Rightarrow> nat list" where
  "pop_expired m [] = []"
| "pop_expired m (w # ws) = (if expired m w then pop_expired m ws else w # ws)"

definition start_connect :: "inet \<Rightarrow> (mgr \<Rightarrow> mgr) \<Rightarrow> bool \<Rightarrow> connect_out \<Rightarrow> nat \<Rightarrow> mgr \<Rightarrow> mgr" where
  "start_connect N hook taken out w m =
    (if stop_requested m \<or> bServiceDown m then Finish False w m
     else if \<not> bConnectPending m \<and> HasEndpoint (Endpoint_text N (sIpAddress m) (sPort m)) m then Finish True w m
     else let m1 = m\<lparr>m_vConnectWaiters := rev (pop_expired m (rev (m_vConnectWaiters m))) @ [w]\<rparr>
       in if bConnectPending m1 then m1
          else let m2 = m1\<lparr>bConnectPending := True, iConnectGeneration := iConnectGeneration m1 + 1\<rparr>
            in Resolve N hook taken out (iConnectGeneration m2) m2)"

text \<open>What an overridden method does: its calls, each attempt with its plan.\<close>

datatype plan = Plan bool connect_out "hook list"
and hook = HStart plan | HClose int | HInit string string | HCancel | HCloseAll

text \<open>
  \<open>StartClient\<close> on the poll thread: the awaiter and the request hold the new object while
  \<open>StartConnect\<close> runs.
\<close>

fun StartConnect :: "inet \<Rightarrow> plan \<Rightarrow> nat \<Rightarrow> mgr \<Rightarrow> mgr"
and run_hook :: "inet \<Rightarrow> hook list \<Rightarrow> mgr \<Rightarrow> mgr" where
  "StartConnect N (Plan taken out hs) w m = start_connect N (run_hook N hs) taken out w m"
| "run_hook N [] m = m"
| "run_hook N (HStart p # hs) m = (case new_wait m of (w, m1) \<Rightarrow>
     run_hook N hs (if stop_requested m1 then Finish False w m1
       else hold_request False w (StartConnect N p w (hold_request True w m1))))"
| "run_hook N (HClose sid # hs) m = run_hook N hs (CloseSession sid m)"
| "run_hook N (HInit ip port # hs) m = run_hook N hs (DefaultInit ip port m)"
| "run_hook N (HCancel # hs) m = run_hook N hs (CancelConnect m)"
| "run_hook N (HCloseAll # hs) m = run_hook N hs (CloseAllSessions m)"

text \<open>
  \<open>BeginConnect\<close>: on the poll thread the request runs at once, from another thread it is posted.
\<close>

definition StartClient :: "inet \<Rightarrow> bool \<Rightarrow> plan \<Rightarrow> mgr \<Rightarrow> mgr" where
  "StartClient N in_loop p m = (case new_wait m of (w, m1) \<Rightarrow>
     if stop_requested m1 then Finish False w m1
     else let m2 = hold_request True w m1
       in if in_loop then hold_request False w (StartConnect N p w m2) else m2\<lparr>posted := posted m2 @ [w]\<rparr>)"

text \<open>The answers of \<open>getsockopt (SO_ERROR)\<close> and \<open>dup\<close> on a connecting socket.\<close>

datatype sock_error = StillConnecting | Failed | DupFailed | Established int

text \<open>\<open>CheckTcpConnect\<close>: whether the attempt is over.\<close>

definition CheckTcpConnect :: "inet \<Rightarrow> (mgr \<Rightarrow> mgr) \<Rightarrow> sock_error \<Rightarrow> nat \<Rightarrow> mgr \<Rightarrow> bool \<times> mgr" where
  "CheckTcpConnect N hook e g m = (case e of
      StillConnecting \<Rightarrow> (False, m)
    | Failed \<Rightarrow> (True, AbortSession hook g m)
    | DupFailed \<Rightarrow> (True, AbortSession hook g m)
    | Established fd \<Rightarrow> (True, CompleteConnect N hook fd g m))"

text \<open>
  \<open>DataOut\<close> and \<open>DataIn\<close> of the connecting channel of generation \<open>g\<close>, each followed by \<open>TryClose\<close>, which
  removes the channel once the attempt is over.
\<close>

definition Connect_DataOut :: "inet \<Rightarrow> (mgr \<Rightarrow> mgr) \<Rightarrow> sock_error \<Rightarrow> nat \<Rightarrow> mgr \<Rightarrow> mgr" where
  "Connect_DataOut N hook e g m =
    (case CheckTcpConnect N hook e g (m\<lparr>conns := remove1 g (conns m)\<rparr>) of
       (True, m1) \<Rightarrow> m1
     | (False, _) \<Rightarrow> m)"

definition Connect_DataIn :: "inet \<Rightarrow> (mgr \<Rightarrow> mgr) \<Rightarrow> sock_error \<Rightarrow> nat \<Rightarrow> mgr \<Rightarrow> mgr" where
  "Connect_DataIn N hook e g m =
    (case CheckTcpConnect N hook e g (m\<lparr>conns := remove1 g (conns m)\<rparr>) of
       (True, m1) \<Rightarrow> m1
     | (False, m1) \<Rightarrow> AbortSession hook g m1)"

section \<open>Changes of the service list\<close>

definition ApplyService :: "inet \<Rightarrow> (mgr \<Rightarrow> mgr) \<Rightarrow> plan \<Rightarrow> string \<Rightarrow> string \<Rightarrow> bool \<Rightarrow> mgr \<Rightarrow> mgr" where
  "ApplyService N OnDown p ip port bOnline m =
    (if sServiceName m = [] then m
     else if \<not> bOnline then
       if \<not> bServiceSeen m \<or> bServiceDown m then m
       else let m1 = FinishConnectWaiters False m;
                m2 = m1\<lparr>iConnectGeneration := iConnectGeneration m1 + 1, bConnectPending := False, bServiceDown := True, sEndpoint := []\<rparr>
         in OnDown (CloseEndpoint (sEndpoint m1) m2)
     else let e = Endpoint_text N ip port; bWasDown = bServiceDown m; bMoved = (sEndpoint m \<noteq> e);
              m0 = m\<lparr>bServiceSeen := True\<rparr>
       in if \<not> bWasDown \<and> \<not> bMoved then m0
          else let m1 = FinishConnectWaiters False m0;
                   m2 = DefaultInit ip port (m1\<lparr>iConnectGeneration := iConnectGeneration m1 + 1, bConnectPending := False,
                     bServiceDown := False, sEndpoint := e\<rparr>);
                   m3 = (if sEndpoint m1 \<noteq> [] \<and> sEndpoint m1 \<noteq> e then CloseEndpoint (sEndpoint m1) m2 else m2)
            in if \<not> HasEndpoint e m3 then StartClient N True p m3 else m3)"

section \<open>Events\<close>

text \<open>
  What can happen: calls of the application on the poll thread or on another thread, requests that were
  posted, answers of the name service, events of sockets, a new accepted connection, and the steps of
  sending threads. A plan or a list of hooks says what the methods called on the way do.
\<close>

datatype mgr_event =
    EvStartClient bool plan
  | EvLoop plan
  | EvSuspend nat nat
  | EvDropAwaiter nat
  | EvResolved nat "NetAddr list option" connect_out "hook list"
  | EvConnectOut nat sock_error "hook list"
  | EvConnectIn nat sock_error "hook list"
  | EvService string string bool plan "hook list"
  | EvCalls "hook list"
  | EvAccept int "hook list"
  | EvPassiveClose int int
  | EvTryClose int
  | EvSendBegin int
  | EvSendEnd int
  | EvStop

fun mgr_step :: "inet \<Rightarrow> mgr_event \<Rightarrow> mgr \<Rightarrow> mgr" where
  "mgr_step N (EvStartClient in_loop p) m = StartClient N in_loop p m"
| "mgr_step N (EvLoop p) m = (case posted m of [] \<Rightarrow> m
     | w # ws \<Rightarrow> hold_request False w (StartConnect N p w (m\<lparr>posted := ws\<rparr>)))"
| "mgr_step N (EvSuspend w h) m = snd (Suspend w h m)"
| "mgr_step N (EvDropAwaiter w) m = drop_awaiter w m"
| "mgr_step N (EvResolved g l out hs) m = (case OnResolve N (sPort m) l of
     (ok, a) \<Rightarrow> OnResolved N (run_hook N hs) out g ok a (m\<lparr>jobs := remove1 g (jobs m)\<rparr>))"
| "mgr_step N (EvConnectOut g e hs) m = Connect_DataOut N (run_hook N hs) e g m"
| "mgr_step N (EvConnectIn g e hs) m = Connect_DataIn N (run_hook N hs) e g m"
| "mgr_step N (EvService ip port b p hs) m = ApplyService N (run_hook N hs) p ip port b m"
| "mgr_step N (EvCalls hs) m = run_hook N hs m"
| "mgr_step N (EvAccept fd hs) m = AddSession N (run_hook N hs) fd m"
| "mgr_step N (EvPassiveClose err sid) m = session_PassiveClose err sid m"
| "mgr_step N (EvTryClose sid) m = Channel_TryClose sid m"
| "mgr_step N (EvSendBegin sid) m = snd (send_begin sid m)"
| "mgr_step N (EvSendEnd sid) m = send_end sid m"
| "mgr_step N EvStop m = m\<lparr>stop_requested := True\<rparr>"

text \<open>
  When an event can occur: a coroutine suspends on an awaiter that exists, an awaiter is not destroyed
  while a coroutine is suspended on it, answers belong to attempts that are under way, and the poll loop
  serves channels that exist. \<open>PassiveClose\<close> is not called with the code of a normal close.
\<close>

fun mgr_can :: "mgr_event \<Rightarrow> mgr \<Rightarrow> bool" where
  "mgr_can (EvSuspend w h) m \<longleftrightarrow> w < length (waits m) \<and> wAwaiter (waits m ! w)"
| "mgr_can (EvDropAwaiter w) m \<longleftrightarrow> w < length (waits m) \<and> vWaiters (waits m ! w) = []"
| "mgr_can (EvResolved g l out hs) m \<longleftrightarrow> g \<in> set (jobs m)"
| "mgr_can (EvConnectOut g e hs) m \<longleftrightarrow> g \<in> set (conns m)"
| "mgr_can (EvConnectIn g e hs) m \<longleftrightarrow> g \<in> set (conns m)"
| "mgr_can (EvPassiveClose err sid) m \<longleftrightarrow> err \<noteq> SESSION_MANAGER_NORMAL_CLOSE \<and> (\<exists>s \<in> set_option (objs m sid). se_channel s)"
| "mgr_can (EvTryClose sid) m \<longleftrightarrow> (\<exists>s \<in> set_option (objs m sid). se_channel s)"
| "mgr_can (EvSendEnd sid) m \<longleftrightarrow> sid \<in> set (holders m)"
| "mgr_can _ m \<longleftrightarrow> True"

fun mgr_run :: "inet \<Rightarrow> mgr_event list \<Rightarrow> mgr \<Rightarrow> mgr option" where
  "mgr_run N [] m = Some m"
| "mgr_run N (e # es) m = (if mgr_can e m then mgr_run N es (mgr_step N e m) else None)"


section \<open>Invariant\<close>

text \<open>
  Between two steps of an operation an attempt or a waiter can be in hand: \<open>A\<close> are the generations and \<open>W\<close>
  the waiters in hand. An attempt of the current generation is under way exactly when \<open>bConnectPending\<close> is
  set, and every object that is not done and still held is in the list, posted or in hand.
\<close>

definition waiting :: "nat list \<Rightarrow> mgr \<Rightarrow> nat list" where
  "waiting W m = m_vConnectWaiters m @ posted m @ W"

definition attempts :: "nat list \<Rightarrow> mgr \<Rightarrow> nat list" where
  "attempts A m = A @ jobs m @ conns m"

definition conn_ok :: "nat list \<Rightarrow> nat list \<Rightarrow> mgr \<Rightarrow> bool" where
  "conn_ok A W m \<longleftrightarrow>
     (m_vConnectWaiters m \<noteq> [] \<longrightarrow> bConnectPending m) \<and> (bServiceDown m \<longrightarrow> \<not> bConnectPending m)
   \<and> distinct (attempts A m) \<and> (\<forall>g \<in> set (attempts A m). g \<le> iConnectGeneration m)
   \<and> (bConnectPending m \<longleftrightarrow> iConnectGeneration m \<in> set (attempts A m))
   \<and> distinct (waiting W m)
   \<and> (\<forall>w \<in> set (waiting W m). w < length (waits m) \<and> \<not> bDone (waits m ! w))
   \<and> (\<forall>w < length (waits m). \<not> expired m w \<and> \<not> bDone (waits m ! w) \<longrightarrow> w \<in> set (waiting W m))"

definition parked :: "nat \<Rightarrow> mgr \<Rightarrow> nat" where
  "parked h m = sum_list (map (\<lambda>c. count_list (vWaiters c) h) (waits m))"

definition wait_ok :: "mgr \<Rightarrow> bool" where
  "wait_ok m \<longleftrightarrow>
     (\<forall>c \<in> set (waits m). vWaiters c \<noteq> [] \<longrightarrow> wAwaiter c \<and> \<not> bDone c)
   \<and> (\<forall>h. count_list (suspended m) h = parked h m + count_list (ready m) h)"

definition obj_ok :: "mgr \<Rightarrow> int \<Rightarrow> msession \<Rightarrow> bool" where
  "obj_ok m sid s \<longleftrightarrow> (\<not> se_channel s \<longrightarrow> se_closed s) \<and> (se_closed s \<longleftrightarrow> sid \<notin> set (mSessionMap m))
     \<and> se_refs s = (if se_channel s then 1 else 0) + count_list (holders m) sid \<and> 0 < se_refs s"

definition sess_ok :: "mgr \<Rightarrow> bool" where
  "sess_ok m \<longleftrightarrow>
     distinct (mSessionMap m) \<and> (\<forall>sid \<in> set (mSessionMap m) \<union> set (holders m). objs m sid \<noteq> None)
   \<and> (\<forall>sid s. objs m sid = Some s \<longrightarrow> obj_ok m sid s)
   \<and> distinct (added m) \<and> (\<forall>sid \<in> set (added m). sid \<le> iCurrentSessionId m)
   \<and> (\<forall>sid. objs m sid \<noteq> None \<longrightarrow> sid \<in> set (added m))
   \<and> distinct (deleted m)
   \<and> (\<forall>sid. sid \<in> set (deleted m) \<longleftrightarrow> sid \<in> set (added m) \<and> (\<forall>s. objs m sid = Some s \<longrightarrow> \<not> se_channel s))"

definition mgr_ok :: "nat list \<Rightarrow> nat list \<Rightarrow> mgr \<Rightarrow> bool" where
  "mgr_ok A W m \<longleftrightarrow> conn_ok A W m \<and> wait_ok m \<and> sess_ok m \<and> \<not> fault m"

text \<open>Results are final.\<close>

definition wait_le :: "ConnectWait list \<Rightarrow> ConnectWait list \<Rightarrow> bool" where
  "wait_le ws vs \<longleftrightarrow> length ws \<le> length vs \<and> (\<forall>w < length ws. wAwaiter (vs ! w) = wAwaiter (ws ! w)
     \<and> (bDone (ws ! w) \<longrightarrow> bDone (vs ! w) \<and> bResult (vs ! w) = bResult (ws ! w)))"

text \<open>The generation only grows, and a new attempt has a new one.\<close>

definition adv :: "mgr \<Rightarrow> mgr \<Rightarrow> bool" where
  "adv m m' \<longleftrightarrow> iConnectGeneration m \<le> iConnectGeneration m'
     \<and> (iConnectGeneration m' = iConnectGeneration m \<and> bConnectPending m' \<longrightarrow> bConnectPending m)
     \<and> wait_le (waits m) (waits m')"

definition hook_ok :: "(mgr \<Rightarrow> mgr) \<Rightarrow> bool" where
  "hook_ok f \<longleftrightarrow> (\<forall>W m. mgr_ok [] W m \<longrightarrow> mgr_ok [] W (f m) \<and> adv m (f m))"

lemma hook_okD: "hook_ok f \<Longrightarrow> mgr_ok [] W m \<Longrightarrow> mgr_ok [] W (f m)" "hook_ok f \<Longrightarrow> mgr_ok [] W m \<Longrightarrow> adv m (f m)"
  unfolding hook_ok_def by blast+

lemma wait_le_refl [simp]: "wait_le ws ws"
  by (simp add: wait_le_def)

lemma wait_le_trans: "wait_le a b \<Longrightarrow> wait_le b c \<Longrightarrow> wait_le a c"
  unfolding wait_le_def by (metis le_trans order_less_le_trans)

lemma wait_le_update:
  "w < length ws \<Longrightarrow> wAwaiter c = wAwaiter (ws ! w) \<Longrightarrow> (bDone (ws ! w) \<longrightarrow> bDone c \<and> bResult c = bResult (ws ! w)) \<Longrightarrow> wait_le ws (ws[w := c])"
  by (auto simp: wait_le_def nth_list_update)

lemma adv_refl [simp]: "adv m m"
  by (simp add: adv_def)

lemma adv_trans: "adv a b \<Longrightarrow> adv b c \<Longrightarrow> adv a c"
  unfolding adv_def by (metis wait_le_trans dual_order.trans le_antisym)

section \<open>Lemmas: what an operation leaves alone\<close>

definition sess_view :: "mgr \<Rightarrow> int list \<times> int \<times> (int \<Rightarrow> msession option) \<times> int list \<times> int list \<times> int list" where
  "sess_view m = (mSessionMap m, iCurrentSessionId m, objs m, holders m, added m, deleted m)"

definition conn_view :: "mgr \<Rightarrow> nat list \<times> nat \<times> bool \<times> bool \<times> nat list \<times> nat list \<times> nat list \<times> ConnectWait list \<times> nat list \<times> nat list" where
  "conn_view m = (m_vConnectWaiters m, iConnectGeneration m, bConnectPending m, bServiceDown m, jobs m, conns m, posted m, waits m, ready m, suspended m)"

lemma sess_cong: "sess_view m' = sess_view m \<Longrightarrow> sess_ok m' = sess_ok m"
  by (simp add: sess_view_def sess_ok_def obj_ok_def)

lemma conn_cong: "conn_view m' = conn_view m \<Longrightarrow> conn_ok A W m' = conn_ok A W m"
  by (simp add: conn_view_def conn_ok_def waiting_def attempts_def expired_def)

lemma wait_cong: "conn_view m' = conn_view m \<Longrightarrow> wait_ok m' = wait_ok m"
  by (simp add: conn_view_def wait_ok_def parked_def)

lemma adv_cong: "conn_view m' = conn_view m \<Longrightarrow> adv m m'"
  by (simp add: conn_view_def adv_def)

text \<open>An operation on the table of sessions, and one on the attempts.\<close>

lemma sess_op:
  "conn_view m' = conn_view m \<Longrightarrow> fault m' = fault m \<Longrightarrow> sess_ok m' \<Longrightarrow> mgr_ok A W m \<Longrightarrow> mgr_ok A W m'"
  unfolding mgr_ok_def by (metis conn_cong wait_cong)

lemma conn_op:
  "sess_view m' = sess_view m \<Longrightarrow> fault m' = fault m \<Longrightarrow> conn_ok A' W' m' \<Longrightarrow> wait_ok m' \<Longrightarrow> mgr_ok A W m \<Longrightarrow> mgr_ok A' W' m'"
  unfolding mgr_ok_def by (metis sess_cong)

section \<open>Lemmas: waiters\<close>

lemma parked_update:
  assumes "w < length (waits m)"
  shows "parked h (m\<lparr>waits := (waits m)[w := c], suspended := x, ready := y\<rparr>) + count_list (vWaiters (waits m ! w)) h
    = parked h m + count_list (vWaiters c) h"
proof -
  let ?f = "\<lambda>c. count_list (vWaiters c) h"
  have "?f (waits m ! w) \<le> sum_list (map ?f (waits m))"
    using assms by (metis length_map nth_map elem_le_sum_list)
  then show ?thesis using assms by (simp add: parked_def map_update sum_list_update)
qed

lemma Finish_ok:
  assumes "mgr_ok A (w # W) m"
  shows "mgr_ok A W (Finish r w m)"
proof -
  have c: "conn_ok A (w # W) m" and wt: "wait_ok m" using assms by (simp_all add: mgr_ok_def)
  have w: "w < length (waits m)" "\<not> bDone (waits m ! w)" using c by (simp_all add: conn_ok_def waiting_def)
  let ?c = "(waits m ! w)\<lparr>bDone := True, bResult := r, vWaiters := []\<rparr>"
  let ?m = "m\<lparr>waits := (waits m)[w := ?c], ready := ready m @ vWaiters (waits m ! w)\<rparr>"
  have f: "Finish r w m = ?m" using w by (simp add: Finish_def Let_def)
  have c': "conn_ok A W ?m"
    using c w by (auto simp: conn_ok_def waiting_def attempts_def expired_def nth_list_update)
  have "parked h ?m + count_list (vWaiters (waits m ! w)) h = parked h m" for h
    using parked_update [OF w(1), where h = h and c = ?c and x = "suspended m" and y = "ready m @ vWaiters (waits m ! w)"] by simp
  then have "count_list (suspended ?m) h = parked h ?m + count_list (ready ?m) h" for h
    using wt by (simp add: wait_ok_def)
  moreover have "\<forall>c \<in> set (waits ?m). vWaiters c \<noteq> [] \<longrightarrow> wAwaiter c \<and> \<not> bDone c"
    using wt set_update_subset_insert [of "waits m" w ?c] by (auto simp: wait_ok_def)
  ultimately have w': "wait_ok ?m" by (simp add: wait_ok_def)
  have "mgr_ok A W ?m" by (rule conn_op [OF _ _ c' w' assms]) (simp_all add: sess_view_def)
  then show ?thesis by (simp only: f)
qed

lemma finish_weak_ok:
  assumes "mgr_ok A (w # W) m"
  shows "mgr_ok A W (finish_weak r w m)"
  using Finish_ok [OF assms] assms by (auto simp: finish_weak_def mgr_ok_def conn_ok_def waiting_def)

lemma finish_all_ok: "mgr_ok A (ws @ W) m \<Longrightarrow> mgr_ok A W (finish_all r ws m)"
proof (induction ws arbitrary: m)
  case Nil
  then show ?case by (simp add: finish_all_def)
next
  case (Cons w ws)
  then have "mgr_ok A (ws @ W) (finish_weak r w m)" by (intro finish_weak_ok) simp
  from Cons.IH [OF this] show ?case by (simp add: finish_all_def)
qed

lemma finish_weak_simps [simp]:
  "iConnectGeneration (finish_weak r w m) = iConnectGeneration m" "bConnectPending (finish_weak r w m) = bConnectPending m"
  "m_vConnectWaiters (finish_weak r w m) = m_vConnectWaiters m" "iCurrentSessionId (finish_weak r w m) = iCurrentSessionId m"
  "jobs (finish_weak r w m) = jobs m" "conns (finish_weak r w m) = conns m" "posted (finish_weak r w m) = posted m"
  "sess_view (finish_weak r w m) = sess_view m" "length (waits (finish_weak r w m)) = length (waits m)"
  "sEndpoint (finish_weak r w m) = sEndpoint m"
  by (simp_all add: finish_weak_def Finish_def Let_def sess_view_def)

lemma finish_all_simps [simp]:
  "iConnectGeneration (finish_all r ws m) = iConnectGeneration m" "bConnectPending (finish_all r ws m) = bConnectPending m"
  "m_vConnectWaiters (finish_all r ws m) = m_vConnectWaiters m" "iCurrentSessionId (finish_all r ws m) = iCurrentSessionId m"
  "jobs (finish_all r ws m) = jobs m" "conns (finish_all r ws m) = conns m" "posted (finish_all r ws m) = posted m"
  "sess_view (finish_all r ws m) = sess_view m" "length (waits (finish_all r ws m)) = length (waits m)"
  "sEndpoint (finish_all r ws m) = sEndpoint m"
  by (induction ws arbitrary: m) (simp_all add: finish_all_def)

lemma Finish_wait_le [simp]: "wait_le (waits m) (waits (Finish r w m))"
  by (auto simp: Finish_def Let_def intro: wait_le_update)

lemma finish_weak_wait_le [simp]: "wait_le (waits m) (waits (finish_weak r w m))"
  by (simp add: finish_weak_def)

lemma finish_all_wait_le [simp]: "wait_le (waits m) (waits (finish_all r ws m))"
proof (induction ws arbitrary: m)
  case (Cons w ws)
  show ?case using Cons [of "finish_weak r w m"] wait_le_trans [OF finish_weak_wait_le] by (simp add: finish_all_def)
qed (simp add: finish_all_def)

lemma finish_all_wait_le2 [simp]: "waits n = waits m \<Longrightarrow> wait_le (waits m) (waits (finish_all r ws n))"
  using finish_all_wait_le [of n r ws] by simp

text \<open>A waiter whose awaiter exists is woken with the result.\<close>

lemma finish_all_done:
  "w \<in> set ws \<Longrightarrow> \<forall>v \<in> set ws. v < length (waits m) \<Longrightarrow> wAwaiter (waits m ! w) \<Longrightarrow> \<not> bDone (waits m ! w)
    \<Longrightarrow> bDone (waits (finish_all r ws m) ! w) \<and> bResult (waits (finish_all r ws m) ! w) = r"
proof (induction ws arbitrary: m)
  case (Cons v ws)
  let ?m = "finish_weak r v m"
  have rest: "finish_all r (v # ws) m = finish_all r ws ?m" by (simp add: finish_all_def)
  have w: "w < length (waits m)" using Cons.prems(1,2) by blast
  show ?case
  proof (cases "w = v")
    case True
    then have "bDone (waits ?m ! w)" "bResult (waits ?m ! w) = r"
      using Cons.prems(3,4) w by (simp_all add: finish_weak_def expired_def Finish_def Let_def)
    then show ?thesis unfolding rest using finish_all_wait_le [of ?m r ws] w by (simp add: wait_le_def)
  next
    case False
    then have "waits ?m ! w = waits m ! w" by (simp add: finish_weak_def Finish_def Let_def)
    then show ?thesis unfolding rest using Cons.IH [of ?m] Cons.prems False by simp
  qed
qed simp

lemma FinishConnectWaiters_wait_le [simp]: "wait_le (waits m) (waits (FinishConnectWaiters r m))"
  by (simp add: FinishConnectWaiters_def)

lemma FinishConnectWaiters_ok:
  assumes "mgr_ok A W m"
  shows "mgr_ok A W (FinishConnectWaiters r m)"
proof -
  have "conn_ok A W m" "wait_ok m" using assms by (simp_all add: mgr_ok_def)
  then have "conn_ok A (m_vConnectWaiters m @ W) (m\<lparr>m_vConnectWaiters := []\<rparr>)" "wait_ok (m\<lparr>m_vConnectWaiters := []\<rparr>)"
    by (auto simp: conn_ok_def waiting_def attempts_def expired_def wait_ok_def parked_def)
  from conn_op [OF _ _ this assms] have "mgr_ok A (m_vConnectWaiters m @ W) (m\<lparr>m_vConnectWaiters := []\<rparr>)"
    by (simp add: sess_view_def)
  then show ?thesis unfolding FinishConnectWaiters_def by (rule finish_all_ok)
qed


section \<open>Lemmas: the table of sessions\<close>

lemma sess_okD:
  assumes "sess_ok m"
  shows "distinct (mSessionMap m)" "sid \<in> set (mSessionMap m) \<Longrightarrow> objs m sid \<noteq> None" "sid \<in> set (holders m) \<Longrightarrow> objs m sid \<noteq> None"
    "objs m sid = Some s \<Longrightarrow> obj_ok m sid s" "objs m sid \<noteq> None \<Longrightarrow> sid \<in> set (added m)"
    "sid \<in> set (added m) \<Longrightarrow> sid \<le> iCurrentSessionId m"
  using assms by (auto simp: sess_ok_def)

lemma obj_cong:
  "sid \<in> set (mSessionMap m') \<longleftrightarrow> sid \<in> set (mSessionMap m) \<Longrightarrow> count_list (holders m') sid = count_list (holders m) sid
    \<Longrightarrow> obj_ok m' sid s = obj_ok m sid s"
  by (simp add: obj_ok_def)

definition has_channel :: "msession option \<Rightarrow> bool" where
  "has_channel s \<longleftrightarrow> (case s of None \<Rightarrow> False | Some s \<Rightarrow> se_channel s)"

text \<open>A step that changes one session, or deletes it.\<close>

lemma upd_obj_ok:
  assumes "sess_ok m" and x: "objs m sid = Some x" and o: "objs m' = (objs m)(sid := s)"
    and y: "\<And>y. s = Some y \<Longrightarrow> obj_ok m' sid y" "s = None \<Longrightarrow> sid \<notin> set (mSessionMap m') \<and> sid \<notin> set (holders m')"
    and rest: "\<And>i. i \<noteq> sid \<Longrightarrow> (i \<in> set (mSessionMap m') \<longleftrightarrow> i \<in> set (mSessionMap m)) \<and> count_list (holders m') i = count_list (holders m) i"
    and d: "distinct (mSessionMap m')" and a: "added m' = added m" "iCurrentSessionId m' = iCurrentSessionId m"
    and del: "deleted m' = (if se_channel x \<and> \<not> has_channel s then deleted m @ [sid] else deleted m)" "has_channel s \<longrightarrow> se_channel x"
  shows "sess_ok m'"
proof -
  note s = assms(1) [unfolded sess_ok_def]
  have held: "i \<in> set (holders m') \<longleftrightarrow> i \<in> set (holders m)" if "i \<noteq> sid" for i
    using rest [OF that] by (metis count_list_0_iff)
  have "\<forall>i \<in> set (mSessionMap m') \<union> set (holders m'). objs m' i \<noteq> None"
    using s o y(2) rest held by (metis Un_iff fun_upd_apply)
  moreover have "\<forall>i z. objs m' i = Some z \<longrightarrow> obj_ok m' i z"
  proof (intro allI impI)
    fix i z assume i: "objs m' i = Some z"
    show "obj_ok m' i z"
    proof (cases "i = sid")
      case True
      then show ?thesis using i o y(1) by simp
    next
      case False
      then have "obj_ok m i z" using i o s by simp
      then show ?thesis using obj_cong [of i m' m z] rest [OF False] by simp
    qed
  qed
  moreover have "\<forall>i. objs m' i \<noteq> None \<longrightarrow> i \<in> set (added m')" using s x o a by (metis fun_upd_apply option.distinct(1))
  moreover have "distinct (deleted m')" using s x del(1) by auto
  moreover have "i \<in> set (deleted m') \<longleftrightarrow> i \<in> set (added m') \<and> (\<forall>z. objs m' i = Some z \<longrightarrow> \<not> se_channel z)" for i
  proof (cases "i = sid")
    case True
    have "sid \<in> set (added m)" using s x by blast
    moreover have "sid \<in> set (deleted m) \<longleftrightarrow> \<not> se_channel x" using s x calculation by auto
    ultimately show ?thesis using True o a del by (cases s) (auto simp: has_channel_def)
  next
    case False
    then show ?thesis using s o a del(1) by simp
  qed
  ultimately show ?thesis using s d a by (simp add: sess_ok_def)
qed

lemma CloseSession_ok:
  assumes "mgr_ok A W m"
  shows "mgr_ok A W (CloseSession sid m)" "conn_view (CloseSession sid m) = conn_view m"
proof -
  have s: "sess_ok m" using assms by (simp add: mgr_ok_def)
  have "sess_ok (CloseSession sid m) \<and> fault (CloseSession sid m) = fault m \<and> conn_view (CloseSession sid m) = conn_view m"
  proof (cases "sid \<in> set (mSessionMap m)")
    case False
    then show ?thesis using s by (simp add: CloseSession_def)
  next
    case True
    then obtain x where x: "objs m sid = Some x" using sess_okD(2) [OF s] by blast
    let ?m = "m\<lparr>mSessionMap := removeAll sid (mSessionMap m), objs := (objs m)(sid \<mapsto> close_obj (- 20000) x)\<rparr>"
    have m: "CloseSession sid m = ?m" using True x by (simp add: CloseSession_def on_obj_def)
    have ox: "obj_ok m sid x" using s x by (simp add: sess_okD)
    then have oy: "obj_ok ?m sid (close_obj (- 20000) x)" using True by (auto simp: obj_ok_def close_obj_def split: if_splits)
    have "sess_ok ?m"
      by (rule upd_obj_ok [OF s x, of _ "Some (close_obj (- 20000) x)"])
        (use oy sess_okD(1) [OF s] in \<open>auto simp: has_channel_def close_obj_def distinct_removeAll\<close>)
    then show ?thesis unfolding m by (simp add: conn_view_def)
  qed
  then show "mgr_ok A W (CloseSession sid m)" "conn_view (CloseSession sid m) = conn_view m"
    using sess_op [OF _ _ _ assms] by simp_all
qed

lemma close_all_ok:
  assumes "mgr_ok A W m"
  shows "mgr_ok A W (fold CloseSession sids m) \<and> conn_view (fold CloseSession sids m) = conn_view m"
  using assms
proof (induction sids arbitrary: m)
  case (Cons sid sids)
  show ?case using Cons.IH [OF CloseSession_ok(1) [OF Cons.prems]] CloseSession_ok(2) [OF Cons.prems] by simp
qed simp

lemma CloseEndpoint_ok: "mgr_ok A W m \<Longrightarrow> mgr_ok A W (CloseEndpoint e m) \<and> conn_view (CloseEndpoint e m) = conn_view m"
  by (simp add: CloseEndpoint_def close_all_ok)

text \<open>A new session has a new number.\<close>

lemma add_obj_ok:
  assumes "sess_ok m" and "sid = iCurrentSessionId m + 1" and "se_closed s = False" and "se_channel s" and "se_refs s = 1"
    and "mSessionMap m' = mSessionMap m @ [sid]" "objs m' = (objs m)(sid \<mapsto> s)" "added m' = added m @ [sid]"
      "iCurrentSessionId m' = sid" "holders m' = holders m" "deleted m' = deleted m"
  shows "sess_ok m'"
proof -
  have new: "sid \<notin> set (added m)" using assms(1,2) by (auto simp: sess_ok_def)
  then have fresh: "objs m sid = None" "sid \<notin> set (mSessionMap m)" "sid \<notin> set (holders m)" "sid \<notin> set (deleted m)"
    using assms(1) by (auto simp: sess_ok_def)
  have "obj_ok m' i z" if "objs m' i = Some z" for i z
  proof (cases "i = sid")
    case True
    then show ?thesis using that assms fresh(3) by (simp add: obj_ok_def count_list_0_iff)
  next
    case False
    then show ?thesis using that assms sess_okD(4) [OF assms(1), of i z] obj_cong [of i m' m z] by simp
  qed
  then show ?thesis using assms new fresh by (auto simp: sess_ok_def)
qed

lemma AddSession_ok:
  assumes "hook_ok f" and "mgr_ok [] W m"
  shows "mgr_ok [] W (AddSession N f fd m) \<and> adv m (AddSession N f fd m)"
proof -
  let ?sid = "iCurrentSessionId m + 1"
  let ?s = "\<lparr>se_endpoint = Endpoint_text N (sIpAddress m) (sPort m), se_fd = fd, se_closed = False, se_error = 0, se_channel = True, se_refs = 1\<rparr>"
  let ?m = "m\<lparr>iCurrentSessionId := ?sid, mSessionMap := mSessionMap m @ [?sid], objs := (objs m)(?sid \<mapsto> ?s), added := added m @ [?sid]\<rparr>"
  have "sess_ok ?m" by (rule add_obj_ok [of m ?sid ?s]) (use assms(2) in \<open>simp_all add: mgr_ok_def\<close>)
  then have m: "mgr_ok [] W ?m" by (intro sess_op [OF _ _ _ assms(2)]) (simp_all add: conn_view_def)
  have "adv m ?m" by (simp add: adv_def)
  then show ?thesis using hook_okD [OF assms(1) m] adv_trans unfolding AddSession_def Let_def by blast
qed

section \<open>Lemmas: attempts\<close>

text \<open>The end of the attempt in hand: its waiters are in hand until they are woken.\<close>

lemma settle_ok:
  assumes "mgr_ok [g] W m" and "g = iConnectGeneration m"
  shows "mgr_ok [] (m_vConnectWaiters m @ W) (m\<lparr>m_vConnectWaiters := [], bConnectPending := False\<rparr>)"
proof -
  have "conn_ok [g] W m" "wait_ok m" using assms by (simp_all add: mgr_ok_def)
  then have "conn_ok [] (m_vConnectWaiters m @ W) (m\<lparr>m_vConnectWaiters := [], bConnectPending := False\<rparr>)"
    "wait_ok (m\<lparr>m_vConnectWaiters := [], bConnectPending := False\<rparr>)"
    using assms(2) by (auto simp: conn_ok_def waiting_def attempts_def expired_def wait_ok_def parked_def)
  from conn_op [OF _ _ this assms(1)] show ?thesis by (simp add: sess_view_def)
qed

lemma stale_ok:
  assumes "mgr_ok [g] W m" and "g \<noteq> iConnectGeneration m \<or> \<not> bConnectPending m"
  shows "mgr_ok [] W m"
  using assms by (auto simp: mgr_ok_def conn_ok_def attempts_def)

lemma same_ok: "sess_view m' = sess_view m \<Longrightarrow> conn_view m' = conn_view m \<Longrightarrow> fault m' = fault m \<Longrightarrow> mgr_ok A W m' = mgr_ok A W m"
  unfolding mgr_ok_def by (metis sess_cong conn_cong wait_cong)

lemma finish_pending: "FinishConnectWaiters r (m\<lparr>bConnectPending := False\<rparr>)
    = finish_all r (m_vConnectWaiters m) (m\<lparr>m_vConnectWaiters := [], bConnectPending := False\<rparr>)"
  by (cases m) (simp add: FinishConnectWaiters_def)

lemma next_number_ok:
  assumes "mgr_ok A W m"
  shows "mgr_ok A W (m\<lparr>iCurrentSessionId := iCurrentSessionId m + 1\<rparr>)"
proof -
  have "sess_ok (m\<lparr>iCurrentSessionId := iCurrentSessionId m + 1\<rparr>)"
    using assms obj_cong [of _ "m\<lparr>iCurrentSessionId := iCurrentSessionId m + 1\<rparr>" m] by (auto simp: mgr_ok_def sess_ok_def)
  from sess_op [OF _ _ this assms] show ?thesis by (simp add: conn_view_def)
qed


lemma AbortSession_ok:
  assumes "hook_ok f" and "mgr_ok [g] W m"
  shows "mgr_ok [] W (AbortSession f g m)" "adv m (AbortSession f g m)"
    "\<not> (iConnectGeneration (AbortSession f g m) = g \<and> bConnectPending (AbortSession f g m))"
proof -
  have *: "mgr_ok [] W (AbortSession f g m) \<and> adv m (AbortSession f g m)
    \<and> \<not> (iConnectGeneration (AbortSession f g m) = g \<and> bConnectPending (AbortSession f g m))"
  proof (cases "g \<noteq> iConnectGeneration m \<or> \<not> bConnectPending m")
    case True
    then show ?thesis using stale_ok [OF assms(2)] by (auto simp: AbortSession_def)
  next
    case False
    let ?m = "finish_all False (m_vConnectWaiters m) (m\<lparr>m_vConnectWaiters := [], bConnectPending := False\<rparr>)"
    let ?n = "?m\<lparr>iCurrentSessionId := iCurrentSessionId m + 1\<rparr>"
    have a: "AbortSession f g m = f ?n" using False by (simp add: AbortSession_def finish_pending)
    have "mgr_ok [] W ?m" using False by (intro finish_all_ok settle_ok [OF assms(2)]) simp
    from next_number_ok [OF this] have n: "mgr_ok [] W ?n" by simp
    have "adv m ?n" "\<not> bConnectPending ?n" "iConnectGeneration ?n = g" using False by (simp_all add: adv_def)
    then show ?thesis
      using hook_okD [OF assms(1) n] adv_trans [of m ?n "f ?n"] unfolding a by (auto simp: adv_def)
  qed
  then show "mgr_ok [] W (AbortSession f g m)" "adv m (AbortSession f g m)"
    "\<not> (iConnectGeneration (AbortSession f g m) = g \<and> bConnectPending (AbortSession f g m))" by simp_all
qed

lemma CompleteConnect_ok:
  assumes "hook_ok f" and "mgr_ok [g] W m"
  shows "mgr_ok [] W (CompleteConnect N f fd g m) \<and> adv m (CompleteConnect N f fd g m)"
proof (cases "g \<noteq> iConnectGeneration m \<or> \<not> bConnectPending m")
  case True
  moreover have "mgr_ok [] W (m\<lparr>closed_fds := closed_fds m @ [fd]\<rparr>)"
    using stale_ok [OF assms(2) True] same_ok [of "m\<lparr>closed_fds := closed_fds m @ [fd]\<rparr>" m] by (simp add: sess_view_def conn_view_def)
  ultimately show ?thesis by (auto simp: CompleteConnect_def adv_def)
next
  case False
  let ?m = "m\<lparr>m_vConnectWaiters := [], bConnectPending := False\<rparr>"
  have "\<not> bServiceDown m" using False assms(2) by (simp add: mgr_ok_def conn_ok_def)
  then have c: "CompleteConnect N f fd g m = finish_all True (m_vConnectWaiters m) (AddSession N f fd ?m)"
    using False by (simp add: CompleteConnect_def)
  have "mgr_ok [] (m_vConnectWaiters m @ W) ?m" using False by (intro settle_ok [OF assms(2)]) simp
  from AddSession_ok [OF assms(1) this, of N fd] have "mgr_ok [] W (CompleteConnect N f fd g m)" "adv ?m (AddSession N f fd ?m)"
    unfolding c by (blast intro: finish_all_ok)+
  then show ?thesis
    using wait_le_trans [OF _ finish_all_wait_le, of "waits m" "AddSession N f fd ?m"] unfolding c by (auto simp: adv_def)
qed

lemma StartTcpConnect_ok:
  assumes "hook_ok f" and "mgr_ok [g] W m" and "g = iConnectGeneration m" and "StartTcpConnect N f out m = (b, m')"
  shows "b \<Longrightarrow> mgr_ok [] W m' \<and> adv m m'"
    and "\<not> b \<Longrightarrow> adv m m' \<and> (m' = m \<or> mgr_ok [] W m' \<and> \<not> (iConnectGeneration m' = g \<and> bConnectPending m'))"
proof -
  have "mgr_ok [] W (m\<lparr>conns := g # conns m\<rparr>)"
  proof (rule conn_op [OF _ _ _ _ assms(2)])
    show "conn_ok [] W (m\<lparr>conns := g # conns m\<rparr>)"
      using assms(2) by (auto simp: mgr_ok_def conn_ok_def attempts_def waiting_def expired_def)
    show "wait_ok (m\<lparr>conns := g # conns m\<rparr>)" using assms(2) by (simp add: mgr_ok_def wait_ok_def parked_def)
  qed (simp_all add: sess_view_def)
  moreover note AbortSession_ok [OF assms(1,2)] CompleteConnect_ok [OF assms(1,2), of N]
  ultimately show "b \<Longrightarrow> mgr_ok [] W m' \<and> adv m m'"
    and "\<not> b \<Longrightarrow> adv m m' \<and> (m' = m \<or> mgr_ok [] W m' \<and> \<not> (iConnectGeneration m' = g \<and> bConnectPending m'))"
    using assms(3,4) by (auto simp: StartTcpConnect_def adv_def split: if_splits connect_out.splits)
qed

lemma address_ok:
  "mgr_ok A W (DefaultInit ip port m) = mgr_ok A W m" "mgr_ok A W (m\<lparr>sEndpoint := e\<rparr>) = mgr_ok A W m"
  by (rule same_ok; simp add: DefaultInit_def sess_view_def conn_view_def)+

lemma OnResolved_ok:
  assumes "hook_ok f" and "mgr_ok [g] W m"
  shows "mgr_ok [] W (OnResolved N f out g bOk a m) \<and> adv m (OnResolved N f out g bOk a m)"
proof (cases "g \<noteq> iConnectGeneration m \<or> \<not> bConnectPending m")
  case True
  then show ?thesis using stale_ok [OF assms(2)] by (simp add: OnResolved_def)
next
  case False
  let ?m = "(DefaultInit (Host a) (sPort m) m)\<lparr>sEndpoint := Endpoint a\<rparr>"
  have g: "iConnectGeneration ?m = g" "adv m ?m" using False by (simp_all add: DefaultInit_def adv_def)
  have m: "mgr_ok [g] W ?m" using assms(2) by (simp only: address_ok)
  consider "bServiceDown m \<or> \<not> bOk \<or> Host a = []" | "\<not> (bServiceDown m \<or> \<not> bOk \<or> Host a = [])" "HasEndpoint (sEndpoint ?m) ?m"
    | "\<not> (bServiceDown m \<or> \<not> bOk \<or> Host a = [])" "\<not> HasEndpoint (sEndpoint ?m) ?m" by blast
  then show ?thesis
  proof cases
    case 1
    then show ?thesis using False AbortSession_ok [OF assms] by (simp add: OnResolved_def)
  next
    case 2
    let ?n = "finish_all True (m_vConnectWaiters ?m) (?m\<lparr>m_vConnectWaiters := [], bConnectPending := False\<rparr>)"
    have "OnResolved N f out g bOk a m = ?n" using 2 False by (simp add: OnResolved_def Let_def finish_pending)
    moreover have "mgr_ok [] W ?n" by (rule finish_all_ok, rule settle_ok [OF m]) (use g in simp)
    ultimately show ?thesis by (simp add: adv_def DefaultInit_def)
  next
    case 3
    obtain b m' where t: "StartTcpConnect N f out ?m = (b, m')" by fastforce
    have r: "OnResolved N f out g bOk a m = (if b then m' else AbortSession f g m')"
      using 3 False t by (simp add: OnResolved_def Let_def split: bool.splits)
    note s = StartTcpConnect_ok [OF assms(1) m g(1) [symmetric] t]
    have "b \<Longrightarrow> ?thesis" using s(1) adv_trans [OF g(2)] r by simp
    moreover have "\<not> b \<Longrightarrow> ?thesis"
      using s(2) adv_trans [OF g(2)] r AbortSession_ok [OF assms(1) m] by (auto simp: AbortSession_def)
    ultimately show ?thesis by blast
  qed
qed

lemma Resolve_ok:
  assumes "hook_ok f" and "mgr_ok [g] W m"
  shows "mgr_ok [] W (Resolve N f taken out g m) \<and> adv m (Resolve N f taken out g m)"
proof -
  have "mgr_ok [] W (m\<lparr>jobs := g # jobs m\<rparr>)"
  proof (rule conn_op [OF _ _ _ _ assms(2)])
    show "conn_ok [] W (m\<lparr>jobs := g # jobs m\<rparr>)"
      using assms(2) by (auto simp: mgr_ok_def conn_ok_def attempts_def waiting_def expired_def)
    show "wait_ok (m\<lparr>jobs := g # jobs m\<rparr>)" using assms(2) by (simp add: mgr_ok_def wait_ok_def parked_def)
  qed (simp_all add: sess_view_def)
  then show ?thesis using OnResolved_ok [OF assms] by (auto simp: Resolve_def adv_def split: prod.splits bool.splits)
qed


section \<open>Lemmas: requests\<close>

lemma pop_expired_eq: "pop_expired m ws = dropWhile (expired m) ws"
  by (induction ws) simp_all

lemma pop_split: "ws = rev (pop_expired m (rev ws)) @ rev (takeWhile (expired m) (rev ws))"
  by (metis pop_expired_eq rev_append rev_rev_ident takeWhile_dropWhile_id)

lemma generation_bound:
  assumes "conn_ok A W m"
  shows "Suc (iConnectGeneration m) \<notin> set (jobs m)" "Suc (iConnectGeneration m) \<notin> set (conns m)"
    "\<forall>g \<in> set (jobs m) \<union> set (conns m). g \<le> Suc (iConnectGeneration m)"
proof -
  have b: "g \<le> iConnectGeneration m" if "g \<in> set (jobs m) \<union> set (conns m)" for g
    using assms that by (auto simp: conn_ok_def attempts_def)
  then show "Suc (iConnectGeneration m) \<notin> set (jobs m)" "Suc (iConnectGeneration m) \<notin> set (conns m)" using not_less_eq_eq by blast+
  show "\<forall>g \<in> set (jobs m) \<union> set (conns m). g \<le> Suc (iConnectGeneration m)" using b le_SucI by blast
qed

lemma push_waiter_ok:
  assumes "mgr_ok [] (w # W) m" and "bConnectPending m"
  shows "mgr_ok [] W (m\<lparr>m_vConnectWaiters := rev (pop_expired m (rev (m_vConnectWaiters m))) @ [w]\<rparr>)" (is "mgr_ok [] W ?m")
proof -
  obtain vs es where v: "rev (pop_expired m (rev (m_vConnectWaiters m))) = vs" "m_vConnectWaiters m = vs @ es" "\<forall>e \<in> set es. expired m e"
    using pop_split [of "m_vConnectWaiters m" m] by (metis set_rev set_takeWhileD)
  have c: "conn_ok [] (w # W) m" "wait_ok m" using assms(1) by (simp_all add: mgr_ok_def)
  have c': "conn_ok [] W ?m"
    using c(1) v assms(2) unfolding v(1) by (auto simp: conn_ok_def waiting_def attempts_def expired_def)
  have w': "wait_ok ?m" using c(2) by (simp add: wait_ok_def parked_def)
  show ?thesis by (rule conn_op [OF _ _ c' w' assms(1)]) (simp_all add: sess_view_def)
qed

lemma attempt_ok:
  assumes "mgr_ok [] (w # W) m" and "\<not> bConnectPending m" and "\<not> bServiceDown m" and "g = iConnectGeneration m + 1"
  shows "mgr_ok [g] W (m\<lparr>m_vConnectWaiters := [w], bConnectPending := True, iConnectGeneration := g\<rparr>)" (is "mgr_ok [g] W ?m")
proof -
  have c: "conn_ok [] (w # W) m" "wait_ok m" using assms(1) by (simp_all add: mgr_ok_def)
  then have e: "m_vConnectWaiters m = []" "Suc (iConnectGeneration m) \<notin> set (jobs m)" "Suc (iConnectGeneration m) \<notin> set (conns m)"
    using assms(2) generation_bound [of "[]" "w # W" m] by (auto simp: conn_ok_def)
  have c': "conn_ok [g] W ?m"
    using c(1) e assms(2,3,4) by (auto simp: conn_ok_def waiting_def attempts_def expired_def le_Suc_eq)
  have w': "wait_ok ?m" using c(2) by (simp add: wait_ok_def parked_def)
  show ?thesis by (rule conn_op [OF _ _ c' w' assms(1)]) (simp_all add: sess_view_def)
qed

lemma Finish_adv: "adv m (Finish r w m)"
  using Finish_wait_le [of m r w] by (simp add: adv_def) (simp add: Finish_def Let_def)

lemma start_connect_ok:
  assumes "hook_ok f" and "mgr_ok [] (w # W) m"
  shows "mgr_ok [] W (start_connect N f taken out w m) \<and> adv m (start_connect N f taken out w m)"
proof (cases "stop_requested m \<or> bServiceDown m \<or> \<not> bConnectPending m \<and> HasEndpoint (Endpoint_text N (sIpAddress m) (sPort m)) m")
  case True
  then have "\<exists>r. start_connect N f taken out w m = Finish r w m" by (auto simp: start_connect_def)
  then show ?thesis using Finish_ok [OF assms(2)] Finish_adv by metis
next
  case False
  let ?m = "m\<lparr>m_vConnectWaiters := [w], bConnectPending := True, iConnectGeneration := iConnectGeneration m + 1\<rparr>"
  show ?thesis
  proof (cases "bConnectPending m")
    case True
    then show ?thesis using False push_waiter_ok [OF assms(2)] by (simp add: start_connect_def adv_def)
  next
    case idle: False
    then have "m_vConnectWaiters m = []" using assms(2) by (auto simp: mgr_ok_def conn_ok_def)
    with False idle have s: "start_connect N f taken out w m = Resolve N f taken out (iConnectGeneration m + 1) ?m"
      by (auto simp: start_connect_def Let_def)
    have "mgr_ok [iConnectGeneration m + 1] W ?m" by (rule attempt_ok [OF assms(2) idle _ refl]) (use False in simp)
    moreover have "adv m ?m" by (simp add: adv_def)
    ultimately show ?thesis unfolding s using Resolve_ok [OF assms(1)] adv_trans by blast
  qed
qed

lemma new_wait_ok:
  assumes "mgr_ok [] W m" and "new_wait m = (w, m')"
  shows "mgr_ok [] (w # W) m' \<and> adv m m'"
proof -
  have w: "w = length (waits m)" and m': "m' = m\<lparr>waits := waits m @ [\<lparr>bDone = False, bResult = False, vWaiters = [], wAwaiter = True, wRequest = False\<rparr>]\<rparr>"
    using assms(2) by (simp_all add: new_wait_def)
  have c: "conn_ok [] W m" "wait_ok m" using assms(1) by (simp_all add: mgr_ok_def)
  have c': "conn_ok [] (w # W) m'"
    using c(1) unfolding w m' by (auto simp: conn_ok_def waiting_def attempts_def expired_def nth_append less_Suc_eq)
  have w': "wait_ok m'" using c(2) unfolding m' by (auto simp: wait_ok_def parked_def)
  have "mgr_ok [] (w # W) m'" by (rule conn_op [OF _ _ c' w' assms(1)]) (simp_all add: sess_view_def m')
  then show ?thesis by (simp add: m' adv_def wait_le_def nth_append)
qed

lemma conn_ok_waits:
  assumes "conn_ok A W m" and v: "m_vConnectWaiters m' = m_vConnectWaiters m" "iConnectGeneration m' = iConnectGeneration m"
      "bConnectPending m' = bConnectPending m" "bServiceDown m' = bServiceDown m" "jobs m' = jobs m" "conns m' = conns m" "posted m' = posted m"
      "length (waits m') = length (waits m)"
    and d: "\<And>v. v < length (waits m) \<Longrightarrow> bDone (waits m' ! v) = bDone (waits m ! v)"
    and e: "\<And>v. v < length (waits m) \<Longrightarrow> \<not> expired m' v \<Longrightarrow> expired m v \<Longrightarrow> v \<in> set W"
  shows "conn_ok A W m'"
proof -
  note c = assms(1) [unfolded conn_ok_def]
  have s: "waiting W m' = waiting W m" "attempts A m' = attempts A m" using v by (simp_all add: waiting_def attempts_def)
  have "set W \<subseteq> set (waiting W m)" by (auto simp: waiting_def)
  then have "\<forall>w < length (waits m). \<not> expired m' w \<and> \<not> bDone (waits m' ! w) \<longrightarrow> w \<in> set (waiting W m)"
    using c d e by (metis subsetD)
  then show ?thesis using c d unfolding conn_ok_def s v by blast
qed

lemma hold_request_ok:
  assumes "mgr_ok A W m" and "b \<Longrightarrow> w \<in> set W"
  shows "mgr_ok A W (hold_request b w m) \<and> adv m (hold_request b w m)"
proof (cases "w < length (waits m)")
  case False
  then show ?thesis using assms(1) by (simp add: hold_request_def list_update_beyond)
next
  case True
  let ?c = "(waits m ! w)\<lparr>wRequest := b\<rparr>"
  let ?m = "hold_request b w m"
  have c: "conn_ok A W m" "wait_ok m" using assms(1) by (simp_all add: mgr_ok_def)
  have c': "conn_ok A W ?m"
    by (rule conn_ok_waits [OF c(1)]) (use True assms(2) in \<open>auto simp: hold_request_def expired_def nth_list_update split: if_splits\<close>)
  have "parked h ?m = parked h m" for h
    using parked_update [OF True, where h = h and c = ?c and x = "suspended m" and y = "ready m"] by (simp add: hold_request_def)
  moreover have "\<forall>c \<in> set (waits ?m). vWaiters c \<noteq> [] \<longrightarrow> wAwaiter c \<and> \<not> bDone c"
    using c(2) True by (simp add: wait_ok_def hold_request_def all_set_conv_all_nth nth_list_update)
  ultimately have w': "wait_ok ?m" using c(2) by (simp add: wait_ok_def hold_request_def)
  have "mgr_ok A W ?m" by (rule conn_op [OF _ _ c' w' assms(1)]) (simp_all add: sess_view_def hold_request_def)
  moreover have "wait_le (waits m) (waits ?m)" using True by (simp add: hold_request_def wait_le_update)
  ultimately show ?thesis by (simp add: hold_request_def adv_def)
qed


text \<open>The current generation is given up: its attempt becomes stale.\<close>

lemma next_generation_ok:
  assumes "mgr_ok [] W m" and "m_vConnectWaiters m = []"
  shows "mgr_ok [] W (m\<lparr>iConnectGeneration := iConnectGeneration m + 1, bConnectPending := False, bServiceDown := d\<rparr>)" (is "mgr_ok [] W ?m")
proof -
  have c: "conn_ok [] W m" "wait_ok m" using assms(1) by (simp_all add: mgr_ok_def)
  have c': "conn_ok [] W ?m"
    using c(1) assms(2) generation_bound [OF c(1)] by (simp add: conn_ok_def waiting_def attempts_def expired_def)
  have w': "wait_ok ?m" using c(2) by (simp add: wait_ok_def parked_def)
  show ?thesis by (rule conn_op [OF _ _ c' w' assms(1)]) (simp_all add: sess_view_def)
qed

lemma finish_generation: "FinishConnectWaiters r (m\<lparr>iConnectGeneration := g, bConnectPending := b\<rparr>)
    = (FinishConnectWaiters r m)\<lparr>iConnectGeneration := g, bConnectPending := b\<rparr>"
proof -
  have "finish_all r ws (m\<lparr>iConnectGeneration := g, bConnectPending := b\<rparr>) = (finish_all r ws m)\<lparr>iConnectGeneration := g, bConnectPending := b\<rparr>" for ws m
  proof (induction ws arbitrary: m)
    case (Cons w ws)
    have "finish_weak r w (m\<lparr>iConnectGeneration := g, bConnectPending := b\<rparr>) = (finish_weak r w m)\<lparr>iConnectGeneration := g, bConnectPending := b\<rparr>"
      by (simp add: finish_weak_def Finish_def Let_def expired_def)
    then show ?case using Cons by (simp add: finish_all_def)
  qed (simp add: finish_all_def)
  from this [of "m_vConnectWaiters m" "m\<lparr>m_vConnectWaiters := []\<rparr>"] show ?thesis
    by (cases m) (simp add: FinishConnectWaiters_def)
qed

lemma FinishConnectWaiters_simps [simp]:
  "m_vConnectWaiters (FinishConnectWaiters r m) = []" "iConnectGeneration (FinishConnectWaiters r m) = iConnectGeneration m"
  "bConnectPending (FinishConnectWaiters r m) = bConnectPending m" "sEndpoint (FinishConnectWaiters r m) = sEndpoint m"
  by (simp_all add: FinishConnectWaiters_def)

lemma CancelConnect_ok:
  assumes "mgr_ok [] W m"
  shows "mgr_ok [] W (CancelConnect m) \<and> adv m (CancelConnect m)"
proof (cases "bConnectPending m")
  case False
  then show ?thesis using assms by (simp add: CancelConnect_def)
next
  case True
  let ?m = "FinishConnectWaiters False m"
  have "CancelConnect m = ?m\<lparr>iConnectGeneration := iConnectGeneration m + 1, bConnectPending := False\<rparr>"
    using True by (simp add: CancelConnect_def finish_generation)
  moreover have "mgr_ok [] W (?m\<lparr>iConnectGeneration := iConnectGeneration ?m + 1, bConnectPending := False, bServiceDown := bServiceDown ?m\<rparr>)"
    by (rule next_generation_ok [OF FinishConnectWaiters_ok [OF assms]]) simp
  ultimately show ?thesis by (simp add: adv_def)
qed

lemma CloseAllSessions_ok: "mgr_ok A W m \<Longrightarrow> mgr_ok A W (CloseAllSessions m) \<and> conn_view (CloseAllSessions m) = conn_view m"
  by (simp add: CloseAllSessions_def close_all_ok)

lemma hooks_ok:
  "mgr_ok [] (w # W) m \<Longrightarrow> mgr_ok [] W (StartConnect N p w m) \<and> adv m (StartConnect N p w m)"
  "mgr_ok [] V m \<Longrightarrow> mgr_ok [] V (run_hook N hs m) \<and> adv m (run_hook N hs m)"
proof (induction N p w m and N hs m arbitrary: W and V rule: StartConnect_run_hook.induct)
  case (1 N taken out hs w m)
  have "hook_ok (run_hook N hs)" unfolding hook_ok_def using 1 by blast
  then show ?case using start_connect_ok 1 by simp
next
  case (3 N p hs m)
  obtain w m1 where n: "new_wait m = (w, m1)" by fastforce
  let ?n = "if stop_requested m1 then Finish False w m1 else hold_request False w (StartConnect N p w (hold_request True w m1))"
  note w = new_wait_ok [OF 3(3) n]
  then have h: "mgr_ok [] (w # V) (hold_request True w m1)" "adv m (hold_request True w m1)"
    using hold_request_ok [of "[]" "w # V" m1 True w] adv_trans by auto
  have "mgr_ok [] V ?n \<and> adv m ?n"
  proof (cases "stop_requested m1")
    case True
    then show ?thesis using w Finish_ok [of "[]" w V m1 False] Finish_adv [of m1 False w] adv_trans by auto
  next
    case False
    let ?b = "StartConnect N p w (hold_request True w m1)"
    have "mgr_ok [] V ?b" "adv m ?b" using 3(1) [OF n [symmetric] False h(1)] adv_trans [OF h(2)] by blast+
    then show ?thesis using False hold_request_ok [of "[]" V ?b False w] adv_trans by auto
  qed
  then show ?case using 3(2) [OF n [symmetric]] adv_trans n by auto
next
  case (4 N sid hs m)
  then show ?case using CloseSession_ok [OF 4(2), of sid] adv_cong adv_trans by (metis run_hook.simps(3))
next
  case (5 N ip port hs m)
  have "adv m (DefaultInit ip port m)" by (simp add: adv_def DefaultInit_def)
  then show ?case using 5 adv_trans by (simp add: address_ok)
next
  case (6 N hs m)
  then show ?case using CancelConnect_ok [OF 6(2)] adv_trans by (metis run_hook.simps(5))
next
  case (7 N hs m)
  then show ?case using CloseAllSessions_ok [OF 7(2)] adv_cong adv_trans by (metis run_hook.simps(6))
qed simp

lemma run_hook_ok: "hook_ok (run_hook N hs)"
  using hooks_ok(2) by (simp add: hook_ok_def)


section \<open>Lemmas: events\<close>

lemma posted_ok:
  assumes "mgr_ok [] (w # W) m"
  shows "mgr_ok [] W (m\<lparr>posted := posted m @ [w]\<rparr>)" (is "mgr_ok [] W ?m")
proof -
  have c: "conn_ok [] (w # W) m" "wait_ok m" using assms by (simp_all add: mgr_ok_def)
  have c': "conn_ok [] W ?m" using c(1) by (auto simp: conn_ok_def waiting_def attempts_def expired_def)
  have w': "wait_ok ?m" using c(2) by (simp add: wait_ok_def parked_def)
  show ?thesis by (rule conn_op [OF _ _ c' w' assms]) (simp_all add: sess_view_def)
qed

lemma unpost_ok:
  assumes "mgr_ok [] W m" and "posted m = w # ws"
  shows "mgr_ok [] (w # W) (m\<lparr>posted := ws\<rparr>)" (is "mgr_ok [] _ ?m")
proof -
  have c: "conn_ok [] W m" "wait_ok m" using assms(1) by (simp_all add: mgr_ok_def)
  have c': "conn_ok [] (w # W) ?m" using c(1) assms(2) by (auto simp: conn_ok_def waiting_def attempts_def expired_def)
  have w': "wait_ok ?m" using c(2) by (simp add: wait_ok_def parked_def)
  show ?thesis by (rule conn_op [OF _ _ c' w' assms(1)]) (simp_all add: sess_view_def)
qed

lemma StartClient_ok:
  assumes "mgr_ok [] W m"
  shows "mgr_ok [] W (StartClient N in_loop p m) \<and> adv m (StartClient N in_loop p m)"
proof -
  obtain w m1 where n: "new_wait m = (w, m1)" by fastforce
  let ?a = "hold_request True w m1" and ?b = "StartConnect N p w (hold_request True w m1)"
  note w = new_wait_ok [OF assms n]
  then have a: "mgr_ok [] (w # W) ?a" "adv m ?a"
    using hold_request_ok [of "[]" "w # W" m1 True w] adv_trans by auto
  then have b: "mgr_ok [] W ?b" "adv m ?b" using hooks_ok(1) adv_trans by blast+
  have "mgr_ok [] W (Finish False w m1)" "adv m (Finish False w m1)"
    using w Finish_ok [of "[]" w W m1 False] Finish_adv [of m1 False w] adv_trans by auto
  moreover have "mgr_ok [] W (hold_request False w ?b)" "adv m (hold_request False w ?b)"
    using hold_request_ok [OF b(1), of False w] adv_trans [OF b(2)] by auto
  moreover have "mgr_ok [] W (?a\<lparr>posted := posted ?a @ [w]\<rparr>)" by (rule posted_ok [OF a(1)])
  moreover have "adv m (?a\<lparr>posted := posted ?a @ [w]\<rparr>)" using a(2) by (simp add: adv_def)
  ultimately show ?thesis unfolding StartClient_def by (simp add: n Let_def)
qed

lemma Suspend_ok:
  assumes "mgr_ok [] W m" and "mgr_can (EvSuspend w h) m"
  shows "mgr_ok [] W (snd (Suspend w h m))"
proof (cases "bDone (waits m ! w)")
  case True
  then show ?thesis using assms(1) by (simp add: Suspend_def)
next
  case False
  let ?c = "(waits m ! w)\<lparr>vWaiters := vWaiters (waits m ! w) @ [h]\<rparr>"
  let ?m = "m\<lparr>waits := (waits m)[w := ?c], suspended := suspended m @ [h]\<rparr>"
  have w: "w < length (waits m)" "wAwaiter (waits m ! w)" using assms(2) by simp_all
  have c: "conn_ok [] W m" "wait_ok m" using assms(1) by (simp_all add: mgr_ok_def)
  have c': "conn_ok [] W ?m"
    by (rule conn_ok_waits [OF c(1)]) (use w in \<open>auto simp: expired_def nth_list_update split: if_splits\<close>)
  have "parked i ?m = parked i m + count_list [h] i" for i
    using parked_update [OF w(1), where h = i and c = ?c and x = "suspended m @ [h]" and y = "ready m"] by simp
  moreover have "\<forall>c \<in> set (waits ?m). vWaiters c \<noteq> [] \<longrightarrow> wAwaiter c \<and> \<not> bDone c"
    using c(2) w False by (simp add: wait_ok_def all_set_conv_all_nth nth_list_update)
  ultimately have w': "wait_ok ?m" using c(2) by (simp add: wait_ok_def)
  have "mgr_ok [] W ?m" by (rule conn_op [OF _ _ c' w' assms(1)]) (simp_all add: sess_view_def)
  then show ?thesis using False by (simp add: Suspend_def Let_def)
qed

lemma drop_awaiter_ok:
  assumes "mgr_ok [] W m" and "mgr_can (EvDropAwaiter w) m"
  shows "mgr_ok [] W (drop_awaiter w m)"
proof -
  let ?c = "(waits m ! w)\<lparr>wAwaiter := False\<rparr>"
  let ?m = "drop_awaiter w m"
  have w: "w < length (waits m)" "vWaiters (waits m ! w) = []" using assms(2) by simp_all
  have c: "conn_ok [] W m" "wait_ok m" using assms(1) by (simp_all add: mgr_ok_def)
  have c': "conn_ok [] W ?m"
    by (rule conn_ok_waits [OF c(1)]) (use w in \<open>auto simp: drop_awaiter_def expired_def nth_list_update split: if_splits\<close>)
  have "parked i ?m = parked i m" for i
    using parked_update [OF w(1), where h = i and c = ?c and x = "suspended m" and y = "ready m"] by (simp add: drop_awaiter_def)
  moreover have "\<forall>c \<in> set (waits ?m). vWaiters c \<noteq> [] \<longrightarrow> wAwaiter c \<and> \<not> bDone c"
    using c(2) w by (simp add: wait_ok_def drop_awaiter_def all_set_conv_all_nth nth_list_update)
  ultimately have w': "wait_ok ?m" using c(2) by (simp add: wait_ok_def drop_awaiter_def)
  show ?thesis by (rule conn_op [OF _ _ c' w' assms(1)]) (simp_all add: sess_view_def drop_awaiter_def)
qed

text \<open>An attempt is taken in hand.\<close>

lemma conn_ok_attempts:
  assumes "conn_ok A W m" and v: "m_vConnectWaiters m' = m_vConnectWaiters m" "iConnectGeneration m' = iConnectGeneration m"
      "bConnectPending m' = bConnectPending m" "bServiceDown m' = bServiceDown m" "posted m' = posted m" "waits m' = waits m"
    and a: "set (attempts A' m') = set (attempts A m)" "distinct (attempts A' m')"
  shows "conn_ok A' W m'"
proof -
  have "waiting W m' = waiting W m" "expired m' = expired m" using v by (simp_all add: waiting_def expired_def fun_eq_iff)
  then show ?thesis using assms(1) a unfolding conn_ok_def v by auto
qed

lemma take_job:
  assumes "mgr_ok [] W m" and "g \<in> set (jobs m)"
  shows "mgr_ok [g] W (m\<lparr>jobs := remove1 g (jobs m)\<rparr>)" (is "mgr_ok _ _ ?m")
proof -
  have c: "conn_ok [] W m" "wait_ok m" using assms(1) by (simp_all add: mgr_ok_def)
  then have "distinct (jobs m @ conns m)" by (simp add: conn_ok_def attempts_def)
  then have c': "conn_ok [g] W ?m"
    by (intro conn_ok_attempts [OF c(1)]) (use assms(2) in \<open>auto simp: attempts_def\<close>)
  have w': "wait_ok ?m" using c(2) by (simp add: wait_ok_def parked_def)
  show ?thesis by (rule conn_op [OF _ _ c' w' assms(1)]) (simp_all add: sess_view_def)
qed

lemma take_conn:
  assumes "mgr_ok [] W m" and "g \<in> set (conns m)"
  shows "mgr_ok [g] W (m\<lparr>conns := remove1 g (conns m)\<rparr>)" (is "mgr_ok _ _ ?m")
proof -
  have c: "conn_ok [] W m" "wait_ok m" using assms(1) by (simp_all add: mgr_ok_def)
  then have "distinct (jobs m @ conns m)" by (simp add: conn_ok_def attempts_def)
  then have c': "conn_ok [g] W ?m"
    by (intro conn_ok_attempts [OF c(1)]) (use assms(2) in \<open>auto simp: attempts_def\<close>)
  have w': "wait_ok ?m" using c(2) by (simp add: wait_ok_def parked_def)
  show ?thesis by (rule conn_op [OF _ _ c' w' assms(1)]) (simp_all add: sess_view_def)
qed

lemma Connect_ok:
  assumes "hook_ok f" and "mgr_ok [] W m" and "g \<in> set (conns m)"
  shows "mgr_ok [] W (Connect_DataOut N f e g m)" "mgr_ok [] W (Connect_DataIn N f e g m)"
  using AbortSession_ok(1) [OF assms(1) take_conn [OF assms(2,3)]] CompleteConnect_ok [OF assms(1) take_conn [OF assms(2,3)]] assms(2)
  by (cases e; simp add: Connect_DataOut_def Connect_DataIn_def CheckTcpConnect_def)+

lemma ApplyService_ok:
  assumes "hook_ok f" and "mgr_ok [] W m"
  shows "mgr_ok [] W (ApplyService N f p ip port b m)"
proof -
  let ?f = "FinishConnectWaiters False"
  have d: "mgr_ok [] W ((?f n)\<lparr>iConnectGeneration := iConnectGeneration (?f n) + 1, bConnectPending := False, bServiceDown := d, sEndpoint := e\<rparr>)"
    if "mgr_ok [] W n" for n d e
    using next_generation_ok [OF FinishConnectWaiters_ok [OF that], of False d] by (simp add: address_ok)
  have s: "mgr_ok [] W (m\<lparr>bServiceSeen := True\<rparr>)"
    using assms(2) same_ok [of "m\<lparr>bServiceSeen := True\<rparr>" m] by (simp add: sess_view_def conn_view_def)
  show ?thesis
    unfolding ApplyService_def Let_def
    using assms(2) s d [OF assms(2)] d [OF s] hook_okD(1) [OF assms(1)] CloseEndpoint_ok StartClient_ok
    by (simp add: address_ok)
qed


lemma PassiveClose_ok:
  assumes "mgr_ok [] W m" and "mgr_can (EvPassiveClose err sid) m"
  shows "mgr_ok [] W (session_PassiveClose err sid m)"
proof -
  have s: "sess_ok m" using assms(1) by (simp add: mgr_ok_def)
  obtain x where x: "objs m sid = Some x" using assms(2) by auto
  have ox: "obj_ok m sid x" using s x by (simp add: sess_okD)
  have e: "session_PassiveClose err sid m = CloseSession sid (on_obj sid (close_obj err) m)"
    using assms(2) by (simp add: session_PassiveClose_def Let_def)
  show ?thesis
  proof (cases "sid \<in> set (mSessionMap m)")
    case False
    then have "on_obj sid (close_obj err) m = m" using ox x by (simp add: on_obj_def close_obj_def obj_ok_def fun_upd_idem)
    then show ?thesis using e assms(1) CloseSession_ok(1) by simp
  next
    case True
    let ?m = "m\<lparr>mSessionMap := removeAll sid (mSessionMap m), objs := (objs m)(sid \<mapsto> close_obj err x)\<rparr>"
    have m: "session_PassiveClose err sid m = ?m" using True x by (simp add: e CloseSession_def on_obj_def close_obj_def)
    have oy: "obj_ok ?m sid (close_obj err x)" using ox True by (auto simp: obj_ok_def close_obj_def split: if_splits)
    have "sess_ok ?m"
      by (rule upd_obj_ok [OF s x, of _ "Some (close_obj err x)"])
        (use oy sess_okD(1) [OF s] in \<open>auto simp: has_channel_def close_obj_def distinct_removeAll\<close>)
    then show ?thesis unfolding m by (rule sess_op [rotated 2, OF _ assms(1)]) (simp_all add: conn_view_def)
  qed
qed

lemma TryClose_ok:
  assumes "mgr_ok [] W m" and "mgr_can (EvTryClose sid) m"
  shows "mgr_ok [] W (Channel_TryClose sid m)"
proof -
  have s: "sess_ok m" using assms(1) by (simp add: mgr_ok_def)
  obtain x where x: "objs m sid = Some x" "se_channel x" using assms(2) by auto
  have ox: "obj_ok m sid x" using s x by (simp add: sess_okD)
  show ?thesis
  proof (cases "se_closed x")
    case False
    then show ?thesis using x assms(1) by (simp add: Channel_TryClose_def)
  next
    case True
    let ?y = "if se_refs x = 1 then None else Some (x\<lparr>se_channel := False, se_refs := se_refs x - 1\<rparr>)"
    let ?m = "m\<lparr>closed_fds := closed_fds m @ [se_fd x], objs := (objs m)(sid := ?y), deleted := deleted m @ [sid]\<rparr>"
    have out: "sid \<notin> set (mSessionMap m)" using ox True by (simp add: obj_ok_def)
    have m: "Channel_TryClose sid m = ?m"
      using x out True by (simp add: Channel_TryClose_def on_obj_def DelSession_def Release_def)
    have r: "se_refs x = 1 + count_list (holders m) sid" using ox x(2) by (simp add: obj_ok_def)
    have oy: "\<And>y. ?y = Some y \<Longrightarrow> obj_ok ?m sid y" using r True out by (auto simp: obj_ok_def split: if_splits)
    have held: "se_refs x = 1 \<longleftrightarrow> sid \<notin> set (holders m)" using r by (simp add: count_list_0_iff)
    have "\<not> has_channel ?y" by (simp add: has_channel_def)
    then have "sess_ok ?m"
      by (intro upd_obj_ok [OF s x(1) _ oy]) (use x(2) out held sess_okD(1) [OF s] in \<open>simp_all split: if_splits\<close>)
    then show ?thesis unfolding m by (rule sess_op [rotated 2, OF _ assms(1)]) (simp_all add: conn_view_def)
  qed
qed

lemma send_begin_ok:
  assumes "mgr_ok [] W m"
  shows "mgr_ok [] W (snd (send_begin sid m))"
proof (cases "sid \<in> set (mSessionMap m)")
  case False
  then show ?thesis using assms by (simp add: send_begin_def)
next
  case True
  have s: "sess_ok m" using assms by (simp add: mgr_ok_def)
  then obtain x where x: "objs m sid = Some x" using True sess_okD(2) by blast
  have ox: "obj_ok m sid x" using s x by (simp add: sess_okD)
  let ?y = "x\<lparr>se_refs := se_refs x + 1\<rparr>"
  let ?m = "m\<lparr>objs := (objs m)(sid \<mapsto> ?y), holders := holders m @ [sid]\<rparr>"
  have m: "snd (send_begin sid m) = ?m" using True x by (simp add: send_begin_def on_obj_def)
  have oy: "obj_ok ?m sid ?y" using ox by (auto simp: obj_ok_def)
  have "sess_ok ?m"
    by (rule upd_obj_ok [OF s x, of _ "Some ?y"]) (use oy sess_okD(1) [OF s] in \<open>auto simp: has_channel_def\<close>)
  then show ?thesis unfolding m by (rule sess_op [rotated 2, OF _ assms]) (simp_all add: conn_view_def)
qed

lemma count_remove1: "count_list (remove1 x xs) y = count_list xs y - (if x = y then 1 else 0)"
  by (induction xs) (auto simp: neq0_conv [symmetric] count_list_0_iff)

lemma send_end_ok:
  assumes "mgr_ok [] W m" and "mgr_can (EvSendEnd sid) m"
  shows "mgr_ok [] W (send_end sid m)"
proof -
  have s: "sess_ok m" using assms(1) by (simp add: mgr_ok_def)
  have h: "sid \<in> set (holders m)" using assms(2) by simp
  then obtain x where x: "objs m sid = Some x" using s sess_okD(3) by blast
  have ox: "obj_ok m sid x" using s x by (simp add: sess_okD)
  have n: "count_list (holders m) sid \<noteq> 0" using h by (simp add: count_list_0_iff)
  let ?y = "if se_refs x = 1 then None else Some (x\<lparr>se_refs := se_refs x - 1\<rparr>)"
  let ?m = "m\<lparr>holders := remove1 sid (holders m), objs := (objs m)(sid := ?y)\<rparr>"
  have m: "send_end sid m = ?m" using x by (simp add: send_end_def Release_def)
  have oy: "\<And>y. ?y = Some y \<Longrightarrow> obj_ok ?m sid y" using ox n by (auto simp: obj_ok_def count_remove1 split: if_splits)
  have last: "se_refs x = 1 \<Longrightarrow> \<not> se_channel x \<and> sid \<notin> set (mSessionMap m) \<and> sid \<notin> set (remove1 sid (holders m))"
    using ox n by (auto simp: obj_ok_def count_remove1 count_list_0_iff [symmetric] split: if_splits)
  have "sess_ok ?m"
    by (rule upd_obj_ok [OF s x, of _ ?y])
      (use oy last sess_okD(1) [OF s] in \<open>auto simp: has_channel_def count_remove1 split: if_splits\<close>)
  then show ?thesis unfolding m by (rule sess_op [rotated 2, OF _ assms(1)]) (simp_all add: conn_view_def)
qed

lemma mgr_step_ok:
  assumes "mgr_ok [] [] m" and "mgr_can e m"
  shows "mgr_ok [] [] (mgr_step N e m)"
proof (cases e)
  case (EvLoop p)
  show ?thesis
  proof (cases "posted m")
    case (Cons w ws)
    have "mgr_ok [] [] (StartConnect N p w (m\<lparr>posted := ws\<rparr>))" using hooks_ok(1) [OF unpost_ok [OF assms(1) Cons]] by simp
    from hold_request_ok [OF this, of False w] show ?thesis using EvLoop Cons by simp
  qed (use assms EvLoop in simp)
next
  case (EvResolved g l out hs)
  then have "g \<in> set (jobs m)" using assms(2) by simp
  from OnResolved_ok [OF run_hook_ok take_job [OF assms(1) this]] show ?thesis using EvResolved by (simp split: prod.splits)
next
  case EvStop
  then show ?thesis using assms(1) same_ok [of "m\<lparr>stop_requested := True\<rparr>" m] by (simp add: sess_view_def conn_view_def)
qed (use assms StartClient_ok Suspend_ok drop_awaiter_ok Connect_ok [OF run_hook_ok] ApplyService_ok [OF run_hook_ok] hooks_ok(2)
    AddSession_ok [OF run_hook_ok] PassiveClose_ok TryClose_ok send_begin_ok send_end_ok in \<open>simp_all del: mgr_can.simps(1,2,6,7) add: mgr_can.simps(4,5)\<close>)

lemma mgr_run_ok: "mgr_ok [] [] m \<Longrightarrow> mgr_run N es m = Some m' \<Longrightarrow> mgr_ok [] [] m'"
proof (induction es arbitrary: m)
  case (Cons e es)
  then show ?case using mgr_step_ok [OF Cons.prems(1), of e N] by (simp split: if_splits)
qed simp

lemma init_mgr_ok: "mgr_ok [] [] (SessionManager ip port service endpoint)"
  by (simp add: SessionManager_def mgr_ok_def conn_ok_def wait_ok_def sess_ok_def waiting_def attempts_def parked_def)


section \<open>Lemmas: waiters are woken\<close>

lemma distinct_count: "x \<in> set xs \<Longrightarrow> distinct xs \<Longrightarrow> count_list xs x = 1"
  by (induction xs) auto

lemma waiter_ok:
  assumes "mgr_ok A W m" and "w \<in> set (m_vConnectWaiters m)"
  shows "\<forall>v \<in> set (m_vConnectWaiters m). v < length (waits m)" "w < length (waits m)" "\<not> bDone (waits m ! w)" "bConnectPending m"
  using assms by (auto simp: mgr_ok_def conn_ok_def waiting_def)

lemma adv_done: "adv m m' \<Longrightarrow> w < length (waits m) \<Longrightarrow> bDone (waits m ! w) \<Longrightarrow> bDone (waits m' ! w) \<and> bResult (waits m' ! w) = bResult (waits m ! w)"
  by (simp add: adv_def wait_le_def)

lemma AbortSession_done:
  assumes "hook_ok f" and "mgr_ok [g] W m" and "g = iConnectGeneration m"
    and "w \<in> set (m_vConnectWaiters m)" and "wAwaiter (waits m ! w)"
  shows "bDone (waits (AbortSession f g m) ! w) \<and> \<not> bResult (waits (AbortSession f g m) ! w)"
proof -
  note v = waiter_ok [OF assms(2,4)]
  let ?m = "finish_all False (m_vConnectWaiters m) (m\<lparr>m_vConnectWaiters := [], bConnectPending := False\<rparr>)"
  let ?n = "?m\<lparr>iCurrentSessionId := iCurrentSessionId m + 1\<rparr>"
  have a: "AbortSession f g m = f ?n" using v assms(3) by (simp add: AbortSession_def finish_pending)
  have "mgr_ok [] W ?m" by (intro finish_all_ok settle_ok [OF assms(2,3)])
  from next_number_ok [OF this] have n: "mgr_ok [] W ?n" by simp
  have "bDone (waits ?m ! w) \<and> bResult (waits ?m ! w) = False"
    by (rule finish_all_done [OF assms(4)]) (use v assms(5) in simp_all)
  then show ?thesis unfolding a using adv_done [OF hook_okD(2) [OF assms(1) n], of w] v(2) by simp
qed

lemma CompleteConnect_done:
  assumes "hook_ok f" and "mgr_ok [g] W m" and "g = iConnectGeneration m"
    and "w \<in> set (m_vConnectWaiters m)" and "wAwaiter (waits m ! w)"
  shows "bDone (waits (CompleteConnect N f fd g m) ! w) \<and> bResult (waits (CompleteConnect N f fd g m) ! w)"
proof -
  note v = waiter_ok [OF assms(2,4)]
  let ?m = "m\<lparr>m_vConnectWaiters := [], bConnectPending := False\<rparr>"
  let ?n = "AddSession N f fd ?m"
  have "\<not> bServiceDown m" using v(4) assms(2) by (simp add: mgr_ok_def conn_ok_def)
  then have c: "CompleteConnect N f fd g m = finish_all True (m_vConnectWaiters m) ?n"
    using v assms(3) by (simp add: CompleteConnect_def)
  have n: "mgr_ok [] (m_vConnectWaiters m @ W) ?n" "adv ?m ?n"
    using AddSession_ok [OF assms(1) settle_ok [OF assms(2,3)]] by blast+
  have "\<not> bDone (waits ?n ! w)" using n(1) assms(4) by (simp add: mgr_ok_def conn_ok_def waiting_def)
  moreover have "wAwaiter (waits ?n ! w)" "\<forall>v \<in> set (m_vConnectWaiters m). v < length (waits ?n)"
    using n(2) v(1,2) assms(5) by (force simp: adv_def wait_le_def)+
  ultimately show ?thesis unfolding c using finish_all_done [OF assms(4), of ?n True] by simp
qed

text \<open>Either the attempt is over and the waiter woken, or its socket is being connected.\<close>

definition still_connecting :: "nat \<Rightarrow> nat \<Rightarrow> mgr \<Rightarrow> bool" where
  "still_connecting g w m \<longleftrightarrow> w \<in> set (m_vConnectWaiters m) \<and> g \<in> set (conns m) \<and> iConnectGeneration m = g"

lemma OnResolved_done:
  assumes "hook_ok f" and "mgr_ok [g] W m" and "g = iConnectGeneration m"
    and "w \<in> set (m_vConnectWaiters m)" and "wAwaiter (waits m ! w)"
  shows "bDone (waits (OnResolved N f out g bOk a m) ! w) \<or> out = InProgress \<and> still_connecting g w (OnResolved N f out g bOk a m)"
proof -
  note v = waiter_ok [OF assms(2,4)]
  let ?m = "(DefaultInit (Host a) (sPort m) m)\<lparr>sEndpoint := Endpoint a\<rparr>"
  have m: "mgr_ok [g] W ?m" using assms(2) by (simp only: address_ok)
  have e: "g = iConnectGeneration ?m" "w \<in> set (m_vConnectWaiters ?m)" "wAwaiter (waits ?m ! w)" "bConnectPending ?m"
    using assms(3,4,5) v(4) by (simp_all add: DefaultInit_def)
  have f: "bDone (waits (FinishConnectWaiters True (?m\<lparr>bConnectPending := False\<rparr>)) ! w)"
    unfolding finish_pending using finish_all_done [OF e(2), of "?m\<lparr>m_vConnectWaiters := [], bConnectPending := False\<rparr>" True] v e(3)
    by (simp add: DefaultInit_def)
  have ab: "bDone (waits (AbortSession f g ?m) ! w)" "bDone (waits (AbortSession f g (AbortSession f g ?m)) ! w)"
    using AbortSession_done [OF assms(1) m e(1,2,3)] AbortSession_ok(3) [OF assms(1) m] by (auto simp: AbortSession_def [of f g "AbortSession f g ?m"])
  have co: "bDone (waits (CompleteConnect N f fd g ?m) ! w)" for fd using CompleteConnect_done [OF assms(1) m e(1,2,3)] by simp
  show ?thesis
    using AbortSession_done [OF assms] f ab co e assms(3) v(4)
    by (cases out) (auto simp: OnResolved_def Let_def StartTcpConnect_def still_connecting_def)
qed


section \<open>Theorems\<close>

text \<open>An address that is a literal, and a client that connects to it from another thread.\<close>

definition demo_inet :: inet where
  "demo_inet = \<lparr>pton4 = (\<lambda>s. if s = ''127.0.0.1'' then Some s else None), pton6 = (\<lambda>_. None)\<rparr>"

definition demo_client :: mgr where
  "demo_client = SessionManager ''127.0.0.1'' ''80'' [] []"

definition demo_connecting :: "mgr_event list" where
  "demo_connecting = [EvStartClient False (Plan True InProgress []), EvSuspend 0 5, EvLoop (Plan True InProgress [])]"

definition demo_connected :: "mgr_event list" where
  "demo_connected = demo_connecting @ [EvConnectOut 1 (Established 9) [HClose 1, HInit ''x'' ''81'', HStart (Plan True NoSocket [])],
     EvSendBegin 1, EvPassiveClose 104 1, EvTryClose 1]"

lemma demo_runs:
  "mgr_run demo_inet demo_connecting demo_client \<noteq> None" "mgr_run demo_inet demo_connected demo_client \<noteq> None"
  by code_simp+

lemma demo_states:
  "ready (the (mgr_run demo_inet demo_connected demo_client)) = [5]"
  "length (waits (the (mgr_run demo_inet demo_connecting demo_client))) = 1"
  "wAwaiter (waits (the (mgr_run demo_inet demo_connecting demo_client)) ! 0)"
  "\<not> bDone (waits (the (mgr_run demo_inet demo_connecting demo_client)) ! 0)"
  "added (the (mgr_run demo_inet demo_connected demo_client)) = [1]"
  "posted (the (mgr_run demo_inet demo_connecting demo_client)) = []"
  by code_simp+

text \<open>
  Whatever happens to the connections of a manager, a coroutine that was suspended on a connection is,
  as often as it was suspended, either still parked on an attempt without a result or was handed to the
  scheduler: none is lost and none is resumed twice. An attempt with a result has nobody parked on it.
\<close>

theorem connect_resumes_once:
  assumes "mgr_run N es (SessionManager ip port service endpoint) = Some m"
  shows "count_list (suspended m) h = parked h m + count_list (ready m) h
    \<and> (\<forall>c \<in> set (waits m). bDone c \<longrightarrow> vWaiters c = [])"
  using mgr_run_ok [OF init_mgr_ok assms] by (auto simp: mgr_ok_def wait_ok_def)

theorem connect_resumes_once_witness:
  "\<exists>m. mgr_run demo_inet demo_connected demo_client = Some m \<and> ready m = [5] \<and> count_list (suspended m) 5 = parked 5 m + 1"
proof -
  obtain m where m: "mgr_run demo_inet demo_connected demo_client = Some m" using demo_runs(2) by blast
  then have "ready m = [5]" using demo_states(1) by simp
  then show ?thesis using connect_resumes_once [OF m [unfolded demo_client_def], of 5] m by simp
qed





end
