(* ===== verification/OI_Udp.thy ===== *)
theory OI_Udp
  imports OI_Manager "HOL-Library.AList"
begin

text \<open>
  The UDP channel (cbaselib/net/src/oi_udp_channel.cpp): one bound socket, one session for each address
  that sends or is sent to.

  A peer is an object of the heap \<open>peers\<close>, a freed one is \<open>None\<close>. The sessions are those of \<open>OI_Session\<close>,
  kept by number; what the sessions' channel is asked for is written to the session's \<open>bWriteEvent\<close>, and
  \<open>peer_AllowSend\<close>, the peer's version of \<open>AllowSend\<close>, acts on it: it sends what is queued as one datagram,
  or registers the peer of a closed session for removal. \<open>table\<close> are the numbers in the session manager's
  table, \<open>wire\<close> the datagrams that were handed to the system. What a handler of a received message sends is
  an operation of its own. Each operation is one step; what threads do is a sequence of them in any order.

  \<open>udp_fault\<close> records that a freed peer or session was used or that the assertion in \<open>DelSession\<close> failed.
\<close>

section \<open>State\<close>

record peer =
  m_stAddr :: NetAddr
  p_sid :: int
  m_iLastActive :: nat
  m_bClosing :: bool

record 'e udp =
  m_mPeers :: "(string \<times> nat) list"
  m_mSessions :: "(int \<times> nat) list"
  m_vClosing :: "nat list"
  m_bRecyclePosted :: bool
  posted_recycles :: nat
  peers :: "nat \<Rightarrow> peer option"
  next_peer :: nat
  sess :: "int \<Rightarrow> 'e session option"
  table :: "int list"
  last_sid :: int
  closed_sids :: "int list"
  wire :: "(NetAddr \<times> bytes) list"
  udp_fault :: bool

definition UDP_Channel :: "'e udp" where
  "UDP_Channel = \<lparr>m_mPeers = [], m_mSessions = [], m_vClosing = [], m_bRecyclePosted = False, posted_recycles = 0,
    peers = (\<lambda>_. None), next_peer = 0, sess = (\<lambda>_. None), table = [], last_sid = 0, closed_sids = [], wire = [], udp_fault = False\<rparr>"

text \<open>What the manager gives to a new session: the object that \<open>CloneSession\<close> makes, and the limits.\<close>

record 'e udp_config =
  CloneSession :: "'e session"
  udp_limits :: limits

definition new_session :: "'e udp_config \<Rightarrow> 'e session" where
  "new_session C = (SetSendQueueLimit (mgrMaxSendQueueBytes (udp_limits C)) (CloneSession C))
     \<lparr>iMaxReceiveBufferBytes := mgrMaxReceiveBufferBytes (udp_limits C), bChannel := True, bWriteEvent := False\<rparr>"

section \<open>Operations\<close>

text \<open>
  \<open>StartBind\<close>: the channel of the manager and the number of open descriptors. The arguments say whether the
  address could be made from the manager's identity, and how \<open>socket\<close>, \<open>bind\<close> and \<open>getsockname\<close> ended.
\<close>

definition StartBind :: "bool \<Rightarrow> bool \<Rightarrow> bool \<Rightarrow> bool \<Rightarrow> 'e udp option \<times> nat \<Rightarrow> bool \<times> 'e udp option \<times> nat" where
  "StartBind addr_ok socket_ok bind_ok name_ok st = (case st of (cur, fds) \<Rightarrow>
     if cur \<noteq> None then (False, cur, fds)
     else if \<not> addr_ok then (False, None, fds)
     else if \<not> socket_ok then (False, None, fds)
     else let fds1 = fds + 1
       in if \<not> bind_ok then (False, None, fds1 - 1)
          else if \<not> name_ok then (False, None, fds1 - 1)
          else (True, Some UDP_Channel, fds1))"

definition peer_closed :: "'e udp \<Rightarrow> nat \<Rightarrow> bool" where
  "peer_closed u p = (case peers u p of None \<Rightarrow> True | Some pr \<Rightarrow>
     (case sess u (p_sid pr) of None \<Rightarrow> True | Some s \<Rightarrow> IsClosed s))"

definition open_new :: "'e udp_config \<Rightarrow> nat \<Rightarrow> NetAddr \<Rightarrow> 'e udp \<Rightarrow> nat \<times> 'e udp" where
  "open_new C now a u =
    (let p = next_peer u; sid = last_sid u + 1
     in (p, u\<lparr>next_peer := p + 1, last_sid := sid,
         peers := (peers u)(p \<mapsto> \<lparr>m_stAddr = a, p_sid = sid, m_iLastActive = now, m_bClosing = False\<rparr>),
         sess := (sess u)(sid \<mapsto> new_session C), table := table u @ [sid],
         m_mPeers := AList.update (Endpoint a) p (m_mPeers u), m_mSessions := AList.update sid p (m_mSessions u)\<rparr>))"

definition OpenLocked :: "'e udp_config \<Rightarrow> nat \<Rightarrow> NetAddr \<Rightarrow> 'e udp \<Rightarrow> nat \<times> 'e udp" where
  "OpenLocked C now a u = (case map_of (m_mPeers u) (Endpoint a) of
      None \<Rightarrow> open_new C now a u
    | Some p \<Rightarrow>
        if peers u p = None then (p, u\<lparr>udp_fault := True\<rparr>)
        else if \<not> peer_closed u p then (p, u) else open_new C now a u)"

definition OpenPeer :: "'e udp_config \<Rightarrow> nat \<Rightarrow> NetAddr \<Rightarrow> 'e udp \<Rightarrow> int \<times> 'e udp" where
  "OpenPeer C now a u = (case OpenLocked C now a u of (p, u1) \<Rightarrow>
     (case peers u1 p of None \<Rightarrow> (0, u1\<lparr>udp_fault := True\<rparr>) | Some pr \<Rightarrow> (p_sid pr, u1)))"

definition GetPeerAddr :: "int \<Rightarrow> 'e udp \<Rightarrow> NetAddr option" where
  "GetPeerAddr sid u = (case map_of (m_mSessions u) sid of None \<Rightarrow> None | Some p \<Rightarrow> map_option m_stAddr (peers u p))"

definition put_peer :: "nat \<Rightarrow> peer \<Rightarrow> 'e udp \<Rightarrow> 'e udp" where
  "put_peer p pr u = u\<lparr>peers := (peers u)(p \<mapsto> pr)\<rparr>"

definition put_sess :: "int \<Rightarrow> 'e session \<Rightarrow> 'e udp \<Rightarrow> 'e udp" where
  "put_sess sid s u = u\<lparr>sess := (sess u)(sid \<mapsto> s)\<rparr>"

text \<open>\<open>sent\<close>: whether \<open>sendto\<close> takes the datagram; one that it does not take is lost.\<close>

definition Flush :: "allocator \<Rightarrow> bool \<Rightarrow> nat \<Rightarrow> nat \<Rightarrow> peer \<Rightarrow> 'e session \<Rightarrow> 'e udp \<Rightarrow> 'e udp" where
  "Flush A sent now p pr s u = (case SwapOutBuff A Bytes_empty s of
      Inl _ \<Rightarrow> u
    | Inr (out, s1) \<Rightarrow>
        if m_iSize out = 0 then put_sess (p_sid pr) s1 u
        else put_peer p (pr\<lparr>m_iLastActive := now\<rparr>) (put_sess (p_sid pr) (OnBytesSent (m_iSize out) s1)
          (if sent then u\<lparr>wire := wire u @ [(m_stAddr pr, content out)]\<rparr> else u)))"

definition MarkClosing :: "nat \<Rightarrow> peer \<Rightarrow> 'e udp \<Rightarrow> 'e udp" where
  "MarkClosing p pr u =
    (if m_bClosing pr then u
     else (put_peer p (pr\<lparr>m_bClosing := True\<rparr>) u)\<lparr>m_vClosing := m_vClosing u @ [p], m_bRecyclePosted := True,
       posted_recycles := posted_recycles u + (if m_bRecyclePosted u then 0 else 1)\<rparr>)"

text \<open>\<open>UDP_PeerChannel::AllowSend\<close>, when the session has called it.\<close>

definition peer_AllowSend :: "allocator \<Rightarrow> bool \<Rightarrow> nat \<Rightarrow> nat \<Rightarrow> 'e udp \<Rightarrow> 'e udp" where
  "peer_AllowSend A sent now p u = (case peers u p of
      None \<Rightarrow> u\<lparr>udp_fault := True\<rparr>
    | Some pr \<Rightarrow> (case sess u (p_sid pr) of
        None \<Rightarrow> u\<lparr>udp_fault := True\<rparr>
      | Some s \<Rightarrow>
          if \<not> bWriteEvent s then u
          else let s1 = s\<lparr>bWriteEvent := False\<rparr>; u1 = put_sess (p_sid pr) s1 u
            in if IsClosed s1 then MarkClosing p pr u1 else Flush A sent now p pr s1 u1))"

text \<open>An operation on the session of a peer, with the call of the channel that it makes.\<close>

definition on_session :: "allocator \<Rightarrow> bool \<Rightarrow> nat \<Rightarrow> nat \<Rightarrow> ('e session \<Rightarrow> 'e session) \<Rightarrow> 'e udp \<Rightarrow> 'e udp" where
  "on_session A sent now p f u = (case peers u p of
      None \<Rightarrow> u\<lparr>udp_fault := True\<rparr>
    | Some pr \<Rightarrow> (case sess u (p_sid pr) of
        None \<Rightarrow> u\<lparr>udp_fault := True\<rparr>
      | Some s \<Rightarrow> peer_AllowSend A sent now p (put_sess (p_sid pr) (f s) u)))"

text \<open>\<open>SessionManager::SendBytesResult\<close> on a session of this channel.\<close>

definition udp_Send :: "allocator \<Rightarrow> bool \<Rightarrow> nat \<Rightarrow> int \<Rightarrow> bytes_obj \<Rightarrow> 'e udp \<Rightarrow> exc + int \<times> 'e udp" where
  "udp_Send A sent now sid stData u =
    (if sid \<notin> set (table u) then Inr (OI_ERR_CONNECT, u)
     else case (map_of (m_mSessions u) sid, sess u sid) of
        (Some p, Some s) \<Rightarrow> (case SendResult A stData s of
            Inl e \<Rightarrow> Inl e
          | Inr (c, s') \<Rightarrow> Inr (c, on_session A sent now p (\<lambda>_. s') u))
      | _ \<Rightarrow> Inr (OI_ERR_CONNECT, u\<lparr>udp_fault := True\<rparr>))"

text \<open>\<open>SessionManager::CloseSession\<close> and \<open>NetSession::PassiveClose\<close>.\<close>

definition udp_CloseSession :: "allocator \<Rightarrow> nat \<Rightarrow> int \<Rightarrow> 'e udp \<Rightarrow> 'e udp" where
  "udp_CloseSession A now sid u =
    (if sid \<notin> set (table u) then u
     else case map_of (m_mSessions u) sid of
        None \<Rightarrow> u\<lparr>udp_fault := True\<rparr>
      | Some p \<Rightarrow> on_session A True now p ActiveClose (u\<lparr>table := removeAll sid (table u)\<rparr>))"

text \<open>
  After an operation that may have closed the session of \<open>p\<close> with an error (a \<open>PassiveClose\<close> on the way calls
  \<open>CloseSession\<close> of the manager): its number leaves the table.
\<close>

definition drop_closed :: "nat \<Rightarrow> 'e udp \<Rightarrow> 'e udp" where
  "drop_closed p u = (case peers u p of
      None \<Rightarrow> u
    | Some pr \<Rightarrow> if peer_closed u p then u\<lparr>table := removeAll (p_sid pr) (table u)\<rparr> else u)"

definition recycle_one :: "nat \<Rightarrow> 'e udp \<Rightarrow> 'e udp" where
  "recycle_one p u = (case peers u p of
      None \<Rightarrow> u\<lparr>udp_fault := True\<rparr>
    | Some pr \<Rightarrow>
        let e = Endpoint (m_stAddr pr); sid = p_sid pr;
            u1 = (if map_of (m_mPeers u) e = Some p then u\<lparr>m_mPeers := AList.delete e (m_mPeers u)\<rparr> else u);
            u2 = (if map_of (m_mSessions u1) sid = Some p then u1\<lparr>m_mSessions := AList.delete sid (m_mSessions u1)\<rparr> else u1)
        in case sess u2 sid of
            None \<Rightarrow> u2\<lparr>udp_fault := True\<rparr>
          | Some s \<Rightarrow>
              let u3 = put_sess sid (DetachChannel s) u2;
                  u4 = (if sid \<in> set (table u3) then u3\<lparr>udp_fault := True\<rparr> else u3\<lparr>closed_sids := closed_sids u3 @ [sid]\<rparr>)
              in u4\<lparr>peers := (peers u4)(p := None)\<rparr>)"

definition Recycle :: "'e udp \<Rightarrow> 'e udp" where
  "Recycle u = fold recycle_one (m_vClosing u) (u\<lparr>m_vClosing := [], m_bRecyclePosted := False, posted_recycles := posted_recycles u - 1\<rparr>)"

text \<open>The interval of the idle timer.\<close>

definition idle_repeat :: "nat \<Rightarrow> nat" where
  "idle_repeat iIdle = (if iIdle < 4000 then (if iIdle div 4 > 0 then iIdle div 4 else 1) else 1000)"

definition is_idle :: "nat \<Rightarrow> nat \<Rightarrow> 'e udp \<Rightarrow> nat \<Rightarrow> bool" where
  "is_idle now iIdle u p = (case peers u p of
      None \<Rightarrow> False
    | Some pr \<Rightarrow> now > m_iLastActive pr \<and> now - m_iLastActive pr \<ge> iIdle \<and> \<not> peer_closed u p)"

definition close_idle_one :: "allocator \<Rightarrow> nat \<Rightarrow> nat \<Rightarrow> 'e udp \<Rightarrow> 'e udp" where
  "close_idle_one A now p u = drop_closed p (on_session A True now p (PassiveClose ETIMEDOUT) u)"

definition CloseIdle :: "allocator \<Rightarrow> nat \<Rightarrow> nat \<Rightarrow> 'e udp \<Rightarrow> 'e udp" where
  "CloseIdle A now iIdle u = fold (close_idle_one A now) (filter (is_idle now iIdle u) (map snd (m_mPeers u))) u"

text \<open>
  Answers of \<open>recvfrom\<close>: a datagram with its source, nothing more to read or an error, and an interrupted
  call. A datagram longer than the receive buffer is cut by the system.
\<close>

datatype recv_from = RecvDatagram NetAddr bytes | RecvStop | RecvInterrupted

definition receive_one :: "allocator \<Rightarrow> 'e udp_config \<Rightarrow> 'e deliver \<Rightarrow> nat \<Rightarrow> NetAddr \<Rightarrow> bytes \<Rightarrow> 'e udp \<Rightarrow> exc + 'e udp" where
  "receive_one A C deliver now a d u =
    (if d = [] \<or> a = AF_UNSPEC then Inr u
     else case Append_ext A d Bytes_empty of
        Inl e \<Rightarrow> Inl e
      | Inr stPacket \<Rightarrow> (case OpenLocked C now a u of (p, u1) \<Rightarrow> (case peers u1 p of
            None \<Rightarrow> Inr (u1\<lparr>udp_fault := True\<rparr>)
          | Some pr \<Rightarrow>
              let u2 = put_peer p (pr\<lparr>m_iLastActive := now\<rparr>) u1
              in case sess u2 (p_sid pr) of
                  None \<Rightarrow> Inr (u2\<lparr>udp_fault := True\<rparr>)
                | Some s \<Rightarrow> (case SwapInBuff A True deliver stPacket s of
                      Inl e \<Rightarrow> Inl e
                    | Inr (_, s') \<Rightarrow> Inr (drop_closed p (on_session A True now p (\<lambda>_. s') u2))))))"

fun data_in_rounds :: "allocator \<Rightarrow> 'e udp_config \<Rightarrow> 'e deliver \<Rightarrow> nat \<Rightarrow> nat \<Rightarrow> recv_from list \<Rightarrow> 'e udp \<Rightarrow> exc + 'e udp" where
  "data_in_rounds A C deliver now 0 rs u = Inr u"
| "data_in_rounds A C deliver now (Suc n) [] u = Inr u"
| "data_in_rounds A C deliver now (Suc n) (RecvInterrupted # rs) u = data_in_rounds A C deliver now n rs u"
| "data_in_rounds A C deliver now (Suc n) (RecvStop # rs) u = Inr u"
| "data_in_rounds A C deliver now (Suc n) (RecvDatagram a d # rs) u = (case receive_one A C deliver now a d u of
     Inl e \<Rightarrow> Inl e | Inr u' \<Rightarrow> data_in_rounds A C deliver now n rs u')"

definition udp_DataIn :: "allocator \<Rightarrow> 'e udp_config \<Rightarrow> 'e deliver \<Rightarrow> nat \<Rightarrow> recv_from list \<Rightarrow> 'e udp \<Rightarrow> exc + 'e udp" where
  "udp_DataIn A C deliver now rs u = data_in_rounds A C deliver now 64 rs u"


section \<open>Invariant\<close>

text \<open>
  \<open>V\<close> are the peers that \<open>Recycle\<close> has in hand. A peer that exists has its session; it is registered for
  removal exactly when the session is closed, which is exactly when its number has left the table. A peer
  whose session is open is the one both tables know for its address and number. An open session that has
  bytes queued has called its channel (\<open>settled\<close>).
\<close>

definition closing :: "nat list \<Rightarrow> 'e udp \<Rightarrow> nat list" where
  "closing V u = V @ m_vClosing u"

definition settled :: "'e session \<Rightarrow> bool" where
  "settled s \<longleftrightarrow> IsClosed s \<or> bytes_ok (stOutputBuffer s) \<and> iQueuedBytes s = m_iSize (stOutputBuffer s)
     \<and> (bWriteEvent s \<or> stOutputBuffer s = Bytes_empty)"

text \<open>A session of datagrams holds no rest of an earlier one.\<close>

definition fresh_in :: "'e session \<Rightarrow> bool" where
  "fresh_in s \<longleftrightarrow> m_bDatagram s \<and> m_iSize (stInputBuffer s) = 0"

definition peer_ok :: "nat list \<Rightarrow> 'e udp \<Rightarrow> nat \<Rightarrow> peer \<Rightarrow> 'e session \<Rightarrow> bool" where
  "peer_ok V u p pr s \<longleftrightarrow> p < next_peer u \<and> p_sid pr \<le> last_sid u \<and> p_sid pr \<notin> set (closed_sids u)
     \<and> bChannel s \<and> \<not> bWriteEvent s \<and> settled s \<and> fresh_in s \<and> m_bClosing pr = IsClosed s \<and> (p \<in> set (closing V u) \<longleftrightarrow> IsClosed s)
     \<and> (p_sid pr \<in> set (table u) \<longleftrightarrow> \<not> IsClosed s)
     \<and> (\<not> IsClosed s \<longrightarrow> map_of (m_mPeers u) (Endpoint (m_stAddr pr)) = Some p \<and> map_of (m_mSessions u) (p_sid pr) = Some p)"

definition tables_ok :: "nat list \<Rightarrow> 'e udp \<Rightarrow> bool" where
  "tables_ok V u \<longleftrightarrow>
     (\<forall>e p. map_of (m_mPeers u) e = Some p \<longrightarrow> (\<exists>pr. peers u p = Some pr \<and> Endpoint (m_stAddr pr) = e))
   \<and> (\<forall>sid p. map_of (m_mSessions u) sid = Some p \<longrightarrow> (\<exists>pr. peers u p = Some pr \<and> p_sid pr = sid))
   \<and> (\<forall>sid \<in> set (table u). \<exists>p pr. peers u p = Some pr \<and> p_sid pr = sid)
   \<and> (\<forall>p q a b. peers u p = Some a \<longrightarrow> peers u q = Some b \<longrightarrow> p_sid a = p_sid b \<longrightarrow> p = q)
   \<and> (\<forall>p \<in> set (closing V u). peers u p \<noteq> None)"

definition queue_ok :: "nat list \<Rightarrow> 'e udp \<Rightarrow> bool" where
  "queue_ok V u \<longleftrightarrow> distinct (closing V u) \<and> (m_bRecyclePosted u \<longleftrightarrow> m_vClosing u \<noteq> [])
   \<and> posted_recycles u = (if m_bRecyclePosted u then 1 else 0)
   \<and> distinct (closed_sids u) \<and> (\<forall>sid \<in> set (closed_sids u). sid \<le> last_sid u)"

text \<open>Every number given so far belongs to a peer or was reported as closed.\<close>

definition live_sids :: "'e udp \<Rightarrow> int set" where
  "live_sids u = p_sid ` ran (peers u)"

definition sids_ok :: "'e udp \<Rightarrow> bool" where
  "sids_ok u \<longleftrightarrow> 0 \<le> last_sid u \<and> live_sids u \<union> set (closed_sids u) = {1..last_sid u}"

definition udp_ok :: "nat list \<Rightarrow> 'e udp \<Rightarrow> bool" where
  "udp_ok V u \<longleftrightarrow> tables_ok V u \<and> queue_ok V u \<and> sids_ok u \<and> \<not> udp_fault u
   \<and> (\<forall>p pr. peers u p = Some pr \<longrightarrow> (\<exists>s. sess u (p_sid pr) = Some s \<and> peer_ok V u p pr s))"

lemma live_sids_same:
  "peers u p = Some pr \<Longrightarrow> p_sid pr' = p_sid pr \<Longrightarrow> peers u' = (peers u)(p \<mapsto> pr') \<Longrightarrow> live_sids u' = live_sids u"
  by (auto simp: live_sids_def ran_def image_iff) (metis option.inject)+

lemma live_sids_new: "peers u p = None \<Longrightarrow> peers u' = (peers u)(p \<mapsto> pr) \<Longrightarrow> live_sids u' = insert (p_sid pr) (live_sids u)"
  by (simp add: live_sids_def)

lemma live_sids_freed:
  "peers u p = Some pr \<Longrightarrow> (\<And>q b. peers u q = Some b \<Longrightarrow> q \<noteq> p \<Longrightarrow> p_sid b \<noteq> p_sid pr) \<Longrightarrow> peers u' = (peers u)(p := None)
    \<Longrightarrow> live_sids u = insert (p_sid pr) (live_sids u')"
  by (auto simp: live_sids_def ran_def image_iff) (metis option.inject)+

lemma udp_ok_peer:
  assumes "udp_ok V u" and "peers u p = Some pr"
  obtains s where "sess u (p_sid pr) = Some s" "peer_ok V u p pr s"
  using assms by (auto simp: udp_ok_def)

lemma udp_ok_sid: "udp_ok V u \<Longrightarrow> peers u p = Some a \<Longrightarrow> peers u q = Some b \<Longrightarrow> p_sid a = p_sid b \<Longrightarrow> p = q"
  by (simp add: udp_ok_def tables_ok_def)

text \<open>How an operation may change a session: it is never reopened, and closing it calls the channel.\<close>

definition chan_ok :: "'e session \<Rightarrow> 'e session \<Rightarrow> bool" where
  "chan_ok s s' \<longleftrightarrow> bChannel s' = bChannel s \<and> m_bDatagram s' = m_bDatagram s \<and> (IsClosed s \<longrightarrow> IsClosed s') \<and> (bWriteEvent s \<longrightarrow> bWriteEvent s')
     \<and> (bChannel s \<and> \<not> IsClosed s \<and> IsClosed s' \<longrightarrow> bWriteEvent s') \<and> (bChannel s \<and> settled s \<longrightarrow> settled s')"

text \<open>The effect of a step on the session of one peer.\<close>

definition sess_step :: "nat \<Rightarrow> peer \<Rightarrow> 'e session \<Rightarrow> 'e udp \<Rightarrow> 'e udp \<Rightarrow> bool" where
  "sess_step p pr s u u' \<longleftrightarrow> (\<exists>pr' s'. peers u' = (peers u)(p \<mapsto> pr') \<and> m_stAddr pr' = m_stAddr pr \<and> p_sid pr' = p_sid pr
     \<and> sess u' = (sess u)(p_sid pr \<mapsto> s') \<and> bChannel s' \<and> \<not> bWriteEvent s' \<and> (settled s \<longrightarrow> settled s') \<and> fresh_in s' \<and> (IsClosed s \<longrightarrow> IsClosed s') \<and> m_bClosing pr' = IsClosed s'
     \<and> m_vClosing u' = (if IsClosed s = IsClosed s' then m_vClosing u else m_vClosing u @ [p])
     \<and> m_bRecyclePosted u' = (if IsClosed s = IsClosed s' then m_bRecyclePosted u else True)
     \<and> posted_recycles u' = (if IsClosed s = IsClosed s' \<or> m_bRecyclePosted u then posted_recycles u else posted_recycles u + 1)
     \<and> set (table u') = set (table u) - (if IsClosed s' then {p_sid pr} else {})
     \<and> m_mPeers u' = m_mPeers u \<and> m_mSessions u' = m_mSessions u \<and> next_peer u' = next_peer u \<and> last_sid u' = last_sid u
     \<and> closed_sids u' = closed_sids u \<and> udp_fault u' = udp_fault u)"

lemma sess_step_ok:
  assumes ok: "udp_ok V u" and p: "peers u p = Some pr" and s: "sess u (p_sid pr) = Some s" and "sess_step p pr s u u'"
  shows "udp_ok V u'"
proof -
  obtain pr' s' where h: "peers u' = (peers u)(p \<mapsto> pr')" "m_stAddr pr' = m_stAddr pr" "p_sid pr' = p_sid pr"
      "sess u' = (sess u)(p_sid pr \<mapsto> s')" "bChannel s'" "\<not> bWriteEvent s'" "IsClosed s \<longrightarrow> IsClosed s'" "m_bClosing pr' = IsClosed s'" "settled s \<longrightarrow> settled s'" "fresh_in s'"
    and q: "m_vClosing u' = (if IsClosed s = IsClosed s' then m_vClosing u else m_vClosing u @ [p])"
      "m_bRecyclePosted u' = (if IsClosed s = IsClosed s' then m_bRecyclePosted u else True)"
      "posted_recycles u' = (if IsClosed s = IsClosed s' \<or> m_bRecyclePosted u then posted_recycles u else posted_recycles u + 1)"
    and t: "set (table u') = set (table u) - (if IsClosed s' then {p_sid pr} else {})"
    and m: "m_mPeers u' = m_mPeers u" "m_mSessions u' = m_mSessions u" "next_peer u' = next_peer u" "last_sid u' = last_sid u"
      "closed_sids u' = closed_sids u" "udp_fault u' = udp_fault u"
    using assms(4) by (auto simp: sess_step_def)
  have po: "peer_ok V u p pr s" using udp_ok_peer [OF ok p] s by (metis option.inject)
  have c: "set (closing V u') = set (closing V u) \<union> (if IsClosed s' then {p} else {})"
    using q(1) po h(7) by (auto simp: closing_def peer_ok_def)
  have "tables_ok V u'"
    using ok p h(1,2,3) t c m unfolding udp_ok_def tables_ok_def by (auto split: if_splits; metis option.inject)
  moreover have "queue_ok V u'"
    using ok q po m h(7) unfolding udp_ok_def queue_ok_def by (auto simp: closing_def peer_ok_def split: if_splits)
  moreover have "\<exists>z. sess u' (p_sid b) = Some z \<and> peer_ok V u' r b z" if r: "peers u' r = Some b" for r b
  proof (cases "r = p")
    case True
    then show ?thesis using r h t c m po by (auto simp: peer_ok_def)
  next
    case False
    then have r': "peers u r = Some b" using r h(1) by simp
    then obtain z where z: "sess u (p_sid b) = Some z" "peer_ok V u r b z" using udp_ok_peer [OF ok] by blast
    have "p_sid b \<noteq> p_sid pr" using udp_ok_sid [OF ok r' p] False by blast
    then show ?thesis using z h(4) t c m False by (auto simp: peer_ok_def)
  qed
  moreover have "sids_ok u'" using ok live_sids_same [OF p h(3,1)] m by (simp add: udp_ok_def sids_ok_def)
  ultimately show ?thesis using ok m by (auto simp: udp_ok_def)
qed


lemma SwapOutBuff_empty [simp]: "SwapOutBuff A Bytes_empty s = Inr (stOutputBuffer s, s\<lparr>stOutputBuffer := Clear Bytes_empty\<rparr>)"
  by (simp add: SwapOutBuff_def Bytes_empty_def)

lemma Clear_empty: "Clear Bytes_empty = Bytes_empty" "m_iSize Bytes_empty = 0"
  by (simp_all add: Clear_def Bytes_empty_def)

lemma size_sub_self: "size_sub n n = 0"
  by (simp add: size_sub_def)

lemma on_session_step:
  assumes "peers u p = Some pr" and "sess u (p_sid pr) = Some s" and "peer_ok V u p pr s" and c: "chan_ok s (f s)" and fi: "fresh_in (f s)"
    and T: "set T = set (table u) - (if IsClosed (f s) then {p_sid pr} else {})"
  shows "sess_step p pr s u ((on_session A sent now p f u)\<lparr>table := T\<rparr>)"
proof -
  let ?s = "f s" and ?t = "(f s)\<lparr>bWriteEvent := False\<rparr>"
  have b: "bChannel s" "\<not> bWriteEvent s" "m_bClosing pr = IsClosed s" using assms(3) by (simp_all add: peer_ok_def)
  have cl: "IsClosed ?t = IsClosed ?s" by (simp add: IsClosed_def)
  have fi': "fresh_in ?t" "fresh_in (?t\<lparr>stOutputBuffer := x\<rparr>)" "fresh_in (OnBytesSent n (?t\<lparr>stOutputBuffer := x\<rparr>))" for x n
    using fi by (simp_all add: fresh_in_def OnBytesSent_def)
  have set: "settled s" using assms(3) by (simp add: peer_ok_def)
  then have sf: "settled ?s" using c b by (simp add: chan_ok_def)
  have fl: "settled (OnBytesSent (m_iSize (stOutputBuffer ?s)) (?t\<lparr>stOutputBuffer := Clear Bytes_empty\<rparr>))"
    using sf by (auto simp: settled_def OnBytesSent_def IsClosed_def Clear_empty size_sub_self)
  have fz: "settled (?t\<lparr>stOutputBuffer := Clear Bytes_empty\<rparr>)" if "m_iSize (stOutputBuffer ?s) = 0"
    using sf that by (auto simp: settled_def IsClosed_def Clear_empty)
  consider "\<not> bWriteEvent ?s" | "bWriteEvent ?s" "IsClosed ?s" "IsClosed s" | "bWriteEvent ?s" "IsClosed ?s" "\<not> IsClosed s"
    | "bWriteEvent ?s" "\<not> IsClosed ?s" "m_iSize (stOutputBuffer ?s) = 0" | "bWriteEvent ?s" "\<not> IsClosed ?s" "m_iSize (stOutputBuffer ?s) \<noteq> 0"
    by blast
  then show ?thesis
  proof cases
    case 1
    then have "IsClosed ?s = IsClosed s" using c b by (auto simp: chan_ok_def)
    with 1 show ?thesis unfolding sess_step_def
      by (intro exI [of _ pr] exI [of _ ?s])
        (use assms b c set sf fi' in \<open>auto simp: on_session_def peer_AllowSend_def put_sess_def chan_ok_def fun_upd_idem\<close>)
  next
    case 2
    then have "settled ?t" using cl by (simp add: settled_def)
    with 2 show ?thesis unfolding sess_step_def
      by (intro exI [of _ pr] exI [of _ ?t])
        (use assms b c cl set sf fi' in \<open>auto simp: on_session_def peer_AllowSend_def put_sess_def chan_ok_def MarkClosing_def Let_def fun_upd_idem\<close>)
  next
    case 3
    then have "settled ?t" using cl by (simp add: settled_def)
    with 3 show ?thesis unfolding sess_step_def
      by (intro exI [of _ "pr\<lparr>m_bClosing := True\<rparr>"] exI [of _ ?t])
        (use assms b c cl set sf fi' in \<open>auto simp: on_session_def peer_AllowSend_def put_sess_def put_peer_def chan_ok_def MarkClosing_def Let_def\<close>)
  next
    case 4
    then show ?thesis unfolding sess_step_def
      by (intro exI [of _ pr] exI [of _ "?t\<lparr>stOutputBuffer := Clear Bytes_empty\<rparr>"])
        (use assms b c cl set fl fz fi' in \<open>auto simp: on_session_def peer_AllowSend_def put_sess_def chan_ok_def Flush_def Let_def fun_upd_idem IsClosed_def\<close>)
  next
    case 5
    then show ?thesis unfolding sess_step_def
      by (intro exI [of _ "pr\<lparr>m_iLastActive := now\<rparr>"] exI [of _ "OnBytesSent (m_iSize (stOutputBuffer ?s)) (?t\<lparr>stOutputBuffer := Clear Bytes_empty\<rparr>)"])
        (use assms b c cl set fl fz fi' in \<open>auto simp: on_session_def peer_AllowSend_def put_sess_def put_peer_def chan_ok_def Flush_def Let_def IsClosed_def OnBytesSent_def\<close>)
  qed
qed

lemma on_session_table [simp]: "on_session A sent now p f (u\<lparr>table := T\<rparr>) = (on_session A sent now p f u)\<lparr>table := T\<rparr>"
  by (simp add: on_session_def peer_AllowSend_def put_sess_def put_peer_def MarkClosing_def Flush_def Let_def split: option.splits)

text \<open>The session of a peer after an operation on it.\<close>

lemma on_session_closed:
  assumes "peers u p = Some pr" and "sess u (p_sid pr) = Some s"
  shows "peer_closed (on_session A sent now p f u) p = IsClosed (f s)" "\<exists>pr'. peers (on_session A sent now p f u) p = Some pr' \<and> p_sid pr' = p_sid pr"
  using assms by (auto simp: on_session_def peer_AllowSend_def put_sess_def put_peer_def MarkClosing_def Flush_def Let_def peer_closed_def
      IsClosed_def OnBytesSent_def)

lemma on_session_table_same: "table (on_session A sent now p f u) = table u"
  by (simp add: on_session_def peer_AllowSend_def put_sess_def put_peer_def MarkClosing_def Flush_def Let_def split: option.splits)

lemma drop_closed_ok:
  assumes ok: "udp_ok V u" and p: "peers u p = Some pr" and s: "sess u (p_sid pr) = Some s" and c: "chan_ok s (f s)" and fi: "fresh_in (f s)"
  shows "udp_ok V (drop_closed p (on_session A sent now p f u))"
proof -
  let ?u = "on_session A sent now p f u"
  let ?T = "if IsClosed (f s) then removeAll (p_sid pr) (table u) else table u"
  have po: "peer_ok V u p pr s" using udp_ok_peer [OF ok p] s by (metis option.inject)
  obtain pr' where pr': "peers ?u p = Some pr'" "p_sid pr' = p_sid pr" using on_session_closed(2) [OF p s] by blast
  have e: "drop_closed p ?u = ?u\<lparr>table := ?T\<rparr>"
    using on_session_closed(1) [OF p s, of A sent now f] pr' by (simp add: drop_closed_def on_session_table_same)
  have "sess_step p pr s u (?u\<lparr>table := ?T\<rparr>)" by (rule on_session_step [OF p s po]) (use c fi in auto)
  then show ?thesis unfolding e by (rule sess_step_ok [OF ok p s])
qed

lemma open_step_ok:
  assumes ok: "udp_ok V u" and p: "peers u p = Some pr" and s: "sess u (p_sid pr) = Some s" and c: "chan_ok s (f s)" and fi: "fresh_in (f s)"
    and o: "\<not> IsClosed (f s)"
  shows "udp_ok V (on_session A sent now p f u)"
proof -
  let ?u = "on_session A sent now p f u"
  have po: "peer_ok V u p pr s" using udp_ok_peer [OF ok p] s by (metis option.inject)
  have "sess_step p pr s u (?u\<lparr>table := table u\<rparr>)" by (rule on_session_step [OF p s po]) (use c fi o in auto)
  moreover have "?u\<lparr>table := table u\<rparr> = ?u" using on_session_table_same [of A sent now p f u] by simp
  ultimately show ?thesis using sess_step_ok [OF ok p s] by simp
qed


section \<open>Lemmas: sessions\<close>

lemma chan_ok_refl [simp]: "chan_ok s s"
  by (simp add: chan_ok_def)

lemma chan_ok_trans: "chan_ok a b \<Longrightarrow> chan_ok b c \<Longrightarrow> chan_ok a c"
  by (auto simp: chan_ok_def)

lemma chan_ok_Close: "chan_ok s (Close e s)"
  by (simp add: chan_ok_def Close_def AllowSend_def IsClosed_def settled_def)

lemma chan_ok_closes: "chan_ok s (ActiveClose s)" "chan_ok s (PassiveClose e s)"
  using chan_ok_Close [of s] by (simp_all add: ActiveClose_def PassiveClose_def Let_def chan_ok_def IsClosed_def settled_def)

lemma chan_ok_keep: "iStatus s' = iStatus s \<Longrightarrow> bChannel s' = bChannel s \<Longrightarrow> bWriteEvent s' = bWriteEvent s \<Longrightarrow> m_bDatagram s' = m_bDatagram s
    \<Longrightarrow> stOutputBuffer s' = stOutputBuffer s \<Longrightarrow> iQueuedBytes s' = iQueuedBytes s \<Longrightarrow> chan_ok s s'"
  by (simp add: chan_ok_def IsClosed_def settled_def)

lemma chan_ok_Send:
  assumes "SendResult A d s = Inr (c, s')" and d: "bytes_ok d"
  shows "chan_ok s s' \<and> IsClosed s' = IsClosed s"
proof (cases "s' = s")
  case False
  then obtain b where b: "Append_ext A (content d) (stOutputBuffer s) = Inr b"
    and s': "s' = AllowSend (s\<lparr>stOutputBuffer := b, iQueuedBytes := iQueuedBytes s + m_iSize d\<rparr>)"
    using assms(1) by (auto simp: SendResult_def split: if_splits sum.splits)
  have "bytes_ok b \<and> m_iSize b = m_iSize (stOutputBuffer s) + m_iSize d" if o: "bytes_ok (stOutputBuffer s)"
  proof -
    have "bytes_ok b \<and> content b = content (stOutputBuffer s) @ content d"
      by (rule Append_ext_content [OF o b]) (use d in \<open>simp add: bytes_ok_def\<close>)
    then show ?thesis using length_content [of b] o d by simp
  qed
  then show ?thesis unfolding s' by (auto simp: chan_ok_def AllowSend_def IsClosed_def settled_def)
qed simp

lemma fresh_in_ops [simp]:
  "fresh_in (ActiveClose s) = fresh_in s" "fresh_in (PassiveClose e s) = fresh_in s" "fresh_in (CancelIncompleteTimer s) = fresh_in s"
  "SendResult A d s = Inr (c, s') \<Longrightarrow> fresh_in s' = fresh_in s"
  by (auto simp: fresh_in_def ActiveClose_def PassiveClose_def Close_def AllowSend_def Let_def CancelIncompleteTimer_def
      SendResult_def split: if_splits sum.splits)

text \<open>What the channel relies on when a message is delivered: it keeps to the rules for sessions.\<close>

locale channel_sink = frame_sink +
  assumes sink_chan: "chan_ok s (deliver q d s)"
begin

lemma chan_ok_loop: "data_in_loop A deliver fuel st s = Some (e, st', s') \<Longrightarrow> chan_ok s s'"
proof (induction fuel arbitrary: st s)
  case 0
  then show ?case
    using chan_ok_closes(2) [of s] chan_ok_keep [of "CancelIncompleteTimer s" s]
    by (subst (asm) data_in_loop.simps) (auto simp: Let_def CancelIncompleteTimer_def chan_ok_keep split: if_splits prod.splits PbHeaderState.splits option.splits)
next
  case (Suc fuel)
  have d: "chan_ok s (deliver q d (CancelIncompleteTimer s))" for q d
    using chan_ok_trans [OF _ sink_chan] chan_ok_keep [of "CancelIncompleteTimer s" s] by (simp add: CancelIncompleteTimer_def)
  show ?case
    using Suc.prems chan_ok_closes(2) [of s] chan_ok_trans [OF d Suc.IH]
    by (subst (asm) data_in_loop.simps) (auto simp: Let_def CancelIncompleteTimer_def chan_ok_keep split: if_splits prod.splits PbHeaderState.splits option.splits)
qed

lemma chan_ok_OnDataIn: "OnDataIn A b deliver s = Inr s' \<Longrightarrow> chan_ok s s'"
proof -
  assume o: "OnDataIn A b deliver s = Inr s'"
  let ?st = "\<lparr>buf = stInputBuffer s, m_iCurrentPosition = 0, m_iSnapshotPosition = 0\<rparr>"
  obtain st' z where l: "data_in_loop A deliver (RemainSize ?st) ?st (s\<lparr>stInputBuffer := Bytes_empty\<rparr>) = Some (None, st', z)"
    using o by (auto simp: OnDataIn_def Let_def split: option.splits)
  have "chan_ok s (s\<lparr>stInputBuffer := Bytes_empty\<rparr>)" by (simp add: chan_ok_keep)
  then have z: "chan_ok s z" using chan_ok_loop [OF l] chan_ok_trans by blast
  have k: "chan_ok s (z\<lparr>stInputBuffer := x\<rparr>)" "chan_ok s (PassiveClose e (z\<lparr>stInputBuffer := x\<rparr>))"
    "chan_ok s (z\<lparr>stInputBuffer := x, bIncompleteTimer := y\<rparr>)" "chan_ok s (z\<lparr>bIncompleteTimer := y, stInputBuffer := x\<rparr>)" for x e y
  proof -
    show a: "chan_ok s (z\<lparr>stInputBuffer := x\<rparr>)" by (rule chan_ok_trans [OF z]) (simp add: chan_ok_keep)
    show "chan_ok s (PassiveClose e (z\<lparr>stInputBuffer := x\<rparr>))" by (rule chan_ok_trans [OF a chan_ok_closes(2)])
    show "chan_ok s (z\<lparr>stInputBuffer := x, bIncompleteTimer := y\<rparr>)" "chan_ok s (z\<lparr>bIncompleteTimer := y, stInputBuffer := x\<rparr>)"
      by (rule chan_ok_trans [OF z], simp add: chan_ok_keep)+
  qed
  then show ?thesis
    using o l k by (auto simp: OnDataIn_def Let_def CancelIncompleteTimer_def ArmIncompleteTimer_def split: if_splits)
qed

lemma chan_ok_SwapInBuff: "SwapInBuff A b deliver inb s = Inr (r, s') \<Longrightarrow> chan_ok s s'"
proof -
  assume o: "SwapInBuff A b deliver inb s = Inr (r, s')"
  have "chan_ok s s'" if "OnDataIn A b deliver (s\<lparr>stInputBuffer := x\<rparr>) = Inr s'" for x
    by (rule chan_ok_trans [OF _ chan_ok_OnDataIn [OF that]]) (simp add: chan_ok_keep)
  then show ?thesis
    using o chan_ok_closes(2) [of s] by (auto simp: SwapInBuff_def split: if_splits sum.splits)
qed

lemma fresh_in_OnDataIn:
  assumes "OnDataIn A b deliver s = Inr s'" and d: "m_bDatagram s"
  shows "fresh_in s'"
proof -
  let ?st = "\<lparr>buf = stInputBuffer s, m_iCurrentPosition = 0, m_iSnapshotPosition = 0\<rparr>"
  obtain st' z where l: "data_in_loop A deliver (RemainSize ?st) ?st (s\<lparr>stInputBuffer := Bytes_empty\<rparr>) = Some (None, st', z)"
    using assms(1) by (auto simp: OnDataIn_def Let_def split: option.splits)
  then have "m_bDatagram z" using chan_ok_loop [OF l] d by (simp add: chan_ok_def)
  then show ?thesis using assms(1) l by (auto simp: OnDataIn_def Let_def fresh_in_def Clear_def)
qed

lemma fresh_in_SwapInBuff: "SwapInBuff A b deliver inb s = Inr (r, s') \<Longrightarrow> fresh_in s \<Longrightarrow> fresh_in s'"
  using fresh_in_OnDataIn [of A b "s\<lparr>stInputBuffer := x\<rparr>" s' for x]
  by (auto simp: SwapInBuff_def fresh_in_def [of s] split: if_splits sum.splits)

end

interpretation recording_channel: channel_sink record_frame
  by unfold_locales (simp add: record_frame_def chan_ok_keep)

section \<open>Lemmas: operations keep the invariant\<close>

definition config_ok :: "'e udp_config \<Rightarrow> bool" where
  "config_ok C \<longleftrightarrow> \<not> IsClosed (CloneSession C) \<and> stOutputBuffer (CloneSession C) = Bytes_empty \<and> iQueuedBytes (CloneSession C) = 0
     \<and> fresh_in (CloneSession C)"

lemma open_new_ok:
  assumes ok: "udp_ok V u" and C: "config_ok C" and free: "\<And>p. map_of (m_mPeers u) (Endpoint a) = Some p \<Longrightarrow> peer_closed u p"
    and n: "open_new C now a u = (p, u')"
  shows "udp_ok V u' \<and> (\<exists>pr. peers u' p = Some pr \<and> m_stAddr pr = a \<and> m_iLastActive pr = now \<and> \<not> peer_closed u' p)"
proof -
  let ?sid = "last_sid u + 1" and ?p = "next_peer u"
  let ?pr = "\<lparr>m_stAddr = a, p_sid = ?sid, m_iLastActive = now, m_bClosing = False\<rparr>"
  note u' = n [unfolded open_new_def Let_def, simplified]
  have p: "p = ?p" using u' by simp
  have peers: "peers u' = (peers u)(?p \<mapsto> ?pr)" and sess: "sess u' = (sess u)(?sid \<mapsto> new_session C)"
    and f: "table u' = table u @ [?sid]" "next_peer u' = ?p + 1" "last_sid u' = ?sid"
      "map_of (m_mPeers u') = (map_of (m_mPeers u))(Endpoint a \<mapsto> ?p)" "map_of (m_mSessions u') = (map_of (m_mSessions u))(?sid \<mapsto> ?p)"
      "m_vClosing u' = m_vClosing u" "m_bRecyclePosted u' = m_bRecyclePosted u" "posted_recycles u' = posted_recycles u"
      "closed_sids u' = closed_sids u" "udp_fault u' = udp_fault u"
    using u' by (auto simp: update_conv')
  have old: "b \<noteq> ?p \<and> p_sid pr \<le> last_sid u" if "peers u b = Some pr" for b pr
    using udp_ok_peer [OF ok that] by (auto simp: peer_ok_def)
  have c: "closing V u' = closing V u" using f by (simp add: closing_def)
  have none: "peers u ?p = None" using old [of ?p] by (cases "peers u ?p") auto
  moreover have "?sid \<notin> set (closed_sids u)" using ok by (auto simp: udp_ok_def queue_ok_def)
  moreover have "?p \<notin> set (closing V u)" using ok none unfolding udp_ok_def tables_ok_def by blast
  ultimately have fresh: "?sid \<notin> set (closed_sids u)" "?p \<notin> set (closing V u)" "peers u ?p = None" by blast+
  have ns: "\<not> IsClosed (new_session C)" "bChannel (new_session C)" "\<not> bWriteEvent (new_session C)" "settled (new_session C)" "fresh_in (new_session C)"
    using C by (simp_all add: new_session_def config_ok_def SetSendQueueLimit_def IsClosed_def settled_def fresh_in_def) (simp add: Bytes_empty_def)
  have "tables_ok V u'"
    unfolding tables_ok_def
  proof (intro conjI)
    show "\<forall>e q. map_of (m_mPeers u') e = Some q \<longrightarrow> (\<exists>pr. peers u' q = Some pr \<and> Endpoint (m_stAddr pr) = e)"
      using ok fresh(3) unfolding f peers udp_ok_def tables_ok_def by (auto; metis option.distinct(1))
    show "\<forall>sid q. map_of (m_mSessions u') sid = Some q \<longrightarrow> (\<exists>pr. peers u' q = Some pr \<and> p_sid pr = sid)"
      using ok fresh(3) unfolding f peers udp_ok_def tables_ok_def by (auto; metis option.distinct(1))
    show "\<forall>sid \<in> set (table u'). \<exists>q pr. peers u' q = Some pr \<and> p_sid pr = sid"
    proof
      fix sid assume "sid \<in> set (table u')"
      then consider "sid = ?sid" | "sid \<in> set (table u)" using f(1) by auto
      then show "\<exists>q pr. peers u' q = Some pr \<and> p_sid pr = sid"
      proof cases
        case 1
        then show ?thesis unfolding peers by (intro exI [of _ ?p] exI [of _ ?pr]) simp
      next
        case 2
        then obtain q pr where "peers u q = Some pr" "p_sid pr = sid" using ok by (auto simp: udp_ok_def tables_ok_def)
        then show ?thesis unfolding peers using old by (intro exI [of _ q] exI [of _ pr]) simp
      qed
    qed
    have new: "p_sid pr \<noteq> ?sid" if "peers u b = Some pr" for b pr using old [OF that] by simp
    show "\<forall>p q a b. peers u' p = Some a \<longrightarrow> peers u' q = Some b \<longrightarrow> p_sid a = p_sid b \<longrightarrow> p = q"
      unfolding peers using udp_ok_sid [OF ok] new by (auto split: if_splits) (metis new)+
    show "\<forall>p \<in> set (closing V u'). peers u' p \<noteq> None"
      using ok unfolding c peers udp_ok_def tables_ok_def by auto
  qed
  moreover have "queue_ok V u'" using ok unfolding udp_ok_def queue_ok_def c f by auto
  moreover have "\<exists>z. sess u' (p_sid b) = Some z \<and> peer_ok V u' r b z" if r: "peers u' r = Some b" for r b
  proof (cases "r = ?p")
    case True
    then show ?thesis using r ns fresh unfolding peers sess by (auto simp: peer_ok_def f c)
  next
    case False
    then have r': "peers u r = Some b" using r peers by simp
    then obtain z where z: "sess u (p_sid b) = Some z" "peer_ok V u r b z" using udp_ok_peer [OF ok] by blast
    have "Endpoint (m_stAddr b) \<noteq> Endpoint a" if "\<not> IsClosed z"
    proof
      assume "Endpoint (m_stAddr b) = Endpoint a"
      then have "peer_closed u r" using free z(2) that by (simp add: peer_ok_def)
      then show False using that r' z(1) by (simp add: peer_closed_def)
    qed
    then show ?thesis using z old [OF r'] False unfolding sess by (auto simp: peer_ok_def f c)
  qed
  moreover have "sids_ok u'"
    using ok live_sids_new [OF fresh(3) peers] f by (auto simp: udp_ok_def sids_ok_def)
  moreover have "\<not> peer_closed u' p" using ns by (simp add: peer_closed_def p peers sess)
  ultimately show ?thesis using ok f(10) peers p by (auto simp: udp_ok_def)
qed


lemma OpenLocked_ok:
  assumes ok: "udp_ok V u" and C: "config_ok C" and o: "OpenLocked C now a u = (p, u')"
  shows "udp_ok V u' \<and> (\<exists>pr. peers u' p = Some pr \<and> Endpoint (m_stAddr pr) = Endpoint a \<and> \<not> peer_closed u' p)"
proof (cases "map_of (m_mPeers u) (Endpoint a)")
  case None
  then show ?thesis using open_new_ok [OF ok C, of a now p u'] o by (auto simp: OpenLocked_def)
next
  case (Some q)
  then obtain pr where q: "peers u q = Some pr" "Endpoint (m_stAddr pr) = Endpoint a"
    using ok unfolding udp_ok_def tables_ok_def by blast
  show ?thesis
  proof (cases "peer_closed u q")
    case True
    then show ?thesis using open_new_ok [OF ok C, of a now p u'] o Some q by (auto simp: OpenLocked_def)
  next
    case False
    then show ?thesis using ok o Some q by (auto simp: OpenLocked_def)
  qed
qed

lemma put_peer_ok:
  assumes ok: "udp_ok V u" and p: "peers u p = Some pr" and "m_stAddr pr' = m_stAddr pr" "p_sid pr' = p_sid pr" "m_bClosing pr' = m_bClosing pr"
  shows "udp_ok V (put_peer p pr' u)"
proof -
  obtain s where s: "sess u (p_sid pr) = Some s" "peer_ok V u p pr s" using udp_ok_peer [OF ok p] by blast
  have "sess_step p pr s u (put_peer p pr' u)"
    unfolding sess_step_def by (intro exI [of _ pr'] exI [of _ s]) (use s assms in \<open>auto simp: put_peer_def peer_ok_def fun_upd_idem\<close>)
  then show ?thesis by (rule sess_step_ok [OF ok p s(1)])
qed

lemma table_peer:
  assumes ok: "udp_ok V u" and "sid \<in> set (table u)"
  obtains p pr s where "map_of (m_mSessions u) sid = Some p" "peers u p = Some pr" "p_sid pr = sid" "sess u sid = Some s"
    "\<not> IsClosed s" "peer_ok V u p pr s"
proof -
  obtain p pr where p: "peers u p = Some pr" "p_sid pr = sid" using assms by (auto simp: udp_ok_def tables_ok_def)
  obtain s where s: "sess u (p_sid pr) = Some s" "peer_ok V u p pr s" using udp_ok_peer [OF ok p(1)] by blast
  then have "\<not> IsClosed s" "map_of (m_mSessions u) sid = Some p" using assms(2) p(2) by (simp_all add: peer_ok_def)
  then show ?thesis using that p s by blast
qed

lemma udp_Send_ok:
  assumes ok: "udp_ok V u" and r: "udp_Send A sent now sid d u = Inr (c, u')" and d: "bytes_ok d"
  shows "udp_ok V u'"
proof (cases "sid \<in> set (table u)")
  case False
  then show ?thesis using ok r by (simp add: udp_Send_def)
next
  case True
  then obtain p pr s where p: "map_of (m_mSessions u) sid = Some p" "peers u p = Some pr" "p_sid pr = sid" "sess u sid = Some s" "\<not> IsClosed s"
    and po: "peer_ok V u p pr s"
    using table_peer [OF ok] by metis
  then obtain s' where s': "SendResult A d s = Inr (c, s')" "u' = on_session A sent now p (\<lambda>_. s') u"
    using r True by (auto simp: udp_Send_def split: sum.splits)
  show ?thesis unfolding s'(2)
    by (rule open_step_ok [OF ok p(2)]) (use p s' po chan_ok_Send [OF s'(1) d] in \<open>auto simp: peer_ok_def\<close>)
qed

lemma udp_CloseSession_ok:
  assumes ok: "udp_ok V u"
  shows "udp_ok V (udp_CloseSession A now sid u)"
proof (cases "sid \<in> set (table u)")
  case False
  then show ?thesis using ok by (simp add: udp_CloseSession_def)
next
  case True
  obtain p pr s where p: "map_of (m_mSessions u) sid = Some p" "peers u p = Some pr" "p_sid pr = sid" "sess u sid = Some s" "peer_ok V u p pr s"
    using table_peer [OF ok True] by metis
  have "IsClosed (ActiveClose s)" by (simp add: ActiveClose_def Close_def AllowSend_def IsClosed_def)
  then have "sess_step p pr s u ((on_session A True now p ActiveClose u)\<lparr>table := removeAll sid (table u)\<rparr>)"
    using on_session_step [where f = ActiveClose and s = s and V = V, OF p(2) _ p(5) chan_ok_closes(1)] p by (auto simp: peer_ok_def)
  then show ?thesis using sess_step_ok [OF ok p(2)] p True by (simp add: udp_CloseSession_def)
qed

lemma close_idle_one_ok: "udp_ok V u \<Longrightarrow> peers u p = Some pr \<Longrightarrow> udp_ok V (close_idle_one A now p u)"
  unfolding close_idle_one_def by (metis drop_closed_ok chan_ok_closes(2) udp_ok_peer fresh_in_ops(2) peer_ok_def)

lemma sess_step_peers:
  "sess_step p pr s u u' \<Longrightarrow> peers u q \<noteq> None \<Longrightarrow> peers u' q \<noteq> None"
  by (auto simp: sess_step_def)

lemma on_session_peers: "peers u q \<noteq> None \<Longrightarrow> peers (on_session A sent now p f u) q \<noteq> None"
  by (auto simp: on_session_def peer_AllowSend_def put_sess_def put_peer_def MarkClosing_def Flush_def Let_def split: option.splits)

lemma close_idle_one_peers: "peers u q \<noteq> None \<Longrightarrow> peers (close_idle_one A now p u) q \<noteq> None"
  using on_session_peers [of u q A True now p "PassiveClose ETIMEDOUT"] by (auto simp: close_idle_one_def drop_closed_def split: option.splits)

lemma CloseIdle_ok:
  assumes "udp_ok V u"
  shows "udp_ok V (CloseIdle A now iIdle u)"
proof -
  have "udp_ok V (fold (close_idle_one A now) ps u)" if "udp_ok V u" "\<forall>p \<in> set ps. peers u p \<noteq> None" for ps and u :: "'a udp"
    using that
  proof (induction ps arbitrary: u)
    case (Cons p ps)
    then have "udp_ok V (close_idle_one A now p u)" using close_idle_one_ok by fastforce
    moreover have "\<forall>q \<in> set ps. peers (close_idle_one A now p u) q \<noteq> None"
      using Cons.prems(2) close_idle_one_peers by (metis list.set_intros(2))
    ultimately show ?case using Cons.IH by simp
  qed simp
  moreover have "\<forall>p \<in> set (filter (is_idle now iIdle u) (map snd (m_mPeers u))). peers u p \<noteq> None"
    by (auto simp: is_idle_def split: option.splits)
  ultimately show ?thesis using assms by (simp add: CloseIdle_def)
qed

lemma recycle_one_ok:
  assumes ok: "udp_ok (p # V) u"
  shows "udp_ok V (recycle_one p u)"
proof -
  obtain pr where p: "peers u p = Some pr" using ok by (auto simp: udp_ok_def tables_ok_def closing_def)
  obtain s where s: "sess u (p_sid pr) = Some s" "peer_ok (p # V) u p pr s" using udp_ok_peer [OF ok p] by blast
  let ?e = "Endpoint (m_stAddr pr)" and ?sid = "p_sid pr"
  let ?u = "recycle_one p u"
  have out: "?sid \<notin> set (table u)" using s(2) by (simp add: peer_ok_def closing_def)
  have peers: "peers ?u = (peers u)(p := None)" and sess: "sess ?u = (sess u)(?sid \<mapsto> DetachChannel s)"
    and f: "closed_sids ?u = closed_sids u @ [?sid]" "table ?u = table u" "next_peer ?u = next_peer u" "last_sid ?u = last_sid u"
      "m_vClosing ?u = m_vClosing u" "m_bRecyclePosted ?u = m_bRecyclePosted u" "posted_recycles ?u = posted_recycles u" "udp_fault ?u = udp_fault u"
    and mp: "map_of (m_mPeers ?u) = (if map_of (m_mPeers u) ?e = Some p then (map_of (m_mPeers u))(?e := None) else map_of (m_mPeers u))"
    and ms: "map_of (m_mSessions ?u) = (if map_of (m_mSessions u) ?sid = Some p then (map_of (m_mSessions u))(?sid := None) else map_of (m_mSessions u))"
    using p s(1) out by (simp_all add: recycle_one_def Let_def put_sess_def delete_conv')
  have c: "distinct (p # closing V u)" "closing (p # V) u = p # closing V u" "closing V ?u = closing V u"
    using ok f(5) by (simp_all add: udp_ok_def queue_ok_def closing_def)
  have other: "p_sid b \<noteq> ?sid" if "peers u r = Some b" "r \<noteq> p" for r b using udp_ok_sid [OF ok that(1) p] that(2) by blast
  have "tables_ok V ?u"
    unfolding tables_ok_def
  proof (intro conjI)
    have P: "\<exists>b. peers u q = Some b \<and> Endpoint (m_stAddr b) = e" if "map_of (m_mPeers u) e = Some q" for e q
      using ok that by (auto simp: udp_ok_def tables_ok_def)
    show "\<forall>e q. map_of (m_mPeers ?u) e = Some q \<longrightarrow> (\<exists>b. peers ?u q = Some b \<and> Endpoint (m_stAddr b) = e)"
      unfolding peers mp using P p by (auto split: if_splits) (metis option.inject)+
    have S: "\<exists>b. peers u q = Some b \<and> p_sid b = e" if "map_of (m_mSessions u) e = Some q" for e q
      using ok that by (auto simp: udp_ok_def tables_ok_def)
    show "\<forall>sid q. map_of (m_mSessions ?u) sid = Some q \<longrightarrow> (\<exists>b. peers ?u q = Some b \<and> p_sid b = sid)"
      unfolding peers ms using S p by (auto split: if_splits) (metis option.inject)+
    show "\<forall>sid \<in> set (table ?u). \<exists>q b. peers ?u q = Some b \<and> p_sid b = sid"
    proof
      fix sid assume t: "sid \<in> set (table ?u)"
      then obtain q b where q: "peers u q = Some b" "p_sid b = sid" using ok f(2) by (auto simp: udp_ok_def tables_ok_def)
      then have "q \<noteq> p" using t out p f(2) by auto
      then show "\<exists>q b. peers ?u q = Some b \<and> p_sid b = sid" unfolding peers using q by (intro exI [of _ q] exI [of _ b]) simp
    qed
    show "\<forall>p q a b. peers ?u p = Some a \<longrightarrow> peers ?u q = Some b \<longrightarrow> p_sid a = p_sid b \<longrightarrow> p = q"
      unfolding peers using udp_ok_sid [OF ok] by (auto split: if_splits)
    show "\<forall>q \<in> set (closing V ?u). peers ?u q \<noteq> None"
      using ok c unfolding peers udp_ok_def tables_ok_def by auto
  qed
  moreover have "queue_ok V ?u" using ok c s(2) unfolding udp_ok_def queue_ok_def f c(3) by (auto simp: peer_ok_def)
  moreover have "\<exists>z. sess ?u (p_sid b) = Some z \<and> peer_ok V ?u r b z" if r: "peers ?u r = Some b" for r b
  proof -
    have r': "peers u r = Some b" "r \<noteq> p" using r peers by (auto split: if_splits)
    obtain z where z: "sess u (p_sid b) = Some z" "peer_ok (p # V) u r b z" using udp_ok_peer [OF ok r'(1)] by blast
    show ?thesis using z other [OF r'] r'(2) c unfolding sess by (auto simp: peer_ok_def f mp ms)
  qed
  moreover have "sids_ok ?u" using ok live_sids_freed [OF p other peers] f by (auto simp: udp_ok_def sids_ok_def)
  ultimately show ?thesis using ok f(8) by (auto simp: udp_ok_def)
qed

lemma Recycle_ok:
  assumes ok: "udp_ok [] u"
  shows "udp_ok [] (Recycle u)"
proof -
  have "udp_ok V u \<Longrightarrow> udp_ok [] (fold recycle_one V u)" for V and u :: "'a udp"
    by (induction V arbitrary: u) (simp_all add: recycle_one_ok)
  moreover have "udp_ok (m_vClosing u) (u\<lparr>m_vClosing := [], m_bRecyclePosted := False, posted_recycles := posted_recycles u - 1\<rparr>)"
    using ok unfolding udp_ok_def tables_ok_def queue_ok_def peer_ok_def closing_def sids_ok_def live_sids_def by simp
  ultimately show ?thesis by (simp add: Recycle_def)
qed


context channel_sink
begin

lemma receive_one_ok:
  assumes ok: "udp_ok V u" and C: "config_ok C" and r: "receive_one A C deliver now a d u = Inr u'"
  shows "udp_ok V u'"
proof (cases "d = [] \<or> a = AF_UNSPEC")
  case True
  then show ?thesis using ok r by (auto simp: receive_one_def)
next
  case False
  obtain p u1 where o: "OpenLocked C now a u = (p, u1)" by fastforce
  obtain pr where p: "udp_ok V u1" "peers u1 p = Some pr" using OpenLocked_ok [OF ok C o] by blast
  let ?pr = "pr\<lparr>m_iLastActive := now\<rparr>"
  let ?u = "put_peer p ?pr u1"
  have u: "udp_ok V ?u" by (rule put_peer_ok [OF p]) simp_all
  have q: "peers ?u p = Some ?pr" by (simp add: put_peer_def)
  obtain s where s: "sess ?u (p_sid ?pr) = Some s" "fresh_in s" using udp_ok_peer [OF u q] by (metis peer_ok_def)
  obtain b x s' where e: "SwapInBuff A True deliver b s = Inr (x, s')" "u' = drop_closed p (on_session A True now p (\<lambda>_. s') ?u)"
    using r False o p(2) s by (auto simp: receive_one_def Let_def put_peer_def split: sum.splits)
  show ?thesis unfolding e(2) by (rule drop_closed_ok [OF u q s(1) chan_ok_SwapInBuff [OF e(1)] fresh_in_SwapInBuff [OF e(1) s(2)]])
qed

lemma data_in_rounds_ok:
  assumes "config_ok C"
  shows "udp_ok V u \<Longrightarrow> data_in_rounds A C deliver now n rs u = Inr u' \<Longrightarrow> udp_ok V u'"
proof (induction n arbitrary: rs u)
  case (Suc n)
  show ?case
  proof (cases rs)
    case (Cons r rs')
    then show ?thesis using Suc.prems Suc.IH receive_one_ok [OF Suc.prems(1) assms] by (cases r) (auto split: sum.splits, blast)
  qed (use Suc in simp)
qed simp

lemma udp_DataIn_ok: "udp_ok V u \<Longrightarrow> config_ok C \<Longrightarrow> udp_DataIn A C deliver now rs u = Inr u' \<Longrightarrow> udp_ok V u'"
  unfolding udp_DataIn_def using data_in_rounds_ok by blast

end

section \<open>Histories\<close>

datatype udp_event = OpenEv NetAddr | SendEv bool int bytes_obj | CloseEv int | IdleEv nat | RecycleEv | DataInEv "recv_from list"

text \<open>What runs at time \<open>now\<close>. \<open>OnRecycle\<close> runs when it was posted.\<close>

fun udp_step :: "allocator \<Rightarrow> 'e udp_config \<Rightarrow> 'e deliver \<Rightarrow> nat \<times> udp_event \<Rightarrow> 'e udp \<Rightarrow> exc + 'e udp" where
  "udp_step A C deliver (now, OpenEv a) u = Inr (snd (OpenPeer C now a u))"
| "udp_step A C deliver (now, SendEv sent sid d) u = (case udp_Send A sent now sid d u of Inl e \<Rightarrow> Inl e | Inr (_, u') \<Rightarrow> Inr u')"
| "udp_step A C deliver (now, CloseEv sid) u = Inr (udp_CloseSession A now sid u)"
| "udp_step A C deliver (now, IdleEv iIdle) u = Inr (CloseIdle A now iIdle u)"
| "udp_step A C deliver (now, RecycleEv) u = Inr (if posted_recycles u > 0 then Recycle u else u)"
| "udp_step A C deliver (now, DataInEv rs) u = udp_DataIn A C deliver now rs u"

fun udp_run :: "allocator \<Rightarrow> 'e udp_config \<Rightarrow> 'e deliver \<Rightarrow> (nat \<times> udp_event) list \<Rightarrow> 'e udp \<Rightarrow> exc + 'e udp" where
  "udp_run A C deliver [] u = Inr u"
| "udp_run A C deliver (ev # evs) u = (case udp_step A C deliver ev u of Inl e \<Rightarrow> Inl e | Inr u' \<Rightarrow> udp_run A C deliver evs u')"

fun event_ok :: "nat \<times> udp_event \<Rightarrow> bool" where
  "event_ok (now, SendEv sent sid d) = bytes_ok d"
| "event_ok _ = True"

lemma UDP_Channel_ok: "udp_ok [] UDP_Channel"
  by (simp add: UDP_Channel_def udp_ok_def tables_ok_def queue_ok_def closing_def sids_ok_def live_sids_def)

lemma OpenPeer_ok: "udp_ok V u \<Longrightarrow> config_ok C \<Longrightarrow> udp_ok V (snd (OpenPeer C now a u))"
  using OpenLocked_ok [of V u C now a] by (auto simp: OpenPeer_def split: prod.splits option.splits)

context channel_sink
begin

lemma udp_step_ok:
  assumes "udp_ok [] u" and "config_ok C" and "event_ok ev" and "udp_step A C deliver ev u = Inr u'"
  shows "udp_ok [] u'"
proof -
  obtain now e where ev: "ev = (now, e)" by fastforce
  show ?thesis
    using assms OpenPeer_ok [OF assms(1,2)] udp_CloseSession_ok [OF assms(1)] CloseIdle_ok [OF assms(1)] Recycle_ok [OF assms(1)]
      udp_DataIn_ok [OF assms(1,2)] udp_Send_ok [OF assms(1)]
    unfolding ev by (cases e) (auto split: sum.splits if_splits)
qed

lemma udp_run_ok:
  "udp_ok [] u \<Longrightarrow> config_ok C \<Longrightarrow> list_all event_ok evs \<Longrightarrow> udp_run A C deliver evs u = Inr u' \<Longrightarrow> udp_ok [] u'"
proof (induction evs arbitrary: u)
  case (Cons ev evs)
  then show ?case using udp_step_ok [of u C ev A] by (auto split: sum.splits)
qed simp

end

section \<open>Lemmas: single operations\<close>

lemma StartBind_once: "StartBind a b c d (cur, fds) = (r, cur', fds')
    \<Longrightarrow> fds' = fds + (if r then 1 else 0) \<and> (r \<longleftrightarrow> cur = None \<and> a \<and> b \<and> c \<and> d) \<and> (if r then cur' = Some UDP_Channel else cur' = cur)"
  by (auto simp: StartBind_def Let_def split: if_splits)

lemma recycle_one_effect:
  assumes "udp_ok (p # V) u"
  shows "\<exists>pr. peers u p = Some pr \<and> closed_sids (recycle_one p u) = closed_sids u @ [p_sid pr] \<and> peers (recycle_one p u) = (peers u)(p := None)"
proof -
  obtain pr where p: "peers u p = Some pr" using assms by (auto simp: udp_ok_def tables_ok_def closing_def)
  obtain s where s: "sess u (p_sid pr) = Some s" "peer_ok (p # V) u p pr s" using udp_ok_peer [OF assms p] by blast
  then have "p_sid pr \<notin> set (table u)" by (simp add: peer_ok_def closing_def)
  then show ?thesis using p s(1) by (simp add: recycle_one_def Let_def put_sess_def)
qed

lemma recycle_all_effect:
  "udp_ok V u \<Longrightarrow> closed_sids (fold recycle_one V u) = closed_sids u @ map (\<lambda>p. p_sid (the (peers u p))) V
    \<and> peers (fold recycle_one V u) = (\<lambda>q. if q \<in> set V then None else peers u q)"
proof (induction V arbitrary: u)
  case (Cons p V)
  obtain pr where p: "peers u p = Some pr" "closed_sids (recycle_one p u) = closed_sids u @ [p_sid pr]" "peers (recycle_one p u) = (peers u)(p := None)"
    using recycle_one_effect [OF Cons.prems] by blast
  have "p \<notin> set V" using Cons.prems by (simp add: udp_ok_def queue_ok_def closing_def)
  then have "map (\<lambda>q. p_sid (the (((peers u)(p := None)) q))) V = map (\<lambda>q. p_sid (the (peers u q))) V" by (intro map_cong) auto
  then show ?case using Cons.IH [OF recycle_one_ok [OF Cons.prems]] p by auto
qed simp

lemma Recycle_effect:
  assumes "udp_ok [] u"
  shows "closed_sids (Recycle u) = closed_sids u @ map (\<lambda>p. p_sid (the (peers u p))) (m_vClosing u)"
    "peers (Recycle u) = (\<lambda>q. if q \<in> set (m_vClosing u) then None else peers u q)"
proof -
  have "udp_ok (m_vClosing u) (u\<lparr>m_vClosing := [], m_bRecyclePosted := False, posted_recycles := posted_recycles u - 1\<rparr>)"
    using assms unfolding udp_ok_def tables_ok_def queue_ok_def peer_ok_def closing_def sids_ok_def live_sids_def by simp
  from recycle_all_effect [OF this]
  show "closed_sids (Recycle u) = closed_sids u @ map (\<lambda>p. p_sid (the (peers u p))) (m_vClosing u)"
    "peers (Recycle u) = (\<lambda>q. if q \<in> set (m_vClosing u) then None else peers u q)"
    by (simp_all add: Recycle_def cong: if_cong)
qed

lemma udp_Send_effect:
  assumes ok: "udp_ok V u" and A: "all_avail A" and sid: "sid \<in> set (table u)" and s: "sess u sid = Some s"
    and d: "bytes_ok d" "0 < m_iSize d" "m_iSize d \<le> iMaxSendQueueBytes s" "m_iSize d \<le> 2 ^ 59"
  shows "\<exists>u' a s'. udp_Send A sent now sid d u = Inr (OI_OK, u') \<and> GetPeerAddr sid u = Some a
    \<and> wire u' = wire u @ (if sent then [(a, content d)] else []) \<and> sess u' = (sess u)(sid \<mapsto> s') \<and> PendingSendBytes s' = 0
    \<and> stOutputBuffer s' = Bytes_empty \<and> \<not> IsClosed s'"
proof -
  obtain p pr where p: "map_of (m_mSessions u) sid = Some p" "peers u p = Some pr" "p_sid pr = sid" "\<not> IsClosed s" "peer_ok V u p pr s"
    using table_peer [OF ok sid] s by (metis option.inject)
  then have e: "stOutputBuffer s = Bytes_empty" "iQueuedBytes s = 0" "bChannel s"
    by (auto simp: peer_ok_def settled_def Clear_empty)
  obtain b where b: "Append_ext A (content d) Bytes_empty = Inr b" "bytes_ok b" "content b = content d" "m_iSize b = m_iSize d"
    using Append_ext_within [OF bytes_ok_empty, of A "content d"] A d by (auto simp: all_avail_def Bytes_empty_def)
  let ?s = "AllowSend (s\<lparr>stOutputBuffer := b, iQueuedBytes := m_iSize d\<rparr>)"
  have r: "SendResult A d s = Inr (OI_OK, ?s)" using p(4) e b(1) d(3) by (simp add: SendResult_def)
  let ?s' = "OnBytesSent (m_iSize d) (s\<lparr>bWriteEvent := False, stOutputBuffer := Clear Bytes_empty, iQueuedBytes := m_iSize d\<rparr>)"
  have "udp_Send A sent now sid d u = Inr (OI_OK, on_session A sent now p (\<lambda>_. ?s) u)"
    using sid p(1) s r by (simp add: udp_Send_def)
  moreover have "GetPeerAddr sid u = Some (m_stAddr pr)" using p by (simp add: GetPeerAddr_def)
  moreover have "wire (on_session A sent now p (\<lambda>_. ?s) u) = wire u @ (if sent then [(m_stAddr pr, content d)] else [])
     \<and> sess (on_session A sent now p (\<lambda>_. ?s) u) = (sess u)(sid \<mapsto> ?s')"
    using p s b e d(2) by (simp add: on_session_def peer_AllowSend_def put_sess_def put_peer_def Flush_def Let_def AllowSend_def
        IsClosed_def OnBytesSent_def)
  moreover have "PendingSendBytes ?s' = 0" "stOutputBuffer ?s' = Bytes_empty" "\<not> IsClosed ?s'"
    using p(4) by (simp_all add: PendingSendBytes_def OnBytesSent_def size_sub_self Clear_empty IsClosed_def)
  ultimately show ?thesis by blast
qed

lemma udp_Send_busy:
  assumes ok: "udp_ok V u" and "sid \<in> set (table u)" and "sess u sid = Some s" and "m_iSize d > iMaxSendQueueBytes s"
  shows "\<exists>u'. udp_Send A sent now sid d u = Inr (OI_ERR_BUSY, u') \<and> wire u' = wire u \<and> sess u' = sess u"
proof -
  obtain p pr where p: "map_of (m_mSessions u) sid = Some p" "peers u p = Some pr" "p_sid pr = sid" "\<not> IsClosed s" "peer_ok V u p pr s"
    using table_peer [OF ok assms(2)] assms(3) by (metis option.inject)
  have "m_iSize d > iMaxSendQueueBytes s - iQueuedBytes s" using assms(4) by linarith
  then have "SendResult A d s = Inr (OI_ERR_BUSY, s)" using p(4) by (simp add: SendResult_def)
  moreover have "\<not> bWriteEvent s" using p(5) by (simp add: peer_ok_def)
  ultimately show ?thesis
    using p assms by (auto simp: udp_Send_def on_session_def peer_AllowSend_def put_sess_def fun_upd_idem)
qed

lemma deliver_all_record_status:
  "iStatus (deliver_all record_frame fs s) = iStatus s" "bWriteEvent (deliver_all record_frame fs s) = bWriteEvent s"
  by (induction fs arbitrary: s) (auto simp: record_frame_def CancelIncompleteTimer_def)

lemma SwapInBuff_datagram:
  assumes "fresh_in s" and A: "all_avail A" and b: "bytes_ok b" "m_iSize b \<le> iMaxReceiveBufferBytes s"
  shows "\<exists>r s'. SwapInBuff A t record_frame b s = Inr (r, s') \<and> stEnv s' = stEnv s @ fst (split_frames (m_iFrameBytes s) (content b))
    \<and> iStatus s' = iStatus s \<and> bWriteEvent s' = bWriteEvent s"
proof -
  obtain fs rest e where sp: "split_frames (m_iFrameBytes s) (content b) = (fs, rest, e)" by (metis prod_cases3)
  let ?s = "s\<lparr>stInputBuffer := b\<rparr>"
  obtain c where o: "OnDataIn A t record_frame ?s = Inr (after_data t c (frame_stop e (deliver_all record_frame fs (?s\<lparr>stInputBuffer := Bytes_empty\<rparr>))))"
    using recorder.OnDataIn_split [of ?s A fs rest e t] A b(1) sp by auto
  have dg: "m_bDatagram (deliver_all record_frame fs (s\<lparr>stInputBuffer := Bytes_empty\<rparr>))" and z: "m_iSize (stInputBuffer s) = 0"
    using assms(1) by (simp_all add: fresh_in_def recorder.deliver_all_rx(3))
  then have "after_data t c (frame_stop e (deliver_all record_frame fs (?s\<lparr>stInputBuffer := Bytes_empty\<rparr>)))
      = (deliver_all record_frame fs (s\<lparr>stInputBuffer := Bytes_empty\<rparr>))\<lparr>stInputBuffer := Clear c\<rparr>"
    by (cases e) (simp_all add: after_data_def)
  moreover have "\<not> m_iSize b > ReceiveAllowance s" using b(2) z by (simp add: ReceiveAllowance_def)
  ultimately have "SwapInBuff A t record_frame b s
      = Inr (Clear (stInputBuffer s), (deliver_all record_frame fs (s\<lparr>stInputBuffer := Bytes_empty\<rparr>))\<lparr>stInputBuffer := Clear c\<rparr>)"
    using o z by (simp add: SwapInBuff_def)
  then show ?thesis by (simp add: sp deliver_all_record deliver_all_record_status)
qed

lemma receive_one_effect:
  assumes ok: "udp_ok V u" and C: "config_ok C" and A: "all_avail A" and d: "d \<noteq> []" "a \<noteq> AF_UNSPEC" "length d \<le> 2 ^ 59"
    and o: "OpenLocked C now a u = (p, u1)" and p: "peers u1 p = Some pr" and s: "sess u1 (p_sid pr) = Some s"
    and l: "length d \<le> iMaxReceiveBufferBytes s"
  shows "\<exists>u' s'. receive_one A C record_frame now a d u = Inr u' \<and> sess u' = (sess u1)(p_sid pr \<mapsto> s')
    \<and> stEnv s' = stEnv s @ fst (split_frames (m_iFrameBytes s) d) \<and> \<not> IsClosed s' \<and> wire u' = wire u1 \<and> table u' = table u1"
proof -
  obtain b where b: "Append_ext A d Bytes_empty = Inr b" "bytes_ok b" "content b = d" "m_iSize b = length d"
    using Append_ext_within [OF bytes_ok_empty, of A d] A d by (auto simp: all_avail_def Bytes_empty_def)
  have u1: "udp_ok V u1" "\<not> peer_closed u1 p" using OpenLocked_ok [OF ok C o] by auto
  then have op: "\<not> IsClosed s" using p s by (simp add: peer_closed_def)
  have po: "peer_ok V u1 p pr s" using udp_ok_peer [OF u1(1) p] s by (metis option.inject)
  let ?pr = "pr\<lparr>m_iLastActive := now\<rparr>"
  let ?u = "put_peer p ?pr u1"
  obtain x s' where s': "SwapInBuff A True record_frame b s = Inr (x, s')" "stEnv s' = stEnv s @ fst (split_frames (m_iFrameBytes s) d)" "\<not> IsClosed s'" "\<not> bWriteEvent s'"
    using SwapInBuff_datagram [of s A b True] po A b l op by (auto simp: peer_ok_def IsClosed_def)
  let ?v = "on_session A True now p (\<lambda>_. s') ?u"
  have u: "peers ?u p = Some ?pr" "sess ?u (p_sid ?pr) = Some s" using s by (simp_all add: put_peer_def)
  have "\<not> peer_closed ?v p" using on_session_closed(1) [OF u] s'(3) by simp
  then have dc: "drop_closed p ?v = ?v" by (simp add: drop_closed_def split: option.splits)
  have r: "receive_one A C record_frame now a d u = Inr ?v"
    using d b(1) o p s s'(1) dc by (simp add: receive_one_def Let_def put_peer_def)
  have "?v = put_sess (p_sid pr) s' ?u" using u s'(4) by (simp add: on_session_def peer_AllowSend_def put_sess_def put_peer_def)
  then have "sess ?v = (sess u1)(p_sid pr \<mapsto> s')" "wire ?v = wire u1" "table ?v = table u1" by (simp_all add: put_sess_def put_peer_def)
  then show ?thesis using r s' by blast
qed

section \<open>Properties\<close>

lemma distinct_count_list: "distinct xs \<Longrightarrow> count_list xs x = (if x \<in> set xs then 1 else 0)"
  by (induction xs) auto

lemma udp_ok_closed:
  assumes "udp_ok V u" and "peers u p = Some pr"
  obtains s where "peer_ok V u p pr s" "peer_closed u p = IsClosed s"
proof -
  obtain s where "sess u (p_sid pr) = Some s" "peer_ok V u p pr s" using udp_ok_peer [OF assms] by blast
  then show ?thesis using that assms(2) by (simp add: peer_closed_def)
qed

definition closing_sids :: "'e udp \<Rightarrow> int set" where
  "closing_sids u = (\<lambda>p. p_sid (the (peers u p))) ` set (m_vClosing u)"

lemma live_sids_parts:
  assumes ok: "udp_ok [] u"
  shows "live_sids u = set (table u) \<union> closing_sids u" "set (table u) \<inter> closing_sids u = {}" "live_sids u \<inter> set (closed_sids u) = {}"
proof -
  have t: "p_sid pr \<in> set (table u) \<longleftrightarrow> p \<notin> set (m_vClosing u)" "p_sid pr \<notin> set (closed_sids u)" if "peers u p = Some pr" for p pr
    using udp_ok_closed [OF ok that] by (metis peer_ok_def closing_def append_Nil)+
  have q: "\<exists>pr. peers u p = Some pr" if "p \<in> set (m_vClosing u)" for p
    using ok that by (auto simp: udp_ok_def tables_ok_def closing_def)
  have tb: "\<exists>p pr. peers u p = Some pr \<and> p_sid pr = sid" if "sid \<in> set (table u)" for sid
    using ok that unfolding udp_ok_def tables_ok_def by blast
  have live: "sid \<in> live_sids u \<longleftrightarrow> (\<exists>p pr. peers u p = Some pr \<and> p_sid pr = sid)" for sid
    by (auto simp: live_sids_def ran_def)
  have c: "sid \<in> closing_sids u \<longleftrightarrow> (\<exists>p pr. peers u p = Some pr \<and> p_sid pr = sid \<and> p \<in> set (m_vClosing u))" for sid
  proof
    assume "sid \<in> closing_sids u"
    then obtain p where p: "p \<in> set (m_vClosing u)" "sid = p_sid (the (peers u p))" unfolding closing_sids_def by blast
    obtain pr where "peers u p = Some pr" using q [OF p(1)] by blast
    then show "\<exists>p pr. peers u p = Some pr \<and> p_sid pr = sid \<and> p \<in> set (m_vClosing u)"
      using p by (intro exI [of _ p] exI [of _ pr]) simp
  next
    assume "\<exists>p pr. peers u p = Some pr \<and> p_sid pr = sid \<and> p \<in> set (m_vClosing u)"
    then obtain p pr where p: "peers u p = Some pr" "p_sid pr = sid" "p \<in> set (m_vClosing u)" by blast
    then show "sid \<in> closing_sids u" unfolding closing_sids_def by (intro image_eqI [of _ _ p]) simp_all
  qed
  show "live_sids u = set (table u) \<union> closing_sids u"
  proof (intro subset_antisym subsetI)
    fix sid assume "sid \<in> live_sids u"
    then obtain p pr where "peers u p = Some pr" "p_sid pr = sid" unfolding live by blast
    then show "sid \<in> set (table u) \<union> closing_sids u" using t(1) [of p pr] c [of sid] by blast
  next
    fix sid assume "sid \<in> set (table u) \<union> closing_sids u"
    then show "sid \<in> live_sids u" unfolding live Un_iff c using tb [of sid] by blast
  qed
  show "set (table u) \<inter> closing_sids u = {}" by (intro equals0I) (use c t(1) in \<open>metis IntE\<close>)
  show "live_sids u \<inter> set (closed_sids u) = {}" by (intro equals0I) (use live t(2) in \<open>metis IntE\<close>)
qed

definition udp_example :: "(u32 \<times> bytes) list udp_config" where
  "udp_example = \<lparr>CloneSession = \<lparr>iStatus = IO_ST_CONNECTED, iErrorCode = 0, iQueuedBytes = 0, iMaxSendQueueBytes = 9,
     iMaxReceiveBufferBytes = 9, stOutputBuffer = Bytes_empty, stInputBuffer = Bytes_empty, bChannel = False,
     bWriteEvent = False, bIncompleteTimer = False, m_iFrameBytes = 9, m_bDatagram = True, iMgrCloses = 0, stEnv = []\<rparr>,
    udp_limits = \<lparr>mgrMaxSendQueueBytes = 9, mgrMaxReceiveBufferBytes = 9, mgrMaxFrameBytes = 9, mgrIncompleteFrameTimeout = 9, mgrIdleTimeout = 5\<rparr>\<rparr>"

definition udp_alloc :: allocator where
  "udp_alloc = \<lparr>avail = \<lambda>_. True, junk = \<lambda>_. CHR ''?''\<rparr>"

definition udp_events :: "(nat \<times> udp_event) list" where
  "udp_events = [(1, OpenEv (AF_INET ''10.0.0.1'' 53)), (1, OpenEv (AF_INET ''10.0.0.2'' 53)), (1, DataInEv [RecvInterrupted, RecvStop]),
    (2, OpenEv (AF_INET ''10.0.0.3'' 80)), (2, OpenEv (AF_INET ''10.0.0.2'' 53)), (4, CloseEv 1), (5, RecycleEv), (6, IdleEv 5),
    (7, OpenEv (AF_INET ''10.0.0.2'' 53))]"

lemma udp_example_ok: "config_ok udp_example" "list_all event_ok udp_events" "all_avail udp_alloc"
  by (simp_all add: config_ok_def udp_example_def IsClosed_def fresh_in_def Bytes_empty_def udp_events_def piece_laws
      all_avail_def udp_alloc_def)

lemma udp_example_run:
  "\<exists>u. udp_run udp_alloc udp_example record_frame udp_events UDP_Channel = Inr u \<and> last_sid u = 4 \<and> closed_sids u = [1] \<and> table u = [3, 4]"
proof -
  have "case udp_run udp_alloc udp_example record_frame udp_events UDP_Channel of Inl _ \<Rightarrow> False
    | Inr u \<Rightarrow> last_sid u = 4 \<and> closed_sids u = [1] \<and> table u = [3, 4]"
    by code_simp
  then show ?thesis by (auto split: sum.splits)
qed



text \<open>
  A payload sent on an open session leaves at once as one datagram that holds exactly these bytes and
  goes to the address of the session; nothing stays queued, and a payload above the limit of the send queue
  is refused and nothing is sent. A datagram that the system does not take is dropped.
\<close>

theorem one_datagram_per_send:
  fixes u :: "'e udp"
  assumes "config_ok C" and "channel_sink deliver" and "list_all event_ok evs" and "udp_run A C deliver evs UDP_Channel = Inr u"
    and "all_avail A" and "sid \<in> set (table u)" and "bytes_ok d" and "0 < m_iSize d" and "m_iSize d \<le> 2 ^ 59"
  shows "\<exists>s u' c a. sess u sid = Some s \<and> GetPeerAddr sid u = Some a \<and> udp_Send A sent now sid d u = Inr (c, u')
    \<and> (if m_iSize d \<le> iMaxSendQueueBytes s
       then c = OI_OK \<and> wire u' = wire u @ (if sent then [(a, content d)] else [])
         \<and> (\<exists>s'. sess u' = (sess u)(sid \<mapsto> s') \<and> PendingSendBytes s' = 0 \<and> \<not> IsClosed s')
       else c = OI_ERR_BUSY \<and> wire u' = wire u \<and> sess u' = sess u)"
proof -
  have ok: "udp_ok [] u" by (rule channel_sink.udp_run_ok [OF assms(2) UDP_Channel_ok assms(1,3,4)])
  obtain p pr s where p: "map_of (m_mSessions u) sid = Some p" "peers u p = Some pr" "sess u sid = Some s"
    by (rule table_peer [OF ok assms(6)])
  show ?thesis
  proof (cases "m_iSize d \<le> iMaxSendQueueBytes s")
    case True
    obtain u' a s' where e: "udp_Send A sent now sid d u = Inr (OI_OK, u')" "GetPeerAddr sid u = Some a"
      "wire u' = wire u @ (if sent then [(a, content d)] else [])" "sess u' = (sess u)(sid \<mapsto> s')" "PendingSendBytes s' = 0" "\<not> IsClosed s'"
      using udp_Send_effect [OF ok assms(5,6) p(3) assms(7,8) True assms(9), of sent now] by blast
    show ?thesis by (intro exI [of _ s] exI [of _ u'] exI [of _ OI_OK] exI [of _ a]) (use e p(3) True in auto)
  next
    case False
    then show ?thesis using udp_Send_busy [OF ok assms(6) p(3), of d A sent now] p by (auto simp: GetPeerAddr_def)
  qed
qed

theorem one_datagram_per_send_witness:
  "\<exists>u s u' c a. udp_run udp_alloc udp_example record_frame udp_events UDP_Channel = Inr u \<and> sess u 3 = Some s \<and> GetPeerAddr 3 u = Some a
    \<and> udp_Send udp_alloc True 60 3 (piece ''pong'') u = Inr (c, u') \<and> (4 \<le> iMaxSendQueueBytes s \<longrightarrow> wire u' = wire u @ [(a, ''pong'')])"
proof -
  obtain u where u: "udp_run udp_alloc udp_example record_frame udp_events UDP_Channel = Inr u" "table u = [3, 4]"
    using udp_example_run by blast
  have p: "3 \<in> set (table u)" "bytes_ok (piece ''pong'')" "0 < m_iSize (piece ''pong'')" "m_iSize (piece ''pong'') \<le> 2 ^ 59"
    using u(2) by (simp_all add: piece_laws) (simp_all add: piece_def)
  have z: "m_iSize (piece ''pong'') = 4" by (simp add: piece_def)
  from one_datagram_per_send [OF udp_example_ok(1) recording_channel.channel_sink_axioms udp_example_ok(2) u(1) udp_example_ok(3) p,
      of True 60] obtain s u' c a where
    h: "sess u 3 = Some s" "GetPeerAddr 3 u = Some a" "udp_Send udp_alloc True 60 3 (piece ''pong'') u = Inr (c, u')"
      "if m_iSize (piece ''pong'') \<le> iMaxSendQueueBytes s
       then c = OI_OK \<and> wire u' = wire u @ (if True then [(a, content (piece ''pong''))] else [])
         \<and> (\<exists>s'. sess u' = (sess u)(3 \<mapsto> s') \<and> PendingSendBytes s' = 0 \<and> \<not> IsClosed s')
       else c = OI_ERR_BUSY \<and> wire u' = wire u \<and> sess u' = sess u"
    by blast
  have "4 \<le> iMaxSendQueueBytes s \<longrightarrow> wire u' = wire u @ [(a, ''pong'')]" using h(4) z by (simp add: piece_laws)
  then show ?thesis using u h by blast
qed

text \<open>
  A datagram that was received goes to the open session of its source, a new one when there is none:
  the session gets the complete frames of this datagram only, whatever earlier datagrams held, and stays
  open, also when the datagram is cut off or malformed. No other session changes.
\<close>

theorem datagram_to_its_session:
  assumes "config_ok C" and "list_all event_ok evs" and "udp_run A C record_frame evs UDP_Channel = Inr u"
    and "all_avail A" and "d \<noteq> []" and "a \<noteq> AF_UNSPEC" and "length d \<le> 2 ^ 59"
    and "OpenLocked C now a u = (p, u1)"
  shows "\<exists>pr s. peers u1 p = Some pr \<and> sess u1 (p_sid pr) = Some s \<and> Endpoint (m_stAddr pr) = Endpoint a \<and> \<not> IsClosed s
    \<and> (length d \<le> iMaxReceiveBufferBytes s \<longrightarrow> (\<exists>u' s'. receive_one A C record_frame now a d u = Inr u'
        \<and> sess u' = (sess u1)(p_sid pr \<mapsto> s') \<and> \<not> IsClosed s'
        \<and> stEnv s' = stEnv s @ fst (split_frames (m_iFrameBytes s) d)))"
proof -
  have ok: "udp_ok [] u" by (rule recording_channel.udp_run_ok [OF UDP_Channel_ok assms(1,2,3)])
  obtain pr where p: "udp_ok [] u1" "peers u1 p = Some pr" "Endpoint (m_stAddr pr) = Endpoint a" "\<not> peer_closed u1 p"
    using OpenLocked_ok [OF ok assms(1,8)] by blast
  obtain s where s: "sess u1 (p_sid pr) = Some s" using udp_ok_peer [OF p(1,2)] by blast
  then have o: "\<not> IsClosed s" using p(2,4) by (simp add: peer_closed_def)
  have "\<exists>u' s'. receive_one A C record_frame now a d u = Inr u' \<and> sess u' = (sess u1)(p_sid pr \<mapsto> s') \<and> \<not> IsClosed s'
        \<and> stEnv s' = stEnv s @ fst (split_frames (m_iFrameBytes s) d)" if "length d \<le> iMaxReceiveBufferBytes s"
    using receive_one_effect [OF ok assms(1,4-8) p(2) s that] by blast
  then show ?thesis using p s o by blast
qed

theorem datagram_to_its_session_witness:
  "\<exists>u p u1 pr s. udp_run udp_alloc udp_example record_frame udp_events UDP_Channel = Inr u
    \<and> OpenLocked udp_example 60 (AF_INET ''10.0.0.9'' 9) u = (p, u1) \<and> peers u1 p = Some pr \<and> sess u1 (p_sid pr) = Some s
    \<and> (1 \<le> iMaxReceiveBufferBytes s \<longrightarrow> (\<exists>u'. receive_one udp_alloc udp_example record_frame 60 (AF_INET ''10.0.0.9'' 9) ''x'' u = Inr u'))"
proof -
  obtain u where u: "udp_run udp_alloc udp_example record_frame udp_events UDP_Channel = Inr u" using udp_example_run by blast
  obtain p u1 where o: "OpenLocked udp_example 60 (AF_INET ''10.0.0.9'' 9) u = (p, u1)" by fastforce
  have d: "''x'' \<noteq> ([] :: bytes)" "AF_INET ''10.0.0.9'' 9 \<noteq> AF_UNSPEC" "length ''x'' \<le> 2 ^ 59" by simp_all
  from datagram_to_its_session [OF udp_example_ok(1,2) u udp_example_ok(3) d o] u o show ?thesis by auto
qed

end
