(* ===== verification/OI_Json.thy ===== *)
theory OI_Json
  imports OI_Stream OI_Decimal
begin

text \<open>
  The conversions between C++ values and \<open>Json::Value\<close> (cbaselib/proto/inc/oi_json.h). A JSON value is
  the tagged union of jsoncpp; an object is its \<open>std::map\<close>, a list of pairs in ascending key order.
  A \<open>FromJsonValue\<close> that returns false leaves its target as it was and is \<open>None\<close> here. The overloads
  for \<open>float\<close> and \<open>double\<close> are not modelled (they need the host's floating-point conversions).

  The locale \<open>json_codec\<close> is the contract of a \<open>ToJsonValue\<close>/\<open>FromJsonValue\<close> pair for one type; the
  container overloads are shown to satisfy it whenever their element type does.
\<close>

section \<open>Values\<close>

datatype json =
    nullValue
  | intValue u64
  | uintValue u64
  | realValue u64
  | stringValue bytes
  | booleanValue bool
  | arrayValue "json list"
  | objectValue "(bytes \<times> json) list"

text \<open>\<open>m[k] = v\<close> on a \<open>std::map\<close>.\<close>

definition map_assign :: "'k::linorder \<Rightarrow> 'v \<Rightarrow> ('k \<times> 'v) list \<Rightarrow> ('k \<times> 'v) list" where
  "map_assign k v m = (if k \<in> set (map fst m) then map (\<lambda>p. if fst p = k then (k, v) else p) m
                       else insort_key fst (k, v) m)"

definition map_ok :: "('k::linorder \<times> 'v) list \<Rightarrow> bool" where
  "map_ok m \<longleftrightarrow> sorted (map fst m) \<and> distinct (map fst m)"

section \<open>Scalars\<close>

definition ToJson_bool :: "bool \<Rightarrow> json" where
  "ToJson_bool v = booleanValue v"

definition ToJson_int :: "'a::len word \<Rightarrow> json" where
  "ToJson_int v = intValue (word_of_int (sint v))"

definition ToJson_uint :: "'a::len word \<Rightarrow> json" where
  "ToJson_uint v = uintValue (word_of_int (uint v))"

definition ToJson_string :: "bytes \<Rightarrow> json" where
  "ToJson_string v = stringValue v"

definition ToJson_bytes :: "bytes_obj \<Rightarrow> json" where
  "ToJson_bytes b = stringValue (content b)"

fun FromJson_bool :: "json \<Rightarrow> bool option" where
  "FromJson_bool (booleanValue v) = Some v"
| "FromJson_bool _ = None"

fun FromJson_int :: "json \<Rightarrow> 'a::len word option" where
  "FromJson_int (intValue i) =
     (if sint i < - (2 ^ (LENGTH('a) - 1)) \<or> sint i > 2 ^ (LENGTH('a) - 1) - 1 then None
      else Some (word_of_int (sint i)))"
| "FromJson_int (uintValue u) =
     (if uint u > 2 ^ (LENGTH('a) - 1) - 1 then None else Some (word_of_int (uint u)))"
| "FromJson_int _ = None"

fun FromJson_uint :: "json \<Rightarrow> 'a::len word option" where
  "FromJson_uint (intValue i) =
     (if sint i < 0 \<or> sint i > 2 ^ LENGTH('a) - 1 then None else Some (word_of_int (sint i)))"
| "FromJson_uint (uintValue u) =
     (if uint u > 2 ^ LENGTH('a) - 1 then None else Some (word_of_int (uint u)))"
| "FromJson_uint _ = None"

fun FromJson_string :: "json \<Rightarrow> bytes option" where
  "FromJson_string (stringValue v) = Some v"
| "FromJson_string _ = None"

text \<open>Into a Bytes object: \<open>Reserve(0)\<close> empties it and the text is appended.\<close>

fun FromJson_bytes :: "allocator \<Rightarrow> json \<Rightarrow> bytes_obj \<Rightarrow> exc + bool \<times> bytes_obj" where
  "FromJson_bytes A (stringValue v) b =
     (case Reserve A 0 b of Inl e \<Rightarrow> Inl e
      | Inr (c, b1) \<Rightarrow> (case Append_ext A v b1 of Inl e \<Rightarrow> Inl e | Inr b2 \<Rightarrow> Inr (True, b2)))"
| "FromJson_bytes A _ b = Inr (False, b)"

section \<open>Containers\<close>

definition ToJson_vector :: "('a \<Rightarrow> json) \<Rightarrow> 'a list \<Rightarrow> json" where
  "ToJson_vector f vs = arrayValue (map f vs)"

fun from_each :: "(json \<Rightarrow> 'a option) \<Rightarrow> json list \<Rightarrow> 'a list option" where
  "from_each r [] = Some []"
| "from_each r (j # js) = (case r j of None \<Rightarrow> None
     | Some v \<Rightarrow> (case from_each r js of None \<Rightarrow> None | Some vs \<Rightarrow> Some (v # vs)))"

fun FromJson_vector :: "(json \<Rightarrow> 'a option) \<Rightarrow> json \<Rightarrow> 'a list option" where
  "FromJson_vector r (arrayValue js) = from_each r js"
| "FromJson_vector r _ = None"

text \<open>Maps with string keys, and with integer keys written in decimal.\<close>

definition ToJson_string_map :: "('v \<Rightarrow> json) \<Rightarrow> (bytes \<times> 'v) list \<Rightarrow> json" where
  "ToJson_string_map f m = objectValue (fold (\<lambda>(k, v). map_assign k (f v)) m [])"

fun from_members :: "(bytes \<Rightarrow> 'k::linorder option) \<Rightarrow> (json \<Rightarrow> 'v option)
    \<Rightarrow> (bytes \<times> json) list \<Rightarrow> ('k \<times> 'v) list \<Rightarrow> ('k \<times> 'v) list option" where
  "from_members rk r [] mDecoded = Some mDecoded"
| "from_members rk r ((n, j) # ms) mDecoded = (case rk n of None \<Rightarrow> None
     | Some k \<Rightarrow> (case r j of None \<Rightarrow> None | Some v \<Rightarrow> from_members rk r ms (map_assign k v mDecoded)))"

fun FromJson_string_map :: "(json \<Rightarrow> 'v option) \<Rightarrow> json \<Rightarrow> (bytes \<times> 'v) list option" where
  "FromJson_string_map r (objectValue ms) = from_members Some r ms []"
| "FromJson_string_map r _ = None"

definition ToJson_int_map :: "('v \<Rightarrow> json) \<Rightarrow> (int \<times> 'v) list \<Rightarrow> json" where
  "ToJson_int_map f m = objectValue (fold (\<lambda>(k, v). map_assign (to_string k) (f v)) m [])"

fun FromJson_int_map :: "bool \<Rightarrow> int \<Rightarrow> int \<Rightarrow> (json \<Rightarrow> 'v option) \<Rightarrow> json \<Rightarrow> (int \<times> 'v) list option" where
  "FromJson_int_map sgnd lo hi r (objectValue ms) = from_members (from_chars sgnd lo hi) r ms []"
| "FromJson_int_map sgnd lo hi r _ = None"

section \<open>Objects\<close>

text \<open>
  A generated \<open>FromJson\<close> reads its members one after another into the object and stops at the first
  that does not convert; a member that is absent is left alone. \<open>json_member\<close> is one such statement.
\<close>

type_synonym 'o from_obj = "(bytes \<times> json) list \<Rightarrow> 'o \<Rightarrow> bool \<times> 'o"

definition json_member :: "bytes \<Rightarrow> (json \<Rightarrow> 'a option) \<Rightarrow> ('a \<Rightarrow> 'o \<Rightarrow> 'o) \<Rightarrow> 'o from_obj" where
  "json_member name r upd ms v = (case map_of ms name of None \<Rightarrow> (True, v)
     | Some j \<Rightarrow> (case r j of None \<Rightarrow> (False, v) | Some x \<Rightarrow> (True, upd x v)))"

fun json_members :: "'o from_obj list \<Rightarrow> 'o from_obj" where
  "json_members [] ms v = (True, v)"
| "json_members (f # fs) ms v = (case f ms v of (False, v') \<Rightarrow> (False, v') | (True, v') \<Rightarrow> json_members fs ms v')"

fun FromJson_obj :: "'o from_obj list \<Rightarrow> json \<Rightarrow> 'o \<Rightarrow> bool \<times> 'o" where
  "FromJson_obj fs (objectValue ms) v = json_members fs ms v"
| "FromJson_obj fs _ v = (False, v)"

definition ToJson_obj :: "(bytes \<times> json) list \<Rightarrow> json" where
  "ToJson_obj ms = objectValue (fold (\<lambda>(k, j). map_assign k j) ms [])"

text \<open>An object as an element of a container: a fresh value, decoded in place.\<close>

definition fresh_obj :: "'o \<Rightarrow> (json \<Rightarrow> 'o \<Rightarrow> bool \<times> 'o) \<Rightarrow> json \<Rightarrow> 'o option" where
  "fresh_obj v0 from_json j = (case from_json j v0 of (True, v) \<Rightarrow> Some v | (False, v) \<Rightarrow> None)"

text \<open>The mathematical integer a JSON value stands for.\<close>

fun json_number :: "json \<Rightarrow> int option" where
  "json_number (intValue i) = Some (sint i)"
| "json_number (uintValue u) = Some (uint u)"
| "json_number _ = None"

section \<open>Lemmas on ordered maps\<close>

lemma map_ok_nil [simp]: "map_ok []"
  by (simp add: map_ok_def)

lemma map_assign_over: "map fst (map (\<lambda>p. if fst p = k then (k, v) else p) m) = map fst m"
  by simp

lemma map_assign_keys: "set (map fst (map_assign k v m)) = insert k (set (map fst m))"
proof (cases "k \<in> set (map fst m)")
  case True
  then have "map fst (map_assign k v m) = map fst m"
    unfolding map_assign_def by (simp only: if_True map_assign_over)
  with True show ?thesis by (simp add: insert_absorb)
next
  case False
  then show ?thesis by (simp add: map_assign_def set_insort_key)
qed

lemma map_assign_new: "k \<notin> set (map fst m) \<Longrightarrow> set (map_assign k v m) = insert (k, v) (set m)"
  by (simp add: map_assign_def set_insort_key)

lemma map_ok_assign: "map_ok m \<Longrightarrow> map_ok (map_assign k v m)"
proof (cases "k \<in> set (map fst m)")
  case True
  then show "map_ok m \<Longrightarrow> map_ok (map_assign k v m)"
    unfolding map_ok_def map_assign_def by (simp only: if_True map_assign_over)
next
  case False
  then have "map_assign k v m = insort_key fst (k, v) m" and "(k, v) \<notin> set m" by (force simp: map_assign_def)+
  with False show "map_ok m \<Longrightarrow> map_ok (map_assign k v m)"
    by (auto simp: map_ok_def sorted_insort_key distinct_map distinct_insort set_insort_key inj_on_insert)
qed

lemma map_ok_unique: "map_ok m \<Longrightarrow> map_ok m' \<Longrightarrow> set m = set m' \<Longrightarrow> m = m'"
  unfolding map_ok_def by (auto simp: distinct_map intro: map_sorted_distinct_set_unique)

lemma map_ok_fold: "map_ok m \<Longrightarrow> map_ok (fold (\<lambda>p. map_assign (f p) (g p)) ps m)"
  by (induction ps arbitrary: m) (simp_all add: map_ok_assign)

lemma set_fold_assign:
  "distinct (map f ps) \<Longrightarrow> set (map f ps) \<inter> set (map fst m) = {}
    \<Longrightarrow> set (fold (\<lambda>p. map_assign (f p) (g p)) ps m) = set m \<union> (\<lambda>p. (f p, g p)) ` set ps"
proof (induction ps arbitrary: m)
  case Nil
  then show ?case by simp
next
  case (Cons p ps)
  then have new: "f p \<notin> set (map fst m)" by auto
  have "set (map f ps) \<inter> set (map fst (map_assign (f p) (g p) m)) = {}"
    using Cons.prems by (auto simp: map_assign_keys simp del: set_map)
  from Cons.IH [OF _ this] Cons.prems(1) map_assign_new [OF new] show ?case by auto
qed

lemma map_of_fold_assign:
  assumes "distinct (map fst ps)"
  shows "map_of (fold (\<lambda>(k, j). map_assign k j) ps []) k = map_of ps k"
proof -
  have f: "(\<lambda>(k, j). map_assign k j) = (\<lambda>p. map_assign (fst p) (snd p))" by auto
  let ?m = "fold (\<lambda>p. map_assign (fst p) (snd p)) ps []"
  have "set ?m = set ps" using set_fold_assign [of fst ps "[]" snd] assms by simp
  moreover have "map_ok ?m" by (rule map_ok_fold) simp
  ultimately show ?thesis using assms unfolding f map_ok_def by (metis map_of_inject_set)
qed

section \<open>The contract of a conversion\<close>

locale json_codec =
  fixes to_json :: "'v \<Rightarrow> json"
    and from_json :: "json \<Rightarrow> 'v option"
  assumes json_law: "from_json (to_json v) = Some v"
begin

lemma vector_roundtrip: "FromJson_vector from_json (ToJson_vector to_json vs) = Some vs"
proof -
  have "from_each from_json (map to_json vs) = Some vs" by (induction vs) (simp_all add: json_law)
  then show ?thesis by (simp add: ToJson_vector_def)
qed

lemma from_members_fold:
  "list_all (\<lambda>(n, j). \<exists>k v. rk n = Some k \<and> j = to_json v) ms
    \<Longrightarrow> from_members rk from_json ms m0
      = Some (fold (\<lambda>p. map_assign (the (rk (fst p))) (the (from_json (snd p)))) ms m0)"
proof (induction ms arbitrary: m0)
  case Nil
  then show ?case by simp
next
  case (Cons p ms)
  then show ?case by (cases p) (auto simp: json_law)
qed

lemma members_roundtrip:
  assumes m: "map_ok m" and inj: "\<And>k. k \<in> set (map fst m) \<Longrightarrow> rk (wk k) = Some k"
  shows "from_members rk from_json (fold (\<lambda>(k, v). map_assign (wk k) (to_json v)) m []) [] = Some m"
proof -
  have f: "(\<lambda>(k, v). map_assign (wk k) (to_json v)) = (\<lambda>p. map_assign (wk (fst p)) (to_json (snd p)))" by auto
  let ?ms = "fold (\<lambda>p. map_assign (wk (fst p)) (to_json (snd p))) m []"
  have im: "inj_on fst (set m)" using m by (simp add: map_ok_def distinct_map)
  have "inj_on wk (fst ` set m)" using inj by (intro inj_on_inverseI [where g = "\<lambda>x. the (rk x)"]) simp
  from comp_inj_on [OF im this] have "inj_on (\<lambda>p. wk (fst p)) (set m)" by (simp add: comp_def)
  then have d: "distinct (map (\<lambda>p. wk (fst p)) m)" using m by (simp add: distinct_map map_ok_def)
  then have s: "set ?ms = (\<lambda>p. (wk (fst p), to_json (snd p))) ` set m" using set_fold_assign [of "\<lambda>p. wk (fst p)" m "[]"] by simp
  then have "list_all (\<lambda>(n, j). \<exists>k v. rk n = Some k \<and> j = to_json v) ?ms"
    using inj by (auto simp: list_all_iff)
  note r = from_members_fold [OF this, of "[]"]
  let ?out = "fold (\<lambda>p. map_assign (the (rk (fst p))) (the (from_json (snd p)))) ?ms []"
  have ok: "map_ok ?ms" by (rule map_ok_fold) simp
  have "inj_on (\<lambda>p. the (rk (fst p))) (set ?ms)"
  proof (rule inj_onI)
    fix p q assume pq: "p \<in> set ?ms" "q \<in> set ?ms" "the (rk (fst p)) = the (rk (fst q))"
    then obtain a b where a: "a \<in> set m" "p = (wk (fst a), to_json (snd a))"
      and b: "b \<in> set m" "q = (wk (fst b), to_json (snd b))" by (auto simp: s)
    with pq(3) inj [of "fst a"] inj [of "fst b"] have "fst a = fst b" by simp
    with im a(1) b(1) have "a = b" by (auto dest: inj_onD)
    with a b show "p = q" by simp
  qed
  then have "distinct (map (\<lambda>p. the (rk (fst p))) ?ms)" using ok by (simp add: distinct_map map_ok_def)
  then have "set ?out = (\<lambda>p. (the (rk (fst p)), the (from_json (snd p)))) ` set ?ms"
    using set_fold_assign [of "\<lambda>p. the (rk (fst p))" ?ms "[]"] by simp
  also have "\<dots> = set m" using inj by (force simp: s image_image json_law)
  finally have "set ?out = set m" .
  moreover have "map_ok ?out" by (rule map_ok_fold) simp
  ultimately have "?out = m" using m by (intro map_ok_unique)
  with r show ?thesis by (simp add: f)
qed

lemma string_map_roundtrip: "map_ok m \<Longrightarrow> FromJson_string_map from_json (ToJson_string_map to_json m) = Some m"
  by (simp add: ToJson_string_map_def members_roundtrip)

lemma int_map_roundtrip:
  assumes "map_ok m" and "\<And>k. k \<in> set (map fst m) \<Longrightarrow> lo \<le> k \<and> k \<le> hi \<and> (sgnd \<or> 0 \<le> k)"
  shows "FromJson_int_map sgnd lo hi from_json (ToJson_int_map to_json m) = Some m"
  using assms members_roundtrip [OF assms(1), of "from_chars sgnd lo hi" to_string]
  by (simp add: ToJson_int_map_def from_chars_to_string)

end

interpretation json_bool: json_codec ToJson_bool FromJson_bool
  by unfold_locales (simp add: ToJson_bool_def)

interpretation json_string: json_codec ToJson_string FromJson_string
  by unfold_locales (simp add: ToJson_string_def)

text \<open>The C++ integer types have at most 64 bits.\<close>

lemma json_int_law:
  assumes "LENGTH('a) \<le> 64"
  shows "FromJson_int (ToJson_int (v :: 'a::len word)) = Some v"
proof -
  have b: "- (2 ^ (LENGTH('a) - 1)) \<le> sint v" "sint v < 2 ^ (LENGTH('a) - 1)"
    using sint_ge [of v] sint_lt [of v] by simp_all
  have "(2 :: int) ^ (LENGTH('a) - 1) \<le> 2 ^ 63" using assms by (intro power_increasing) auto
  with b have "- (2 ^ 63) \<le> sint v" "sint v < 2 ^ 63" by linarith+
  then have "sint (word_of_int (sint v) :: u64) = sint v"
    unfolding sint_sbintrunc' by (intro signed_take_bit_int_eq_self) simp_all
  with b show ?thesis by (simp add: ToJson_int_def)
qed

lemma json_uint_law:
  assumes "LENGTH('a) \<le> 64"
  shows "FromJson_uint (ToJson_uint (v :: 'a::len word)) = Some v"
proof -
  have b: "uint v < 2 ^ LENGTH('a)" by (rule uint_lt2p)
  have "(2 :: int) ^ LENGTH('a) \<le> 2 ^ 64" using assms by (intro power_increasing) auto
  with b have "uint v < 2 ^ 64" by linarith
  then have "uint (word_of_int (uint v) :: u64) = uint v"
    unfolding uint_word_of_int_eq by (intro take_bit_int_eq_self) simp_all
  moreover have "\<not> 2 ^ LENGTH('a) - 1 < uint v" using b by linarith
  ultimately show ?thesis by (simp add: ToJson_uint_def)
qed

interpretation json_i32: json_codec "ToJson_int :: 32 word \<Rightarrow> json" FromJson_int
  by unfold_locales (simp add: json_int_law)

interpretation json_i64: json_codec "ToJson_int :: 64 word \<Rightarrow> json" FromJson_int
  by unfold_locales (simp add: json_int_law)

interpretation json_u32: json_codec "ToJson_uint :: 32 word \<Rightarrow> json" FromJson_uint
  by unfold_locales (simp add: json_uint_law)

interpretation json_u64: json_codec "ToJson_uint :: 64 word \<Rightarrow> json" FromJson_uint
  by unfold_locales (simp add: json_uint_law)

lemma sint_word_of_int_range:
  assumes "- (2 ^ (LENGTH('a) - 1)) \<le> k" and "k \<le> 2 ^ (LENGTH('a) - 1) - 1"
  shows "sint (word_of_int k :: 'a::len word) = k"
  unfolding sint_sbintrunc' using assms by (intro signed_take_bit_int_eq_self) auto

lemma uint_word_of_int_range:
  "0 \<le> k \<Longrightarrow> k \<le> 2 ^ LENGTH('a) - 1 \<Longrightarrow> uint (word_of_int k :: 'a::len word) = k"
  unfolding uint_word_of_int_eq by (intro take_bit_int_eq_self) auto

section \<open>Properties\<close>

text \<open>
  Integers are converted without truncation. A signed or unsigned target of any width gets a
  value exactly when the JSON value is an integer in its range, and then it is that integer.
\<close>

theorem FromJson_integer_exact:
  "(FromJson_int j = (None :: 'a::len word option) \<longleftrightarrow>
      (case json_number j of None \<Rightarrow> True | Some n \<Rightarrow> n < - (2 ^ (LENGTH('a) - 1)) \<or> n > 2 ^ (LENGTH('a) - 1) - 1))
   \<and> (case (FromJson_int j :: 'a word option) of None \<Rightarrow> True | Some v \<Rightarrow> json_number j = Some (sint v))
   \<and> (FromJson_uint j = (None :: 'a word option) \<longleftrightarrow>
      (case json_number j of None \<Rightarrow> True | Some n \<Rightarrow> n < 0 \<or> n > 2 ^ LENGTH('a) - 1))
   \<and> (case (FromJson_uint j :: 'a word option) of None \<Rightarrow> True | Some v \<Rightarrow> json_number j = Some (uint v))"
proof (intro conjI)
  show "FromJson_int j = (None :: 'a::len word option) \<longleftrightarrow> (case json_number j of None \<Rightarrow> True
      | Some n \<Rightarrow> n < - (2 ^ (LENGTH('a) - 1)) \<or> n > 2 ^ (LENGTH('a) - 1) - 1)"
  proof (cases j)
    case (uintValue u)
    have "- (2 ^ (LENGTH('a) - 1)) \<le> (0 :: int)" by simp
    also have "0 \<le> uint u" by simp
    finally show ?thesis using uintValue by simp
  qed simp_all
  show "case (FromJson_int j :: 'a word option) of None \<Rightarrow> True | Some v \<Rightarrow> json_number j = Some (sint v)"
  proof (cases j)
    case (intValue i)
    then show ?thesis using sint_word_of_int_range [where 'a = 'a, of "sint i"] by auto
  next
    case (uintValue u)
    have "- (2 ^ (LENGTH('a) - 1)) \<le> (0 :: int)" by simp
    also have "0 \<le> uint u" by simp
    finally show ?thesis using uintValue sint_word_of_int_range [where 'a = 'a, of "uint u"] by auto
  qed simp_all
  show "FromJson_uint j = (None :: 'a word option) \<longleftrightarrow>
      (case json_number j of None \<Rightarrow> True | Some n \<Rightarrow> n < 0 \<or> n > 2 ^ LENGTH('a) - 1)"
    by (cases j) simp_all
  show "case (FromJson_uint j :: 'a word option) of None \<Rightarrow> True | Some v \<Rightarrow> json_number j = Some (uint v)"
  proof (cases j)
    case (intValue i)
    then show ?thesis using uint_word_of_int_range [where 'a = 'a, of "sint i"] by auto
  next
    case (uintValue u)
    then show ?thesis using uint_word_of_int_range [where 'a = 'a, of "uint u"] by auto
  qed simp_all
qed

text \<open>
  Maps with integer keys survive the trip through a JSON object, whose members are ordered by
  the decimal text of the keys and not by the keys.
\<close>

theorem int_map_json_roundtrip:
  assumes "map_ok m" and "\<forall>k \<in> set (map fst m). - (2 ^ 31) \<le> k \<and> k < 2 ^ 31"
  shows "FromJson_int_map True (- (2 ^ 31)) (2 ^ 31 - 1) FromJson_string (ToJson_int_map ToJson_string m) = Some m"
  using assms by (intro json_string.int_map_roundtrip) auto

theorem int_map_json_roundtrip_witness:
  "FromJson_int_map True (- (2 ^ 31)) (2 ^ 31 - 1) FromJson_string
     (ToJson_int_map ToJson_string [(- 5, ''e''), (9, ''a''), (10, ''b'')]) = Some [(- 5, ''e''), (9, ''a''), (10, ''b'')]
   \<and> ToJson_int_map ToJson_string [(- 5, ''e''), (9, ''a''), (10, ''b'')]
     = objectValue [(''-5'', stringValue ''e''), (''10'', stringValue ''b''), (''9'', stringValue ''a'')]"
proof (rule conjI)
  show "ToJson_int_map ToJson_string [(- 5, ''e''), (9, ''a''), (10, ''b'')]
     = objectValue [(''-5'', stringValue ''e''), (''10'', stringValue ''b''), (''9'', stringValue ''a'')]" by code_simp
qed (rule int_map_json_roundtrip; simp add: map_ok_def)

end
