(* ===== verification/OI_RpcData.thy ===== *)
theory OI_RpcData
  imports OI_Json
begin

text \<open>
  The messages of the registry protocol (cbaselib/base/inc/oi_rpcdata_reg*.h), in the form the
  protocol generator emits them: \<open>serialize\<close> writes one tagged field per member, \<open>deserialize\<close> loops
  over tagged fields and skips numbers it does not know, \<open>ToJson\<close>/\<open>FromJson\<close> use one object member
  per field. The text form of JSON (jsoncpp's reader and writer) is not modelled.

  Each class is an interpretation of \<open>pb_object\<close>, which makes it usable as a field of another
  message (\<open>RegPullRes\<close> holds a vector of \<open>RegInstance\<close>).
\<close>

section \<open>Fields of a message\<close>

definition set_field :: "'a rd \<Rightarrow> ('a \<Rightarrow> 'o \<Rightarrow> 'o) \<Rightarrow> 'o upd" where
  "set_field r f v s = (case r s of (Inl e, s') \<Rightarrow> (Some e, v, s') | (Inr x, s') \<Rightarrow> (None, f x v, s'))"

definition skip_field :: "u32 \<Rightarrow> 'o upd" where
  "skip_field field_size v s = (case SkipPb field_size s of (Inl e, s') \<Rightarrow> (Some e, v, s') | (Inr _, s') \<Rightarrow> (None, v, s'))"

fun w_seq :: "wr list \<Rightarrow> wr" where
  "w_seq [] s = (None, s)"
| "w_seq (w # ws) s = w_then w (w_seq ws) s"

section \<open>Messages\<close>

record RegInstance =
  inst_sName :: bytes
  inst_iId :: u32
  inst_sIp :: bytes
  inst_sPort :: bytes
  inst_sZone :: bytes

definition RegInstance_default :: RegInstance where
  "RegInstance_default = \<lparr>inst_sName = [], inst_iId = 0, inst_sIp = [], inst_sPort = [], inst_sZone = []\<rparr>"

definition RegInstance_serialize :: "allocator \<Rightarrow> RegInstance \<Rightarrow> wr" where
  "RegInstance_serialize A v = w_seq [
     WritePb_string A 0 (inst_sName v),
     WritePb_word A 1 (inst_iId v),
     WritePb_string A 2 (inst_sIp v),
     WritePb_string A 3 (inst_sPort v),
     WritePb_string A 4 (inst_sZone v)]"

definition RegInstance_field :: "allocator \<Rightarrow> u32 \<Rightarrow> u32 \<Rightarrow> RegInstance upd" where
  "RegInstance_field A field_seq field_size =
     (if field_seq = 0 then set_field (ReadPb_string field_size) (\<lambda>x v. v\<lparr>inst_sName := x\<rparr>)
      else if field_seq = 1 then set_field (ReadPb_word field_size) (\<lambda>x v. v\<lparr>inst_iId := x\<rparr>)
      else if field_seq = 2 then set_field (ReadPb_string field_size) (\<lambda>x v. v\<lparr>inst_sIp := x\<rparr>)
      else if field_seq = 3 then set_field (ReadPb_string field_size) (\<lambda>x v. v\<lparr>inst_sPort := x\<rparr>)
      else if field_seq = 4 then set_field (ReadPb_string field_size) (\<lambda>x v. v\<lparr>inst_sZone := x\<rparr>)
      else skip_field field_size)"

definition RegInstance_deserialize :: "allocator \<Rightarrow> RegInstance upd" where
  "RegInstance_deserialize A v s = pb_fields (RegInstance_field A) v s"

definition RegInstance_ToJson :: "RegInstance \<Rightarrow> json" where
  "RegInstance_ToJson v = ToJson_obj [
     (''name'', ToJson_string (inst_sName v)),
     (''id'', ToJson_int (inst_iId v)),
     (''ip'', ToJson_string (inst_sIp v)),
     (''port'', ToJson_string (inst_sPort v)),
     (''zone'', ToJson_string (inst_sZone v))]"

definition RegInstance_FromJson :: "json \<Rightarrow> RegInstance \<Rightarrow> bool \<times> RegInstance" where
  "RegInstance_FromJson = FromJson_obj [
     json_member ''name'' FromJson_string (\<lambda>x v. v\<lparr>inst_sName := x\<rparr>),
     json_member ''id'' FromJson_int (\<lambda>x v. v\<lparr>inst_iId := x\<rparr>),
     json_member ''ip'' FromJson_string (\<lambda>x v. v\<lparr>inst_sIp := x\<rparr>),
     json_member ''port'' FromJson_string (\<lambda>x v. v\<lparr>inst_sPort := x\<rparr>),
     json_member ''zone'' FromJson_string (\<lambda>x v. v\<lparr>inst_sZone := x\<rparr>)]"

record RegRegister =
  reg_sName :: bytes
  reg_iId :: u32
  reg_sIp :: bytes
  reg_sPort :: bytes
  reg_sZone :: bytes

definition RegRegister_default :: RegRegister where
  "RegRegister_default = \<lparr>reg_sName = [], reg_iId = 0, reg_sIp = [], reg_sPort = [], reg_sZone = []\<rparr>"

definition RegRegister_serialize :: "allocator \<Rightarrow> RegRegister \<Rightarrow> wr" where
  "RegRegister_serialize A v = w_seq [
     WritePb_string A 0 (reg_sName v),
     WritePb_word A 1 (reg_iId v),
     WritePb_string A 2 (reg_sIp v),
     WritePb_string A 3 (reg_sPort v),
     WritePb_string A 4 (reg_sZone v)]"

definition RegRegister_field :: "allocator \<Rightarrow> u32 \<Rightarrow> u32 \<Rightarrow> RegRegister upd" where
  "RegRegister_field A field_seq field_size =
     (if field_seq = 0 then set_field (ReadPb_string field_size) (\<lambda>x v. v\<lparr>reg_sName := x\<rparr>)
      else if field_seq = 1 then set_field (ReadPb_word field_size) (\<lambda>x v. v\<lparr>reg_iId := x\<rparr>)
      else if field_seq = 2 then set_field (ReadPb_string field_size) (\<lambda>x v. v\<lparr>reg_sIp := x\<rparr>)
      else if field_seq = 3 then set_field (ReadPb_string field_size) (\<lambda>x v. v\<lparr>reg_sPort := x\<rparr>)
      else if field_seq = 4 then set_field (ReadPb_string field_size) (\<lambda>x v. v\<lparr>reg_sZone := x\<rparr>)
      else skip_field field_size)"

definition RegRegister_deserialize :: "allocator \<Rightarrow> RegRegister upd" where
  "RegRegister_deserialize A v s = pb_fields (RegRegister_field A) v s"

definition RegRegister_ToJson :: "RegRegister \<Rightarrow> json" where
  "RegRegister_ToJson v = ToJson_obj [
     (''name'', ToJson_string (reg_sName v)),
     (''id'', ToJson_int (reg_iId v)),
     (''ip'', ToJson_string (reg_sIp v)),
     (''port'', ToJson_string (reg_sPort v)),
     (''zone'', ToJson_string (reg_sZone v))]"

definition RegRegister_FromJson :: "json \<Rightarrow> RegRegister \<Rightarrow> bool \<times> RegRegister" where
  "RegRegister_FromJson = FromJson_obj [
     json_member ''name'' FromJson_string (\<lambda>x v. v\<lparr>reg_sName := x\<rparr>),
     json_member ''id'' FromJson_int (\<lambda>x v. v\<lparr>reg_iId := x\<rparr>),
     json_member ''ip'' FromJson_string (\<lambda>x v. v\<lparr>reg_sIp := x\<rparr>),
     json_member ''port'' FromJson_string (\<lambda>x v. v\<lparr>reg_sPort := x\<rparr>),
     json_member ''zone'' FromJson_string (\<lambda>x v. v\<lparr>reg_sZone := x\<rparr>)]"

record RegRegisterRes =
  regres_iCode :: u32

definition RegRegisterRes_default :: RegRegisterRes where
  "RegRegisterRes_default = \<lparr>regres_iCode = 0\<rparr>"

definition RegRegisterRes_serialize :: "allocator \<Rightarrow> RegRegisterRes \<Rightarrow> wr" where
  "RegRegisterRes_serialize A v = w_seq [
     WritePb_word A 0 (regres_iCode v)]"

definition RegRegisterRes_field :: "allocator \<Rightarrow> u32 \<Rightarrow> u32 \<Rightarrow> RegRegisterRes upd" where
  "RegRegisterRes_field A field_seq field_size =
     (if field_seq = 0 then set_field (ReadPb_word field_size) (\<lambda>x v. v\<lparr>regres_iCode := x\<rparr>)
      else skip_field field_size)"

definition RegRegisterRes_deserialize :: "allocator \<Rightarrow> RegRegisterRes upd" where
  "RegRegisterRes_deserialize A v s = pb_fields (RegRegisterRes_field A) v s"

definition RegRegisterRes_ToJson :: "RegRegisterRes \<Rightarrow> json" where
  "RegRegisterRes_ToJson v = ToJson_obj [
     (''code'', ToJson_int (regres_iCode v))]"

definition RegRegisterRes_FromJson :: "json \<Rightarrow> RegRegisterRes \<Rightarrow> bool \<times> RegRegisterRes" where
  "RegRegisterRes_FromJson = FromJson_obj [
     json_member ''code'' FromJson_int (\<lambda>x v. v\<lparr>regres_iCode := x\<rparr>)]"

record RegHeartbeat =
  hb_sName :: bytes
  hb_iId :: u32

definition RegHeartbeat_default :: RegHeartbeat where
  "RegHeartbeat_default = \<lparr>hb_sName = [], hb_iId = 0\<rparr>"

definition RegHeartbeat_serialize :: "allocator \<Rightarrow> RegHeartbeat \<Rightarrow> wr" where
  "RegHeartbeat_serialize A v = w_seq [
     WritePb_string A 0 (hb_sName v),
     WritePb_word A 1 (hb_iId v)]"

definition RegHeartbeat_field :: "allocator \<Rightarrow> u32 \<Rightarrow> u32 \<Rightarrow> RegHeartbeat upd" where
  "RegHeartbeat_field A field_seq field_size =
     (if field_seq = 0 then set_field (ReadPb_string field_size) (\<lambda>x v. v\<lparr>hb_sName := x\<rparr>)
      else if field_seq = 1 then set_field (ReadPb_word field_size) (\<lambda>x v. v\<lparr>hb_iId := x\<rparr>)
      else skip_field field_size)"

definition RegHeartbeat_deserialize :: "allocator \<Rightarrow> RegHeartbeat upd" where
  "RegHeartbeat_deserialize A v s = pb_fields (RegHeartbeat_field A) v s"

definition RegHeartbeat_ToJson :: "RegHeartbeat \<Rightarrow> json" where
  "RegHeartbeat_ToJson v = ToJson_obj [
     (''name'', ToJson_string (hb_sName v)),
     (''id'', ToJson_int (hb_iId v))]"

definition RegHeartbeat_FromJson :: "json \<Rightarrow> RegHeartbeat \<Rightarrow> bool \<times> RegHeartbeat" where
  "RegHeartbeat_FromJson = FromJson_obj [
     json_member ''name'' FromJson_string (\<lambda>x v. v\<lparr>hb_sName := x\<rparr>),
     json_member ''id'' FromJson_int (\<lambda>x v. v\<lparr>hb_iId := x\<rparr>)]"

record RegHeartbeatRes =
  hbres_iCode :: u32

definition RegHeartbeatRes_default :: RegHeartbeatRes where
  "RegHeartbeatRes_default = \<lparr>hbres_iCode = 0\<rparr>"

definition RegHeartbeatRes_serialize :: "allocator \<Rightarrow> RegHeartbeatRes \<Rightarrow> wr" where
  "RegHeartbeatRes_serialize A v = w_seq [
     WritePb_word A 0 (hbres_iCode v)]"

definition RegHeartbeatRes_field :: "allocator \<Rightarrow> u32 \<Rightarrow> u32 \<Rightarrow> RegHeartbeatRes upd" where
  "RegHeartbeatRes_field A field_seq field_size =
     (if field_seq = 0 then set_field (ReadPb_word field_size) (\<lambda>x v. v\<lparr>hbres_iCode := x\<rparr>)
      else skip_field field_size)"

definition RegHeartbeatRes_deserialize :: "allocator \<Rightarrow> RegHeartbeatRes upd" where
  "RegHeartbeatRes_deserialize A v s = pb_fields (RegHeartbeatRes_field A) v s"

definition RegHeartbeatRes_ToJson :: "RegHeartbeatRes \<Rightarrow> json" where
  "RegHeartbeatRes_ToJson v = ToJson_obj [
     (''code'', ToJson_int (hbres_iCode v))]"

definition RegHeartbeatRes_FromJson :: "json \<Rightarrow> RegHeartbeatRes \<Rightarrow> bool \<times> RegHeartbeatRes" where
  "RegHeartbeatRes_FromJson = FromJson_obj [
     json_member ''code'' FromJson_int (\<lambda>x v. v\<lparr>hbres_iCode := x\<rparr>)]"

record RegPull =
  pull_vNames :: "bytes list"

definition RegPull_default :: RegPull where
  "RegPull_default = \<lparr>pull_vNames = []\<rparr>"

definition RegPull_serialize :: "allocator \<Rightarrow> RegPull \<Rightarrow> wr" where
  "RegPull_serialize A v = w_seq [
     WritePb_vector (WritePb_string A) 0 (pull_vNames v)]"

definition RegPull_field :: "allocator \<Rightarrow> u32 \<Rightarrow> u32 \<Rightarrow> RegPull upd" where
  "RegPull_field A field_seq field_size =
     (if field_seq = 0 then set_field (ReadPb_string field_size) (\<lambda>x v. v\<lparr>pull_vNames := pull_vNames v @ [x]\<rparr>)
      else skip_field field_size)"

definition RegPull_deserialize :: "allocator \<Rightarrow> RegPull upd" where
  "RegPull_deserialize A v s = pb_fields (RegPull_field A) (v\<lparr>pull_vNames := []\<rparr>) s"

definition RegPull_ToJson :: "RegPull \<Rightarrow> json" where
  "RegPull_ToJson v = ToJson_obj [
     (''names'', ToJson_vector ToJson_string (pull_vNames v))]"

definition RegPull_FromJson :: "json \<Rightarrow> RegPull \<Rightarrow> bool \<times> RegPull" where
  "RegPull_FromJson = FromJson_obj [
     json_member ''names'' (FromJson_vector FromJson_string) (\<lambda>x v. v\<lparr>pull_vNames := x\<rparr>)]"

record RegPullRes =
  pullres_iCode :: u32
  pullres_vList :: "RegInstance list"

definition RegPullRes_default :: RegPullRes where
  "RegPullRes_default = \<lparr>pullres_iCode = 0, pullres_vList = []\<rparr>"

definition RegPullRes_serialize :: "allocator \<Rightarrow> RegPullRes \<Rightarrow> wr" where
  "RegPullRes_serialize A v = w_seq [
     WritePb_word A 0 (pullres_iCode v),
     WritePb_vector (WritePb_obj A (RegInstance_serialize A)) 1 (pullres_vList v)]"

definition RegPullRes_field :: "allocator \<Rightarrow> u32 \<Rightarrow> u32 \<Rightarrow> RegPullRes upd" where
  "RegPullRes_field A field_seq field_size =
     (if field_seq = 0 then set_field (ReadPb_word field_size) (\<lambda>x v. v\<lparr>pullres_iCode := x\<rparr>)
      else if field_seq = 1 then set_field (rd_of_upd RegInstance_default (ReadPb_obj A (RegInstance_deserialize A)) field_size)
          (\<lambda>x v. v\<lparr>pullres_vList := pullres_vList v @ [x]\<rparr>)
      else skip_field field_size)"

definition RegPullRes_deserialize :: "allocator \<Rightarrow> RegPullRes upd" where
  "RegPullRes_deserialize A v s = pb_fields (RegPullRes_field A) (v\<lparr>pullres_vList := []\<rparr>) s"

definition RegPullRes_ToJson :: "RegPullRes \<Rightarrow> json" where
  "RegPullRes_ToJson v = ToJson_obj [
     (''code'', ToJson_int (pullres_iCode v)),
     (''list'', ToJson_vector RegInstance_ToJson (pullres_vList v))]"

definition RegPullRes_FromJson :: "json \<Rightarrow> RegPullRes \<Rightarrow> bool \<times> RegPullRes" where
  "RegPullRes_FromJson = FromJson_obj [
     json_member ''code'' FromJson_int (\<lambda>x v. v\<lparr>pullres_iCode := x\<rparr>),
     json_member ''list'' (FromJson_vector (fresh_obj RegInstance_default RegInstance_FromJson)) (\<lambda>x v. v\<lparr>pullres_vList := x\<rparr>)]"

section \<open>Wire layout\<close>

text \<open>The fields each message consists of on the wire, and when its sizes can be encoded.\<close>

definition RegInstance_fields :: "RegInstance \<Rightarrow> (u32 \<times> bytes) list" where
  "RegInstance_fields v = [(0, inst_sName v), (1, le_bytes 4 (unat (inst_iId v))), (2, inst_sIp v), (3, inst_sPort v), (4, inst_sZone v)]"

definition RegInstance_ok :: "RegInstance \<Rightarrow> bool" where
  "RegInstance_ok v \<longleftrightarrow> length (inst_sName v) \<le> INT32_MAX
     \<and> length (inst_sIp v) \<le> INT32_MAX
     \<and> length (inst_sPort v) \<le> INT32_MAX
     \<and> length (inst_sZone v) \<le> INT32_MAX"

definition RegRegister_fields :: "RegRegister \<Rightarrow> (u32 \<times> bytes) list" where
  "RegRegister_fields v = [(0, reg_sName v), (1, le_bytes 4 (unat (reg_iId v))), (2, reg_sIp v), (3, reg_sPort v), (4, reg_sZone v)]"

definition RegRegister_ok :: "RegRegister \<Rightarrow> bool" where
  "RegRegister_ok v \<longleftrightarrow> length (reg_sName v) \<le> INT32_MAX
     \<and> length (reg_sIp v) \<le> INT32_MAX
     \<and> length (reg_sPort v) \<le> INT32_MAX
     \<and> length (reg_sZone v) \<le> INT32_MAX"

definition RegRegisterRes_fields :: "RegRegisterRes \<Rightarrow> (u32 \<times> bytes) list" where
  "RegRegisterRes_fields v = [(0, le_bytes 4 (unat (regres_iCode v)))]"

definition RegRegisterRes_ok :: "RegRegisterRes \<Rightarrow> bool" where
  "RegRegisterRes_ok v \<longleftrightarrow> True"

definition RegHeartbeat_fields :: "RegHeartbeat \<Rightarrow> (u32 \<times> bytes) list" where
  "RegHeartbeat_fields v = [(0, hb_sName v), (1, le_bytes 4 (unat (hb_iId v)))]"

definition RegHeartbeat_ok :: "RegHeartbeat \<Rightarrow> bool" where
  "RegHeartbeat_ok v \<longleftrightarrow> length (hb_sName v) \<le> INT32_MAX"

definition RegHeartbeatRes_fields :: "RegHeartbeatRes \<Rightarrow> (u32 \<times> bytes) list" where
  "RegHeartbeatRes_fields v = [(0, le_bytes 4 (unat (hbres_iCode v)))]"

definition RegHeartbeatRes_ok :: "RegHeartbeatRes \<Rightarrow> bool" where
  "RegHeartbeatRes_ok v \<longleftrightarrow> True"

definition RegPull_fields :: "RegPull \<Rightarrow> (u32 \<times> bytes) list" where
  "RegPull_fields v = map (\<lambda>x. (0, x)) (pull_vNames v)"

definition RegPull_ok :: "RegPull \<Rightarrow> bool" where
  "RegPull_ok v \<longleftrightarrow> list_all (\<lambda>x. length x \<le> INT32_MAX) (pull_vNames v)"

definition RegPullRes_fields :: "RegPullRes \<Rightarrow> (u32 \<times> bytes) list" where
  "RegPullRes_fields v = [(0, le_bytes 4 (unat (pullres_iCode v)))] @ map (\<lambda>x. (1, pb_layout (RegInstance_fields x))) (pullres_vList v)"

definition RegPullRes_ok :: "RegPullRes \<Rightarrow> bool" where
  "RegPullRes_ok v \<longleftrightarrow> list_all (\<lambda>x. RegInstance_ok x \<and> length (pb_layout (RegInstance_fields x)) \<le> INT32_MAX) (pullres_vList v)"

section \<open>Lemmas\<close>

lemma writes_seq: "list_all2 writes ws ds \<Longrightarrow> writes (w_seq ws) (concat ds)"
proof (induction ws ds rule: list_all2_induct)
  case Nil
  have "w_seq [] = (\<lambda>s. (None, s))" by (rule ext) simp
  then show ?case by simp
next
  case (Cons w ws d ds)
  have "w_seq (w # ws) = w_then w (w_seq ws)" by (rule ext) simp
  with Cons show ?case by (simp add: writes_then)
qed

text \<open>One field of a message, decoded by its case of the switch.\<close>

lemma set_field_reads:
  assumes "reads (r (word_of_nat (length d))) d x" and "length d \<le> INT32_MAX" and "\<not> sint q < 0"
    and "\<And>n. field q n = set_field (r n) f"
  shows "field_reads field q d v (f x v)"
  using assms by (simp add: field_reads_def reads_def set_field_def)

lemma skip_field_reads:
  assumes "length d \<le> INT32_MAX" and "\<not> sint q < 0" and "\<And>n. field q n = skip_field n"
  shows "field_reads field q d v v"
  using assms by (simp add: field_reads_def skip_field_def SkipPb_def RemainSize_unread)

lemma string_reads: "length d \<le> INT32_MAX \<Longrightarrow> reads (ReadPb_string (word_of_nat (length d))) d d"
  using string_codec.rd_law [of d "\<lparr>avail = \<lambda>_. True, junk = \<lambda>_. CHR ''a''\<rparr>"] by (simp add: all_avail_def)

lemma u32_reads: "reads (ReadPb_word (word_of_nat (length (le_bytes 4 (unat v))))) (le_bytes 4 (unat v)) (v :: u32)"
  using word_codec.rd_law [where v = v and A = "\<lparr>avail = \<lambda>_. True, junk = \<lambda>_. CHR ''a''\<rparr>"] by (simp add: all_avail_def)

lemma string_writes: "length d \<le> INT32_MAX \<Longrightarrow> writes (WritePb_string A q d) (pb_field q d)"
  using string_codec.wr_law [of d A q] by simp

lemma u32_writes: "writes (WritePb_word A q (v :: u32)) (pb_field q (le_bytes 4 (unat v)))"
  using word_codec.wr_law [where v = v and A = A and q = q] by simp

lemma seq_nonneg:
  "\<not> sint (0 :: u32) < 0" "\<not> sint (1 :: u32) < 0" "\<not> sint (2 :: u32) < 0" "\<not> sint (3 :: u32) < 0" "\<not> sint (4 :: u32) < 0"
  by (simp_all add: sint_neg_u32)

lemma fields_string:
  "field q = (\<lambda>n. set_field (ReadPb_string n) f) \<Longrightarrow> \<not> sint q < 0 \<Longrightarrow> length d \<le> INT32_MAX
    \<Longrightarrow> fields_read field (f d v) fs v' \<Longrightarrow> fields_read field v ((q, d) # fs) v'"
  using set_field_reads [where r = ReadPb_string, OF string_reads, of d q field f v] by auto

lemma fields_word:
  "field q = (\<lambda>n. set_field (ReadPb_word n) f) \<Longrightarrow> \<not> sint q < 0
    \<Longrightarrow> fields_read field (f x v) fs v' \<Longrightarrow> fields_read field v ((q, le_bytes 4 (unat (x :: u32))) # fs) v'"
  using set_field_reads [where r = ReadPb_word, OF u32_reads, of x q field f v] by auto

text \<open>Fields the decoder does not know change nothing, wherever they stand.\<close>

lemma fields_read_skip:
  assumes skip: "\<And>q n. q \<notin> K \<Longrightarrow> field q n = skip_field n"
  shows "fields_read field v (filter (\<lambda>f. fst f \<in> K) fs) v' \<Longrightarrow>
    list_all (\<lambda>f. \<not> sint (fst f) < 0 \<and> length (snd f) \<le> INT32_MAX) fs \<Longrightarrow> fields_read field v fs v'"
proof (induction fs arbitrary: v)
  case Nil
  then show ?case by simp
next
  case (Cons f fs)
  obtain q d where f: "f = (q, d)" by (cases f)
  show ?case
  proof (cases "q \<in> K")
    case True
    with Cons f show ?thesis by auto
  next
    case False
    from skip_field_reads [of d q field v] skip [OF False] Cons.prems(2) f
    have "field_reads field q d v v" by simp
    with Cons False f show ?thesis by auto
  qed
qed

lemma RegInstance_cases:
  "RegInstance_field A 0 = (\<lambda>n. set_field (ReadPb_string n) (\<lambda>x v. v\<lparr>inst_sName := x\<rparr>))"
  "RegInstance_field A 1 = (\<lambda>n. set_field (ReadPb_word n) (\<lambda>x v. v\<lparr>inst_iId := x\<rparr>))"
  "RegInstance_field A 2 = (\<lambda>n. set_field (ReadPb_string n) (\<lambda>x v. v\<lparr>inst_sIp := x\<rparr>))"
  "RegInstance_field A 3 = (\<lambda>n. set_field (ReadPb_string n) (\<lambda>x v. v\<lparr>inst_sPort := x\<rparr>))"
  "RegInstance_field A 4 = (\<lambda>n. set_field (ReadPb_string n) (\<lambda>x v. v\<lparr>inst_sZone := x\<rparr>))"
  by (simp_all add: RegInstance_field_def [abs_def])

lemma RegInstance_writes: "RegInstance_ok v \<Longrightarrow> writes (RegInstance_serialize A v) (pb_layout (RegInstance_fields v))"
  unfolding RegInstance_serialize_def pb_layout_def
  by (rule writes_seq) (simp add: RegInstance_fields_def RegInstance_ok_def string_writes u32_writes)

lemma RegInstance_reads: "RegInstance_ok v \<Longrightarrow> fields_read (RegInstance_field A) RegInstance_default (RegInstance_fields v) v"
  unfolding RegInstance_fields_def RegInstance_ok_def RegInstance_default_def
  by (intro fields_string [where field = "RegInstance_field A" and q = 0, OF RegInstance_cases(1) seq_nonneg(1)] fields_word [where field = "RegInstance_field A" and q = 1, OF RegInstance_cases(2) seq_nonneg(2)] fields_string [where field = "RegInstance_field A" and q = 2, OF RegInstance_cases(3) seq_nonneg(3)] fields_string [where field = "RegInstance_field A" and q = 3, OF RegInstance_cases(4) seq_nonneg(4)] fields_string [where field = "RegInstance_field A" and q = 4, OF RegInstance_cases(5) seq_nonneg(5)]) simp_all

interpretation RegInstance: pb_object "\<lambda>v. pb_layout (RegInstance_fields v)" RegInstance_ok RegInstance_serialize RegInstance_deserialize RegInstance_default
proof (unfold_locales, goal_cases)
  case (1 v A)
  then show ?case by (rule RegInstance_writes)
next
  case (2 v A s)
  then show ?case using pb_fields_layout [OF RegInstance_reads [OF 2(1), of A] 2(3,4)] by (auto simp: RegInstance_deserialize_def)
qed

lemma RegRegister_cases:
  "RegRegister_field A 0 = (\<lambda>n. set_field (ReadPb_string n) (\<lambda>x v. v\<lparr>reg_sName := x\<rparr>))"
  "RegRegister_field A 1 = (\<lambda>n. set_field (ReadPb_word n) (\<lambda>x v. v\<lparr>reg_iId := x\<rparr>))"
  "RegRegister_field A 2 = (\<lambda>n. set_field (ReadPb_string n) (\<lambda>x v. v\<lparr>reg_sIp := x\<rparr>))"
  "RegRegister_field A 3 = (\<lambda>n. set_field (ReadPb_string n) (\<lambda>x v. v\<lparr>reg_sPort := x\<rparr>))"
  "RegRegister_field A 4 = (\<lambda>n. set_field (ReadPb_string n) (\<lambda>x v. v\<lparr>reg_sZone := x\<rparr>))"
  by (simp_all add: RegRegister_field_def [abs_def])

lemma RegRegister_writes: "RegRegister_ok v \<Longrightarrow> writes (RegRegister_serialize A v) (pb_layout (RegRegister_fields v))"
  unfolding RegRegister_serialize_def pb_layout_def
  by (rule writes_seq) (simp add: RegRegister_fields_def RegRegister_ok_def string_writes u32_writes)

lemma RegRegister_reads: "RegRegister_ok v \<Longrightarrow> fields_read (RegRegister_field A) RegRegister_default (RegRegister_fields v) v"
  unfolding RegRegister_fields_def RegRegister_ok_def RegRegister_default_def
  by (intro fields_string [where field = "RegRegister_field A" and q = 0, OF RegRegister_cases(1) seq_nonneg(1)] fields_word [where field = "RegRegister_field A" and q = 1, OF RegRegister_cases(2) seq_nonneg(2)] fields_string [where field = "RegRegister_field A" and q = 2, OF RegRegister_cases(3) seq_nonneg(3)] fields_string [where field = "RegRegister_field A" and q = 3, OF RegRegister_cases(4) seq_nonneg(4)] fields_string [where field = "RegRegister_field A" and q = 4, OF RegRegister_cases(5) seq_nonneg(5)]) simp_all

interpretation RegRegister: pb_object "\<lambda>v. pb_layout (RegRegister_fields v)" RegRegister_ok RegRegister_serialize RegRegister_deserialize RegRegister_default
proof (unfold_locales, goal_cases)
  case (1 v A)
  then show ?case by (rule RegRegister_writes)
next
  case (2 v A s)
  then show ?case using pb_fields_layout [OF RegRegister_reads [OF 2(1), of A] 2(3,4)] by (auto simp: RegRegister_deserialize_def)
qed

lemma RegRegisterRes_cases:
  "RegRegisterRes_field A 0 = (\<lambda>n. set_field (ReadPb_word n) (\<lambda>x v. v\<lparr>regres_iCode := x\<rparr>))"
  by (simp_all add: RegRegisterRes_field_def [abs_def])

lemma RegRegisterRes_writes: "RegRegisterRes_ok v \<Longrightarrow> writes (RegRegisterRes_serialize A v) (pb_layout (RegRegisterRes_fields v))"
  unfolding RegRegisterRes_serialize_def pb_layout_def
  by (rule writes_seq) (simp add: RegRegisterRes_fields_def RegRegisterRes_ok_def string_writes u32_writes)

lemma RegRegisterRes_reads: "RegRegisterRes_ok v \<Longrightarrow> fields_read (RegRegisterRes_field A) RegRegisterRes_default (RegRegisterRes_fields v) v"
  unfolding RegRegisterRes_fields_def RegRegisterRes_ok_def RegRegisterRes_default_def
  by (intro fields_word [where field = "RegRegisterRes_field A" and q = 0, OF RegRegisterRes_cases seq_nonneg(1)]) simp_all

interpretation RegRegisterRes: pb_object "\<lambda>v. pb_layout (RegRegisterRes_fields v)" RegRegisterRes_ok RegRegisterRes_serialize RegRegisterRes_deserialize RegRegisterRes_default
proof (unfold_locales, goal_cases)
  case (1 v A)
  then show ?case by (rule RegRegisterRes_writes)
next
  case (2 v A s)
  then show ?case using pb_fields_layout [OF RegRegisterRes_reads [OF 2(1), of A] 2(3,4)] by (auto simp: RegRegisterRes_deserialize_def)
qed

lemma RegHeartbeat_cases:
  "RegHeartbeat_field A 0 = (\<lambda>n. set_field (ReadPb_string n) (\<lambda>x v. v\<lparr>hb_sName := x\<rparr>))"
  "RegHeartbeat_field A 1 = (\<lambda>n. set_field (ReadPb_word n) (\<lambda>x v. v\<lparr>hb_iId := x\<rparr>))"
  by (simp_all add: RegHeartbeat_field_def [abs_def])

lemma RegHeartbeat_writes: "RegHeartbeat_ok v \<Longrightarrow> writes (RegHeartbeat_serialize A v) (pb_layout (RegHeartbeat_fields v))"
  unfolding RegHeartbeat_serialize_def pb_layout_def
  by (rule writes_seq) (simp add: RegHeartbeat_fields_def RegHeartbeat_ok_def string_writes u32_writes)

lemma RegHeartbeat_reads: "RegHeartbeat_ok v \<Longrightarrow> fields_read (RegHeartbeat_field A) RegHeartbeat_default (RegHeartbeat_fields v) v"
  unfolding RegHeartbeat_fields_def RegHeartbeat_ok_def RegHeartbeat_default_def
  by (intro fields_string [where field = "RegHeartbeat_field A" and q = 0, OF RegHeartbeat_cases(1) seq_nonneg(1)] fields_word [where field = "RegHeartbeat_field A" and q = 1, OF RegHeartbeat_cases(2) seq_nonneg(2)]) simp_all

interpretation RegHeartbeat: pb_object "\<lambda>v. pb_layout (RegHeartbeat_fields v)" RegHeartbeat_ok RegHeartbeat_serialize RegHeartbeat_deserialize RegHeartbeat_default
proof (unfold_locales, goal_cases)
  case (1 v A)
  then show ?case by (rule RegHeartbeat_writes)
next
  case (2 v A s)
  then show ?case using pb_fields_layout [OF RegHeartbeat_reads [OF 2(1), of A] 2(3,4)] by (auto simp: RegHeartbeat_deserialize_def)
qed

lemma RegHeartbeatRes_cases:
  "RegHeartbeatRes_field A 0 = (\<lambda>n. set_field (ReadPb_word n) (\<lambda>x v. v\<lparr>hbres_iCode := x\<rparr>))"
  by (simp_all add: RegHeartbeatRes_field_def [abs_def])

lemma RegHeartbeatRes_writes: "RegHeartbeatRes_ok v \<Longrightarrow> writes (RegHeartbeatRes_serialize A v) (pb_layout (RegHeartbeatRes_fields v))"
  unfolding RegHeartbeatRes_serialize_def pb_layout_def
  by (rule writes_seq) (simp add: RegHeartbeatRes_fields_def RegHeartbeatRes_ok_def string_writes u32_writes)

lemma RegHeartbeatRes_reads: "RegHeartbeatRes_ok v \<Longrightarrow> fields_read (RegHeartbeatRes_field A) RegHeartbeatRes_default (RegHeartbeatRes_fields v) v"
  unfolding RegHeartbeatRes_fields_def RegHeartbeatRes_ok_def RegHeartbeatRes_default_def
  by (intro fields_word [where field = "RegHeartbeatRes_field A" and q = 0, OF RegHeartbeatRes_cases seq_nonneg(1)]) simp_all

interpretation RegHeartbeatRes: pb_object "\<lambda>v. pb_layout (RegHeartbeatRes_fields v)" RegHeartbeatRes_ok RegHeartbeatRes_serialize RegHeartbeatRes_deserialize RegHeartbeatRes_default
proof (unfold_locales, goal_cases)
  case (1 v A)
  then show ?case by (rule RegHeartbeatRes_writes)
next
  case (2 v A s)
  then show ?case using pb_fields_layout [OF RegHeartbeatRes_reads [OF 2(1), of A] 2(3,4)] by (auto simp: RegHeartbeatRes_deserialize_def)
qed

lemma RegPull_cases: "RegPull_field A 0 = (\<lambda>n. set_field (ReadPb_string n) (\<lambda>x v. v\<lparr>pull_vNames := pull_vNames v @ [x]\<rparr>))"
  by (simp add: RegPull_field_def [abs_def])

lemma RegPull_fold: "fold (\<lambda>x v. v\<lparr>pull_vNames := pull_vNames v @ [x]\<rparr>) xs v = v\<lparr>pull_vNames := pull_vNames v @ xs\<rparr>"
  by (induction xs arbitrary: v) simp_all

lemma RegPull_writes: "RegPull_ok v \<Longrightarrow> writes (RegPull_serialize A v) (pb_layout (RegPull_fields v))"
proof -
  assume "RegPull_ok v"
  then have "writes (WritePb_vector (WritePb_string A) 0 (pull_vNames v)) (pb_layout (RegPull_fields v))"
    unfolding RegPull_fields_def RegPull_ok_def by (rule string_codec.vector_writes)
  then show ?thesis unfolding RegPull_serialize_def
    using writes_seq [of "[WritePb_vector (WritePb_string A) 0 (pull_vNames v)]" "[pb_layout (RegPull_fields v)]"] by simp
qed

lemma RegPull_reads: "RegPull_ok v \<Longrightarrow> all_avail A \<Longrightarrow> fields_read (RegPull_field A) RegPull_default (RegPull_fields v) v"
proof -
  assume ok: "RegPull_ok v" and A: "all_avail A"
  have "fields_read (RegPull_field A) RegPull_default (map (\<lambda>x. (0, x)) (pull_vNames v))
      (fold (\<lambda>x v. v\<lparr>pull_vNames := pull_vNames v @ [x]\<rparr>) (pull_vNames v) RegPull_default)"
    by (rule string_codec.fields_read_vector [OF A seq_nonneg(1)])
      (use ok in \<open>simp_all add: RegPull_cases set_field_def RegPull_ok_def\<close>)
  then show ?thesis by (cases v) (simp add: RegPull_fields_def RegPull_fold RegPull_default_def)
qed

interpretation RegPull: pb_object "\<lambda>v. pb_layout (RegPull_fields v)" RegPull_ok RegPull_serialize RegPull_deserialize RegPull_default
proof (unfold_locales, goal_cases)
  case (1 v A)
  then show ?case by (rule RegPull_writes)
next
  case (2 v A s)
  then show ?case using pb_fields_layout [OF RegPull_reads [OF 2(1,2)] 2(3,4)]
    by (auto simp: RegPull_deserialize_def RegPull_default_def)
qed

text \<open>A vector of nested objects, through the contract of \<open>RegInstance\<close> as a field.\<close>

lemma RegPullRes_cases:
  "RegPullRes_field A 0 = (\<lambda>n. set_field (ReadPb_word n) (\<lambda>x v. v\<lparr>pullres_iCode := x\<rparr>))"
  "RegPullRes_field A 1 = (\<lambda>n. set_field (rd_of_upd RegInstance_default (ReadPb_obj A (RegInstance_deserialize A)) n)
      (\<lambda>x v. v\<lparr>pullres_vList := pullres_vList v @ [x]\<rparr>))"
  by (simp_all add: RegPullRes_field_def [abs_def])

lemma RegPullRes_fold:
  "fold (\<lambda>x v. v\<lparr>pullres_vList := pullres_vList v @ [x]\<rparr>) xs v = v\<lparr>pullres_vList := pullres_vList v @ xs\<rparr>"
  by (induction xs arbitrary: v) simp_all

lemma RegPullRes_writes: "RegPullRes_ok v \<Longrightarrow> writes (RegPullRes_serialize A v) (pb_layout (RegPullRes_fields v))"
proof -
  assume "RegPullRes_ok v"
  then have "writes (WritePb_vector (\<lambda>q. WritePb_obj A (RegInstance_serialize A) q) 1 (pullres_vList v))
      (pb_layout (map (\<lambda>x. (1, pb_layout (RegInstance_fields x))) (pullres_vList v)))"
    unfolding RegPullRes_ok_def by (rule RegInstance.as_field.vector_writes)
  with u32_writes [of A 0 "pullres_iCode v"] show ?thesis unfolding RegPullRes_serialize_def
    using writes_seq [of "[WritePb_word A 0 (pullres_iCode v), WritePb_vector (WritePb_obj A (RegInstance_serialize A)) 1 (pullres_vList v)]"
      "[pb_field 0 (le_bytes 4 (unat (pullres_iCode v))), pb_layout (map (\<lambda>x. (1, pb_layout (RegInstance_fields x))) (pullres_vList v))]"]
    by (simp add: RegPullRes_fields_def)
qed

lemma RegPullRes_reads:
  assumes ok: "RegPullRes_ok v" and A: "all_avail A"
  shows "fields_read (RegPullRes_field A) RegPullRes_default (RegPullRes_fields v) v"
proof -
  let ?v1 = "RegPullRes_default\<lparr>pullres_iCode := pullres_iCode v\<rparr>"
  have "fields_read (RegPullRes_field A) ?v1 (map (\<lambda>x. (1, pb_layout (RegInstance_fields x))) (pullres_vList v))
      (fold (\<lambda>x v. v\<lparr>pullres_vList := pullres_vList v @ [x]\<rparr>) (pullres_vList v) ?v1)"
    by (rule RegInstance.as_field.fields_read_vector [OF A seq_nonneg(2)])
      (use ok in \<open>simp_all add: RegPullRes_cases set_field_def RegPullRes_ok_def\<close>)
  then have "fields_read (RegPullRes_field A) ?v1 (map (\<lambda>x. (1, pb_layout (RegInstance_fields x))) (pullres_vList v)) v"
    by (cases v) (simp add: RegPullRes_fold RegPullRes_default_def)
  then show ?thesis unfolding RegPullRes_fields_def append_Cons append_Nil
    by (rule fields_word [where field = "RegPullRes_field A" and q = 0, OF RegPullRes_cases(1) seq_nonneg(1)])
qed

interpretation RegPullRes: pb_object "\<lambda>v. pb_layout (RegPullRes_fields v)" RegPullRes_ok RegPullRes_serialize RegPullRes_deserialize RegPullRes_default
proof (unfold_locales, goal_cases)
  case (1 v A)
  then show ?case by (rule RegPullRes_writes)
next
  case (2 v A s)
  then show ?case using pb_fields_layout [OF RegPullRes_reads [OF 2(1,2)] 2(3,4)]
    by (auto simp: RegPullRes_deserialize_def RegPullRes_default_def)
qed

section \<open>JSON\<close>

lemma ToJson_obj_member: "distinct (map fst ms) \<Longrightarrow> \<exists>m. ToJson_obj ms = objectValue m \<and> (\<forall>k. map_of m k = map_of ms k)"
  by (simp add: ToJson_obj_def map_of_fold_assign)

lemma FromJson_ToJson_obj:
  assumes "distinct (map fst ms)" and "\<And>m. (\<forall>k. map_of m k = map_of ms k) \<Longrightarrow> json_members fs m v0 = (True, v)"
  shows "FromJson_obj fs (ToJson_obj ms) v0 = (True, v)"
  using ToJson_obj_member [OF assms(1)] assms(2) by fastforce

lemma RegInstance_json: "RegInstance_FromJson (RegInstance_ToJson v) w = (True, v)"
  unfolding RegInstance_FromJson_def RegInstance_ToJson_def
  by (rule FromJson_ToJson_obj) (simp_all add: json_member_def json_string.json_law json_i32.json_law json_string.vector_roundtrip)

interpretation json_RegInstance: json_codec RegInstance_ToJson "fresh_obj RegInstance_default RegInstance_FromJson"
  by unfold_locales (simp add: fresh_obj_def RegInstance_json)

lemma RegRegister_json: "RegRegister_FromJson (RegRegister_ToJson v) w = (True, v)"
  unfolding RegRegister_FromJson_def RegRegister_ToJson_def
  by (rule FromJson_ToJson_obj) (simp_all add: json_member_def json_string.json_law json_i32.json_law json_string.vector_roundtrip)

interpretation json_RegRegister: json_codec RegRegister_ToJson "fresh_obj RegRegister_default RegRegister_FromJson"
  by unfold_locales (simp add: fresh_obj_def RegRegister_json)

lemma RegRegisterRes_json: "RegRegisterRes_FromJson (RegRegisterRes_ToJson v) w = (True, v)"
  unfolding RegRegisterRes_FromJson_def RegRegisterRes_ToJson_def
  by (rule FromJson_ToJson_obj) (simp_all add: json_member_def json_string.json_law json_i32.json_law json_string.vector_roundtrip)

interpretation json_RegRegisterRes: json_codec RegRegisterRes_ToJson "fresh_obj RegRegisterRes_default RegRegisterRes_FromJson"
  by unfold_locales (simp add: fresh_obj_def RegRegisterRes_json)

lemma RegHeartbeat_json: "RegHeartbeat_FromJson (RegHeartbeat_ToJson v) w = (True, v)"
  unfolding RegHeartbeat_FromJson_def RegHeartbeat_ToJson_def
  by (rule FromJson_ToJson_obj) (simp_all add: json_member_def json_string.json_law json_i32.json_law json_string.vector_roundtrip)

interpretation json_RegHeartbeat: json_codec RegHeartbeat_ToJson "fresh_obj RegHeartbeat_default RegHeartbeat_FromJson"
  by unfold_locales (simp add: fresh_obj_def RegHeartbeat_json)

lemma RegHeartbeatRes_json: "RegHeartbeatRes_FromJson (RegHeartbeatRes_ToJson v) w = (True, v)"
  unfolding RegHeartbeatRes_FromJson_def RegHeartbeatRes_ToJson_def
  by (rule FromJson_ToJson_obj) (simp_all add: json_member_def json_string.json_law json_i32.json_law json_string.vector_roundtrip)

interpretation json_RegHeartbeatRes: json_codec RegHeartbeatRes_ToJson "fresh_obj RegHeartbeatRes_default RegHeartbeatRes_FromJson"
  by unfold_locales (simp add: fresh_obj_def RegHeartbeatRes_json)

lemma RegPull_json: "RegPull_FromJson (RegPull_ToJson v) w = (True, v)"
  unfolding RegPull_FromJson_def RegPull_ToJson_def
  by (rule FromJson_ToJson_obj) (simp_all add: json_member_def json_string.json_law json_i32.json_law json_string.vector_roundtrip)

interpretation json_RegPull: json_codec RegPull_ToJson "fresh_obj RegPull_default RegPull_FromJson"
  by unfold_locales (simp add: fresh_obj_def RegPull_json)

lemma RegPullRes_json: "RegPullRes_FromJson (RegPullRes_ToJson v) w = (True, v)"
  unfolding RegPullRes_FromJson_def RegPullRes_ToJson_def
  by (rule FromJson_ToJson_obj) (simp_all add: json_member_def json_string.json_law json_i32.json_law json_string.vector_roundtrip json_RegInstance.vector_roundtrip)

interpretation json_RegPullRes: json_codec RegPullRes_ToJson "fresh_obj RegPullRes_default RegPullRes_FromJson"
  by unfold_locales (simp add: fresh_obj_def RegPullRes_json)

section \<open>Decoding arbitrary bytes\<close>

definition rd_monotone :: "'a rd \<Rightarrow> bool" where
  "rd_monotone r \<longleftrightarrow> (\<forall>s x s'. stream_ok s \<longrightarrow> r s = (x, s') \<longrightarrow> stream_ok s' \<and> length (unread s') \<le> length (unread s))"

definition upd_monotone :: "'o upd \<Rightarrow> bool" where
  "upd_monotone u \<longleftrightarrow> (\<forall>v s e v' s'. stream_ok s \<longrightarrow> u v s = (e, v', s') \<longrightarrow> stream_ok s' \<and> length (unread s') \<le> length (unread s))"

lemma set_field_monotone: "rd_monotone r \<Longrightarrow> upd_monotone (set_field r f)"
  unfolding upd_monotone_def
proof (intro allI impI)
  fix v s e v' s'
  assume m: "rd_monotone r" and ok: "stream_ok s" and u: "set_field r f v s = (e, v', s')"
  obtain x s1 where r: "r s = (x, s1)" by (cases "r s")
  with u have "s' = s1" by (auto simp: set_field_def split: sum.splits)
  with m ok r show "stream_ok s' \<and> length (unread s') \<le> length (unread s)" by (simp add: rd_monotone_def)
qed

lemma if_monotone: "upd_monotone u \<Longrightarrow> upd_monotone w \<Longrightarrow> upd_monotone (if b then u else w)"
  by simp

lemma field_monotone_intro: "(\<And>q n. upd_monotone (field q n)) \<Longrightarrow> field_monotone field"
  unfolding upd_monotone_def field_monotone_def by blast

lemma AddCurPos_monotone:
  "stream_ok s \<Longrightarrow> \<not> RemainSize s < n \<Longrightarrow> stream_ok (AddCurPos n s) \<and> length (unread (AddCurPos n s)) \<le> length (unread s)"
  using AddCurPos_unread [of s n] by (simp add: RemainSize_unread)

lemma readers_monotone:
  "rd_monotone (ReadPb_string n)" "rd_monotone (ReadPb_word n)" "rd_monotone (SkipPb n)"
  "rd_monotone (rd_of_upd v0 (ReadPb_obj A d) n)"
  using AddCurPos_monotone
  by (auto simp: rd_monotone_def ReadPb_string_def ReadPb_word_def SkipPb_def rd_of_upd_def ReadPb_obj_def
      split: if_splits prod.splits option.splits)

lemma skip_field_monotone: "upd_monotone (skip_field n :: 'o upd)"
proof -
  have "(skip_field n :: 'o upd) = set_field (SkipPb n) (\<lambda>_ v. v)"
    by (intro ext) (simp add: skip_field_def set_field_def split: prod.splits sum.splits)
  then show ?thesis by (simp add: set_field_monotone readers_monotone)
qed

lemmas monotone_intros = field_monotone_intro if_monotone set_field_monotone skip_field_monotone readers_monotone

lemma RegInstance_monotone: "field_monotone (RegInstance_field A)"
  unfolding RegInstance_field_def [abs_def] by (intro monotone_intros)

lemma RegPullRes_monotone: "field_monotone (RegPullRes_field A)"
  unfolding RegPullRes_field_def [abs_def] by (intro monotone_intros)

section \<open>Properties\<close>

text \<open>
  A \<open>RegPullRes\<close> message, with its vector of nested \<open>RegInstance\<close> objects, written to a stream
  decodes to the same message, and the decoder uses up exactly the bytes written.
\<close>

theorem RegPullRes_roundtrip:
  assumes "RegPullRes_ok v" and "all_avail A" and "stream_ok s" and "unread s = []"
    and "RegPullRes_serialize A v s = (None, s1)"
  shows "\<exists>s2. RegPullRes_deserialize A RegPullRes_default s1 = (None, v, s2) \<and> unread s2 = []"
  using assms by (rule RegPullRes.object_roundtrip)

theorem RegPullRes_roundtrip_witness:
  "\<exists>s1 s2. RegPullRes_serialize \<lparr>avail = \<lambda>_. True, junk = \<lambda>_. CHR ''?''\<rparr>
       \<lparr>pullres_iCode = 3, pullres_vList = [\<lparr>inst_sName = ''a'', inst_iId = 7, inst_sIp = ''::'', inst_sPort = [], inst_sZone = []\<rparr>]\<rparr>
       Stream_empty = (None, s1)
   \<and> RegPullRes_deserialize \<lparr>avail = \<lambda>_. True, junk = \<lambda>_. CHR ''?''\<rparr> RegPullRes_default s1 = (None,
       \<lparr>pullres_iCode = 3, pullres_vList = [\<lparr>inst_sName = ''a'', inst_iId = 7, inst_sIp = ''::'', inst_sPort = [], inst_sZone = []\<rparr>]\<rparr>, s2)"
proof -
  let ?A = "\<lparr>avail = \<lambda>_. True, junk = \<lambda>_. CHR ''?''\<rparr>"
  let ?v = "\<lparr>pullres_iCode = 3, pullres_vList = [\<lparr>inst_sName = ''a'', inst_iId = 7, inst_sIp = ''::'', inst_sPort = [], inst_sZone = []\<rparr>]\<rparr>"
  have "fst (RegPullRes_serialize ?A ?v Stream_empty) = None"
    by (simp add: RegPullRes_serialize_def RegInstance_serialize_def w_then_def WritePb_vector_def WritePb_word_def
        WritePb_string_def WritePb_obj_def WritePbRaw_def put_word_def s_append_def Stream_empty_def Append_ext_def
        Grow_def grow_cap.simps malloc_def Bytes_empty_def memcpy_def sint_neg_u32 content_def Let_def)
  then obtain s1 where s1: "RegPullRes_serialize ?A ?v Stream_empty = (None, s1)" by (metis prod.collapse)
  have "RegPullRes_ok ?v" "all_avail ?A" "unread Stream_empty = []"
    by (simp_all add: RegPullRes_ok_def RegInstance_ok_def RegInstance_fields_def all_avail_def unread_def)
  from RegPullRes_roundtrip [OF this(1,2) stream_ok_empty(1) this(3) s1] s1 show ?thesis by blast
qed

text \<open>
  A decoder is forward compatible. Fields with numbers it does not know, anywhere between the
  known ones, do not change what it decodes.
\<close>

theorem RegInstance_forward_compatible:
  assumes "RegInstance_ok v" and "filter (\<lambda>f. fst f \<in> {0, 1, 2, 3, 4}) fs = RegInstance_fields v"
    and "list_all (\<lambda>f. \<not> sint (fst f) < 0 \<and> length (snd f) \<le> INT32_MAX) fs"
    and "stream_ok s" and "unread s = pb_layout fs"
  shows "\<exists>s'. RegInstance_deserialize A RegInstance_default s = (None, v, s') \<and> unread s' = []"
proof -
  have "fields_read (RegInstance_field A) RegInstance_default fs v"
    by (rule fields_read_skip [where K = "{0, 1, 2, 3, 4}"])
      (use assms RegInstance_reads [OF assms(1), of A] in \<open>simp_all add: RegInstance_field_def\<close>)
  from pb_fields_layout [OF this assms(4,5)] show ?thesis by (auto simp: RegInstance_deserialize_def)
qed

theorem RegInstance_forward_compatible_witness:
  "\<exists>s'. RegInstance_deserialize demo_alloc RegInstance_default
      \<lparr>buf = \<lparr>m_pMemory = pb_layout (RegInstance_fields RegInstance_default @ [(9, ''new'')]), m_iCapacity = 55, m_iHead = 0, m_iSize = 55\<rparr>,
       m_iCurrentPosition = 0, m_iSnapshotPosition = 0\<rparr> = (None, RegInstance_default, s') \<and> unread s' = []"
  by (rule RegInstance_forward_compatible [where fs = "RegInstance_fields RegInstance_default @ [(9, ''new'')]"])
    (simp_all add: RegInstance_ok_def RegInstance_fields_def RegInstance_default_def sint_neg_u32 stream_ok_def
      bytes_ok_def unread_def content_def)

text \<open>
  Decoding any byte sequence ends. Every round of the decoder's loop consumes at least a header,
  so it returns a message or an exception, whatever the bytes and however deep the nesting.
\<close>

theorem RegPullRes_decode_ends:
  assumes "stream_ok s"
  shows "pb_loop (RegPullRes_field A) (RemainSize s) v s \<noteq> None
    \<and> pb_loop (RegInstance_field A) (RemainSize s) w s \<noteq> None"
  using pb_loop_returns [OF RegPullRes_monotone assms, of "RemainSize s" A v]
    pb_loop_returns [OF RegInstance_monotone assms, of "RemainSize s" A w] assms
  by (auto simp: RemainSize_unread)

theorem RegPullRes_decode_ends_witness:
  "pb_loop (RegPullRes_field demo_alloc) (RemainSize Stream_empty) RegPullRes_default Stream_empty \<noteq> None"
  using RegPullRes_decode_ends [of Stream_empty] by simp

text \<open>Every registry message survives the conversion to JSON and back, into any previous value.\<close>

theorem registry_json_roundtrip:
  "RegInstance_FromJson (RegInstance_ToJson v1) w1 = (True, v1)
   \<and> RegRegister_FromJson (RegRegister_ToJson v2) w2 = (True, v2)
   \<and> RegHeartbeat_FromJson (RegHeartbeat_ToJson v3) w3 = (True, v3)
   \<and> RegPull_FromJson (RegPull_ToJson v4) w4 = (True, v4)
   \<and> RegPullRes_FromJson (RegPullRes_ToJson v5) w5 = (True, v5)"
  by (simp add: RegInstance_json RegRegister_json RegHeartbeat_json RegPull_json RegPullRes_json)

end
