(* ===== verification/OI_RedisClient.thy ===== *)
theory OI_RedisClient
  imports OI_Prelude "HOL-Library.Monad_Syntax"
begin

text \<open>
  The Redis client (redis/src/oi_redis.cpp, redis/inc/oi_redis.h): calls that wait for their replies in
  the order in which they were sent, the timeout sweep that settles calls but leaves them in the queue,
  failure on disconnection, the completion gate between the caller and the poll thread, and the
  reference counts of the call states.

  A call state is a heap cell named by a number; an operation on a freed cell is \<open>None\<close>, so memory
  safety is a theorem. What the operating system, the session layer and the hiredis reader answer is an
  argument of the operation that asks.
\<close>

section \<open>State\<close>

datatype RedisStatus = Ok | Timeout | Disconnected | InvalidArgument | SendFailed | ServerError
  | ProtocolError | Busy

datatype redisReply = R_STRING string | R_INTEGER int | R_NIL | R_STATUS string | R_ERROR string
  | R_ARRAY "redisReply option list"

datatype gate = Idle | Ready | Waiting

abbreviation (input) INVALID_SID :: int where "INVALID_SID \<equiv> - 1"
abbreviation (input) OI_ERR_INVALID_ARGUMENT :: int where "OI_ERR_INVALID_ARGUMENT \<equiv> - 6"
abbreviation (input) OI_ERR_REDIS :: int where "OI_ERR_REDIS \<equiv> - 8"
abbreviation (input) OI_ERR_REDIS_WRONGTYPE :: int where "OI_ERR_REDIS_WRONGTYPE \<equiv> - 9"
abbreviation (input) OI_ERR_PROTOCOL :: int where "OI_ERR_PROTOCOL \<equiv> - 10"

text \<open>
  Besides the members of the class, \<open>scheduled\<close> are the coroutines handed to the scheduler so far, and
  \<open>sent\<close> are the calls whose frames the session has accepted on the current connection, in this order.
\<close>

record call =
  vArguments :: "string list"
  pReply :: "redisReply option"
  iStatus :: RedisStatus
  bReady :: bool
  bSynchronous :: bool
  stHandle :: bool
  iDeadlineMilliseconds :: int
  iGate :: gate
  iWon :: bool
  iReferences :: nat
  bAwaitStarted :: bool
  iSessionId :: int

record client =
  heap :: "nat \<Rightarrow> call option"
  m_vWait :: "nat list"
  m_iSwept :: nat
  m_iReaderSessionId :: int
  m_iTimeoutMilliseconds :: int
  m_iMaxPending :: nat
  scheduled :: "nat list"
  sent :: "nat list"

section \<open>Results\<close>

text \<open>The result a caller sees, and the code it turns into.\<close>

record RedisResult =
  res_pReply :: "redisReply option"
  res_bTimeout :: bool
  res_iStatus :: RedisStatus

definition GetRet :: "RedisResult \<Rightarrow> int" where
  "GetRet r = (case res_iStatus r of
      Ok \<Rightarrow> if res_pReply r \<noteq> None then OI_OK else OI_ERR_PROTOCOL
    | Timeout \<Rightarrow> OI_ERR_TIMEOUT
    | Disconnected \<Rightarrow> OI_ERR_CONNECT
    | InvalidArgument \<Rightarrow> OI_ERR_INVALID_ARGUMENT
    | SendFailed \<Rightarrow> OI_ERR_FAIL
    | Busy \<Rightarrow> OI_ERR_BUSY
    | ProtocolError \<Rightarrow> OI_ERR_PROTOCOL
    | ServerError \<Rightarrow> (case res_pReply r of
        Some (R_ERROR e) \<Rightarrow> if take 10 e = ''WRONGTYPE '' then OI_ERR_REDIS_WRONGTYPE else OI_ERR_REDIS
      | _ \<Rightarrow> OI_ERR_REDIS))"

definition await_resume :: "call \<Rightarrow> RedisResult" where
  "await_resume s = \<lparr>res_pReply = pReply s, res_bTimeout = (iStatus s = Timeout), res_iStatus = iStatus s\<rparr>"

section \<open>Calls\<close>

text \<open>\<open>State::State\<close> and the constructor of a call; a blocking call sets its flag before it is posted.\<close>

definition State :: "string list \<Rightarrow> bool \<Rightarrow> call" where
  "State vArgs bSync =
    \<lparr>vArguments = vArgs, pReply = None, iStatus = Disconnected, bReady = False, bSynchronous = bSync,
     stHandle = False, iDeadlineMilliseconds = 0, iGate = Idle, iWon = False, iReferences = 1,
     bAwaitStarted = False, iSessionId = INVALID_SID\<rparr>"

definition put_call :: "nat \<Rightarrow> call \<Rightarrow> client \<Rightarrow> client" where
  "put_call p s c = c\<lparr>heap := (heap c)(p \<mapsto> s)\<rparr>"

definition Schedule :: "nat \<Rightarrow> client \<Rightarrow> client" where
  "Schedule p c = c\<lparr>scheduled := scheduled c @ [p]\<rparr>"

definition AddReference :: "nat \<Rightarrow> client \<Rightarrow> client option" where
  "AddReference p c = (case heap c p of
      None \<Rightarrow> None
    | Some s \<Rightarrow> Some (put_call p (s\<lparr>iReferences := iReferences s + 1\<rparr>) c))"

definition Release :: "nat \<Rightarrow> client \<Rightarrow> client option" where
  "Release p c = (case heap c p of
      None \<Rightarrow> None
    | Some s \<Rightarrow> Some (if iReferences s = 1 then c\<lparr>heap := (heap c)(p := None)\<rparr>
        else put_call p (s\<lparr>iReferences := iReferences s - 1\<rparr>) c))"

text \<open>
  \<open>Settle\<close>: the first to set \<open>iWon\<close> writes the result. A coroutine that is already parked at the gate is
  scheduled; otherwise it will find the gate ready.
\<close>

definition Settle :: "nat \<Rightarrow> redisReply option \<Rightarrow> RedisStatus \<Rightarrow> client \<Rightarrow> client option" where
  "Settle p r st c = (case heap c p of
      None \<Rightarrow> None
    | Some s \<Rightarrow>
        if iWon s then Some c
        else
          let s1 = s\<lparr>iWon := True, pReply := r, iStatus := st, bReady := True\<rparr>
          in if bSynchronous s then Some (put_call p s1 c)
             else let iPrevious = iGate s; c1 = put_call p (s1\<lparr>iGate := Ready\<rparr>) c
                  in Some (if iPrevious = Waiting \<and> stHandle s then Schedule p c1 else c1))"

text \<open>
  \<open>RedisCall::Suspend\<close> in two parts: up to posting \<open>Submit\<close> to the poll loop, and the exchange at the
  gate. The first part throws on a second await and returns at once when the process is stopping.
\<close>

datatype suspend_result = Throws | Continues | Posted

definition Suspend_post :: "bool \<Rightarrow> nat \<Rightarrow> client \<Rightarrow> (suspend_result \<times> client) option" where
  "Suspend_post bStop p c = (case heap c p of
      None \<Rightarrow> None
    | Some s \<Rightarrow>
        if bAwaitStarted s then Some (Throws, c)
        else if bStop then Some (Continues, put_call p (s\<lparr>bAwaitStarted := True\<rparr>) c)
        else Some (Posted, put_call p (s\<lparr>bAwaitStarted := True, stHandle := True\<rparr>) c))"

definition Suspend_gate :: "nat \<Rightarrow> client \<Rightarrow> (bool \<times> client) option" where
  "Suspend_gate p c = (case heap c p of
      None \<Rightarrow> None
    | Some s \<Rightarrow> Some (iGate s \<noteq> Ready, put_call p (s\<lparr>iGate := Waiting\<rparr>) c))"

section \<open>Sending\<close>

text \<open>
  What \<open>Enqueue\<close> asks its surroundings: whether the process stops, the connected session, hiredis's
  formatting of the command, the timer, the clock and the result of the send.
\<close>

record surroundings =
  StopRequested :: bool
  ConnectedSid :: int
  FormatCommand :: "string list \<Rightarrow> bytes option"
  ArmRedisSweep :: bool
  NowMs :: int
  SendBytesResult :: int

definition send_status :: "int \<Rightarrow> RedisStatus" where
  "send_status iSendRet =
    (if iSendRet = OI_ERR_BUSY then Busy else if iSendRet = OI_ERR_CONNECT then Disconnected else SendFailed)"

definition remove_wait :: "nat \<Rightarrow> client \<Rightarrow> client" where
  "remove_wait p c =
    (if p \<in> set (m_vWait c)
     then c\<lparr>m_vWait := remove1 p (m_vWait c),
            m_iSwept := (if length (takeWhile (\<lambda>q. q \<noteq> p) (m_vWait c)) < m_iSwept c then m_iSwept c - 1 else m_iSwept c)\<rparr>
     else c)"

definition Enqueue :: "surroundings \<Rightarrow> nat \<Rightarrow> client \<Rightarrow> client option" where
  "Enqueue E p c = do {
    s \<leftarrow> heap c p;
    if vArguments s = [] then Settle p None InvalidArgument c
    else if StopRequested E \<or> m_iReaderSessionId c = INVALID_SID \<or> ConnectedSid E \<noteq> m_iReaderSessionId c
    then Settle p None Disconnected c
    else if FormatCommand E (vArguments s) = None then Settle p None InvalidArgument c
    else if \<not> ArmRedisSweep E then Settle p None SendFailed c
    else let s1 = s\<lparr>iDeadlineMilliseconds := NowMs E + m_iTimeoutMilliseconds c\<rparr>; c1 = put_call p s1 c in
      if \<not> length (m_vWait c1) < m_iMaxPending c1 then Settle p None Busy c1
      else do {
        let c2 = put_call p (s1\<lparr>iSessionId := m_iReaderSessionId c1, iReferences := iReferences s1 + 1\<rparr>) c1;
        let c3 = c2\<lparr>m_vWait := m_vWait c2 @ [p]\<rparr>;
        if SendBytesResult E \<noteq> OI_OK
        then do {
          c4 \<leftarrow> Settle p None (send_status (SendBytesResult E)) (remove_wait p c3);
          Release p c4
        }
        else Some (c3\<lparr>sent := sent c3 @ [p]\<rparr>)
      }
  }"

definition Submit :: "surroundings \<Rightarrow> nat \<Rightarrow> client \<Rightarrow> client option" where
  "Submit E p c = do {
    c1 \<leftarrow> AddReference p c;
    c2 \<leftarrow> Enqueue E p c1;
    Release p c2
  }"

section \<open>Timeouts and failures\<close>

fun settle_each :: "RedisStatus \<Rightarrow> nat list \<Rightarrow> client \<Rightarrow> client option" where
  "settle_each st [] c = Some c"
| "settle_each st (p # ps) c = do { c1 \<leftarrow> Settle p None st c; settle_each st ps c1 }"

text \<open>The loop of \<open>SweepTimeout\<close> under the lock: how many calls from \<open>m_iSwept\<close> on have expired.\<close>

fun expired_prefix :: "int \<Rightarrow> (nat \<Rightarrow> call option) \<Rightarrow> nat list \<Rightarrow> nat list option" where
  "expired_prefix iNow h [] = Some []"
| "expired_prefix iNow h (p # ps) = do {
    s \<leftarrow> h p;
    if iDeadlineMilliseconds s > iNow then Some []
    else do { qs \<leftarrow> expired_prefix iNow h ps; Some (p # qs) }
  }"

definition SweepTimeout :: "int \<Rightarrow> client \<Rightarrow> client option" where
  "SweepTimeout iNow c = do {
    vExpired \<leftarrow> expired_prefix iNow (heap c) (drop (m_iSwept c) (m_vWait c));
    settle_each Timeout vExpired (c\<lparr>m_iSwept := m_iSwept c + length vExpired\<rparr>)
  }"

text \<open>The loop that settles and releases the calls taken out of the queue.\<close>

fun fail_each :: "RedisStatus \<Rightarrow> nat list \<Rightarrow> client \<Rightarrow> client option" where
  "fail_each st [] c = Some c"
| "fail_each st (p # ps) c = do {
    s \<leftarrow> heap c p;
    c1 \<leftarrow> (if \<not> iWon s then Settle p None st c else Some c);
    c2 \<leftarrow> Release p c1;
    fail_each st ps c2
  }"

definition of_session :: "int \<Rightarrow> (nat \<Rightarrow> call option) \<Rightarrow> nat \<Rightarrow> bool" where
  "of_session sid h p = (case h p of None \<Rightarrow> False | Some s \<Rightarrow> iSessionId s = sid)"

definition FailSid :: "int \<Rightarrow> client \<Rightarrow> client option" where
  "FailSid sid c = (if \<exists>p \<in> set (m_vWait c). heap c p = None then None
    else fail_each Disconnected (filter (of_session sid (heap c)) (m_vWait c))
      (c\<lparr>m_vWait := filter (\<lambda>p. \<not> of_session sid (heap c) p) (m_vWait c),
         m_iSwept := length (filter (\<lambda>p. \<not> of_session sid (heap c) p) (take (m_iSwept c) (m_vWait c)))\<rparr>))"

definition FailAll :: "RedisStatus \<Rightarrow> client \<Rightarrow> client option" where
  "FailAll st c = fail_each st (m_vWait c) (c\<lparr>m_vWait := [], m_iSwept := 0\<rparr>)"

section \<open>Connections and replies\<close>

definition OnClientConnect :: "int \<Rightarrow> client \<Rightarrow> client option" where
  "OnClientConnect sid c = do {
    c1 \<leftarrow> FailAll Disconnected c;
    Some (c1\<lparr>m_iReaderSessionId := sid, sent := []\<rparr>)
  }"

definition OnClientDisconnect :: "int \<Rightarrow> client \<Rightarrow> client option" where
  "OnClientDisconnect sid c =
    FailSid sid (if m_iReaderSessionId c = sid then c\<lparr>m_iReaderSessionId := INVALID_SID\<rparr> else c)"

text \<open>The handler run when the thread pool stops.\<close>

definition OnStop :: "client \<Rightarrow> client option" where
  "OnStop c = do {
    c1 \<leftarrow> FailAll Disconnected c;
    Some (c1\<lparr>m_iReaderSessionId := INVALID_SID\<rparr>)
  }"

fun is_error :: "redisReply \<Rightarrow> bool" where
  "is_error (R_ERROR e) = True"
| "is_error _ = False"

text \<open>The body of the loop of \<open>Feed\<close> for a complete reply.\<close>

definition feed_reply :: "redisReply \<Rightarrow> client \<Rightarrow> client option" where
  "feed_reply r c = (case m_vWait c of
      [] \<Rightarrow> Some c
    | p # ps \<Rightarrow> do {
        let c1 = c\<lparr>m_vWait := ps, m_iSwept := (if m_iSwept c > 0 then m_iSwept c - 1 else 0)\<rparr>;
        s \<leftarrow> heap c1 p;
        c2 \<leftarrow> (if \<not> iWon s then Settle p (Some r) (if is_error r then ServerError else Ok) c1 else Some c1);
        Release p c2
      })"

fun feed_replies :: "redisReply list \<Rightarrow> client \<Rightarrow> client option" where
  "feed_replies [] c = Some c"
| "feed_replies (r # rs) c = do { c1 \<leftarrow> feed_reply r c; feed_replies rs c1 }"

text \<open>
  \<open>Feed\<close>: the reader accepts the bytes or not (\<open>bFed\<close>), then yields complete replies and ends with an
  error or with no further reply. Closing the session is the session layer's; the reader's error stays.
\<close>

definition Feed :: "int \<Rightarrow> bool \<Rightarrow> redisReply list \<Rightarrow> bool \<Rightarrow> client \<Rightarrow> client option" where
  "Feed sid bFed rs bOk c =
    (if sid \<noteq> m_iReaderSessionId c \<or> sid = INVALID_SID then Some c
     else if \<not> bFed then FailAll ProtocolError c
     else do {
       c1 \<leftarrow> feed_replies rs c;
       if \<not> bOk then FailAll ProtocolError c1 else Some c1
     })"

section \<open>Invariant\<close>

text \<open>
  What the program does not store: which calls their callers still hold, which callers stand between
  posting and the gate, the callers that went on without being scheduled, the reply that Redis gave to
  each command, and the last reading of the clock.
\<close>

record ghost =
  callers :: "nat set"
  mid :: "nat set"
  resumed :: "nat list"
  own :: "nat \<Rightarrow> redisReply option"
  clock_ms :: int

definition holders :: "ghost \<Rightarrow> nat list \<Rightarrow> client \<Rightarrow> nat \<Rightarrow> nat" where
  "holders g H c p = of_bool (p \<in> callers g) + count_list (m_vWait c) p + count_list H p"

definition woken :: "ghost \<Rightarrow> client \<Rightarrow> nat list" where
  "woken g c = scheduled c @ resumed g"

text \<open>A call is freed exactly when nobody holds it; \<open>H\<close> are the references the running operation holds.\<close>

definition refs_ok :: "ghost \<Rightarrow> nat list \<Rightarrow> client \<Rightarrow> bool" where
  "refs_ok g H c \<longleftrightarrow> (\<forall>p. map_option iReferences (heap c p) =
    (if holders g H c p = 0 then None else Some (holders g H c p)))"

text \<open>The completion gate: a settled coroutine is woken exactly once, and only when it is settled.\<close>

definition gate_ok :: "nat set \<Rightarrow> nat set \<Rightarrow> nat \<Rightarrow> call \<Rightarrow> bool" where
  "gate_ok M W p s \<longleftrightarrow>
    bReady s = iWon s
    \<and> (stHandle s \<longrightarrow> \<not> bSynchronous s \<and> bAwaitStarted s)
    \<and> (stHandle s \<and> p \<in> W \<longrightarrow> iWon s)
    \<and> (p \<in> M \<longrightarrow> p \<notin> W \<and> stHandle s \<and> iGate s = (if iWon s then Ready else Idle))
    \<and> (stHandle s \<and> p \<notin> M \<longrightarrow> (if iWon s then p \<in> W else iGate s = Waiting))
    \<and> (\<not> bAwaitStarted s \<longrightarrow> p \<notin> W \<and> p \<notin> M \<and> iGate s = Idle)
    \<and> (iWon s \<longrightarrow> stHandle s \<or> bSynchronous s)"

definition reply_ok :: "redisReply option \<Rightarrow> call \<Rightarrow> bool" where
  "reply_ok a s \<longleftrightarrow>
    (\<not> iWon s \<longrightarrow> pReply s = None)
    \<and> (\<forall>r. pReply s = Some r \<longrightarrow> a = Some r \<and> iStatus s = (if is_error r then ServerError else Ok))"

definition calls_ok :: "ghost \<Rightarrow> client \<Rightarrow> bool" where
  "calls_ok g c \<longleftrightarrow> distinct (woken g c)
    \<and> (\<forall>p s. heap c p = Some s \<longrightarrow> gate_ok (mid g) (set (woken g c)) p s \<and> reply_ok (own g p) s)"

definition deadline :: "client \<Rightarrow> nat \<Rightarrow> int" where
  "deadline c p = (case heap c p of None \<Rightarrow> 0 | Some s \<Rightarrow> iDeadlineMilliseconds s)"

text \<open>The queue: no call twice, the swept prefix is settled, all were sent on the reader's session.\<close>

definition posted :: "client \<Rightarrow> nat \<Rightarrow> bool" where
  "posted c p = (case heap c p of None \<Rightarrow> False | Some s \<Rightarrow> stHandle s \<or> bSynchronous s)"

definition won :: "client \<Rightarrow> nat \<Rightarrow> bool" where
  "won c p = (case heap c p of None \<Rightarrow> False | Some s \<Rightarrow> iWon s)"

definition unanswered :: "client \<Rightarrow> nat \<Rightarrow> bool" where
  "unanswered c p = (case heap c p of None \<Rightarrow> False | Some s \<Rightarrow> pReply s = None)"

definition queue_ok :: "ghost \<Rightarrow> client \<Rightarrow> bool" where
  "queue_ok g c \<longleftrightarrow> distinct (m_vWait c) \<and> m_iSwept c \<le> length (m_vWait c)
    \<and> (\<forall>p \<in> set (take (m_iSwept c) (m_vWait c)). won c p)
    \<and> (\<forall>p \<in> set (m_vWait c). posted c p \<and> unanswered c p \<and> of_session (m_iReaderSessionId c) (heap c) p)
    \<and> (m_vWait c \<noteq> [] \<longrightarrow> m_iReaderSessionId c \<noteq> INVALID_SID)
    \<and> sorted (map (deadline c) (m_vWait c))
    \<and> (\<forall>p \<in> set (m_vWait c). deadline c p \<le> clock_ms g + m_iTimeoutMilliseconds c)"

definition client_ok :: "ghost \<Rightarrow> nat list \<Rightarrow> client \<Rightarrow> bool" where
  "client_ok g H c \<longleftrightarrow> refs_ok g H c \<and> calls_ok g c \<and> queue_ok g c \<and> (\<forall>p \<in> set H. posted c p)"

text \<open>What the loops that settle and release keep: the queue and the fields of its calls.\<close>

definition same_queue :: "client \<Rightarrow> client \<Rightarrow> bool" where
  "same_queue c c' \<longleftrightarrow> m_vWait c' = m_vWait c \<and> m_iSwept c' = m_iSwept c \<and> m_iReaderSessionId c' = m_iReaderSessionId c
    \<and> m_iTimeoutMilliseconds c' = m_iTimeoutMilliseconds c \<and> m_iMaxPending c' = m_iMaxPending c
    \<and> sent c' = sent c"

lemma refs_okD:
  assumes "refs_ok g H c" "0 < holders g H c p"
  obtains s where "heap c p = Some s" "iReferences s = holders g H c p"
proof -
  have "map_option iReferences (heap c p) = Some (holders g H c p)" using assms by (simp add: refs_ok_def)
  then show thesis using that by (auto simp: map_option_eq_Some)
qed

lemma queue_cong:
  assumes "queue_ok g c" "same_queue c c'" "clock_ms g \<le> clock_ms g'"
    "\<And>p. p \<in> set (m_vWait c) \<Longrightarrow> (won c p \<longrightarrow> won c' p) \<and> (posted c p \<longrightarrow> posted c' p)
      \<and> (unanswered c p \<longrightarrow> unanswered c' p) \<and> deadline c' p = deadline c p
      \<and> (of_session (m_iReaderSessionId c) (heap c) p \<longrightarrow> of_session (m_iReaderSessionId c) (heap c') p)"
  shows "queue_ok g' c'"
proof -
  have f: "m_vWait c' = m_vWait c" "m_iSwept c' = m_iSwept c" "m_iReaderSessionId c' = m_iReaderSessionId c"
      "m_iTimeoutMilliseconds c' = m_iTimeoutMilliseconds c" using assms(2) by (simp_all add: same_queue_def)
  have dl: "map (deadline c') (m_vWait c) = map (deadline c) (m_vWait c)" using assms(4) by simp
  have Q: "distinct (m_vWait c)" "m_iSwept c \<le> length (m_vWait c)" "\<forall>p \<in> set (take (m_iSwept c) (m_vWait c)). won c p"
      "\<forall>p \<in> set (m_vWait c). posted c p \<and> unanswered c p \<and> of_session (m_iReaderSessionId c) (heap c) p"
      "m_vWait c \<noteq> [] \<longrightarrow> m_iReaderSessionId c \<noteq> INVALID_SID" "sorted (map (deadline c) (m_vWait c))"
      "\<forall>p \<in> set (m_vWait c). deadline c p \<le> clock_ms g + m_iTimeoutMilliseconds c"
    using assms(1) by (simp_all add: queue_ok_def)
  have "\<forall>p \<in> set (take (m_iSwept c) (m_vWait c)). won c' p" using Q(3) assms(4)
    by (meson in_set_takeD)
  moreover have "\<forall>p \<in> set (m_vWait c). posted c' p \<and> unanswered c' p \<and> of_session (m_iReaderSessionId c) (heap c') p"
    using Q(4) assms(4) by blast
  moreover have "\<forall>p \<in> set (m_vWait c). deadline c' p \<le> clock_ms g' + m_iTimeoutMilliseconds c"
    using Q(7) assms(3,4) by fastforce
  ultimately show ?thesis unfolding queue_ok_def f dl using Q by blast
qed

lemma refs_cong:
  assumes "refs_ok g H c" "\<And>p. holders g' H' c' p = holders g H c p"
    "\<And>p. map_option iReferences (heap c' p) = map_option iReferences (heap c p)"
  shows "refs_ok g' H' c'"
  using assms by (simp add: refs_ok_def)

lemma held_alive:
  assumes "client_ok g H c" "p \<in> callers g \<or> p \<in> set (m_vWait c) \<or> p \<in> set H"
  obtains s where "heap c p = Some s"
proof -
  have "0 < holders g H c p" using assms(2) by (auto simp: holders_def count_list_0_iff simp flip: neq0_conv)
  then show thesis using that assms(1) refs_okD unfolding client_ok_def by blast
qed

text \<open>The state after \<open>Settle\<close> as one update.\<close>

definition settled :: "redisReply option \<Rightarrow> RedisStatus \<Rightarrow> call \<Rightarrow> call" where
  "settled r st s = (if iWon s then s else
    s\<lparr>iWon := True, pReply := r, iStatus := st, bReady := True,
      iGate := (if bSynchronous s then iGate s else Ready)\<rparr>)"

definition wakes :: "call \<Rightarrow> bool" where
  "wakes s \<longleftrightarrow> \<not> iWon s \<and> \<not> bSynchronous s \<and> iGate s = Waiting \<and> stHandle s"

lemma settled_sel [simp]:
  "iWon (settled r st s)" "iReferences (settled r st s) = iReferences s"
  "iDeadlineMilliseconds (settled r st s) = iDeadlineMilliseconds s" "iSessionId (settled r st s) = iSessionId s"
  "stHandle (settled r st s) = stHandle s" "bSynchronous (settled r st s) = bSynchronous s"
  "bAwaitStarted (settled r st s) = bAwaitStarted s" "vArguments (settled r st s) = vArguments s"
  by (simp_all add: settled_def)

lemma gate_ok_settled:
  "gate_ok M W p s \<Longrightarrow> stHandle s \<or> bSynchronous s \<Longrightarrow>
    gate_ok M (if wakes s then insert p W else W) p (settled r st s)"
  by (cases "iWon s"; cases "p \<in> M"; cases "stHandle s") (simp_all add: gate_ok_def settled_def wakes_def)

lemma gate_ok_other: "q \<noteq> p \<Longrightarrow> gate_ok M (if b then insert p W else W) q t = gate_ok M W q t"
  by (simp add: gate_ok_def)

lemma ok_refs [simp]:
  "gate_ok M W p (s\<lparr>iReferences := n\<rparr>) = gate_ok M W p s" "reply_ok a (s\<lparr>iReferences := n\<rparr>) = reply_ok a s"
  by (simp_all add: gate_ok_def reply_ok_def)

lemma Settle_eq:
  assumes "heap c p = Some s"
  shows "Settle p r st c = Some (c\<lparr>heap := (heap c)(p \<mapsto> settled r st s),
    scheduled := scheduled c @ (if wakes s then [p] else [])\<rparr>)"
  using assms by (cases "iWon s"; cases "bSynchronous s")
    (auto simp: Settle_def settled_def wakes_def put_call_def Schedule_def Let_def fun_upd_idem)

lemma Settle_ok:
  assumes ok: "client_ok g H c" and p: "p \<in> set (m_vWait c) \<or> p \<in> set H"
    and r: "r \<noteq> None \<Longrightarrow> p \<notin> set (m_vWait c) \<and> own g p = r \<and> st = (if is_error (the r) then ServerError else Ok)"
  obtains c' s where "Settle p r st c = Some c'" "client_ok g H c'" "same_queue c c'"
    "heap c p = Some s" "heap c' = (heap c)(p \<mapsto> settled r st s)"
proof -
  obtain s where s: "heap c p = Some s" using held_alive [OF ok] p by blast
  define c' where "c' = c\<lparr>heap := (heap c)(p \<mapsto> settled r st s), scheduled := scheduled c @ (if wakes s then [p] else [])\<rparr>"
  have heap': "heap c' = (heap c)(p \<mapsto> settled r st s)" by (simp add: c'_def)
  have post: "stHandle s \<or> bSynchronous s"
    using ok p s by (auto simp: client_ok_def queue_ok_def posted_def split: option.splits)
  have g: "gate_ok (mid g) (set (woken g c)) p s" and rep: "reply_ok (own g p) s"
    using ok s by (auto simp: client_ok_def calls_ok_def)
  have woken': "set (woken g c') = (if wakes s then insert p (set (woken g c)) else set (woken g c))"
    by (auto simp: woken_def c'_def)
  have gp: "gate_ok (mid g) (set (woken g c')) p (settled r st s)"
    unfolding woken' by (rule gate_ok_settled [OF g post])
  have rp: "reply_ok (own g p) (settled r st s)"
    using rep r unfolding reply_ok_def by (auto simp: settled_def)
  have gq: "gate_ok (mid g) (set (woken g c')) q t" if "heap c q = Some t" "q \<noteq> p" for q t
    unfolding woken' using that ok by (auto simp: client_ok_def calls_ok_def gate_ok_other)
  have "wakes s \<Longrightarrow> p \<notin> set (woken g c)" using g by (auto simp: wakes_def gate_ok_def)
  then have "distinct (woken g c')" using ok by (auto simp: client_ok_def calls_ok_def woken_def c'_def)
  then have calls: "calls_ok g c'"
    using ok gp rp gq unfolding calls_ok_def client_ok_def by (auto simp: heap' split: if_splits)
  have refs: "refs_ok g H c'"
    by (rule refs_cong [of g H c]) (use ok s in \<open>auto simp: client_ok_def holders_def c'_def\<close>)
  have fields: "same_queue c c'" by (simp add: same_queue_def c'_def)
  have at: "(won c q \<longrightarrow> won c' q) \<and> (posted c q \<longrightarrow> posted c' q) \<and> deadline c' q = deadline c q
      \<and> (of_session sid (heap c) q \<longrightarrow> of_session sid (heap c') q)" for q sid
    using s by (simp add: won_def posted_def of_session_def deadline_def heap')
  have un: "unanswered c' q" if "unanswered c q" "q \<in> set (m_vWait c)" for q
    using that r s by (cases "r = None") (auto simp: unanswered_def heap' settled_def)
  have queue: "queue_ok g c'"
    by (rule queue_cong [of g c]) (use ok at un fields in \<open>auto simp: client_ok_def\<close>)
  have "\<forall>q \<in> set H. posted c' q" using ok at by (auto simp: client_ok_def)
  then have "client_ok g H c'" using refs calls queue by (simp add: client_ok_def)
  moreover have "Settle p r st c = Some c'" using Settle_eq [OF s] by (simp add: c'_def)
  ultimately show thesis using that fields s heap' by blast
qed

text \<open>Giving a reference back.\<close>

lemma client_okD:
  assumes "client_ok g (p # H) c"
  shows "refs_ok g (p # H) c" "calls_ok g c" "queue_ok g c" "\<forall>q \<in> set H. posted c q"
  using assms by (simp_all add: client_ok_def)

lemma Release_core:
  assumes ok: "refs_ok g (p # H) c" "calls_ok g c" "queue_ok g c" "\<forall>q \<in> set H. posted c q"
  obtains c' where "Release p c = Some c'" "client_ok g H c'" "same_queue c c'" "scheduled c' = scheduled c"
    "\<And>q. q \<noteq> p \<Longrightarrow> heap c' q = heap c q"
    "\<And>t. heap c' p = Some t \<Longrightarrow> \<exists>s. heap c p = Some s \<and> pReply t = pReply s \<and> iStatus t = iStatus s \<and> iWon t = iWon s"
proof -
  obtain s where s: "heap c p = Some s" using refs_okD [OF ok(1), of p] by (auto simp: holders_def)
  define c' where "c' = (if iReferences s = 1 then c\<lparr>heap := (heap c)(p := None)\<rparr>
        else put_call p (s\<lparr>iReferences := iReferences s - 1\<rparr>) c)"
  have R: "Release p c = Some c'" by (simp add: Release_def s c'_def)
  have h: "iReferences s = holders g (p # H) c p" "holders g (p # H) c p \<noteq> 0"
  proof -
    show nz: "holders g (p # H) c p \<noteq> 0" by (simp add: holders_def)
    have "map_option iReferences (heap c p) = Some (holders g (p # H) c p)" using ok(1) nz unfolding refs_ok_def by simp
    then show "iReferences s = holders g (p # H) c p" using s by simp
  qed
  have woken': "woken g c' = woken g c" and fields: "same_queue c c'" "scheduled c' = scheduled c"
    by (simp_all add: c'_def woken_def put_call_def same_queue_def)
  have hold': "holders g H c' q = (if q = p then holders g (p # H) c p - 1 else holders g (p # H) c q)" for q
    by (simp add: holders_def c'_def put_call_def)
  have heap': "heap c' q = (if q = p then if iReferences s = 1 then None else Some (s\<lparr>iReferences := iReferences s - 1\<rparr>) else heap c q)" for q
    by (simp add: c'_def put_call_def)
  have refs: "refs_ok g H c'" 
    unfolding refs_ok_def
  proof
    fix q
    have "map_option iReferences (heap c q) = (if holders g (p # H) c q = 0 then None else Some (holders g (p # H) c q))"
      using ok by (simp add: refs_ok_def)
    then show "map_option iReferences (heap c' q) = (if holders g H c' q = 0 then None else Some (holders g H c' q))"
      using h unfolding hold' heap' by (cases "q = p") auto
  qed
  have cell: "\<exists>t. heap c q = Some t \<and> gate_ok M W q t = gate_ok M W q u \<and> reply_ok a t = reply_ok a u" if "heap c' q = Some u" for q u M W a
    using that s unfolding heap' by (cases "q = p") (auto split: if_splits)
  have calls: "calls_ok g c'"
    unfolding calls_ok_def woken'
  proof (intro conjI allI impI)
    show "distinct (woken g c)" using ok by (simp add: calls_ok_def)
  next
    fix q u assume "heap c' q = Some u"
    then obtain t where "heap c q = Some t" "gate_ok (mid g) (set (woken g c)) q t = gate_ok (mid g) (set (woken g c)) q u"
        "reply_ok (own g q) t = reply_ok (own g q) u" using cell by blast
    then show "gate_ok (mid g) (set (woken g c)) q u" "reply_ok (own g q) u" using ok by (auto simp: calls_ok_def)
  qed
  have keep: "q = p \<Longrightarrow> iReferences s \<noteq> 1" if "q \<in> set (m_vWait c) \<or> q \<in> set H" for q
    using that h by (auto simp: holders_def count_list_0_iff)
  have at: "(won c' q \<longleftrightarrow> won c q) \<and> (posted c' q \<longleftrightarrow> posted c q) \<and> (unanswered c' q \<longleftrightarrow> unanswered c q)
      \<and> of_session sid (heap c') q = of_session sid (heap c) q \<and> deadline c' q = deadline c q"
    if "q \<in> set (m_vWait c) \<or> q \<in> set H" for q sid
    using keep [OF that] s
    by (auto simp: won_def posted_def unanswered_def of_session_def deadline_def heap')
  have queue: "queue_ok g c'"
    by (rule queue_cong [of g c]) (use ok at fields in auto)
  have "client_ok g H c'" using refs calls queue ok at by (simp add: client_ok_def)
  moreover have "\<And>q. q \<noteq> p \<Longrightarrow> heap c' q = heap c q"
      "\<And>t. heap c' p = Some t \<Longrightarrow> \<exists>s. heap c p = Some s \<and> pReply t = pReply s \<and> iStatus t = iStatus s \<and> iWon t = iWon s"
    by (auto simp: heap' s split: if_splits)
  ultimately show thesis using that [OF R _ fields] by blast
qed

text \<open>Calls that leave the queue are held by the operation that took them out.\<close>

lemma take_out_ok:
  assumes ok: "client_ok g H c" and w: "m_vWait c = ids @ rest" and n: "n = m_iSwept c - length ids"
  shows "client_ok g (ids @ H) (c\<lparr>m_vWait := rest, m_iSwept := n\<rparr>)"
proof -
  define c' where "c' = c\<lparr>m_vWait := rest, m_iSwept := n\<rparr>"
  have hold: "holders g (ids @ H) c' p = holders g H c p" for p by (simp add: holders_def c'_def w)
  have heap': "heap c' = heap c" "woken g c' = woken g c" "m_vWait c' = rest" "m_iSwept c' = n"
      "m_iReaderSessionId c' = m_iReaderSessionId c" "m_iTimeoutMilliseconds c' = m_iTimeoutMilliseconds c"
    by (simp_all add: c'_def woken_def)
  have preds: "won c' = won c" "posted c' = posted c" "unanswered c' = unanswered c" "deadline c' = deadline c"
    by (simp_all add: fun_eq_iff won_def posted_def unanswered_def deadline_def heap')
  have "set (take n rest) \<subseteq> set (take (m_iSwept c) (m_vWait c))" unfolding w n by auto
  moreover have "n \<le> length rest" using ok unfolding client_ok_def queue_ok_def w n by auto
  ultimately have "queue_ok g c'"
    using ok unfolding client_ok_def queue_ok_def heap' preds by (auto simp: w sorted_append)
  moreover have "refs_ok g (ids @ H) c'" using ok unfolding client_ok_def refs_ok_def hold heap' by blast
  moreover have "calls_ok g c'" using ok unfolding client_ok_def calls_ok_def heap' by blast
  moreover have "\<forall>p \<in> set (ids @ H). posted c' p" using ok unfolding client_ok_def queue_ok_def preds w by auto
  ultimately show ?thesis unfolding client_ok_def c'_def by blast
qed

lemma same_queue_trans: "same_queue a b \<Longrightarrow> same_queue b c \<Longrightarrow> same_queue a c"
  by (simp add: same_queue_def)

lemma same_queue_refl [simp]: "same_queue a a"
  by (simp add: same_queue_def)

lemma settle_each_ok:
  "client_ok g H c \<Longrightarrow> set ps \<subseteq> set (m_vWait c) \<Longrightarrow>
    \<exists>c'. settle_each st ps c = Some c' \<and> client_ok g H c' \<and> same_queue c c'
      \<and> (\<forall>p. deadline c' p = deadline c p \<and> (won c p \<or> p \<in> set ps \<longrightarrow> won c' p))"
proof (induction ps arbitrary: c)
  case Nil
  then show ?case by auto
next
  case (Cons p ps)
  obtain c1 s where 1: "Settle p None st c = Some c1" "client_ok g H c1" "same_queue c c1" "heap c p = Some s"
      "heap c1 = (heap c)(p \<mapsto> settled None st s)"
    using Settle_ok [OF Cons.prems(1), of p None st] Cons.prems(2) by auto
  then obtain c2 where 2: "settle_each st ps c1 = Some c2" "client_ok g H c2" "same_queue c1 c2"
      "\<forall>p. deadline c2 p = deadline c1 p \<and> (won c1 p \<or> p \<in> set ps \<longrightarrow> won c2 p)"
    using Cons.IH [of c1] Cons.prems(2) by (auto simp: same_queue_def)
  have "deadline c1 q = deadline c q \<and> (won c q \<or> q = p \<longrightarrow> won c1 q)" for q
    using 1(4) by (simp add: deadline_def won_def 1(5))
  then show ?case using 1 2 same_queue_trans [OF 1(3) 2(3)] by auto
qed

lemma settle_each_swept:
  "settle_each st ps (c\<lparr>m_iSwept := n\<rparr>) = map_option (\<lambda>c'. c'\<lparr>m_iSwept := n\<rparr>) (settle_each st ps c)"
proof (induction ps arbitrary: c)
  case (Cons p ps)
  have "Settle p None st (c\<lparr>m_iSwept := n\<rparr>) = map_option (\<lambda>c'. c'\<lparr>m_iSwept := n\<rparr>) (Settle p None st c)"
    by (simp add: Settle_def put_call_def Schedule_def Let_def split: option.split)
  then show ?case using Cons.IH by (cases "Settle p None st c") auto
qed simp

lemma expired_prefix_eq:
  "\<forall>p \<in> set ps. h p \<noteq> None \<Longrightarrow>
    expired_prefix iNow h ps = Some (takeWhile (\<lambda>p. iDeadlineMilliseconds (the (h p)) \<le> iNow) ps)"
  by (induction ps) auto

lemma fail_each_ok:
  "client_ok g (ps @ H) c \<Longrightarrow> \<exists>c'. fail_each st ps c = Some c' \<and> client_ok g H c' \<and> same_queue c c'"
proof (induction ps arbitrary: c)
  case Nil
  then show ?case by auto
next
  case (Cons p ps)
  obtain s where s: "heap c p = Some s" using held_alive [OF Cons.prems] by auto
  obtain c1 where c1: "(if \<not> iWon s then Settle p None st c else Some c) = Some c1" "client_ok g (p # (ps @ H)) c1" "same_queue c c1"
  proof (cases "iWon s")
    case True
    then show thesis using that [of c] Cons.prems by simp
  next
    case False
    then show thesis using that Settle_ok [OF Cons.prems, of p None st] by auto
  qed
  obtain c2 where c2: "Release p c1 = Some c2" "client_ok g (ps @ H) c2" "same_queue c1 c2"
    using Release_core [OF client_okD [OF c1(2)]] by metis
  obtain c3 where c3: "fail_each st ps c2 = Some c3" "client_ok g H c3" "same_queue c2 c3"
    using Cons.IH [OF c2(2)] by blast
  have "same_queue c c3" using same_queue_trans [OF c1(3) same_queue_trans [OF c2(3) c3(3)]] .
  moreover have "fail_each st (p # ps) c = Some c3" using s c1(1) c2(1) c3(1) by simp
  ultimately show ?case using c3(2) by blast
qed

lemma FailAll_ok:
  assumes "client_ok g H c"
  obtains c' where "FailAll st c = Some c'" "client_ok g H c'" "m_vWait c' = []" "m_iReaderSessionId c' = m_iReaderSessionId c"
    "sent c' = sent c"
proof -
  have "client_ok g (m_vWait c @ H) (c\<lparr>m_vWait := [], m_iSwept := 0\<rparr>)"
    using take_out_ok [OF assms, of "m_vWait c" "[]" 0] assms by (simp add: client_ok_def queue_ok_def)
  from fail_each_ok [OF this] show thesis using that by (auto simp: FailAll_def same_queue_def)
qed

lemma sent_ok: "client_ok g H c \<Longrightarrow> client_ok g H (c\<lparr>sent := xs\<rparr>)"
proof -
  have "holders g H (c\<lparr>sent := xs\<rparr>) = holders g H c" "woken g (c\<lparr>sent := xs\<rparr>) = woken g c"
      "posted (c\<lparr>sent := xs\<rparr>) = posted c" "won (c\<lparr>sent := xs\<rparr>) = won c"
      "unanswered (c\<lparr>sent := xs\<rparr>) = unanswered c" "deadline (c\<lparr>sent := xs\<rparr>) = deadline c"
    by (simp_all add: fun_eq_iff holders_def woken_def posted_def won_def unanswered_def deadline_def)
  then show "client_ok g H c \<Longrightarrow> client_ok g H (c\<lparr>sent := xs\<rparr>)" by (simp add: client_ok_def refs_ok_def calls_ok_def queue_ok_def)
qed

lemma reader_ok:
  assumes "client_ok g H c" "m_vWait c = []" shows "client_ok g H (c\<lparr>m_iReaderSessionId := sid\<rparr>)"
proof -
  have "holders g H (c\<lparr>m_iReaderSessionId := sid\<rparr>) = holders g H c" "woken g (c\<lparr>m_iReaderSessionId := sid\<rparr>) = woken g c"
      "posted (c\<lparr>m_iReaderSessionId := sid\<rparr>) = posted c"
    by (simp_all add: fun_eq_iff holders_def woken_def posted_def)
  then show ?thesis using assms by (simp add: client_ok_def refs_ok_def calls_ok_def queue_ok_def)
qed

lemma swept_ok:
  assumes "client_ok g H c" "n \<le> length (m_vWait c)" "\<And>p. p \<in> set (take n (m_vWait c)) \<Longrightarrow> won c p"
  shows "client_ok g H (c\<lparr>m_iSwept := n\<rparr>)"
proof -
  have "holders g H (c\<lparr>m_iSwept := n\<rparr>) = holders g H c" "woken g (c\<lparr>m_iSwept := n\<rparr>) = woken g c"
      "posted (c\<lparr>m_iSwept := n\<rparr>) = posted c" "won (c\<lparr>m_iSwept := n\<rparr>) = won c"
      "unanswered (c\<lparr>m_iSwept := n\<rparr>) = unanswered c" "deadline (c\<lparr>m_iSwept := n\<rparr>) = deadline c"
    by (simp_all add: fun_eq_iff holders_def woken_def posted_def won_def unanswered_def deadline_def)
  then show ?thesis using assms by (simp add: client_ok_def refs_ok_def calls_ok_def queue_ok_def)
qed

lemma takeWhile_sorted_mem:
  "sorted (map f xs) \<Longrightarrow> \<forall>x \<in> set xs. P x = (f x \<le> (b :: int)) \<Longrightarrow> x \<in> set xs \<Longrightarrow> f x \<le> b \<Longrightarrow> x \<in> set (takeWhile P xs)"
  by (induction xs) (auto intro: order_trans)

lemma SweepTimeout_ok:
  assumes ok: "client_ok g H c"
  obtains c' where "SweepTimeout iNow c = Some c'" "client_ok g H c'" "m_vWait c' = m_vWait c"
    "m_iReaderSessionId c' = m_iReaderSessionId c" "\<forall>p \<in> set (m_vWait c). deadline c p \<le> iNow \<longrightarrow> won c' p"
    "sent c' = sent c"
proof -
  define rest where "rest = drop (m_iSwept c) (m_vWait c)"
  define ex where "ex = takeWhile (\<lambda>p. iDeadlineMilliseconds (the (heap c p)) \<le> iNow) rest"
  have q: "distinct (m_vWait c)" "m_iSwept c \<le> length (m_vWait c)" "\<forall>p \<in> set (take (m_iSwept c) (m_vWait c)). won c p"
      "sorted (map (deadline c) (m_vWait c))" using ok by (simp_all add: client_ok_def queue_ok_def)
  have rest: "set rest \<subseteq> set (m_vWait c)" by (simp add: rest_def set_drop_subset)
  have alive: "\<forall>p \<in> set (m_vWait c). heap c p \<noteq> None" using held_alive [OF ok] by blast
  then have ex: "expired_prefix iNow (heap c) rest = Some ex"
    using expired_prefix_eq [of rest "heap c" iNow] rest by (auto simp: ex_def)
  have sub: "set ex \<subseteq> set (m_vWait c)" using rest set_takeWhileD unfolding ex_def by fast
  obtain c1 where c1: "settle_each Timeout ex c = Some c1" "client_ok g H c1" "same_queue c c1"
      "\<forall>p. deadline c1 p = deadline c p \<and> (won c p \<or> p \<in> set ex \<longrightarrow> won c1 p)"
    using settle_each_ok [OF ok sub] by blast
  define n where "n = m_iSwept c + length ex"
  have S: "SweepTimeout iNow c = Some (c1\<lparr>m_iSwept := n\<rparr>)"
    using ex c1(1) by (simp add: SweepTimeout_def settle_each_swept rest_def n_def)
  have W: "m_vWait c = take (m_iSwept c) (m_vWait c) @ rest" by (simp add: rest_def)
  have n: "n \<le> length (m_vWait c)" using length_takeWhile_le q(2) by (metis (no_types) W add_le_cancel_left ex_def length_append length_take min.absorb2 n_def)
  have tk: "take n (m_vWait c) = take (m_iSwept c) (m_vWait c) @ ex"
    by (subst W) (use q(2) takeWhile_eq_take [of _ rest] in \<open>simp add: n_def ex_def\<close>)
  have won1: "won c1 p" if "p \<in> set (take n (m_vWait c))" for p using that c1(4) q(3) unfolding tk by auto
  then have "client_ok g H (c1\<lparr>m_iSwept := n\<rparr>)" using swept_ok [OF c1(2)] n c1(3) by (simp add: same_queue_def)
  moreover have "won c1 p" if p: "p \<in> set (m_vWait c)" "deadline c p \<le> iNow" for p
  proof (cases "p \<in> set rest")
    case True
    have "p \<in> set ex" unfolding ex_def
    proof (rule takeWhile_sorted_mem [OF _ _ True])
      show "sorted (map (deadline c) rest)" using q(4) W by (metis map_append sorted_append)
      show "\<forall>p \<in> set rest. (iDeadlineMilliseconds (the (heap c p)) \<le> iNow) = (deadline c p \<le> iNow)"
        using alive rest by (fastforce simp: deadline_def)
      show "deadline c p \<le> iNow" by (fact p)
    qed
    then show ?thesis using c1(4) by blast
  next
    case False
    then show ?thesis using p(1) q(3) c1(4) W by (metis Un_iff set_append)
  qed
  moreover have "won (c1\<lparr>m_iSwept := n\<rparr>) = won c1" by (simp add: fun_eq_iff won_def)
  ultimately show thesis using that [OF S] c1(3) by (simp add: same_queue_def)
qed

lemma OnClientDisconnect_ok:
  assumes ok: "client_ok g H c"
  obtains c' where "OnClientDisconnect sid c = Some c'" "client_ok g H c'"
    "m_iReaderSessionId c' = (if m_iReaderSessionId c = sid then INVALID_SID else m_iReaderSessionId c)"
    "m_vWait c' = (if m_iReaderSessionId c = sid then [] else m_vWait c)" "sent c' = sent c"
proof -
  have alive: "\<forall>p \<in> set (m_vWait c). heap c p \<noteq> None" using held_alive [OF ok] by blast
  have sess: "\<forall>p \<in> set (m_vWait c). of_session (m_iReaderSessionId c) (heap c) p"
    using ok by (simp add: client_ok_def queue_ok_def)
  show thesis
  proof (cases "m_iReaderSessionId c = sid")
    case True
    define c0 where "c0 = c\<lparr>m_vWait := [], m_iSwept := 0, m_iReaderSessionId := INVALID_SID\<rparr>"
    have "client_ok g (m_vWait c @ H) (c\<lparr>m_vWait := [], m_iSwept := 0\<rparr>)"
      using take_out_ok [OF ok, of "m_vWait c" "[]" 0] ok by (simp add: client_ok_def queue_ok_def)
    from reader_ok [OF this] have "client_ok g (m_vWait c @ H) c0" by (simp add: c0_def)
    from fail_each_ok [OF this, of Disconnected] obtain c' where
      c': "fail_each Disconnected (m_vWait c) c0 = Some c'" "client_ok g H c'" "same_queue c0 c'" by blast
    have f: "filter (of_session sid (heap c)) (m_vWait c) = m_vWait c" "filter (\<lambda>p. \<not> of_session sid (heap c) p) (m_vWait c) = []"
        "filter (\<lambda>p. \<not> of_session sid (heap c) p) (take (m_iSwept c) (m_vWait c)) = []"
      using sess True by (auto simp: filter_id_conv filter_empty_conv dest: in_set_takeD)
    have comm: "c\<lparr>m_iReaderSessionId := INVALID_SID, m_vWait := [], m_iSwept := 0\<rparr> = c0" by (cases c) (simp add: c0_def)
    have none: "(\<exists>p \<in> set (m_vWait c). heap c p = None) = False" using alive by blast
    have "OnClientDisconnect sid c = fail_each Disconnected (m_vWait c) c0"
      using True by (simp add: OnClientDisconnect_def FailSid_def f comm none)
    then show thesis using that c' True by (simp add: same_queue_def c0_def)
  next
    case False
    have "\<forall>p \<in> set (m_vWait c). \<not> of_session sid (heap c) p"
      using sess False by (auto simp: of_session_def split: option.splits)
    then have f: "filter (of_session sid (heap c)) (m_vWait c) = []" "filter (\<lambda>p. \<not> of_session sid (heap c) p) (m_vWait c) = m_vWait c"
        "filter (\<lambda>p. \<not> of_session sid (heap c) p) (take (m_iSwept c) (m_vWait c)) = take (m_iSwept c) (m_vWait c)"
      by (auto simp: filter_id_conv filter_empty_conv dest: in_set_takeD)
    have "m_iSwept c \<le> length (m_vWait c)" using ok by (simp add: client_ok_def queue_ok_def)
    moreover have none: "(\<exists>p \<in> set (m_vWait c). heap c p = None) = False" using alive by blast
    ultimately have "OnClientDisconnect sid c = Some c"
      using False by (simp add: OnClientDisconnect_def FailSid_def f min_absorb2 none)
    then show thesis using that ok False by simp
  qed
qed

text \<open>The reply that Redis gave to a command that nobody has been told about yet.\<close>

lemma own_ok:
  assumes ok: "client_ok g H c" and u: "unanswered c p"
  shows "client_ok (g\<lparr>own := (own g)(p \<mapsto> r)\<rparr>) H c"
proof -
  define g' where "g' = g\<lparr>own := (own g)(p \<mapsto> r)\<rparr>"
  have g': "mid g' = mid g" "woken g' c = woken g c" "clock_ms g' = clock_ms g" "own g' = (own g)(p \<mapsto> r)" "holders g' H c = holders g H c"
    by (simp_all add: g'_def woken_def fun_eq_iff holders_def)
  have "reply_ok (own g' q) s" if "heap c q = Some s" for q s
    using ok u that by (cases "q = p") (auto simp: client_ok_def calls_ok_def g' unanswered_def reply_ok_def)
  then have "calls_ok g' c" using ok by (auto simp: client_ok_def calls_ok_def g')
  moreover have "refs_ok g' H c" "queue_ok g' c" using ok by (auto simp: client_ok_def refs_ok_def queue_ok_def g')
  ultimately show ?thesis using ok by (simp add: client_ok_def g'_def)
qed

lemma feed_reply_ok:
  assumes ok: "client_ok g H c" and w: "m_vWait c = p # ps"
  obtains c' where "feed_reply r c = Some c'" "client_ok (g\<lparr>own := (own g)(p \<mapsto> r)\<rparr>) H c'" "m_vWait c' = ps"
    "m_iReaderSessionId c' = m_iReaderSessionId c" "sent c' = sent c"
proof -
  define g' where "g' = g\<lparr>own := (own g)(p \<mapsto> r)\<rparr>"
  define c1 where "c1 = c\<lparr>m_vWait := ps, m_iSwept := m_iSwept c - 1\<rparr>"
  have n: "(if m_iSwept c > 0 then m_iSwept c - 1 else 0) = m_iSwept c - 1" by simp
  have d: "p \<notin> set ps" "unanswered c p" using ok w by (simp_all add: client_ok_def queue_ok_def)
  have "client_ok g (p # H) c1" using take_out_ok [OF ok, of "[p]" ps] w by (simp add: c1_def)
  then have ok1: "client_ok g' (p # H) c1"
    unfolding g'_def by (rule own_ok) (use d in \<open>simp add: unanswered_def c1_def\<close>)
  obtain s where s: "heap c1 p = Some s" using held_alive [OF ok1] by auto
  obtain c2 where c2: "(if \<not> iWon s then Settle p (Some r) (if is_error r then ServerError else Ok) c1 else Some c1) = Some c2"
      "client_ok g' (p # H) c2" "same_queue c1 c2"
  proof (cases "iWon s")
    case True
    then show thesis using that [of c1] ok1 by simp
  next
    case False
    show thesis
      by (rule Settle_ok [OF ok1, of p "Some r" "if is_error r then ServerError else Ok"])
        (use False that d in \<open>auto simp: g'_def c1_def\<close>)
  qed
  obtain c3 where c3: "Release p c2 = Some c3" "client_ok g' H c3" "same_queue c2 c3" using Release_core [OF client_okD [OF c2(2)]] by metis
  have "feed_reply r c = Some c3" 
    unfolding feed_reply_def w list.case n Let_def c1_def [symmetric] using s c2(1) c3(1) by simp
  moreover have "m_vWait c3 = ps" "m_iReaderSessionId c3 = m_iReaderSessionId c" "sent c3 = sent c"
    using c2(3) c3(3) by (simp_all add: same_queue_def c1_def)
  ultimately show thesis using that c3(2) g'_def by blast
qed

text \<open>The replies belong to the commands in the order in which these were sent.\<close>

fun answer :: "nat list \<Rightarrow> redisReply list \<Rightarrow> (nat \<Rightarrow> redisReply option) \<Rightarrow> nat \<Rightarrow> redisReply option" where
  "answer (p # ps) (r # rs) a = answer ps rs (a(p \<mapsto> r))"
| "answer [] rs a = a"
| "answer (p # ps) [] a = a"

lemma feed_replies_ok:
  "client_ok g H c \<Longrightarrow> length rs \<le> length (m_vWait c) \<Longrightarrow>
    \<exists>c'. feed_replies rs c = Some c' \<and> client_ok (g\<lparr>own := answer (m_vWait c) rs (own g)\<rparr>) H c'
      \<and> m_vWait c' = drop (length rs) (m_vWait c) \<and> m_iReaderSessionId c' = m_iReaderSessionId c
      \<and> sent c' = sent c"
proof (induction rs arbitrary: g c)
  case Nil
  have "answer (m_vWait c) [] (own g) = own g" by (cases "m_vWait c") simp_all
  then show ?case using Nil by simp
next
  case (Cons r rs)
  obtain p ps where w: "m_vWait c = p # ps" using Cons.prems(2) by (cases "m_vWait c") auto
  obtain c1 where c1: "feed_reply r c = Some c1" "client_ok (g\<lparr>own := (own g)(p \<mapsto> r)\<rparr>) H c1" "m_vWait c1 = ps"
      "m_iReaderSessionId c1 = m_iReaderSessionId c" "sent c1 = sent c" using feed_reply_ok [OF Cons.prems(1) w, of r] by blast
  show ?case using Cons.IH [OF c1(2)] c1 Cons.prems(2) w by (simp add: fun_upd_def)
qed


lemma add_reference_ok:
  assumes ok: "client_ok g H c" and s: "heap c p = Some s" and post: "posted c p"
  shows "client_ok g (p # H) (put_call p (s\<lparr>iReferences := iReferences s + 1\<rparr>) c)"
proof -
  define c' where "c' = put_call p (s\<lparr>iReferences := iReferences s + 1\<rparr>) c"
  have f: "same_queue c c'" "woken g c' = woken g c" "m_vWait c' = m_vWait c"
    and heap': "heap c' = (heap c)(p \<mapsto> s\<lparr>iReferences := iReferences s + 1\<rparr>)"
    by (simp_all add: c'_def put_call_def same_queue_def woken_def)
  have h: "map_option iReferences (heap c q) = (if holders g H c q = 0 then None else Some (holders g H c q))" for q
    using ok by (simp add: client_ok_def refs_ok_def)
  have "refs_ok g (p # H) c'" unfolding refs_ok_def
  proof
    fix q
    show "map_option iReferences (heap c' q) = (if holders g (p # H) c' q = 0 then None else Some (holders g (p # H) c' q))"
      using h [of q] s by (cases "q = p") (auto simp: heap' holders_def f split: if_splits)
  qed
  moreover have "calls_ok g c'"
    using ok s unfolding client_ok_def calls_ok_def f heap' by auto
  moreover have at: "won c' q = won c q \<and> posted c' q = posted c q \<and> unanswered c' q = unanswered c q
      \<and> deadline c' q = deadline c q \<and> of_session sid (heap c') q = of_session sid (heap c) q" for q sid
    using s by (simp add: won_def posted_def unanswered_def deadline_def of_session_def heap')
  moreover have "queue_ok g c'"
    by (rule queue_cong [of g c]) (use ok at f in \<open>auto simp: client_ok_def\<close>)
  ultimately show ?thesis using ok post unfolding c'_def [symmetric] by (simp add: client_ok_def)
qed

lemma stamp_ok:
  assumes ok: "client_ok g H c" and s: "heap c p = Some s" and p: "p \<notin> set (m_vWait c)"
  shows "client_ok g H (put_call p (s\<lparr>iDeadlineMilliseconds := d, iSessionId := sid\<rparr>) c)"
proof -
  define t where "t = s\<lparr>iDeadlineMilliseconds := d, iSessionId := sid\<rparr>"
  define c' where "c' = put_call p t c"
  have f: "same_queue c c'" "woken g c' = woken g c" "m_vWait c' = m_vWait c" "holders g H c' = holders g H c"
    and heap': "heap c' = (heap c)(p \<mapsto> t)"
    by (simp_all add: c'_def put_call_def same_queue_def woken_def holders_def fun_eq_iff)
  have t: "gate_ok M W q t = gate_ok M W q s" "reply_ok a t = reply_ok a s" for M W q a
    by (simp_all add: t_def gate_ok_def reply_ok_def)
  have "refs_ok g H c'"
    by (rule refs_cong [of g H c]) (use ok s f in \<open>auto simp: client_ok_def heap' t_def\<close>)
  moreover have "calls_ok g c'" using ok s unfolding client_ok_def calls_ok_def f heap' by (auto simp: t)
  moreover have at: "posted c' q = posted c q" for q using s by (simp add: posted_def heap' t_def)
  moreover have "queue_ok g c'"
    by (rule queue_cong [of g c])
      (use ok f p in \<open>auto simp: client_ok_def won_def posted_def unanswered_def deadline_def of_session_def heap'\<close>)
  ultimately show ?thesis using ok by (simp add: client_ok_def flip: c'_def t_def)
qed

lemma push_ok:
  assumes ok: "client_ok g (p # H) c" and p: "p \<notin> set (m_vWait c)" "unanswered c p"
    and sess: "of_session (m_iReaderSessionId c) (heap c) p" "m_iReaderSessionId c \<noteq> INVALID_SID"
    and d: "deadline c p = clock_ms g + m_iTimeoutMilliseconds c"
  shows "client_ok g H (c\<lparr>m_vWait := m_vWait c @ [p]\<rparr>)"
proof -
  define c' where "c' = c\<lparr>m_vWait := m_vWait c @ [p]\<rparr>"
  have f: "holders g H c' = holders g (p # H) c" "woken g c' = woken g c" "heap c' = heap c" "m_vWait c' = m_vWait c @ [p]"
      "m_iSwept c' = m_iSwept c" "m_iReaderSessionId c' = m_iReaderSessionId c" "m_iTimeoutMilliseconds c' = m_iTimeoutMilliseconds c"
      "won c' = won c" "posted c' = posted c" "unanswered c' = unanswered c" "deadline c' = deadline c"
    by (simp_all add: c'_def fun_eq_iff holders_def woken_def won_def posted_def unanswered_def deadline_def)
  have "queue_ok g c'" using ok p sess d unfolding client_ok_def queue_ok_def f by (auto simp: sorted_append)
  then show ?thesis using ok by (simp add: client_ok_def refs_ok_def calls_ok_def f flip: c'_def)
qed

lemma clock_ok: "client_ok g H c \<Longrightarrow> clock_ms g \<le> t \<Longrightarrow> client_ok (g\<lparr>clock_ms := t\<rparr>) H c"
  using queue_cong [of g c c "g\<lparr>clock_ms := t\<rparr>"]
  by (simp add: client_ok_def refs_ok_def calls_ok_def holders_def woken_def)


lemma Settle_held:
  assumes "client_ok g (p # H) c"
  obtains c' where "Settle p None st c = Some c'" "client_ok g (p # H) c'" "m_vWait c' = m_vWait c"
    "m_iReaderSessionId c' = m_iReaderSessionId c" "won c' p" "sent c' = sent c"
  by (rule Settle_ok [OF assms, of p None st]) (use that in \<open>auto simp: same_queue_def won_def\<close>)

lemma takeWhile_neq_snoc: "p \<notin> set xs \<Longrightarrow> takeWhile (\<lambda>q. q \<noteq> p) (xs @ [p]) = xs"
  by (induction xs) auto

lemma Enqueue_ok:
  assumes ok: "client_ok g (p # H) c" and p: "p \<notin> set (m_vWait c)" "\<not> won c p"
    and now: "clock_ms g = NowMs E"
  obtains c' where "Enqueue E p c = Some c'" "client_ok g (p # H) c'" "m_iReaderSessionId c' = m_iReaderSessionId c"
    "m_vWait c' = m_vWait c \<and> won c' p \<and> sent c' = sent c
      \<or> m_vWait c' = m_vWait c @ [p] \<and> sent c' = sent c @ [p] \<and> m_iReaderSessionId c \<noteq> INVALID_SID"
proof -
  obtain s where s: "heap c p = Some s" using held_alive [OF ok] by auto
  define s1 where "s1 = s\<lparr>iDeadlineMilliseconds := NowMs E + m_iTimeoutMilliseconds c\<rparr>"
  define c1 where "c1 = put_call p s1 c"
  have s1: "s1 = s\<lparr>iDeadlineMilliseconds := NowMs E + m_iTimeoutMilliseconds c, iSessionId := iSessionId s\<rparr>" by (simp add: s1_def)
  have ok1: "client_ok g (p # H) c1" unfolding c1_def s1 by (rule stamp_ok [OF ok s p(1)])
  have f1: "m_vWait c1 = m_vWait c" "m_iReaderSessionId c1 = m_iReaderSessionId c" "sent c1 = sent c" "heap c1 = (heap c)(p \<mapsto> s1)"
      "m_iTimeoutMilliseconds c1 = m_iTimeoutMilliseconds c"
    by (simp_all add: c1_def put_call_def)
  define c2 where "c2 = put_call p (s1\<lparr>iSessionId := m_iReaderSessionId c, iReferences := iReferences s1 + 1\<rparr>) c1"
  define t where "t = s\<lparr>iDeadlineMilliseconds := NowMs E + m_iTimeoutMilliseconds c, iSessionId := m_iReaderSessionId c\<rparr>"
  have okt: "client_ok g (p # H) (put_call p t c)" unfolding t_def by (rule stamp_ok [OF ok s p(1)])
  have c2: "c2 = put_call p (t\<lparr>iReferences := iReferences t + 1\<rparr>) (put_call p t c)"
    by (simp add: c2_def c1_def put_call_def t_def s1_def)
  have okr: "client_ok g (p # p # H) c2"
    unfolding c2 by (rule add_reference_ok [OF okt]) (use okt in \<open>auto simp: put_call_def client_ok_def\<close>)
  have f2: "m_vWait c2 = m_vWait c" "m_iReaderSessionId c2 = m_iReaderSessionId c" "m_iSwept c2 = m_iSwept c" "sent c2 = sent c"
      "m_iTimeoutMilliseconds c2 = m_iTimeoutMilliseconds c"
      "heap c2 = (heap c)(p \<mapsto> t\<lparr>iReferences := iReferences t + 1\<rparr>)"
    by (simp_all add: c2 put_call_def)
  define c3 where "c3 = c2\<lparr>m_vWait := m_vWait c2 @ [p]\<rparr>"
  have un: "pReply s = None" using ok s p(2) by (auto simp: client_ok_def calls_ok_def reply_ok_def won_def)
  have ok3: "client_ok g (p # H) c3" if "m_iReaderSessionId c \<noteq> INVALID_SID"
    unfolding c3_def by (rule push_ok [OF okr])
      (use that p un now in \<open>auto simp: f2 unanswered_def of_session_def deadline_def t_def\<close>)
  have sw: "m_iSwept c \<le> length (m_vWait c)" using ok by (simp add: client_ok_def queue_ok_def)
  have "takeWhile (\<lambda>q. q \<noteq> p) (m_vWait c2 @ [p]) = m_vWait c2" "p \<notin> set (m_vWait c2)" "\<not> length (m_vWait c2) < m_iSwept c2"
    using p(1) sw by (simp_all add: f2 takeWhile_neq_snoc)
  then have rm: "remove_wait p c3 = c2"
    by (cases c2) (simp add: remove_wait_def c3_def remove1_append)
  define early where "early st = (Enqueue E p c = Settle p None st c)" for st
  have eq: "Enqueue E p c = (if vArguments s = [] then Settle p None InvalidArgument c
      else if StopRequested E \<or> m_iReaderSessionId c = INVALID_SID \<or> ConnectedSid E \<noteq> m_iReaderSessionId c
      then Settle p None Disconnected c
      else if FormatCommand E (vArguments s) = None then Settle p None InvalidArgument c
      else if \<not> ArmRedisSweep E then Settle p None SendFailed c
      else if \<not> length (m_vWait c) < m_iMaxPending c1 then Settle p None Busy c1
      else if SendBytesResult E \<noteq> OI_OK
      then Settle p None (send_status (SendBytesResult E)) (remove_wait p c3) \<bind> Release p
      else Some (c3\<lparr>sent := sent c3 @ [p]\<rparr>))"
    unfolding Enqueue_def Let_def s Option.bind.bind_lunit s1_def [symmetric] c1_def [symmetric] f1 c2_def [symmetric] c3_def [symmetric]
    by (rule refl)
  consider (early) st where "early st"
    | (full) "Enqueue E p c = Settle p None Busy c1"
    | (failed) st where "Enqueue E p c = Settle p None st (remove_wait p c3) \<bind> Release p"
    | (sent) "Enqueue E p c = Some (c3\<lparr>sent := sent c3 @ [p]\<rparr>)" "m_iReaderSessionId c \<noteq> INVALID_SID"
  proof -
    have "\<exists>st. early st" if "vArguments s = [] \<or> StopRequested E \<or> m_iReaderSessionId c = INVALID_SID
        \<or> ConnectedSid E \<noteq> m_iReaderSessionId c \<or> FormatCommand E (vArguments s) = None \<or> \<not> ArmRedisSweep E"
    proof -
      have "early InvalidArgument \<or> early Disconnected \<or> early SendFailed" using that by (auto simp: early_def eq)
      then show ?thesis by blast
    qed
    then show thesis using that eq by (auto split: if_splits)
  qed
  then show thesis
  proof cases
    case early
    then show thesis using that Settle_held [OF ok] unfolding early_def by metis
  next
    case full
    then show thesis using that Settle_held [OF ok1, of Busy] f1 by metis
  next
    case (failed st)
    obtain c4 where c4: "Settle p None st c2 = Some c4" "client_ok g (p # p # H) c4" "m_vWait c4 = m_vWait c"
        "m_iReaderSessionId c4 = m_iReaderSessionId c" "won c4 p" "sent c4 = sent c"
      using Settle_held [OF okr, of st] f2 by metis
    obtain c5 where c5: "Release p c4 = Some c5" "client_ok g (p # H) c5" "same_queue c4 c5"
      "\<And>t. heap c5 p = Some t \<Longrightarrow> \<exists>s. heap c4 p = Some s \<and> pReply t = pReply s \<and> iStatus t = iStatus s \<and> iWon t = iWon s"
      using Release_core [OF client_okD [OF c4(2)]] by metis
    obtain s5 where "heap c5 p = Some s5" using held_alive [OF c5(2)] by auto
    then have "won c5 p" using c5(4) c4(5) by (fastforce simp: won_def)
    then show thesis using that [of c5] failed c4 c5 by (simp add: rm same_queue_def)
  next
    case sent
    then show thesis using that [of "c3\<lparr>sent := sent c3 @ [p]\<rparr>"] sent_ok [OF ok3] by (simp add: c3_def f2)
  qed
qed

lemma Submit_ok:
  assumes ok: "client_ok g H c" and p: "p \<in> callers g" "p \<notin> set (m_vWait c)" "\<not> won c p" "posted c p"
    and now: "clock_ms g = NowMs E"
  obtains c' where "Submit E p c = Some c'" "client_ok g H c'" "m_iReaderSessionId c' = m_iReaderSessionId c"
    "m_vWait c' = m_vWait c \<and> won c' p \<and> sent c' = sent c
      \<or> m_vWait c' = m_vWait c @ [p] \<and> sent c' = sent c @ [p] \<and> m_iReaderSessionId c \<noteq> INVALID_SID"
proof -
  obtain s where s: "heap c p = Some s" using held_alive [OF ok] p(1) by auto
  define c1 where "c1 = put_call p (s\<lparr>iReferences := iReferences s + 1\<rparr>) c"
  have ok1: "client_ok g (p # H) c1" unfolding c1_def by (rule add_reference_ok [OF ok s p(4)])
  have f1: "m_vWait c1 = m_vWait c" "m_iReaderSessionId c1 = m_iReaderSessionId c" "\<not> won c1 p" "sent c1 = sent c"
    using p(3) s by (simp_all add: c1_def put_call_def won_def)
  obtain c2 where c2: "Enqueue E p c1 = Some c2" "client_ok g (p # H) c2" "m_iReaderSessionId c2 = m_iReaderSessionId c"
    "m_vWait c2 = m_vWait c \<and> won c2 p \<and> sent c2 = sent c
      \<or> m_vWait c2 = m_vWait c @ [p] \<and> sent c2 = sent c @ [p] \<and> m_iReaderSessionId c \<noteq> INVALID_SID"
    using Enqueue_ok [OF ok1 _ f1(3) now] p(2) f1 by metis
  obtain c3 where c3: "Release p c2 = Some c3" "client_ok g H c3" "same_queue c2 c3"
    "\<And>t. heap c3 p = Some t \<Longrightarrow> \<exists>s. heap c2 p = Some s \<and> pReply t = pReply s \<and> iStatus t = iStatus s \<and> iWon t = iWon s"
    using Release_core [OF client_okD [OF c2(2)]] by metis
  obtain s3 where s3: "heap c3 p = Some s3" using held_alive [OF c3(2)] p(1) by auto
  have "won c3 p = won c2 p" using c3(4) [OF s3] s3 by (auto simp: won_def)
  moreover have "Submit E p c = Some c3" using s c2(1) c3(1) by (simp add: Submit_def AddReference_def c1_def)
  ultimately show thesis using that c2 c3 by (simp add: same_queue_def)
qed

section \<open>Runs\<close>

text \<open>
  The client with its callers, the poll loop's queue and the connection. \<open>answered\<close> counts the replies
  that have arrived on the current connection and \<open>broken\<close> says that its reader is in error.
\<close>

record world =
  cl :: client
  gh :: ghost
  loopq :: "nat list"
  answered :: nat
  broken :: bool
  fresh :: nat

datatype redis_event =
    NewCall "string list" bool
  | Post nat bool
  | Gate nat
  | RunSubmit nat surroundings
  | Sweep int
  | Data int bool "redisReply list" bool
  | Connect int
  | Disconnect int
  | Stop
  | Drop nat

definition flag :: "(call \<Rightarrow> bool) \<Rightarrow> world \<Rightarrow> nat \<Rightarrow> bool" where
  "flag f w p = (case heap (cl w) p of None \<Rightarrow> False | Some s \<Rightarrow> f s)"

text \<open>
  When an event can happen. A caller awaits and drops its own call, and drops it only when it is not
  suspended (an awaited call has been woken, a blocking one is ready). The clock is monotonic. Redis
  answers the commands of a connection in order, one reply each, and a reader in error accepts no more.
\<close>

fun enabled :: "redis_event \<Rightarrow> world \<Rightarrow> bool" where
  "enabled (NewCall args sync) w = True"
| "enabled (Post p stop) w = (p \<in> callers (gh w) \<and> \<not> flag bSynchronous w p)"
| "enabled (Gate p) w = (p \<in> mid (gh w))"
| "enabled (RunSubmit p E) w = (p \<in> set (loopq w) \<and> clock_ms (gh w) \<le> NowMs E)"
| "enabled (Sweep iNow) w = (clock_ms (gh w) \<le> iNow)"
| "enabled (Data sid bFed rs bOk) w = ((broken w \<longrightarrow> \<not> bFed) \<and> length rs + answered w \<le> length (sent (cl w)))"
| "enabled (Connect sid) w = (sid \<noteq> INVALID_SID)"
| "enabled (Disconnect sid) w = True"
| "enabled Stop w = True"
| "enabled (Drop p) w = (p \<in> callers (gh w) \<and> p \<notin> set (loopq w) \<and> p \<notin> mid (gh w)
    \<and> (flag bSynchronous w p \<longrightarrow> flag bReady w p)
    \<and> (\<not> flag bSynchronous w p \<and> flag bAwaitStarted w p \<longrightarrow> p \<in> set (woken (gh w) (cl w))))"

text \<open>What happens; \<open>None\<close> is an access to a freed call state.\<close>

fun happen :: "redis_event \<Rightarrow> world \<Rightarrow> world option" where
  "happen (NewCall args sync) w = Some (w\<lparr>
      cl := put_call (fresh w) (State args sync) (cl w),
      gh := (gh w)\<lparr>callers := insert (fresh w) (callers (gh w))\<rparr>,
      loopq := (if sync then loopq w @ [fresh w] else loopq w),
      fresh := fresh w + 1\<rparr>)"
| "happen (Post p stop) w = do {
      (k, c) \<leftarrow> Suspend_post stop p (cl w);
      Some (case k of
          Throws \<Rightarrow> w\<lparr>cl := c\<rparr>
        | Continues \<Rightarrow> w\<lparr>cl := c, gh := (gh w)\<lparr>resumed := resumed (gh w) @ [p]\<rparr>\<rparr>
        | Posted \<Rightarrow> w\<lparr>cl := c, gh := (gh w)\<lparr>mid := insert p (mid (gh w))\<rparr>, loopq := loopq w @ [p]\<rparr>)
    }"
| "happen (Gate p) w = do {
      (b, c) \<leftarrow> Suspend_gate p (cl w);
      Some (w\<lparr>cl := c, gh := (gh w)\<lparr>mid := mid (gh w) - {p},
        resumed := (if b then resumed (gh w) else resumed (gh w) @ [p])\<rparr>\<rparr>)
    }"
| "happen (RunSubmit p E) w = do {
      c \<leftarrow> Submit E p (cl w);
      Some (w\<lparr>cl := c, gh := (gh w)\<lparr>clock_ms := NowMs E\<rparr>, loopq := remove1 p (loopq w)\<rparr>)
    }"
| "happen (Sweep iNow) w = do {
      c \<leftarrow> SweepTimeout iNow (cl w);
      Some (w\<lparr>cl := c, gh := (gh w)\<lparr>clock_ms := iNow\<rparr>\<rparr>)
    }"
| "happen (Data sid bFed rs bOk) w = do {
      c \<leftarrow> Feed sid bFed rs bOk (cl w);
      Some (if sid \<noteq> m_iReaderSessionId (cl w) \<or> sid = INVALID_SID then w\<lparr>cl := c\<rparr>
        else if \<not> bFed then w\<lparr>cl := c, broken := True\<rparr>
        else w\<lparr>cl := c, gh := (gh w)\<lparr>own := answer (drop (answered w) (sent (cl w))) rs (own (gh w))\<rparr>,
          answered := answered w + length rs, broken := \<not> bOk\<rparr>)
    }"
| "happen (Connect sid) w = do {
      c \<leftarrow> OnClientConnect sid (cl w);
      Some (w\<lparr>cl := c, answered := 0, broken := False\<rparr>)
    }"
| "happen (Disconnect sid) w = do {
      c \<leftarrow> OnClientDisconnect sid (cl w);
      Some (w\<lparr>cl := c\<rparr>)
    }"
| "happen Stop w = do {
      c \<leftarrow> OnStop (cl w);
      Some (w\<lparr>cl := c\<rparr>)
    }"
| "happen (Drop p) w = do {
      c \<leftarrow> Release p (cl w);
      Some (w\<lparr>cl := c, gh := (gh w)\<lparr>callers := callers (gh w) - {p}\<rparr>\<rparr>)
    }"

definition world_ok :: "world \<Rightarrow> bool" where
  "world_ok w \<longleftrightarrow> client_ok (gh w) [] (cl w)
    \<and> distinct (loopq w) \<and> set (loopq w) \<subseteq> callers (gh w) - set (m_vWait (cl w))
    \<and> (\<forall>p \<in> set (loopq w). posted (cl w) p \<and> \<not> won (cl w) p)
    \<and> mid (gh w) \<subseteq> callers (gh w)
    \<and> (\<forall>p. fresh w \<le> p \<longrightarrow> heap (cl w) p = None \<and> p \<notin> set (woken (gh w) (cl w)))
    \<and> (m_iReaderSessionId (cl w) \<noteq> INVALID_SID \<and> \<not> broken w \<longrightarrow>
        m_vWait (cl w) = drop (answered w) (sent (cl w)) \<and> answered w \<le> length (sent (cl w)))"

lemma world_okI:
  assumes "client_ok (gh w) [] (cl w)" "distinct (loopq w)" "set (loopq w) \<subseteq> callers (gh w) - set (m_vWait (cl w))"
    "\<And>p. p \<in> set (loopq w) \<Longrightarrow> posted (cl w) p \<and> \<not> won (cl w) p" "mid (gh w) \<subseteq> callers (gh w)"
    "\<And>p. fresh w \<le> p \<Longrightarrow> heap (cl w) p = None \<and> p \<notin> set (woken (gh w) (cl w))"
    "m_iReaderSessionId (cl w) \<noteq> INVALID_SID \<Longrightarrow> \<not> broken w \<Longrightarrow>
        m_vWait (cl w) = drop (answered w) (sent (cl w)) \<and> answered w \<le> length (sent (cl w))"
  shows "world_ok w"
  using assms by (simp add: world_ok_def)

text \<open>An operation touches only the calls it works on.\<close>

definition frame :: "nat set \<Rightarrow> client \<Rightarrow> client \<Rightarrow> bool" where
  "frame S c c' \<longleftrightarrow> (\<forall>q. q \<notin> S \<longrightarrow> heap c' q = heap c q) \<and> set (scheduled c') \<subseteq> set (scheduled c) \<union> S"

lemma frame_refl [simp]: "frame S c c" by (simp add: frame_def)

lemma frame_trans: "frame S c c' \<Longrightarrow> frame S c' c'' \<Longrightarrow> frame S c c''"
  by (auto simp: frame_def)

lemma frame_mono: "frame S c c' \<Longrightarrow> S \<subseteq> T \<Longrightarrow> frame T c c'"
  by (auto simp: frame_def)

lemma frame_same: "heap c' = heap c \<Longrightarrow> scheduled c' = scheduled c \<Longrightarrow> frame S c' d = frame S c d"
  by (simp add: frame_def)

lemma frame_Cons: "frame {p} c c1 \<Longrightarrow> frame (set ps) c1 c' \<Longrightarrow> frame (set (p # ps)) c c'"
  by (auto simp: frame_def)

lemma frame_steps:
  "Settle p r st c = Some c' \<Longrightarrow> frame {p} c c'" "Release p c = Some c' \<Longrightarrow> frame {p} c c'"
  "AddReference p c = Some c' \<Longrightarrow> frame {p} c c'" "frame {p} c (put_call p s c)" "frame S c (remove_wait p c)"
  by (auto simp: frame_def Settle_def Release_def AddReference_def put_call_def Schedule_def Let_def remove_wait_def
      split: option.splits if_splits)

lemma frame_settle_each: "settle_each st ps c = Some c' \<Longrightarrow> frame (set ps) c c'"
proof (induction ps arbitrary: c)
  case (Cons p ps)
  then obtain c1 where "Settle p None st c = Some c1" "settle_each st ps c1 = Some c'" by (auto simp: Option.bind_eq_Some_conv)
  then show ?case using frame_Cons [OF frame_steps(1)] Cons.IH by blast
qed simp

lemma frame_fail_each: "fail_each st ps c = Some c' \<Longrightarrow> frame (set ps) c c'"
proof (induction ps arbitrary: c)
  case (Cons p ps)
  then obtain s c1 c2 where 1: "heap c p = Some s" "(if \<not> iWon s then Settle p None st c else Some c) = Some c1"
      "Release p c1 = Some c2" "fail_each st ps c2 = Some c'" by (auto simp: Option.bind_eq_Some_conv)
  have "frame {p} c c1" using 1(2) frame_steps(1) by (cases "iWon s") auto
  then have "frame {p} c c2" using frame_trans frame_steps(2) [OF 1(3)] by blast
  then show ?case by (rule frame_Cons [OF _ Cons.IH [OF 1(4)]])
qed simp

lemma frame_FailAll: "FailAll st c = Some c' \<Longrightarrow> frame (set (m_vWait c)) c c'"
  using frame_fail_each [of st "m_vWait c" "c\<lparr>m_vWait := [], m_iSwept := 0\<rparr>" c'] by (simp add: FailAll_def frame_def)

lemma frame_SweepTimeout: "SweepTimeout iNow c = Some c' \<Longrightarrow> \<forall>p \<in> set (m_vWait c). heap c p \<noteq> None \<Longrightarrow> frame (set (m_vWait c)) c c'"
proof -
  assume a: "SweepTimeout iNow c = Some c'" "\<forall>p \<in> set (m_vWait c). heap c p \<noteq> None"
  define ps where "ps = takeWhile (\<lambda>p. iDeadlineMilliseconds (the (heap c p)) \<le> iNow) (drop (m_iSwept c) (m_vWait c))"
  have "expired_prefix iNow (heap c) (drop (m_iSwept c) (m_vWait c)) = Some ps"
    unfolding ps_def by (rule expired_prefix_eq) (use a(2) in_set_dropD in fast)
  then have "settle_each Timeout ps (c\<lparr>m_iSwept := m_iSwept c + length ps\<rparr>) = Some c'" using a(1) by (simp add: SweepTimeout_def)
  moreover have "set ps \<subseteq> set (m_vWait c)" unfolding ps_def by (meson in_set_dropD set_takeWhileD subsetI)
  ultimately show ?thesis using frame_settle_each frame_mono frame_same [of "c\<lparr>m_iSwept := m_iSwept c + length ps\<rparr>" c] by fastforce
qed

lemma frame_OnClientDisconnect: "OnClientDisconnect sid c = Some c' \<Longrightarrow> frame (set (m_vWait c)) c c'"
proof -
  assume a: "OnClientDisconnect sid c = Some c'"
  define ps where "ps = filter (of_session sid (heap c)) (m_vWait c)"
  obtain d where "fail_each Disconnected ps d = Some c'" "heap d = heap c" "scheduled d = scheduled c"
    using a by (auto simp: OnClientDisconnect_def FailSid_def ps_def split: if_splits)
  then have "frame (set ps) c c'" using frame_fail_each frame_same by metis
  then show ?thesis by (rule frame_mono) (simp add: ps_def)
qed

lemma frame_feed_replies: "feed_replies rs c = Some c' \<Longrightarrow> frame (set (m_vWait c)) c c' \<and> set (m_vWait c') \<subseteq> set (m_vWait c)"
proof (induction rs arbitrary: c)
  case (Cons r rs)
  then obtain c1 where 1: "feed_reply r c = Some c1" "feed_replies rs c1 = Some c'" by (auto simp: Option.bind_eq_Some_conv)
  have f: "frame (set (m_vWait c)) c c1 \<and> set (m_vWait c1) \<subseteq> set (m_vWait c)"
  proof (cases "m_vWait c")
    case Nil
    then show ?thesis using 1(1) by (simp add: feed_reply_def)
  next
    case (Cons p ps)
    define d where "d = c\<lparr>m_vWait := ps, m_iSwept := (if m_iSwept c > 0 then m_iSwept c - 1 else 0)\<rparr>"
    obtain s c2 where 2: "heap d p = Some s"
        "(if \<not> iWon s then Settle p (Some r) (if is_error r then ServerError else Ok) d else Some d) = Some c2" "Release p c2 = Some c1"
      using 1(1) unfolding feed_reply_def Cons list.case Let_def d_def [symmetric] by (auto simp: Option.bind_eq_Some_conv)
    have "frame {p} d c2" using 2(2) frame_steps(1) by (cases "iWon s") (auto split: if_splits)
    then have "frame {p} d c1" using frame_trans frame_steps(2) [OF 2(3)] by blast
    moreover have "m_vWait c1 = ps" using 2 by (auto simp: d_def Settle_def Release_def put_call_def Schedule_def Let_def split: option.splits if_splits)
    ultimately show ?thesis using Cons by (auto simp: frame_def d_def)
  qed
  then show ?case using Cons.IH [OF 1(2)] frame_trans frame_mono by blast
qed simp

lemma frame_Feed: "Feed sid bFed rs bOk c = Some c' \<Longrightarrow> frame (set (m_vWait c)) c c'"
proof -
  assume a: "Feed sid bFed rs bOk c = Some c'"
  show ?thesis
  proof (cases "sid \<noteq> m_iReaderSessionId c \<or> sid = INVALID_SID \<or> \<not> bFed")
    case True
    then show ?thesis using a frame_FailAll by (auto simp: Feed_def split: if_splits)
  next
    case False
    then have "feed_replies rs c \<bind> (\<lambda>c1. if \<not> bOk then FailAll ProtocolError c1 else Some c1) = Some c'"
      using a by (simp add: Feed_def)
    then obtain c1 where 1: "feed_replies rs c = Some c1" "(if \<not> bOk then FailAll ProtocolError c1 else Some c1) = Some c'"
      unfolding Option.bind_eq_Some_conv by blast
    have f: "frame (set (m_vWait c)) c c1" "set (m_vWait c1) \<subseteq> set (m_vWait c)" using frame_feed_replies [OF 1(1)] by blast+
    have "frame (set (m_vWait c1)) c1 c'" using 1(2) frame_FailAll by (cases bOk) auto
    then show ?thesis using f frame_mono frame_trans by blast
  qed
qed

lemma frame_Submit: "Submit E p c = Some c' \<Longrightarrow> frame {p} c c'"
proof -
  assume "Submit E p c = Some c'"
  then obtain c1 c2 where 1: "AddReference p c = Some c1" "Enqueue E p c1 = Some c2" "Release p c2 = Some c'"
    unfolding Submit_def Option.bind_eq_Some_conv by blast
  obtain s where s: "heap c1 p = Some s" using 1(2) unfolding Enqueue_def Option.bind_eq_Some_conv by blast
  have early: "Settle p None st d = Some c2 \<Longrightarrow> frame {p} c1 d \<Longrightarrow> frame {p} c1 c2" for st d
    using frame_steps(1) frame_trans by blast
  define t where "t = s\<lparr>iDeadlineMilliseconds := NowMs E + m_iTimeoutMilliseconds c1\<rparr>"
  define d1 where "d1 = put_call p t c1"
  define d2 where "d2 = put_call p (t\<lparr>iSessionId := m_iReaderSessionId d1, iReferences := iReferences t + 1\<rparr>) d1"
  define d3 where "d3 = d2\<lparr>m_vWait := m_vWait d2 @ [p]\<rparr>"
  have d: "frame {p} c1 d1" "frame {p} c1 d2" "frame {p} c1 d3" "frame {p} c1 (d3\<lparr>sent := sent d3 @ [p]\<rparr>)"
      "frame {p} c1 (remove_wait p d3)"
    by (simp_all add: frame_def d1_def d2_def d3_def put_call_def remove_wait_def subset_insertI)
  have eq: "(if vArguments s = [] then Settle p None InvalidArgument c1
      else if StopRequested E \<or> m_iReaderSessionId c1 = INVALID_SID \<or> ConnectedSid E \<noteq> m_iReaderSessionId c1
      then Settle p None Disconnected c1
      else if FormatCommand E (vArguments s) = None then Settle p None InvalidArgument c1
      else if \<not> ArmRedisSweep E then Settle p None SendFailed c1
      else if \<not> length (m_vWait d1) < m_iMaxPending d1 then Settle p None Busy d1
      else if SendBytesResult E \<noteq> OI_OK
      then Settle p None (send_status (SendBytesResult E)) (remove_wait p d3) \<bind> Release p
      else Some (d3\<lparr>sent := sent d3 @ [p]\<rparr>)) = Some c2"
    using 1(2) unfolding Enqueue_def Let_def s Option.bind.bind_lunit t_def [symmetric] d1_def [symmetric] d2_def [symmetric] d3_def [symmetric] .
  have failed: "Settle p None st (remove_wait p d3) \<bind> Release p = Some c2 \<Longrightarrow> frame {p} c1 c2" for st
    unfolding Option.bind_eq_Some_conv by (meson d(5) frame_steps(1) frame_steps(2) frame_trans)
  have "frame {p} c1 c2"
    using eq early [OF _ frame_refl] early [OF _ d(1)] failed d(4) by (auto split: if_splits)
  then show ?thesis using 1 frame_steps(2,3) frame_trans by blast
qed

lemma world_step:
  assumes w: "world_ok w" and c: "client_ok g' [] c'" and g: "callers g' = callers (gh w)" "mid g' = mid (gh w)" "resumed g' = resumed (gh w)"
    and fr: "frame S (cl w) c'" and S: "\<And>q. q \<in> S \<Longrightarrow> heap (cl w) q \<noteq> None" "S \<inter> set L = {}"
    and L: "set L \<subseteq> set (loopq w)" "distinct L" "set (m_vWait c') \<inter> set L = {}"
    and r: "m_iReaderSessionId c' \<noteq> INVALID_SID \<Longrightarrow> \<not> b \<Longrightarrow> m_vWait c' = drop n (sent c') \<and> n \<le> length (sent c')"
  shows "world_ok (w\<lparr>cl := c', gh := g', loopq := L, answered := n, broken := b\<rparr>)"
proof (rule world_okI; simp)
  have heap: "heap c' q = heap (cl w) q" if "q \<notin> S" for q using fr that by (simp add: frame_def)
  show "client_ok g' [] c'" "distinct L" by fact+
  show "set L \<subseteq> callers g' - set (m_vWait c')" using w L g by (auto simp: world_ok_def)
  show "mid g' \<subseteq> callers g'" using w g by (simp add: world_ok_def)
  show "posted c' p \<and> \<not> won c' p" if "p \<in> set L" for p
  proof -
    have "p \<notin> S" using that S by blast
    then show ?thesis using w L that heap by (auto simp: world_ok_def posted_def won_def)
  qed
  show "heap c' p = None \<and> p \<notin> set (woken g' c')" if "fresh w \<le> p" for p
  proof -
    have n: "heap (cl w) p = None" "p \<notin> set (woken (gh w) (cl w))" using w that by (auto simp: world_ok_def)
    then have "p \<notin> S" using S(1) by blast
    then show ?thesis using n heap fr g by (auto simp: frame_def woken_def)
  qed
  show "m_iReaderSessionId c' \<noteq> INVALID_SID \<Longrightarrow> \<not> b \<Longrightarrow> m_vWait c' = drop n (sent c') \<and> n \<le> length (sent c')" by fact
qed

lemma world_ids:
  assumes "world_ok w"
  shows "\<And>q. q \<in> set (m_vWait (cl w)) \<Longrightarrow> heap (cl w) q \<noteq> None" "set (m_vWait (cl w)) \<inter> set (loopq w) = {}"
    "distinct (loopq w)" "client_ok (gh w) [] (cl w)"
    "m_iReaderSessionId (cl w) \<noteq> INVALID_SID \<and> \<not> broken w \<Longrightarrow> m_vWait (cl w) = drop (answered w) (sent (cl w)) \<and> answered w \<le> length (sent (cl w))"
proof -
  show ok: "client_ok (gh w) [] (cl w)" using assms by (simp add: world_ok_def)
  show "\<And>q. q \<in> set (m_vWait (cl w)) \<Longrightarrow> heap (cl w) q \<noteq> None" using held_alive [OF ok] by blast
  show "set (m_vWait (cl w)) \<inter> set (loopq w) = {}" "distinct (loopq w)"
    "m_iReaderSessionId (cl w) \<noteq> INVALID_SID \<and> \<not> broken w \<Longrightarrow> m_vWait (cl w) = drop (answered w) (sent (cl w)) \<and> answered w \<le> length (sent (cl w))"
    using assms by (auto simp: world_ok_def)
qed

lemma world_eq: "w\<lparr>cl := c, gh := g, loopq := loopq w, answered := answered w, broken := broken w\<rparr> = w\<lparr>cl := c, gh := g\<rparr>"
  "w\<lparr>cl := c, gh := gh w, loopq := loopq w, answered := n, broken := b\<rparr> = w\<lparr>cl := c, answered := n, broken := b\<rparr>"
  "w\<lparr>cl := c, gh := g, loopq := L, answered := answered w, broken := broken w\<rparr> = w\<lparr>cl := c, gh := g, loopq := L\<rparr>"
  "w\<lparr>cl := c, gh := gh w, loopq := loopq w, answered := answered w, broken := broken w\<rparr> = w\<lparr>cl := c\<rparr>"
  "w\<lparr>cl := c, gh := g, loopq := loopq w, answered := n, broken := b\<rparr> = w\<lparr>cl := c, gh := g, answered := n, broken := b\<rparr>"
  "w\<lparr>cl := c, gh := gh w, loopq := loopq w, answered := answered w, broken := b\<rparr> = w\<lparr>cl := c, broken := b\<rparr>"
  by (cases w; simp)+

lemma Sweep_step:
  assumes w: "world_ok w" and e: "clock_ms (gh w) \<le> iNow"
  shows "\<exists>w'. happen (Sweep iNow) w = Some w' \<and> world_ok w'"
proof -
  note i = world_ids [OF w]
  have ok: "client_ok ((gh w)\<lparr>clock_ms := iNow\<rparr>) [] (cl w)" by (rule clock_ok [OF i(4) e])
  obtain c where c: "SweepTimeout iNow (cl w) = Some c" "client_ok ((gh w)\<lparr>clock_ms := iNow\<rparr>) [] c" "m_vWait c = m_vWait (cl w)"
      "m_iReaderSessionId c = m_iReaderSessionId (cl w)" "sent c = sent (cl w)"
    using SweepTimeout_ok [OF ok, of iNow] by blast
  have "world_ok (w\<lparr>cl := c, gh := (gh w)\<lparr>clock_ms := iNow\<rparr>, loopq := loopq w, answered := answered w, broken := broken w\<rparr>)"
    by (rule world_step [OF w c(2), where S = "set (m_vWait (cl w))"]) (use i c frame_SweepTimeout in auto)
  then show ?thesis using c(1) by (simp add: world_eq)
qed

lemma Submit_step:
  assumes w: "world_ok w" and e: "p \<in> set (loopq w)" "clock_ms (gh w) \<le> NowMs E"
  shows "\<exists>w'. happen (RunSubmit p E) w = Some w' \<and> world_ok w'"
proof -
  note i = world_ids [OF w]
  define g where "g = (gh w)\<lparr>clock_ms := NowMs E\<rparr>"
  have ok: "client_ok g [] (cl w)" unfolding g_def by (rule clock_ok [OF i(4) e(2)])
  have p: "p \<in> callers g" "p \<notin> set (m_vWait (cl w))" "\<not> won (cl w) p" "posted (cl w) p" "clock_ms g = NowMs E"
    using w e(1) by (auto simp: world_ok_def g_def)
  obtain c where c: "Submit E p (cl w) = Some c" "client_ok g [] c" "m_iReaderSessionId c = m_iReaderSessionId (cl w)"
    "m_vWait c = m_vWait (cl w) \<and> won c p \<and> sent c = sent (cl w)
      \<or> m_vWait c = m_vWait (cl w) @ [p] \<and> sent c = sent (cl w) @ [p] \<and> m_iReaderSessionId (cl w) \<noteq> INVALID_SID"
    using Submit_ok [OF ok p] by blast
  obtain s where "heap (cl w) p = Some s" using held_alive [OF ok] p(1) by blast
  then have "world_ok (w\<lparr>cl := c, gh := g, loopq := remove1 p (loopq w), answered := answered w, broken := broken w\<rparr>)"
    by (intro world_step [OF w c(2), where S = "{p}"]) (use i c frame_Submit in \<open>auto simp: g_def\<close>)
  then show ?thesis using c(1) by (simp add: world_eq g_def)
qed

lemma Data_step:
  assumes w: "world_ok w" and e: "enabled (Data sid bFed rs bOk) w"
  shows "\<exists>w'. happen (Data sid bFed rs bOk) w = Some w' \<and> world_ok w'"
proof (cases "sid \<noteq> m_iReaderSessionId (cl w) \<or> sid = INVALID_SID")
  case True
  then show ?thesis using w by (simp add: Feed_def)
next
  case False
  note i = world_ids [OF w]
  show ?thesis
  proof (cases bFed)
    case True
    with e False have nb: "\<not> broken w" by simp
    have q: "m_vWait (cl w) = drop (answered w) (sent (cl w))" "answered w \<le> length (sent (cl w))" using i(5) nb False by auto
    have len: "length rs \<le> length (m_vWait (cl w))" using e q by auto
    define g where "g = (gh w)\<lparr>own := answer (m_vWait (cl w)) rs (own (gh w))\<rparr>"
    obtain c1 where c1: "feed_replies rs (cl w) = Some c1" "client_ok g [] c1" "m_vWait c1 = drop (length rs) (m_vWait (cl w))"
        "m_iReaderSessionId c1 = m_iReaderSessionId (cl w)" "sent c1 = sent (cl w)"
      using feed_replies_ok [OF i(4) len] unfolding g_def by blast
    obtain c where c: "Feed sid bFed rs bOk (cl w) = Some c" "client_ok g [] c" "sent c = sent (cl w)"
        "if bOk then m_vWait c = drop (length rs) (m_vWait (cl w)) else m_vWait c = []"
    proof (cases bOk)
      case True
      then show thesis using that [of c1] c1 False \<open>bFed\<close> by (simp add: Feed_def)
    next
      case nok: False
      show thesis by (rule FailAll_ok [OF c1(2), of ProtocolError]) (use that c1 False nok \<open>bFed\<close> in \<open>simp add: Feed_def\<close>)
    qed
    have "set (m_vWait c) \<subseteq> set (m_vWait (cl w))" using c(4) by (auto split: if_splits dest: in_set_dropD)
    then have "world_ok (w\<lparr>cl := c, gh := g, loopq := loopq w, answered := answered w + length rs, broken := \<not> bOk\<rparr>)"
      by (intro world_step [OF w c(2), where S = "set (m_vWait (cl w))"])
        (use i c frame_Feed [OF c(1)] e q in \<open>auto simp: g_def drop_drop add.commute\<close>)
    then show ?thesis using c(1) False True q(1) by (simp add: world_eq g_def)
  next
    case nf: False
    obtain c where c: "FailAll ProtocolError (cl w) = Some c" "client_ok (gh w) [] c" "m_vWait c = []" using FailAll_ok [OF i(4)] by metis
    have "world_ok (w\<lparr>cl := c, gh := gh w, loopq := loopq w, answered := answered w, broken := True\<rparr>)"
      by (rule world_step [OF w c(2), where S = "set (m_vWait (cl w))"]) (use i c frame_FailAll [OF c(1)] in auto)
    then show ?thesis using c(1) False nf by (simp add: Feed_def world_eq)
  qed
qed

lemma Connect_step:
  assumes w: "world_ok w" and e: "enabled ev w" and ev: "ev = Connect sid \<or> ev = Disconnect sid \<or> ev = Stop"
  shows "\<exists>w'. happen ev w = Some w' \<and> world_ok w'"
proof -
  note i = world_ids [OF w]
  from ev show ?thesis
  proof (elim disjE)
    assume ev: "ev = Connect sid"
    obtain c where c: "FailAll Disconnected (cl w) = Some c" "client_ok (gh w) [] c" "m_vWait c = []" using FailAll_ok [OF i(4)] by metis
    define d where "d = c\<lparr>m_iReaderSessionId := sid, sent := []\<rparr>"
    have ok: "client_ok (gh w) [] d" unfolding d_def using sent_ok [OF reader_ok [OF c(2,3)]] by simp
    have d: "heap d = heap c" "scheduled d = scheduled c" "m_vWait d = []" "sent d = []" using c(3) by (simp_all add: d_def)
    have "world_ok (w\<lparr>cl := d, gh := gh w, loopq := loopq w, answered := 0, broken := False\<rparr>)"
      by (rule world_step [OF w ok, where S = "set (m_vWait (cl w))"]) (use i d frame_FailAll [OF c(1)] in \<open>auto simp: frame_def\<close>)
    then show ?thesis using c(1) by (simp add: ev OnClientConnect_def world_eq d_def)
  next
    assume ev: "ev = Disconnect sid"
    obtain c where c: "OnClientDisconnect sid (cl w) = Some c" "client_ok (gh w) [] c"
      "m_iReaderSessionId c = (if m_iReaderSessionId (cl w) = sid then INVALID_SID else m_iReaderSessionId (cl w))"
      "m_vWait c = (if m_iReaderSessionId (cl w) = sid then [] else m_vWait (cl w))" "sent c = sent (cl w)"
      using OnClientDisconnect_ok [OF i(4), of sid] by metis
    have "world_ok (w\<lparr>cl := c, gh := gh w, loopq := loopq w, answered := answered w, broken := broken w\<rparr>)"
      by (rule world_step [OF w c(2), where S = "set (m_vWait (cl w))"])
        (use i c frame_OnClientDisconnect [OF c(1)] in \<open>auto split: if_splits\<close>)
    then show ?thesis using c(1) by (simp add: ev world_eq)
  next
    assume ev: "ev = Stop"
    obtain c where c: "FailAll Disconnected (cl w) = Some c" "client_ok (gh w) [] c" "m_vWait c = []" using FailAll_ok [OF i(4)] by metis
    define d where "d = c\<lparr>m_iReaderSessionId := INVALID_SID\<rparr>"
    have ok: "client_ok (gh w) [] d" unfolding d_def by (rule reader_ok [OF c(2,3)])
    have d: "heap d = heap c" "scheduled d = scheduled c" "m_vWait d = []" "m_iReaderSessionId d = INVALID_SID" using c(3) by (simp_all add: d_def)
    have "world_ok (w\<lparr>cl := d, gh := gh w, loopq := loopq w, answered := answered w, broken := broken w\<rparr>)"
      by (rule world_step [OF w ok, where S = "set (m_vWait (cl w))"]) (use i d frame_FailAll [OF c(1)] in \<open>auto simp: frame_def\<close>)
    then show ?thesis using c(1) by (simp add: ev OnStop_def world_eq d_def)
  qed
qed

text \<open>The callers' own steps.\<close>

lemma calls_put:
  assumes "calls_ok g c" "heap c' = (heap c)(p \<mapsto> t)" "own g' = own g" "distinct (woken g' c')"
    "\<And>q s. q \<noteq> p \<Longrightarrow> heap c q = Some s \<Longrightarrow> gate_ok (mid g) (set (woken g c)) q s \<Longrightarrow> gate_ok (mid g') (set (woken g' c')) q s"
    "gate_ok (mid g') (set (woken g' c')) p t" "reply_ok (own g p) t"
  shows "calls_ok g' c'"
  unfolding calls_ok_def
proof (intro conjI allI impI)
  fix q s assume "heap c' q = Some s"
  then show "gate_ok (mid g') (set (woken g' c')) q s" "reply_ok (own g' q) s"
    using assms by (cases "q = p"; simp add: calls_ok_def)+
qed (fact assms(4))

lemma NewCall_step:
  assumes w: "world_ok w"
  shows "\<exists>w'. happen (NewCall args sync) w = Some w' \<and> world_ok w'"
proof -
  define p where "p = fresh w"
  define c where "c = put_call p (State args sync) (cl w)"
  define g where "g = (gh w)\<lparr>callers := insert p (callers (gh w))\<rparr>"
  note i = world_ids [OF w]
  have n: "heap (cl w) p = None" "p \<notin> set (woken (gh w) (cl w))" using w by (auto simp: world_ok_def p_def)
  have out: "p \<notin> callers (gh w)" "p \<notin> set (m_vWait (cl w))" "p \<notin> set (loopq w)" "p \<notin> mid (gh w)"
    using held_alive [OF i(4), of p] n w by (auto simp: world_ok_def)
  have f: "woken g c = woken (gh w) (cl w)" "mid g = mid (gh w)" "own g = own (gh w)" "same_queue (cl w) c"
    "heap c = (heap (cl w))(p \<mapsto> State args sync)" "clock_ms g = clock_ms (gh w)" "m_vWait c = m_vWait (cl w)"
    by (simp_all add: g_def c_def woken_def put_call_def same_queue_def)
  have "refs_ok g [] c" unfolding refs_ok_def
  proof
    fix q
    have "map_option iReferences (heap (cl w) q) = (if holders (gh w) [] (cl w) q = 0 then None else Some (holders (gh w) [] (cl w) q))"
      using i(4) by (simp add: client_ok_def refs_ok_def)
    then show "map_option iReferences (heap c q) = (if holders g [] c q = 0 then None else Some (holders g [] c q))"
      using out by (cases "q = p") (simp_all add: f holders_def g_def State_def)
  qed
  moreover have "calls_ok g c"
  proof (rule calls_put [where c = "cl w" and g = "gh w"])
    show co: "calls_ok (gh w) (cl w)" using i(4) by (simp add: client_ok_def)
    show "distinct (woken g c)" using co unfolding f by (simp add: calls_ok_def)
    show "gate_ok (mid g) (set (woken g c)) p (State args sync)"
      using n(2) out(4) unfolding f by (simp add: gate_ok_def State_def)
    show "reply_ok (own (gh w) p) (State args sync)" by (simp add: reply_ok_def State_def)
  qed (simp_all only: f)
  moreover have "queue_ok g c"
    by (rule queue_cong [of "gh w" "cl w"])
      (use i(4) out f in \<open>auto simp: client_ok_def won_def posted_def unanswered_def deadline_def of_session_def\<close>)
  ultimately have ok: "client_ok g [] c" by (simp add: client_ok_def)
  define w' where "w' = w\<lparr>cl := c, gh := g, loopq := (if sync then loopq w @ [p] else loopq w), fresh := p + 1\<rparr>"
  have at: "posted c q = posted (cl w) q \<and> won c q = won (cl w) q" if "q \<noteq> p" for q
    using that by (simp add: posted_def won_def f)
  have self: "posted c p = sync" "\<not> won c p" by (simp_all add: posted_def won_def f State_def)
  have lq: "set (loopq w) \<subseteq> callers (gh w) - set (m_vWait (cl w))" "\<And>q. q \<in> set (loopq w) \<Longrightarrow> posted (cl w) q \<and> \<not> won (cl w) q"
      "mid (gh w) \<subseteq> callers (gh w)" "\<And>q. fresh w \<le> q \<Longrightarrow> heap (cl w) q = None \<and> q \<notin> set (woken (gh w) (cl w))"
    using w by (auto simp: world_ok_def)
  have "world_ok w'"
  proof (rule world_okI)
    show "client_ok (gh w') [] (cl w')" using ok by (simp add: w'_def)
    show "distinct (loopq w')" using i(3) out by (simp add: w'_def)
    show "set (loopq w') \<subseteq> callers (gh w') - set (m_vWait (cl w'))" using lq(1) out by (auto simp: w'_def g_def f)
    show "posted (cl w') q \<and> \<not> won (cl w') q" if "q \<in> set (loopq w')" for q
      using that lq(2) [of q] at [of q] self out by (cases "q = p") (auto simp: w'_def split: if_splits)
    show "mid (gh w') \<subseteq> callers (gh w')" using lq(3) by (auto simp: w'_def g_def)
    show "heap (cl w') q = None \<and> q \<notin> set (woken (gh w') (cl w'))" if "fresh w' \<le> q" for q
      using that lq(4) [of q] by (simp add: w'_def f p_def)
    show "m_vWait (cl w') = drop (answered w') (sent (cl w')) \<and> answered w' \<le> length (sent (cl w'))"
      if "m_iReaderSessionId (cl w') \<noteq> INVALID_SID" "\<not> broken w'"
      using that i(5) f(4) by (simp add: w'_def same_queue_def)
  qed
  moreover have "happen (NewCall args sync) w = Some w'" unfolding happen.simps w'_def c_def g_def p_def by (rule refl)
  ultimately show ?thesis by blast
qed

lemma Post_step:
  assumes w: "world_ok w" and e: "enabled (Post p stop) w"
  shows "\<exists>w'. happen (Post p stop) w = Some w' \<and> world_ok w'"
proof -
  note i = world_ids [OF w]
  obtain s where s: "heap (cl w) p = Some s" using held_alive [OF i(4), of p] e by auto
  have lq: "set (loopq w) \<subseteq> callers (gh w) - set (m_vWait (cl w))" "\<And>q. q \<in> set (loopq w) \<Longrightarrow> posted (cl w) q \<and> \<not> won (cl w) q"
      "mid (gh w) \<subseteq> callers (gh w)" "\<And>q. fresh w \<le> q \<Longrightarrow> heap (cl w) q = None \<and> q \<notin> set (woken (gh w) (cl w))"
    using w by (auto simp: world_ok_def)
  have co: "calls_ok (gh w) (cl w)" using i(4) by (simp add: client_ok_def)
  have g: "gate_ok (mid (gh w)) (set (woken (gh w) (cl w))) p s" "reply_ok (own (gh w) p) s" using co s by (auto simp: calls_ok_def)
  have as: "\<not> bSynchronous s" using e s by (simp add: flag_def)
  show ?thesis
  proof (cases "bAwaitStarted s")
    case True
    then show ?thesis using w s by (simp add: Suspend_post_def)
  next
    case False
    have un: "\<not> stHandle s" "\<not> iWon s" "p \<notin> set (woken (gh w) (cl w))" "p \<notin> mid (gh w)" "iGate s = Idle"
      using g(1) False as by (auto simp: gate_ok_def)
    have np: "\<not> posted (cl w) p" using s un as by (simp add: posted_def)
    then have out: "p \<notin> set (loopq w)" "p \<notin> set (m_vWait (cl w))" using lq(2) i(4) by (auto simp: client_ok_def queue_ok_def)
    define t where "t = (if stop then s\<lparr>bAwaitStarted := True\<rparr> else s\<lparr>bAwaitStarted := True, stHandle := True\<rparr>)"
    define c where "c = put_call p t (cl w)"
    define g' where "g' = (if stop then (gh w)\<lparr>resumed := resumed (gh w) @ [p]\<rparr> else (gh w)\<lparr>mid := insert p (mid (gh w))\<rparr>)"
    define w' where "w' = w\<lparr>cl := c, gh := g', loopq := (if stop then loopq w else loopq w @ [p])\<rparr>"
    have f: "heap c = (heap (cl w))(p \<mapsto> t)" "own g' = own (gh w)" "callers g' = callers (gh w)" "clock_ms g' = clock_ms (gh w)"
        "same_queue (cl w) c" "m_vWait c = m_vWait (cl w)" "sent c = sent (cl w)" "m_iReaderSessionId c = m_iReaderSessionId (cl w)"
        "woken g' c = (if stop then woken (gh w) (cl w) @ [p] else woken (gh w) (cl w))"
        "mid g' = (if stop then mid (gh w) else insert p (mid (gh w)))"
      by (simp_all add: c_def g'_def put_call_def woken_def same_queue_def)
    have H: "happen (Post p stop) w = Some w'"
      using s False by (cases stop) (simp_all add: Suspend_post_def w'_def c_def g'_def t_def)
    have t: "iReferences t = iReferences s" "iWon t = iWon s" "pReply t = pReply s" "iStatus t = iStatus s" "bSynchronous t = bSynchronous s"
      by (simp_all add: t_def)
    have "refs_ok g' [] c"
      by (rule refs_cong [of "gh w" "[]" "cl w"]) (use i(4) s in \<open>auto simp: client_ok_def holders_def f t\<close>)
    moreover have "calls_ok g' c"
    proof (rule calls_put [OF co f(1,2)])
      show "distinct (woken g' c)" using co un(3) unfolding f by (simp add: calls_ok_def)
      show "gate_ok (mid g') (set (woken g' c)) p t" using g(1) un as unfolding f by (simp add: gate_ok_def t_def)
      show "reply_ok (own (gh w) p) t" using g(2) by (simp add: reply_ok_def t)
      show "gate_ok (mid g') (set (woken g' c)) q u"
        if "q \<noteq> p" "gate_ok (mid (gh w)) (set (woken (gh w) (cl w))) q u" for q u
        using that unfolding f by (cases stop) (simp_all add: gate_ok_def)
    qed
    moreover have at: "won c q = won (cl w) q" "q \<noteq> p \<Longrightarrow> posted c q = posted (cl w) q" "unanswered c q = unanswered (cl w) q"
        "deadline c q = deadline (cl w) q" "of_session sid (heap c) q = of_session sid (heap (cl w)) q" for q sid
      using s by (simp_all add: won_def posted_def unanswered_def deadline_def of_session_def f t) (simp add: t_def)+
    moreover have "queue_ok g' c"
    proof (rule queue_cong [of "gh w" "cl w"])
      show "queue_ok (gh w) (cl w)" using i(4) by (simp add: client_ok_def)
      show "same_queue (cl w) c" "clock_ms (gh w) \<le> clock_ms g'" by (simp_all add: f)
      show "(won (cl w) q \<longrightarrow> won c q) \<and> (posted (cl w) q \<longrightarrow> posted c q) \<and> (unanswered (cl w) q \<longrightarrow> unanswered c q)
        \<and> deadline c q = deadline (cl w) q
        \<and> (of_session (m_iReaderSessionId (cl w)) (heap (cl w)) q \<longrightarrow> of_session (m_iReaderSessionId (cl w)) (heap c) q)"
        if "q \<in> set (m_vWait (cl w))" for q
      proof -
        have "q \<noteq> p" using that out(2) by blast
        then show ?thesis by (simp only: at simp_thms)
      qed
    qed
    ultimately have ok: "client_ok g' [] c" by (simp add: client_ok_def)
    have "world_ok w'"
    proof (rule world_okI)
      show "client_ok (gh w') [] (cl w')" using ok by (simp add: w'_def)
      show "distinct (loopq w')" using i(3) out by (simp add: w'_def)
      show "set (loopq w') \<subseteq> callers (gh w') - set (m_vWait (cl w'))" using lq(1) out e by (auto simp: w'_def f)
      show "posted (cl w') q \<and> \<not> won (cl w') q" if "q \<in> set (loopq w')" for q
        using that lq(2) [of q] at(1) [of q] at(2) [of q] un s out by (cases "q = p") (auto simp: w'_def won_def posted_def f t_def split: if_splits)
      show "mid (gh w') \<subseteq> callers (gh w')" using lq(3) e by (auto simp: w'_def f)
      show "heap (cl w') q = None \<and> q \<notin> set (woken (gh w') (cl w'))" if "fresh w' \<le> q" for q
        using that lq(4) [of q] s by (cases "q = p") (auto simp: w'_def f)
      show "m_vWait (cl w') = drop (answered w') (sent (cl w')) \<and> answered w' \<le> length (sent (cl w'))"
        if "m_iReaderSessionId (cl w') \<noteq> INVALID_SID" "\<not> broken w'"
        using that i(5) by (simp add: w'_def f)
    qed
    then show ?thesis using H by blast
  qed
qed

lemma Gate_step:
  assumes w: "world_ok w" and e: "p \<in> mid (gh w)"
  shows "\<exists>w'. happen (Gate p) w = Some w' \<and> world_ok w'"
proof -
  note i = world_ids [OF w]
  have lq: "set (loopq w) \<subseteq> callers (gh w) - set (m_vWait (cl w))" "\<And>q. q \<in> set (loopq w) \<Longrightarrow> posted (cl w) q \<and> \<not> won (cl w) q"
      "mid (gh w) \<subseteq> callers (gh w)" "\<And>q. fresh w \<le> q \<Longrightarrow> heap (cl w) q = None \<and> q \<notin> set (woken (gh w) (cl w))"
    using w by (auto simp: world_ok_def)
  obtain s where s: "heap (cl w) p = Some s" using held_alive [OF i(4), of p] e lq(3) by auto
  have co: "calls_ok (gh w) (cl w)" using i(4) by (simp add: client_ok_def)
  have g: "gate_ok (mid (gh w)) (set (woken (gh w) (cl w))) p s" "reply_ok (own (gh w) p) s" using co s by (auto simp: calls_ok_def)
  have st: "p \<notin> set (woken (gh w) (cl w))" "stHandle s" "iGate s = (if iWon s then Ready else Idle)" using g(1) e by (simp_all add: gate_ok_def)
  define t where "t = s\<lparr>iGate := Waiting\<rparr>"
  define c where "c = put_call p t (cl w)"
  define g' where "g' = (gh w)\<lparr>mid := mid (gh w) - {p}, resumed := (if iWon s then resumed (gh w) @ [p] else resumed (gh w))\<rparr>"
  define w' where "w' = w\<lparr>cl := c, gh := g'\<rparr>"
  have f: "heap c = (heap (cl w))(p \<mapsto> t)" "own g' = own (gh w)" "callers g' = callers (gh w)" "clock_ms g' = clock_ms (gh w)"
      "same_queue (cl w) c" "m_vWait c = m_vWait (cl w)" "sent c = sent (cl w)" "m_iReaderSessionId c = m_iReaderSessionId (cl w)"
      "woken g' c = (if iWon s then woken (gh w) (cl w) @ [p] else woken (gh w) (cl w))" "mid g' = mid (gh w) - {p}"
    by (simp_all add: c_def g'_def put_call_def woken_def same_queue_def)
  have H: "happen (Gate p) w = Some w'"
    using s st(3) by (simp add: Suspend_gate_def w'_def c_def g'_def t_def)
  have t: "iReferences t = iReferences s" "iWon t = iWon s" "pReply t = pReply s" "iStatus t = iStatus s" by (simp_all add: t_def)
  have "refs_ok g' [] c"
    by (rule refs_cong [of "gh w" "[]" "cl w"]) (use i(4) s in \<open>auto simp: client_ok_def holders_def f t\<close>)
  moreover have "calls_ok g' c"
  proof (rule calls_put [OF co f(1,2)])
    show "distinct (woken g' c)" using co st(1) unfolding f by (simp add: calls_ok_def)
    show "gate_ok (mid g') (set (woken g' c)) p t" using g(1) st unfolding f by (simp add: gate_ok_def t_def)
    show "reply_ok (own (gh w) p) t" using g(2) by (simp add: reply_ok_def t)
    show "gate_ok (mid g') (set (woken g' c)) q u"
      if "q \<noteq> p" "gate_ok (mid (gh w)) (set (woken (gh w) (cl w))) q u" for q u
      using that unfolding f by (cases "iWon s") (simp_all add: gate_ok_def)
  qed
  moreover have at: "won c q = won (cl w) q" "posted c q = posted (cl w) q" "unanswered c q = unanswered (cl w) q"
      "deadline c q = deadline (cl w) q" "of_session sid (heap c) q = of_session sid (heap (cl w)) q" for q sid
    using s by (simp_all add: won_def posted_def unanswered_def deadline_def of_session_def f t_def)
  moreover have "queue_ok g' c"
    by (rule queue_cong [of "gh w" "cl w"]) (use i(4) f at in \<open>auto simp: client_ok_def\<close>)
  ultimately have ok: "client_ok g' [] c" by (simp add: client_ok_def)
  have "world_ok w'"
  proof (rule world_okI)
    show "client_ok (gh w') [] (cl w')" using ok by (simp add: w'_def)
    show "heap (cl w') q = None \<and> q \<notin> set (woken (gh w') (cl w'))" if "fresh w' \<le> q" for q
      using that lq(4) [of q] s by (cases "q = p") (auto simp: w'_def f)
    show "m_vWait (cl w') = drop (answered w') (sent (cl w')) \<and> answered w' \<le> length (sent (cl w'))"
      if "m_iReaderSessionId (cl w') \<noteq> INVALID_SID" "\<not> broken w'"
      using that i(5) by (simp add: w'_def f)
  qed (use i(3) lq at in \<open>auto simp: w'_def f\<close>)
  then show ?thesis using H by blast
qed

lemma Drop_step:
  assumes w: "world_ok w" and e: "enabled (Drop p) w"
  shows "\<exists>w'. happen (Drop p) w = Some w' \<and> world_ok w'"
proof -
  note i = world_ids [OF w]
  have p: "p \<in> callers (gh w)" "p \<notin> set (loopq w)" "p \<notin> mid (gh w)" using e by auto
  define g' where "g' = (gh w)\<lparr>callers := callers (gh w) - {p}\<rparr>"
  have "holders g' [p] (cl w) q = holders (gh w) [] (cl w) q" for q using p(1) by (auto simp: holders_def g'_def)
  moreover have "refs_ok (gh w) [] (cl w)" using i(4) by (simp add: client_ok_def)
  ultimately have 1: "refs_ok g' [p] (cl w)" unfolding refs_ok_def by presburger
  have 2: "calls_ok g' (cl w)" "queue_ok g' (cl w)"
    using i(4) by (simp_all add: client_ok_def calls_ok_def queue_ok_def g'_def woken_def)
  obtain c where c: "Release p (cl w) = Some c" "client_ok g' [] c" "same_queue (cl w) c" "scheduled c = scheduled (cl w)"
      "\<And>q. q \<noteq> p \<Longrightarrow> heap c q = heap (cl w) q"
    using Release_core [OF 1 2] by (metis empty_iff empty_set)
  obtain s where s: "heap (cl w) p = Some s" using held_alive [OF i(4), of p] p(1) by auto
  have lq: "set (loopq w) \<subseteq> callers (gh w) - set (m_vWait (cl w))" "\<And>q. q \<in> set (loopq w) \<Longrightarrow> posted (cl w) q \<and> \<not> won (cl w) q"
      "mid (gh w) \<subseteq> callers (gh w)" "\<And>q. fresh w \<le> q \<Longrightarrow> heap (cl w) q = None \<and> q \<notin> set (woken (gh w) (cl w))"
    using w by (auto simp: world_ok_def)
  have q: "m_vWait c = m_vWait (cl w)" "sent c = sent (cl w)" "m_iReaderSessionId c = m_iReaderSessionId (cl w)" "woken g' c = woken (gh w) (cl w)"
    using c(3,4) by (simp_all add: same_queue_def woken_def g'_def)
  define w' where "w' = w\<lparr>cl := c, gh := g'\<rparr>"
  have "world_ok w'"
  proof (rule world_okI)
    show "client_ok (gh w') [] (cl w')" using c(2) by (simp add: w'_def)
    show "distinct (loopq w')" using i(3) by (simp add: w'_def)
    show "set (loopq w') \<subseteq> callers (gh w') - set (m_vWait (cl w'))" using lq(1) p by (auto simp: w'_def q g'_def)
    show "posted (cl w') x \<and> \<not> won (cl w') x" if "x \<in> set (loopq w')" for x
    proof -
      have "x \<noteq> p" using that p by (auto simp: w'_def)
      then show ?thesis using that lq(2) [of x] c(5) [of x] by (auto simp: w'_def posted_def won_def)
    qed
    show "mid (gh w') \<subseteq> callers (gh w')" using lq(3) p by (auto simp: w'_def g'_def)
    show "heap (cl w') x = None \<and> x \<notin> set (woken (gh w') (cl w'))" if "fresh w' \<le> x" for x
      using that lq(4) [of x] s c(5) [of x] by (cases "x = p") (auto simp: w'_def q)
    show "m_vWait (cl w') = drop (answered w') (sent (cl w')) \<and> answered w' \<le> length (sent (cl w'))"
      if "m_iReaderSessionId (cl w') \<noteq> INVALID_SID" "\<not> broken w'"
      using that i(5) by (simp add: w'_def q)
  qed
  moreover have "happen (Drop p) w = Some w'" using c(1) by (simp add: w'_def g'_def)
  ultimately show ?thesis by blast
qed

lemma happen_ok:
  assumes "world_ok w" "enabled ev w"
  shows "\<exists>w'. happen ev w = Some w' \<and> world_ok w'"
proof (cases ev)
  case (NewCall args sync) then show ?thesis using NewCall_step [OF assms(1)] by blast
next
  case (Post p stop) then show ?thesis using Post_step [OF assms(1)] assms(2) by blast
next
  case (Gate p) then show ?thesis using Gate_step [OF assms(1), of p] assms(2) by simp
next
  case (RunSubmit p E) then show ?thesis using Submit_step [OF assms(1), of p E] assms(2) by simp
next
  case (Sweep t) then show ?thesis using Sweep_step [OF assms(1), of t] assms(2) by simp
next
  case (Data sid b rs k) then show ?thesis using Data_step [OF assms(1)] assms(2) by blast
next
  case (Drop p) then show ?thesis using Drop_step [OF assms(1)] assms(2) by blast
qed (use Connect_step [OF assms] in blast)+

text \<open>The runs from a client that has just been made.\<close>

definition start :: "int \<Rightarrow> nat \<Rightarrow> int \<Rightarrow> world" where
  "start iTimeout iMax t0 = \<lparr>
    cl = \<lparr>heap = (\<lambda>_. None), m_vWait = [], m_iSwept = 0, m_iReaderSessionId = INVALID_SID,
      m_iTimeoutMilliseconds = iTimeout, m_iMaxPending = iMax, scheduled = [], sent = []\<rparr>,
    gh = \<lparr>callers = {}, mid = {}, resumed = [], own = (\<lambda>_. None), clock_ms = t0\<rparr>,
    loopq = [], answered = 0, broken = False, fresh = 0\<rparr>"

fun happens :: "redis_event list \<Rightarrow> world \<Rightarrow> world option" where
  "happens [] w = Some w"
| "happens (ev # evs) w = do { w' \<leftarrow> happen ev w; happens evs w' }"

fun possible :: "redis_event list \<Rightarrow> world \<Rightarrow> bool" where
  "possible [] w = True"
| "possible (ev # evs) w = (enabled ev w \<and> (case happen ev w of None \<Rightarrow> True | Some w' \<Rightarrow> possible evs w'))"

lemma start_ok: "world_ok (start iTimeout iMax t0)"
  by (simp add: start_def world_ok_def client_ok_def refs_ok_def calls_ok_def queue_ok_def holders_def woken_def)

lemma happens_ok: "possible evs w \<Longrightarrow> world_ok w \<Longrightarrow> \<exists>w'. happens evs w = Some w' \<and> world_ok w'"
proof (induction evs arbitrary: w)
  case (Cons ev evs)
  then obtain w' where w': "happen ev w = Some w'" "world_ok w'" using happen_ok [of w ev] by auto
  then show ?case using Cons.IH [of w'] Cons.prems by simp
qed simp

definition demo_surroundings :: surroundings where
  "demo_surroundings = \<lparr>StopRequested = False, ConnectedSid = 1, FormatCommand = (\<lambda>_. Some []), ArmRedisSweep = True,
    NowMs = 5, SendBytesResult = OI_OK\<rparr>"

text \<open>Two commands on one connection: the first times out, then both replies arrive.\<close>

definition demo_calls :: "redis_event list" where
  "demo_calls = [Connect 1, NewCall [''GET''] False, Post 0 False, RunSubmit 0 demo_surroundings, Gate 0, Sweep 20,
    NewCall [''PING''] False, Post 1 False, Gate 1, RunSubmit 1 (demo_surroundings\<lparr>NowMs := 21\<rparr>),
    Data 1 True [R_STRING ''v'', R_STATUS ''PONG''] True]"

lemmas demo_simps = demo_calls_def demo_surroundings_def start_def flag_def State_def put_call_def Suspend_post_def
  Suspend_gate_def Submit_def AddReference_def Enqueue_def Release_def Let_def SweepTimeout_def Settle_def Schedule_def
  Feed_def feed_reply_def OnClientConnect_def FailAll_def woken_def

lemma demo_possible: "possible demo_calls (start 10 5 0)"
  by (simp add: demo_simps)

text \<open>
  C30: However calls are made, awaited, posted, sent, answered, timed out, failed and dropped, no freed call
  state is ever touched; a call state exists exactly as long as its caller or the queue holds it; and a
  coroutine is woken at most once, exactly when it waits behind the gate and its call has been settled.
\<close>

theorem redis_calls_safe:
  assumes "possible evs (start iTimeout iMax t0)"
  shows "\<exists>w. happens evs (start iTimeout iMax t0) = Some w
    \<and> (\<forall>p. heap (cl w) p \<noteq> None \<longleftrightarrow> p \<in> callers (gh w) \<or> p \<in> set (m_vWait (cl w)))
    \<and> distinct (woken (gh w) (cl w))
    \<and> (\<forall>p s. heap (cl w) p = Some s \<and> stHandle s \<and> p \<notin> mid (gh w) \<longrightarrow> (p \<in> set (woken (gh w) (cl w)) \<longleftrightarrow> iWon s))"
proof -
  obtain w where w: "happens evs (start iTimeout iMax t0) = Some w" "world_ok w"
    using happens_ok [OF assms start_ok] by blast
  have ok: "client_ok (gh w) [] (cl w)" using world_ids [OF w(2)] by blast
  have h: "heap (cl w) p \<noteq> None \<longleftrightarrow> p \<in> callers (gh w) \<or> p \<in> set (m_vWait (cl w))" for p
  proof
    assume "heap (cl w) p \<noteq> None"
    moreover have "map_option iReferences (heap (cl w) p) = (if holders (gh w) [] (cl w) p = 0 then None else Some (holders (gh w) [] (cl w) p))"
      using ok by (simp add: client_ok_def refs_ok_def)
    ultimately have "holders (gh w) [] (cl w) p \<noteq> 0" by (auto split: if_splits)
    then show "p \<in> callers (gh w) \<or> p \<in> set (m_vWait (cl w))" by (auto simp: holders_def count_list_0_iff split: if_splits)
  qed (use held_alive [OF ok, of p] in auto)
  moreover have "p \<in> set (woken (gh w) (cl w)) \<longleftrightarrow> iWon s"
    if "heap (cl w) p = Some s" "stHandle s" "p \<notin> mid (gh w)" for p s
  proof -
    have "gate_ok (mid (gh w)) (set (woken (gh w) (cl w))) p s" using ok that(1) by (simp add: client_ok_def calls_ok_def)
    then show ?thesis using that(2,3) by (auto simp: gate_ok_def)
  qed
  moreover have "distinct (woken (gh w) (cl w))" using ok by (simp add: client_ok_def calls_ok_def)
  ultimately show ?thesis using w(1) by blast
qed

theorem redis_calls_safe_witness: "\<exists>w. happens demo_calls (start 10 5 0) = Some w \<and> distinct (woken (gh w) (cl w))"
  using redis_calls_safe [OF demo_possible] by blast

text \<open>What a reply does to the call it belongs to.\<close>

definition answered_with :: "redisReply \<Rightarrow> call \<Rightarrow> call \<Rightarrow> bool" where
  "answered_with r s s' \<longleftrightarrow> (if iWon s then pReply s' = pReply s \<and> iStatus s' = iStatus s
    else pReply s' = Some r \<and> iStatus s' = (if is_error r then ServerError else Ok))"

lemma feed_reply_effect:
  assumes w: "m_vWait c = p # ps" and f: "feed_reply r c = Some c'" and s: "heap c p = Some s" "heap c' p = Some s'"
  shows "answered_with r s s'" "frame {p} c c'" "m_vWait c' = ps"
proof -
  define d where "d = c\<lparr>m_vWait := ps, m_iSwept := (if m_iSwept c > 0 then m_iSwept c - 1 else 0)\<rparr>"
  have hd: "heap d p = Some s" "scheduled d = scheduled c" "heap d = heap c" "m_vWait d = ps" using s by (simp_all add: d_def)
  obtain c2 where 2: "(if \<not> iWon s then Settle p (Some r) (if is_error r then ServerError else Ok) d else Some d) = Some c2" "Release p c2 = Some c'"
    using f hd unfolding feed_reply_def w list.case Let_def d_def [symmetric] by (auto simp: Option.bind_eq_Some_conv)
  define t where "t = (if iWon s then s else settled (Some r) (if is_error r then ServerError else Ok) s)"
  have c2: "heap c2 p = Some t \<and> m_vWait c2 = ps \<and> frame {p} d c2"
  proof (cases "iWon s")
    case True
    then show ?thesis using 2(1) hd by (auto simp: t_def)
  next
    case False
    then have "Settle p (Some r) (if is_error r then ServerError else Ok) d = Some c2" using 2(1) by simp
    moreover from this have "c2 = d\<lparr>heap := (heap d)(p \<mapsto> t), scheduled := scheduled d @ (if wakes s then [p] else [])\<rparr>"
      using Settle_eq [OF hd(1)] False by (simp add: t_def)
    ultimately show ?thesis using frame_steps(1) by (simp add: hd)
  qed
  have "pReply s' = pReply t \<and> iStatus s' = iStatus t \<and> m_vWait c' = ps"
    using 2(2) c2 s(2) by (auto simp: Release_def put_call_def split: if_splits)
  then show "answered_with r s s'" "m_vWait c' = ps" by (auto simp: answered_with_def t_def settled_def)
  have "frame {p} d c'" using c2 frame_steps(2) [OF 2(2)] frame_trans by blast
  then show "frame {p} c c'" using hd by (simp add: frame_def)
qed

lemma feed_replies_effect:
  "client_ok g H c \<Longrightarrow> feed_replies rs c = Some c' \<Longrightarrow> length rs \<le> length (m_vWait c) \<Longrightarrow> k < length rs \<Longrightarrow>
    heap c (m_vWait c ! k) = Some s \<Longrightarrow> heap c' (m_vWait c ! k) = Some s' \<Longrightarrow> answered_with (rs ! k) s s'"
proof (induction rs arbitrary: g c k)
  case (Cons r rs)
  obtain p ps where w: "m_vWait c = p # ps" using Cons.prems(3) by (cases "m_vWait c") auto
  obtain c1 where c1: "feed_reply r c = Some c1" "client_ok (g\<lparr>own := (own g)(p \<mapsto> r)\<rparr>) H c1" "m_vWait c1 = ps"
    using feed_reply_ok [OF Cons.prems(1) w, of r] by blast
  have rest: "feed_replies rs c1 = Some c'" using Cons.prems(2) c1(1) by simp
  have p: "p \<notin> set ps" using Cons.prems(1) w by (simp add: client_ok_def queue_ok_def)
  have fr: "frame (set ps) c1 c'" using frame_feed_replies [OF rest] c1(3) by simp
  show ?case
  proof (cases k)
    case 0
    have "heap c1 p = heap c' p" using fr p by (simp add: frame_def)
    then show ?thesis using Cons.prems 0 feed_reply_effect(1) [OF w c1(1)] w by simp
  next
    case (Suc j)
    have ne: "ps ! j \<noteq> p" using Suc Cons.prems(3,4) p w by auto
    obtain s0 where "heap c1 (ps ! j) = Some s0"
      using held_alive [OF c1(2), of "ps ! j"] c1(3) Cons.prems(3,4) Suc w by auto
    have "frame {p} c c1"
    proof -
      obtain t where t: "heap c p = Some t" using held_alive [OF Cons.prems(1), of p] w by auto
      show ?thesis
      proof (cases "heap c1 p")
        case None
        then show ?thesis using c1(1) w t
          by (auto simp: feed_reply_def frame_def Settle_def Release_def put_call_def Schedule_def Let_def Option.bind_eq_Some_conv split: if_splits)
      next
        case (Some u)
        then show ?thesis using feed_reply_effect(2) [OF w c1(1) t] by blast
      qed
    qed
    then have "heap c1 (ps ! j) = Some s" using ne Cons.prems(5) w Suc by (simp add: frame_def)
    then show ?thesis using Cons.IH [OF c1(2) rest] c1(3) Cons.prems w Suc by simp
  qed
qed simp

text \<open>
  C33: Redis answers the commands of a connection in the order in which they were sent. The replies that
  arrive together settle, one by one, the commands sent on this connection after those already answered:
  a call that was still waiting gets exactly the reply to its own command, and one that had been settled
  before, by a timeout, keeps its result although its late reply uses up its place.
\<close>

theorem redis_replies_in_order:
  assumes pos: "possible evs (start iTimeout iMax t0)" and w: "happens evs (start iTimeout iMax t0) = Some w"
    and en: "enabled (Data (m_iReaderSessionId (cl w)) True rs bOk) w" and sid: "m_iReaderSessionId (cl w) \<noteq> INVALID_SID"
  shows "\<exists>w'. happen (Data (m_iReaderSessionId (cl w)) True rs bOk) w = Some w'
    \<and> (\<forall>k < length rs. \<forall>s s'. heap (cl w) (sent (cl w) ! (answered w + k)) = Some s
        \<and> heap (cl w') (sent (cl w) ! (answered w + k)) = Some s' \<longrightarrow> answered_with (rs ! k) s s')"
proof -
  have ok: "world_ok w" using happens_ok [OF pos start_ok] w by simp
  note i = world_ids [OF ok]
  obtain w' where w': "happen (Data (m_iReaderSessionId (cl w)) True rs bOk) w = Some w'" using happen_ok [OF ok en] by blast
  have q: "m_vWait (cl w) = drop (answered w) (sent (cl w))" "answered w \<le> length (sent (cl w))" using i(5) en sid by auto
  have len: "length rs \<le> length (m_vWait (cl w))" using en q by auto
  obtain c1 where c1: "feed_replies rs (cl w) = Some c1" "m_vWait c1 = drop (length rs) (m_vWait (cl w))"
    using feed_replies_ok [OF i(4) len] by blast
  have F: "(if \<not> bOk then FailAll ProtocolError c1 else Some c1) = Some (cl w')"
    using w' c1(1) sid by (cases bOk) (auto simp: Feed_def Option.bind_eq_Some_conv)
  have "answered_with (rs ! k) s s'"
    if k: "k < length rs" and h: "heap (cl w) (sent (cl w) ! (answered w + k)) = Some s" "heap (cl w') (sent (cl w) ! (answered w + k)) = Some s'"
    for k s s'
  proof -
    define p where "p = m_vWait (cl w) ! k"
    have p: "sent (cl w) ! (answered w + k) = p" using q k len by (simp add: p_def)
    have d: "distinct (m_vWait (cl w))" using i(4) by (simp add: client_ok_def queue_ok_def)
    have "p \<notin> set (drop (length rs) (m_vWait (cl w)))"
      using d k len by (auto simp: p_def in_set_conv_nth nth_eq_iff_index_eq)
    then have "heap (cl w') p = heap c1 p"
      using F frame_FailAll [of ProtocolError c1 "cl w'"] c1(2) by (cases bOk) (auto simp: frame_def)
    then show ?thesis using feed_replies_effect [OF i(4) c1(1) len k] h p p_def by simp
  qed
  then show ?thesis using w' by blast
qed

lemma Data_callers: "happen (Data sid bFed rs bOk) w = Some w' \<Longrightarrow> callers (gh w') = callers (gh w)"
  by (cases "Feed sid bFed rs bOk (cl w)") (auto split: if_splits)

lemma demo_before: "possible (butlast demo_calls) (start 10 5 0)"
  by (simp add: demo_simps)

theorem redis_replies_in_order_witness:
  "\<exists>w w' s s'. happens (butlast demo_calls) (start 10 5 0) = Some w
    \<and> happen (Data 1 True [R_STRING ''v'', R_STATUS ''PONG''] True) w = Some w'
    \<and> heap (cl w) 1 = Some s \<and> heap (cl w') 1 = Some s' \<and> answered_with (R_STATUS ''PONG'') s s'"
proof -
  obtain w where w: "happens (butlast demo_calls) (start 10 5 0) = Some w" using happens_ok [OF demo_before start_ok] by blast
  have v: "m_iReaderSessionId (cl w) = 1 \<and> sent (cl w) = [0, 1] \<and> answered w = 0 \<and> \<not> broken w
      \<and> callers (gh w) = {0, 1}"
    using w by (simp add: demo_simps) auto
  have en: "enabled (Data (m_iReaderSessionId (cl w)) True [R_STRING ''v'', R_STATUS ''PONG''] True) w" using v by simp
  obtain w' where w': "happen (Data 1 True [R_STRING ''v'', R_STATUS ''PONG''] True) w = Some w'"
      "\<forall>k < 2. \<forall>s s'. heap (cl w) (sent (cl w) ! (answered w + k)) = Some s
        \<and> heap (cl w') (sent (cl w) ! (answered w + k)) = Some s' \<longrightarrow> answered_with ([R_STRING ''v'', R_STATUS ''PONG''] ! k) s s'"
    using redis_replies_in_order [OF demo_before w en] v by auto
  have "world_ok w" using happens_ok [OF demo_before start_ok] w by simp
  then obtain w'' where "happen (Data 1 True [R_STRING ''v'', R_STATUS ''PONG''] True) w = Some w''" "world_ok w''"
    using happen_ok en v by metis
  then have ok: "world_ok w" "world_ok w'" using w'(1) \<open>world_ok w\<close> by simp_all
  have c: "callers (gh w') = {0, 1}" using Data_callers [OF w'(1)] v by simp
  obtain s where "heap (cl w) 1 = Some s" using held_alive [OF world_ids(4) [OF ok(1)], of 1] v by auto
  moreover obtain s' where "heap (cl w') 1 = Some s'" using held_alive [OF world_ids(4) [OF ok(2)], of 1] c by auto
  moreover have "answered_with ([R_STRING ''v'', R_STATUS ''PONG''] ! 1) s s'" using w'(2) [rule_format, of 1] calculation v by simp
  ultimately show ?thesis using w w'(1) by auto
qed

text \<open>
  After a timeout sweep every call in the queue whose deadline has passed is settled, although the
  sweep stops at the first one that has not expired and never looks again at those it has passed; the
  calls keep their places in the queue, so that later replies still find the right ones.
\<close>

theorem sweep_settles_expired:
  assumes pos: "possible evs (start iTimeout iMax t0)" and w: "happens evs (start iTimeout iMax t0) = Some w"
    and now: "clock_ms (gh w) \<le> iNow"
  shows "\<exists>c. SweepTimeout iNow (cl w) = Some c \<and> m_vWait c = m_vWait (cl w)
    \<and> (\<forall>p \<in> set (m_vWait (cl w)). deadline (cl w) p \<le> iNow \<longrightarrow> won c p)"
proof -
  have "world_ok w" using happens_ok [OF pos start_ok] w by simp
  then have "client_ok (gh w) [] (cl w)" by (rule world_ids)
  then show ?thesis using SweepTimeout_ok [of "gh w" "[]" "cl w" iNow] by metis
qed

theorem sweep_settles_expired_witness:
  "\<exists>w c. happens (butlast demo_calls) (start 10 5 0) = Some w \<and> SweepTimeout 100 (cl w) = Some c \<and> won c 1"
proof -
  obtain w where w: "happens (butlast demo_calls) (start 10 5 0) = Some w" using happens_ok [OF demo_before start_ok] by blast
  then have "clock_ms (gh w) \<le> 100" "1 \<in> set (m_vWait (cl w))" "deadline (cl w) 1 \<le> 100"
    by (simp_all add: demo_simps deadline_def) auto
  then show ?thesis using sweep_settles_expired [OF demo_before w, of 100] w by blast
qed

end
