(* ===== verification/OI_Registry.thy ===== *)
theory OI_Registry
  imports OI_RpcData OI_Decimal OI_RedisClient "HOL-Library.AList"
begin

text \<open>
  The registry process (modules/registry/src/registry_server.cpp): which session registered which service
  instance, the snapshot clients pull, and the coroutines that write registrations to Redis, renew and
  withdraw them.

  Every coroutine is split where it waits for Redis. A call waits in a queue: Redis executes the scripts
  in the order in which the commands were sent, and the client resumes the coroutines in the same order;
  a call may time out, and then it keeps its place in the queue. The Lua scripts are functions on the part
  of Redis they use: string keys and sets, where a key may expire at any moment. A set is kept in the order
  of insertion; the results do not depend on it.
\<close>

section \<open>Names and values\<close>

definition ValidSpacePart :: "string \<Rightarrow> bool" where
  "ValidSpacePart sText \<longleftrightarrow> sText \<noteq> [] \<and> list_all (\<lambda>c.
     (CHR ''a'' \<le> c \<and> c \<le> CHR ''z'') \<or> (CHR ''A'' \<le> c \<and> c \<le> CHR ''Z'') \<or> (CHR ''0'' \<le> c \<and> c \<le> CHR ''9'')
     \<or> c = CHR ''_'' \<or> c = CHR ''-'') sText"

text \<open>\<open>std::string::find\<close> of a character from a position on.\<close>

definition find_from :: "char \<Rightarrow> nat \<Rightarrow> string \<Rightarrow> nat option" where
  "find_from c i s =
    (let t = drop i s; n = length (takeWhile (\<lambda>x. x \<noteq> c) t) in if n < length t then Some (i + n) else None)"

definition ParseValue :: "string \<Rightarrow> (string \<times> string \<times> string) option" where
  "ParseValue sValue = (case find_from CHR '' '' 0 sValue of
      None \<Rightarrow> None
    | Some iFirst \<Rightarrow>
        if iFirst = 0 then None
        else
          let iSecond = find_from CHR '' '' (iFirst + 1) sValue;
              sIp = take iFirst sValue;
              sPort = (case iSecond of None \<Rightarrow> drop (iFirst + 1) sValue
                | Some j \<Rightarrow> take (j - iFirst - 1) (drop (iFirst + 1) sValue));
              sZone = (case iSecond of None \<Rightarrow> [] | Some j \<Rightarrow> drop (j + 1) sValue)
          in if iSecond \<noteq> None \<and> (sZone = [] \<or> find_from CHR '' '' 0 sZone \<noteq> None) then None
             else if sIp \<noteq> [] \<and> sPort \<noteq> [] then Some (sIp, sPort, sZone) else None)"

definition atoi :: "string \<Rightarrow> int" where
  "atoi s =
    (let t = dropWhile is_space s; neg = (t \<noteq> [] \<and> hd t = CHR ''-''); plus = (t \<noteq> [] \<and> hd t = CHR ''+'');
         v = int (dec_val (takeWhile is_digit (if neg \<or> plus then tl t else t)))
     in if neg then - v else v)"

section \<open>State\<close>

abbreviation (input) OI_ERR_EXIST :: int where "OI_ERR_EXIST \<equiv> - 4"
abbreviation (input) REG_FAIL :: int where "REG_FAIL \<equiv> - 1"
abbreviation (input) REG_TAKEN :: int where "REG_TAKEN \<equiv> 0"
abbreviation (input) REG_OK :: int where "REG_OK \<equiv> 1"
abbreviation (input) REG_RENEWED :: int where "REG_RENEWED \<equiv> 2"

abbreviation (input) PROTO_REG_REGISTER :: u32 where "PROTO_REG_REGISTER \<equiv> 4"
abbreviation (input) PROTO_REG_HEARTBEAT :: u32 where "PROTO_REG_HEARTBEAT \<equiv> 6"
abbreviation (input) PROTO_REG_PULL :: u32 where "PROTO_REG_PULL \<equiv> 8"

record Binding =
  b_sName :: string
  b_iId :: int
  b_sIp :: string
  b_sPort :: string
  b_sZone :: string
  b_sValue :: string

record ServiceInstance =
  si_sName :: string
  si_iId :: int
  si_sIp :: string
  si_sPort :: string
  si_sZone :: string

text \<open>The coroutines, each with what it has captured, and the answers sent to clients.\<close>

datatype task = TRegister int Binding | TRefresh int Binding | TWithdraw Binding | TReload

datatype reg_reply = RegisterRes int | HeartbeatRes int | PullRes int "ServiceInstance list"

record regsrv =
  m_vAlive :: "int set"
  m_mBindings :: "(int \<times> Binding list) list"
  m_vSnapshot :: "ServiceInstance list"
  m_bSnapshotOk :: bool
  m_bReloading :: bool
  m_iExpireMilliseconds :: int
  m_sPrefix :: string
  started :: "task list"
  outbox :: "(int \<times> reg_reply) list"

definition RegistryServer :: regsrv where
  "RegistryServer = \<lparr>m_vAlive = {}, m_mBindings = [], m_vSnapshot = [], m_bSnapshotOk = False, m_bReloading = False,
    m_iExpireMilliseconds = 3000, m_sPrefix = [], started = [], outbox = []\<rparr>"

definition LoadSpace :: "string \<Rightarrow> string \<Rightarrow> regsrv \<Rightarrow> regsrv option" where
  "LoadSpace sProject sEnvironment s =
    (if \<not> ValidSpacePart sProject \<or> \<not> ValidSpacePart sEnvironment then None
     else Some (s\<lparr>m_sPrefix := ''oi:{'' @ sProject @ ''.'' @ sEnvironment @ ''}:''\<rparr>))"

definition Key :: "regsrv \<Rightarrow> string \<Rightarrow> string" where
  "Key s sTail = m_sPrefix s @ sTail"

definition StartTask :: "task \<Rightarrow> regsrv \<Rightarrow> regsrv" where
  "StartTask t s = s\<lparr>started := started s @ [t]\<rparr>"

text \<open>A send that fails closes the session, which reports the end of the session later.\<close>

definition Reply :: "int \<Rightarrow> reg_reply \<Rightarrow> regsrv \<Rightarrow> regsrv" where
  "Reply sid r s = s\<lparr>outbox := outbox s @ [(sid, r)]\<rparr>"

section \<open>Redis scripts\<close>

datatype script = kRegisterLua | kRefreshLua | kWithdrawLua | kListAllLua

record store =
  strs :: "string \<Rightarrow> string option"
  sets :: "string \<Rightarrow> string list"

definition SADD :: "string \<Rightarrow> string \<Rightarrow> store \<Rightarrow> store" where
  "SADD k x st = (if x \<in> set (sets st k) then st else st\<lparr>sets := (sets st)(k := sets st k @ [x])\<rparr>)"

definition SREM :: "string \<Rightarrow> string \<Rightarrow> store \<Rightarrow> store" where
  "SREM k x st = st\<lparr>sets := (sets st)(k := removeAll x (sets st k))\<rparr>"

definition SETPX :: "string \<Rightarrow> string \<Rightarrow> store \<Rightarrow> store" where
  "SETPX k v st = st\<lparr>strs := (strs st)(k \<mapsto> v)\<rparr>"

definition DEL :: "string \<Rightarrow> store \<Rightarrow> store" where
  "DEL k st = st\<lparr>strs := (strs st)(k := None)\<rparr>"

definition lua_register :: "string list \<Rightarrow> string list \<Rightarrow> store \<Rightarrow> redisReply \<times> store" where
  "lua_register K A st =
    (if strs st (K ! 0) \<noteq> None \<and> strs st (K ! 0) \<noteq> Some (A ! 0) then (R_INTEGER 0, st)
     else (R_INTEGER 1, SADD (K ! 2) (A ! 3) (SADD (K ! 1) (A ! 2) (SETPX (K ! 0) (A ! 0) st))))"

definition lua_refresh :: "string list \<Rightarrow> string list \<Rightarrow> store \<Rightarrow> redisReply \<times> store" where
  "lua_refresh K A st =
    (if strs st (K ! 0) = Some (A ! 0) then (R_INTEGER 1, SADD (K ! 2) (A ! 3) (SADD (K ! 1) (A ! 2) st))
     else if strs st (K ! 0) \<noteq> None then (R_INTEGER 0, st)
     else (R_INTEGER 2, SADD (K ! 2) (A ! 3) (SADD (K ! 1) (A ! 2) (SETPX (K ! 0) (A ! 0) st))))"

definition lua_withdraw :: "string list \<Rightarrow> string list \<Rightarrow> store \<Rightarrow> redisReply \<times> store" where
  "lua_withdraw K A st =
    (R_INTEGER 1, if strs st (K ! 0) = Some (A ! 0) then SREM (K ! 1) (A ! 1) (DEL (K ! 0) st) else st)"

text \<open>The inner and the outer loop of the list script.\<close>

fun list_ids :: "string \<Rightarrow> string \<Rightarrow> string list \<Rightarrow> store \<Rightarrow> string list \<times> store" where
  "list_ids n ks [] st = ([], st)"
| "list_ids n ks (i # is) st = (case strs st (ks @ '':'' @ i) of
      Some v \<Rightarrow> let (out, st') = list_ids n ks is st in (n # i # v # out, st')
    | None \<Rightarrow> list_ids n ks is (SREM ks i st))"

fun list_names :: "string \<Rightarrow> string \<Rightarrow> string list \<Rightarrow> store \<Rightarrow> string list \<times> store" where
  "list_names k1 pre [] st = ([], st)"
| "list_names k1 pre (n # ns) st =
    (let (out, st1) = list_ids n (pre @ n) (sets st (pre @ n)) st;
         st2 = (if out = [] then SREM k1 n st1 else st1);
         (rest, st3) = list_names k1 pre ns st2
     in (out @ rest, st3))"

definition lua_list_all :: "string list \<Rightarrow> string list \<Rightarrow> store \<Rightarrow> redisReply \<times> store" where
  "lua_list_all K A st =
    (let (out, st') = list_names (K ! 0) (A ! 0) (sets st (K ! 0)) st
     in (R_ARRAY (map (\<lambda>x. Some (R_STRING x)) out), st'))"

definition redis_eval :: "script \<times> string list \<times> string list \<Rightarrow> store \<Rightarrow> redisReply \<times> store" where
  "redis_eval cmd st = (case cmd of (sc, K, A) \<Rightarrow> (case sc of
      kRegisterLua \<Rightarrow> lua_register K A st
    | kRefreshLua \<Rightarrow> lua_refresh K A st
    | kWithdrawLua \<Rightarrow> lua_withdraw K A st
    | kListAllLua \<Rightarrow> lua_list_all K A st))"

section \<open>Commands\<close>

definition inst_key :: "regsrv \<Rightarrow> Binding \<Rightarrow> string" where
  "inst_key s b = Key s (''svc:'' @ b_sName b @ '':'' @ to_string (b_iId b))"

definition EvalArgs :: "script \<Rightarrow> Binding \<Rightarrow> regsrv \<Rightarrow> script \<times> string list \<times> string list" where
  "EvalArgs pLua b s = (pLua, [inst_key s b, Key s (''svc:'' @ b_sName b), Key s ''svc''],
    [b_sValue b, to_string (m_iExpireMilliseconds s), to_string (b_iId b), b_sName b])"

text \<open>The command a coroutine sends before it waits.\<close>

fun command :: "task \<Rightarrow> regsrv \<Rightarrow> script \<times> string list \<times> string list" where
  "command (TRegister sid b) s = EvalArgs kRegisterLua b s"
| "command (TRefresh sid b) s = EvalArgs kRefreshLua b s"
| "command (TWithdraw b) s =
    (kWithdrawLua, [inst_key s b, Key s (''svc:'' @ b_sName b)], [b_sValue b, to_string (b_iId b)])"
| "command TReload s = (kListAllLua, [Key s ''svc''], [Key s ''svc:''])"

section \<open>Sessions, bindings and the snapshot\<close>

definition OnAddSession :: "int \<Rightarrow> regsrv \<Rightarrow> regsrv" where
  "OnAddSession sid s = s\<lparr>m_vAlive := insert sid (m_vAlive s)\<rparr>"

definition bindings_of :: "regsrv \<Rightarrow> int \<Rightarrow> Binding list" where
  "bindings_of s sid = (case map_of (m_mBindings s) sid of None \<Rightarrow> [] | Some l \<Rightarrow> l)"

definition same_service :: "string \<Rightarrow> int \<Rightarrow> Binding \<Rightarrow> bool" where
  "same_service n i b \<longleftrightarrow> b_sName b = n \<and> b_iId b = i"

definition FindBinding :: "int \<Rightarrow> string \<Rightarrow> int \<Rightarrow> regsrv \<Rightarrow> Binding option" where
  "FindBinding sid n i s = List.find (same_service n i) (bindings_of s sid)"

fun drop_first :: "('a \<Rightarrow> bool) \<Rightarrow> 'a list \<Rightarrow> 'a list" where
  "drop_first P [] = []"
| "drop_first P (x # xs) = (if P x then xs else x # drop_first P xs)"

fun replace_first :: "('a \<Rightarrow> bool) \<Rightarrow> 'a \<Rightarrow> 'a list \<Rightarrow> 'a list" where
  "replace_first P y [] = []"
| "replace_first P y (x # xs) = (if P x then y # xs else x # replace_first P y xs)"

definition DropSnapshot :: "string \<Rightarrow> int \<Rightarrow> regsrv \<Rightarrow> regsrv" where
  "DropSnapshot n i s = s\<lparr>m_vSnapshot := drop_first (\<lambda>x. si_sName x = n \<and> si_iId x = i) (m_vSnapshot s)\<rparr>"

definition PutSnapshot :: "Binding \<Rightarrow> regsrv \<Rightarrow> regsrv" where
  "PutSnapshot b s =
    (let s1 = DropSnapshot (b_sName b) (b_iId b) s
     in s1\<lparr>m_vSnapshot := m_vSnapshot s1 @ [\<lparr>si_sName = b_sName b, si_iId = b_iId b, si_sIp = b_sIp b,
        si_sPort = b_sPort b, si_sZone = b_sZone b\<rparr>]\<rparr>)"

fun close_bindings :: "Binding list \<Rightarrow> regsrv \<Rightarrow> regsrv" where
  "close_bindings [] s = s"
| "close_bindings (b # bs) s = close_bindings bs (StartTask (TWithdraw b) (DropSnapshot (b_sName b) (b_iId b) s))"

definition OnDelSession :: "int \<Rightarrow> regsrv \<Rightarrow> regsrv" where
  "OnDelSession sid s =
    (let s1 = s\<lparr>m_vAlive := m_vAlive s - {sid}\<rparr>
     in case map_of (m_mBindings s1) sid of
          None \<Rightarrow> s1
        | Some vList \<Rightarrow> close_bindings vList (s1\<lparr>m_mBindings := AList.delete sid (m_mBindings s1)\<rparr>))"

definition StartReload :: "regsrv \<Rightarrow> regsrv" where
  "StartReload s = (if m_bReloading s then s else StartTask TReload (s\<lparr>m_bReloading := True\<rparr>))"

section \<open>What the coroutines do with the answer\<close>

text \<open>The answer is \<open>None\<close> when the call failed: timed out, refused or cut off.\<close>

definition ReplyInt :: "redisReply option \<Rightarrow> int" where
  "ReplyInt r = (case r of Some (R_INTEGER n) \<Rightarrow> n | _ \<Rightarrow> - 1)"

fun read_instances :: "redisReply option list \<Rightarrow> ServiceInstance list" where
  "read_instances (Some (R_STRING n) # Some (R_STRING i) # Some (R_STRING v) # rs) = (case ParseValue v of
      None \<Rightarrow> read_instances rs
    | Some (ip, port, zone) \<Rightarrow>
        \<lparr>si_sName = n, si_iId = atoi i, si_sIp = ip, si_sPort = port, si_sZone = zone\<rparr> # read_instances rs)"
| "read_instances (_ # _ # _ # rs) = read_instances rs"
| "read_instances _ = []"

definition Reload_resume :: "redisReply option \<Rightarrow> regsrv \<Rightarrow> regsrv" where
  "Reload_resume r s =
    (let s1 = s\<lparr>m_bReloading := False\<rparr>
     in case r of
          Some (R_ARRAY es) \<Rightarrow> s1\<lparr>m_vSnapshot := read_instances es, m_bSnapshotOk := True\<rparr>
        | _ \<Rightarrow> s1)"

definition Register_resume :: "int \<Rightarrow> Binding \<Rightarrow> redisReply option \<Rightarrow> regsrv \<Rightarrow> regsrv" where
  "Register_resume sid b r s =
    (let rc = ReplyInt r
     in if sid \<notin> m_vAlive s then (if rc = REG_OK then StartTask (TWithdraw b) s else s)
        else if rc = REG_OK then
          let l = bindings_of s sid;
              s1 = s\<lparr>m_mBindings := AList.update sid (case FindBinding sid (b_sName b) (b_iId b) s of
                  None \<Rightarrow> l @ [b]
                | Some _ \<Rightarrow> replace_first (same_service (b_sName b) (b_iId b)) b l) (m_mBindings s)\<rparr>
          in Reply sid (RegisterRes OI_OK) (PutSnapshot b s1)
        else if rc = REG_TAKEN then Reply sid (RegisterRes OI_ERR_EXIST) s
        else Reply sid (RegisterRes OI_ERR_FAIL) s)"

definition Refresh_resume :: "int \<Rightarrow> Binding \<Rightarrow> redisReply option \<Rightarrow> regsrv \<Rightarrow> regsrv" where
  "Refresh_resume sid b r s =
    (let rc = ReplyInt r;
         pFound = (if sid \<in> m_vAlive s then FindBinding sid (b_sName b) (b_iId b) s else None)
     in if pFound = None \<or> b_sValue (the pFound) \<noteq> b_sValue b
        then (if rc = REG_OK \<or> rc = REG_RENEWED then StartTask (TWithdraw b) s else s)
        else if rc = REG_OK \<or> rc = REG_RENEWED
        then Reply sid (HeartbeatRes OI_OK) (if rc = REG_RENEWED then PutSnapshot b s else s)
        else if rc = REG_TAKEN
        then Reply sid (HeartbeatRes OI_ERR_EXIST) (s\<lparr>
          m_mBindings := AList.update sid (drop_first (same_service (b_sName b) (b_iId b)) (bindings_of s sid)) (m_mBindings s),
          m_vSnapshot := drop_first (\<lambda>x. si_sName x = b_sName b \<and> si_iId x = b_iId b \<and> si_sIp x = b_sIp b \<and> si_sPort x = b_sPort b)
            (m_vSnapshot s)\<rparr>)
        else Reply sid (HeartbeatRes OI_ERR_FAIL) s)"

definition Withdraw_resume :: "Binding \<Rightarrow> regsrv \<Rightarrow> regsrv" where
  "Withdraw_resume b s =
    (if \<exists>l \<in> set (m_mBindings s). \<exists>x \<in> set (snd l). same_service (b_sName b) (b_iId b) x then s
     else DropSnapshot (b_sName b) (b_iId b) s)"

fun resume :: "task \<Rightarrow> redisReply option \<Rightarrow> regsrv \<Rightarrow> regsrv" where
  "resume (TRegister sid b) r s = Register_resume sid b r s"
| "resume (TRefresh sid b) r s = Refresh_resume sid b r s"
| "resume (TWithdraw b) r s = Withdraw_resume b s"
| "resume TReload r s = Reload_resume r s"

section \<open>Requests\<close>

definition binding_of_request :: "RegRegister \<Rightarrow> Binding" where
  "binding_of_request q = \<lparr>b_sName = reg_sName q, b_iId = sint (reg_iId q), b_sIp = reg_sIp q, b_sPort = reg_sPort q,
    b_sZone = reg_sZone q,
    b_sValue = reg_sIp q @ '' '' @ reg_sPort q @ (if reg_sZone q \<noteq> [] then '' '' @ reg_sZone q else [])\<rparr>"

definition Handle_register :: "int \<Rightarrow> RegRegister \<Rightarrow> regsrv \<Rightarrow> regsrv" where
  "Handle_register sid q s =
    (if \<not> ValidSpacePart (reg_sName q) \<or> sint (reg_iId q) \<le> 0 \<or> reg_sIp q = [] \<or> reg_sPort q = []
        \<or> (reg_sZone q \<noteq> [] \<and> \<not> ValidSpacePart (reg_sZone q))
     then Reply sid (RegisterRes OI_ERR_FAIL) s
     else StartTask (TRegister sid (binding_of_request q)) s)"

definition Handle_heartbeat :: "int \<Rightarrow> RegHeartbeat \<Rightarrow> regsrv \<Rightarrow> regsrv" where
  "Handle_heartbeat sid q s = (case FindBinding sid (hb_sName q) (sint (hb_iId q)) s of
      None \<Rightarrow> Reply sid (HeartbeatRes OI_ERR_FAIL) s
    | Some b \<Rightarrow> StartTask (TRefresh sid b) s)"

definition Handle_pull :: "int \<Rightarrow> RegPull \<Rightarrow> regsrv \<Rightarrow> regsrv" where
  "Handle_pull sid q s =
    (if m_bSnapshotOk s
     then Reply sid (PullRes OI_OK (filter (\<lambda>x. pull_vNames q = [] \<or> si_sName x \<in> set (pull_vNames q)) (m_vSnapshot s))) s
     else Reply sid (PullRes OI_ERR_FAIL []) s)"

text \<open>The dispatch on the protocol number; a body that does not parse raises the parser's exception.\<close>

definition Handle :: "allocator \<Rightarrow> int \<Rightarrow> u32 \<Rightarrow> stream \<Rightarrow> regsrv \<Rightarrow> exc + regsrv" where
  "Handle A sid iId stBody s =
    (if iId = PROTO_REG_REGISTER then (case RegRegister_deserialize A RegRegister_default stBody of
         (None, q, _) \<Rightarrow> Inr (Handle_register sid q s) | (Some e, _) \<Rightarrow> Inl e)
     else if iId = PROTO_REG_HEARTBEAT then (case RegHeartbeat_deserialize A RegHeartbeat_default stBody of
         (None, q, _) \<Rightarrow> Inr (Handle_heartbeat sid q s) | (Some e, _) \<Rightarrow> Inl e)
     else if iId = PROTO_REG_PULL then (case RegPull_deserialize A RegPull_default stBody of
         (None, q, _) \<Rightarrow> Inr (Handle_pull sid q s) | (Some e, _) \<Rightarrow> Inl e)
     else Inr s)"

section \<open>Runs\<close>

text \<open>
  A call to Redis on its way: the coroutine, the result once Redis has executed the script, and whether
  the call has been given up (timed out or cut off), after which its answer is dropped. \<open>lost\<close> remembers
  the registrations about which a call was given up; only their expiry removes them for certain.
\<close>

record flight =
  f_task :: task
  f_cmd :: "script \<times> string list \<times> string list"
  f_result :: "redisReply option"
  f_failed :: bool

record regworld =
  srv :: regsrv
  redis :: store
  flights :: "flight list"
  lost :: "(string \<times> string) set"

datatype reg_event =
    AddSession int
  | DelSession int
  | ReqRegister int RegRegister
  | ReqHeartbeat int RegHeartbeat
  | ReqPull int RegPull
  | ReloadTimer
  | RunTask nat
  | Exec
  | Answer
  | GiveUp nat
  | DropAnswer
  | Expire string

text \<open>Redis executes the first command that it has not executed yet.\<close>

fun exec_first :: "flight list \<Rightarrow> store \<Rightarrow> flight list \<times> store" where
  "exec_first [] st = ([], st)"
| "exec_first (f # fs) st = (case f_result f of
      None \<Rightarrow> let (r, st') = redis_eval (f_cmd f) st in (f\<lparr>f_result := Some r\<rparr> # fs, st')
    | Some r \<Rightarrow> let (fs', st') = exec_first fs st in (f # fs', st'))"

fun task_lost :: "task \<Rightarrow> regsrv \<Rightarrow> (string \<times> string) set" where
  "task_lost (TRegister sid b) s = {(inst_key s b, b_sValue b)}"
| "task_lost (TRefresh sid b) s = {(inst_key s b, b_sValue b)}"
| "task_lost (TWithdraw b) s = {(inst_key s b, b_sValue b)}"
| "task_lost TReload s = {}"

fun reg_step :: "reg_event \<Rightarrow> regworld \<Rightarrow> regworld" where
  "reg_step (AddSession sid) w = w\<lparr>srv := OnAddSession sid (srv w)\<rparr>"
| "reg_step (DelSession sid) w = w\<lparr>srv := OnDelSession sid (srv w)\<rparr>"
| "reg_step (ReqRegister sid q) w = (if sid \<in> m_vAlive (srv w) then w\<lparr>srv := Handle_register sid q (srv w)\<rparr> else w)"
| "reg_step (ReqHeartbeat sid q) w = (if sid \<in> m_vAlive (srv w) then w\<lparr>srv := Handle_heartbeat sid q (srv w)\<rparr> else w)"
| "reg_step (ReqPull sid q) w = (if sid \<in> m_vAlive (srv w) then w\<lparr>srv := Handle_pull sid q (srv w)\<rparr> else w)"
| "reg_step ReloadTimer w = w\<lparr>srv := StartReload (srv w)\<rparr>"
| "reg_step (RunTask i) w = (if i < length (started (srv w))
    then let t = started (srv w) ! i
      in w\<lparr>srv := (srv w)\<lparr>started := take i (started (srv w)) @ drop (Suc i) (started (srv w))\<rparr>,
        flights := flights w @ [\<lparr>f_task = t, f_cmd = command t (srv w), f_result = None, f_failed = False\<rparr>]\<rparr>
    else w)"
| "reg_step Exec w = (let (fs, st) = exec_first (flights w) (redis w) in w\<lparr>redis := st, flights := fs\<rparr>)"
| "reg_step Answer w = (case flights w of
      f # fs \<Rightarrow> if f_result f \<noteq> None \<and> \<not> f_failed f
        then w\<lparr>srv := resume (f_task f) (f_result f) (srv w), flights := fs\<rparr> else w
    | [] \<Rightarrow> w)"
| "reg_step (GiveUp i) w = (if i < length (flights w) \<and> \<not> f_failed (flights w ! i)
    then w\<lparr>srv := resume (f_task (flights w ! i)) None (srv w),
      flights := (flights w)[i := (flights w ! i)\<lparr>f_failed := True\<rparr>],
      lost := lost w \<union> task_lost (f_task (flights w ! i)) (srv w)\<rparr>
    else w)"
| "reg_step DropAnswer w = (case flights w of
      f # fs \<Rightarrow> if f_failed f then w\<lparr>flights := fs\<rparr> else w
    | [] \<Rightarrow> w)"
| "reg_step (Expire k) w = w\<lparr>redis := DEL k (redis w)\<rparr>"

text \<open>Who accounts for a key of Redis: a live session, or a coroutine that is still on its way.\<close>

definition bound :: "regsrv \<Rightarrow> string \<Rightarrow> string \<Rightarrow> bool" where
  "bound s k v \<longleftrightarrow> (\<exists>sid \<in> m_vAlive s. \<exists>b \<in> set (bindings_of s sid). inst_key s b = k \<and> b_sValue b = v)"

fun withdraws :: "regsrv \<Rightarrow> string \<Rightarrow> string \<Rightarrow> task \<Rightarrow> bool" where
  "withdraws s k v (TWithdraw b) = (inst_key s b = k \<and> b_sValue b = v)"
| "withdraws s k v _ = False"

definition wrote :: "flight \<Rightarrow> bool" where
  "wrote f \<longleftrightarrow> (case f_task f of
      TRegister sid b \<Rightarrow> ReplyInt (f_result f) = REG_OK
    | TRefresh sid b \<Rightarrow> ReplyInt (f_result f) = REG_OK \<or> ReplyInt (f_result f) = REG_RENEWED
    | _ \<Rightarrow> False)"

definition writes :: "regsrv \<Rightarrow> string \<Rightarrow> string \<Rightarrow> flight \<Rightarrow> bool" where
  "writes s k v f \<longleftrightarrow> (\<not> f_failed f \<and> wrote f \<and> (case f_task f of
      TRegister sid b \<Rightarrow> inst_key s b = k \<and> b_sValue b = v
    | TRefresh sid b \<Rightarrow> inst_key s b = k \<and> b_sValue b = v
    | _ \<Rightarrow> False))"

definition holds :: "regsrv \<Rightarrow> string \<Rightarrow> string \<Rightarrow> flight \<Rightarrow> bool" where
  "holds s k v f \<longleftrightarrow> writes s k v f \<or> (f_result f = None \<and> \<not> f_failed f \<and> withdraws s k v (f_task f))"

definition accounted :: "regworld \<Rightarrow> string \<Rightarrow> string \<Rightarrow> bool" where
  "accounted w k v \<longleftrightarrow> bound (srv w) k v \<or> (\<exists>t \<in> set (started (srv w)). withdraws (srv w) k v t)
    \<or> (\<exists>f \<in> set (flights w). holds (srv w) k v f) \<or> (k, v) \<in> lost w"

text \<open>
  The order of the answers: when the answer to an earlier script says that a value was written, or that
  another one was found, and Redis now says otherwise, then a later script wrote what Redis has now.
\<close>

definition stale :: "regsrv \<Rightarrow> string \<Rightarrow> string \<Rightarrow> flight \<Rightarrow> bool" where
  "stale s k v f \<longleftrightarrow> \<not> f_failed f \<and> (case f_task f of
      TRegister sid b \<Rightarrow> wrote f \<and> inst_key s b = k \<and> b_sValue b \<noteq> v
    | TRefresh sid b \<Rightarrow> inst_key s b = k \<and> (wrote f \<and> b_sValue b \<noteq> v \<or> ReplyInt (f_result f) = REG_TAKEN \<and> b_sValue b = v)
    | _ \<Rightarrow> False)"

fun later_ok :: "regsrv \<Rightarrow> store \<Rightarrow> (string \<times> string) set \<Rightarrow> flight list \<Rightarrow> bool" where
  "later_ok s st L [] = True"
| "later_ok s st L (f # fs) = ((\<forall>k v. strs st k = Some v \<and> stale s k v f \<longrightarrow> (k, v) \<in> L \<or> (\<exists>g \<in> set fs. writes s k v g))
    \<and> later_ok s st L fs)"

text \<open>Executed calls come first, a given up call is accounted as lost, and a call carries its own command.\<close>

fun prefix_ok :: "flight list \<Rightarrow> bool" where
  "prefix_ok [] = True"
| "prefix_ok (f # fs) = ((f_result f = None \<longrightarrow> (\<forall>g \<in> set fs. f_result g = None)) \<and> prefix_ok fs)"

definition flight_ok :: "regsrv \<Rightarrow> (string \<times> string) set \<Rightarrow> flight \<Rightarrow> bool" where
  "flight_ok s L f \<longleftrightarrow> f_cmd f = command (f_task f) s \<and> (f_failed f \<longrightarrow> task_lost (f_task f) s \<subseteq> L)"

definition reg_ok :: "regworld \<Rightarrow> bool" where
  "reg_ok w \<longleftrightarrow> (\<forall>k v. strs (redis w) k = Some v \<longrightarrow> accounted w k v)
    \<and> later_ok (srv w) (redis w) (lost w) (flights w) \<and> prefix_ok (flights w)
    \<and> (\<forall>f \<in> set (flights w). flight_ok (srv w) (lost w) f)
    \<and> distinct (map fst (m_mBindings (srv w))) \<and> fst ` set (m_mBindings (srv w)) \<subseteq> m_vAlive (srv w)"

text \<open>Only the prefix and the lifetime of a registration go into a command.\<close>

definition same_space :: "regsrv \<Rightarrow> regsrv \<Rightarrow> bool" where
  "same_space s s' \<longleftrightarrow> m_sPrefix s' = m_sPrefix s \<and> m_iExpireMilliseconds s' = m_iExpireMilliseconds s"

lemma same_space_cong:
  assumes "same_space s s'"
  shows "inst_key s' = inst_key s" "command t s' = command t s" "withdraws s' = withdraws s" "writes s' = writes s"
    "holds s' = holds s" "stale s' = stale s" "later_ok s' = later_ok s" "flight_ok s' = flight_ok s" "task_lost t s' = task_lost t s"
proof -
  show k: "inst_key s' = inst_key s" using assms by (simp add: fun_eq_iff inst_key_def Key_def same_space_def)
  show c: "command t s' = command t s" for t using assms k by (cases t) (simp_all add: EvalArgs_def Key_def same_space_def)
  show wd: "withdraws s' = withdraws s"
  proof (intro ext)
    fix x v t show "withdraws s' x v t = withdraws s x v t" by (cases t) (simp_all add: k)
  qed
  show wr: "writes s' = writes s" by (simp add: fun_eq_iff writes_def k split: task.split)
  show "holds s' = holds s" by (simp add: fun_eq_iff holds_def wd wr)
  show st: "stale s' = stale s" by (simp add: fun_eq_iff stale_def k split: task.split)
  show "later_ok s' = later_ok s"
  proof (intro ext)
    fix x L fs show "later_ok s' x L fs = later_ok s x L fs" by (induction fs) (simp_all add: st wr)
  qed
  show tl: "task_lost t s' = task_lost t s" for t by (cases t) (simp_all add: k)
  show "flight_ok s' = flight_ok s" by (simp add: fun_eq_iff flight_ok_def c tl)
qed


definition claims :: "regsrv \<Rightarrow> string \<Rightarrow> string \<Rightarrow> bool" where
  "claims s k v \<longleftrightarrow> bound s k v \<or> (\<exists>t \<in> set (started s). withdraws s k v t)"

definition bindings_ok :: "regsrv \<Rightarrow> bool" where
  "bindings_ok s \<longleftrightarrow> distinct (map fst (m_mBindings s)) \<and> fst ` set (m_mBindings s) \<subseteq> m_vAlive s"

lemma reg_okI:
  assumes "\<And>k v. strs (redis w) k = Some v \<Longrightarrow> claims (srv w) k v \<or> (\<exists>f \<in> set (flights w). holds (srv w) k v f) \<or> (k, v) \<in> lost w"
    "later_ok (srv w) (redis w) (lost w) (flights w)" "prefix_ok (flights w)"
    "\<And>f. f \<in> set (flights w) \<Longrightarrow> flight_ok (srv w) (lost w) f" "bindings_ok (srv w)"
  shows "reg_ok w"
  using assms unfolding reg_ok_def accounted_def claims_def bindings_ok_def by blast

lemma reg_okD:
  assumes "reg_ok w"
  shows "\<And>k v. strs (redis w) k = Some v \<Longrightarrow> claims (srv w) k v \<or> (\<exists>f \<in> set (flights w). holds (srv w) k v f) \<or> (k, v) \<in> lost w"
    "later_ok (srv w) (redis w) (lost w) (flights w)" "prefix_ok (flights w)"
    "\<And>f. f \<in> set (flights w) \<Longrightarrow> flight_ok (srv w) (lost w) f" "bindings_ok (srv w)"
  using assms unfolding reg_ok_def accounted_def claims_def bindings_ok_def by blast+

text \<open>A step of the server that keeps every claim.\<close>

lemma srv_step:
  assumes w: "reg_ok w" and sp: "same_space (srv w) s'" and b: "bindings_ok s'"
    and c: "\<And>k v. claims (srv w) k v \<Longrightarrow> claims s' k v"
  shows "reg_ok (w\<lparr>srv := s'\<rparr>)"
proof (rule reg_okI)
  note d = reg_okD [OF w] and e = same_space_cong [OF sp]
  show "claims (srv (w\<lparr>srv := s'\<rparr>)) k v \<or> (\<exists>f \<in> set (flights (w\<lparr>srv := s'\<rparr>)). holds (srv (w\<lparr>srv := s'\<rparr>)) k v f) \<or> (k, v) \<in> lost (w\<lparr>srv := s'\<rparr>)"
    if "strs (redis (w\<lparr>srv := s'\<rparr>)) k = Some v" for k v
    using d(1) [of k v] that c by (auto simp: e)
qed (use reg_okD [OF w] same_space_cong [OF sp] b in auto)

lemma bindings_of_update:
  "distinct (map fst (m_mBindings s)) \<Longrightarrow>
    bindings_of (s\<lparr>m_mBindings := AList.update sid l (m_mBindings s)\<rparr>) x = (if x = sid then l else bindings_of s x)"
  by (simp add: bindings_of_def update_conv')

lemma bindings_of_delete:
  "bindings_of (s\<lparr>m_mBindings := AList.delete sid (m_mBindings s)\<rparr>) x = (if x = sid then [] else bindings_of s x)"
  by (simp add: bindings_of_def delete_conv')

lemma bindings_ok_update:
  "bindings_ok s \<Longrightarrow> sid \<in> m_vAlive s \<Longrightarrow> bindings_ok (s\<lparr>m_mBindings := AList.update sid l (m_mBindings s)\<rparr>)"
  by (auto simp: bindings_ok_def distinct_update dom_update image_iff dest!: set_mp [OF equalityD1 [OF dom_update]])

text \<open>The parts of the server that no claim depends on.\<close>

lemma same_simps [simp]:
  "m_mBindings (Reply sid r s) = m_mBindings s" "m_vAlive (Reply sid r s) = m_vAlive s" "started (Reply sid r s) = started s"
  "same_space s' (Reply sid r s) = same_space s' s"
  "m_mBindings (DropSnapshot n i s) = m_mBindings s" "m_vAlive (DropSnapshot n i s) = m_vAlive s" "started (DropSnapshot n i s) = started s"
  "same_space s' (DropSnapshot n i s) = same_space s' s"
  "m_mBindings (PutSnapshot b s) = m_mBindings s" "m_vAlive (PutSnapshot b s) = m_vAlive s" "started (PutSnapshot b s) = started s"
  "same_space s' (PutSnapshot b s) = same_space s' s"
  "m_mBindings (StartTask t s) = m_mBindings s" "m_vAlive (StartTask t s) = m_vAlive s" "started (StartTask t s) = started s @ [t]"
  "same_space s' (StartTask t s) = same_space s' s"
  "same_space s s"
  by (simp_all add: Reply_def DropSnapshot_def PutSnapshot_def StartTask_def same_space_def Let_def)

lemma claims_cong:
  assumes "m_mBindings s' = m_mBindings s" "m_vAlive s' = m_vAlive s" "set (started s) \<subseteq> set (started s')" "same_space s s'"
  shows "claims s k v \<Longrightarrow> claims s' k v" "bindings_ok s' = bindings_ok s"
  using assms same_space_cong [OF assms(4)] by (auto simp: claims_def bound_def bindings_of_def bindings_ok_def)

lemma same_step:
  assumes "reg_ok w" "m_mBindings s' = m_mBindings (srv w)" "m_vAlive s' = m_vAlive (srv w)"
    "set (started (srv w)) \<subseteq> set (started s')" "same_space (srv w) s'"
  shows "reg_ok (w\<lparr>srv := s'\<rparr>)"
  using srv_step [OF assms(1,5)] claims_cong [OF assms(2-5)] reg_okD(5) [OF assms(1)] by blast


lemma close_bindings_simps:
  "m_mBindings (close_bindings bs s) = m_mBindings s" "m_vAlive (close_bindings bs s) = m_vAlive s"
  "started (close_bindings bs s) = started s @ map TWithdraw bs" "same_space s' (close_bindings bs s) = same_space s' s"
  "m_sPrefix (close_bindings bs s) = m_sPrefix s" "m_iExpireMilliseconds (close_bindings bs s) = m_iExpireMilliseconds s"
  by (induction bs arbitrary: s) (simp_all add: StartTask_def DropSnapshot_def same_space_def)

lemma DelSession_ok:
  assumes w: "reg_ok w"
  shows "reg_ok (w\<lparr>srv := OnDelSession sid (srv w)\<rparr>)"
proof (rule srv_step [OF w])
  define s where "s = srv w"
  define s' where "s' = OnDelSession sid s"
  have ok: "bindings_ok s" using reg_okD(5) [OF w] by (simp add: s_def)
  define l where "l = bindings_of s sid"
  have alive: "m_vAlive s' = m_vAlive s - {sid}" and sp: "same_space s s'" and st: "started s' = started s @ map TWithdraw l"
    by (auto simp: s'_def OnDelSession_def Let_def close_bindings_simps l_def bindings_of_def same_space_def split: option.splits)
  have bi: "m_mBindings s' = (if map_of (m_mBindings s) sid = None then m_mBindings s else AList.delete sid (m_mBindings s))"
    by (simp add: s'_def OnDelSession_def Let_def close_bindings_simps split: option.splits)
  have bo: "bindings_of s' x = (if x = sid then [] else bindings_of s x)" for x
    by (auto simp: bindings_of_def bi delete_conv' split: option.splits)
  show "same_space (srv w) (OnDelSession sid (srv w))" using sp by (simp add: s_def s'_def)
  have "sid \<notin> fst ` set (m_mBindings s')"
    by (simp add: bi map_of_eq_None_iff AList.delete_notin_dom)
  moreover have "fst ` set (m_mBindings s') \<subseteq> fst ` set (m_mBindings s)"
    using AList.dom_delete_subset [of sid "m_mBindings s"] by (simp add: bi)
  ultimately have "fst ` set (m_mBindings s') \<subseteq> m_vAlive s'" using ok by (auto simp: bindings_ok_def alive)
  moreover have "distinct (map fst (m_mBindings s'))" using ok by (simp add: bindings_ok_def bi AList.distinct_delete)
  ultimately show "bindings_ok (OnDelSession sid (srv w))" by (simp add: bindings_ok_def s_def s'_def)
  show "claims (OnDelSession sid (srv w)) k v" if "claims (srv w) k v" for k v
  proof -
    have c: "claims s k v" using that by (simp add: s_def)
    note e = same_space_cong [OF sp]
    have "claims s' k v"
    proof (cases "\<exists>b \<in> set l. inst_key s b = k \<and> b_sValue b = v")
      case True
      then obtain b where b: "b \<in> set l" "inst_key s b = k" "b_sValue b = v" by blast
      then have "TWithdraw b \<in> set (started s')" "withdraws s' k v (TWithdraw b)" by (simp_all add: st e)
      then show ?thesis unfolding claims_def by blast
    next
      case False
      then show ?thesis using c by (auto simp: claims_def st e bound_def alive bo l_def)
    qed
    then show ?thesis by (simp add: s_def s'_def)
  qed
qed

lemma store_simps [simp]:
  "strs (SADD k x st) = strs st" "strs (SREM k x st) = strs st" "strs (SETPX k v st) = (strs st)(k \<mapsto> v)"
  "strs (DEL k st) = (strs st)(k := None)"
  by (simp_all add: SADD_def SREM_def SETPX_def DEL_def)

lemma list_ids_strs: "strs (snd (list_ids n ks is st)) = strs st"
  by (induction n ks "is" st rule: list_ids.induct) (auto split: option.splits prod.splits)

lemma list_names_strs: "strs (snd (list_names k1 pre ns st)) = strs st"
proof (induction k1 pre ns st rule: list_names.induct)
  case (2 k1 pre n ns st)
  obtain out st1 where o: "list_ids n (pre @ n) (sets st (pre @ n)) st = (out, st1)" by fastforce
  have "strs st1 = strs st" using list_ids_strs [of n "pre @ n" "sets st (pre @ n)" st] o by simp
  then show ?case using 2 [OF o [symmetric] refl refl] o by (auto split: prod.splits)
qed simp

text \<open>What a script does to the keys of the instances.\<close>

lemma eval_cases:
  assumes ok: "flight_ok s L f" and un: "f_result f = None" and ev: "redis_eval (f_cmd f) st = (r, st')"
  defines "f' \<equiv> f\<lparr>f_result := Some r\<rparr>"
  shows "strs st' k = Some v \<Longrightarrow> strs st k = Some v \<or> (k, v) \<in> L \<or> writes s k v f'"
    "strs st' k = Some v \<Longrightarrow> \<not> withdraws s k v (f_task f)" "strs st' k = Some v \<Longrightarrow> \<not> stale s k v f'"
proof -
  have c: "f_cmd f = command (f_task f) s" and l: "f_failed f \<Longrightarrow> task_lost (f_task f) s \<subseteq> L" using ok by (auto simp: flight_ok_def)
  have all: "strs st' k = Some v \<longrightarrow> (strs st k = Some v \<or> (k, v) \<in> L \<or> writes s k v f') \<and> \<not> withdraws s k v (f_task f) \<and> \<not> stale s k v f'"
  proof (cases "f_task f")
    case (TRegister sid b)
    then show ?thesis using c l ev un
      by (auto simp: redis_eval_def EvalArgs_def lua_register_def writes_def stale_def wrote_def ReplyInt_def f'_def split: if_splits)
  next
    case (TRefresh sid b)
    then show ?thesis using c l ev un
      by (auto simp: redis_eval_def EvalArgs_def lua_refresh_def writes_def stale_def wrote_def ReplyInt_def f'_def split: if_splits)
  next
    case (TWithdraw b)
    then show ?thesis using c ev by (auto simp: redis_eval_def lua_withdraw_def stale_def f'_def split: if_splits)
  next
    case TReload
    then have "strs st' = strs st" using c ev list_names_strs [of "Key s ''svc''" "Key s ''svc:''" "sets st (Key s ''svc'')" st]
      by (auto simp: redis_eval_def lua_list_all_def split: prod.splits)
    then show ?thesis using TReload by (simp add: stale_def f'_def)
  qed
  show "strs st' k = Some v \<Longrightarrow> strs st k = Some v \<or> (k, v) \<in> L \<or> writes s k v f'"
    "strs st' k = Some v \<Longrightarrow> \<not> withdraws s k v (f_task f)" "strs st' k = Some v \<Longrightarrow> \<not> stale s k v f'"
    using all by blast+
qed

lemma writes_executed: "writes s k v f \<Longrightarrow> f_result f \<noteq> None"
  by (cases "f_result f") (auto simp: writes_def wrote_def ReplyInt_def split: task.splits)

lemma unexecuted_stale: "f_result f = None \<Longrightarrow> \<not> stale s k v f"
  by (auto simp: stale_def wrote_def ReplyInt_def split: task.splits)

lemma later_unexecuted: "\<forall>f \<in> set fs. f_result f = None \<Longrightarrow> later_ok s st L fs"
  by (induction fs) (simp_all add: unexecuted_stale)

lemma exec_first_ok:
  "prefix_ok fs \<Longrightarrow> \<forall>f \<in> set fs. flight_ok s L f \<Longrightarrow> later_ok s st L fs \<Longrightarrow> exec_first fs st = (fs', st') \<Longrightarrow>
    later_ok s st' L fs' \<and> prefix_ok fs' \<and> (\<forall>f \<in> set fs'. flight_ok s L f)
    \<and> (\<forall>k v. strs st' k = Some v \<longrightarrow> strs st k = Some v \<or> (k, v) \<in> L \<or> (\<exists>f \<in> set fs'. writes s k v f))
    \<and> (\<forall>k v f. strs st' k = Some v \<and> f \<in> set fs \<and> holds s k v f \<longrightarrow> f \<in> set fs')"
proof (induction fs arbitrary: fs')
  case Nil
  then show ?case by simp
next
  case (Cons f fs)
  show ?case
  proof (cases "f_result f")
    case None
    obtain r where r: "redis_eval (f_cmd f) st = (r, st')" "fs' = f\<lparr>f_result := Some r\<rparr> # fs"
      using Cons.prems(4) None by (auto split: prod.splits)
    have fok: "flight_ok s L f" using Cons.prems(2) by simp
    note e = eval_cases [OF fok None r(1)]
    have post: "\<forall>g \<in> set fs. f_result g = None" using Cons.prems(1) None by simp
    have "later_ok s st' L fs'" using e(3) later_unexecuted [OF post] by (auto simp: r)
    moreover have "prefix_ok fs'" using Cons.prems(1) by (simp add: r)
    moreover have "\<forall>g \<in> set fs'. flight_ok s L g" using Cons.prems(2) by (auto simp: r flight_ok_def)
    moreover have "strs st' k = Some v \<longrightarrow> strs st k = Some v \<or> (k, v) \<in> L \<or> (\<exists>g \<in> set fs'. writes s k v g)" for k v
      using e(1) [of k v] by (auto simp: r)
    moreover have "g \<in> set fs'" if "strs st' k = Some v" "g \<in> set (f # fs)" "holds s k v g" for k v g
    proof -
      have "g \<noteq> f" using e(2) [OF that(1)] that(3) writes_executed [of s k v f] None by (auto simp: holds_def)
      then show ?thesis using that(2) by (simp add: r)
    qed
    ultimately show ?thesis by blast
  next
    case (Some x)
    obtain gs where gs: "exec_first fs st = (gs, st')" "fs' = f # gs" using Cons.prems(4) Some by (auto split: prod.splits)
    have pre: "prefix_ok fs" "\<forall>g \<in> set fs. flight_ok s L g" "later_ok s st L fs" using Cons.prems(1-3) by simp_all
    have later: "later_ok s st' L gs" "prefix_ok gs" "\<forall>g \<in> set gs. flight_ok s L g"
      and D: "\<And>k v. strs st' k = Some v \<Longrightarrow> strs st k = Some v \<or> (k, v) \<in> L \<or> (\<exists>g \<in> set gs. writes s k v g)"
      and E: "\<And>k v g. strs st' k = Some v \<Longrightarrow> g \<in> set fs \<Longrightarrow> holds s k v g \<Longrightarrow> g \<in> set gs"
      using Cons.IH [OF pre gs(1)] by blast+
    have head: "(k, v) \<in> L \<or> (\<exists>g \<in> set gs. writes s k v g)" if kv: "strs st' k = Some v" "stale s k v f" for k v
    proof (cases "strs st k = Some v")
      case True
      then have "(k, v) \<in> L \<or> (\<exists>g \<in> set fs. writes s k v g)" using Cons.prems(3) kv(2) by simp
      then show ?thesis using E [OF kv(1)] by (auto simp: holds_def)
    next
      case False
      then show ?thesis using D [OF kv(1)] by blast
    qed
    have "later_ok s st' L fs'" unfolding gs(2) later_ok.simps using head later(1) by blast
    moreover have "prefix_ok fs'" using later(2) by (simp add: gs Some)
    moreover have "\<forall>g \<in> set fs'. flight_ok s L g" using later(3) Cons.prems(2) by (simp add: gs)
    moreover have "strs st' k = Some v \<longrightarrow> strs st k = Some v \<or> (k, v) \<in> L \<or> (\<exists>g \<in> set fs'. writes s k v g)" for k v
      using D [of k v] by (auto simp: gs)
    moreover have "g \<in> set fs'" if "strs st' k = Some v" "g \<in> set (f # fs)" "holds s k v g" for k v g
      using E [OF that(1)] that(2,3) by (auto simp: gs)
    ultimately show ?thesis by blast
  qed
qed

lemma Exec_ok:
  assumes w: "reg_ok w" shows "reg_ok (reg_step Exec w)"
proof -
  note d = reg_okD [OF w]
  obtain fs' st' where e: "exec_first (flights w) (redis w) = (fs', st')" by fastforce
  have x: "later_ok (srv w) st' (lost w) fs'" "prefix_ok fs'" "\<forall>f \<in> set fs'. flight_ok (srv w) (lost w) f"
    and D: "\<And>k v. strs st' k = Some v \<Longrightarrow> strs (redis w) k = Some v \<or> (k, v) \<in> lost w \<or> (\<exists>f \<in> set fs'. writes (srv w) k v f)"
    and E: "\<And>k v f. strs st' k = Some v \<Longrightarrow> f \<in> set (flights w) \<Longrightarrow> holds (srv w) k v f \<Longrightarrow> f \<in> set fs'"
    using exec_first_ok [OF d(3) _ d(2) e] d(4) by blast+
  have "claims (srv w) k v \<or> (\<exists>f \<in> set fs'. holds (srv w) k v f) \<or> (k, v) \<in> lost w" if kv: "strs st' k = Some v" for k v
    using D [OF kv] d(1) [of k v] E [OF kv] by (auto simp: holds_def)
  then show ?thesis using x d(5) by (intro reg_okI) (auto simp: e)
qed

lemma Expire_ok: "reg_ok w \<Longrightarrow> reg_ok (reg_step (Expire k) w)"
proof -
  assume w: "reg_ok w"
  note d = reg_okD [OF w]
  have "later_ok s (DEL k st) L fs" if "later_ok s st L fs" for s st L fs
    using that by (induction fs) (auto split: if_splits)
  then show ?thesis using d by (intro reg_okI) (auto split: if_splits)
qed

lemma RunTask_ok:
  assumes w: "reg_ok w" shows "reg_ok (reg_step (RunTask i) w)"
proof (cases "i < length (started (srv w))")
  case True
  note d = reg_okD [OF w]
  define t where "t = started (srv w) ! i"
  define s' where "s' = (srv w)\<lparr>started := take i (started (srv w)) @ drop (Suc i) (started (srv w))\<rparr>"
  define f where "f = \<lparr>f_task = t, f_cmd = command t (srv w), f_result = None, f_failed = False\<rparr>"
  have step: "reg_step (RunTask i) w = w\<lparr>srv := s', flights := flights w @ [f]\<rparr>" using True by (simp add: s'_def f_def t_def Let_def)
  have sp: "same_space (srv w) s'" by (simp add: s'_def same_space_def)
  note e = same_space_cong [OF sp]
  have st: "set (started (srv w)) = insert t (set (started s'))"
    using id_take_nth_drop [OF True] unfolding t_def s'_def by simp (metis Un_insert_right list.simps(15) set_append)
  have c: "claims (srv w) k v \<Longrightarrow> claims s' k v \<or> holds s' k v f" for k v
    by (auto simp: claims_def st e bound_def bindings_of_def holds_def f_def) (auto simp: s'_def)
  have un: "f_result f = None" by (simp add: f_def)
  have lat: "later_ok s st L (fs @ [f])" if "later_ok s st L fs" for s st L fs
    using that by (induction fs) (auto simp: unexecuted_stale [OF un])
  have pre: "prefix_ok (fs @ [f])" if "prefix_ok fs" for fs using that by (induction fs) (auto simp: un)
  show ?thesis unfolding step
  proof (rule reg_okI)
    let ?w = "w\<lparr>srv := s', flights := flights w @ [f]\<rparr>"
    show "claims (srv ?w) k v \<or> (\<exists>f \<in> set (flights ?w). holds (srv ?w) k v f) \<or> (k, v) \<in> lost ?w"
      if "strs (redis ?w) k = Some v" for k v using d(1) [of k v] that c [of k v] by (auto simp: e)
    show "later_ok (srv ?w) (redis ?w) (lost ?w) (flights ?w)" using lat d(2) by (simp add: e)
    show "prefix_ok (flights ?w)" using pre d(3) by simp
    show "flight_ok (srv ?w) (lost ?w) g" if "g \<in> set (flights ?w)" for g
      using that d(4) [of g] by (auto simp: e) (auto simp: flight_ok_def f_def)
    show "bindings_ok (srv ?w)" using d(5) by (simp add: bindings_ok_def s'_def)
  qed
next
  case False
  then show ?thesis using w by simp
qed

text \<open>What the coroutines keep of the claims when they go on.\<close>

lemma set_drop_first: "List.find P xs = Some z \<Longrightarrow> x \<in> set xs \<Longrightarrow> x \<noteq> z \<Longrightarrow> x \<in> set (drop_first P xs)"
  by (induction xs) (auto split: if_splits)

lemma set_replace_first: "x \<in> set xs \<Longrightarrow> \<not> P x \<Longrightarrow> x \<in> set (replace_first P y xs)"
  "List.find P xs = Some z \<Longrightarrow> y \<in> set (replace_first P y xs)"
  by (induction xs) (auto split: if_splits)

lemma same_service_key: "same_service (b_sName b) (b_iId b) x \<Longrightarrow> inst_key s x = inst_key s b"
  by (simp add: same_service_def inst_key_def)

lemma FindBinding_Some: "FindBinding sid n i s = Some b \<Longrightarrow> b \<in> set (bindings_of s sid) \<and> same_service n i b"
  by (auto simp: FindBinding_def find_Some_iff)

lemma bindings_of_same: "m_mBindings s' = m_mBindings s \<Longrightarrow> bindings_of s' x = bindings_of s x"
  by (simp add: bindings_of_def)

lemma Register_resume_ok:
  fixes b :: Binding
  assumes ok: "bindings_ok s" and rc: "ReplyInt r = REG_OK" and al: "sid \<in> m_vAlive s"
  defines "s' \<equiv> Register_resume sid b r s"
  shows "same_space s s'" "bindings_ok s'" "claims s' (inst_key s b) (b_sValue b)"
    "claims s k v \<Longrightarrow> claims s' k v \<or> (k = inst_key s b \<and> v \<noteq> b_sValue b)"
proof -
  define P where "P = same_service (b_sName b) (b_iId b)"
  define l where "l = (case FindBinding sid (b_sName b) (b_iId b) s of None \<Rightarrow> bindings_of s sid @ [b] | Some _ \<Rightarrow> replace_first P b (bindings_of s sid))"
  define s1 where "s1 = s\<lparr>m_mBindings := AList.update sid l (m_mBindings s)\<rparr>"
  have s': "s' = Reply sid (RegisterRes OI_OK) (PutSnapshot b s1)"
    using rc al by (simp add: s'_def Register_resume_def Let_def s1_def l_def P_def split: option.split)
  have "same_space s s1" by (simp add: s1_def same_space_def)
  then show sp: "same_space s s'" by (simp add: s')
  have m: "m_mBindings s' = m_mBindings s1" "m_vAlive s' = m_vAlive s" "started s' = started s" by (simp_all add: s' s1_def)
  have bo: "bindings_of s' x = (if x = sid then l else bindings_of s x)" for x
    using bindings_of_same [OF m(1)] bindings_of_update [of s sid l x] ok by (simp add: s1_def bindings_ok_def)
  show "bindings_ok s'" using bindings_ok_update [OF ok al, of l] by (simp add: bindings_ok_def m s1_def)
  have bl: "b \<in> set l" "\<And>x. x \<in> set (bindings_of s sid) \<Longrightarrow> \<not> P x \<Longrightarrow> x \<in> set l"
    by (auto simp: l_def FindBinding_def P_def [symmetric] set_replace_first split: option.splits)
  note e = same_space_cong [OF sp]
  show "claims s' (inst_key s b) (b_sValue b)" using bl(1) al by (auto simp: claims_def bound_def e m bo)
  show "claims s' k v \<or> (k = inst_key s b \<and> v \<noteq> b_sValue b)" if "claims s k v"
  proof (cases "bound s k v")
    case True
    then obtain x y where xy: "x \<in> m_vAlive s" "y \<in> set (bindings_of s x)" "inst_key s y = k" "b_sValue y = v" by (auto simp: bound_def)
    show ?thesis
    proof (cases "x = sid \<and> P y")
      case True
      then have "k = inst_key s b" using same_service_key [of b y s] xy(3) by (simp add: P_def)
      then show ?thesis using bl(1) al by (auto simp: claims_def bound_def e m bo)
    next
      case False
      then have "y \<in> set (bindings_of s' x)" using xy(2) bl(2) [of y] by (auto simp: bo)
      then have "bound s' k v" unfolding bound_def e m using xy(1,3,4) by blast
      then show ?thesis by (simp add: claims_def)
    qed
  next
    case False
    then show ?thesis using that by (auto simp: claims_def e m)
  qed
qed

lemma Refresh_taken_ok:
  fixes b :: Binding
  assumes ok: "bindings_ok s" and rc: "ReplyInt r = REG_TAKEN" and al: "sid \<in> m_vAlive s"
    and fd: "FindBinding sid (b_sName b) (b_iId b) s = Some b0" "b_sValue b0 = b_sValue b"
  defines "s' \<equiv> Refresh_resume sid b r s"
  shows "same_space s s'" "bindings_ok s'" "claims s k v \<Longrightarrow> claims s' k v \<or> (k = inst_key s b \<and> v = b_sValue b)"
proof -
  define P where "P = same_service (b_sName b) (b_iId b)"
  define l where "l = drop_first P (bindings_of s sid)"
  have m: "m_mBindings s' = AList.update sid l (m_mBindings s)" "m_vAlive s' = m_vAlive s" "started s' = started s"
      "m_sPrefix s' = m_sPrefix s" "m_iExpireMilliseconds s' = m_iExpireMilliseconds s"
    using rc al fd by (simp_all add: s'_def Refresh_resume_def Let_def l_def P_def Reply_def)
  show sp: "same_space s s'" by (simp add: m same_space_def)
  have bo: "bindings_of s' x = (if x = sid then l else bindings_of s x)" for x
    using bindings_of_update [of s sid l x] ok by (simp add: bindings_of_def m bindings_ok_def)
  show "bindings_ok s'" using bindings_ok_update [OF ok al, of l] by (simp add: bindings_ok_def m)
  note e = same_space_cong [OF sp]
  show "claims s' k v \<or> (k = inst_key s b \<and> v = b_sValue b)" if c: "claims s k v"
  proof (cases "bound s k v")
    case True
    then obtain x y where xy: "x \<in> m_vAlive s" "y \<in> set (bindings_of s x)" "inst_key s y = k" "b_sValue y = v" by (auto simp: bound_def)
    show ?thesis
    proof (cases "x = sid \<and> y = b0")
      case True
      then show ?thesis using FindBinding_Some [OF fd(1)] same_service_key [of b b0 s] xy fd(2) by auto
    next
      case False
      then have "y \<in> set (bindings_of s' x)"
        using xy(2) set_drop_first [of P "bindings_of s sid" b0 y] fd(1) by (auto simp: bo l_def FindBinding_def P_def)
      then show ?thesis using xy by (auto simp: claims_def bound_def e m)
    qed
  next
    case False
    then show ?thesis using c by (auto simp: claims_def e m)
  qed
qed

text \<open>A coroutine that only answers its client or starts a withdrawal keeps all claims.\<close>

lemma resume_keeps:
  assumes "bindings_ok s" "m_mBindings s' = m_mBindings s" "m_vAlive s' = m_vAlive s" "set (started s) \<subseteq> set (started s')" "same_space s s'"
  shows "same_space s s' \<and> bindings_ok s' \<and> (\<forall>k v. claims s k v \<longrightarrow> claims s' k v)"
  using claims_cong [OF assms(2-5)] assms by blast

lemma resume_None:
  assumes "bindings_ok s"
  shows "same_space s (resume t None s) \<and> bindings_ok (resume t None s) \<and> (\<forall>k v. claims s k v \<longrightarrow> claims (resume t None s) k v)"
proof (rule resume_keeps [OF assms])
  have i: "ReplyInt None = - 1" by (simp add: ReplyInt_def)
  show "m_mBindings (resume t None s) = m_mBindings s" "m_vAlive (resume t None s) = m_vAlive s"
      "set (started s) \<subseteq> set (started (resume t None s))" "same_space s (resume t None s)"
    by (cases t; simp add: Register_resume_def Refresh_resume_def Withdraw_resume_def Reload_resume_def Let_def i; simp add: same_space_def)+
qed

lemma resume_ok:
  assumes ok: "bindings_ok s" and f: "f_result f \<noteq> None" "\<not> f_failed f"
  defines "s' \<equiv> resume (f_task f) (f_result f) s"
  shows "same_space s s' \<and> bindings_ok s' \<and> (\<forall>k v. claims s k v \<longrightarrow> claims s' k v \<or> stale s k v f)
    \<and> (\<forall>k v. writes s k v f \<longrightarrow> claims s' k v)"
proof (cases "f_task f")
  case (TRegister sid b)
  have s': "s' = Register_resume sid b (f_result f) s" by (simp add: s'_def TRegister)
  show ?thesis
  proof (cases "ReplyInt (f_result f) = REG_OK \<and> sid \<in> m_vAlive s")
    case True
    then have "wrote f" by (simp add: wrote_def TRegister)
    then show ?thesis using Register_resume_ok [OF ok, where r = "f_result f" and sid = sid and b = b] True f(2) TRegister
      by (auto simp: s' stale_def writes_def)
  next
    case False
    have k: "same_space s s' \<and> bindings_ok s' \<and> (\<forall>k v. claims s k v \<longrightarrow> claims s' k v)"
      by (rule resume_keeps [OF ok]) (use False in \<open>auto simp: s' Register_resume_def Let_def\<close>)
    have "claims s' k v" if wr: "writes s k v f" for k v
    proof -
      have "ReplyInt (f_result f) = REG_OK" "inst_key s b = k" "b_sValue b = v"
        using wr TRegister by (auto simp: writes_def wrote_def)
      moreover from this have "s' = StartTask (TWithdraw b) s" using False by (simp add: s' Register_resume_def Let_def)
      ultimately show ?thesis using same_space_cong(1) [of s s'] k by (auto simp: claims_def)
    qed
    then show ?thesis using k by blast
  qed
next
  case (TRefresh sid b)
  define rc where "rc = ReplyInt (f_result f)"
  define fd where "fd = (if sid \<in> m_vAlive s then FindBinding sid (b_sName b) (b_iId b) s else None)"
  have s': "s' = Refresh_resume sid b (f_result f) s" by (simp add: s'_def TRefresh)
  show ?thesis
  proof (cases "rc = REG_TAKEN \<and> fd \<noteq> None \<and> b_sValue (the fd) = b_sValue b")
    case True
    then obtain b0 where b0: "sid \<in> m_vAlive s" "FindBinding sid (b_sName b) (b_iId b) s = Some b0" "b_sValue b0 = b_sValue b"
      by (auto simp: fd_def split: if_splits)
    have "\<not> writes s k v f" for k v using True by (auto simp: writes_def wrote_def TRefresh rc_def)
    moreover have "stale s (inst_key s b) (b_sValue b) f" using True f(2) by (simp add: stale_def TRefresh rc_def)
    ultimately show ?thesis using Refresh_taken_ok [OF ok _ b0, of "f_result f"] True by (auto simp: s' rc_def)
  next
    case False
    have k: "same_space s s' \<and> bindings_ok s' \<and> (\<forall>k v. claims s k v \<longrightarrow> claims s' k v)"
      by (rule resume_keeps [OF ok]) (use False in \<open>auto simp: s' Refresh_resume_def Let_def rc_def fd_def\<close>)
    have "claims s' k v" if wr: "writes s k v f" for k v
    proof -
      have b: "rc = REG_OK \<or> rc = REG_RENEWED" "inst_key s b = k" "b_sValue b = v"
        using wr TRefresh by (auto simp: writes_def wrote_def rc_def)
      note e = same_space_cong [of s s']
      show ?thesis
      proof (cases "fd = None \<or> b_sValue (the fd) \<noteq> b_sValue b")
        case True
        then have "s' = StartTask (TWithdraw b) s" using b by (simp add: s' Refresh_resume_def Let_def rc_def fd_def)
        then show ?thesis using b e k by (auto simp: claims_def)
      next
        case False
        then obtain b0 where b0: "sid \<in> m_vAlive s" "FindBinding sid (b_sName b) (b_iId b) s = Some b0" "b_sValue b0 = b_sValue b"
          by (auto simp: fd_def split: if_splits)
        have "inst_key s b0 = k" using FindBinding_Some [OF b0(2)] same_service_key [of b b0 s] b(2) by simp
        then have "bound s k v" using b0 FindBinding_Some [OF b0(2)] b(3) by (auto simp: bound_def)
        then show ?thesis using k by (auto simp: claims_def)
      qed
    qed
    then show ?thesis using k by blast
  qed
next
  case (TWithdraw b)
  have "same_space s s' \<and> bindings_ok s' \<and> (\<forall>k v. claims s k v \<longrightarrow> claims s' k v)"
    by (rule resume_keeps [OF ok]) (auto simp: s'_def TWithdraw Withdraw_resume_def)
  then show ?thesis by (simp add: writes_def TWithdraw)
next
  case TReload
  have "same_space s s' \<and> bindings_ok s' \<and> (\<forall>k v. claims s k v \<longrightarrow> claims s' k v)"
    by (rule resume_keeps [OF ok]) (auto simp: s'_def TReload Reload_resume_def Let_def same_space_def split: option.splits redisReply.splits)
  then show ?thesis by (simp add: writes_def TReload)
qed

lemma Answer_ok:
  assumes w: "reg_ok w" shows "reg_ok (reg_step Answer w)"
proof (cases "\<exists>f fs. flights w = f # fs \<and> f_result f \<noteq> None \<and> \<not> f_failed f")
  case True
  then obtain f fs where f: "flights w = f # fs" "f_result f \<noteq> None" "\<not> f_failed f" by blast
  note d = reg_okD [OF w]
  define s' where "s' = resume (f_task f) (f_result f) (srv w)"
  have r: "same_space (srv w) s'" "bindings_ok s'" "\<And>k v. claims (srv w) k v \<Longrightarrow> claims s' k v \<or> stale (srv w) k v f"
      "\<And>k v. writes (srv w) k v f \<Longrightarrow> claims s' k v"
    using resume_ok [OF d(5) f(2,3)] by (auto simp: s'_def)
  note e = same_space_cong [OF r(1)]
  have l: "later_ok (srv w) (redis w) (lost w) fs"
      "\<And>k v. strs (redis w) k = Some v \<Longrightarrow> stale (srv w) k v f \<Longrightarrow> (k, v) \<in> lost w \<or> (\<exists>g \<in> set fs. writes (srv w) k v g)"
    using d(2) f(1) by auto
  have "claims s' k v \<or> (\<exists>g \<in> set fs. holds (srv w) k v g) \<or> (k, v) \<in> lost w" if kv: "strs (redis w) k = Some v" for k v
    using d(1) [OF kv] f r(3,4) [of k v] l(2) [OF kv] by (auto simp: holds_def)
  then show ?thesis using l(1) d(3,4) r(2) f(1,2,3)
    by (intro reg_okI) (auto simp: s'_def [symmetric] e)
next
  case False
  then show ?thesis using w by (auto split: list.splits)
qed

lemma later_update:
  "later_ok s st L fs \<Longrightarrow> i < length fs \<Longrightarrow> task_lost (f_task (fs ! i)) s \<subseteq> L' \<Longrightarrow> L \<subseteq> L' \<Longrightarrow>
    later_ok s st L' (fs[i := (fs ! i)\<lparr>f_failed := True\<rparr>])"
proof (induction fs arbitrary: i)
  case (Cons f fs)
  have wl: "(k, v) \<in> task_lost (f_task g) s" if "writes s k v g" for k v g
    using that by (cases "f_task g") (auto simp: writes_def)
  have mono: "later_ok s st L' fs" if "later_ok s st L fs" for fs using that Cons.prems(4) by (induction fs) auto
  show ?case
  proof (cases i)
    case 0
    then show ?thesis using Cons.prems mono by (simp add: stale_def)
  next
    case (Suc j)
    have "(k, v) \<in> L' \<or> (\<exists>g \<in> set (fs[j := (fs ! j)\<lparr>f_failed := True\<rparr>]). writes s k v g)"
      if kv: "strs st k = Some v" "stale s k v f" for k v
    proof -
      have "(k, v) \<in> L \<or> (\<exists>g \<in> set fs. writes s k v g)" using Cons.prems(1) kv by simp
      then show ?thesis
      proof (elim disjE bexE)
        fix g assume g: "g \<in> set fs" "writes s k v g"
        then obtain m where m: "m < length fs" "fs ! m = g" by (auto simp: in_set_conv_nth)
        show ?thesis
        proof (cases "m = j")
          case True
          then show ?thesis using wl [OF g(2)] m Cons.prems(3) Suc by auto
        next
          case False
          then have "fs[j := (fs ! j)\<lparr>f_failed := True\<rparr>] ! m = g" using m by simp
          then have "g \<in> set (fs[j := (fs ! j)\<lparr>f_failed := True\<rparr>])" using m by (metis length_list_update nth_mem)
          then show ?thesis using g(2) by blast
        qed
      qed (use Cons.prems(4) in blast)
    qed
    moreover have "later_ok s st L' (fs[j := (fs ! j)\<lparr>f_failed := True\<rparr>])"
      using Cons.IH [of j] Cons.prems Suc by simp
    ultimately show ?thesis unfolding Suc list_update.simps nat.case nth_Cons_Suc later_ok.simps by blast
  qed
qed simp

lemma prefix_update: "prefix_ok fs \<Longrightarrow> i < length fs \<Longrightarrow> prefix_ok (fs[i := (fs ! i)\<lparr>f_failed := b\<rparr>])"
proof (induction fs arbitrary: i)
  case (Cons f fs)
  then show ?case by (cases i) (auto dest!: subsetD [OF set_update_subset_insert])
qed simp

lemma GiveUp_ok:
  assumes w: "reg_ok w" shows "reg_ok (reg_step (GiveUp i) w)"
proof (cases "i < length (flights w) \<and> \<not> f_failed (flights w ! i)")
  case True
  note d = reg_okD [OF w]
  define f where "f = flights w ! i"
  define s' where "s' = resume (f_task f) None (srv w)"
  define L where "L = lost w \<union> task_lost (f_task f) (srv w)"
  define fs where "fs = (flights w)[i := f\<lparr>f_failed := True\<rparr>]"
  have r: "same_space (srv w) s'" "bindings_ok s'" "\<And>k v. claims (srv w) k v \<Longrightarrow> claims s' k v"
    using resume_None [OF d(5), of "f_task f"] by (auto simp: s'_def)
  note e = same_space_cong [OF r(1)]
  have step: "reg_step (GiveUp i) w = w\<lparr>srv := s', flights := fs, lost := L\<rparr>"
    using True by (simp add: s'_def fs_def L_def f_def)
  have hl: "(k, v) \<in> task_lost (f_task g) (srv w)" if "holds (srv w) k v g" for k v g
    using that by (cases "f_task g") (auto simp: holds_def writes_def)
  have "claims s' k v \<or> (\<exists>g \<in> set fs. holds (srv w) k v g) \<or> (k, v) \<in> L" if kv: "strs (redis w) k = Some v" for k v
  proof -
    consider "claims (srv w) k v" | g where "g \<in> set (flights w)" "holds (srv w) k v g" | "(k, v) \<in> lost w" using d(1) [OF kv] by blast
    then show ?thesis
    proof cases
      case (2 g)
      then obtain m where m: "m < length (flights w)" "flights w ! m = g" by (auto simp: in_set_conv_nth)
      show ?thesis
      proof (cases "m = i")
        case True
        then show ?thesis using hl [OF 2(2)] m by (auto simp: L_def f_def)
      next
        case False
        then have "fs ! m = g" using m by (simp add: fs_def)
        then have "g \<in> set fs" using m by (metis fs_def length_list_update nth_mem)
        then show ?thesis using 2(2) by blast
      qed
    qed (use r(3) in \<open>auto simp: L_def\<close>)
  qed
  moreover have "later_ok (srv w) (redis w) L fs"
    unfolding fs_def f_def by (rule later_update [OF d(2)]) (use True in \<open>auto simp: L_def f_def\<close>)
  moreover have "prefix_ok fs" unfolding fs_def f_def by (rule prefix_update [OF d(3)]) (use True in simp)
  moreover have "flight_ok (srv w) L g" if "g \<in> set fs" for g
  proof -
    have "g = f\<lparr>f_failed := True\<rparr> \<or> g \<in> set (flights w)" using that set_update_subset_insert [of "flights w" i] by (auto simp: fs_def)
    then show ?thesis using d(4) [of g] d(4) [of f] True by (auto simp: flight_ok_def L_def f_def)
  qed
  ultimately show ?thesis unfolding step using r(2) by (intro reg_okI) (auto simp: e)
next
  case False
  then show ?thesis using w by auto
qed

lemma DropAnswer_ok:
  assumes w: "reg_ok w" shows "reg_ok (reg_step DropAnswer w)"
proof (cases "\<exists>f fs. flights w = f # fs \<and> f_failed f")
  case True
  then obtain f fs where f: "flights w = f # fs" "f_failed f" by blast
  note d = reg_okD [OF w]
  have "\<not> holds (srv w) k v f" for k v using f(2) by (simp add: holds_def writes_def)
  then show ?thesis using d f by (intro reg_okI) auto
next
  case False
  then show ?thesis using w by (auto split: list.splits)
qed

lemma reg_step_ok:
  assumes w: "reg_ok w" shows "reg_ok (reg_step ev w)"
proof (cases ev)
  case (AddSession sid)
  have "claims (OnAddSession sid (srv w)) k v" if "claims (srv w) k v" for k v
    using that same_space_cong [of "srv w" "OnAddSession sid (srv w)"]
    by (auto simp: claims_def bound_def OnAddSession_def bindings_of_def same_space_def)
  moreover have "bindings_ok (OnAddSession sid (srv w))" using reg_okD(5) [OF w] by (auto simp: bindings_ok_def OnAddSession_def)
  ultimately show ?thesis using srv_step [OF w, of "OnAddSession sid (srv w)"] AddSession
    by (simp add: OnAddSession_def same_space_def)
next
  case (ReqRegister sid q)
  then show ?thesis using w same_step [OF w, of "Handle_register sid q (srv w)"] by (auto simp: Handle_register_def subset_insertI)
next
  case (ReqHeartbeat sid q)
  then show ?thesis using w same_step [OF w, of "Handle_heartbeat sid q (srv w)"] by (auto simp: Handle_heartbeat_def subset_insertI split: option.splits)
next
  case (ReqPull sid q)
  then show ?thesis using w same_step [OF w, of "Handle_pull sid q (srv w)"] by (auto simp: Handle_pull_def)
next
  case ReloadTimer
  have "m_mBindings (StartReload (srv w)) = m_mBindings (srv w)" "m_vAlive (StartReload (srv w)) = m_vAlive (srv w)"
      "set (started (srv w)) \<subseteq> set (started (StartReload (srv w)))" "same_space (srv w) (StartReload (srv w))"
    by (auto simp: StartReload_def same_space_def StartTask_def)
  then show ?thesis using same_step [OF w] ReloadTimer by simp
qed (use w DelSession_ok RunTask_ok Exec_ok Answer_ok GiveUp_ok DropAnswer_ok Expire_ok in \<open>auto simp del: reg_step.simps(7-)\<close>)

section \<open>Properties\<close>

definition reg_start :: "string \<Rightarrow> int \<Rightarrow> regworld" where
  "reg_start sPrefix iExpire = \<lparr>srv = RegistryServer\<lparr>m_sPrefix := sPrefix, m_iExpireMilliseconds := iExpire\<rparr>,
    redis = \<lparr>strs = (\<lambda>_. None), sets = (\<lambda>_. [])\<rparr>, flights = [], lost = {}\<rparr>"

definition reg_run :: "reg_event list \<Rightarrow> regworld \<Rightarrow> regworld" where
  "reg_run evs w = fold reg_step evs w"

lemma reg_start_ok: "reg_ok (reg_start p e)"
  by (simp add: reg_ok_def reg_start_def RegistryServer_def)

lemma reg_run_ok: "reg_ok w \<Longrightarrow> reg_ok (reg_run evs w)"
  unfolding reg_run_def by (induction evs arbitrary: w) (simp_all add: reg_step_ok del: reg_step.simps)

lemma lost_run: "(\<And>i. GiveUp i \<notin> set evs) \<Longrightarrow> lost (reg_run evs w) = lost w"
proof (induction evs arbitrary: w)
  case (Cons ev evs)
  have "lost (reg_step ev w) = lost w" using Cons.prems
    by (cases ev) (auto simp: Let_def split: list.splits prod.splits)
  then show ?case using Cons.IH [of "reg_step ev w"] Cons.prems by (simp add: reg_run_def del: reg_step.simps)
qed (simp add: reg_run_def)

text \<open>
  C14: No registration outlives its session unnoticed. Whatever the order in which sessions come and go,
  requests arrive, scripts are executed, answers come back, calls are given up and keys expire: when no
  coroutine is left on its way, every instance key in Redis belongs to a binding of a live session, or a
  call about that very registration was given up. If none was given up there are no others. Bindings
  exist only for live sessions.
\<close>

theorem registry_no_orphans:
  assumes "started (srv (reg_run evs (reg_start p e))) = []" and "flights (reg_run evs (reg_start p e)) = []"
  shows "(\<forall>k v. strs (redis (reg_run evs (reg_start p e))) k = Some v \<longrightarrow>
      bound (srv (reg_run evs (reg_start p e))) k v \<or> (k, v) \<in> lost (reg_run evs (reg_start p e)))
    \<and> ((\<forall>i. GiveUp i \<notin> set evs) \<longrightarrow> lost (reg_run evs (reg_start p e)) = {})
    \<and> fst ` set (m_mBindings (srv (reg_run evs (reg_start p e)))) \<subseteq> m_vAlive (srv (reg_run evs (reg_start p e)))"
proof -
  define w where "w = reg_run evs (reg_start p e)"
  have ok: "reg_ok w" unfolding w_def by (rule reg_run_ok [OF reg_start_ok])
  have "bound (srv w) k v \<or> (k, v) \<in> lost w" if "strs (redis w) k = Some v" for k v
    using reg_okD(1) [OF ok that] assms by (auto simp: claims_def w_def)
  moreover have "lost w = {}" if "\<forall>i. GiveUp i \<notin> set evs"
    using lost_run [of evs "reg_start p e"] that by (simp add: w_def reg_start_def)
  moreover have "fst ` set (m_mBindings (srv w)) \<subseteq> m_vAlive (srv w)" using reg_okD(5) [OF ok] by (simp add: bindings_ok_def)
  ultimately show ?thesis by (simp add: w_def)
qed

definition demo_request :: RegRegister where
  "demo_request = \<lparr>reg_sName = ''gate'', reg_iId = 1, reg_sIp = ''10.0.0.1'', reg_sPort = ''80'', reg_sZone = []\<rparr>"

definition demo_registration :: "reg_event list" where
  "demo_registration = [AddSession 7, ReqRegister 7 demo_request, RunTask 0, Exec, Answer]"

lemma digit_1: "digit (Suc 0) = CHR ''1''"
  by code_simp

lemma demo_quiet:
  "started (srv (reg_run demo_registration (reg_start ''oi:'' 3000))) = []"
  "flights (reg_run demo_registration (reg_start ''oi:'' 3000)) = []"
  "strs (redis (reg_run demo_registration (reg_start ''oi:'' 3000))) ''oi:svc:gate:1'' = Some ''10.0.0.1 80''"
  by (simp_all add: demo_registration_def reg_run_def reg_start_def RegistryServer_def OnAddSession_def Handle_register_def
      demo_request_def ValidSpacePart_def StartTask_def binding_of_request_def EvalArgs_def redis_eval_def lua_register_def
      Register_resume_def Let_def ReplyInt_def Reply_def PutSnapshot_def DropSnapshot_def inst_key_def Key_def
      to_string_def dec.simps digit_1 less_eq_char_def)

theorem registry_no_orphans_witness:
  "bound (srv (reg_run demo_registration (reg_start ''oi:'' 3000))) ''oi:svc:gate:1'' ''10.0.0.1 80''"
proof -
  have "\<forall>i. GiveUp i \<notin> set demo_registration" by (simp add: demo_registration_def)
  then show ?thesis using registry_no_orphans [OF demo_quiet(1,2)] demo_quiet(3) by blast
qed



text \<open>Values are read back as they were written, if address and port have no space in them.\<close>

lemma find_from_append: "c \<notin> set xs \<Longrightarrow> find_from c (length p) (p @ xs @ c # ys) = Some (length p + length xs)"
  "c \<notin> set xs \<Longrightarrow> find_from c (length p) (p @ xs) = None"
proof -
  assume c: "c \<notin> set xs"
  have tw: "takeWhile (\<lambda>x. x \<noteq> c) (xs @ c # ys) = xs" "takeWhile (\<lambda>x. x \<noteq> c) xs = xs"
    using c by (induction xs) auto
  show "find_from c (length p) (p @ xs @ c # ys) = Some (length p + length xs)" "find_from c (length p) (p @ xs) = None"
    by (simp_all add: find_from_def Let_def tw)
qed

text \<open>
  What a valid registration writes to Redis is read back as the same address, port and zone when the
  snapshot is reloaded, provided the address and the port contain no space, which the request handler
  does not check.
\<close>

theorem ParseValue_roundtrip:
  assumes "reg_sIp q \<noteq> []" "reg_sPort q \<noteq> []" "reg_sZone q = [] \<or> ValidSpacePart (reg_sZone q)"
    and "CHR '' '' \<notin> set (reg_sIp q)" "CHR '' '' \<notin> set (reg_sPort q)"
  shows "ParseValue (b_sValue (binding_of_request q)) = Some (reg_sIp q, reg_sPort q, reg_sZone q)"
proof (cases "reg_sZone q = []")
  case True
  define v where "v = reg_sIp q @ CHR '' '' # reg_sPort q"
  have f: "find_from CHR '' '' 0 v = Some (length (reg_sIp q))" using find_from_append(1) [OF assms(4), of "[]" "reg_sPort q"] by (simp add: v_def)
  have g: "find_from CHR '' '' (length (reg_sIp q) + 1) v = None"
    using find_from_append(2) [OF assms(5), of "reg_sIp q @ '' ''"] by (simp add: v_def)
  have "b_sValue (binding_of_request q) = v" using True by (simp add: binding_of_request_def v_def)
  then show ?thesis using True assms(1,2) f g unfolding ParseValue_def by (simp add: v_def Let_def)
next
  case False
  define v where "v = reg_sIp q @ CHR '' '' # reg_sPort q @ CHR '' '' # reg_sZone q"
  have f: "find_from CHR '' '' 0 v = Some (length (reg_sIp q))"
    using find_from_append(1) [OF assms(4), of "[]" "reg_sPort q @ CHR '' '' # reg_sZone q"] by (simp add: v_def)
  have g: "find_from CHR '' '' (length (reg_sIp q) + 1) v = Some (length (reg_sIp q) + 1 + length (reg_sPort q))"
    using find_from_append(1) [OF assms(5), of "reg_sIp q @ '' ''" "reg_sZone q"] by (simp add: v_def)
  have "CHR '' '' \<notin> set (reg_sZone q)" using assms(3) False by (auto simp: ValidSpacePart_def list_all_iff less_eq_char_def)
  then have z: "find_from CHR '' '' 0 (reg_sZone q) = None" using find_from_append(2) [of "CHR '' ''" "reg_sZone q" "[]"] by simp
  have "b_sValue (binding_of_request q) = v" using False by (simp add: binding_of_request_def v_def)
  then show ?thesis using False assms(1,2) f g z unfolding ParseValue_def by (simp add: v_def Let_def)
qed

theorem ParseValue_roundtrip_witness:
  "ParseValue (b_sValue (binding_of_request demo_request)) = Some (''10.0.0.1'', ''80'', [])"
  using ParseValue_roundtrip [of demo_request] by (simp add: demo_request_def)

text \<open>
  Without that check two different addresses are taken for the same service: both requests below are
  accepted, and their values are equal.
\<close>

lemma spaces_confuse_addresses:
  "\<exists>q q'. reg_sIp q \<noteq> reg_sIp q' \<and> b_sValue (binding_of_request q) = b_sValue (binding_of_request q')
    \<and> Handle_register 7 q s = StartTask (TRegister 7 (binding_of_request q)) s
    \<and> Handle_register 7 q' s = StartTask (TRegister 7 (binding_of_request q')) s"
  by (rule exI [of _ "demo_request\<lparr>reg_sZone := ''z''\<rparr>"],
      rule exI [of _ "demo_request\<lparr>reg_sIp := ''10.0.0.1 80'', reg_sPort := ''z''\<rparr>"])
    (simp add: demo_request_def binding_of_request_def Handle_register_def ValidSpacePart_def less_eq_char_def)

text \<open>
  A process that reconnects registers again with the same value and is accepted. When its old connection
  is closed afterwards, the withdrawal deletes the key although the new session still has its binding, and
  the instance is missing from the snapshot until the next heartbeat renews it.
\<close>

definition demo_reconnect :: "reg_event list" where
  "demo_reconnect = demo_registration @ [AddSession 8, ReqRegister 8 demo_request, RunTask 0, Exec, Answer,
    DelSession 7, RunTask 0, Exec, Answer]"

lemma reconnect_loses_key:
  "strs (redis (reg_run demo_reconnect (reg_start ''oi:'' 3000))) ''oi:svc:gate:1'' = None"
  "bindings_of (srv (reg_run demo_reconnect (reg_start ''oi:'' 3000))) 8 = [binding_of_request demo_request]"
  "m_vSnapshot (srv (reg_run demo_reconnect (reg_start ''oi:'' 3000))) = []"
  by (simp_all add: demo_reconnect_def demo_registration_def reg_run_def reg_start_def RegistryServer_def OnAddSession_def
      Handle_register_def OnDelSession_def bindings_of_def FindBinding_def same_service_def Withdraw_resume_def lua_withdraw_def
      demo_request_def ValidSpacePart_def StartTask_def binding_of_request_def EvalArgs_def redis_eval_def lua_register_def
      Register_resume_def Let_def ReplyInt_def Reply_def PutSnapshot_def DropSnapshot_def inst_key_def Key_def
      to_string_def dec.simps digit_1 less_eq_char_def)

end
