(* ===== verification/OI_RegClient.thy ===== *)
theory OI_RegClient
  imports OI_Registry OI_Session OI_NetAddr "HOL-Library.Multiset" "HOL-Library.Sublist"
begin

text \<open>
  The registry's client (cbaselib/base/src/oi_registry.cpp): the frames both sides exchange, the table of
  watched services, and the client with its registration, its heartbeats and its two queues of pulls.

  A pull has a number \<open>p_id\<close>. \<open>p_async\<close> says that it has a \<open>RegPullState\<close>, whose callback is run at most
  once; \<open>asked\<close> are the pulls started by \<open>PullAsync\<close>, \<open>finished\<close> those whose \<open>iOnce\<close> is set and \<open>results\<close> the callbacks that were run. What an
  operation takes out of the queues under \<open>stPendingMutex\<close> and finishes after it has released the lock is
  kept in \<open>hand\<close>; \<open>RunFinish\<close> finishes one of them. \<open>PullAsync\<close> is split after its call of \<open>Connect\<close>, since
  starting to connect may call back (\<open>OnConnectFailed\<close>, callbacks of other pulls); \<open>starting\<close> are the pulls
  between the two parts. A synchronous call is split where it waits; \<open>sync\<close> is the one call that
  \<open>stSyncMutex\<close> allows.

  \<open>sent\<close> are the messages given to sessions, \<open>answered\<close> the replies matched with pulls.
\<close>

section \<open>Frames\<close>

definition EncodeRegFrame :: "allocator \<Rightarrow> u32 \<Rightarrow> wr \<Rightarrow> exc + bytes_obj" where
  "EncodeRegFrame A iId serialize = (case serialize Stream_empty of
      (Some e, _) \<Rightarrow> Inl e
    | (None, stBody) \<Rightarrow>
        let iSize = word_of_nat (m_iSize (buf stBody)) :: u32;
            pData = (if iSize \<noteq> 0 then Some (content (buf stBody)) else None)
        in case WritePbRaw A iId pData iSize Stream_empty of
             (Some e, _) \<Rightarrow> Inl e | (None, s) \<Rightarrow> Inr (buf s))"

abbreviation PARSER_ERR_PROTOCOL_SIZE :: int where "PARSER_ERR_PROTOCOL_SIZE \<equiv> - 9998"

text \<open>
  The loop of \<open>ReadRegFrames\<close>: the code with which the session is closed, the stream and the state of the
  receiver \<open>fnOnFrame\<close>. An exception of the receiver other than the parser's leaves the loop.
\<close>

type_synonym 's on_frame = "u32 \<Rightarrow> stream \<Rightarrow> 's \<Rightarrow> exc + 's"

fun read_frames :: "allocator \<Rightarrow> 's on_frame \<Rightarrow> nat \<Rightarrow> stream \<Rightarrow> 's \<Rightarrow> exc + int option \<times> stream \<times> 's" where
  "read_frames A fn fuel st s =
     (if RemainSize st = 0 then Inr (None, st, s)
      else (case PreparePbHeader (StartTransaction st) of
          (PB_HEADER_NEED_MORE, _, st1) \<Rightarrow> Inr (None, RollBack st1, s)
        | (PB_HEADER_OK, Some (iId, iSize), st1) \<Rightarrow>
            (case (if iSize > 0 then s_append A (cur_bytes (unat iSize) st1) Stream_empty else (None, Stream_empty)) of
               (Some e, _) \<Rightarrow> Inl e
             | (None, stBody) \<Rightarrow>
                 (case fn iId stBody s of
                    Inl ParserException \<Rightarrow> Inr (Some PARSER_ERR_PROTOCOL_SIZE, AddCurPos (unat iSize) st1, s)
                  | Inl e \<Rightarrow> Inl e
                  | Inr s' \<Rightarrow> (case fuel of 0 \<Rightarrow> Inl ParserException
                     | Suc fuel' \<Rightarrow> read_frames A fn fuel' (AddCurPos (unat iSize) st1) s')))
        | (_, _, st1) \<Rightarrow> Inr (Some PARSER_ERR_OTHER, st1, s)))"

declare read_frames.simps [simp del]

definition ReadRegFrames :: "allocator \<Rightarrow> 's on_frame \<Rightarrow> bytes_obj \<Rightarrow> 's \<Rightarrow> exc + int option \<times> bytes_obj \<times> 's" where
  "ReadRegFrames A fn stInput s =
     (let st = \<lparr>buf = stInput, m_iCurrentPosition = 0, m_iSnapshotPosition = 0\<rparr>
      in case read_frames A fn (RemainSize st) st s of
           Inl e \<Rightarrow> Inl e
         | Inr (Some c, _, s') \<Rightarrow> Inr (Some c, Bytes_empty, s')
         | Inr (None, st', s') \<Rightarrow> Inr (None, snd (Erase 0 (m_iCurrentPosition st') (buf st')), s'))"

section \<open>The table of services\<close>

record svc =
  sv_iId :: int
  sv_sIp :: string
  sv_sPort :: string
  sv_bOnline :: bool
  sv_vWatchers :: "nat list"

type_synonym services = "(string \<times> svc) list"

definition svc_new :: svc where
  "svc_new = \<lparr>sv_iId = 0, sv_sIp = [], sv_sPort = [], sv_bOnline = False, sv_vWatchers = []\<rparr>"

fun pick_loop :: "string \<Rightarrow> int \<Rightarrow> ServiceInstance option \<Rightarrow> ServiceInstance list \<Rightarrow> ServiceInstance option" where
  "pick_loop n iCurrent best [] = best"
| "pick_loop n iCurrent best (x # xs) =
    (if si_sName x \<noteq> n then pick_loop n iCurrent best xs
     else if iCurrent > 0 \<and> si_iId x = iCurrent then Some x
     else pick_loop n iCurrent (case best of None \<Rightarrow> Some x | Some b \<Rightarrow> if si_iId x < si_iId b then Some x else best) xs)"

definition Pick :: "ServiceInstance list \<Rightarrow> string \<Rightarrow> int \<Rightarrow> ServiceInstance option" where
  "Pick vList n iCurrent = pick_loop n iCurrent None vList"

definition Watchers :: "services \<Rightarrow> string \<Rightarrow> nat list" where
  "Watchers t n = (case map_of t n of None \<Rightarrow> [] | Some s \<Rightarrow> sv_vWatchers s)"

definition Watch :: "nat \<Rightarrow> string \<Rightarrow> services \<Rightarrow> services" where
  "Watch m n t = (let s = (case map_of t n of None \<Rightarrow> svc_new | Some s \<Rightarrow> s)
     in AList.update n (if m \<in> set (sv_vWatchers s) then s else s\<lparr>sv_vWatchers := sv_vWatchers s @ [m]\<rparr>) t)"

definition Names :: "services \<Rightarrow> string list" where
  "Names t = map fst (filter (\<lambda>(n, s). sv_vWatchers s \<noteq> []) t)"

text \<open>A call of \<open>SessionManager::ApplyService\<close>: the manager, the address and whether it is online.\<close>

type_synonym change = "nat \<times> string \<times> string \<times> bool"

definition picked :: "ServiceInstance option \<Rightarrow> svc \<Rightarrow> svc" where
  "picked p s = (case p of
      None \<Rightarrow> s\<lparr>sv_bOnline := False, sv_iId := 0, sv_sIp := [], sv_sPort := []\<rparr>
    | Some x \<Rightarrow> s\<lparr>sv_bOnline := True, sv_iId := si_iId x, sv_sIp := si_sIp x, sv_sPort := si_sPort x\<rparr>)"

definition unchanged :: "ServiceInstance option \<Rightarrow> svc \<Rightarrow> bool" where
  "unchanged p s = (case p of
      None \<Rightarrow> \<not> sv_bOnline s
    | Some x \<Rightarrow> sv_bOnline s \<and> si_iId x = sv_iId s \<and> si_sIp x = sv_sIp s \<and> si_sPort x = sv_sPort s)"

fun Apply :: "string list \<Rightarrow> ServiceInstance list \<Rightarrow> services \<Rightarrow> services \<times> change list" where
  "Apply [] vList t = (t, [])"
| "Apply (n # ns) vList t = (case map_of t n of
      None \<Rightarrow> Apply ns vList t
    | Some s \<Rightarrow>
        let p = Pick vList n (if sv_bOnline s then sv_iId s else 0)
        in if unchanged p s then Apply ns vList t
           else let s' = picked p s
             in case Apply ns vList (AList.update n s' t) of (t', cs) \<Rightarrow>
               (t', map (\<lambda>m. (m, sv_sIp s', sv_sPort s', sv_bOnline s')) (sv_vWatchers s') @ cs))"

section \<open>State of the client\<close>

abbreviation (input) kWaitMs :: int where "kWaitMs \<equiv> 1000"
abbreviation (input) PROTO_REG_REGISTER_RES :: u32 where "PROTO_REG_REGISTER_RES \<equiv> 5"
abbreviation (input) PROTO_REG_HEARTBEAT_RES :: u32 where "PROTO_REG_HEARTBEAT_RES \<equiv> 7"
abbreviation (input) PROTO_REG_PULL_RES :: u32 where "PROTO_REG_PULL_RES \<equiv> 9"

record PendingPull =
  p_id :: nat
  p_async :: bool
  bSynchronous :: bool
  iDeadlineMilliseconds :: int
  vNames :: "string list"

text \<open>With which code a pull in hand is finished: a fixed one, or by its deadline at that moment.\<close>

datatype fin = FinFixed int | FinByDeadline

datatype reg_msg = MsgRegister RegRegister | MsgHeartbeat RegHeartbeat | MsgPull nat "string list"

datatype sync_call = NoSync | SyncPull nat | SyncPublish

record regc =
  bConnected :: bool
  bConnecting :: bool
  bFailed :: bool
  iSessionId :: int
  bAddressReady :: bool
  sServiceName :: string
  iServiceId :: int
  sServiceIp :: string
  sServicePort :: string
  sServiceZone :: string
  bPublished :: bool
  bRegistered :: bool
  bLost :: bool
  iHeartbeatMilliseconds :: int
  bHeartbeatArmed :: bool
  iPullMilliseconds :: int
  bPullArmed :: bool
  bPullTimeoutArmed :: bool
  iPullResetCount :: nat
  vPendingPulls :: "PendingPull list"
  vDeferredPulls :: "PendingPull list"
  bRegistrationWaiting :: bool
  bGot :: bool
  iCode :: int
  vResponseList :: "ServiceInstance list"
  m_mServices :: services
  changes :: "change list"
  starting :: "PendingPull list"
  hand :: "(PendingPull \<times> fin) list"
  finished :: "nat set"
  results :: "(nat \<times> int \<times> ServiceInstance list) list"
  next_pull :: nat
  asked :: "nat list"
  sync :: sync_call
  sync_results :: "(nat \<times> ServiceInstance list) list"
  sent :: "(int \<times> reg_msg) list"
  answered :: "(int \<times> nat \<times> int \<times> ServiceInstance list) list"
  connects :: nat
  closed_sessions :: "int list"

definition RegistryClient :: regc where
  "RegistryClient = \<lparr>bConnected = False, bConnecting = False, bFailed = False, iSessionId = INVALID_SID, bAddressReady = False,
    sServiceName = [], iServiceId = 0, sServiceIp = [], sServicePort = [], sServiceZone = [], bPublished = False, bRegistered = False,
    bLost = False, iHeartbeatMilliseconds = 1000, bHeartbeatArmed = False, iPullMilliseconds = 1000, bPullArmed = False,
    bPullTimeoutArmed = False, iPullResetCount = 0, vPendingPulls = [], vDeferredPulls = [], bRegistrationWaiting = False, bGot = False,
    iCode = OI_ERR_FAIL, vResponseList = [], m_mServices = [], changes = [], starting = [], hand = [], finished = {}, results = [],
    next_pull = 0, asked = [], sync = NoSync, sync_results = [], sent = [], answered = [], connects = 0, closed_sessions = []\<rparr>"

section \<open>Connecting and sending\<close>

text \<open>The configuration: text values by key, and whether the process is stopping.\<close>

definition Configured :: "(string \<Rightarrow> string option) \<Rightarrow> bool" where
  "Configured cfg = (case cfg ''Registry.ip'' of None \<Rightarrow> False | Some v \<Rightarrow> v \<noteq> [])"

definition address_configured :: "(string \<Rightarrow> string option) \<Rightarrow> bool" where
  "address_configured cfg = (case (cfg ''Registry.ip'', cfg ''Registry.port'', cfg ''Registry.type'') of
      (Some i, Some p, Some _) \<Rightarrow> i \<noteq> [] \<and> p \<noteq> [] | _ \<Rightarrow> False)"

definition RegConnect :: "(string \<Rightarrow> string option) \<Rightarrow> bool \<Rightarrow> regc \<Rightarrow> bool \<times> regc" where
  "RegConnect cfg stop c =
    (if bConnected c then (True, c)
     else if \<not> bAddressReady c \<and> \<not> address_configured cfg then (False, c)
     else let c1 = c\<lparr>bAddressReady := True\<rparr>
       in if bConnecting c1 then (True, c1)
          else if stop then (False, c1\<lparr>bFailed := False\<rparr>)
          else (True, c1\<lparr>bConnecting := True, bFailed := False, connects := connects c1 + 1\<rparr>))"

text \<open>How \<open>SendBytes\<close> ends: taken, refused, or an exception on the way (while the frame is built).\<close>

datatype send_out = SendTaken | SendRefused | SendThrows

definition RegSend :: "send_out \<Rightarrow> reg_msg \<Rightarrow> regc \<Rightarrow> send_out \<times> regc" where
  "RegSend w m c =
    (if iSessionId c = INVALID_SID then (SendRefused, c)
     else if w = SendTaken then (SendTaken, c\<lparr>sent := sent c @ [(iSessionId c, m)]\<rparr>) else (w, c))"

definition ArmPullTimeout :: "regc \<Rightarrow> regc" where
  "ArmPullTimeout c = c\<lparr>bPullTimeoutArmed := True\<rparr>"

definition EnqueueSentPull :: "send_out \<Rightarrow> int \<Rightarrow> PendingPull \<Rightarrow> regc \<Rightarrow> send_out \<times> regc" where
  "EnqueueSentPull w now p c =
    (let p1 = (if iDeadlineMilliseconds p = 0 then p\<lparr>iDeadlineMilliseconds := now + kWaitMs\<rparr> else p);
         c1 = (ArmPullTimeout c)\<lparr>vPendingPulls := vPendingPulls c @ [p1]\<rparr>
     in case RegSend w (MsgPull (p_id p) (vNames p)) c1 of
          (SendTaken, c2) \<Rightarrow> (SendTaken, c2)
        | (r, c2) \<Rightarrow> (r, c2\<lparr>vPendingPulls := butlast (vPendingPulls c2)\<rparr>))"

datatype max_cfg = MaxInt int | MaxInvalid | MaxOther

text \<open>\<open>None\<close> is the exception \<open>invalid_argument\<close>.\<close>

definition ReadMaxPendingPulls :: "max_cfg option \<Rightarrow> int option" where
  "ReadMaxPendingPulls v = (case v of
      Some (MaxInt n) \<Rightarrow> if n \<le> 0 then None else Some n
    | Some MaxInvalid \<Rightarrow> None
    | _ \<Rightarrow> Some 4096)"

definition GetPendingPullCount :: "regc \<Rightarrow> nat" where
  "GetPendingPullCount c = length (vPendingPulls c) + length (vDeferredPulls c)"

definition CanEnqueuePull :: "max_cfg option \<Rightarrow> regc \<Rightarrow> bool option" where
  "CanEnqueuePull v c = (case ReadMaxPendingPulls v of None \<Rightarrow> None | Some n \<Rightarrow> Some (int (GetPendingPullCount c) < n))"

section \<open>Finishing pulls\<close>

definition FinishPull :: "PendingPull \<Rightarrow> int \<Rightarrow> ServiceInstance list \<Rightarrow> regc \<Rightarrow> regc" where
  "FinishPull p code vList c =
    (if \<not> p_async p \<or> p_id p \<in> finished c then c
     else c\<lparr>finished := insert (p_id p) (finished c), results := results c @ [(p_id p, code, vList)]\<rparr>)"

fun fin_code :: "int \<Rightarrow> PendingPull \<Rightarrow> fin \<Rightarrow> int" where
  "fin_code now p (FinFixed e) = e"
| "fin_code now p FinByDeadline = (if iDeadlineMilliseconds p \<le> now then OI_ERR_TIMEOUT else OI_ERR_CONNECT)"

definition RunFinish :: "nat \<Rightarrow> int \<Rightarrow> regc \<Rightarrow> regc" where
  "RunFinish i now c = (if i < length (hand c)
     then case hand c ! i of (p, f) \<Rightarrow>
       FinishPull p (fin_code now p f) [] (c\<lparr>hand := take i (hand c) @ drop (Suc i) (hand c)\<rparr>)
     else c)"

definition due :: "int \<Rightarrow> PendingPull \<Rightarrow> bool" where
  "due now p \<longleftrightarrow> iDeadlineMilliseconds p \<le> now"

text \<open>The part of \<open>ExpirePulls\<close> that makes the whole connection invalid.\<close>

definition invalidate :: "int \<Rightarrow> regc \<Rightarrow> regc" where
  "invalidate now c =
    (let sid = iSessionId c; v = vPendingPulls c; s = filter bSynchronous v
     in c\<lparr>iSessionId := INVALID_SID, iPullResetCount := iPullResetCount c + 1,
          closed_sessions := closed_sessions c @ (if sid \<noteq> INVALID_SID then [sid] else []),
          bConnected := False, bRegistered := False, bFailed := True, vPendingPulls := [],
          iCode := (if s = [] then iCode c else if due now (last s) then OI_ERR_TIMEOUT else OI_ERR_CONNECT),
          bGot := (s \<noteq> [] \<or> bGot c),
          hand := hand c @ map (\<lambda>p. (p, FinFixed (if due now p then OI_ERR_TIMEOUT else OI_ERR_CONNECT))) v\<rparr>)"

definition ExpirePulls :: "int \<Rightarrow> regc \<Rightarrow> regc" where
  "ExpirePulls now c =
    (let c1 = c\<lparr>vDeferredPulls := filter (\<lambda>p. \<not> due now p) (vDeferredPulls c),
               hand := hand c @ map (\<lambda>p. (p, FinFixed OI_ERR_TIMEOUT)) (filter (due now) (vDeferredPulls c))\<rparr>
     in if list_ex (due now) (vPendingPulls c1) then invalidate now c1 else c1)"

section \<open>Pulls\<close>

definition INT64_MAX :: int where
  "INT64_MAX = 2 ^ 63 - 1"

definition PullAsync_begin :: "(string \<Rightarrow> string option) \<Rightarrow> bool \<Rightarrow> max_cfg option \<Rightarrow> string \<Rightarrow> int \<Rightarrow> int \<Rightarrow> regc \<Rightarrow> regc" where
  "PullAsync_begin cfg stop mx sName timeout now c =
    (let p = \<lparr>p_id = next_pull c, p_async = True, bSynchronous = False,
              iDeadlineMilliseconds = now + min timeout (INT64_MAX - now), vNames = [sName]\<rparr>;
         c1 = c\<lparr>next_pull := next_pull c + 1, asked := asked c @ [next_pull c]\<rparr>
     in if timeout \<le> 0 then FinishPull p OI_ERR_TIMEOUT [] c1
        else if sName = [] \<or> \<not> Configured cfg then FinishPull p OI_ERR_FAIL [] c1
        else case CanEnqueuePull mx c1 of
            None \<Rightarrow> FinishPull p OI_ERR_FAIL [] c1
          | Some False \<Rightarrow> FinishPull p OI_ERR_BUSY [] c1
          | Some True \<Rightarrow> (case RegConnect cfg stop c1 of
                (False, c2) \<Rightarrow> FinishPull p OI_ERR_CONNECT [] c2
              | (True, c2) \<Rightarrow> c2\<lparr>starting := starting c2 @ [p]\<rparr>))"

definition PullAsync_end :: "send_out \<Rightarrow> nat \<Rightarrow> int \<Rightarrow> regc \<Rightarrow> regc" where
  "PullAsync_end w i now c = (if i < length (starting c)
     then let p = starting c ! i; c1 = ArmPullTimeout (c\<lparr>starting := take i (starting c) @ drop (Suc i) (starting c)\<rparr>)
       in if due now p then FinishPull p OI_ERR_TIMEOUT [] c1
          else if bConnected c1 then (case EnqueueSentPull w now p c1 of
              (SendTaken, c2) \<Rightarrow> c2
            | (SendRefused, c2) \<Rightarrow> FinishPull p OI_ERR_CONNECT [] c2
            | (SendThrows, c2) \<Rightarrow> FinishPull p OI_ERR_FAIL [] c2)
          else if bConnecting c1 then c1\<lparr>vDeferredPulls := vDeferredPulls c1 @ [p]\<rparr>
          else FinishPull p OI_ERR_CONNECT [] c1
     else c)"

text \<open>The pull of all watched names, by the timer.\<close>

definition RegPull_all :: "(string \<Rightarrow> string option) \<Rightarrow> bool \<Rightarrow> max_cfg option \<Rightarrow> send_out \<Rightarrow> int \<Rightarrow> regc \<Rightarrow> regc" where
  "RegPull_all cfg stop mx w now c =
    (let ns = Names (m_mServices c)
     in if ns = [] then c
        else if \<not> bConnected c then snd (RegConnect cfg stop c)
        else if CanEnqueuePull mx c \<noteq> Some True then c
        else snd (EnqueueSentPull w now \<lparr>p_id = next_pull c, p_async = False, bSynchronous = False, iDeadlineMilliseconds = 0, vNames = ns\<rparr>
               (c\<lparr>next_pull := next_pull c + 1\<rparr>)))"

text \<open>
  \<open>PullSync\<close> and \<open>Publish\<close> wait for a connection first: \<open>Ensure\<close> is \<open>RegConnect\<close> and a wait. Then the pull is
  sent; the code is the one the call returns at once, \<open>None\<close> when it waits for the reply. A call whose
  send failed goes on to \<open>ExpirePulls\<close>; one that ends with an exception has the code \<open>OI_ERR_FAIL\<close>.
\<close>

definition PullSync_send :: "max_cfg option \<Rightarrow> send_out \<Rightarrow> string \<Rightarrow> int \<Rightarrow> regc \<Rightarrow> int option \<times> regc" where
  "PullSync_send mx w sName now c =
    (if sync c \<noteq> NoSync then (None, c)
     else if CanEnqueuePull mx c = None then (Some OI_ERR_FAIL, c)
     else if CanEnqueuePull mx c = Some False then (Some OI_ERR_BUSY, c)
     else let n = next_pull c
       in case EnqueueSentPull w now \<lparr>p_id = n, p_async = False, bSynchronous = True, iDeadlineMilliseconds = 0, vNames = [sName]\<rparr>
              (c\<lparr>next_pull := n + 1, bGot := False, iCode := OI_ERR_FAIL\<rparr>) of
            (SendTaken, c1) \<Rightarrow> (None, c1\<lparr>sync := SyncPull n\<rparr>)
          | (SendRefused, c1) \<Rightarrow> (Some OI_ERR_CONNECT, c1)
          | (SendThrows, c1) \<Rightarrow> (Some OI_ERR_FAIL, c1))"

fun cancel_first :: "PendingPull list \<Rightarrow> PendingPull list" where
  "cancel_first [] = []"
| "cancel_first (p # ps) = (if bSynchronous p then p\<lparr>bSynchronous := False\<rparr> # ps else p # cancel_first ps)"

text \<open>After the wait that saw no result; \<open>ExpirePulls\<close> follows.\<close>

definition PullSync_cancel :: "regc \<Rightarrow> regc" where
  "PullSync_cancel c = (case sync c of
      SyncPull n \<Rightarrow> c\<lparr>vPendingPulls := cancel_first (vPendingPulls c), sync := NoSync\<rparr> | _ \<Rightarrow> c)"

text \<open>After the wait that saw the result.\<close>

definition PullSync_result :: "regc \<Rightarrow> regc" where
  "PullSync_result c = (case sync c of
      SyncPull n \<Rightarrow> if \<not> bGot c then c
        else c\<lparr>sync := NoSync, sync_results := sync_results c
          @ (if iCode c = OI_ERR_TIMEOUT \<or> iCode c = OI_ERR_CONNECT then [] else [(n, vResponseList c)])\<rparr>
    | _ \<Rightarrow> c)"

section \<open>Events of the connection\<close>

definition register_msg :: "regc \<Rightarrow> reg_msg" where
  "register_msg c = MsgRegister \<lparr>reg_sName = sServiceName c, reg_iId = word_of_int (iServiceId c), reg_sIp = sServiceIp c,
     reg_sPort = sServicePort c, reg_sZone = sServiceZone c\<rparr>"

definition SendRegister :: "send_out \<Rightarrow> regc \<Rightarrow> regc" where
  "SendRegister w c = snd (RegSend w (register_msg c) c)"

text \<open>The pulls that waited for the connection; \<open>os\<close> says how their sends end.\<close>

fun send_deferred :: "send_out list \<Rightarrow> int \<Rightarrow> PendingPull list \<Rightarrow> regc \<Rightarrow> regc" where
  "send_deferred os now [] c = c"
| "send_deferred os now (p # ps) c =
    (if due now p then send_deferred os now ps (c\<lparr>hand := hand c @ [(p, FinByDeadline)]\<rparr>)
     else case EnqueueSentPull (case os of [] \<Rightarrow> SendTaken | w # _ \<Rightarrow> w) now p c of
         (SendTaken, c1) \<Rightarrow> send_deferred (tl os) now ps c1
       | (_, c1) \<Rightarrow> send_deferred (tl os) now ps (c1\<lparr>hand := hand c1 @ [(p, FinByDeadline)]\<rparr>))"

definition Client_OnAddSession :: "send_out \<Rightarrow> send_out list \<Rightarrow> int \<Rightarrow> int \<Rightarrow> regc \<Rightarrow> regc" where
  "Client_OnAddSession w os sid now c =
    (let vFailed = vPendingPulls c; vSend = vDeferredPulls c;
         c1 = c\<lparr>vPendingPulls := [], vDeferredPulls := [], iSessionId := sid, bFailed := False, bConnected := True, bConnecting := False,
                hand := hand c @ map (\<lambda>p. (p, FinFixed OI_ERR_CONNECT)) vFailed\<rparr>;
         c2 = (if bPublished c1 \<and> \<not> bLost c1 then SendRegister w c1 else c1)
     in send_deferred os now vSend c2)"

definition Client_OnDelSession :: "int \<Rightarrow> regc \<Rightarrow> regc" where
  "Client_OnDelSession sid c =
    (if iSessionId c \<noteq> sid then c
     else c\<lparr>iSessionId := INVALID_SID, bConnected := False, bRegistered := False, bFailed := True, vPendingPulls := [], vDeferredPulls := [],
            hand := hand c @ map (\<lambda>p. (p, FinByDeadline)) (vPendingPulls c @ vDeferredPulls c)\<rparr>)"

definition Client_OnConnectFailed :: "regc \<Rightarrow> regc" where
  "Client_OnConnectFailed c = c\<lparr>bConnecting := False, bFailed := True, vDeferredPulls := [],
     hand := hand c @ map (\<lambda>p. (p, FinByDeadline)) (vDeferredPulls c)\<rparr>"

section \<open>Received messages\<close>

definition OnRegisterRes :: "int \<Rightarrow> regc \<Rightarrow> regc" where
  "OnRegisterRes code c =
    (let c1 = (if code = OI_OK then c\<lparr>bRegistered := True\<rparr>
               else if code = OI_ERR_EXIST \<and> \<not> bRegistrationWaiting c then c\<lparr>bLost := True\<rparr> else c)
     in if bRegistrationWaiting c1 then c1\<lparr>iCode := code, bGot := True\<rparr> else c1)"

definition OnHeartbeatRes :: "int \<Rightarrow> regc \<Rightarrow> regc" where
  "OnHeartbeatRes code c =
    (if code = OI_ERR_EXIST then c\<lparr>bLost := True, bRegistered := False\<rparr>
     else if code \<noteq> OI_OK then c\<lparr>bRegistered := False\<rparr> else c)"

definition instance_of :: "RegInstance \<Rightarrow> ServiceInstance" where
  "instance_of x = \<lparr>si_sName = inst_sName x, si_iId = sint (inst_iId x), si_sIp = inst_sIp x, si_sPort = inst_sPort x, si_sZone = inst_sZone x\<rparr>"

definition OnPullRes :: "int \<Rightarrow> int \<Rightarrow> ServiceInstance list \<Rightarrow> regc \<Rightarrow> regc" where
  "OnPullRes now code vList c = (case vPendingPulls c of
      [] \<Rightarrow> c
    | p # ps \<Rightarrow>
        let code1 = (if due now p then OI_ERR_TIMEOUT else code); l = (if due now p then [] else vList);
            c1 = c\<lparr>vPendingPulls := ps, answered := answered c @ [(iSessionId c, p_id p, code1, l)]\<rparr>
        in if p_async p then FinishPull p code1 l c1
           else if bSynchronous p then c1\<lparr>vResponseList := l, iCode := code1, bGot := True\<rparr>
           else if code1 = OI_OK
             then (case Apply (vNames p) l (m_mServices c1) of (t, cs) \<Rightarrow> c1\<lparr>m_mServices := t, changes := changes c1 @ cs\<rparr>)
           else c1)"

definition OnFrame :: "allocator \<Rightarrow> int \<Rightarrow> int \<Rightarrow> u32 \<Rightarrow> stream \<Rightarrow> regc \<Rightarrow> exc + regc" where
  "OnFrame A now sid iId stBody c =
    (if sid \<noteq> iSessionId c then Inr c
     else if iId = PROTO_REG_REGISTER_RES then
       (case RegRegisterRes_deserialize A \<lparr>regres_iCode = - 1\<rparr> stBody of
          (Some e, _) \<Rightarrow> Inl e | (None, r, _) \<Rightarrow> Inr (OnRegisterRes (sint (regres_iCode r)) c))
     else if iId = PROTO_REG_HEARTBEAT_RES then
       (case RegHeartbeatRes_deserialize A \<lparr>hbres_iCode = - 1\<rparr> stBody of
          (Some e, _) \<Rightarrow> Inl e | (None, r, _) \<Rightarrow> Inr (OnHeartbeatRes (sint (hbres_iCode r)) c))
     else if iId = PROTO_REG_PULL_RES then
       (case RegPullRes_deserialize A \<lparr>pullres_iCode = - 1, pullres_vList = []\<rparr> stBody of
          (Some e, _) \<Rightarrow> Inl e | (None, r, _) \<Rightarrow> Inr (OnPullRes now (sint (pullres_iCode r)) (map instance_of (pullres_vList r)) c))
     else Inr c)"

section \<open>Registration\<close>

definition TakeAdvertise :: "(string \<Rightarrow> string option) \<Rightarrow> string \<Rightarrow> string \<Rightarrow> string" where
  "TakeAdvertise cfg sKey sValue = (case cfg sKey of Some v \<Rightarrow> if v = [] then sValue else v | None \<Rightarrow> sValue)"

definition PublishAddress :: "inet \<Rightarrow> (string \<Rightarrow> string option) \<Rightarrow> string \<Rightarrow> string \<Rightarrow> string \<Rightarrow> (string \<times> string) option" where
  "PublishAddress N cfg sSection sBindIp sBindPort =
    (let ip = TakeAdvertise cfg (sSection @ ''.advertise_ip'') (TakeAdvertise cfg ''Service.advertise_ip'' sBindIp);
         port = TakeAdvertise cfg (sSection @ ''.advertise_port'') (TakeAdvertise cfg ''Service.advertise_port'' sBindPort)
     in if ip = [] \<or> port = [] \<or> ip = ''*'' \<or> (case NetAddr_Init N ip port of (a, ok) \<Rightarrow> ok \<and> IsUnspecified a)
        then None else Some (ip, port))"

definition fnToken :: "string \<Rightarrow> bool" where
  "fnToken s \<longleftrightarrow> s \<noteq> [] \<and> list_all (\<lambda>ch. (CHR ''a'' \<le> ch \<and> ch \<le> CHR ''z'') \<or> (CHR ''A'' \<le> ch \<and> ch \<le> CHR ''Z'')
     \<or> (CHR ''0'' \<le> ch \<and> ch \<le> CHR ''9'') \<or> ch = CHR ''_'' \<or> ch = CHR ''-'') s"

definition ArmPull :: "int option \<Rightarrow> regc \<Rightarrow> regc" where
  "ArmPull v c = (if bPullArmed c then c
     else let ms = (case v of None \<Rightarrow> iPullMilliseconds c | Some n \<Rightarrow> n)
       in c\<lparr>iPullMilliseconds := (if ms \<le> 0 then 1000 else ms), bPullArmed := True\<rparr>)"

definition ArmHeartbeat :: "int option \<Rightarrow> regc \<Rightarrow> regc" where
  "ArmHeartbeat v c = (if bHeartbeatArmed c then c
     else let ms = (case v of None \<Rightarrow> iHeartbeatMilliseconds c | Some n \<Rightarrow> n)
       in c\<lparr>iHeartbeatMilliseconds := (if ms \<le> 0 then 1000 else ms), bHeartbeatArmed := True\<rparr>)"

definition Client_Watch :: "(string \<Rightarrow> string option) \<Rightarrow> int option \<Rightarrow> nat \<Rightarrow> string \<Rightarrow> regc \<Rightarrow> regc" where
  "Client_Watch cfg v m sName c =
    (if sName = [] \<or> \<not> Configured cfg then c
     else ArmPull v (c\<lparr>m_mServices := Watch m sName (m_mServices c)\<rparr>))"

definition Touch :: "(string \<Rightarrow> string option) \<Rightarrow> bool \<Rightarrow> send_out \<Rightarrow> regc \<Rightarrow> regc" where
  "Touch cfg stop w c =
    (if \<not> bPublished c \<or> bLost c then c
     else if \<not> bConnected c then snd (RegConnect cfg stop c)
     else if \<not> bRegistered c then SendRegister w c
     else snd (RegSend w (MsgHeartbeat \<lparr>hb_sName = sServiceName c, hb_iId = word_of_int (iServiceId c)\<rparr>) c))"

text \<open>
  \<open>Publish\<close> up to its call of \<open>Ensure\<close>: \<open>Inl\<close> is the result when nothing is to be registered, \<open>Inr\<close> the
  identity to register (name, id, address, port, zone).
\<close>

definition Publish_check :: "inet \<Rightarrow> (string \<Rightarrow> string option) \<Rightarrow> int option \<Rightarrow> string \<Rightarrow> string \<Rightarrow> string \<Rightarrow> regc
    \<Rightarrow> bool + string \<times> int \<times> string \<times> string \<times> string" where
  "Publish_check N cfg iid sSection sIp sPort c =
    (if sSection = ''Registry'' \<or> \<not> Configured cfg then Inl True
     else let name = (case cfg ''Service.name'' of None \<Rightarrow> [] | Some v \<Rightarrow> v); zone = (case cfg ''Service.zone'' of None \<Rightarrow> [] | Some v \<Rightarrow> v)
     in if name = [] then Inl True
        else if \<not> fnToken name \<or> (zone \<noteq> [] \<and> \<not> fnToken zone) then Inl False
        else case iid of
            None \<Rightarrow> Inl False
          | Some n \<Rightarrow>
              if n \<le> 0 then Inl False
              else (case PublishAddress N cfg sSection sIp sPort of
                  None \<Rightarrow> Inl True
                | Some (ip, port) \<Rightarrow> if bPublished c then Inl True else Inr (name, n, ip, port, zone)))"

definition Publish_begin :: "string \<times> int \<times> string \<times> string \<times> string \<Rightarrow> regc \<Rightarrow> regc" where
  "Publish_begin i c = (case i of (name, n, ip, port, zone) \<Rightarrow>
     c\<lparr>sServiceName := name, iServiceId := n, sServiceIp := ip, sServicePort := port, sServiceZone := zone\<rparr>)"

definition Publish_send :: "send_out \<Rightarrow> regc \<Rightarrow> regc" where
  "Publish_send w c = (if sync c \<noteq> NoSync then c
     else SendRegister w (c\<lparr>bGot := False, iCode := OI_ERR_FAIL, bRegistrationWaiting := True, sync := SyncPublish\<rparr>))"

text \<open>The end of \<open>Publish\<close>; \<open>ok\<close> says whether \<open>Ensure\<close> succeeded and, if so, \<open>got\<close> what the wait for the reply returned.\<close>

definition Publish_end :: "int option \<Rightarrow> bool \<Rightarrow> bool \<Rightarrow> regc \<Rightarrow> bool \<times> regc" where
  "Publish_end v ok got c =
    (let c1 = (if ok then c\<lparr>bRegistrationWaiting := False, sync := (if sync c = SyncPublish then NoSync else sync c)\<rparr> else c)
     in if ok \<and> got \<and> iCode c = OI_ERR_EXIST then (False, c1)
        else (True, ArmHeartbeat v (c1\<lparr>bPublished := True\<rparr>)))"

definition Lookup :: "int \<Rightarrow> ServiceInstance list \<Rightarrow> string \<Rightarrow> (string \<times> string) option" where
  "Lookup code vList sName = (if code \<noteq> OI_OK then None
     else map_option (\<lambda>x. (si_sIp x, si_sPort x)) (Pick vList sName 0))"

section \<open>Histories\<close>

datatype rc_event =
    EvPullBegin "string \<Rightarrow> string option" bool "max_cfg option" string int
  | EvPullEnd send_out nat
  | EvPullAll "string \<Rightarrow> string option" bool "max_cfg option" send_out
  | EvSyncSend "max_cfg option" send_out string
  | EvSyncCancel
  | EvSyncResult
  | EvConnect "string \<Rightarrow> string option" bool
  | EvExpire
  | EvFinish nat
  | EvAdd send_out "send_out list" int
  | EvDel int
  | EvConnectFailed
  | EvFrame int u32 stream
  | EvWatch "string \<Rightarrow> string option" "int option" nat string
  | EvTouch "string \<Rightarrow> string option" bool send_out
  | EvPublishBegin "string \<times> int \<times> string \<times> string \<times> string"
  | EvPublishSend send_out
  | EvPublishEnd "int option" bool bool

fun rc_step :: "allocator \<Rightarrow> int \<times> rc_event \<Rightarrow> regc \<Rightarrow> regc" where
  "rc_step A (now, EvPullBegin cfg stop mx sName timeout) c = PullAsync_begin cfg stop mx sName timeout now c"
| "rc_step A (now, EvPullEnd w i) c = PullAsync_end w i now c"
| "rc_step A (now, EvPullAll cfg stop mx w) c = RegPull_all cfg stop mx w now c"
| "rc_step A (now, EvSyncSend mx w sName) c = snd (PullSync_send mx w sName now c)"
| "rc_step A (now, EvSyncCancel) c = PullSync_cancel c"
| "rc_step A (now, EvSyncResult) c = PullSync_result c"
| "rc_step A (now, EvConnect cfg stop) c = snd (RegConnect cfg stop c)"
| "rc_step A (now, EvExpire) c = ExpirePulls now c"
| "rc_step A (now, EvFinish i) c = RunFinish i now c"
| "rc_step A (now, EvAdd w os sid) c = Client_OnAddSession w os sid now c"
| "rc_step A (now, EvDel sid) c = Client_OnDelSession sid c"
| "rc_step A (now, EvConnectFailed) c = Client_OnConnectFailed c"
| "rc_step A (now, EvFrame sid q st) c = (case OnFrame A now sid q st c of Inl _ \<Rightarrow> c | Inr c' \<Rightarrow> c')"
| "rc_step A (now, EvWatch cfg v m sName) c = Client_Watch cfg v m sName c"
| "rc_step A (now, EvTouch cfg stop w) c = Touch cfg stop w c"
| "rc_step A (now, EvPublishBegin i) c = Publish_begin i c"
| "rc_step A (now, EvPublishSend w) c = Publish_send w c"
| "rc_step A (now, EvPublishEnd v ok got) c = snd (Publish_end v ok got c)"

fun rc_run :: "allocator \<Rightarrow> (int \<times> rc_event) list \<Rightarrow> regc \<Rightarrow> regc" where
  "rc_run A [] c = c"
| "rc_run A (ev # evs) c = rc_run A evs (rc_step A ev c)"

text \<open>The numbers of the sessions that were added; the session manager gives each number once.\<close>

fun added_sid :: "int \<times> rc_event \<Rightarrow> int list" where
  "added_sid (now, EvAdd w os sid) = [sid]"
| "added_sid _ = []"

section \<open>Invariant\<close>

definition tag :: "PendingPull \<Rightarrow> nat \<times> bool" where
  "tag p = (p_id p, p_async p)"

definition pool :: "regc \<Rightarrow> (nat \<times> bool) multiset" where
  "pool c = mset (map tag (starting c)) + mset (map tag (vPendingPulls c)) + mset (map tag (vDeferredPulls c)) + mset (map (tag \<circ> fst) (hand c))"

text \<open>\<open>X\<close> are the pulls the running operation has in hand.\<close>

definition pulls_ok :: "(nat \<times> bool) multiset \<Rightarrow> regc \<Rightarrow> bool" where
  "pulls_ok X c \<longleftrightarrow> (\<forall>n. count (pool c + X) (n, True) + count (pool c + X) (n, False) \<le> 1)
   \<and> (\<forall>n b. next_pull c \<le> n \<longrightarrow> count (pool c + X) (n, b) = 0)
   \<and> (\<forall>n. count (pool c + X) (n, True) + of_bool (n \<in> finished c) = (of_bool (n \<in> set (asked c)) :: nat))
   \<and> (\<forall>n. count_list (map fst (results c)) n = of_bool (n \<in> finished c))
   \<and> (\<forall>n \<in> set (asked c). n < next_pull c)"

fun pull_to :: "int \<Rightarrow> int \<times> reg_msg \<Rightarrow> nat list" where
  "pull_to sid (s, MsgPull n ns) = (if s = sid then [n] else [])"
| "pull_to sid _ = []"

definition pulls_to :: "int \<Rightarrow> regc \<Rightarrow> nat list" where
  "pulls_to sid c = concat (map (pull_to sid) (sent c))"

definition answers :: "int \<Rightarrow> regc \<Rightarrow> nat list" where
  "answers sid c = map (fst \<circ> snd) (filter (\<lambda>a. fst a = sid) (answered c))"

definition fifo_ok :: "int set \<Rightarrow> regc \<Rightarrow> bool" where
  "fifo_ok S c \<longleftrightarrow> - 1 \<notin> S \<and> (iSessionId c \<noteq> - 1 \<longrightarrow> iSessionId c \<in> S)
   \<and> (\<forall>sid. sid \<notin> S \<longrightarrow> pulls_to sid c = [] \<and> answers sid c = [])
   \<and> (\<forall>sid. prefix (answers sid c) (pulls_to sid c))
   \<and> (if iSessionId c = - 1 then vPendingPulls c = []
      else pulls_to (iSessionId c) c = answers (iSessionId c) c @ map p_id (vPendingPulls c))"

definition flags_ok :: "regc \<Rightarrow> bool" where
  "flags_ok c \<longleftrightarrow> (bConnected c \<longleftrightarrow> iSessionId c \<noteq> - 1) \<and> (bConnecting c \<longrightarrow> \<not> bConnected c)
   \<and> (vDeferredPulls c \<noteq> [] \<longrightarrow> bConnecting c) \<and> (vPendingPulls c \<noteq> [] \<or> vDeferredPulls c \<noteq> [] \<longrightarrow> bPullTimeoutArmed c)"

definition plain :: "PendingPull \<Rightarrow> bool" where
  "plain p \<longleftrightarrow> p_async p \<and> \<not> bSynchronous p"

definition sync_ok :: "regc \<Rightarrow> bool" where
  "sync_ok c \<longleftrightarrow> (\<forall>p \<in> set (starting c) \<union> set (vDeferredPulls c). plain p)
   \<and> (\<forall>p \<in> set (vPendingPulls c). bSynchronous p \<longrightarrow> \<not> p_async p \<and> sync c = SyncPull (p_id p) \<and> \<not> bGot c)
   \<and> (bRegistrationWaiting c \<longrightarrow> sync c = SyncPublish)
   \<and> (\<forall>n. sync c = SyncPull n \<and> bGot c \<longrightarrow> iCode c = OI_ERR_TIMEOUT \<or> iCode c = OI_ERR_CONNECT
        \<or> (\<exists>sid. (sid, n, iCode c, vResponseList c) \<in> set (answered c)))
   \<and> (\<forall>(n, l) \<in> set (sync_results c). \<exists>sid code. (sid, n, code, l) \<in> set (answered c))"

definition rc_ok :: "int set \<Rightarrow> (nat \<times> bool) multiset \<Rightarrow> regc \<Rightarrow> bool" where
  "rc_ok S X c \<longleftrightarrow> pulls_ok X c \<and> fifo_ok S c \<and> flags_ok c \<and> sync_ok c"

lemmas rc_defs = rc_ok_def pulls_ok_def fifo_ok_def flags_ok_def sync_ok_def pool_def pulls_to_def answers_def

lemma RegistryClient_ok: "rc_ok {} {#} RegistryClient"
  by (simp add: rc_defs RegistryClient_def)

section \<open>Lemmas: parts of operations\<close>

lemma pulls_ok_move:
  "pulls_ok X c \<Longrightarrow> pool c' + X' = pool c + X \<Longrightarrow> next_pull c' = next_pull c \<Longrightarrow> finished c' = finished c \<Longrightarrow> asked c' = asked c
    \<Longrightarrow> results c' = results c \<Longrightarrow> pulls_ok X' c'"
  by (simp add: pulls_ok_def)

lemma fifo_ok_same:
  "fifo_ok S c \<Longrightarrow> iSessionId c' = iSessionId c \<Longrightarrow> sent c' = sent c \<Longrightarrow> answered c' = answered c
    \<Longrightarrow> map p_id (vPendingPulls c') = map p_id (vPendingPulls c) \<Longrightarrow> fifo_ok S c'"
  by (auto simp: fifo_ok_def pulls_to_def answers_def)

lemma flags_ok_same:
  "flags_ok c \<Longrightarrow> bConnected c' = bConnected c \<Longrightarrow> iSessionId c' = iSessionId c \<Longrightarrow> bConnecting c' = bConnecting c
    \<Longrightarrow> vDeferredPulls c' = vDeferredPulls c \<Longrightarrow> (vPendingPulls c' = []) = (vPendingPulls c = []) \<Longrightarrow> bPullTimeoutArmed c' = bPullTimeoutArmed c
    \<Longrightarrow> flags_ok c'"
  unfolding flags_ok_def by auto

lemma sync_ok_same:
  "sync_ok c \<Longrightarrow> starting c' = starting c \<Longrightarrow> vDeferredPulls c' = vDeferredPulls c \<Longrightarrow> vPendingPulls c' = vPendingPulls c \<Longrightarrow> sync c' = sync c
    \<Longrightarrow> bRegistrationWaiting c' = bRegistrationWaiting c \<Longrightarrow> bGot c' = bGot c \<Longrightarrow> iCode c' = iCode c \<Longrightarrow> vResponseList c' = vResponseList c
    \<Longrightarrow> answered c' = answered c \<Longrightarrow> sync_results c' = sync_results c \<Longrightarrow> sync_ok c'"
  unfolding sync_ok_def by (simp only:)

text \<open>The fields that one of the four parts of the invariant is about.\<close>

definition flag_view :: "regc \<Rightarrow> bool \<times> bool \<times> bool \<times> int" where
  "flag_view c = (bConnected c, bConnecting c, bPullTimeoutArmed c, iSessionId c)"

definition queue_view :: "regc \<Rightarrow> PendingPull list \<times> PendingPull list \<times> PendingPull list \<times> (PendingPull \<times> fin) list" where
  "queue_view c = (starting c, vPendingPulls c, vDeferredPulls c, hand c)"

definition log_view :: "regc \<Rightarrow> nat set \<times> (nat \<times> int \<times> ServiceInstance list) list \<times> nat \<times> nat list \<times> (int \<times> reg_msg) list \<times> (int \<times> nat \<times> int \<times> ServiceInstance list) list" where
  "log_view c = (finished c, results c, next_pull c, asked c, sent c, answered c)"

definition sync_view :: "regc \<Rightarrow> sync_call \<times> bool \<times> bool \<times> int \<times> ServiceInstance list \<times> (nat \<times> ServiceInstance list) list" where
  "sync_view c = (sync c, bRegistrationWaiting c, bGot c, iCode c, vResponseList c, sync_results c)"

lemmas view_defs = flag_view_def queue_view_def log_view_def sync_view_def

lemma rc_ok_same:
  assumes "rc_ok S X c" and "flag_view c' = flag_view c" and "queue_view c' = queue_view c" and "log_view c' = log_view c" and "sync_view c' = sync_view c"
  shows "rc_ok S X c'"
  unfolding rc_ok_def
proof (intro conjI)
  note r = assms(1) [unfolded rc_ok_def]
  show "pulls_ok X c'" by (rule pulls_ok_move [of X c]) (use r assms(2-) in \<open>simp_all add: view_defs pool_def\<close>)
  show "fifo_ok S c'" by (rule fifo_ok_same [of S c]) (use r assms(2-) in \<open>simp_all add: view_defs\<close>)
  show "flags_ok c'" by (rule flags_ok_same [of c]) (use r assms(2-) in \<open>simp_all add: view_defs\<close>)
  show "sync_ok c'" by (rule sync_ok_same [of c]) (use r assms(2-) in \<open>simp_all add: view_defs\<close>)
qed

lemma RegConnect_ok:
  assumes "rc_ok S X c" and "RegConnect cfg stop c = (r, c')"
  shows "rc_ok S X c'"
proof -
  let ?d = "c\<lparr>bAddressReady := True, bFailed := False\<rparr>"
  consider "flag_view c' = flag_view c" "queue_view c' = queue_view c" "log_view c' = log_view c" "sync_view c' = sync_view c"
    | "\<not> bConnected c" "c' = c\<lparr>bAddressReady := True, bConnecting := True, bFailed := False, connects := connects c + 1\<rparr>"
    using assms(2) by (auto simp: RegConnect_def Let_def view_defs split: if_splits)
  then show ?thesis
  proof cases
    case 2
    have "flags_ok c'" using assms(1) 2 by (simp add: rc_ok_def flags_ok_def)
    moreover have "pulls_ok X c'" "fifo_ok S c'" "sync_ok c'"
      using assms(1) pulls_ok_move [of X c c' X] fifo_ok_same [of S c c'] sync_ok_same [of c c'] 2 by (simp_all add: rc_ok_def pool_def)
    ultimately show ?thesis by (simp add: rc_ok_def)
  qed (rule rc_ok_same [OF assms(1)])
qed

lemma RegSend_ok:
  assumes "rc_ok S X c" and m: "\<And>sid. pull_to sid (iSessionId c, m) = []" and "RegSend w m c = (r, c')"
  shows "rc_ok S X c'"
proof (cases "c' = c")
  case False
  then have c': "c' = c\<lparr>sent := sent c @ [(iSessionId c, m)]\<rparr>" using assms(3) by (auto simp: RegSend_def split: if_splits)
  have "pulls_to sid c' = pulls_to sid c" "answers sid c' = answers sid c" for sid by (simp_all add: pulls_to_def answers_def m c')
  then have "fifo_ok S c'" using assms(1) by (simp add: rc_ok_def fifo_ok_def c')
  moreover have "pulls_ok X c'" "flags_ok c'" "sync_ok c'"
    using assms(1) pulls_ok_move [of X c c' X] flags_ok_same [of c c'] sync_ok_same [of c c'] c' by (simp_all add: rc_ok_def pool_def)
  ultimately show ?thesis by (simp add: rc_ok_def)
qed (use assms in simp)

lemma SendRegister_ok: "rc_ok S X c \<Longrightarrow> rc_ok S X (SendRegister w c)"
  unfolding SendRegister_def by (rule RegSend_ok [where w = w and m = "register_msg c"]) (auto simp: register_msg_def prod_eq_iff)

lemma FinishPull_pulls:
  assumes P: "pulls_ok (add_mset (tag p) X) c"
  shows "pulls_ok X (FinishPull p code l c)"
proof -
  let ?M = "pool c + X"
  have M: "pool c + add_mset (tag p) X = add_mset (tag p) ?M" by simp
  have one: "count ?M (n, True) + count ?M (n, False) + of_bool (n = p_id p) \<le> 1" for n
  proof -
    have "count (add_mset (tag p) ?M) (n, True) + count (add_mset (tag p) ?M) (n, False) \<le> 1" using P unfolding pulls_ok_def M by blast
    then show ?thesis by (cases "p_async p"; cases "n = p_id p") (simp_all add: tag_def)
  qed
  have new: "count ?M (n, b) = 0" if "next_pull c \<le> n" for n b
  proof -
    have "count (pool c + add_mset (tag p) X) (n, b) = 0" using P that unfolding pulls_ok_def by blast
    then show ?thesis by (simp add: M split: if_splits)
  qed
  have all: "count ?M (n, True) + of_bool (p_async p \<and> n = p_id p) + of_bool (n \<in> finished c) = (of_bool (n \<in> set (asked c)) :: nat)" for n
  proof -
    have "count (add_mset (tag p) ?M) (n, True) + of_bool (n \<in> finished c) = (of_bool (n \<in> set (asked c)) :: nat)"
      using P unfolding pulls_ok_def M by blast
    then show ?thesis by (cases "p_async p"; cases "n = p_id p") (simp_all add: tag_def)
  qed
  have res: "count_list (map fst (results c)) n = of_bool (n \<in> finished c)" and old: "n \<in> set (asked c) \<Longrightarrow> n < next_pull c" for n
    using P unfolding pulls_ok_def by blast+
  have le: "count ?M (n, True) + count ?M (n, False) \<le> 1" for n using one [of n] by linarith
  show ?thesis
  proof (cases "p_async p")
    case False
    then show ?thesis using le new all res old by (simp add: pulls_ok_def FinishPull_def)
  next
    case True
    then have "p_id p \<notin> finished c" using all [of "p_id p"] by (cases "p_id p \<in> set (asked c)") auto
    then have f: "FinishPull p code l c = c\<lparr>finished := insert (p_id p) (finished c), results := results c @ [(p_id p, code, l)]\<rparr>"
      using True by (simp add: FinishPull_def)
    have a: "count ?M (n, True) + of_bool (n = p_id p \<or> n \<in> finished c) = (of_bool (n \<in> set (asked c)) :: nat)" for n
      using all [of n] True \<open>p_id p \<notin> finished c\<close> by (cases "n = p_id p") auto
    show ?thesis unfolding f pulls_ok_def using le new a res old \<open>p_id p \<notin> finished c\<close> by (auto simp: pool_def)
  qed
qed

lemma FinishPull_ok: "rc_ok S (add_mset (tag p) X) c \<Longrightarrow> rc_ok S X (FinishPull p code l c)"
  using FinishPull_pulls [of p X c code l] fifo_ok_same [of S c "FinishPull p code l c"] flags_ok_same [of c "FinishPull p code l c"]
    sync_ok_same [of c "FinishPull p code l c"]
  by (simp add: rc_ok_def FinishPull_def)

lemma drop_plain_number: "rc_ok S (add_mset (n, False) X) c \<Longrightarrow> rc_ok S X c"
  using FinishPull_ok [of S "\<lparr>p_id = n, p_async = False, bSynchronous = False, iDeadlineMilliseconds = 0, vNames = []\<rparr>" X c 0 "[]"]
  by (simp add: tag_def FinishPull_def)

lemma hand_over:
  "rc_ok S (mset (map tag ps) + X) c \<Longrightarrow> rc_ok S X (c\<lparr>hand := hand c @ map (\<lambda>p. (p, g p)) ps\<rparr>)"
  using pulls_ok_move [of "mset (map tag ps) + X" c "c\<lparr>hand := hand c @ map (\<lambda>p. (p, g p)) ps\<rparr>" X]
    fifo_ok_same [of S c "c\<lparr>hand := hand c @ map (\<lambda>p. (p, g p)) ps\<rparr>"] flags_ok_same [of c "c\<lparr>hand := hand c @ map (\<lambda>p. (p, g p)) ps\<rparr>"]
    sync_ok_same [of c "c\<lparr>hand := hand c @ map (\<lambda>p. (p, g p)) ps\<rparr>"]
  by (simp add: rc_ok_def pool_def o_def ac_simps multiset.map_comp)

text \<open>A new number.\<close>

lemma new_number:
  assumes "rc_ok S X c"
  shows "rc_ok S (add_mset (next_pull c, False) X) (c\<lparr>next_pull := next_pull c + 1\<rparr>)"
    "rc_ok S (add_mset (next_pull c, True) X) (c\<lparr>next_pull := next_pull c + 1, asked := asked c @ [next_pull c]\<rparr>)"
proof -
  let ?n = "next_pull c" and ?M = "pool c + X"
  let ?c = "c\<lparr>next_pull := next_pull c + 1\<rparr>"
  let ?d = "c\<lparr>next_pull := next_pull c + 1, asked := asked c @ [next_pull c]\<rparr>"
  have P: "pulls_ok X c" using assms by (simp add: rc_ok_def)
  have le: "count ?M (n, True) + count ?M (n, False) \<le> 1" and fresh: "next_pull c \<le> n \<Longrightarrow> count ?M (n, b) = 0"
    and all: "count ?M (n, True) + of_bool (n \<in> finished c) = (of_bool (n \<in> set (asked c)) :: nat)"
    and res: "count_list (map fst (results c)) n = of_bool (n \<in> finished c)" and old: "n \<in> set (asked c) \<Longrightarrow> n < next_pull c" for n b
    using P unfolding pulls_ok_def by blast+
  have z: "count ?M (?n, b) = 0" for b by (rule fresh) simp
  have na: "?n \<notin> set (asked c)" using old [of ?n] by blast
  have nf: "?n \<notin> finished c" using all [of ?n] na by (auto split: if_splits)
  have M: "pool ?c + add_mset (?n, b) X = add_mset (?n, b) ?M" "pool ?d + add_mset (?n, b) X = add_mset (?n, b) ?M" for b by (simp_all add: pool_def)
  have le': "count (add_mset (?n, b) ?M) (n, True) + count (add_mset (?n, b) ?M) (n, False) \<le> 1" for n b
    using le [of n] z [of True] z [of False] by auto
  have fr': "?n + 1 \<le> n \<Longrightarrow> count (add_mset (?n, b) ?M) (n, b') = 0" for n b b' using fresh [of n b'] by simp
  have "pulls_ok (add_mset (?n, False) X) ?c"
    unfolding pulls_ok_def M using le' [where b = False] fr' [where b = False] all res old by (auto simp: less_Suc_eq)
  moreover have a': "count (add_mset (?n, True) ?M) (n, True) + of_bool (n \<in> finished c) = (of_bool (n \<in> set (asked c @ [?n])) :: nat)" for n
    using all [of n] z [of True] na nf by (cases "n = ?n") auto
  have "pulls_ok (add_mset (?n, True) X) ?d"
    unfolding pulls_ok_def M using le' [where b = True] fr' [where b = True] a' res old by (auto simp: less_Suc_eq)
  ultimately show "rc_ok S (add_mset (next_pull c, False) X) ?c" "rc_ok S (add_mset (next_pull c, True) X) ?d"
    using assms fifo_ok_same [of S c ?c] flags_ok_same [of c ?c] sync_ok_same [of c ?c] fifo_ok_same [of S c ?d] flags_ok_same [of c ?d] sync_ok_same [of c ?d]
    by (simp_all add: rc_ok_def)
qed

lemma ArmPullTimeout_ok: "rc_ok S X c \<Longrightarrow> rc_ok S X (ArmPullTimeout c)"
  using pulls_ok_move [of X c "ArmPullTimeout c" X] fifo_ok_same [of S c "ArmPullTimeout c"] sync_ok_same [of c "ArmPullTimeout c"]
  by (auto simp: rc_ok_def ArmPullTimeout_def pool_def flags_ok_def)

lemma EnqueueSentPull_ok:
  assumes ok: "rc_ok S (add_mset (tag p) X) c" and p: "bSynchronous p \<longrightarrow> \<not> p_async p \<and> sync c = SyncPull (p_id p) \<and> \<not> bGot c"
    and e: "EnqueueSentPull w now p c = (r, c')"
  shows "if r = SendTaken then rc_ok S X c' else rc_ok S (add_mset (tag p) X) c'"
proof -
  let ?q = "if iDeadlineMilliseconds p = 0 then p\<lparr>iDeadlineMilliseconds := now + kWaitMs\<rparr> else p"
  let ?m = "(iSessionId c, MsgPull (p_id p) (vNames p))"
  have a: "rc_ok S (add_mset (tag p) X) (ArmPullTimeout c)" by (rule ArmPullTimeout_ok [OF ok])
  show ?thesis
  proof (cases "r = SendTaken")
    case False
    then have "c' = ArmPullTimeout c"
      using e by (auto simp: EnqueueSentPull_def RegSend_def ArmPullTimeout_def Let_def split: if_splits send_out.splits)
    then show ?thesis using False a by simp
  next
    case True
    then have s: "iSessionId c \<noteq> - 1" and c': "c' = (ArmPullTimeout c)\<lparr>vPendingPulls := vPendingPulls c @ [?q], sent := sent c @ [?m]\<rparr>"
      using e by (auto simp: EnqueueSentPull_def RegSend_def ArmPullTimeout_def Let_def split: if_splits send_out.splits)
    have q: "tag ?q = tag p" "p_id ?q = p_id p" "bSynchronous ?q = bSynchronous p" "p_async ?q = p_async p" by (simp_all add: tag_def)
    have "pulls_ok X c'"
      by (rule pulls_ok_move [of "add_mset (tag p) X" c])
        (use ok in \<open>simp_all only: rc_ok_def c' ArmPullTimeout_def\<close>, simp_all add: pool_def q(1) tag_def)
    moreover have "fifo_ok S c'"
    proof -
      have f: "fifo_ok S c" using ok by (simp add: rc_ok_def)
      have t: "pulls_to sid c' = pulls_to sid c @ (if sid = iSessionId c then [p_id p] else [])" "answers sid c' = answers sid c" for sid
        by (auto simp: pulls_to_def answers_def c' ArmPullTimeout_def)
      have v: "map p_id (vPendingPulls c') = map p_id (vPendingPulls c) @ [p_id p]" "iSessionId c' = iSessionId c"
        by (auto simp: c' ArmPullTimeout_def)
      show ?thesis using f s unfolding fifo_ok_def t v by (auto simp: prefix_def)
    qed
    moreover have "flags_ok c'"
      using ok s by (auto simp: rc_ok_def flags_ok_def c' ArmPullTimeout_def)
    moreover have "sync_ok c'"
    proof -
      have f: "sync_ok c" using ok by (simp add: rc_ok_def)
      have v: "starting c' = starting c" "vDeferredPulls c' = vDeferredPulls c" "set (vPendingPulls c') = insert ?q (set (vPendingPulls c))"
        "sync c' = sync c" "bRegistrationWaiting c' = bRegistrationWaiting c" "bGot c' = bGot c" "iCode c' = iCode c"
        "vResponseList c' = vResponseList c" "answered c' = answered c" "sync_results c' = sync_results c"
        by (auto simp: c' ArmPullTimeout_def)
      show ?thesis using f p q unfolding sync_ok_def v by auto
    qed
    ultimately show ?thesis using True by (simp add: rc_ok_def)
  qed
qed

section \<open>Lemmas: operations\<close>

lemma mset_remove_nth: "i < length xs \<Longrightarrow> mset xs = add_mset (xs ! i) (mset (take i xs @ drop (Suc i) xs))"
  by (metis add.commute append_take_drop_id Cons_nth_drop_Suc mset.simps(2) mset_append union_mset_add_mset_right)

lemma set_remove_nth: "set (take i xs @ drop (Suc i) xs) \<subseteq> set xs"
  by (auto dest: in_set_takeD in_set_dropD)

lemma RunFinish_ok:
  assumes "rc_ok S X c"
  shows "rc_ok S X (RunFinish i now c)"
proof (cases "i < length (hand c)")
  case True
  obtain p f where h: "hand c ! i = (p, f)" by fastforce
  let ?c = "c\<lparr>hand := take i (hand c) @ drop (Suc i) (hand c)\<rparr>"
  have m: "mset (map (tag \<circ> fst) (hand c)) = add_mset (tag p) (mset (map (tag \<circ> fst) (hand ?c)))"
    using mset_remove_nth [OF True] by (simp add: h)
  have "pulls_ok (add_mset (tag p) X) ?c"
    by (rule pulls_ok_move [of X c]) (use assms m in \<open>simp_all add: rc_ok_def pool_def\<close>)
  then have "rc_ok S (add_mset (tag p) X) ?c"
    using assms fifo_ok_same [of S c ?c] flags_ok_same [of c ?c] sync_ok_same [of c ?c] by (simp add: rc_ok_def)
  from FinishPull_ok [OF this] show ?thesis using True by (simp add: RunFinish_def h)
qed (use assms in \<open>simp add: RunFinish_def\<close>)

lemma PullAsync_begin_ok:
  assumes "rc_ok S {#} c"
  shows "rc_ok S {#} (PullAsync_begin cfg stop mx sName timeout now c)"
proof -
  let ?p = "\<lparr>p_id = next_pull c, p_async = True, bSynchronous = False, iDeadlineMilliseconds = now + min timeout (INT64_MAX - now), vNames = [sName]\<rparr>"
  let ?c = "c\<lparr>next_pull := next_pull c + 1, asked := asked c @ [next_pull c]\<rparr>"
  have t: "tag ?p = (next_pull c, True)" by (simp add: tag_def)
  have n: "rc_ok S (add_mset (tag ?p) {#}) ?c" unfolding t by (rule new_number(2) [OF assms])
  have f: "rc_ok S {#} (FinishPull ?p code l ?c)" for code l by (rule FinishPull_ok [OF n])
  obtain b d where d: "RegConnect cfg stop ?c = (b, d)" by fastforce
  have dk: "rc_ok S (add_mset (tag ?p) {#}) d" by (rule RegConnect_ok [OF n d])
  have "rc_ok S {#} (d\<lparr>starting := starting d @ [?p]\<rparr>)" (is "rc_ok S {#} ?e")
  proof -
    have "pulls_ok {#} ?e" by (rule pulls_ok_move [of "add_mset (tag ?p) {#}" d]) (use dk in \<open>simp_all add: rc_ok_def pool_def\<close>)
    moreover have "sync_ok ?e" using dk unfolding rc_ok_def sync_ok_def by (auto simp: plain_def)
    ultimately show ?thesis using dk fifo_ok_same [of S d ?e] flags_ok_same [of d ?e] by (simp add: rc_ok_def)
  qed
  then show ?thesis
    using f d FinishPull_ok [OF dk] by (auto simp: PullAsync_begin_def Let_def split: option.splits bool.splits prod.splits)
qed

lemma PullAsync_end_ok:
  assumes "rc_ok S {#} c"
  shows "rc_ok S {#} (PullAsync_end w i now c)"
proof (cases "i < length (starting c)")
  case True
  let ?p = "starting c ! i"
  let ?c = "c\<lparr>starting := take i (starting c) @ drop (Suc i) (starting c)\<rparr>"
  have p: "plain ?p" using assms True by (simp add: rc_ok_def sync_ok_def)
  have m: "mset (map tag (starting c)) = add_mset (tag ?p) (mset (map tag (starting ?c)))"
    using mset_remove_nth [OF True] by simp
  have "pulls_ok (add_mset (tag ?p) {#}) ?c"
    by (rule pulls_ok_move [of "{#}" c]) (use assms m in \<open>simp_all add: rc_ok_def pool_def\<close>)
  moreover have "sync_ok ?c"
    using assms set_remove_nth [of i "starting c"] unfolding rc_ok_def sync_ok_def by (auto simp: subset_eq)
  ultimately have "rc_ok S (add_mset (tag ?p) {#}) ?c"
    using assms fifo_ok_same [of S c ?c] flags_ok_same [of c ?c] by (simp add: rc_ok_def)
  then have k: "rc_ok S (add_mset (tag ?p) {#}) (ArmPullTimeout ?c)" by (rule ArmPullTimeout_ok)
  let ?d = "ArmPullTimeout ?c"
  obtain r e where e: "EnqueueSentPull w now ?p ?d = (r, e)" by fastforce
  have ek: "if r = SendTaken then rc_ok S {#} e else rc_ok S (add_mset (tag ?p) {#}) e"
    by (rule EnqueueSentPull_ok [OF k _ e]) (use p in \<open>simp add: plain_def\<close>)
  have "rc_ok S {#} (?d\<lparr>vDeferredPulls := vDeferredPulls ?d @ [?p]\<rparr>)" (is "rc_ok S {#} ?f") if b: "bConnecting ?d"
  proof -
    have "pulls_ok {#} ?f" by (rule pulls_ok_move [of "add_mset (tag ?p) {#}" ?d]) (use k in \<open>simp_all add: rc_ok_def pool_def\<close>)
    moreover have "sync_ok ?f" using k p unfolding rc_ok_def sync_ok_def by auto
    moreover have "flags_ok ?f" using k b unfolding rc_ok_def flags_ok_def by (auto simp: ArmPullTimeout_def)
    ultimately show ?thesis using k fifo_ok_same [of S ?d ?f] by (simp add: rc_ok_def)
  qed
  then show ?thesis
    using True e ek FinishPull_ok [OF k] FinishPull_ok [of S ?p "{#}" e]
    by (auto simp: PullAsync_end_def Let_def split: send_out.splits)
qed (use assms in \<open>simp add: PullAsync_end_def\<close>)

lemma RegPull_all_ok:
  assumes "rc_ok S {#} c"
  shows "rc_ok S {#} (RegPull_all cfg stop mx w now c)"
proof -
  let ?p = "\<lparr>p_id = next_pull c, p_async = False, bSynchronous = False, iDeadlineMilliseconds = 0, vNames = Names (m_mServices c)\<rparr>"
  let ?c = "c\<lparr>next_pull := next_pull c + 1\<rparr>"
  have t: "tag ?p = (next_pull c, False)" by (simp add: tag_def)
  have n: "rc_ok S (add_mset (tag ?p) {#}) ?c" unfolding t by (rule new_number(1) [OF assms])
  obtain r e where e: "EnqueueSentPull w now ?p ?c = (r, e)" by fastforce
  have "if r = SendTaken then rc_ok S {#} e else rc_ok S (add_mset (tag ?p) {#}) e"
    by (rule EnqueueSentPull_ok [OF n _ e]) simp
  then have "rc_ok S {#} e" using drop_plain_number [of S "next_pull c" "{#}" e] unfolding t by (auto split: if_splits)
  then show ?thesis using assms e RegConnect_ok [OF assms] by (auto simp: RegPull_all_def Let_def prod_eq_iff)
qed

text \<open>A synchronous call begins: no pull is waited for.\<close>

lemma sync_start:
  assumes "rc_ok S X c" and "sync c = NoSync"
  shows "rc_ok S X (c\<lparr>bGot := False, iCode := v, sync := z\<rparr>)" (is "rc_ok S X ?c")
    "rc_ok S X (c\<lparr>bGot := False, iCode := v, bRegistrationWaiting := True, sync := SyncPublish\<rparr>)" (is "rc_ok S X ?d")
proof -
  have s: "sync_ok c" using assms(1) by (simp add: rc_ok_def)
  have "bRegistrationWaiting c = False" "\<forall>p \<in> set (vPendingPulls c). \<not> bSynchronous p" using s assms(2) by (auto simp: sync_ok_def)
  then have "sync_ok ?c" "sync_ok ?d" using s unfolding sync_ok_def by auto
  then show "rc_ok S X ?c" "rc_ok S X ?d"
    using assms(1) pulls_ok_move [of X c ?c X] fifo_ok_same [of S c ?c] flags_ok_same [of c ?c]
      pulls_ok_move [of X c ?d X] fifo_ok_same [of S c ?d] flags_ok_same [of c ?d]
    by (simp_all add: rc_ok_def pool_def)
qed

text \<open>A synchronous call ends with no pull of its own in the queue.\<close>

lemma sync_done:
  assumes "rc_ok S X c" and "\<forall>p \<in> set (vPendingPulls c). \<not> bSynchronous p"
  shows "rc_ok S X (c\<lparr>bRegistrationWaiting := False, sync := NoSync\<rparr>)" (is "rc_ok S X ?c")
proof -
  have "sync_ok ?c" using assms unfolding rc_ok_def sync_ok_def by auto
  then show ?thesis
    using assms(1) pulls_ok_move [of X c ?c X] fifo_ok_same [of S c ?c] flags_ok_same [of c ?c] by (simp add: rc_ok_def pool_def)
qed

lemma EnqueueSentPull_keeps:
  "EnqueueSentPull w now p (c\<lparr>sync := z\<rparr>) = (r, c') \<Longrightarrow> EnqueueSentPull w now p c = (r, c'\<lparr>sync := sync c\<rparr>) \<and> sync c' = z"
  by (auto simp: EnqueueSentPull_def RegSend_def ArmPullTimeout_def Let_def split: if_splits send_out.splits)

lemma EnqueueSentPull_queue: "EnqueueSentPull w now p c = (r, c') \<Longrightarrow> r \<noteq> SendTaken \<Longrightarrow> vPendingPulls c' = vPendingPulls c"
  by (auto simp: EnqueueSentPull_def RegSend_def ArmPullTimeout_def Let_def split: if_splits send_out.splits)

lemma PullSync_send_ok:
  assumes ok: "rc_ok S {#} c"
  shows "rc_ok S {#} (snd (PullSync_send mx w sName now c))"
proof (cases "sync c = NoSync \<and> CanEnqueuePull mx c = Some True")
  case False
  then show ?thesis using ok by (cases "CanEnqueuePull mx c") (auto simp: PullSync_send_def)
next
  case True
  let ?n = "next_pull c"
  let ?p = "\<lparr>p_id = ?n, p_async = False, bSynchronous = True, iDeadlineMilliseconds = 0, vNames = [sName]\<rparr>"
  let ?c = "c\<lparr>next_pull := ?n + 1, bGot := False, iCode := OI_ERR_FAIL\<rparr>"
  have t: "tag ?p = (?n, False)" by (simp add: tag_def)
  have s: "rc_ok S (add_mset (tag ?p) {#}) (?c\<lparr>sync := SyncPull ?n\<rparr>)"
    using sync_start(1) [OF new_number(1) [OF ok], where v = OI_ERR_FAIL and z = "SyncPull ?n"] True unfolding t by simp
  obtain r d where d: "EnqueueSentPull w now ?p (?c\<lparr>sync := SyncPull ?n\<rparr>) = (r, d)" by fastforce
  have dk: "if r = SendTaken then rc_ok S {#} d else rc_ok S (add_mset (tag ?p) {#}) d"
    by (rule EnqueueSentPull_ok [OF s _ d]) simp
  have e: "EnqueueSentPull w now ?p ?c = (r, d\<lparr>sync := NoSync\<rparr>)" "sync d = SyncPull ?n"
    using EnqueueSentPull_keeps [OF d] True by simp_all
  show ?thesis
  proof (cases "r = SendTaken")
    case r: True
    have "d\<lparr>sync := SyncPull ?n\<rparr> = d" using e(2) by simp
    then show ?thesis using dk r e(1) True by (simp add: PullSync_send_def Let_def)
  next
    case False
    then have q: "vPendingPulls d = vPendingPulls c" using EnqueueSentPull_queue [OF d] by simp
    have k: "rc_ok S {#} d" using dk False drop_plain_number [of S ?n "{#}" d] unfolding t by simp
    have "\<forall>p \<in> set (vPendingPulls c). \<not> bSynchronous p" using ok True by (auto simp: rc_ok_def sync_ok_def)
    then have "rc_ok S {#} (d\<lparr>bRegistrationWaiting := False, sync := NoSync\<rparr>)" using sync_done [OF k] q by simp
    moreover have "bRegistrationWaiting d = False" using k e(2) by (auto simp: rc_ok_def sync_ok_def)
    then have "d\<lparr>bRegistrationWaiting := False, sync := NoSync\<rparr> = d\<lparr>sync := NoSync\<rparr>" by simp
    ultimately show ?thesis using False e(1) True by (auto simp: PullSync_send_def Let_def split: send_out.splits)
  qed
qed

lemma cancel_first_tags: "map tag (cancel_first ps) = map tag ps" "map p_id (cancel_first ps) = map p_id ps" "(cancel_first ps = []) = (ps = [])"
  by (induction ps) (auto simp: tag_def)

lemma cancel_first_none:
  "distinct (map p_id ps) \<Longrightarrow> (\<And>p. p \<in> set ps \<Longrightarrow> bSynchronous p \<Longrightarrow> p_id p = n) \<Longrightarrow> \<forall>p \<in> set (cancel_first ps). \<not> bSynchronous p"
proof (induction ps)
  case (Cons q ps)
  show ?case
  proof (cases "bSynchronous q")
    case True
    have "\<not> bSynchronous p" if "p \<in> set ps" for p
    proof
      assume "bSynchronous p"
      then have "p_id p = p_id q" using Cons.prems(2) [of p] Cons.prems(2) [of q] that True by simp
      then show False using Cons.prems(1) imageI [OF that, of p_id] by simp
    qed
    then show ?thesis using True by simp
  next
    case False
    have "\<forall>p \<in> set (cancel_first ps). \<not> bSynchronous p" by (rule Cons.IH) (use Cons.prems in simp_all)
    then show ?thesis using False by simp
  qed
qed simp

lemma pending_distinct:
  assumes "pulls_ok X c"
  shows "distinct (map p_id (vPendingPulls c))"
proof -
  have "count_list (map p_id ps) n = count (mset (map tag ps)) (n, True) + count (mset (map tag ps)) (n, False)" for n ps
    by (induction ps) (auto simp: tag_def)
  moreover have "count (mset (map tag (vPendingPulls c))) (n, True) + count (mset (map tag (vPendingPulls c))) (n, False) \<le> 1" for n
  proof -
    have "count (pool c + X) (n, True) + count (pool c + X) (n, False) \<le> 1" using assms unfolding pulls_ok_def by blast
    then show ?thesis unfolding pool_def by simp
  qed
  ultimately have le: "count_list (map p_id (vPendingPulls c)) n \<le> 1" for n by simp
  have "(\<And>n. count_list xs n \<le> 1) \<Longrightarrow> distinct xs" for xs :: "nat list"
  proof (induction xs)
    case (Cons x xs)
    have "count_list xs x = 0" using Cons.prems [of x] by simp
    moreover have "count_list xs n \<le> 1" for n using Cons.prems [of n] by (auto split: if_splits)
    ultimately show ?case using Cons.IH by (simp add: count_list_0_iff)
  qed simp
  then show ?thesis using le by blast
qed

lemma PullSync_cancel_ok:
  assumes ok: "rc_ok S {#} c"
  shows "rc_ok S {#} (PullSync_cancel c)"
proof (cases "\<exists>n. sync c = SyncPull n")
  case True
  then obtain n where n: "sync c = SyncPull n" by blast
  let ?c = "c\<lparr>vPendingPulls := cancel_first (vPendingPulls c), sync := NoSync\<rparr>"
  have none: "\<forall>p \<in> set (cancel_first (vPendingPulls c)). \<not> bSynchronous p"
    by (rule cancel_first_none [OF pending_distinct, of "{#}" c n]) (use ok n in \<open>auto simp: rc_ok_def sync_ok_def\<close>)
  then have "sync_ok ?c" using ok n unfolding rc_ok_def sync_ok_def by auto
  then have "rc_ok S {#} ?c"
    using ok pulls_ok_move [of "{#}" c ?c "{#}"] fifo_ok_same [of S c ?c] flags_ok_same [of c ?c]
    by (simp add: rc_ok_def pool_def cancel_first_tags flip: mset_map)
  then show ?thesis using n by (simp add: PullSync_cancel_def)
qed (use ok in \<open>auto simp: PullSync_cancel_def split: sync_call.splits\<close>)

lemma PullSync_result_ok:
  assumes ok: "rc_ok S {#} c"
  shows "rc_ok S {#} (PullSync_result c)"
proof (cases "\<exists>n. sync c = SyncPull n \<and> bGot c")
  case True
  then obtain n where n: "sync c = SyncPull n" "bGot c" by blast
  let ?r = "sync_results c @ (if iCode c = OI_ERR_TIMEOUT \<or> iCode c = OI_ERR_CONNECT then [] else [(n, vResponseList c)])"
  let ?c = "c\<lparr>sync := NoSync, sync_results := ?r\<rparr>"
  have s: "sync_ok c" using ok by (simp add: rc_ok_def)
  have "\<forall>p \<in> set (vPendingPulls c). \<not> bSynchronous p" "\<not> bRegistrationWaiting c" using s n by (auto simp: sync_ok_def)
  moreover have "\<forall>(n, l) \<in> set ?r. \<exists>sid code. (sid, n, code, l) \<in> set (answered c)"
    using s n unfolding sync_ok_def by auto
  ultimately have "sync_ok ?c" using s unfolding sync_ok_def by auto
  then have "rc_ok S {#} ?c"
    using ok pulls_ok_move [of "{#}" c ?c "{#}"] fifo_ok_same [of S c ?c] flags_ok_same [of c ?c] by (simp add: rc_ok_def pool_def)
  then show ?thesis using n by (simp add: PullSync_result_def)
qed (use ok in \<open>auto simp: PullSync_result_def split: sync_call.splits\<close>)

section \<open>Lemmas: the connection\<close>

text \<open>The session is given up: nothing is pending, the pulls that were are in hand.\<close>

lemma session_gone:
  assumes ok: "rc_ok S X c" and sid: "sid = - 1 \<or> sid \<notin> S \<and> sid \<noteq> - 1" and dq: "d = [] \<or> bConnecting c \<and> sid = - 1 \<and> d = vDeferredPulls c"
    and got: "got = bGot c \<and> code = iCode c \<or> got \<and> (code = OI_ERR_TIMEOUT \<or> code = OI_ERR_CONNECT)
      \<and> (\<exists>p \<in> set (vPendingPulls c). bSynchronous p)"
  shows "rc_ok (if sid = - 1 then S else insert sid S)
    (mset (map tag (vPendingPulls c)) + (if d = [] then mset (map tag (vDeferredPulls c)) else {#}) + X)
    (c\<lparr>vPendingPulls := [], vDeferredPulls := d, iSessionId := sid, bConnected := (sid \<noteq> - 1), bConnecting := (bConnecting c \<and> sid = - 1),
       bGot := got, iCode := code\<rparr>)" (is "rc_ok ?S ?X ?c")
proof -
  have pool: "pool ?c + ?X = pool c + X" using dq by (auto simp: pool_def)
  have P: "pulls_ok ?X ?c" by (rule pulls_ok_move [of X c]) (use ok pool in \<open>simp_all add: rc_ok_def\<close>)
  have "pulls_to i ?c = pulls_to i c" "answers i ?c = answers i c" for i by (simp_all add: pulls_to_def answers_def)
  then have F: "fifo_ok ?S ?c" using ok sid by (auto simp: rc_ok_def fifo_ok_def)
  have G: "flags_ok ?c" using ok dq by (auto simp: rc_ok_def flags_ok_def)
  have s: "sync_ok c" using ok by (simp add: rc_ok_def)
  have "set d \<subseteq> set (vDeferredPulls c)" using dq by auto
  then have "\<forall>p \<in> set (starting c) \<union> set d. plain p" using s by (auto simp: sync_ok_def)
  then have "sync_ok ?c" using s got unfolding sync_ok_def by auto
  with P F G show ?thesis by (simp add: rc_ok_def)
qed

lemma hand_over_ok: "rc_ok S (mset (map tag ps) + {#}) c \<Longrightarrow> hand c' = hand c @ map (\<lambda>p. (p, g p)) ps \<Longrightarrow> c' = c\<lparr>hand := hand c'\<rparr> \<Longrightarrow> rc_ok S {#} c'"
  using hand_over [of S ps "{#}" c g] by simp

lemma OnDel_ok:
  assumes ok: "rc_ok S {#} c"
  shows "rc_ok S {#} (Client_OnDelSession sid c)"
proof (cases "iSessionId c = sid")
  case True
  let ?c = "c\<lparr>vPendingPulls := [], vDeferredPulls := [], iSessionId := - 1, bConnected := False, bConnecting := (bConnecting c \<and> (- 1 :: int) = - 1), bGot := bGot c, iCode := iCode c\<rparr>"
  have "rc_ok S (mset (map tag (vPendingPulls c @ vDeferredPulls c)) + {#}) ?c"
    using session_gone [OF ok, where sid = "- 1" and d = "[]" and got = "bGot c" and code = "iCode c"] by simp
  from hand_over [OF this, of "\<lambda>_. FinByDeadline"] have "rc_ok S {#} (?c\<lparr>hand := hand ?c @ map (\<lambda>p. (p, FinByDeadline)) (vPendingPulls c @ vDeferredPulls c)\<rparr>)" .
  then show ?thesis
    by (rule rc_ok_same) (use True in \<open>simp_all add: Client_OnDelSession_def view_defs\<close>)
qed (use ok in \<open>simp add: Client_OnDelSession_def\<close>)

lemma OnConnectFailed_ok:
  assumes ok: "rc_ok S {#} c"
  shows "rc_ok S {#} (Client_OnConnectFailed c)"
proof -
  let ?c = "c\<lparr>bConnecting := False, vDeferredPulls := []\<rparr>"
  have "pulls_ok (mset (map tag (vDeferredPulls c)) + {#}) ?c"
    by (rule pulls_ok_move [of "{#}" c]) (use ok in \<open>simp_all add: rc_ok_def pool_def\<close>)
  moreover have "fifo_ok S ?c" by (rule fifo_ok_same [of S c]) (use ok in \<open>simp_all add: rc_ok_def\<close>)
  moreover have "flags_ok ?c" "sync_ok ?c" using ok by (auto simp: rc_ok_def flags_ok_def sync_ok_def)
  ultimately have "rc_ok S (mset (map tag (vDeferredPulls c)) + {#}) ?c" by (simp add: rc_ok_def)
  from hand_over [OF this, of "\<lambda>_. FinByDeadline"] show ?thesis
    by (rule rc_ok_same) (simp_all add: Client_OnConnectFailed_def view_defs)
qed

lemma invalidate_ok:
  assumes ok: "rc_ok S {#} c"
  shows "rc_ok S {#} (invalidate now c)"
proof -
  let ?s = "filter bSynchronous (vPendingPulls c)"
  let ?code = "if ?s = [] then iCode c else if due now (last ?s) then OI_ERR_TIMEOUT else OI_ERR_CONNECT"
  let ?got = "?s \<noteq> [] \<or> bGot c"
  let ?g = "\<lambda>p. FinFixed (if due now p then OI_ERR_TIMEOUT else OI_ERR_CONNECT)"
  have cn: "bConnecting c \<or> vDeferredPulls c = []" using ok by (auto simp: rc_ok_def flags_ok_def)
  have "?got = bGot c \<and> ?code = iCode c \<or> ?got \<and> (?code = OI_ERR_TIMEOUT \<or> ?code = OI_ERR_CONNECT) \<and> (\<exists>p \<in> set (vPendingPulls c). bSynchronous p)"
    by (cases "?s = []") (auto simp: filter_empty_conv)
  moreover have "vDeferredPulls c = [] \<or> bConnecting c \<and> (- 1 :: int) = - 1 \<and> vDeferredPulls c = vDeferredPulls c" using cn by blast
  ultimately have "rc_ok S (mset (map tag (vPendingPulls c)) + {#}) (c\<lparr>vPendingPulls := [], vDeferredPulls := vDeferredPulls c, iSessionId := - 1,
      bConnected := ((- 1 :: int) \<noteq> - 1), bConnecting := (bConnecting c \<and> (- 1 :: int) = - 1), bGot := ?got, iCode := ?code\<rparr>)"
    using session_gone [OF ok, where sid = "- 1" and d = "vDeferredPulls c" and got = ?got and code = ?code]
    by (cases "vDeferredPulls c = []") simp_all
  from hand_over [OF this, of ?g] show ?thesis
    by (rule rc_ok_same) (simp_all add: invalidate_def view_defs Let_def)
qed

lemma ExpirePulls_ok:
  assumes ok: "rc_ok S {#} c"
  shows "rc_ok S {#} (ExpirePulls now c)"
proof -
  let ?out = "filter (due now) (vDeferredPulls c)"
  let ?c = "c\<lparr>vDeferredPulls := filter (\<lambda>p. \<not> due now p) (vDeferredPulls c)\<rparr>"
  have "mset (map tag (vDeferredPulls c)) = mset (map tag ?out) + mset (map tag (filter (\<lambda>p. \<not> due now p) (vDeferredPulls c)))"
    by (induction "vDeferredPulls c") (simp_all flip: image_mset_union)
  then have "pool ?c + (mset (map tag ?out) + {#}) = pool c + {#}" by (simp add: pool_def)
  then have "pulls_ok (mset (map tag ?out) + {#}) ?c"
    using pulls_ok_move [of "{#}" c ?c "mset (map tag ?out) + {#}"] ok by (simp add: rc_ok_def)
  moreover have "fifo_ok S ?c" by (rule fifo_ok_same [of S c]) (use ok in \<open>simp_all add: rc_ok_def\<close>)
  moreover have "flags_ok ?c" "sync_ok ?c" using ok by (auto simp: rc_ok_def flags_ok_def sync_ok_def)
  ultimately have "rc_ok S (mset (map tag ?out) + {#}) ?c" by (simp add: rc_ok_def)
  from hand_over [OF this, of "\<lambda>_. FinFixed OI_ERR_TIMEOUT"]
  have "rc_ok S {#} (?c\<lparr>hand := hand ?c @ map (\<lambda>p. (p, FinFixed OI_ERR_TIMEOUT)) ?out\<rparr>)" .
  then show ?thesis using invalidate_ok by (simp add: ExpirePulls_def Let_def)
qed

lemma hand_one: "rc_ok S (add_mset (tag p) X) c \<Longrightarrow> rc_ok S X (c\<lparr>hand := hand c @ [(p, f)]\<rparr>)"
  using hand_over [of S "[p]" X c "\<lambda>_. f"] by simp

lemma send_deferred_ok:
  "rc_ok S (mset (map tag ps) + X) c \<Longrightarrow> \<forall>p \<in> set ps. plain p \<Longrightarrow> rc_ok S X (send_deferred os now ps c)"
proof (induction ps arbitrary: os c)
  case (Cons p ps)
  have k: "rc_ok S (add_mset (tag p) (mset (map tag ps) + X)) c" using Cons.prems(1) by simp
  let ?w = "case os of [] \<Rightarrow> SendTaken | v # _ \<Rightarrow> v"
  obtain r d where d: "EnqueueSentPull ?w now p c = (r, d)" by fastforce
  have e: "if r = SendTaken then rc_ok S (mset (map tag ps) + X) d else rc_ok S (add_mset (tag p) (mset (map tag ps) + X)) d"
    by (rule EnqueueSentPull_ok [OF k _ d]) (use Cons.prems(2) in \<open>simp add: plain_def\<close>)
  have IH: "rc_ok S (mset (map tag ps) + X) c' \<Longrightarrow> rc_ok S X (send_deferred os' now ps c')" for os' c'
    using Cons.IH Cons.prems(2) by simp
  show ?case using d e IH hand_one [OF k] hand_one [of S p "mset (map tag ps) + X" d] by (cases r) auto
qed simp

lemma OnAdd_ok:
  assumes ok: "rc_ok S {#} c" and sid: "sid \<notin> S" "sid \<noteq> - 1"
  shows "rc_ok (insert sid S) {#} (Client_OnAddSession w os sid now c)"
proof -
  let ?D = "mset (map tag (vDeferredPulls c))"
  let ?c = "c\<lparr>vPendingPulls := [], vDeferredPulls := [], iSessionId := sid, bConnected := (sid \<noteq> - 1), bConnecting := (bConnecting c \<and> sid = - 1),
    bGot := bGot c, iCode := iCode c\<rparr>"
  have "rc_ok (insert sid S) (mset (map tag (vPendingPulls c)) + (?D + {#})) ?c"
    using session_gone [OF ok, where sid = sid and d = "[]" and got = "bGot c" and code = "iCode c"] sid by simp
  from hand_over [OF this, of "\<lambda>_. FinFixed OI_ERR_CONNECT"]
  have "rc_ok (insert sid S) (?D + {#}) (?c\<lparr>hand := hand ?c @ map (\<lambda>p. (p, FinFixed OI_ERR_CONNECT)) (vPendingPulls c)\<rparr>)" .
  then have k: "rc_ok (insert sid S) (?D + {#}) (c\<lparr>vPendingPulls := [], vDeferredPulls := [], iSessionId := sid, bFailed := False, bConnected := True,
      bConnecting := False, hand := hand c @ map (\<lambda>p. (p, FinFixed OI_ERR_CONNECT)) (vPendingPulls c)\<rparr>)" (is "rc_ok _ _ ?d")
    by (rule rc_ok_same) (use sid in \<open>simp_all add: view_defs\<close>)
  have pl: "\<forall>p \<in> set (vDeferredPulls c). plain p" using ok by (simp add: rc_ok_def sync_ok_def)
  have "rc_ok (insert sid S) {#} (send_deferred os now (vDeferredPulls c) ?d)"
    "rc_ok (insert sid S) {#} (send_deferred os now (vDeferredPulls c) (SendRegister w ?d))"
    by (rule send_deferred_ok [OF k pl], rule send_deferred_ok [OF SendRegister_ok [OF k] pl])
  then show ?thesis by (simp add: Client_OnAddSession_def Let_def)
qed

section \<open>Lemmas: received messages\<close>

lemma OnRegisterRes_ok:
  assumes ok: "rc_ok S {#} c"
  shows "rc_ok S {#} (OnRegisterRes code c)"
proof -
  let ?c = "if bRegistrationWaiting c then c\<lparr>iCode := code, bGot := True\<rparr> else c"
  have "sync_ok (c\<lparr>iCode := code, bGot := True\<rparr>)" if "bRegistrationWaiting c" using ok that by (auto simp: rc_ok_def sync_ok_def)
  then have "rc_ok S {#} ?c"
    using ok pulls_ok_move [of "{#}" c "c\<lparr>iCode := code, bGot := True\<rparr>" "{#}"] fifo_ok_same [of S c "c\<lparr>iCode := code, bGot := True\<rparr>"]
      flags_ok_same [of c "c\<lparr>iCode := code, bGot := True\<rparr>"]
    by (simp add: rc_ok_def pool_def)
  then show ?thesis by (rule rc_ok_same) (simp_all add: OnRegisterRes_def Let_def view_defs)
qed

lemma OnHeartbeatRes_ok: "rc_ok S {#} c \<Longrightarrow> rc_ok S {#} (OnHeartbeatRes code c)"
  using rc_ok_same [of S "{#}" c "OnHeartbeatRes code c"] by (simp add: OnHeartbeatRes_def view_defs)

text \<open>The first pull of the queue is answered.\<close>

lemma answer_ok:
  assumes ok: "rc_ok S X c" and v: "vPendingPulls c = p # ps"
  shows "rc_ok S (add_mset (tag p) X) (c\<lparr>vPendingPulls := ps, answered := answered c @ [(iSessionId c, p_id p, code, l)]\<rparr>)" (is "rc_ok _ _ ?c")
proof -
  have f: "fifo_ok S c" and s: "sync_ok c" using ok by (simp_all add: rc_ok_def)
  then have i: "iSessionId c \<noteq> - 1" using v by (auto simp: fifo_ok_def)
  have t: "pulls_to sid ?c = pulls_to sid c" "answers sid ?c = answers sid c @ (if sid = iSessionId c then [p_id p] else [])" for sid
    by (simp_all add: pulls_to_def answers_def)
  have "pulls_to (iSessionId c) c = answers (iSessionId c) c @ p_id p # map p_id ps" using f i v by (simp add: fifo_ok_def)
  then have "fifo_ok S ?c" using f i unfolding fifo_ok_def t by (auto simp: prefix_def)
  moreover have "pulls_ok (add_mset (tag p) X) ?c"
    by (rule pulls_ok_move [of X c]) (use ok v in \<open>simp_all add: rc_ok_def pool_def\<close>)
  moreover have "flags_ok ?c" using ok v by (auto simp: rc_ok_def flags_ok_def)
  moreover have "sync_ok ?c" using s v unfolding sync_ok_def by fastforce
  ultimately show ?thesis by (simp add: rc_ok_def)
qed

lemma sync_pending: "sync_ok c \<Longrightarrow> q \<in> set (vPendingPulls c) \<Longrightarrow> bSynchronous q \<Longrightarrow> sync c = SyncPull (p_id q)"
  by (simp add: sync_ok_def)

lemma OnPullRes_ok:
  assumes ok: "rc_ok S {#} c"
  shows "rc_ok S {#} (OnPullRes now code vList c)"
proof (cases "vPendingPulls c")
  case Nil
  then show ?thesis using ok by (simp add: OnPullRes_def)
next
  case (Cons p ps)
  define e where "e = (if due now p then OI_ERR_TIMEOUT else code)"
  define l where "l = (if due now p then [] else vList)"
  let ?c = "c\<lparr>vPendingPulls := ps, answered := answered c @ [(iSessionId c, p_id p, e, l)]\<rparr>"
  have k: "rc_ok S (add_mset (tag p) {#}) ?c" by (rule answer_ok [OF ok Cons])
  have fin: "rc_ok S {#} (FinishPull p e l ?c)" by (rule FinishPull_ok [OF k])
  have drop: "rc_ok S {#} ?c" if "\<not> p_async p" using drop_plain_number [of S "p_id p" "{#}" ?c] k that by (simp add: tag_def)
  have same: "rc_ok S {#} (?c\<lparr>m_mServices := t, changes := ch\<rparr>)" if "\<not> p_async p" for t ch
    by (rule rc_ok_same [OF drop [OF that]]) (simp_all add: view_defs)
  have sy: "rc_ok S {#} (?c\<lparr>vResponseList := l, iCode := e, bGot := True\<rparr>)" (is "rc_ok S {#} ?d") if a: "\<not> p_async p" and b: "bSynchronous p"
  proof -
    have s: "sync c = SyncPull (p_id p)" using ok Cons b by (simp add: rc_ok_def sync_ok_def)
    have "distinct (map p_id (vPendingPulls c))" by (rule pending_distinct [of "{#}"]) (use ok in \<open>simp add: rc_ok_def\<close>)
    then have "q \<in> set ps \<Longrightarrow> p_id q \<noteq> p_id p" for q using Cons by (metis distinct.simps(2) image_eqI list.set_map list.simps(9))
    moreover have "bSynchronous q \<Longrightarrow> p_id q = p_id p" if "q \<in> set ps" for q
      using sync_pending [of c q] ok Cons s that by (simp add: rc_ok_def)
    ultimately have no: "\<forall>q \<in> set ps. \<not> bSynchronous q" by blast
    have "sync_ok ?d" using drop [OF a] no s unfolding rc_ok_def sync_ok_def by auto
    then show ?thesis
      using drop [OF a] pulls_ok_move [of "{#}" ?c ?d "{#}"] fifo_ok_same [of S ?c ?d] flags_ok_same [of ?c ?d] by (simp add: rc_ok_def pool_def)
  qed
  have "OnPullRes now code vList c = (if p_async p then FinishPull p e l ?c
      else if bSynchronous p then ?c\<lparr>vResponseList := l, iCode := e, bGot := True\<rparr>
      else if e = OI_OK then (case Apply (vNames p) l (m_mServices ?c) of (t, cs) \<Rightarrow> ?c\<lparr>m_mServices := t, changes := changes ?c @ cs\<rparr>)
      else ?c)"
    unfolding OnPullRes_def Cons e_def l_def by (simp only: list.case Let_def)
  then show ?thesis using fin drop same sy by (auto split: prod.splits)
qed

lemma OnFrame_ok: "rc_ok S {#} c \<Longrightarrow> OnFrame A now sid q st c = Inr c' \<Longrightarrow> rc_ok S {#} c'"
  by (auto simp: OnFrame_def OnRegisterRes_ok OnHeartbeatRes_ok OnPullRes_ok split: if_splits prod.splits option.splits)

section \<open>Lemmas: histories\<close>

lemma Publish_end_ok:
  assumes ok: "rc_ok S {#} c"
  shows "rc_ok S {#} (snd (Publish_end v b got c))"
proof -
  let ?c = "if b then c\<lparr>bRegistrationWaiting := False, sync := (if sync c = SyncPublish then NoSync else sync c)\<rparr> else c"
  have "rc_ok S {#} ?c"
  proof (cases "b \<and> sync c = SyncPublish")
    case True
    then have "\<forall>p \<in> set (vPendingPulls c). \<not> bSynchronous p" using ok by (auto simp: rc_ok_def sync_ok_def)
    from sync_done [OF ok this] show ?thesis using True by simp
  next
    case False
    then have "bRegistrationWaiting c = False \<or> \<not> b" using ok by (auto simp: rc_ok_def sync_ok_def)
    then have "?c = c" using False by auto
    then show ?thesis using ok by simp
  qed
  then show ?thesis by (rule rc_ok_same) (simp_all add: Publish_end_def ArmHeartbeat_def Let_def view_defs)
qed

lemma Touch_ok:
  assumes ok: "rc_ok S {#} c"
  shows "rc_ok S {#} (Touch cfg stop w c)"
proof -
  have "rc_ok S {#} (snd (RegConnect cfg stop c))" using RegConnect_ok [OF ok] by (metis prod.collapse)
  moreover have "rc_ok S {#} (snd (RegSend w (MsgHeartbeat h) c))" for h using RegSend_ok [OF ok, of "MsgHeartbeat h" w] by (simp add: prod_eq_iff)
  ultimately show ?thesis using ok SendRegister_ok [OF ok] by (simp add: Touch_def)
qed

lemma rc_step_ok:
  assumes ok: "rc_ok S {#} c" and sid: "set (added_sid ev) \<inter> S = {}" "- 1 \<notin> set (added_sid ev)"
  shows "rc_ok (set (added_sid ev) \<union> S) {#} (rc_step A ev c)"
proof -
  obtain now e where ev: "ev = (now, e)" by fastforce
  show ?thesis
  proof (cases e)
    case (EvAdd w os i)
    then show ?thesis using OnAdd_ok [OF ok] sid by (simp add: ev)
  next
    case (EvConnect cfg stop)
    then show ?thesis using RegConnect_ok [OF ok] by (simp add: ev prod_eq_iff)
  next
    case (EvFrame i q st)
    then show ?thesis using ok OnFrame_ok [OF ok] by (simp add: ev split: sum.splits)
  next
    case (EvWatch cfg v m n)
    have "rc_ok S {#} (Client_Watch cfg v m n c)"
      by (rule rc_ok_same [OF ok]) (simp_all add: Client_Watch_def ArmPull_def Let_def view_defs)
    then show ?thesis using EvWatch by (simp add: ev)
  next
    case (EvPublishBegin i)
    have "rc_ok S {#} (Publish_begin i c)" by (rule rc_ok_same [OF ok]) (simp_all add: Publish_begin_def view_defs split: prod.splits)
    then show ?thesis using EvPublishBegin by (simp add: ev)
  next
    case (EvPublishSend w)
    then show ?thesis using ok SendRegister_ok [OF sync_start(2) [OF ok]] by (simp add: ev Publish_send_def)
  qed (use ok in \<open>simp_all add: ev PullAsync_begin_ok PullAsync_end_ok RegPull_all_ok PullSync_send_ok PullSync_cancel_ok PullSync_result_ok
      ExpirePulls_ok RunFinish_ok OnDel_ok OnConnectFailed_ok Touch_ok Publish_end_ok\<close>)
qed

lemma rc_run_ok:
  "rc_ok S {#} c \<Longrightarrow> distinct (concat (map added_sid evs)) \<Longrightarrow> set (concat (map added_sid evs)) \<inter> S = {} \<Longrightarrow> - 1 \<notin> set (concat (map added_sid evs))
    \<Longrightarrow> \<exists>T. rc_ok T {#} (rc_run A evs c)"
proof (induction evs arbitrary: S c)
  case (Cons ev evs)
  have "rc_ok (set (added_sid ev) \<union> S) {#} (rc_step A ev c)" by (rule rc_step_ok) (use Cons.prems in auto)
  moreover have "set (concat (map added_sid evs)) \<inter> (set (added_sid ev) \<union> S) = {}" using Cons.prems(2,3) by auto
  moreover have "distinct (concat (map added_sid evs))" "- 1 \<notin> set (concat (map added_sid evs))" using Cons.prems(2,4) by auto
  ultimately have "\<exists>T. rc_ok T {#} (rc_run A evs (rc_step A ev c))" using Cons.IH by blast
  then show ?case by simp
qed auto

section \<open>Lemmas: the choice of an instance\<close>

text \<open>What \<open>Pick\<close> promises: the current instance while it is listed, else the first one with the smallest number.\<close>

definition listed :: "ServiceInstance list \<Rightarrow> string \<Rightarrow> ServiceInstance set" where
  "listed l n = {x \<in> set l. si_sName x = n}"

lemma pick_loop_spec:
  "case pick_loop n cur best l of
     None \<Rightarrow> best = None \<and> listed l n = {}
   | Some x \<Rightarrow> x \<in> listed l n \<union> set_option best
       \<and> (0 < cur \<and> (\<exists>y \<in> listed l n. si_iId y = cur) \<longrightarrow> si_iId x = cur)
       \<and> (\<not> (0 < cur \<and> (\<exists>y \<in> listed l n. si_iId y = cur)) \<longrightarrow> (\<forall>y \<in> listed l n \<union> set_option best. si_iId x \<le> si_iId y))"
proof (induction l arbitrary: best)
  case Nil
  then show ?case by (cases best) (auto simp: listed_def)
next
  case (Cons z l)
  have c: "listed (z # l) n = (if si_sName z = n then insert z (listed l n) else listed l n)" by (auto simp: listed_def)
  show ?case
  proof (cases "si_sName z = n")
    case False
    then have "listed (z # l) n = listed l n" by (simp add: c)
    then show ?thesis using Cons.IH [of best] False by (simp only: pick_loop.simps if_True not_False_eq_True)
  next
    case True
    let ?b = "case best of None \<Rightarrow> Some z | Some b \<Rightarrow> if si_iId z < si_iId b then Some z else best"
    show ?thesis
    proof (cases "cur > 0 \<and> si_iId z = cur")
      case cz: True
      then show ?thesis using True by (simp add: c)
    next
      case cz: False
      have sub: "set_option ?b \<subseteq> insert z (set_option best)" by (cases best) auto
      have le: "\<exists>b \<in> set_option ?b. \<forall>y \<in> insert z (set_option best). si_iId b \<le> si_iId y" by (cases best) auto
      have ne: "?b \<noteq> None" by (cases best) auto
      have e: "pick_loop n cur best (z # l) = pick_loop n cur ?b l" using True cz by auto
      have ex: "(0 < cur \<and> (\<exists>y \<in> listed (z # l) n. si_iId y = cur)) = (0 < cur \<and> (\<exists>y \<in> listed l n. si_iId y = cur))"
        using cz True by (auto simp: c)
      show ?thesis
      proof (cases "pick_loop n cur ?b l")
        case None
        then show ?thesis using Cons.IH [of ?b] ne by simp
      next
        case (Some x)
        have "x \<in> listed l n \<union> set_option ?b" and k: "0 < cur \<and> (\<exists>y \<in> listed l n. si_iId y = cur) \<longrightarrow> si_iId x = cur"
          and m: "\<not> (0 < cur \<and> (\<exists>y \<in> listed l n. si_iId y = cur)) \<longrightarrow> (\<forall>y \<in> listed l n \<union> set_option ?b. si_iId x \<le> si_iId y)"
          using Cons.IH [of ?b] Some by simp_all
        moreover have "\<forall>y \<in> listed (z # l) n \<union> set_option best. si_iId x \<le> si_iId y" if "\<not> (0 < cur \<and> (\<exists>y \<in> listed l n. si_iId y = cur))"
          using m that le unfolding c using True by (auto intro: order_trans)
        ultimately show ?thesis using sub True unfolding e Some ex by (auto simp: c)
      qed
    qed
  qed
qed

lemma Pick_None: "Pick l n cur = None \<longleftrightarrow> listed l n = {}"
proof
  assume "Pick l n cur = None"
  then show "listed l n = {}" using pick_loop_spec [where n = n and cur = cur and best = None and l = l] by (simp add: Pick_def)
next
  assume "listed l n = {}"
  then show "Pick l n cur = None" using pick_loop_spec [where n = n and cur = cur and best = None and l = l] by (cases "Pick l n cur") (simp_all add: Pick_def)
qed

lemma Pick_Some:
  assumes "Pick l n cur = Some x"
  shows "x \<in> listed l n" "0 < cur \<Longrightarrow> y \<in> listed l n \<Longrightarrow> si_iId y = cur \<Longrightarrow> si_iId x = cur"
    "\<not> (0 < cur \<and> (\<exists>y \<in> listed l n. si_iId y = cur)) \<Longrightarrow> z \<in> listed l n \<Longrightarrow> si_iId x \<le> si_iId z"
  using assms pick_loop_spec [where n = n and cur = cur and best = None and l = l] by (auto simp: Pick_def)

definition current :: "svc \<Rightarrow> int" where
  "current s = (if sv_bOnline s then sv_iId s else 0)"

definition renewed :: "ServiceInstance list \<Rightarrow> string \<Rightarrow> svc \<Rightarrow> svc" where
  "renewed l n s = (if unchanged (Pick l n (current s)) s then s else picked (Pick l n (current s)) s)"

definition news :: "ServiceInstance list \<Rightarrow> services \<Rightarrow> string \<Rightarrow> change list" where
  "news l t n = (case map_of t n of
      None \<Rightarrow> []
    | Some s \<Rightarrow> if unchanged (Pick l n (current s)) s then []
        else let s' = renewed l n s in map (\<lambda>m. (m, sv_sIp s', sv_sPort s', sv_bOnline s')) (sv_vWatchers s'))"

lemma Apply_effect:
  "distinct ns \<Longrightarrow> Apply ns l t = (t', cs) \<Longrightarrow>
    (\<forall>n. map_of t' n = (if n \<in> set ns then map_option (renewed l n) (map_of t n) else map_of t n)) \<and> cs = concat (map (news l t) ns)"
proof (induction ns arbitrary: t t' cs)
  case (Cons n ns)
  show ?case
  proof (cases "map_of t n")
    case None
    then show ?thesis using Cons by (auto simp: news_def)
  next
    case (Some s)
    show ?thesis
    proof (cases "unchanged (Pick l n (current s)) s")
      case True
      then have "Apply ns l t = (t', cs)" using Cons.prems(2) Some by (simp add: current_def Let_def)
      then show ?thesis using Cons.IH [of t t' cs] Cons.prems(1) Some True by (auto simp: news_def renewed_def)
    next
      case False
      let ?s = "picked (Pick l n (current s)) s"
      let ?t = "AList.update n ?s t"
      obtain cs2 where a: "Apply ns l ?t = (t', cs2)" and cs: "cs = map (\<lambda>m. (m, sv_sIp ?s, sv_sPort ?s, sv_bOnline ?s)) (sv_vWatchers ?s) @ cs2"
        using Cons.prems(2) Some False by (auto simp: current_def Let_def split: prod.splits)
      have u: "map_of ?t = (map_of t)(n \<mapsto> ?s)" by (simp add: update_conv')
      have "news l ?t x = news l t x" if "x \<in> set ns" for x using Cons.prems(1) that by (auto simp: news_def u)
      then have m: "map (news l ?t) ns = map (news l t) ns" by simp
      have i: "map_of t' x = (if x \<in> set ns then map_option (renewed l x) (map_of ?t x) else map_of ?t x)" "cs2 = concat (map (news l ?t) ns)" for x
        using Cons.IH [OF _ a] Cons.prems(1) by simp_all
      have h: "renewed l n s = ?s" using False by (simp add: renewed_def)
      have nw: "news l t n = map (\<lambda>m. (m, sv_sIp ?s, sv_sPort ?s, sv_bOnline ?s)) (sv_vWatchers ?s)"
        using Some False h by (simp add: news_def Let_def)
      have "map_of t' x = (if x \<in> set (n # ns) then map_option (renewed l x) (map_of t x) else map_of t x)" for x
        using i(1) [of x] Cons.prems(1) Some h by (simp add: u)
      moreover have "cs = concat (map (news l t) (n # ns))" using cs i(2) m nw by simp
      ultimately show ?thesis by blast
    qed
  qed
qed simp

lemma renewed_spec:
  shows "sv_vWatchers (renewed l n s) = sv_vWatchers s" "sv_bOnline (renewed l n s) \<longleftrightarrow> listed l n \<noteq> {}"
    and "listed l n \<noteq> {} \<Longrightarrow> \<exists>x \<in> listed l n. sv_iId (renewed l n s) = si_iId x \<and> sv_sIp (renewed l n s) = si_sIp x \<and> sv_sPort (renewed l n s) = si_sPort x
      \<and> (if sv_bOnline s \<and> 0 < sv_iId s \<and> (\<exists>y \<in> listed l n. si_iId y = sv_iId s) then si_iId x = sv_iId s else \<forall>y \<in> listed l n. si_iId x \<le> si_iId y)"
proof -
  show "sv_vWatchers (renewed l n s) = sv_vWatchers s" by (simp add: renewed_def picked_def split: option.splits)
  have n: "Pick l n (current s) = None \<longleftrightarrow> listed l n = {}" by (rule Pick_None)
  show "sv_bOnline (renewed l n s) \<longleftrightarrow> listed l n \<noteq> {}"
    using n by (cases "Pick l n (current s)") (auto simp: renewed_def picked_def unchanged_def)
  assume "listed l n \<noteq> {}"
  then obtain x where x: "Pick l n (current s) = Some x" using n by auto
  have "if sv_bOnline s \<and> 0 < sv_iId s \<and> (\<exists>y \<in> listed l n. si_iId y = sv_iId s) then si_iId x = sv_iId s else \<forall>y \<in> listed l n. si_iId x \<le> si_iId y"
    using Pick_Some(2,3) [OF x] by (auto simp: current_def split: if_splits)
  moreover have "x \<in> listed l n" by (rule Pick_Some(1) [OF x])
  moreover have "sv_iId (renewed l n s) = si_iId x" "sv_sIp (renewed l n s) = si_sIp x" "sv_sPort (renewed l n s) = si_sPort x"
    using x by (auto simp: renewed_def picked_def unchanged_def)
  ultimately show "\<exists>x \<in> listed l n. sv_iId (renewed l n s) = si_iId x \<and> sv_sIp (renewed l n s) = si_sIp x \<and> sv_sPort (renewed l n s) = si_sPort x
      \<and> (if sv_bOnline s \<and> 0 < sv_iId s \<and> (\<exists>y \<in> listed l n. si_iId y = sv_iId s) then si_iId x = sv_iId s else \<forall>y \<in> listed l n. si_iId x \<le> si_iId y)"
    by blast
qed

definition changed :: "svc \<Rightarrow> svc \<Rightarrow> bool" where
  "changed s s' \<longleftrightarrow> sv_bOnline s' \<noteq> sv_bOnline s \<or> sv_bOnline s \<and> (sv_iId s', sv_sIp s', sv_sPort s') \<noteq> (sv_iId s, sv_sIp s, sv_sPort s)"

lemma unchanged_iff: "unchanged (Pick l n (current s)) s \<longleftrightarrow> \<not> changed s (renewed l n s)"
  by (cases "Pick l n (current s)") (auto simp: renewed_def picked_def unchanged_def changed_def)

section \<open>Lemmas: frames\<close>

text \<open>The specification of \<open>ReadRegFrames\<close>: the receiver gets the frames one after another until it raises an exception.\<close>

definition body_stream :: "allocator \<Rightarrow> bytes \<Rightarrow> stream" where
  "body_stream A d = (if d = [] then Stream_empty else snd (s_append A d Stream_empty))"

fun handle_frames :: "allocator \<Rightarrow> 's on_frame \<Rightarrow> (u32 \<times> bytes) list \<Rightarrow> 's \<Rightarrow> exc + int option \<times> 's" where
  "handle_frames A fn [] s = Inr (None, s)"
| "handle_frames A fn ((q, d) # fs) s = (case fn q (body_stream A d) s of
      Inl ParserException \<Rightarrow> Inr (Some PARSER_ERR_PROTOCOL_SIZE, s)
    | Inl e \<Rightarrow> Inl e
    | Inr s' \<Rightarrow> handle_frames A fn fs s')"

definition frames_read :: "allocator \<Rightarrow> 's on_frame \<Rightarrow> (u32 \<times> bytes) list \<Rightarrow> bytes \<Rightarrow> frame_end \<Rightarrow> bytes_obj \<Rightarrow> 's
    \<Rightarrow> exc + int option \<times> stream \<times> 's \<Rightarrow> bool" where
  "frames_read A fn fs rest e b s r = (case handle_frames A fn fs s of
      Inl x \<Rightarrow> r = Inl x
    | Inr (Some c, s') \<Rightarrow> (\<exists>st'. r = Inr (Some c, st', s'))
    | Inr (None, s') \<Rightarrow> (\<exists>st'. stream_ok st' \<and> unread st' = rest \<and> buf st' = b
        \<and> r = Inr (if e = Wait then None else Some PARSER_ERR_OTHER, st', s')))"

lemma frames_read_end: "stream_ok st \<Longrightarrow> frames_read A fn [] (unread st) e (buf st) s (Inr (if e = Wait then None else Some PARSER_ERR_OTHER, st, s))"
  by (auto simp: frames_read_def)

lemma frames_read_cons:
  "frames_read A fn ((q, d) # fs) rest e b s r = (case fn q (body_stream A d) s of
     Inl x \<Rightarrow> if x = ParserException then \<exists>st'. r = Inr (Some PARSER_ERR_PROTOCOL_SIZE, st', s) else r = Inl x
   | Inr s' \<Rightarrow> frames_read A fn fs rest e b s' r)"
  by (simp add: frames_read_def split: sum.splits exc.splits)

lemma frame_body:
  assumes "stream_ok s" and "unread s = d @ rest" and "length d \<le> INT32_MAX" and "all_avail A"
  shows "(if (word_of_nat (length d) :: u32) > 0 then s_append A (cur_bytes (unat (word_of_nat (length d) :: u32)) s) Stream_empty
      else (None, Stream_empty)) = (None, body_stream A d)"
proof (cases "d = []")
  case False
  obtain t where t: "(if (word_of_nat (length d) :: u32) > 0 then s_append A (cur_bytes (unat (word_of_nat (length d) :: u32)) s) Stream_empty
      else (None, Stream_empty)) = (None, t)"
    using sub_stream [OF assms] by blast
  have u: "unat (word_of_nat (length d) :: u32) = length d" using assms(3) by (simp add: unat_of_nat)
  then have g: "(word_of_nat (length d) :: u32) > 0" using False by (metis length_greater_0_conv unat_gt_0 word_gt_0)
  have c: "cur_bytes (length d) s = d" using cur_bytes_unread [OF assms(1), of "length d"] assms(2) by simp
  show ?thesis using t g False unfolding u c by (simp add: body_stream_def)
qed (simp add: body_stream_def)

lemma read_frames_split:
  "stream_ok st \<Longrightarrow> all_avail A \<Longrightarrow> split_frames INT32_MAX (unread st) = (fs, rest, e) \<Longrightarrow> length (unread st) \<le> fuel
    \<Longrightarrow> frames_read A fn fs rest e (buf st) s (read_frames A fn fuel st s)"
proof (induction fuel arbitrary: st s fs)
  case 0
  then show ?case by (subst read_frames.simps) (auto simp: RemainSize_unread frames_read_def)
next
  case (Suc fuel)
  note st = \<open>stream_ok st\<close>
  let ?u = "unread st" and ?n = "le_val (take 4 (drop 4 (unread st)))" and ?q = "le_val (take 4 (unread st))"
  consider "?u = []" | "?u \<noteq> []" "length ?u < 8" | "length ?u \<ge> 8" "?q > INT32_MAX \<or> ?n > INT32_MAX"
    | "length ?u \<ge> 8" "\<not> (?q > INT32_MAX \<or> ?n > INT32_MAX)" "length ?u < 8 + ?n"
    | "length ?u \<ge> 8" "\<not> (?q > INT32_MAX \<or> ?n > INT32_MAX)" "length ?u \<ge> 8 + ?n"
    by linarith
  then show ?case
  proof cases
    case 1
    then show ?thesis using Suc.prems frames_read_end [of st A fn Wait s] by (subst read_frames.simps) (auto simp: RemainSize_unread)
  next
    case 2
    then have "read_frames A fn (Suc fuel) st s = Inr (None, RollBack (StartTransaction st), s)"
      using st by (subst read_frames.simps) (simp add: RemainSize_unread PreparePbHeader_def)
    then show ?thesis using Suc.prems 2 frames_read_end [of "RollBack (StartTransaction st)" A fn Wait s] by (simp add: split_short)
  next
    case 3
    define e' where "e' = (if ?n > INT32_MAX then TooLarge else BadHeader)"
    have sp: "split_frames INT32_MAX ?u = ([], ?u, e')" "e' \<noteq> Wait"
      using 3 unfolding e'_def by (subst split_frames.simps) (auto simp: Let_def)
    have "PreparePbHeader (StartTransaction st) = (PB_HEADER_BAD, None, StartTransaction st)"
      using 3 st header_values [of "StartTransaction st"] by (simp add: PreparePbHeader_def RemainSize_unread sint_neg_u32 Let_def)
    then have "read_frames A fn (Suc fuel) st s = Inr (Some PARSER_ERR_OTHER, StartTransaction st, s)"
      using 3 st by (subst read_frames.simps) (auto simp: RemainSize_unread)
    then show ?thesis using Suc.prems(3) sp st frames_read_end [of "StartTransaction st" A fn e' s] by simp
  next
    case 4
    then have sp: "split_frames INT32_MAX ?u = ([], ?u, Wait)" by (subst split_frames.simps) (auto simp: Let_def)
    have "PreparePbHeader (StartTransaction st) = (PB_HEADER_NEED_MORE, None, StartTransaction st)"
      using 4 st header_values [of "StartTransaction st"] by (simp add: PreparePbHeader_def RemainSize_unread sint_neg_u32 Let_def)
    then have "read_frames A fn (Suc fuel) st s = Inr (None, RollBack (StartTransaction st), s)"
      using 4 st by (subst read_frames.simps) (auto simp: RemainSize_unread)
    then show ?thesis using Suc.prems(3) sp st frames_read_end [of "RollBack (StartTransaction st)" A fn Wait s] by simp
  next
    case 5
    let ?d = "take ?n (drop 8 ?u)"
    obtain fs1 where sp: "split_frames INT32_MAX (drop (8 + ?n) ?u) = (fs1, rest, e)" and fs: "fs = (word_of_nat ?q, ?d) # fs1"
      using Suc.prems(3) [unfolded split_frames.simps [of _ ?u]] 5 by (auto simp: Let_def split: prod.splits)
    have hd: "PreparePbHeader (StartTransaction st) = (PB_HEADER_OK, Some (word_of_nat ?q, word_of_nat ?n), AddCurPos 8 (StartTransaction st))"
      using 5 st header_values [of "StartTransaction st"] by (simp add: PreparePbHeader_def RemainSize_unread sint_neg_u32 Let_def)
    let ?st1 = "AddCurPos 8 (StartTransaction st)" and ?st2 = "AddCurPos ?n (AddCurPos 8 (StartTransaction st))"
    have st1: "stream_ok ?st1" "unread ?st1 = ?d @ drop (8 + ?n) ?u"
      using AddCurPos_unread [of "StartTransaction st" 8] st 5 append_take_drop_id [of ?n "drop 8 ?u"]
      by (simp_all add: add.commute)
    have st2: "stream_ok ?st2" "unread ?st2 = drop (8 + ?n) ?u" "buf ?st2 = buf st"
      using AddCurPos_unread [of "StartTransaction st" "8 + ?n"] st 5 by simp_all
    have n: "length ?d = ?n" "?n \<le> INT32_MAX" and ne: "?u \<noteq> []" using 5 by auto
    from n have "length ?d \<le> INT32_MAX" by simp
    from frame_body [OF st1 this Suc.prems(2)]
    have body: "(if (word_of_nat ?n :: u32) > 0 then s_append A (cur_bytes (unat (word_of_nat ?n :: u32)) ?st1) Stream_empty
        else (None, Stream_empty)) = (None, body_stream A ?d)"
      unfolding n(1) .
    have r: "read_frames A fn (Suc fuel) st s = (case fn (word_of_nat ?q) (body_stream A ?d) s of
        Inl ParserException \<Rightarrow> Inr (Some PARSER_ERR_PROTOCOL_SIZE, ?st2, s) | Inl x \<Rightarrow> Inl x | Inr s' \<Rightarrow> read_frames A fn fuel ?st2 s')"
      using 5 st body hd n ne by (subst read_frames.simps) (simp add: RemainSize_unread header_values split: sum.splits exc.splits)
    have IH: "frames_read A fn fs1 rest e (buf st) s' (read_frames A fn fuel ?st2 s')" for s'
      using Suc.IH [OF st2(1) Suc.prems(2) _ _, of fs1 s'] sp st2 Suc.prems(4) 5 by simp
    show ?thesis unfolding r fs frames_read_cons using IH by (simp split: sum.splits exc.splits)
  qed
qed

text \<open>A message as a frame, and the frame read back.\<close>

lemma EncodeRegFrame_content:
  assumes e: "EncodeRegFrame A q ser = Inr b" and w: "OI_Stream.writes ser d" and d: "length d \<le> INT32_MAX"
  shows "bytes_ok b \<and> content b = pb_field q d \<and> \<not> sint q < 0"
proof -
  obtain st where st: "ser Stream_empty = (None, st)" using e by (auto simp: EncodeRegFrame_def split: prod.splits option.splits)
  have s: "stream_ok st" "content (buf st) = d" using writesD [OF w stream_ok_empty(1) st] by simp_all
  then have sz: "m_iSize (buf st) = length d" using length_content [of "buf st"] by (simp add: stream_ok_def)
  have pos: "((word_of_nat (length d) :: u32) \<noteq> 0) = (d \<noteq> [])"
    using unat_len32 [OF d] by (metis length_0_conv unat_eq_zero word_of_nat_eq_0_iff of_nat_0)
  obtain z where z: "WritePbRaw A q (if d \<noteq> [] then Some d else None) (word_of_nat (length d)) Stream_empty = (None, z)" "b = buf z"
    using e unfolding EncodeRegFrame_def st by (auto simp: Let_def sz pos s(2) split: prod.splits option.splits if_splits)
  have "OI_Stream.writes (WritePbRaw A q (if d \<noteq> [] then Some d else None) (word_of_nat (length d))) (pb_field q d)"
    using d by (intro WritePbRaw_writes) auto
  from writesD [OF this stream_ok_empty(1) z(1)] WritePbRaw_seq [OF z(1)] z(2) show ?thesis by (simp add: stream_ok_def)
qed

lemma body_stream_ok:
  assumes "length d \<le> INT32_MAX" and "all_avail A"
  shows "stream_ok (body_stream A d)" "unread (body_stream A d) = d"
proof -
  let ?b = "piece d"
  have ok: "stream_ok \<lparr>buf = ?b, m_iCurrentPosition = 0, m_iSnapshotPosition = 0\<rparr>" "unread \<lparr>buf = ?b, m_iCurrentPosition = 0, m_iSnapshotPosition = 0\<rparr> = d @ []"
    using assms(1) piece_laws [of d] by (simp_all add: stream_ok_def unread_def)
  obtain t where "(if (word_of_nat (length d) :: u32) > 0 then s_append A (cur_bytes (unat (word_of_nat (length d) :: u32)) \<lparr>buf = ?b, m_iCurrentPosition = 0, m_iSnapshotPosition = 0\<rparr>) Stream_empty
      else (None, Stream_empty)) = (None, t)" "stream_ok t" "unread t = d"
    using sub_stream [OF ok assms] by blast
  moreover note frame_body [OF ok assms]
  ultimately show "stream_ok (body_stream A d)" "unread (body_stream A d) = d" by simp_all
qed

lemma ReadRegFrames_split:
  assumes "bytes_ok b" and "all_avail A" and "split_frames INT32_MAX (content b) = (fs, rest, e)"
  shows "case handle_frames A fn fs s of
      Inl x \<Rightarrow> ReadRegFrames A fn b s = Inl x
    | Inr (Some k, s') \<Rightarrow> ReadRegFrames A fn b s = Inr (Some k, Bytes_empty, s')
    | Inr (None, s') \<Rightarrow> if e = Wait then \<exists>b'. ReadRegFrames A fn b s = Inr (None, b', s') \<and> bytes_ok b' \<and> content b' = rest
        else ReadRegFrames A fn b s = Inr (Some PARSER_ERR_OTHER, Bytes_empty, s')"
proof -
  let ?st = "\<lparr>buf = b, m_iCurrentPosition = 0, m_iSnapshotPosition = 0\<rparr>"
  have st: "stream_ok ?st" "unread ?st = content b" using assms(1) by (simp_all add: stream_ok_def unread_def)
  have "frames_read A fn fs rest e (buf ?st) s (read_frames A fn (RemainSize ?st) ?st s)"
    by (rule read_frames_split [OF st(1) assms(2)]) (use st assms(3) in \<open>simp_all add: RemainSize_unread\<close>)
  moreover have "bytes_ok (snd (Erase 0 (m_iCurrentPosition st') (buf st'))) \<and> content (snd (Erase 0 (m_iCurrentPosition st') (buf st'))) = unread st'"
    if "stream_ok st'" "buf st' = b" for st'
    using oi_bytes.drop_law [of "buf st'" "m_iCurrentPosition st'"] assms(1) that by (simp add: unread_def)
  ultimately show ?thesis by (auto simp: frames_read_def ReadRegFrames_def Let_def split: sum.splits option.splits if_splits)
qed

lemma RegPullRes_reads_over:
  assumes ok: "RegPullRes_ok v" and A: "all_avail A"
  shows "fields_read (RegPullRes_field A) \<lparr>pullres_iCode = x, pullres_vList = []\<rparr> (RegPullRes_fields v) v"
proof -
  let ?w = "\<lparr>pullres_iCode = x, pullres_vList = []\<rparr>"
  let ?v1 = "?w\<lparr>pullres_iCode := pullres_iCode v\<rparr>"
  have "fields_read (RegPullRes_field A) ?v1 (map (\<lambda>x. (1, pb_layout (RegInstance_fields x))) (pullres_vList v))
      (fold (\<lambda>x v. v\<lparr>pullres_vList := pullres_vList v @ [x]\<rparr>) (pullres_vList v) ?v1)"
    by (rule RegInstance.as_field.fields_read_vector [OF A seq_nonneg(2)])
      (use ok in \<open>simp_all add: RegPullRes_cases set_field_def RegPullRes_ok_def\<close>)
  then have "fields_read (RegPullRes_field A) ?v1 (map (\<lambda>x. (1, pb_layout (RegInstance_fields x))) (pullres_vList v)) v"
    by (cases v) (simp add: RegPullRes_fold)
  then show ?thesis unfolding RegPullRes_fields_def append_Cons append_Nil
    by (rule fields_word [where field = "RegPullRes_field A" and q = 0, OF RegPullRes_cases(1) seq_nonneg(1)])
qed

interpretation RegPullRes_client: pb_object "\<lambda>v. pb_layout (RegPullRes_fields v)" RegPullRes_ok RegPullRes_serialize RegPullRes_deserialize
  "\<lparr>pullres_iCode = - 1, pullres_vList = []\<rparr>"
proof (unfold_locales, goal_cases)
  case (1 v A)
  then show ?case by (rule RegPullRes_writes)
next
  case (2 v A s)
  then show ?case using pb_fields_layout [OF RegPullRes_reads_over [OF 2(1,2)] 2(3,4)]
    by (auto simp: RegPullRes_deserialize_def)
qed

section \<open>Properties\<close>

text \<open>
  C16: the callback of every asynchronous pull runs exactly once. Under any interleaving of the client's
  operations with sessions that come and go, replies, timeouts and refused sends, a pull is either waiting in
  exactly one place (starting, sent, deferred, taken out by an operation) or its callback has run, once. A
  deferred pull has an attempt to connect under way, and while a pull is queued the timer that expires
  pulls is armed.
\<close>

theorem pulls_complete_once:
  assumes "distinct (concat (map added_sid evs))" and "- 1 \<notin> set (concat (map added_sid evs))" and "c = rc_run A evs RegistryClient"
  shows "(\<forall>n \<in> set (asked c). count (pool c) (n, True) + count_list (map fst (results c)) n = 1)
    \<and> (\<forall>n. count_list (map fst (results c)) n \<le> 1) \<and> fst ` set (results c) \<subseteq> set (asked c)
    \<and> (vDeferredPulls c \<noteq> [] \<longrightarrow> bConnecting c) \<and> (vPendingPulls c \<noteq> [] \<longrightarrow> iSessionId c \<noteq> INVALID_SID)
    \<and> (vPendingPulls c \<noteq> [] \<or> vDeferredPulls c \<noteq> [] \<longrightarrow> bPullTimeoutArmed c)"
proof -
  obtain T where ok: "rc_ok T {#} c" using rc_run_ok [OF RegistryClient_ok assms(1) _ assms(2), of A] assms(3) by auto
  then have p: "count (pool c) (n, True) + of_bool (n \<in> finished c) = (of_bool (n \<in> set (asked c)) :: nat)"
    "count_list (map fst (results c)) n = of_bool (n \<in> finished c)" for n
    unfolding rc_ok_def pulls_ok_def by simp_all
  have "\<forall>n \<in> set (asked c). count (pool c) (n, True) + count_list (map fst (results c)) n = 1" using p(1) by (simp add: p(2))
  moreover have "\<forall>n. count_list (map fst (results c)) n \<le> 1" by (simp add: p(2))
  moreover have "n \<in> set (asked c)" if "n \<in> fst ` set (results c)" for n
  proof -
    have "n \<in> set (map fst (results c))" using that by simp
    then have "n \<in> finished c" using p(2) [of n] count_list_0_iff [of "map fst (results c)" n] by (auto split: if_splits)
    then show ?thesis using p(1) [of n] by (cases "n \<in> set (asked c)") simp_all
  qed
  moreover have "(vDeferredPulls c \<noteq> [] \<longrightarrow> bConnecting c) \<and> (vPendingPulls c \<noteq> [] \<longrightarrow> iSessionId c \<noteq> INVALID_SID)
    \<and> (vPendingPulls c \<noteq> [] \<or> vDeferredPulls c \<noteq> [] \<longrightarrow> bPullTimeoutArmed c)"
    using ok unfolding rc_ok_def flags_ok_def fifo_ok_def by auto
  ultimately show ?thesis by blast
qed

definition rc_config :: "string \<Rightarrow> string option" where
  "rc_config k = (if k = ''Registry.ip'' then Some ''10.0.0.1'' else if k = ''Registry.port'' then Some ''70'' else if k = ''Registry.type'' then Some ''tcp'' else None)"

definition rc_events :: "(int \<times> rc_event) list" where
  "rc_events = [(0, EvPullBegin rc_config False None ''a'' 5), (1, EvPullEnd SendTaken 0), (2, EvAdd SendTaken [] 7)]"

lemma rc_events_sids: "distinct (concat (map added_sid rc_events))" "- 1 \<notin> set (concat (map added_sid rc_events))"
  by (simp_all add: rc_events_def)

lemmas rc_run_defs = rc_events_def PullAsync_begin_def PullAsync_end_def RegistryClient_def CanEnqueuePull_def ReadMaxPendingPulls_def
  GetPendingPullCount_def Configured_def rc_config_def RegConnect_def address_configured_def due_def INT64_MAX_def ArmPullTimeout_def
  Client_OnAddSession_def EnqueueSentPull_def RegSend_def Let_def

lemma rc_events_run:
  "asked (rc_run A rc_events RegistryClient) = [0]" "results (rc_run A rc_events RegistryClient) = []"
  "iSessionId (rc_run A rc_events RegistryClient) = 7"
  by (simp_all add: rc_run_defs)

theorem pulls_complete_once_witness:
  "count (pool (rc_run demo_alloc rc_events RegistryClient)) (0, True)
     + count_list (map fst (results (rc_run demo_alloc rc_events RegistryClient))) 0 = 1"
  using pulls_complete_once [OF rc_events_sids refl] rc_events_run(1) [of demo_alloc] by simp

text \<open>
  Replies are matched with the pulls they answer, although they carry no number. On every session
  the pulls that were answered are the first ones sent on it, in the order of sending; while a session is in
  use, the ones sent and not yet answered are exactly the queue. A list that a synchronous pull returns is
  the reply to that pull.
\<close>

theorem replies_match_pulls:
  assumes "distinct (concat (map added_sid evs))" and "- 1 \<notin> set (concat (map added_sid evs))" and "c = rc_run A evs RegistryClient"
  shows "(\<forall>sid. prefix (answers sid c) (pulls_to sid c))
    \<and> (iSessionId c \<noteq> INVALID_SID \<longrightarrow> pulls_to (iSessionId c) c = answers (iSessionId c) c @ map p_id (vPendingPulls c))
    \<and> (\<forall>(n, l) \<in> set (sync_results c). \<exists>sid code. (sid, n, code, l) \<in> set (answered c))"
proof -
  obtain T where "rc_ok T {#} c" using rc_run_ok [OF RegistryClient_ok assms(1) _ assms(2), of A] assms(3) by auto
  then show ?thesis unfolding rc_ok_def fifo_ok_def sync_ok_def by simp
qed

theorem replies_match_pulls_witness:
  "pulls_to 7 (rc_run demo_alloc rc_events RegistryClient)
     = answers 7 (rc_run demo_alloc rc_events RegistryClient) @ map p_id (vPendingPulls (rc_run demo_alloc rc_events RegistryClient))"
  using replies_match_pulls [OF rc_events_sids refl, of demo_alloc] rc_events_run(3) [of demo_alloc] by simp

text \<open>
  The sweep leaves no pull behind whose time has passed. Every one of them that has a callback is handed
  over with the code for a timeout. When a pull that was sent is among them, the connection is given up:
  the session is closed, all pulls sent on it are handed over, and a reply that still comes on it is ignored.
\<close>

theorem ExpirePulls_settles:
  "(\<forall>p \<in> set (vPendingPulls (ExpirePulls now c)) \<union> set (vDeferredPulls (ExpirePulls now c)). now < iDeadlineMilliseconds p)
   \<and> (\<forall>p \<in> set (vPendingPulls c) \<union> set (vDeferredPulls c). iDeadlineMilliseconds p \<le> now \<longrightarrow>
        (p, FinFixed OI_ERR_TIMEOUT) \<in> set (hand (ExpirePulls now c)))
   \<and> (iSessionId c \<noteq> INVALID_SID \<and> (\<exists>p \<in> set (vPendingPulls c). iDeadlineMilliseconds p \<le> now) \<longrightarrow>
        iSessionId (ExpirePulls now c) = INVALID_SID \<and> iSessionId c \<in> set (closed_sessions (ExpirePulls now c))
        \<and> set (vPendingPulls c) \<subseteq> fst ` set (hand (ExpirePulls now c))
        \<and> (\<forall>A later q st. OnFrame A later (iSessionId c) q st (ExpirePulls now c) = Inr (ExpirePulls now c)))"
proof -
  have d: "due now p \<longleftrightarrow> iDeadlineMilliseconds p \<le> now" for p by (simp add: due_def)
  show ?thesis
  proof (cases "list_ex (due now) (vPendingPulls c)")
    case True
    have "set (vPendingPulls c) \<subseteq> fst ` set (hand (ExpirePulls now c))"
      using True by (simp add: ExpirePulls_def invalidate_def Let_def image_Un image_image) blast
    then show ?thesis using True by (auto simp: ExpirePulls_def invalidate_def OnFrame_def Let_def d image_iff list_ex_iff)
  next
    case False
    then show ?thesis by (auto simp: ExpirePulls_def Let_def d list_ex_iff not_le)
  qed
qed

theorem ExpirePulls_settles_witness:
  "iSessionId (ExpirePulls 9 (rc_run demo_alloc rc_events RegistryClient)) = INVALID_SID
   \<and> 7 \<in> set (closed_sessions (ExpirePulls 9 (rc_run demo_alloc rc_events RegistryClient)))"
proof -
  have "\<exists>p \<in> set (vPendingPulls (rc_run demo_alloc rc_events RegistryClient)). iDeadlineMilliseconds p \<le> 9"
    by (simp add: rc_run_defs)
  then show ?thesis using ExpirePulls_settles [of 9 "rc_run demo_alloc rc_events RegistryClient"] rc_events_run(3) [of demo_alloc] by simp
qed

text \<open>
  C32: a watched service follows the registry. After the answer to a pull, a service is online exactly when an
  instance of it is listed, with the address of a listed instance: the one in use as long as it is listed,
  otherwise one with the smallest number. Names that were not asked for stay as they are, and the
  watchers of a service are told exactly when its state, its instance or its address has changed.
\<close>

theorem services_follow_registry:
  assumes "distinct ns" and "Apply ns l t = (t', cs)"
  shows "(\<forall>n. n \<notin> set ns \<longrightarrow> map_of t' n = map_of t n)
    \<and> (\<forall>n \<in> set ns. \<forall>s. map_of t n = Some s \<longrightarrow> (\<exists>s'. map_of t' n = Some s' \<and> sv_vWatchers s' = sv_vWatchers s
        \<and> (sv_bOnline s' \<longleftrightarrow> listed l n \<noteq> {})
        \<and> (listed l n \<noteq> {} \<longrightarrow> (\<exists>x \<in> listed l n. sv_iId s' = si_iId x \<and> sv_sIp s' = si_sIp x \<and> sv_sPort s' = si_sPort x
             \<and> (if sv_bOnline s \<and> 0 < sv_iId s \<and> (\<exists>y \<in> listed l n. si_iId y = sv_iId s) then si_iId x = sv_iId s
                else \<forall>y \<in> listed l n. si_iId x \<le> si_iId y)))
        \<and> (changed s s' \<longrightarrow> (\<forall>m \<in> set (sv_vWatchers s). (m, sv_sIp s', sv_sPort s', sv_bOnline s') \<in> set cs))))
    \<and> (\<forall>(m, ip, port, on) \<in> set cs. \<exists>n \<in> set ns. \<exists>s s'. map_of t n = Some s \<and> map_of t' n = Some s' \<and> changed s s'
        \<and> m \<in> set (sv_vWatchers s) \<and> ip = sv_sIp s' \<and> port = sv_sPort s' \<and> on = sv_bOnline s')"
proof -
  have e: "map_of t' n = (if n \<in> set ns then map_option (renewed l n) (map_of t n) else map_of t n)" and cs: "cs = concat (map (news l t) ns)" for n
    using Apply_effect [OF assms] by blast+
  have one: "\<exists>s'. map_of t' n = Some s' \<and> sv_vWatchers s' = sv_vWatchers s \<and> (sv_bOnline s' \<longleftrightarrow> listed l n \<noteq> {})
        \<and> (listed l n \<noteq> {} \<longrightarrow> (\<exists>x \<in> listed l n. sv_iId s' = si_iId x \<and> sv_sIp s' = si_sIp x \<and> sv_sPort s' = si_sPort x
             \<and> (if sv_bOnline s \<and> 0 < sv_iId s \<and> (\<exists>y \<in> listed l n. si_iId y = sv_iId s) then si_iId x = sv_iId s
                else \<forall>y \<in> listed l n. si_iId x \<le> si_iId y)))
        \<and> (changed s s' \<longrightarrow> (\<forall>m \<in> set (sv_vWatchers s). (m, sv_sIp s', sv_sPort s', sv_bOnline s') \<in> set cs))"
    if n: "n \<in> set ns" and s: "map_of t n = Some s" for n s
  proof (intro exI [of _ "renewed l n s"] conjI)
    show "changed s (renewed l n s) \<longrightarrow> (\<forall>m \<in> set (sv_vWatchers s). (m, sv_sIp (renewed l n s), sv_sPort (renewed l n s), sv_bOnline (renewed l n s)) \<in> set cs)"
      using n s by (auto simp: cs news_def unchanged_iff Let_def renewed_spec(1) intro!: bexI [of _ n])
  qed (use n s e in \<open>simp_all add: renewed_spec\<close>)
  have two: "\<exists>n \<in> set ns. \<exists>s s'. map_of t n = Some s \<and> map_of t' n = Some s' \<and> changed s s'
        \<and> m \<in> set (sv_vWatchers s) \<and> ip = sv_sIp s' \<and> port = sv_sPort s' \<and> on = sv_bOnline s'" if c: "(m, ip, port, on) \<in> set cs" for m ip port on
  proof -
    obtain n where n: "n \<in> set ns" "(m, ip, port, on) \<in> set (news l t n)" using c unfolding cs by auto
    then have "\<exists>s. map_of t n = Some s \<and> changed s (renewed l n s) \<and> m \<in> set (sv_vWatchers s) \<and> ip = sv_sIp (renewed l n s)
      \<and> port = sv_sPort (renewed l n s) \<and> on = sv_bOnline (renewed l n s)"
      by (cases "map_of t n") (auto simp: news_def unchanged_iff Let_def renewed_spec(1) split: if_splits)
    then obtain s where "map_of t n = Some s" "changed s (renewed l n s)" "m \<in> set (sv_vWatchers s)" "ip = sv_sIp (renewed l n s)"
      "port = sv_sPort (renewed l n s)" "on = sv_bOnline (renewed l n s)" by blast
    then show ?thesis using n(1) e [of n] by (intro bexI [of _ n] exI [of _ s] exI [of _ "renewed l n s"]) simp_all
  qed
  have "\<forall>n. n \<notin> set ns \<longrightarrow> map_of t' n = map_of t n" using e by simp
  then show ?thesis using one two by blast
qed

theorem services_follow_registry_witness:
  "\<exists>t' cs. Apply [''a''] [\<lparr>si_sName = ''a'', si_iId = 2, si_sIp = ''h'', si_sPort = ''1'', si_sZone = []\<rparr>] [(''a'', svc_new\<lparr>sv_vWatchers := [5]\<rparr>)] = (t', cs)
    \<and> (\<exists>s'. map_of t' ''a'' = Some s' \<and> sv_bOnline s')"
proof -
  let ?l = "[\<lparr>si_sName = ''a'', si_iId = 2, si_sIp = ''h'', si_sPort = ''1'', si_sZone = []\<rparr>]" and ?t = "[(''a'', svc_new\<lparr>sv_vWatchers := [5]\<rparr>)]"
  obtain t' cs where a: "Apply [''a''] ?l ?t = (t', cs)" by fastforce
  have d: "distinct [''a'']" by simp
  have n: "listed ?l ''a'' \<noteq> {}" "''a'' \<in> set [''a'']" "map_of ?t ''a'' = Some (svc_new\<lparr>sv_vWatchers := [5]\<rparr>)" by (auto simp: listed_def)
  then have "\<exists>s'. map_of t' ''a'' = Some s' \<and> sv_bOnline s'" using services_follow_registry [OF d a] by blast
  then show ?thesis using a by blast
qed

text \<open>
  The reader of frames and the receiver. The bytes fall into frames (\<open>split_frames\<close>); the receiver
  gets them one after another, in order. An incomplete frame at the end stays in the buffer for the next
  read; a malformed header and a body that the receiver cannot parse close the session and drop the rest.
\<close>

theorem ReadRegFrames_reads_frames:
  assumes "bytes_ok b" and "all_avail A" and "split_frames INT32_MAX (content b) = (fs, rest, e)"
  shows "case handle_frames A fn fs s of
      Inl x \<Rightarrow> ReadRegFrames A fn b s = Inl x
    | Inr (Some k, s') \<Rightarrow> ReadRegFrames A fn b s = Inr (Some k, Bytes_empty, s')
    | Inr (None, s') \<Rightarrow> if e = Wait then \<exists>b'. ReadRegFrames A fn b s = Inr (None, b', s') \<and> bytes_ok b' \<and> content b' = rest
        else ReadRegFrames A fn b s = Inr (Some PARSER_ERR_OTHER, Bytes_empty, s')"
  by (rule ReadRegFrames_split [OF assms])

theorem ReadRegFrames_reads_frames_witness:
  "\<exists>b'. ReadRegFrames demo_alloc (\<lambda>q st s. Inr (s @ [q])) (piece ''abc'') [] = Inr (None, b', []) \<and> content b' = ''abc''"
proof -
  have b: "bytes_ok (piece ''abc'')" "split_frames INT32_MAX (content (piece ''abc'')) = ([], ''abc'', Wait)"
    by (simp_all add: piece_laws split_short)
  have A: "all_avail demo_alloc" by (simp add: all_avail_def demo_alloc_def)
  from ReadRegFrames_reads_frames [OF b(1) A b(2), of "\<lambda>q st s. Inr (s @ [q])" "[]"] show ?thesis by auto
qed

text \<open>
  C31: the way of an answer, from the message to the caller. The answer to a pull, written as a frame by the
  server and read by the client on the session in use, runs the callback of the pull that waits longest, with
  the code and exactly the instances of the message.
\<close>

theorem pull_reply_end_to_end:
  assumes "RegPullRes_ok v" and "all_avail A" and "length (pb_layout (RegPullRes_fields v)) \<le> INT32_MAX"
    and "EncodeRegFrame A PROTO_REG_PULL_RES (RegPullRes_serialize A v) = Inr b"
    and "iSessionId c = sid" and "vPendingPulls c = p # ps" and "p_async p" and "p_id p \<notin> finished c" and "now < iDeadlineMilliseconds p"
  shows "\<exists>b' c'. ReadRegFrames A (OnFrame A now sid) b c = Inr (None, b', c') \<and> content b' = []
    \<and> results c' = results c @ [(p_id p, sint (pullres_iCode v), map instance_of (pullres_vList v))]
    \<and> vPendingPulls c' = ps"
proof -
  let ?d = "pb_layout (RegPullRes_fields v)"
  have b: "bytes_ok b" "content b = pb_field 9 ?d"
    using EncodeRegFrame_content [OF assms(4) RegPullRes_client.ser_law [OF assms(1)] assms(3)] by simp_all
  have sp: "split_frames INT32_MAX (content b) = ([(9, ?d)], [], Wait)"
    using split_field [of 9 ?d INT32_MAX "[]"] assms(3) b(2) by simp
  note bs = body_stream_ok [OF assms(3,2)]
  obtain s' where "RegPullRes_deserialize A \<lparr>pullres_iCode = - 1, pullres_vList = []\<rparr> (body_stream A ?d) = (None, v, s')"
    using RegPullRes_client.deser_law [OF assms(1,2) bs] by blast
  then have "OnFrame A now sid 9 (body_stream A ?d) c = Inr (OnPullRes now (sint (pullres_iCode v)) (map instance_of (pullres_vList v)) c)"
    using assms(5) by (simp add: OnFrame_def)
  then have h: "handle_frames A (OnFrame A now sid) [(9, ?d)] c = Inr (None, OnPullRes now (sint (pullres_iCode v)) (map instance_of (pullres_vList v)) c)"
    by simp
  obtain b' where "ReadRegFrames A (OnFrame A now sid) b c = Inr (None, b', OnPullRes now (sint (pullres_iCode v)) (map instance_of (pullres_vList v)) c)" "content b' = []"
    using ReadRegFrames_split [OF b(1) assms(2) sp, of "OnFrame A now sid" c] h by auto
  moreover have "results (OnPullRes now (sint (pullres_iCode v)) (map instance_of (pullres_vList v)) c)
      = results c @ [(p_id p, sint (pullres_iCode v), map instance_of (pullres_vList v))]"
    "vPendingPulls (OnPullRes now (sint (pullres_iCode v)) (map instance_of (pullres_vList v)) c) = ps"
    using assms(6-9) by (simp_all add: OnPullRes_def FinishPull_def due_def Let_def)
  ultimately show ?thesis by blast
qed

theorem pull_reply_end_to_end_witness:
  "\<exists>b b' c'. EncodeRegFrame demo_alloc PROTO_REG_PULL_RES (RegPullRes_serialize demo_alloc \<lparr>pullres_iCode = 0, pullres_vList = []\<rparr>) = Inr b
    \<and> ReadRegFrames demo_alloc (OnFrame demo_alloc 3 7) b (rc_run demo_alloc rc_events RegistryClient) = Inr (None, b', c')
    \<and> results c' = [(0, 0, [])]"
proof -
  let ?v = "\<lparr>pullres_iCode = 0, pullres_vList = []\<rparr>"
  let ?c = "rc_run demo_alloc rc_events RegistryClient"
  have v: "RegPullRes_ok ?v" "all_avail demo_alloc" "length (pb_layout (RegPullRes_fields ?v)) \<le> INT32_MAX"
    by (simp_all add: RegPullRes_ok_def all_avail_def demo_alloc_def RegPullRes_fields_def pb_layout_def pb_field_def)
  have "\<exists>b. EncodeRegFrame demo_alloc PROTO_REG_PULL_RES (RegPullRes_serialize demo_alloc ?v) = Inr b"
    by (simp add: EncodeRegFrame_def RegPullRes_serialize_def w_then_def WritePb_vector_def WritePb_word_def
        WritePbRaw_def put_word_def s_append_def Stream_empty_def Append_ext_def demo_alloc_def
        Grow_def grow_cap.simps malloc_def Bytes_empty_def memcpy_def sint_neg_u32 content_def Let_def)
  then obtain b where b: "EncodeRegFrame demo_alloc PROTO_REG_PULL_RES (RegPullRes_serialize demo_alloc ?v) = Inr b" ..
  obtain p where p: "vPendingPulls ?c = [p]" "p_async p" "p_id p = 0" "3 < iDeadlineMilliseconds p" "p_id p \<notin> finished ?c"
    by (simp add: rc_run_defs)
  from pull_reply_end_to_end [OF v b rc_events_run(3) p(1,2,5,4)] b p(3) rc_events_run(2) [of demo_alloc] show ?thesis by auto
qed

end
