(* ===== verification/OI_Coro.thy ===== *)
theory OI_Coro
  imports OI_Prelude
begin

text \<open>
  The coroutine runtime (cbaselib/base/inc/oi_coro.h, base/src/oi_coro.cpp): task numbers, the launch information
  a new task takes from its thread, the state of a task with its waiters and its reference count, and the ready
  queue of the single-threaded build with the loop that serves it.

  A coroutine handle, a closure and an exception object are numbers; a null one is \<open>None\<close>. The fields a task's
  mutex guards are changed by functions that stand for one critical section each; \<open>OI_Task\<close> interleaves them.
\<close>

section \<open>Task numbers and launch information\<close>

datatype Gate = GateIdle | GateReady | GateWaiting

text \<open>The counter of task numbers wraps; zero is skipped.\<close>

definition AllocTaskUid :: "u64 \<Rightarrow> u64 \<times> u64" where
  "AllocTaskUid g = (if g = 0 then (g + 1, g + 2) else (g, g + 1))"

lemma AllocTaskUid_nonzero: "AllocTaskUid g = (t, g') \<Longrightarrow> t \<noteq> 0 \<and> g' = t + 1"
  by (auto simp: AllocTaskUid_def split: if_splits)

record TaskLaunch =
  iToken :: u64
  launch_bDetached :: bool
  bPost :: bool

definition TaskLaunch_new :: TaskLaunch where
  "TaskLaunch_new = \<lparr>iToken = 0, launch_bDetached = False, bPost = False\<rparr>"

text \<open>The variables of a thread.\<close>

record coro_thread =
  g_stLaunch :: TaskLaunch
  g_iResumeDepth :: int

definition InTaskResume :: "coro_thread \<Rightarrow> bool" where
  "InTaskResume th \<longleftrightarrow> 0 < g_iResumeDepth th"

definition TakeTaskLaunch :: "coro_thread \<Rightarrow> TaskLaunch \<times> coro_thread" where
  "TakeTaskLaunch th = (g_stLaunch th, th\<lparr>g_stLaunch := TaskLaunch_new\<rparr>)"

text \<open>\<open>TaskLaunchScope\<close> lives for the call: it sets the launch information and puts the previous one back.\<close>

definition InvokeTask :: "TaskLaunch \<Rightarrow> (coro_thread \<Rightarrow> 'a \<times> coro_thread) \<Rightarrow> coro_thread \<Rightarrow> 'a \<times> coro_thread" where
  "InvokeTask l fn th = (let previous = g_stLaunch th; (a, th') = fn (th\<lparr>g_stLaunch := l\<rparr>) in (a, th'\<lparr>g_stLaunch := previous\<rparr>))"

section \<open>The state of a task\<close>

text \<open>\<open>pWaiters\<close> is the linked list of the waiters, its head first; a waiter is the handle it wakes.\<close>

record 'r TaskState =
  pCallable :: "nat option"
  stError :: "nat option"
  iTaskId :: u64
  pWaiters :: "nat list"
  iReferences :: nat
  bReady :: bool
  bInlineStart :: bool
  bDetached :: bool
  bObserved :: bool
  bErrorReported :: bool
  stResult :: "'r option"

definition TaskState_new :: "coro_thread \<Rightarrow> 'r TaskState \<times> coro_thread" where
  "TaskState_new th = (let (l, th') = TakeTaskLaunch th in
     (\<lparr>pCallable = None, stError = None, iTaskId = iToken l, pWaiters = [], iReferences = 2, bReady = False,
       bInlineStart = (\<not> bPost l \<and> InTaskResume th'), bDetached = launch_bDetached l, bObserved = False, bErrorReported = False,
       stResult = None\<rparr>, th'))"

text \<open>Where \<open>initial_suspend\<close> leaves a new task: it runs on in place, or its handle is scheduled.\<close>

definition initial_suspend :: "nat \<Rightarrow> 'r TaskState \<Rightarrow> nat list" where
  "initial_suspend h t = (if bInlineStart t then [] else [h])"

type_synonym report = "u64 \<times> nat option"

definition ReportError :: "'r TaskState \<Rightarrow> report list \<times> 'r TaskState" where
  "ReportError t = (if bErrorReported t then ([], t) else ([(iTaskId t, stError t)], t\<lparr>bErrorReported := True\<rparr>))"

text \<open>\<open>unhandled_exception\<close> stores the exception and then looks at \<open>bDetached\<close>; \<open>return_value\<close> stores the result.\<close>

definition store_exception :: "nat \<Rightarrow> 'r TaskState \<Rightarrow> 'r TaskState" where
  "store_exception e t = t\<lparr>stError := Some e\<rparr>"

definition report_detached :: "'r TaskState \<Rightarrow> report list \<times> 'r TaskState" where
  "report_detached t = (if bDetached t then ReportError t else ([], t))"

definition return_value :: "'r \<Rightarrow> 'r TaskState \<Rightarrow> 'r TaskState" where
  "return_value v t = t\<lparr>stResult := Some v\<rparr>"

text \<open>The critical section of \<open>final_suspend\<close>: the waiters it takes and the task.\<close>

definition final_take :: "'r TaskState \<Rightarrow> nat list \<times> 'r TaskState" where
  "final_take t = (pWaiters t, t\<lparr>bReady := True, pWaiters := []\<rparr>)"

text \<open>Giving up a reference: what is reported, whether the frame is destroyed, and the task.\<close>

definition Task_Release :: "'r TaskState \<Rightarrow> report list \<times> bool \<times> 'r TaskState" where
  "Task_Release t =
     (let u = t\<lparr>iReferences := iReferences t - 1\<rparr> in
      if iReferences t = 1 then
        (let (rs, v) = (if stError u \<noteq> None \<and> \<not> bObserved u then ReportError u else ([], u)) in (rs, True, v))
      else ([], False, u))"

definition add_reference :: "'r TaskState \<Rightarrow> 'r TaskState" where
  "add_reference t = t\<lparr>iReferences := iReferences t + 1\<rparr>"

text \<open>Marking a task as independent; \<open>g\<close> is the counter of task numbers.\<close>

definition BasicTask_Start :: "nat option \<Rightarrow> u64 \<Rightarrow> u64 \<Rightarrow> 'r TaskState \<Rightarrow> report list \<times> u64 \<times> 'r TaskState" where
  "BasicTask_Start callable token g t =
     (let (tid, g') = (if iTaskId t \<noteq> 0 then (iTaskId t, g) else if token \<noteq> 0 then (token, g) else AllocTaskUid g);
          u = t\<lparr>iTaskId := tid, pCallable := (if pCallable t = None then callable else pCallable t)\<rparr>;
          (rs, v) = (if \<not> bDetached u \<and> bReady u \<and> stError u \<noteq> None then ReportError (u\<lparr>bDetached := True\<rparr>) else ([], u\<lparr>bDetached := True\<rparr>))
      in (rs, g', v))"

text \<open>An awaiter whose parent has the handle \<open>h\<close>; the flag of \<open>await_suspend\<close> says whether it suspends.\<close>

definition Awaiter_ready :: "'r TaskState \<Rightarrow> bool" where
  "Awaiter_ready t = bReady t"

definition Awaiter_suspend :: "nat \<Rightarrow> 'r TaskState \<Rightarrow> bool \<times> 'r TaskState" where
  "Awaiter_suspend h t = (if bReady t then (False, t) else (True, t\<lparr>pWaiters := h # pWaiters t\<rparr>))"

datatype 'r outcome = Threw nat | NoResult | Returned 'r

definition Awaiter_resume :: "'r TaskState \<Rightarrow> 'r outcome \<times> 'r TaskState" where
  "Awaiter_resume t =
     (case stError t of
        Some e \<Rightarrow> (Threw e, t\<lparr>bObserved := True\<rparr>)
      | None \<Rightarrow> (case stResult t of None \<Rightarrow> (NoResult, t) | Some v \<Rightarrow> (Returned v, t)))"

section \<open>Starting tasks\<close>

text \<open>
  \<open>StartTask\<close>: \<open>body\<close> is the call of the closure, which makes the task (its promise first takes the launch
  information) and may make more tasks before it returns.
\<close>

definition Coro_StartTask :: "nat \<Rightarrow> (coro_thread \<Rightarrow> coro_thread) \<Rightarrow> u64 \<Rightarrow> coro_thread \<Rightarrow> report list \<times> u64 \<times> 'r TaskState \<times> coro_thread" where
  "Coro_StartTask closure body g th =
     (let (token, g1) = AllocTaskUid g;
          (t, th') = InvokeTask \<lparr>iToken = token, launch_bDetached = True, bPost = True\<rparr>
            (\<lambda>th. let (t, th') = TaskState_new th in (t, body th')) th;
          (rs, g2, t') = BasicTask_Start (Some closure) token g1 t
      in (rs, g2, t', th'))"

text \<open>
  A task from \<open>StartTask\<close> is queued and never runs on the stack of its creator, whatever thread this is; its number is not zero, it
  keeps its closure, it is independent, and the thread's launch information is what it was.
\<close>

lemma Coro_StartTask_queued:
  assumes "Coro_StartTask closure body g th = (rs, g', t, th')"
  shows "initial_suspend h t = [h] \<and> iTaskId t \<noteq> 0 \<and> iTaskId t = fst (AllocTaskUid g) \<and> g' = iTaskId t + 1 \<and> pCallable t = Some closure \<and> bDetached t \<and> rs = []
    \<and> iReferences t = 2 \<and> g_stLaunch th' = g_stLaunch th"
proof -
  obtain token g1 where a: "AllocTaskUid g = (token, g1)" by fastforce
  with AllocTaskUid_nonzero have "token \<noteq> 0" "g1 = token + 1" by auto
  with a assms show ?thesis
    by (auto simp: Coro_StartTask_def InvokeTask_def TaskState_new_def TakeTaskLaunch_def BasicTask_Start_def initial_suspend_def)
qed

section \<open>The single-threaded scheduler\<close>

text \<open>
  Resuming a handle is a parameter: the handles it posts and the rest of the program, \<open>done\<close> tells the finished
  coroutines.
\<close>

definition StScheduler_Post :: "nat option \<Rightarrow> nat list \<Rightarrow> nat list" where
  "StScheduler_Post h q = (case h of None \<Rightarrow> q | Some c \<Rightarrow> q @ [c])"

fun poll_batch :: "(nat \<Rightarrow> 'w \<Rightarrow> nat list \<times> 'w) \<Rightarrow> ('w \<Rightarrow> nat \<Rightarrow> bool) \<Rightarrow> nat list \<Rightarrow> nat list \<Rightarrow> 'w \<Rightarrow> bool \<Rightarrow> nat list \<times> 'w \<times> bool" where
  "poll_batch resume done [] q w bRan = (q, w, bRan)"
| "poll_batch resume done (h # hs) q w bRan =
     (if done w h then poll_batch resume done hs q w bRan
      else let (ps, w') = resume h w in poll_batch resume done hs (q @ ps) w' True)"

definition StScheduler_Poll :: "(nat \<Rightarrow> 'w \<Rightarrow> nat list \<times> 'w) \<Rightarrow> ('w \<Rightarrow> nat \<Rightarrow> bool) \<Rightarrow> nat list \<Rightarrow> 'w \<Rightarrow> nat list \<times> 'w \<times> bool" where
  "StScheduler_Poll resume done q w = poll_batch resume done q [] w False"

definition StScheduler_Queued :: "nat list \<Rightarrow> bool" where
  "StScheduler_Queued q \<longleftrightarrow> q \<noteq> []"

text \<open>One round of the main loop; the poll (its wait in milliseconds first) posts handles too.\<close>

definition PumpOnce :: "(nat \<Rightarrow> 'w \<Rightarrow> nat list \<times> 'w) \<Rightarrow> ('w \<Rightarrow> nat \<Rightarrow> bool) \<Rightarrow> (nat \<Rightarrow> 'w \<Rightarrow> nat list \<times> 'w) \<Rightarrow> nat list \<Rightarrow> 'w \<Rightarrow> nat list \<times> 'w" where
  "PumpOnce resume done poll q w =
     (let (q1, w1, _) = StScheduler_Poll resume done q w; (ps, w2) = poll (if StScheduler_Queued q1 then 0 else 1000) w1
      in (q1 @ ps, w2))"

text \<open>
  A poll resumes what was queued when it began, in order, and skips what has finished; what these posted is
  the queue afterwards, so a coroutine that yields cannot keep the loop from the network.
\<close>

lemma poll_batch_runs:
  assumes "\<And>h w. resume h w = (posts h, w @ [h])" "\<And>w h. done w h = d h"
  shows "poll_batch resume done hs q w bRan =
    (q @ concat (map posts (filter (\<lambda>h. \<not> d h) hs)), w @ filter (\<lambda>h. \<not> d h) hs, bRan \<or> (\<exists>h \<in> set hs. \<not> d h))"
  using assms by (induction hs arbitrary: q w bRan) auto

lemma PumpOnce_round:
  assumes "\<And>h w. resume h w = (posts h, w @ [h])" "\<And>w h. done w h = d h" "\<And>n w. poll n w = (fresh n, w)"
  shows "PumpOnce resume done poll q w =
    (let next = concat (map posts (filter (\<lambda>h. \<not> d h) q)) in (next @ fresh (if next = [] then 1000 else 0), w @ filter (\<lambda>h. \<not> d h) q))"
  by (simp only: PumpOnce_def StScheduler_Poll_def poll_batch_runs [OF assms(1,2)] assms(3) StScheduler_Queued_def Let_def append_Nil prod.case
      if_not_P if_P) auto

section \<open>Sleeping\<close>

datatype sleep_action = PostNow nat | ArmWakeLater nat nat

definition SleepMs_suspend :: "nat \<Rightarrow> int \<Rightarrow> sleep_action" where
  "SleepMs_suspend h ms = (if ms \<le> 0 then PostNow h else ArmWakeLater h (nat ms))"

definition yield_MS :: "int \<Rightarrow> exc + int" where
  "yield_MS ms = (if int INT32_MAX < ms then Inl OutOfRange else Inr (if ms \<le> 0 then 0 else ms))"

section \<open>Counting threads\<close>

text \<open>How many of a list of threads stand at a point of their program.\<close>

primrec at_pc :: "'a \<Rightarrow> 'a list \<Rightarrow> int" where
  "at_pc w [] = 0"
| "at_pc w (v # vs) = of_bool (v = w) + at_pc w vs"

lemma at_pc_nonneg [simp]: "0 \<le> at_pc w ws"
  by (induction ws) auto

lemma at_pc_update [simp]:
  "i < length ws \<Longrightarrow> at_pc w (ws[i := v]) = at_pc w ws + of_bool (v = w) - of_bool (ws ! i = w)"
  by (induction ws arbitrary: i) (auto simp: nth_Cons split: nat.splits)

lemma at_pc_zero_iff: "at_pc w ws = 0 \<longleftrightarrow> w \<notin> set ws"
  by (induction ws) (auto simp: add_nonneg_eq_0_iff)

lemma at_pc_pos: "i < length ws \<Longrightarrow> ws ! i = w \<Longrightarrow> 0 < at_pc w ws"
  by (metis at_pc_nonneg at_pc_zero_iff nth_mem order_le_less)

lemma at_pc_replicate [simp]: "at_pc w (replicate n v) = (if v = w then int n else 0)"
  by (induction n) auto

lemma at_pc_Nil_append [simp]: "at_pc w (ws @ [v]) = at_pc w ws + of_bool (v = w)"
  by (induction ws) auto

end
