(* ===== verification/OI_Pool.thy ===== *)
theory OI_Pool
  imports OI_Coro "HOL-Library.Multiset"
begin

text \<open>
  The thread pool that runs the coroutines (cbaselib/base/inc/oi_thread.h, base/src/oi_thread.cpp), in the
  multi-threaded build: the queue of coroutine handles, the workers that sleep on a condition variable, the
  registration of stop handlers, and the stop protocol between the poll thread (\<open>FinishStop\<close>), the main thread
  (\<open>MultiThreadStartWork\<close>) and the workers. The operations are functions on the pool; the threads interleave
  in a step relation in which a mutex is held from the check of a condition to the wait on it.

  Shown: every posted coroutine is resumed at most once, in the order of posting; as long as a worker
  sleeps, each queued coroutine has a worker that is awake or a signal on its way; after a stop no thread is
  left asleep, and all of them end.
\<close>

section \<open>The pool\<close>

text \<open>A coroutine handle is a number, the null handle \<open>None\<close>; a stop handler (a function pointer) likewise.\<close>

record ThreadPool =
  m_bStopRequested :: bool
  m_vStopHandlers :: "nat list"
  vCoroutines :: "nat list"
  iIdleThreadCount :: int
  iThreadCount :: int
  bStop :: bool
  iExitCode :: int

definition ThreadPool_new :: ThreadPool where
  "ThreadPool_new = \<lparr>m_bStopRequested = False, m_vStopHandlers = [], vCoroutines = [], iIdleThreadCount = 0, iThreadCount = 0,
     bStop = False, iExitCode = 0\<rparr>"

text \<open>The configuration file is read through a library; \<open>cfg\<close> is what it holds as an integer under a key.\<close>

definition ThreadPool_Init :: "(string \<Rightarrow> int option) \<Rightarrow> ThreadPool \<Rightarrow> bool \<times> ThreadPool" where
  "ThreadPool_Init cfg p =
     (case (case cfg ''ThreadPool.threadcount'' of Some n \<Rightarrow> Some n | None \<Rightarrow> cfg ''ThreadPool.normal'') of
        None \<Rightarrow> (False, p)
      | Some n \<Rightarrow> (0 < n, p\<lparr>iThreadCount := n\<rparr>))"

text \<open>The first half of a post, under the mutex; the flag says whether a signal follows.\<close>

definition PostCoroutine :: "nat option \<Rightarrow> ThreadPool \<Rightarrow> bool \<times> ThreadPool" where
  "PostCoroutine h p =
     (case h of None \<Rightarrow> (False, p)
      | Some c \<Rightarrow> (0 < iIdleThreadCount p, p\<lparr>vCoroutines := vCoroutines p @ [c]\<rparr>))"

definition AddStopHandler :: "nat option \<Rightarrow> ThreadPool \<Rightarrow> bool \<times> ThreadPool" where
  "AddStopHandler f p =
     (case f of None \<Rightarrow> (False, p)
      | Some g \<Rightarrow>
          if m_bStopRequested p then (False, p)
          else if g \<in> set (m_vStopHandlers p) then (True, p)
          else (True, p\<lparr>m_vStopHandlers := m_vStopHandlers p @ [g]\<rparr>))"

text \<open>The flag says whether \<open>FinishStop\<close> is passed to the poll loop.\<close>

definition RequestStop :: "int \<Rightarrow> ThreadPool \<Rightarrow> bool \<times> ThreadPool" where
  "RequestStop c p = (if m_bStopRequested p then (False, p) else (True, p\<lparr>m_bStopRequested := True, iExitCode := c\<rparr>))"

text \<open>A handler is a parameter: its effect on the rest of the program and whether it threw.\<close>

fun run_stop_handlers :: "(nat \<Rightarrow> 'w \<Rightarrow> exc option \<times> 'w) \<Rightarrow> nat list \<Rightarrow> 'w \<Rightarrow> exc list \<times> 'w" where
  "run_stop_handlers fn [] w = ([], w)"
| "run_stop_handlers fn (h # hs) w =
     (let (e, w') = fn h w; (es, w'') = run_stop_handlers fn hs w' in ((case e of None \<Rightarrow> es | Some x \<Rightarrow> x # es), w''))"

text \<open>A handler that throws is reported and the rest still run, in the order of registration.\<close>

lemma run_stop_handlers_all:
  "run_stop_handlers (\<lambda>h log. (err h, log @ [h])) hs log = (List.map_filter err hs, log @ hs)"
  by (induction hs arbitrary: log) (auto simp: List.map_filter_simps split: option.splits)

definition stop_store :: "ThreadPool \<Rightarrow> ThreadPool" where
  "stop_store p = p\<lparr>bStop := True\<rparr>"

section \<open>A worker\<close>

text \<open>
  Where a worker stands: outside the mutex before its next round, inside it having decided to wait, asleep on
  the condition variable, woken but not yet holding the mutex again, resuming a coroutine, returned.
\<close>

datatype worker_pc = WOut | WDecided | WAsleep | WNotified | WRunning nat | WExit

definition worker_test :: "ThreadPool \<Rightarrow> worker_pc \<times> ThreadPool" where
  "worker_test p =
     (if vCoroutines p = [] \<and> \<not> bStop p then (WDecided, p)
      else let q = p\<lparr>iIdleThreadCount := iIdleThreadCount p - 1\<rparr> in
        if bStop q then (WExit, q)
        else (WRunning (hd (vCoroutines q)), q\<lparr>vCoroutines := tl (vCoroutines q)\<rparr>))"

definition worker_enter :: "ThreadPool \<Rightarrow> worker_pc \<times> ThreadPool" where
  "worker_enter p = worker_test (p\<lparr>iIdleThreadCount := iIdleThreadCount p + 1\<rparr>)"

section \<open>The threads together\<close>

text \<open>
  The poll thread: no stop asked for, \<open>FinishStop\<close> passed to it, the flag stored, the main thread signalled,
  the workers' mutex taken and released, the workers' condition broadcast. The main thread: before its check,
  inside \<open>stStopMutex\<close> having decided to wait, asleep, woken, past the wait, past the handshake, joining, done.
\<close>

datatype finish_pc = FNot | FPosted | FStored | FSignalled | FShook | FDone
datatype main_pc = MCheck | MDecided | MAsleep | MNotified | MStopped | MShook | MJoin | MDone

record pool_threads =
  pool :: ThreadPool
  mutex_owner :: "nat option"
  workers :: "worker_pc list"
  finisher :: finish_pc
  mainer :: main_pc
  signals :: nat
  posted :: "nat list"
  taken :: "nat list"
  finished :: "nat list"
  handlers_run :: "nat list"

definition settle :: "nat \<Rightarrow> worker_pc \<Rightarrow> ThreadPool \<Rightarrow> pool_threads \<Rightarrow> pool_threads" where
  "settle i w p s = s\<lparr>pool := p, workers := (workers s)[i := w], mutex_owner := (if w = WDecided then Some i else None),
     taken := taken s @ (case w of WRunning h \<Rightarrow> [h] | _ \<Rightarrow> [])\<rparr>"

definition Broadcast :: "worker_pc list \<Rightarrow> worker_pc list" where
  "Broadcast = map (\<lambda>w. if w = WAsleep then WNotified else w)"

text \<open>The steps of the workers, of \<open>FinishStop\<close> and of the main thread.\<close>

inductive work_step :: "pool_threads \<Rightarrow> pool_threads \<Rightarrow> bool" where
  enter: "i < length (workers s) \<Longrightarrow> workers s ! i = WOut \<Longrightarrow> mutex_owner s = None \<Longrightarrow> worker_enter (pool s) = (w, p) \<Longrightarrow>
    work_step s (settle i w p s)"
| again: "i < length (workers s) \<Longrightarrow> workers s ! i = WNotified \<Longrightarrow> mutex_owner s = None \<Longrightarrow> worker_test (pool s) = (w, p) \<Longrightarrow>
    work_step s (settle i w p s)"
| fall_asleep: "i < length (workers s) \<Longrightarrow> workers s ! i = WDecided \<Longrightarrow>
    work_step s (s\<lparr>workers := (workers s)[i := WAsleep], mutex_owner := None\<rparr>)"
| resumed: "i < length (workers s) \<Longrightarrow> workers s ! i = WRunning h \<Longrightarrow>
    work_step s (s\<lparr>workers := (workers s)[i := WOut], finished := finished s @ [h]\<rparr>)"
| store: "finisher s = FPosted \<Longrightarrow> mainer s \<noteq> MDecided \<Longrightarrow>
    work_step s (s\<lparr>pool := stop_store (pool s), finisher := FStored, handlers_run := handlers_run s @ m_vStopHandlers (pool s)\<rparr>)"
| signal_main: "finisher s = FStored \<Longrightarrow>
    work_step s (s\<lparr>finisher := FSignalled, mainer := (if mainer s = MAsleep then MNotified else mainer s)\<rparr>)"
| shake: "finisher s = FSignalled \<Longrightarrow> mutex_owner s = None \<Longrightarrow> work_step s (s\<lparr>finisher := FShook\<rparr>)"
| broadcast: "finisher s = FShook \<Longrightarrow> work_step s (s\<lparr>finisher := FDone, workers := Broadcast (workers s)\<rparr>)"
| main_check: "mainer s \<in> {MCheck, MNotified} \<Longrightarrow> work_step s (s\<lparr>mainer := (if bStop (pool s) then MStopped else MDecided)\<rparr>)"
| main_wait: "mainer s = MDecided \<Longrightarrow> work_step s (s\<lparr>mainer := MAsleep\<rparr>)"
| main_shake: "mainer s = MStopped \<Longrightarrow> mutex_owner s = None \<Longrightarrow> work_step s (s\<lparr>mainer := MShook\<rparr>)"
| main_broadcast: "mainer s = MShook \<Longrightarrow> work_step s (s\<lparr>mainer := MJoin, workers := Broadcast (workers s)\<rparr>)"
| main_join: "mainer s = MJoin \<Longrightarrow> set (workers s) \<subseteq> {WExit} \<Longrightarrow> work_step s (s\<lparr>mainer := MDone\<rparr>)"

text \<open>
  The steps of everybody else: posting a coroutine and signalling afterwards (the signal wakes one sleeper, if
  there is one), a spurious wakeup, the registration of a stop handler, the request to stop.
\<close>

inductive env_step :: "pool_threads \<Rightarrow> pool_threads \<Rightarrow> bool" where
  post: "mutex_owner s = None \<Longrightarrow> PostCoroutine h (pool s) = (b, p) \<Longrightarrow>
    env_step s (s\<lparr>pool := p, signals := signals s + of_bool b, posted := posted s @ (case h of None \<Rightarrow> [] | Some c \<Rightarrow> [c])\<rparr>)"
| signal_one: "0 < signals s \<Longrightarrow> i < length (workers s) \<Longrightarrow> workers s ! i = WAsleep \<Longrightarrow>
    env_step s (s\<lparr>signals := signals s - 1, workers := (workers s)[i := WNotified]\<rparr>)"
| signal_none: "0 < signals s \<Longrightarrow> WAsleep \<notin> set (workers s) \<Longrightarrow> env_step s (s\<lparr>signals := signals s - 1\<rparr>)"
| spurious: "i < length (workers s) \<Longrightarrow> workers s ! i = WAsleep \<Longrightarrow> env_step s (s\<lparr>workers := (workers s)[i := WNotified]\<rparr>)"
| spurious_main: "mainer s = MAsleep \<Longrightarrow> env_step s (s\<lparr>mainer := MNotified\<rparr>)"
| add_handler: "AddStopHandler f (pool s) = (b, p) \<Longrightarrow> env_step s (s\<lparr>pool := p\<rparr>)"
| request: "RequestStop c (pool s) = (b, p) \<Longrightarrow> env_step s (s\<lparr>pool := p, finisher := (if b then FPosted else finisher s)\<rparr>)"

definition pool_start :: "ThreadPool \<Rightarrow> pool_threads" where
  "pool_start p = \<lparr>pool = p, mutex_owner = None, workers = replicate (nat (iThreadCount p)) WOut, finisher = FNot, mainer = MCheck,
     signals = 0, posted = [], taken = [], finished = [], handlers_run = []\<rparr>"

inductive pool_reach :: "(string \<Rightarrow> int option) \<Rightarrow> pool_threads \<Rightarrow> bool" for cfg where
  start: "ThreadPool_Init cfg ThreadPool_new = (True, p) \<Longrightarrow> pool_reach cfg (pool_start p)"
| work: "pool_reach cfg s \<Longrightarrow> work_step s s' \<Longrightarrow> pool_reach cfg s'"
| env: "pool_reach cfg s \<Longrightarrow> env_step s s' \<Longrightarrow> pool_reach cfg s'"

section \<open>Counting workers\<close>

lemma at_pc_Broadcast [simp]:
  "at_pc w (Broadcast ws) = (if w = WAsleep then 0 else if w = WNotified then at_pc w ws + at_pc WAsleep ws else at_pc w ws)"
  by (induction ws) (auto simp: Broadcast_def)

lemma Broadcast_nth [simp]: "i < length ws \<Longrightarrow> Broadcast ws ! i = (if ws ! i = WAsleep then WNotified else ws ! i)"
  by (simp add: Broadcast_def)

lemma length_Broadcast [simp]: "length (Broadcast ws) = length ws"
  by (simp add: Broadcast_def)

fun running :: "worker_pc list \<Rightarrow> nat list" where
  "running [] = []"
| "running (WRunning h # ws) = h # running ws"
| "running (w # ws) = running ws"

lemma running_update:
  "i < length ws \<Longrightarrow> mset (running (ws[i := v])) + (case ws ! i of WRunning h \<Rightarrow> {#h#} | _ \<Rightarrow> {#}) = mset (running ws) + (case v of WRunning h \<Rightarrow> {#h#} | _ \<Rightarrow> {#})"
proof (induction ws arbitrary: i rule: running.induct)
qed (auto simp: nth_Cons split: nat.splits worker_pc.splits)

lemma running_Broadcast [simp]: "running (Broadcast ws) = running ws"
  by (induction ws rule: running.induct) (auto simp: Broadcast_def)

section \<open>What the threads keep\<close>

text \<open>Who holds the mutex across steps is the worker that decided to wait; the idle count is exact.\<close>

definition mutex_ok :: "pool_threads \<Rightarrow> bool" where
  "mutex_ok s \<longleftrightarrow> at_pc WDecided (workers s) = of_bool (mutex_owner s \<noteq> None)
     \<and> iIdleThreadCount (pool s) = at_pc WDecided (workers s) + at_pc WAsleep (workers s) + at_pc WNotified (workers s)
     \<and> (mutex_owner s \<noteq> None \<longrightarrow> vCoroutines (pool s) = [])"

text \<open>No wakeup is lost: while a worker sleeps, each queued coroutine has a woken worker or a coming signal.\<close>

definition wake_ok :: "pool_threads \<Rightarrow> bool" where
  "wake_ok s \<longleftrightarrow> \<not> bStop (pool s) \<and> 0 < at_pc WAsleep (workers s) \<longrightarrow>
     int (length (vCoroutines (pool s))) \<le> at_pc WNotified (workers s) + int (signals s)"

text \<open>The queue is first in, first out, and nothing is taken twice.\<close>

definition order_ok :: "pool_threads \<Rightarrow> bool" where
  "order_ok s \<longleftrightarrow> posted s = taken s @ vCoroutines (pool s) \<and> mset (taken s) = mset (finished s) + mset (running (workers s))"

text \<open>What the stop protocol has reached at each point of the poll thread and of the main thread.\<close>

definition shaken :: "pool_threads \<Rightarrow> bool" where
  "shaken s \<longleftrightarrow> finisher s \<in> {FShook, FDone} \<or> mainer s \<in> {MShook, MJoin, MDone}"

definition roused :: "pool_threads \<Rightarrow> bool" where
  "roused s \<longleftrightarrow> finisher s = FDone \<or> mainer s \<in> {MJoin, MDone}"

definition stop_ok :: "pool_threads \<Rightarrow> bool" where
  "stop_ok s \<longleftrightarrow>
     (m_bStopRequested (pool s) \<longleftrightarrow> finisher s \<noteq> FNot) \<and> (bStop (pool s) \<longleftrightarrow> finisher s \<noteq> FNot \<and> finisher s \<noteq> FPosted)
     \<and> (finisher s = FStored \<longrightarrow> mainer s \<noteq> MDecided)
     \<and> (finisher s \<in> {FSignalled, FShook, FDone} \<longrightarrow> mainer s \<noteq> MDecided \<and> mainer s \<noteq> MAsleep)
     \<and> (mainer s \<in> {MStopped, MShook, MJoin, MDone} \<longrightarrow> bStop (pool s))"

definition rest_ok :: "pool_threads \<Rightarrow> bool" where
  "rest_ok s \<longleftrightarrow> (shaken s \<longrightarrow> bStop (pool s) \<and> at_pc WDecided (workers s) = 0) \<and> (roused s \<longrightarrow> shaken s \<and> at_pc WAsleep (workers s) = 0)
     \<and> (mainer s = MDone \<longrightarrow> set (workers s) \<subseteq> {WExit})"

definition handlers_ok :: "pool_threads \<Rightarrow> bool" where
  "handlers_ok s \<longleftrightarrow> distinct (m_vStopHandlers (pool s)) \<and> handlers_run s = (if bStop (pool s) then m_vStopHandlers (pool s) else [])"

lemmas worker_defs = worker_test_def worker_enter_def settle_def Let_def

lemma work_mutex: "work_step s s' \<Longrightarrow> mutex_ok s \<Longrightarrow> mutex_ok s'"
proof (induction rule: work_step.induct)
  case (fall_asleep i s)
  then show ?case using at_pc_pos [of i "workers s" WDecided] by (auto simp: mutex_ok_def of_bool_def split: if_splits)
qed (auto simp: mutex_ok_def worker_defs stop_store_def split: if_splits)

lemma env_mutex: "env_step s s' \<Longrightarrow> mutex_ok s \<Longrightarrow> mutex_ok s'"
  by (induction rule: env_step.induct)
    (auto simp: mutex_ok_def PostCoroutine_def AddStopHandler_def RequestStop_def split: option.splits if_splits)

lemma work_wake: "work_step s s' \<Longrightarrow> mutex_ok s \<Longrightarrow> wake_ok s \<Longrightarrow> wake_ok s'"
proof (induction rule: work_step.induct)
  case (fall_asleep i s)
  then show ?case using at_pc_pos [of i "workers s" WDecided] by (auto simp: wake_ok_def mutex_ok_def)
next
  case (again i s w p)
  then show ?case using at_pc_pos [of i "workers s" WNotified] by (auto simp: wake_ok_def worker_defs of_nat_diff Suc_le_eq split: if_splits)
qed (auto simp: wake_ok_def worker_defs stop_store_def split: if_splits)

lemma env_wake: "env_step s s' \<Longrightarrow> mutex_ok s \<Longrightarrow> wake_ok s \<Longrightarrow> wake_ok s'"
proof (induction rule: env_step.induct)
  case (post s h b p)
  then show ?case using at_pc_nonneg [of WNotified "workers s"] at_pc_nonneg [of WDecided "workers s"]
    by (cases "0 < at_pc WAsleep (workers s)") (auto simp: wake_ok_def mutex_ok_def PostCoroutine_def add_pos_nonneg split: option.splits)
next
  case (signal_none s)
  then show ?case using at_pc_zero_iff [of WAsleep "workers s"] by (simp add: wake_ok_def)
qed (auto simp: wake_ok_def AddStopHandler_def RequestStop_def at_pc_zero_iff of_nat_diff split: option.splits if_splits)

lemma work_order: "work_step s s' \<Longrightarrow> order_ok s \<Longrightarrow> order_ok s'"
proof (induction rule: work_step.induct)
  case (enter i s w p)
  then show ?case using running_update [of i "workers s" w] by (auto simp: order_ok_def worker_defs split: if_splits)
next
  case (again i s w p)
  then show ?case using running_update [of i "workers s" w] by (auto simp: order_ok_def worker_defs split: if_splits)
next
  case (fall_asleep i s)
  then show ?case using running_update [of i "workers s" WAsleep] by (auto simp: order_ok_def)
next
  case (resumed i s h)
  then show ?case using running_update [of i "workers s" WOut] by (auto simp: order_ok_def)
qed (auto simp: order_ok_def running_Broadcast stop_store_def)

lemma env_order: "env_step s s' \<Longrightarrow> order_ok s \<Longrightarrow> order_ok s'"
proof (induction rule: env_step.induct)
  case (signal_one s i)
  then show ?case using running_update [of i "workers s" WNotified] by (auto simp: order_ok_def)
next
  case (spurious i s)
  then show ?case using running_update [of i "workers s" WNotified] by (auto simp: order_ok_def)
qed (auto simp: order_ok_def PostCoroutine_def AddStopHandler_def RequestStop_def split: option.splits if_splits)

lemma set_Broadcast: "set ws \<subseteq> {WExit} \<Longrightarrow> Broadcast ws = ws"
  by (induction ws) (auto simp: Broadcast_def)

lemma set_exit_update: "set ws \<subseteq> {WExit} \<Longrightarrow> i < length ws \<Longrightarrow> ws ! i = WExit"
  by (metis nth_mem singletonD subsetD)

lemma work_stop: "work_step s s' \<Longrightarrow> stop_ok s \<Longrightarrow> stop_ok s'"
proof (induction rule: work_step.induct)
  case (signal_main s)
  then show ?case by (cases "mainer s") (simp_all add: stop_ok_def)
next
  case (main_check s)
  then show ?case by (cases "finisher s") (auto simp: stop_ok_def)
qed (simp_all add: stop_ok_def worker_defs stop_store_def split: if_splits, auto)

lemma env_stop: "env_step s s' \<Longrightarrow> stop_ok s \<Longrightarrow> stop_ok s'"
  by (induction rule: env_step.induct)
    (simp_all add: stop_ok_def PostCoroutine_def AddStopHandler_def RequestStop_def split: option.splits if_splits, auto)

lemma phase_cong:
  "finisher s' = finisher s \<Longrightarrow> mainer s' = mainer s \<Longrightarrow> shaken s' = shaken s \<and> roused s' = roused s"
  by (simp add: shaken_def roused_def)

lemma rest_one_worker:
  assumes "rest_ok s" "i < length (workers s)" "workers s ! i \<noteq> WExit" "finisher s' = finisher s" "mainer s' = mainer s" "bStop (pool s') = bStop (pool s)"
    and ws: "workers s' = (workers s)[i := w]"
    and w: "w = WDecided \<Longrightarrow> \<not> bStop (pool s)" "w = WAsleep \<Longrightarrow> workers s ! i = WDecided"
  shows "rest_ok s'"
proof -
  have "mainer s \<noteq> MDone" using assms set_exit_update [of "workers s" i] by (auto simp: rest_ok_def)
  moreover have "shaken s \<Longrightarrow> w \<noteq> WDecided \<and> w \<noteq> WAsleep \<and> workers s ! i \<noteq> WDecided"
    using assms at_pc_pos [of i "workers s" WDecided] by (auto simp: rest_ok_def)
  moreover have "roused s \<Longrightarrow> workers s ! i \<noteq> WAsleep" using assms at_pc_pos [of i "workers s" WAsleep] by (auto simp: rest_ok_def)
  ultimately show ?thesis using assms phase_cong [of s' s] by (auto simp: rest_ok_def)
qed

lemma work_rest: "work_step s s' \<Longrightarrow> mutex_ok s \<Longrightarrow> stop_ok s \<Longrightarrow> rest_ok s \<Longrightarrow> rest_ok s'"
proof (induction rule: work_step.induct)
  case (enter i s w p)
  then show ?case by - (rule rest_one_worker [of s i _ w]; auto simp: worker_defs split: if_splits)
next
  case (again i s w p)
  then show ?case by - (rule rest_one_worker [of s i _ w]; auto simp: worker_defs split: if_splits)
next
  case (fall_asleep i s)
  then show ?case by - (rule rest_one_worker [of s i _ WAsleep]; auto)
next
  case (resumed i s h)
  then show ?case by - (rule rest_one_worker [of s i _ WOut]; auto)
qed (auto simp: rest_ok_def mutex_ok_def stop_ok_def shaken_def roused_def stop_store_def set_Broadcast)

lemma env_rest: "env_step s s' \<Longrightarrow> stop_ok s \<Longrightarrow> rest_ok s \<Longrightarrow> rest_ok s'"
proof (induction rule: env_step.induct)
  case (signal_one s i)
  then show ?case by - (rule rest_one_worker [of s i _ WNotified]; auto)
next
  case (spurious i s)
  then show ?case by - (rule rest_one_worker [of s i _ WNotified]; auto)
qed (auto simp: rest_ok_def stop_ok_def shaken_def roused_def PostCoroutine_def AddStopHandler_def RequestStop_def split: option.splits if_splits)

lemma work_handlers: "work_step s s' \<Longrightarrow> stop_ok s \<Longrightarrow> handlers_ok s \<Longrightarrow> handlers_ok s'"
  by (induction rule: work_step.induct) (auto simp: handlers_ok_def stop_ok_def worker_defs stop_store_def split: if_splits)

lemma env_handlers: "env_step s s' \<Longrightarrow> stop_ok s \<Longrightarrow> handlers_ok s \<Longrightarrow> handlers_ok s'"
  by (induction rule: env_step.induct)
    (auto simp: handlers_ok_def stop_ok_def PostCoroutine_def AddStopHandler_def RequestStop_def split: option.splits if_splits)

definition pool_ok :: "pool_threads \<Rightarrow> bool" where
  "pool_ok s \<longleftrightarrow> mutex_ok s \<and> wake_ok s \<and> order_ok s \<and> stop_ok s \<and> rest_ok s \<and> handlers_ok s"

lemma running_replicate [simp]: "running (replicate n WOut) = []"
  by (induction n) auto

lemma pool_start_ok: "ThreadPool_Init cfg ThreadPool_new = (True, p) \<Longrightarrow> pool_ok (pool_start p)"
  by (auto simp: ThreadPool_Init_def ThreadPool_new_def pool_start_def pool_ok_def mutex_ok_def wake_ok_def order_ok_def stop_ok_def rest_ok_def shaken_def roused_def handlers_ok_def
      split: option.splits)

lemma pool_reach_ok: "pool_reach cfg s \<Longrightarrow> pool_ok s"
proof (induction rule: pool_reach.induct)
  case (start p)
  then show ?case by (rule pool_start_ok)
next
  case (work s s')
  then show ?case by (simp add: pool_ok_def work_mutex work_wake work_order work_stop work_rest work_handlers)
next
  case (env s s')
  then show ?case by (simp add: pool_ok_def env_mutex env_wake env_order env_stop env_rest env_handlers)
qed

section \<open>Properties\<close>

definition crew_ok :: "pool_threads \<Rightarrow> bool" where
  "crew_ok s \<longleftrightarrow> workers s \<noteq> [] \<and> (WExit \<in> set (workers s) \<longrightarrow> bStop (pool s))"

lemma Broadcast_simps [simp]: "Broadcast ws = [] \<longleftrightarrow> ws = []" "WExit \<in> set (Broadcast ws) \<longleftrightarrow> WExit \<in> set ws"
  by (auto simp: Broadcast_def)

lemma update_exit: "WExit \<in> set (ws[i := w]) \<Longrightarrow> WExit \<in> set ws \<or> w = WExit"
  by (auto dest: set_update_subset_insert [THEN subsetD])

lemma work_crew: "work_step s s' \<Longrightarrow> crew_ok s \<Longrightarrow> crew_ok s'"
  by (induction rule: work_step.induct) (auto simp: crew_ok_def worker_defs stop_store_def dest!: update_exit split: if_splits)

lemma env_crew: "env_step s s' \<Longrightarrow> crew_ok s \<Longrightarrow> crew_ok s'"
  by (induction rule: env_step.induct)
    (auto simp: crew_ok_def PostCoroutine_def AddStopHandler_def RequestStop_def dest!: update_exit split: option.splits if_splits)

lemma pool_reach_crew: "pool_reach cfg s \<Longrightarrow> crew_ok s"
proof (induction rule: pool_reach.induct)
  case (start p)
  then show ?case by (auto simp: crew_ok_def pool_start_def ThreadPool_Init_def split: option.splits)
qed (simp_all add: work_crew env_crew)

text \<open>
  C8: the pool loses no wakeup. While a worker sleeps and no stop is under way, there are at least as many woken
  workers and coming signals as queued coroutines; and a queued coroutine for which no signal is coming finds the
  mutex free and a worker that is neither asleep nor gone.
\<close>

theorem pool_no_lost_wakeup:
  assumes "pool_reach cfg s" "\<not> bStop (pool s)"
  shows "(WAsleep \<in> set (workers s) \<longrightarrow> int (length (vCoroutines (pool s))) \<le> at_pc WNotified (workers s) + int (signals s))
    \<and> (vCoroutines (pool s) \<noteq> [] \<and> signals s = 0 \<longrightarrow>
         mutex_owner s = None \<and> (\<exists>w \<in> set (workers s). w = WOut \<or> w = WNotified \<or> (\<exists>h. w = WRunning h)))"
proof (intro conjI impI)
  have ok: "mutex_ok s" "wake_ok s" "crew_ok s"
    using pool_reach_ok [OF assms(1)] pool_reach_crew [OF assms(1)] by (simp_all add: pool_ok_def)
  show wake: "int (length (vCoroutines (pool s))) \<le> at_pc WNotified (workers s) + int (signals s)" if "WAsleep \<in> set (workers s)"
    using that ok assms(2) by (metis at_pc_nonneg at_pc_zero_iff order_le_less wake_ok_def)
  assume "vCoroutines (pool s) \<noteq> [] \<and> signals s = 0"
  then have q: "vCoroutines (pool s) \<noteq> []" "signals s = 0" by auto
  show free: "mutex_owner s = None" using q ok by (auto simp: mutex_ok_def)
  show "\<exists>w \<in> set (workers s). w = WOut \<or> w = WNotified \<or> (\<exists>h. w = WRunning h)"
  proof (rule ccontr)
    assume none: "\<not> ?thesis"
    obtain w where w: "w \<in> set (workers s)" using ok(3) by (meson crew_ok_def list.set_sel(1))
    moreover have "w \<noteq> WDecided" using w ok(1) free at_pc_zero_iff [of WDecided "workers s"] by (auto simp: mutex_ok_def)
    moreover have "w \<noteq> WExit" using w ok(3) assms(2) by (auto simp: crew_ok_def)
    ultimately have "WAsleep \<in> set (workers s)" using none by (metis worker_pc.exhaust)
    moreover have "at_pc WNotified (workers s) = 0" using none by (auto simp: at_pc_zero_iff)
    ultimately show False using wake q by simp
  qed
qed

text \<open>
  Coroutines are taken from the pool in the order in which they were posted, and each posting is resumed at
  most once: what was posted is what was taken followed by what is queued, and what was taken is what the workers
  have finished and what they are resuming now.
\<close>

theorem pool_resumes_in_order:
  assumes "pool_reach cfg s"
  shows "posted s = taken s @ vCoroutines (pool s) \<and> mset (taken s) = mset (finished s) + mset (running (workers s))"
  using pool_reach_ok [OF assms] by (simp add: pool_ok_def order_ok_def)

subsection \<open>The end of the pool\<close>

fun worker_weight :: "worker_pc \<Rightarrow> nat" where
  "worker_weight WExit = 0"
| "worker_weight WOut = 1"
| "worker_weight WNotified = 1"
| "worker_weight WAsleep = 2"
| "worker_weight (WRunning h) = 2"
| "worker_weight WDecided = 3"

fun finish_weight :: "finish_pc \<Rightarrow> nat" where
  "finish_weight FDone = 0"
| "finish_weight FShook = 1"
| "finish_weight FSignalled = 2"
| "finish_weight _ = 3"

fun main_weight :: "main_pc \<Rightarrow> nat" where
  "main_weight MDone = 0"
| "main_weight MJoin = 1"
| "main_weight MShook = 2"
| "main_weight MStopped = 3"
| "main_weight MAsleep = 5"
| "main_weight MDecided = 6"
| "main_weight _ = 4"

definition stop_weight :: "pool_threads \<Rightarrow> nat" where
  "stop_weight s = (\<Sum>w\<leftarrow>workers s. worker_weight w) + finish_weight (finisher s) + main_weight (mainer s)"

lemma weight_update:
  "i < length ws \<Longrightarrow> (\<Sum>w\<leftarrow>ws[i := v]. worker_weight w) + worker_weight (ws ! i) = (\<Sum>w\<leftarrow>ws. worker_weight w) + worker_weight v"
  by (induction ws arbitrary: i) (auto simp: nth_Cons split: nat.splits)

lemma weight_Broadcast: "(\<Sum>w\<leftarrow>Broadcast ws. worker_weight w) \<le> (\<Sum>w\<leftarrow>ws. worker_weight w)"
  by (induction ws) (auto simp: Broadcast_def)

lemma work_weight: "work_step s s' \<Longrightarrow> stop_ok s \<Longrightarrow> bStop (pool s) \<Longrightarrow> stop_weight s' < stop_weight s"
proof (induction rule: work_step.induct)
  case (enter i s w p)
  then show ?case using weight_update [of i "workers s" w] by (auto simp: stop_weight_def worker_defs)
next
  case (again i s w p)
  then show ?case using weight_update [of i "workers s" w] by (auto simp: stop_weight_def worker_defs)
next
  case (fall_asleep i s)
  then show ?case using weight_update [of i "workers s" WAsleep] by (auto simp: stop_weight_def)
next
  case (resumed i s h)
  then show ?case using weight_update [of i "workers s" WOut] by (auto simp: stop_weight_def)
next
  case (broadcast s)
  then show ?case using weight_Broadcast [of "workers s"] by (simp add: stop_weight_def)
next
  case (main_broadcast s)
  then show ?case using weight_Broadcast [of "workers s"] by (simp add: stop_weight_def)
qed (auto simp: stop_weight_def stop_ok_def)

lemma env_weight: "env_step s s' \<Longrightarrow> stop_ok s \<Longrightarrow> bStop (pool s) \<Longrightarrow> stop_weight s' \<le> stop_weight s"
proof (induction rule: env_step.induct)
  case (signal_one s i)
  then show ?case using weight_update [of i "workers s" WNotified] by (auto simp: stop_weight_def)
next
  case (spurious i s)
  then show ?case using weight_update [of i "workers s" WNotified] by (auto simp: stop_weight_def)
qed (auto simp: stop_weight_def stop_ok_def RequestStop_def)

lemma pool_stuck:
  assumes "pool_ok s" "bStop (pool s)" and stuck: "\<And>s'. \<not> work_step s s'"
  shows "finisher s = FDone \<and> mainer s = MDone \<and> set (workers s) \<subseteq> {WExit}"
proof -
  have ok: "mutex_ok s" "stop_ok s" "rest_ok s" using assms(1) by (simp_all add: pool_ok_def)
  have no_decided: "WDecided \<notin> set (workers s)" using stuck fall_asleep by (metis in_set_conv_nth)
  then have free: "mutex_owner s = None" using ok(1) at_pc_zero_iff [of WDecided "workers s"] by (auto simp: mutex_ok_def split: if_splits)
  have fin: "finisher s = FDone"
    using stuck signal_main [of s] shake [of s] broadcast [of s] free ok(2) assms(2) by (cases "finisher s") (auto simp: stop_ok_def)
  then have asleep: "WAsleep \<notin> set (workers s)" using ok(3) by (auto simp: rest_ok_def roused_def at_pc_zero_iff)
  have out: "WOut \<notin> set (workers s)" using stuck enter [OF _ _ free prod.collapse [symmetric]] by (metis in_set_conv_nth)
  have notified: "WNotified \<notin> set (workers s)" using stuck again [OF _ _ free prod.collapse [symmetric]] by (metis in_set_conv_nth)
  have not_running: "WRunning h \<notin> set (workers s)" for h using stuck resumed by (metis in_set_conv_nth)
  have exits: "set (workers s) \<subseteq> {WExit}"
  proof
    fix w assume "w \<in> set (workers s)"
    with no_decided asleep out notified not_running show "w \<in> {WExit}" by (metis singletonI worker_pc.exhaust)
  qed
  have "mainer s = MDone"
    using stuck main_check [of s] main_wait [of s] main_shake [of s] main_broadcast [of s] main_join [of s] free exits fin ok(2)
    by (cases "mainer s") (auto simp: stop_ok_def)
  then show ?thesis using fin exits by simp
qed

text \<open>
  C20: once \<open>FinishStop\<close> has stored the flag, the pool ends. Every further step of a worker, of \<open>FinishStop\<close> or of
  the main thread lowers a natural number that no other step raises; and where no such step is left, the stop
  protocol is over, every worker has returned and the main thread has joined them all. Every stop handler that
  was registered has run exactly once before the flag was stored.
\<close>

theorem pool_stop_ends:
  assumes "pool_reach cfg s" "bStop (pool s)"
  shows "(\<forall>s'. work_step s s' \<longrightarrow> stop_weight s' < stop_weight s) \<and> (\<forall>s'. env_step s s' \<longrightarrow> stop_weight s' \<le> stop_weight s)
    \<and> ((\<nexists>s'. work_step s s') \<longrightarrow> finisher s = FDone \<and> mainer s = MDone \<and> set (workers s) \<subseteq> {WExit})
    \<and> distinct (handlers_run s) \<and> handlers_run s = m_vStopHandlers (pool s)"
proof -
  have ok: "pool_ok s" "stop_ok s" "handlers_ok s" using pool_reach_ok [OF assms(1)] by (simp_all add: pool_ok_def)
  then show ?thesis using work_weight env_weight pool_stuck assms(2) by (auto simp: handlers_ok_def)
qed

subsection \<open>A pool of one worker\<close>

definition demo_cfg :: "string \<Rightarrow> int option" where
  "demo_cfg k = (if k = ''ThreadPool.threadcount'' then Some 1 else None)"

definition demo_pool :: ThreadPool where
  "demo_pool = ThreadPool_new\<lparr>iThreadCount := 1\<rparr>"

definition demo_waiting :: pool_threads where
  "demo_waiting = (pool_start demo_pool)\<lparr>pool := demo_pool\<lparr>iIdleThreadCount := 1, vCoroutines := [7]\<rparr>, workers := [WAsleep], signals := 1, posted := [7]\<rparr>"

definition demo_resuming :: pool_threads where
  "demo_resuming = demo_waiting\<lparr>pool := demo_pool, workers := [WRunning 7], signals := 0, taken := [7]\<rparr>"

definition demo_stopped :: pool_threads where
  "demo_stopped = (pool_start demo_pool)\<lparr>pool := demo_pool\<lparr>m_vStopHandlers := [5], m_bStopRequested := True, iExitCode := 3, bStop := True\<rparr>,
     finisher := FStored, handlers_run := [5]\<rparr>"

lemmas demo_pool_defs = demo_pool_def ThreadPool_new_def pool_start_def

lemma demo_start: "pool_reach demo_cfg (pool_start demo_pool)"
  by (rule pool_reach.start) (simp add: ThreadPool_Init_def demo_cfg_def demo_pool_def)

lemma demo_waiting_reach: "pool_reach demo_cfg demo_waiting"
proof -
  let ?s1 = "(pool_start demo_pool)\<lparr>pool := demo_pool\<lparr>iIdleThreadCount := 1\<rparr>, workers := [WDecided], mutex_owner := Some 0\<rparr>"
  have "work_step (pool_start demo_pool) ?s1"
    using enter [of 0 "pool_start demo_pool"] by (simp add: demo_pool_defs worker_defs)
  moreover have "work_step ?s1 (?s1\<lparr>workers := [WAsleep], mutex_owner := None\<rparr>)"
    using fall_asleep [of 0 ?s1] by simp
  moreover have "env_step (?s1\<lparr>workers := [WAsleep], mutex_owner := None\<rparr>) demo_waiting"
    using post [of "?s1\<lparr>workers := [WAsleep], mutex_owner := None\<rparr>" "Some 7"] by (simp add: demo_waiting_def demo_pool_defs PostCoroutine_def)
  ultimately show ?thesis using demo_start by (meson pool_reach.intros)
qed

lemma demo_resuming_reach: "pool_reach demo_cfg demo_resuming"
proof -
  let ?s = "demo_waiting\<lparr>signals := 0, workers := [WNotified]\<rparr>"
  have "env_step demo_waiting ?s" using signal_one [of demo_waiting 0] by (simp add: demo_waiting_def)
  moreover have "work_step ?s demo_resuming"
    using again [of 0 ?s] by (simp add: demo_waiting_def demo_resuming_def demo_pool_defs worker_defs)
  ultimately show ?thesis using demo_waiting_reach by (meson pool_reach.intros)
qed

lemma demo_stopped_reach: "pool_reach demo_cfg demo_stopped"
proof -
  let ?s1 = "(pool_start demo_pool)\<lparr>pool := demo_pool\<lparr>m_vStopHandlers := [5]\<rparr>\<rparr>"
  let ?s2 = "?s1\<lparr>pool := demo_pool\<lparr>m_vStopHandlers := [5], m_bStopRequested := True, iExitCode := 3\<rparr>, finisher := FPosted\<rparr>"
  have "env_step (pool_start demo_pool) ?s1"
    using add_handler [of "Some 5" "pool_start demo_pool"] by (simp add: demo_pool_defs AddStopHandler_def)
  moreover have "env_step ?s1 ?s2" using request [of 3 ?s1] by (simp add: demo_pool_defs RequestStop_def)
  moreover have "work_step ?s2 demo_stopped" using store [of ?s2] by (simp add: demo_stopped_def demo_pool_defs stop_store_def)
  ultimately show ?thesis using demo_start by (meson pool_reach.intros)
qed

theorem pool_no_lost_wakeup_witness:
  "WAsleep \<in> set (workers demo_waiting) \<and> int (length (vCoroutines (pool demo_waiting))) \<le> at_pc WNotified (workers demo_waiting) + int (signals demo_waiting)"
  using pool_no_lost_wakeup [OF demo_waiting_reach] by (simp add: demo_waiting_def demo_pool_defs)

theorem pool_resumes_in_order_witness: "taken demo_resuming = [7] \<and> posted demo_resuming = taken demo_resuming @ vCoroutines (pool demo_resuming)"
  using pool_resumes_in_order [OF demo_resuming_reach] by (simp add: demo_resuming_def)

theorem pool_stop_ends_witness:
  "handlers_run demo_stopped = [5] \<and> distinct (handlers_run demo_stopped) \<and> stop_weight (demo_stopped\<lparr>finisher := FSignalled\<rparr>) < stop_weight demo_stopped"
proof -
  have stopped: "bStop (pool demo_stopped)" "handlers_run demo_stopped = [5]" by (simp_all add: demo_stopped_def)
  have "work_step demo_stopped (demo_stopped\<lparr>finisher := FSignalled\<rparr>)"
    using signal_main [of demo_stopped] by (simp add: demo_stopped_def pool_start_def)
  then show ?thesis using pool_stop_ends [OF demo_stopped_reach stopped(1)] stopped(2) by blast
qed

end
