(* ===== verification/OI_Task.thy ===== *)
theory OI_Task
  imports OI_Coro
begin

text \<open>
  One task and everybody who uses it (\<open>BasicTask\<close> in cbaselib/base/inc/oi_coro.h): the body that returns or throws,
  \<open>final_suspend\<close> that wakes the waiters, the \<open>Task\<close> objects that share the frame, \<open>Start\<close>, and any number of
  coroutines that await the task. They run on different threads: each step of the relation is one critical
  section or one atomic operation of the code.

  Shown: every awaiting coroutine is resumed, once, and gets the outcome of the body; the frame is destroyed
  exactly when its last user has gone; an exception is reported at most once and is never lost.
\<close>

section \<open>The users of a task\<close>

text \<open>
  An awaiter: constructed, found the task not ready, linked into the list of waiters, scheduled again, running,
  having read the outcome, destroyed. The body: running, the exception stored but not yet looked at, ended, waking
  the waiters that are left, its frame registered for release, released.
\<close>

datatype 'r awaiter_pc = ANew | AChecked | ASuspended | AScheduled | ARunning | ARead "'r outcome" | AGone
datatype body_pc = BRunning | BThrown | BEnded | BWaking "nat list" | BDetached | BReleased

record 'r task_run =
  task :: "'r TaskState"
  body :: body_pc
  objects :: nat
  awaiters :: "'r awaiter_pc list"
  ready_queue :: "nat list"
  task_reports :: "report list"
  destroyed :: nat
  result :: "'r outcome option"

text \<open>Giving up a reference, with what it reports and destroys.\<close>

definition release :: "'r task_run \<Rightarrow> 'r task_run" where
  "release s = (let (rs, gone, t) = Task_Release (task s) in
     s\<lparr>task := t, task_reports := task_reports s @ rs, destroyed := destroyed s + of_bool gone\<rparr>)"

definition move_awaiter :: "nat \<Rightarrow> 'r awaiter_pc \<Rightarrow> 'r task_run \<Rightarrow> 'r task_run" where
  "move_awaiter i a s = s\<lparr>awaiters := (awaiters s)[i := a]\<rparr>"

text \<open>The handle of the coroutine with awaiter \<open>i\<close> is \<open>i\<close>.\<close>

inductive task_step :: "'r task_run \<Rightarrow> 'r task_run \<Rightarrow> bool" where
  copy: "0 < objects s \<Longrightarrow> task_step s (s\<lparr>task := add_reference (task s), objects := objects s + 1\<rparr>)"
| drop: "0 < objects s \<Longrightarrow> task_step s (release (s\<lparr>objects := objects s - 1\<rparr>))"
| mark: "0 < objects s \<Longrightarrow> BasicTask_Start callable token g (task s) = (rs, g', t) \<Longrightarrow>
    task_step s (s\<lparr>task := t, task_reports := task_reports s @ rs\<rparr>)"
| await: "0 < objects s \<Longrightarrow> task_step s (s\<lparr>task := add_reference (task s), awaiters := awaiters s @ [ANew]\<rparr>)"
| ready: "i < length (awaiters s) \<Longrightarrow> awaiters s ! i = ANew \<Longrightarrow>
    task_step s (move_awaiter i (if Awaiter_ready (task s) then ARunning else AChecked) s)"
| suspend: "i < length (awaiters s) \<Longrightarrow> awaiters s ! i = AChecked \<Longrightarrow> Awaiter_suspend i (task s) = (b, t) \<Longrightarrow>
    task_step s (move_awaiter i (if b then ASuspended else ARunning) (s\<lparr>task := t\<rparr>))"
| run: "ready_queue s = hs @ [i] @ hs' \<Longrightarrow> i < length (awaiters s) \<Longrightarrow> task_step s (move_awaiter i ARunning (s\<lparr>ready_queue := hs @ hs'\<rparr>))"
| read: "i < length (awaiters s) \<Longrightarrow> awaiters s ! i = ARunning \<Longrightarrow> Awaiter_resume (task s) = (r, t) \<Longrightarrow>
    task_step s (move_awaiter i (ARead r) (s\<lparr>task := t\<rparr>))"
| leave: "i < length (awaiters s) \<Longrightarrow> awaiters s ! i = ARead r \<Longrightarrow> task_step s (release (move_awaiter i AGone s))"
| return_: "body s = BRunning \<Longrightarrow> task_step s (s\<lparr>task := return_value v (task s), body := BEnded, result := Some (Returned v)\<rparr>)"
| throw: "body s = BRunning \<Longrightarrow> task_step s (s\<lparr>task := store_exception e (task s), body := BThrown, result := Some (Threw e)\<rparr>)"
| look: "body s = BThrown \<Longrightarrow> report_detached (task s) = (rs, t) \<Longrightarrow>
    task_step s (s\<lparr>task := t, body := BEnded, task_reports := task_reports s @ rs\<rparr>)"
| final: "body s = BEnded \<Longrightarrow> final_take (task s) = (ws, t) \<Longrightarrow> task_step s (s\<lparr>task := t, body := BWaking ws\<rparr>)"
| wake: "body s = BWaking (i # ws) \<Longrightarrow> i < length (awaiters s) \<Longrightarrow>
    task_step s (move_awaiter i AScheduled (s\<lparr>body := BWaking ws, ready_queue := ready_queue s @ [i]\<rparr>))"
| detach: "body s = BWaking [] \<Longrightarrow> task_step s (s\<lparr>body := BDetached\<rparr>)"
| drain: "body s = BDetached \<Longrightarrow> task_step s (release (s\<lparr>body := BReleased\<rparr>))"

text \<open>The task as its creator gets it: one object and the reference of the running body.\<close>

definition task_start :: "coro_thread \<Rightarrow> 'r task_run" where
  "task_start th = \<lparr>task = fst (TaskState_new th), body = BRunning, objects = 1, awaiters = [], ready_queue = [], task_reports = [],
     destroyed = 0, result = None\<rparr>"

inductive task_reach :: "'r task_run \<Rightarrow> bool" where
  start: "task_reach (task_start th)"
| step: "task_reach s \<Longrightarrow> task_step s s' \<Longrightarrow> task_reach s'"

section \<open>References\<close>

fun live :: "'r awaiter_pc list \<Rightarrow> nat" where
  "live [] = 0"
| "live (a # as) = (case a of AGone \<Rightarrow> 0 | _ \<Rightarrow> 1) + live as"

lemma live_append [simp]: "live (as @ bs) = live as + live bs"
  by (induction as) auto

lemma live_update: "i < length as \<Longrightarrow> live (as[i := a]) + (case as ! i of AGone \<Rightarrow> 0 | _ \<Rightarrow> 1) = live as + (case a of AGone \<Rightarrow> 0 | _ \<Rightarrow> 1)"
  by (induction as arbitrary: i) (auto simp: nth_Cons split: nat.splits)

lemma live_same [simp]: "i < length as \<Longrightarrow> as ! i \<noteq> AGone \<Longrightarrow> a \<noteq> AGone \<Longrightarrow> live (as[i := a]) = live as"
  using live_update [of i as a] by (auto split: awaiter_pc.splits)

lemma live_gone: "i < length as \<Longrightarrow> as ! i \<noteq> AGone \<Longrightarrow> Suc (live (as[i := AGone])) = live as"
  using live_update [of i as AGone] by (auto split: awaiter_pc.splits)

lemma live_zero: "live as = 0 \<longleftrightarrow> set as \<subseteq> {AGone}"
  by (induction as) (auto split: awaiter_pc.splits)

definition users :: "'r task_run \<Rightarrow> nat" where
  "users s = objects s + of_bool (body s \<noteq> BReleased) + live (awaiters s)"

definition refs_ok :: "'r task_run \<Rightarrow> bool" where
  "refs_ok s \<longleftrightarrow> iReferences (task s) = users s \<and> destroyed s = of_bool (users s = 0)"

text \<open>The mutex of the task: whom the list of waiters holds, who has been scheduled, who may run.\<close>

definition at_await :: "'a list \<Rightarrow> 'a \<Rightarrow> nat set" where
  "at_await as a = {i. i < length as \<and> as ! i = a}"

lemma at_await_update [simp]:
  "i < length as \<Longrightarrow> at_await (as[i := a]) b = (if a = b then insert i (at_await as b) else at_await as b - {i})"
  by (auto simp: at_await_def nth_list_update)

lemma at_await_append [simp]: "at_await (as @ [a]) b = (if a = b then insert (length as) (at_await as b) else at_await as b)"
  by (auto simp: at_await_def nth_append less_Suc_eq)

lemma at_await_iff: "i \<in> at_await as a \<longleftrightarrow> i < length as \<and> as ! i = a"
  by (simp add: at_await_def)

fun waking :: "body_pc \<Rightarrow> nat list" where
  "waking (BWaking ws) = ws"
| "waking _ = []"

definition list_ok :: "'r task_run \<Rightarrow> bool" where
  "list_ok s \<longleftrightarrow> distinct (pWaiters (task s) @ waking (body s)) \<and> set (pWaiters (task s) @ waking (body s)) = at_await (awaiters s) ASuspended
     \<and> distinct (ready_queue s) \<and> set (ready_queue s) = at_await (awaiters s) AScheduled
     \<and> (bReady (task s) \<longrightarrow> pWaiters (task s) = []) \<and> (bReady (task s) \<longleftrightarrow> body s \<notin> {BRunning, BThrown, BEnded})"

text \<open>What a coroutine reads is the outcome of the body.\<close>

fun stored :: "'r outcome option \<Rightarrow> nat option \<Rightarrow> 'r option \<Rightarrow> bool" where
  "stored None e v \<longleftrightarrow> e = None \<and> v = None"
| "stored (Some (Threw x)) e v \<longleftrightarrow> e = Some x"
| "stored (Some (Returned x)) e v \<longleftrightarrow> e = None \<and> v = Some x"
| "stored (Some NoResult) e v \<longleftrightarrow> False"

fun entitled :: "'r outcome option \<Rightarrow> bool \<Rightarrow> 'r awaiter_pc \<Rightarrow> bool" where
  "entitled res rdy ARunning \<longleftrightarrow> rdy"
| "entitled res rdy AScheduled \<longleftrightarrow> rdy"
| "entitled res rdy (ARead r) \<longleftrightarrow> res = Some r"
| "entitled res rdy _ \<longleftrightarrow> True"

lemma entitled_mono: "entitled res rdy a \<Longrightarrow> (rdy \<Longrightarrow> rdy') \<Longrightarrow> (res \<noteq> None \<Longrightarrow> res' = res) \<Longrightarrow> entitled res' rdy' a"
  by (cases a) auto

lemma entitled_mono_all:
  "list_all (entitled res rdy) as \<Longrightarrow> (rdy \<Longrightarrow> rdy') \<Longrightarrow> (res \<noteq> None \<Longrightarrow> res' = res) \<Longrightarrow> list_all (entitled res' rdy') as"
  by (erule list.pred_mono_strong) (erule entitled_mono)

lemma list_all_update: "list_all P xs \<Longrightarrow> P a \<Longrightarrow> list_all P (xs[i := a])"
  by (auto simp: list_all_iff dest!: set_update_subset_insert [THEN subsetD])

lemma list_all_nth: "list_all P xs \<Longrightarrow> i < length xs \<Longrightarrow> xs ! i = a \<Longrightarrow> P a"
  by (metis list_all_length)

definition value_ok :: "'r task_run \<Rightarrow> bool" where
  "value_ok s \<longleftrightarrow> (body s = BRunning \<longleftrightarrow> result s = None) \<and> (body s = BThrown \<longrightarrow> stError (task s) \<noteq> None)
     \<and> stored (result s) (stError (task s)) (stResult (task s))
     \<and> list_all (entitled (result s) (bReady (task s))) (awaiters s)"

text \<open>Exceptions are reported once, with the task's number, and do not disappear with the frame.\<close>

definition error_ok :: "'r task_run \<Rightarrow> bool" where
  "error_ok s \<longleftrightarrow> length (task_reports s) = of_bool (bErrorReported (task s)) \<and> (\<forall>(t, e) \<in> set (task_reports s). e = stError (task s) \<and> e \<noteq> None)
     \<and> (destroyed s \<noteq> 0 \<and> stError (task s) \<noteq> None \<longrightarrow> bObserved (task s) \<or> bErrorReported (task s))
     \<and> (bObserved (task s) \<longrightarrow> stError (task s) \<noteq> None)"

lemmas task_defs = Awaiter_ready_def Awaiter_suspend_def Awaiter_resume_def return_value_def store_exception_def
  final_take_def add_reference_def move_awaiter_def Let_def

text \<open>What marking a task, or looking at \<open>bDetached\<close>, changes: the flag, the number and what is reported.\<close>

definition reporting :: "report list \<Rightarrow> 'r TaskState \<Rightarrow> 'r TaskState \<Rightarrow> bool" where
  "reporting rs t u \<longleftrightarrow> iReferences u = iReferences t \<and> pWaiters u = pWaiters t \<and> bReady u = bReady t \<and> stError u = stError t
     \<and> stResult u = stResult t \<and> bObserved u = bObserved t
     \<and> (rs = [] \<and> bErrorReported u = bErrorReported t \<or> \<not> bErrorReported t \<and> bErrorReported u \<and> stError t \<noteq> None \<and> rs = [(iTaskId u, stError t)])"

lemma Start_reporting: "BasicTask_Start callable token g t = (rs, g', u) \<Longrightarrow> reporting rs t u"
  by (cases "AllocTaskUid g") (auto simp: BasicTask_Start_def ReportError_def reporting_def Let_def split: if_splits)

lemma look_reporting: "report_detached t = (rs, u) \<Longrightarrow> stError t \<noteq> None \<Longrightarrow> reporting rs t u"
  by (auto simp: report_detached_def ReportError_def reporting_def split: if_splits)

lemma look_same:
  "report_detached t = (rs, u) \<Longrightarrow> iReferences u = iReferences t \<and> pWaiters u = pWaiters t \<and> bReady u = bReady t"
  by (auto simp: report_detached_def ReportError_def split: if_splits)

lemma release_refs:
  assumes "iReferences (task s) = Suc (users s)" "destroyed s = 0"
  shows "refs_ok (release s)"
  using assms by (auto simp: refs_ok_def release_def Task_Release_def users_def ReportError_def Let_def split: if_splits)

lemma release_simps [simp]:
  "body (release s) = body s" "objects (release s) = objects s" "awaiters (release s) = awaiters s" "ready_queue (release s) = ready_queue s"
  "result (release s) = result s" "pWaiters (task (release s)) = pWaiters (task s)" "bReady (task (release s)) = bReady (task s)"
  "stError (task (release s)) = stError (task s)" "stResult (task (release s)) = stResult (task s)"
  "bObserved (task (release s)) = bObserved (task s)"
  by (auto simp: release_def Task_Release_def ReportError_def Let_def)

lemma step_refs: "task_step s s' \<Longrightarrow> list_ok s \<Longrightarrow> refs_ok s \<Longrightarrow> refs_ok s'"
proof (induction rule: task_step.induct)
  case (drop s)
  then show ?case by - (rule release_refs; simp add: refs_ok_def users_def)
next
  case (leave i s r)
  then show ?case using live_gone [of i "awaiters s"] by - (rule release_refs; simp add: refs_ok_def users_def move_awaiter_def)
next
  case (drain s)
  then show ?case by - (rule release_refs; simp add: refs_ok_def users_def)
next
  case (mark s callable token g rs g' t)
  then show ?case using Start_reporting by (fastforce simp: refs_ok_def users_def reporting_def)
next
  case (look s rs t)
  then show ?case using look_same by (fastforce simp: refs_ok_def users_def)
next
  case (run s hs i hs')
  then have "awaiters s ! i = AScheduled" by (auto simp: list_ok_def at_await_iff)
  then show ?case using run by (simp add: refs_ok_def users_def task_defs)
next
  case (wake s i ws)
  then have "awaiters s ! i = ASuspended" by (auto simp: list_ok_def at_await_iff)
  then show ?case using wake by (simp add: refs_ok_def users_def task_defs)
qed (auto simp: refs_ok_def users_def task_defs split: if_splits option.splits)

lemma step_list: "task_step s s' \<Longrightarrow> list_ok s \<Longrightarrow> list_ok s'"
proof (induction rule: task_step.induct)
  case (mark s callable token g rs g' t)
  then show ?case using Start_reporting [OF mark(2)] by (simp add: list_ok_def reporting_def)
next
  case (look s rs t)
  then show ?case using look_same [OF look(2)] by (simp add: list_ok_def)
next
  case (run s hs i hs')
  then have "awaiters s ! i = AScheduled" by (auto simp: list_ok_def at_await_iff)
  then show ?case using run by (auto simp: list_ok_def task_defs at_await_iff)
next
  case (wake s i ws)
  then have "awaiters s ! i = ASuspended" by (auto simp: list_ok_def at_await_iff)
  then show ?case using wake by (auto simp: list_ok_def task_defs at_await_iff)
qed (auto simp: list_ok_def task_defs at_await_iff split: if_splits option.splits)

lemma value_awaiter:
  assumes "value_ok s" "awaiters s' = (awaiters s)[i := a]" "body s' = body s" "result s' = result s" "bReady (task s') = bReady (task s)"
    "stError (task s') = stError (task s)" "stResult (task s') = stResult (task s)"
    "entitled (result s) (bReady (task s)) a"
  shows "value_ok s'"
  using assms by (simp add: value_ok_def list_all_update)

lemma value_same:
  assumes "value_ok s" "awaiters s' = awaiters s" "body s' = BRunning \<longleftrightarrow> body s = BRunning" "body s' = BThrown \<Longrightarrow> body s = BThrown" "result s' = result s" "bReady (task s) \<Longrightarrow> bReady (task s')"
    "stError (task s') = stError (task s)" "stResult (task s') = stResult (task s)"
  shows "value_ok s'"
  using assms by (auto simp: value_ok_def elim: entitled_mono_all)

lemma outcome_read:
  assumes "value_ok s" "bReady (task s)" "list_ok s" "Awaiter_resume (task s) = (r, t)"
  shows "result s = Some r \<and> bReady t = bReady (task s) \<and> stError t = stError (task s) \<and> stResult t = stResult (task s)"
proof -
  have "result s \<noteq> None" "stored (result s) (stError (task s)) (stResult (task s))" using assms by (auto simp: value_ok_def list_ok_def)
  then show ?thesis using assms(4) by (cases "the (result s)") (auto simp: Awaiter_resume_def)
qed

lemma step_value: "task_step s s' \<Longrightarrow> list_ok s \<Longrightarrow> value_ok s \<Longrightarrow> value_ok s'"
proof (induction rule: task_step.induct)
  case (mark s callable token g rs g' t)
  then show ?case using Start_reporting [OF mark(2)] by - (rule value_same [of s]; simp add: reporting_def)
next
  case (look s rs t)
  then have "reporting rs (task s) t"
    by (intro look_reporting) (auto simp: value_ok_def)
  then show ?case using look by - (rule value_same [of s]; simp add: reporting_def)
next
  case (ready i s)
  then show ?case by - (rule value_awaiter [of s _ i "if bReady (task s) then ARunning else AChecked"]; auto simp: task_defs)
next
  case (suspend i s b t)
  then show ?case by - (rule value_awaiter [of s _ i "if b then ASuspended else ARunning"]; auto simp: task_defs split: if_splits)
next
  case (run s hs i hs')
  then have "awaiters s ! i = AScheduled" by (auto simp: list_ok_def at_await_iff)
  with run have "bReady (task s)" by (auto simp: value_ok_def dest: list_all_nth)
  then show ?case using run by - (rule value_awaiter [of s _ i ARunning]; simp add: task_defs)
next
  case (read i s r t)
  then have "bReady (task s)" by (auto simp: value_ok_def dest: list_all_nth)
  then show ?case using read outcome_read [of s r t] by - (rule value_awaiter [of s _ i "ARead r"]; simp add: move_awaiter_def)
next
  case (leave i s r)
  then show ?case by - (rule value_awaiter [of s _ i AGone]; simp add: move_awaiter_def)
next
  case (wake s i ws)
  then have "bReady (task s)" by (auto simp: list_ok_def)
  moreover have "value_ok (s\<lparr>body := BWaking ws, ready_queue := ready_queue s @ [i]\<rparr>)"
    using wake by - (rule value_same [of s]; simp)
  ultimately show ?case by - (rule value_awaiter [of "s\<lparr>body := BWaking ws, ready_queue := ready_queue s @ [i]\<rparr>" _ i AScheduled]; simp add: move_awaiter_def)
next
  case (await s)
  then show ?case by (auto simp: value_ok_def task_defs elim: entitled_mono_all)
next
  case (return_ s v)
  then show ?case by (auto simp: value_ok_def task_defs elim: entitled_mono_all)
next
  case (throw s e)
  then show ?case by (auto simp: value_ok_def task_defs elim: entitled_mono_all)
qed (rule value_same; auto simp: task_defs)+

lemma error_reporting:
  assumes "error_ok s" "reporting rs (task s) t" "task s' = t" "task_reports s' = task_reports s @ rs" "destroyed s' = destroyed s"
  shows "error_ok s'"
  using assms by (auto simp: error_ok_def reporting_def)

lemma release_error:
  assumes "error_ok s"
  shows "error_ok (release s)"
proof (cases "iReferences (task s) = 1 \<and> stError (task s) \<noteq> None \<and> \<not> bObserved (task s)")
  case True
  then show ?thesis using assms by (auto simp: error_ok_def release_def Task_Release_def ReportError_def Let_def split: if_splits)
next
  case False
  then show ?thesis using assms by (auto simp: error_ok_def release_def Task_Release_def Let_def)
qed

lemma error_same:
  assumes "error_ok s" "task_reports s' = task_reports s" "destroyed s' = destroyed s" "stError (task s') = stError (task s)"
    "bErrorReported (task s') = bErrorReported (task s)" "bObserved (task s') = bObserved (task s)"
  shows "error_ok s'"
  using assms by (simp add: error_ok_def)

lemma step_error: "task_step s s' \<Longrightarrow> refs_ok s \<Longrightarrow> value_ok s \<Longrightarrow> error_ok s \<Longrightarrow> error_ok s'"
proof (induction rule: task_step.induct)
  case (mark s callable token g rs g' t)
  then show ?case using Start_reporting [OF mark(2)] by - (rule error_reporting [of s]; simp)
next
  case (look s rs t)
  then have "reporting rs (task s) t" by (intro look_reporting) (auto simp: value_ok_def)
  then show ?case using look by - (rule error_reporting [of s]; simp)
next
  case (drop s)
  then show ?case by (auto intro!: release_error error_same [of s])
next
  case (leave i s r)
  then show ?case by (auto intro!: release_error error_same [of s] simp: move_awaiter_def)
next
  case (drain s)
  then show ?case by (auto intro!: release_error error_same [of s])
next
  case (throw s e)
  then show ?case by (auto simp: error_ok_def value_ok_def refs_ok_def users_def store_exception_def)
next
  case (read i s r t)
  then show ?case by (auto simp: error_ok_def task_defs split: option.splits)
qed (rule error_same, assumption, auto simp: task_defs split: if_splits)+

definition task_ok :: "'r task_run \<Rightarrow> bool" where
  "task_ok s \<longleftrightarrow> refs_ok s \<and> list_ok s \<and> value_ok s \<and> error_ok s"

lemma task_start_ok: "task_ok (task_start th)"
  by (auto simp: task_ok_def task_start_def refs_ok_def list_ok_def value_ok_def error_ok_def users_def TaskState_new_def TakeTaskLaunch_def
      at_await_def Let_def)

lemma task_reach_ok: "task_reach s \<Longrightarrow> task_ok s"
proof (induction rule: task_reach.induct)
  case (start th)
  show ?case by (rule task_start_ok)
next
  case (step s s')
  then show ?case using step_refs step_list step_value step_error unfolding task_ok_def by blast
qed

text \<open>
  C7: a task loses none of the coroutines that wait for it and wakes none twice. The coroutines that are suspended
  are exactly the distinct members of the list of waiters and of what \<open>final_suspend\<close> has still to wake; those
  that are scheduled stand in the ready queue once each; after \<open>final_suspend\<close> nobody is suspended. A
  coroutine runs on only when the task has completed, and what it reads is what the body returned or threw.
\<close>

theorem task_wakes_all:
  assumes "task_reach s"
  shows "distinct (pWaiters (task s) @ waking (body s)) \<and> set (pWaiters (task s) @ waking (body s)) = at_await (awaiters s) ASuspended
    \<and> distinct (ready_queue s) \<and> set (ready_queue s) = at_await (awaiters s) AScheduled
    \<and> (body s \<in> {BDetached, BReleased} \<longrightarrow> ASuspended \<notin> set (awaiters s))
    \<and> (\<forall>i < length (awaiters s). (awaiters s ! i = ARunning \<longrightarrow> bReady (task s) \<and> result s \<noteq> None) \<and> (\<forall>r. awaiters s ! i = ARead r \<longrightarrow> result s = Some r))"
proof -
  have ok: "list_ok s" "value_ok s" using task_reach_ok [OF assms] by (simp_all add: task_ok_def)
  have "ASuspended \<notin> set (awaiters s)" if "body s \<in> {BDetached, BReleased}"
  proof -
    have "at_await (awaiters s) ASuspended = {}" using that ok(1) by (auto simp: list_ok_def)
    then show ?thesis by (auto simp: at_await_def in_set_conv_nth)
  qed
  moreover have "bReady (task s) \<and> result s \<noteq> None" if "i < length (awaiters s)" "awaiters s ! i = ARunning" for i
    using ok that by (auto simp: value_ok_def list_ok_def dest: list_all_nth)
  moreover have "result s = Some r" if "i < length (awaiters s)" "awaiters s ! i = ARead r" for i r
    using ok that by (auto simp: value_ok_def dest: list_all_nth)
  ultimately show ?thesis using ok(1) by (auto simp: list_ok_def)
qed

lemma live_pos: "i < length as \<Longrightarrow> as ! i \<noteq> AGone \<Longrightarrow> 0 < live as"
  using live_gone [of i as] by simp

text \<open>A step is always the step of somebody who holds a reference.\<close>

lemma step_has_user: "task_step s s' \<Longrightarrow> list_ok s \<Longrightarrow> 0 < users s"
proof (induction rule: task_step.induct)
  case (run s hs i hs')
  then have "awaiters s ! i = AScheduled" by (auto simp: list_ok_def at_await_iff)
  then show ?case using live_pos [of i "awaiters s"] run by (simp add: users_def)
qed (auto simp: users_def live_zero dest!: nth_mem)

text \<open>
  C18: the frame of a task is destroyed once, when no \<open>Task\<close> object, no awaiter and no running body refers to it any more, and at
  no other moment; nobody touches it afterwards. An exception of the body is reported at most once, with the exception itself; when the frame is
  gone it was either reported or taken by a coroutine that awaited the task.
\<close>

theorem task_freed_once:
  assumes "task_reach s"
  shows "destroyed s = of_bool (objects s = 0 \<and> body s = BReleased \<and> set (awaiters s) \<subseteq> {AGone})
    \<and> (destroyed s = 1 \<longrightarrow> (\<nexists>s'. task_step s s'))
    \<and> length (task_reports s) \<le> 1 \<and> (\<forall>(t, e) \<in> set (task_reports s). e = stError (task s) \<and> e \<noteq> None)
    \<and> (destroyed s = 1 \<and> stError (task s) \<noteq> None \<longrightarrow> bObserved (task s) \<or> length (task_reports s) = 1)"
proof -
  have ok: "refs_ok s" "error_ok s" "list_ok s" using task_reach_ok [OF assms] by (simp_all add: task_ok_def)
  have "destroyed s = 1 \<longrightarrow> (\<nexists>s'. task_step s s')" using step_has_user [of s] ok(1,3) by (fastforce simp: refs_ok_def)
  moreover have "users s = 0 \<longleftrightarrow> objects s = 0 \<and> body s = BReleased \<and> set (awaiters s) \<subseteq> {AGone}"
    by (auto simp: users_def live_zero)
  ultimately show ?thesis using ok(1,2) by (auto simp: refs_ok_def error_ok_def)
qed

section \<open>Two short lives of a task\<close>

definition demo_thread :: coro_thread where
  "demo_thread = \<lparr>g_stLaunch = TaskLaunch_new, g_iResumeDepth = 0\<rparr>"

definition demo_waited :: "nat task_run" where
  "demo_waited = (task_start demo_thread)\<lparr>task := (fst (TaskState_new demo_thread))\<lparr>iReferences := 3, pWaiters := [0]\<rparr>, awaiters := [ASuspended]\<rparr>"

definition demo_failed :: "nat task_run" where
  "demo_failed = (task_start demo_thread)\<lparr>task := (fst (TaskState_new demo_thread))\<lparr>iReferences := 0, stError := Some 8, bReady := True, bErrorReported := True\<rparr>,
     body := BReleased, objects := 0, task_reports := [(0, Some 8)], destroyed := 1, result := Some (Threw 8)\<rparr>"

lemmas demo_task_defs = task_start_def TaskState_new_def TakeTaskLaunch_def demo_thread_def TaskLaunch_new_def InTaskResume_def Let_def

lemma demo_waited_reach: "task_reach demo_waited"
proof -
  let ?s0 = "task_start demo_thread :: nat task_run"
  let ?s1 = "?s0\<lparr>task := add_reference (task ?s0), awaiters := awaiters ?s0 @ [ANew]\<rparr>"
  let ?s2 = "move_awaiter 0 AChecked ?s1"
  have "task_step ?s0 ?s1" by (rule await) (simp add: task_start_def)
  moreover have "task_step ?s1 ?s2" using ready [of 0 ?s1] by (simp add: demo_task_defs task_defs)
  moreover have "task_step ?s2 demo_waited" using suspend [of 0 ?s2] by (simp add: demo_waited_def demo_task_defs task_defs)
  ultimately show ?thesis using task_reach.start by (meson task_reach.step)
qed

lemma demo_failed_reach: "task_reach demo_failed"
proof -
  let ?s0 = "task_start demo_thread :: nat task_run"
  let ?s1 = "?s0\<lparr>task := store_exception 8 (task ?s0), body := BThrown, result := Some (Threw 8)\<rparr>"
  let ?s2 = "?s1\<lparr>body := BEnded\<rparr>"
  let ?s3 = "?s2\<lparr>task := (task ?s2)\<lparr>bReady := True\<rparr>, body := BWaking []\<rparr>"
  let ?s4 = "?s3\<lparr>body := BDetached\<rparr>"
  let ?s5 = "release (?s4\<lparr>body := BReleased\<rparr>)"
  have "task_step ?s0 ?s1" by (rule throw) (simp add: task_start_def)
  moreover have "task_step ?s1 ?s2" using look [of ?s1] by (simp add: demo_task_defs task_defs report_detached_def)
  moreover have "task_step ?s2 ?s3" using final [of ?s2] by (simp add: demo_task_defs task_defs)
  moreover have "task_step ?s3 ?s4" by (rule detach) simp
  moreover have "task_step ?s4 ?s5" using drain [of ?s4] by simp
  moreover have "task_step ?s5 demo_failed"
    using drop [of ?s5] by (simp add: demo_failed_def demo_task_defs task_defs release_def Task_Release_def ReportError_def)
  ultimately show ?thesis using task_reach.start by (meson task_reach.step)
qed

theorem task_wakes_all_witness:
  "ASuspended \<in> set (awaiters demo_waited) \<and> set (pWaiters (task demo_waited) @ waking (body demo_waited)) = at_await (awaiters demo_waited) ASuspended"
  using task_wakes_all [OF demo_waited_reach] by (simp add: demo_waited_def)

theorem task_freed_once_witness: "destroyed demo_failed = 1 \<and> (\<nexists>s'. task_step demo_failed s') \<and> length (task_reports demo_failed) = 1"
proof -
  have "destroyed demo_failed = 1" "length (task_reports demo_failed) = 1" by (simp_all add: demo_failed_def)
  then show ?thesis using task_freed_once [OF demo_failed_reach] by blast
qed

end
