(* ===== verification/OI_Join.thy ===== *)
theory OI_Join
  imports OI_Task "HOL-Library.Multiset"
begin

text \<open>
  Waiting for several tasks (cbaselib/base/inc/oi_coro.h and base/src/oi_coro.cpp): \<open>WhenAll\<close>, whose parent
  coroutine links one waiter into each task and sleeps until the last of them completes, and \<open>TaskScope\<close>, which counts
  the tasks it starts and lets coroutines join them. Parent, children and joiners run on different threads; a
  step is one critical section or one atomic operation of the code.

  Shown for both: whoever waits goes on exactly once, only when every task has completed, and is never left
  asleep; a scope hands every joiner the first exception of its tasks.
\<close>

section \<open>WhenAll\<close>

record WhenAllState =
  wa_iLeft :: nat
  wa_iGate :: Gate

text \<open>\<open>OnReady\<close> is two atomic operations: the countdown, and for the last one the gate.\<close>

definition OnReady_count :: "WhenAllState \<Rightarrow> bool \<times> WhenAllState" where
  "OnReady_count st = (wa_iLeft st = 1, st\<lparr>wa_iLeft := wa_iLeft st - 1\<rparr>)"

definition OnReady_gate :: "WhenAllState \<Rightarrow> bool \<times> WhenAllState" where
  "OnReady_gate st = (wa_iGate st = GateWaiting, st\<lparr>wa_iGate := GateReady\<rparr>)"

text \<open>The end of \<open>await_suspend\<close>; the flag says whether the parent suspends.\<close>

definition WhenAll_arm :: "WhenAllState \<Rightarrow> bool \<times> WhenAllState" where
  "WhenAll_arm st = (wa_iGate st \<noteq> GateReady, st\<lparr>wa_iGate := GateWaiting\<rparr>)"

definition WhenAll_start :: "nat \<Rightarrow> WhenAllState" where
  "WhenAll_start n = \<lparr>wa_iLeft = n, wa_iGate = GateIdle\<rparr>"

text \<open>
  A child: running with no slot linked, completed with no slot linked, running with the slot linked, completed with
  the slot taken, counted as the last one, about to schedule the parent, counted. The parent: about to link slot
  \<open>i\<close>, about to count child \<open>i\<close> itself because it was complete, about to open the gate because this was the last,
  suspended, running on.
\<close>

datatype child_pc = CRun | CEarly | CLinked | CTaken | CLast | CWake | COver
datatype parent_pc = PLink nat | PCount nat | PGate nat | PSuspended | PRunning

record join_run =
  wa :: WhenAllState
  parent :: parent_pc
  children :: "child_pc list"
  parent_queued :: nat
  parent_resumed :: nat

inductive join_step :: "join_run \<Rightarrow> join_run \<Rightarrow> bool" where
  complete_early: "i < length (children s) \<Longrightarrow> children s ! i = CRun \<Longrightarrow> join_step s (s\<lparr>children := (children s)[i := CEarly]\<rparr>)"
| complete: "i < length (children s) \<Longrightarrow> children s ! i = CLinked \<Longrightarrow> join_step s (s\<lparr>children := (children s)[i := CTaken]\<rparr>)"
| child_count: "i < length (children s) \<Longrightarrow> children s ! i = CTaken \<Longrightarrow> OnReady_count (wa s) = (b, st) \<Longrightarrow>
    join_step s (s\<lparr>wa := st, children := (children s)[i := (if b then CLast else COver)]\<rparr>)"
| child_gate: "i < length (children s) \<Longrightarrow> children s ! i = CLast \<Longrightarrow> OnReady_gate (wa s) = (b, st) \<Longrightarrow>
    join_step s (s\<lparr>wa := st, children := (children s)[i := (if b then CWake else COver)]\<rparr>)"
| child_wake: "i < length (children s) \<Longrightarrow> children s ! i = CWake \<Longrightarrow>
    join_step s (s\<lparr>children := (children s)[i := COver], parent_queued := parent_queued s + 1\<rparr>)"
| link: "parent s = PLink i \<Longrightarrow> i < length (children s) \<Longrightarrow> children s ! i = CRun \<Longrightarrow>
    join_step s (s\<lparr>parent := PLink (i + 1), children := (children s)[i := CLinked]\<rparr>)"
| link_ready: "parent s = PLink i \<Longrightarrow> i < length (children s) \<Longrightarrow> children s ! i = CEarly \<Longrightarrow> join_step s (s\<lparr>parent := PCount i\<rparr>)"
| parent_count: "parent s = PCount i \<Longrightarrow> OnReady_count (wa s) = (b, st) \<Longrightarrow>
    join_step s (s\<lparr>wa := st, children := (children s)[i := COver], parent := (if b then PGate i else PLink (i + 1))\<rparr>)"
| parent_gate: "parent s = PGate i \<Longrightarrow> join_step s (s\<lparr>wa := snd (OnReady_gate (wa s)), parent := PLink (i + 1)\<rparr>)"
| arm_sleep: "parent s = PLink (length (children s)) \<Longrightarrow> WhenAll_arm (wa s) = (True, st) \<Longrightarrow> join_step s (s\<lparr>wa := st, parent := PSuspended\<rparr>)"
| arm_go: "parent s = PLink (length (children s)) \<Longrightarrow> WhenAll_arm (wa s) = (False, st) \<Longrightarrow>
    join_step s (s\<lparr>wa := st, parent := PRunning, parent_resumed := parent_resumed s + 1\<rparr>)"
| parent_run: "0 < parent_queued s \<Longrightarrow>
    join_step s (s\<lparr>parent_queued := parent_queued s - 1, parent := PRunning, parent_resumed := parent_resumed s + 1\<rparr>)"

text \<open>\<open>await_ready\<close> passes an empty list by, so there is a task.\<close>

inductive join_reach :: "nat \<Rightarrow> join_run \<Rightarrow> bool" for n where
  start: "0 < n \<Longrightarrow> join_reach n \<lparr>wa = WhenAll_start n, parent = PLink 0, children = replicate n CRun, parent_queued = 0, parent_resumed = 0\<rparr>"
| step: "join_reach n s \<Longrightarrow> join_step s s' \<Longrightarrow> join_reach n s'"

text \<open>Up to where the parent has dealt with the children.\<close>

fun dealt :: "nat \<Rightarrow> parent_pc \<Rightarrow> nat" where
  "dealt n (PLink i) = i"
| "dealt n (PCount i) = i"
| "dealt n (PGate i) = i + 1"
| "dealt n _ = n"

fun linking :: "parent_pc \<Rightarrow> bool" where
  "linking PSuspended = False"
| "linking PRunning = False"
| "linking _ = True"

fun gating :: "parent_pc \<Rightarrow> bool" where
  "gating (PGate i) = True"
| "gating _ = False"

definition slots_ok :: "nat \<Rightarrow> join_run \<Rightarrow> bool" where
  "slots_ok n s \<longleftrightarrow> length (children s) = n \<and> dealt n (parent s) \<le> n
     \<and> (\<forall>i < n. children s ! i \<in> {CRun, CEarly} \<longleftrightarrow> dealt n (parent s) \<le> i)
     \<and> (\<forall>i. parent s = PCount i \<longrightarrow> i < n \<and> children s ! i = CEarly)"

text \<open>
  While children are uncounted nobody is entitled to wake the parent; after the last count exactly one of them holds the
  wakeup: the last child, the child that schedules, the parent that opens its own gate, the open gate, the ready queue, or
  the parent that has gone on.
\<close>

definition uncounted :: "child_pc list \<Rightarrow> int" where
  "uncounted cs = at_pc CRun cs + at_pc CEarly cs + at_pc CLinked cs + at_pc CTaken cs"

definition wakeups :: "join_run \<Rightarrow> int" where
  "wakeups s = at_pc CLast (children s) + at_pc CWake (children s) + of_bool (gating (parent s))
     + of_bool (linking (parent s) \<and> wa_iGate (wa s) = GateReady) + int (parent_queued s) + int (parent_resumed s)"

definition count_ok :: "join_run \<Rightarrow> bool" where
  "count_ok s \<longleftrightarrow> int (wa_iLeft (wa s)) = uncounted (children s) \<and> wakeups s = of_bool (wa_iLeft (wa s) = 0)
     \<and> (linking (parent s) \<longrightarrow> wa_iGate (wa s) \<noteq> GateWaiting \<and> parent_queued s = 0 \<and> at_pc CWake (children s) = 0)
     \<and> (parent s = PSuspended \<and> (0 < wa_iLeft (wa s) \<or> 0 < at_pc CLast (children s)) \<longrightarrow> wa_iGate (wa s) = GateWaiting)
     \<and> (parent_resumed s \<noteq> 0 \<longleftrightarrow> parent s = PRunning)"

lemmas join_defs = OnReady_count_def OnReady_gate_def WhenAll_arm_def

lemma queued_not_linking: "count_ok s \<Longrightarrow> 0 < parent_queued s \<Longrightarrow> \<not> linking (parent s)"
  by (auto simp: count_ok_def)

lemma not_linking_dealt: "\<not> linking p \<Longrightarrow> dealt n p = n \<and> (\<forall>i. p \<noteq> PCount i) \<and> \<not> gating p"
  by (cases p) auto

lemma gating_linking: "gating p \<Longrightarrow> linking p"
  by (cases p) auto

lemma step_slots: "join_step s s' \<Longrightarrow> count_ok s \<Longrightarrow> slots_ok n s \<Longrightarrow> slots_ok n s'"
proof (induction rule: join_step.induct)
  case (parent_run s)
  then show ?case using not_linking_dealt [OF queued_not_linking [of s], of n] by (auto simp: slots_ok_def)
qed (auto simp: slots_ok_def join_defs nth_list_update Suc_le_eq order_le_less split: if_splits)

lemma wakeups_parts:
  "0 \<le> at_pc CLast (children s)" "0 \<le> at_pc CWake (children s)" "0 \<le> (of_bool (gating (parent s)) :: int)"
  "0 \<le> (of_bool (linking (parent s) \<and> wa_iGate (wa s) = GateReady) :: int)" "0 \<le> int (parent_queued s)" "0 \<le> int (parent_resumed s)"
  by simp_all

lemma no_wakeups:
  assumes "count_ok s" "0 < wa_iLeft (wa s)"
  shows "at_pc CLast (children s) = 0 \<and> at_pc CWake (children s) = 0 \<and> \<not> gating (parent s) \<and> \<not> (linking (parent s) \<and> wa_iGate (wa s) = GateReady)
    \<and> parent_queued s = 0 \<and> parent_resumed s = 0"
proof -
  have "wakeups s = 0" using assms by (simp add: count_ok_def)
  then have "at_pc CLast (children s) = 0" "at_pc CWake (children s) = 0" "(of_bool (gating (parent s)) :: int) = 0"
    "(of_bool (linking (parent s) \<and> wa_iGate (wa s) = GateReady) :: int) = 0" "int (parent_queued s) = 0" "int (parent_resumed s) = 0"
    using wakeups_parts [of s] unfolding wakeups_def by linarith+
  then show ?thesis by auto
qed

lemma one_wakeup:
  assumes "count_ok s"
  shows "wakeups s \<le> 1"
  using assms by (simp add: count_ok_def)

lemma last_child:
  assumes "count_ok s" "0 < at_pc CLast (children s)"
  shows "at_pc CLast (children s) = 1 \<and> at_pc CWake (children s) = 0 \<and> \<not> gating (parent s) \<and> \<not> (linking (parent s) \<and> wa_iGate (wa s) = GateReady)
    \<and> parent_queued s = 0 \<and> parent_resumed s = 0 \<and> wa_iLeft (wa s) = 0"
proof -
  have "at_pc CLast (children s) = 1" "at_pc CWake (children s) = 0" "(of_bool (gating (parent s)) :: int) = 0"
    "(of_bool (linking (parent s) \<and> wa_iGate (wa s) = GateReady) :: int) = 0" "int (parent_queued s) = 0" "int (parent_resumed s) = 0"
    using one_wakeup [OF assms(1)] assms(2) wakeups_parts [of s] unfolding wakeups_def by linarith+
  moreover have "wa_iLeft (wa s) = 0" using no_wakeups [OF assms(1)] assms(2) by auto
  ultimately show ?thesis by auto
qed

lemma waking_child:
  assumes "count_ok s" "0 < at_pc CWake (children s)"
  shows "at_pc CLast (children s) = 0 \<and> at_pc CWake (children s) = 1 \<and> parent s = PSuspended \<and> parent_queued s = 0 \<and> parent_resumed s = 0 \<and> wa_iLeft (wa s) = 0"
proof -
  have "at_pc CLast (children s) = 0" "at_pc CWake (children s) = 1" "int (parent_queued s) = 0" "int (parent_resumed s) = 0"
    using one_wakeup [OF assms(1)] assms(2) wakeups_parts [of s] unfolding wakeups_def by linarith+
  moreover have "wa_iLeft (wa s) = 0" using no_wakeups [OF assms(1)] assms(2) by auto
  moreover have "\<not> linking (parent s)" using assms by (auto simp: count_ok_def)
  moreover have "parent s \<noteq> PRunning" using assms(1) \<open>int (parent_resumed s) = 0\<close> by (auto simp: count_ok_def)
  ultimately show ?thesis by (cases "parent s") auto
qed

lemma queued_parent:
  assumes "count_ok s" "0 < parent_queued s"
  shows "at_pc CLast (children s) = 0 \<and> at_pc CWake (children s) = 0 \<and> parent s = PSuspended \<and> parent_queued s = 1 \<and> parent_resumed s = 0 \<and> wa_iLeft (wa s) = 0"
proof -
  have "at_pc CLast (children s) = 0" "at_pc CWake (children s) = 0" "int (parent_queued s) = 1" "int (parent_resumed s) = 0"
    using one_wakeup [OF assms(1)] assms(2) wakeups_parts [of s] unfolding wakeups_def by linarith+
  moreover have "wa_iLeft (wa s) = 0" using no_wakeups [OF assms(1)] assms(2) by auto
  moreover have "\<not> linking (parent s)" using assms by (auto simp: count_ok_def)
  moreover have "parent s \<noteq> PRunning" using assms(1) \<open>int (parent_resumed s) = 0\<close> by (auto simp: count_ok_def)
  ultimately show ?thesis by (cases "parent s") auto
qed

lemma gate_of_parent:
  assumes "count_ok s" "gating (parent s) \<or> linking (parent s) \<and> wa_iGate (wa s) = GateReady"
  shows "at_pc CLast (children s) = 0 \<and> at_pc CWake (children s) = 0 \<and> parent_queued s = 0 \<and> parent_resumed s = 0 \<and> wa_iLeft (wa s) = 0
    \<and> \<not> (gating (parent s) \<and> wa_iGate (wa s) = GateReady)"
proof -
  have "(1 :: int) \<le> of_bool (gating (parent s)) + of_bool (linking (parent s) \<and> wa_iGate (wa s) = GateReady)"
    using assms(2) by auto
  then have "at_pc CLast (children s) = 0" "at_pc CWake (children s) = 0" "int (parent_queued s) = 0" "int (parent_resumed s) = 0"
    "(of_bool (gating (parent s)) :: int) + of_bool (linking (parent s) \<and> wa_iGate (wa s) = GateReady) \<le> 1"
    using one_wakeup [OF assms(1)] wakeups_parts [of s] unfolding wakeups_def by linarith+
  moreover have "wa_iLeft (wa s) = 0" using no_wakeups [OF assms(1)] assms(2) by auto
  ultimately show ?thesis using gating_linking [of "parent s"] by auto
qed

fun open_pc :: "child_pc \<Rightarrow> bool" where
  "open_pc CLast = False"
| "open_pc CWake = False"
| "open_pc COver = False"
| "open_pc _ = True"

lemma uncounted_update [simp]:
  "i < length cs \<Longrightarrow> uncounted (cs[i := v]) = uncounted cs + of_bool (open_pc v) - of_bool (open_pc (cs ! i))"
  by (cases v; cases "cs ! i"; simp add: uncounted_def)

lemma uncounted_pos: "i < length cs \<Longrightarrow> open_pc (cs ! i) \<Longrightarrow> 0 < uncounted cs"
  using at_pc_pos [of i cs "cs ! i"] at_pc_nonneg [of CRun cs] at_pc_nonneg [of CEarly cs] at_pc_nonneg [of CLinked cs] at_pc_nonneg [of CTaken cs]
  by (cases "cs ! i") (simp_all add: uncounted_def del: at_pc_nonneg)

text \<open>A child has counted itself: it is the last one, or others are left.\<close>

lemma counted_ok:
  assumes ok: "count_ok s" and i: "i < length (children s)" "children s ! i = CTaken" and b: "b = (wa_iLeft (wa s) = 1)"
  shows "count_ok (s\<lparr>wa := (wa s)\<lparr>wa_iLeft := wa_iLeft (wa s) - 1\<rparr>, children := (children s)[i := (if b then CLast else COver)]\<rparr>)"
proof -
  have un: "uncounted ((children s)[i := (if b then CLast else COver)]) = uncounted (children s) - 1" "0 < uncounted (children s)"
    using uncounted_pos [of i "children s"] i by auto
  have left: "0 < wa_iLeft (wa s)" "int (wa_iLeft (wa s)) = uncounted (children s)" using ok un(2) by (simp_all add: count_ok_def)
  note none = no_wakeups [OF ok left(1)]
  have "int (wa_iLeft (wa s) - 1) = uncounted (children s) - 1" using left by (simp add: of_nat_diff)
  moreover have "(wa_iLeft (wa s) - 1 = 0) = b" using left(1) b by auto
  moreover have "linking (parent s) \<Longrightarrow> wa_iGate (wa s) \<noteq> GateWaiting" "parent s = PSuspended \<Longrightarrow> wa_iGate (wa s) = GateWaiting" "parent s \<noteq> PRunning"
    using ok left(1) none by (auto simp: count_ok_def)
  ultimately show ?thesis using none i un(1) by (cases b) (auto simp: count_ok_def wakeups_def)
qed

lemma gated_ok:
  assumes ok: "count_ok s" and i: "i < length (children s)" "children s ! i = CLast" and b: "b = (wa_iGate (wa s) = GateWaiting)"
  shows "count_ok (s\<lparr>wa := (wa s)\<lparr>wa_iGate := GateReady\<rparr>, children := (children s)[i := (if b then CWake else COver)]\<rparr>)"
proof -
  have last: "0 < at_pc CLast (children s)" by (rule at_pc_pos [OF i])
  note none = last_child [OF ok last]
  have un: "uncounted ((children s)[i := (if b then CWake else COver)]) = uncounted (children s)" "uncounted (children s) = 0"
    using ok none i by (auto simp: count_ok_def)
  have "parent s \<noteq> PRunning" "linking (parent s) = (\<not> b)"
    using ok none last b by (cases "parent s"; simp add: count_ok_def)+
  then show ?thesis using none i un by (cases b) (auto simp: count_ok_def wakeups_def)
qed

lemma step_count: "join_step s s' \<Longrightarrow> slots_ok n s \<Longrightarrow> count_ok s \<Longrightarrow> count_ok s'"
proof (induction rule: join_step.induct)
  case (child_count i s b st)
  then show ?case using counted_ok [of s i b] by (simp add: OnReady_count_def)
next
  case (child_gate i s b st)
  then show ?case using gated_ok [of s i b] by (simp add: OnReady_gate_def)
next
  case (child_wake i s)
  note none = waking_child [OF child_wake(4) at_pc_pos [OF child_wake(1,2)]]
  have "int (wa_iLeft (wa s)) = uncounted (children s)" using child_wake by (simp add: count_ok_def)
  then show ?case using child_wake(1,2) none by (simp add: count_ok_def wakeups_def)
next
  case (parent_count s i b st)
  then have i: "i < length (children s)" "children s ! i = CEarly" by (auto simp: slots_ok_def)
  then have un: "uncounted ((children s)[i := COver]) = uncounted (children s) - 1" "0 < uncounted (children s)"
    using uncounted_pos [of i "children s"] by auto
  have left: "0 < wa_iLeft (wa s)" "int (wa_iLeft (wa s)) = uncounted (children s)" using parent_count un(2) by (simp_all add: count_ok_def)
  then have "int (wa_iLeft (wa s) - 1) = uncounted (children s) - 1" "(wa_iLeft (wa s) - 1 = 0) = (wa_iLeft (wa s) = 1)" by (auto simp: of_nat_diff)
  moreover have "wa_iGate (wa s) \<noteq> GateWaiting" using parent_count by (simp add: count_ok_def)
  ultimately show ?case using parent_count(1,2) i un(1) no_wakeups [OF parent_count(4) left(1)]
    by (cases b) (auto simp: count_ok_def wakeups_def OnReady_count_def)
next
  case (parent_gate s i)
  have "gating (parent s)" using parent_gate by simp
  note none = gate_of_parent [OF parent_gate(3) disjI1 [OF this]]
  have "int (wa_iLeft (wa s)) = uncounted (children s)" using parent_gate by (simp add: count_ok_def)
  then show ?case using parent_gate(1) none by (simp add: count_ok_def wakeups_def OnReady_gate_def)
next
  case (arm_sleep s st)
  then show ?case by (auto simp: count_ok_def wakeups_def WhenAll_arm_def)
next
  case (arm_go s st)
  have "linking (parent s) \<and> wa_iGate (wa s) = GateReady" using arm_go by (simp add: WhenAll_arm_def)
  note none = gate_of_parent [OF arm_go(4) disjI2 [OF this]]
  have "int (wa_iLeft (wa s)) = uncounted (children s)" using arm_go by (simp add: count_ok_def)
  then show ?case using arm_go(1,2) none by (auto simp: count_ok_def wakeups_def WhenAll_arm_def)
next
  case (parent_run s)
  note none = queued_parent [OF parent_run(3,1)]
  have "int (wa_iLeft (wa s)) = uncounted (children s)" using parent_run by (simp add: count_ok_def)
  then show ?case using none by (simp add: count_ok_def wakeups_def)
qed (simp_all add: count_ok_def wakeups_def join_defs)

lemma join_reach_ok: "join_reach n s \<Longrightarrow> slots_ok n s \<and> count_ok s"
proof (induction rule: join_reach.induct)
  case start
  then show ?case by (auto simp: slots_ok_def count_ok_def uncounted_def wakeups_def WhenAll_start_def)
next
  case (step s s')
  then show ?case using step_slots step_count by blast
qed

lemma uncounted_zero: "uncounted cs = 0 \<longleftrightarrow> (\<forall>c \<in> set cs. \<not> open_pc c)"
proof (induction cs)
  case (Cons c cs)
  have "uncounted (c # cs) = of_bool (open_pc c) + uncounted cs" by (cases c) (simp_all add: uncounted_def)
  moreover have "0 \<le> uncounted cs" by (simp add: uncounted_def)
  ultimately show ?case using Cons by (cases "open_pc c") auto
qed (simp add: uncounted_def)

text \<open>
  C19: \<open>WhenAll\<close> loses no wakeup and makes none too many. In every interleaving of the parent, which links its slots
  one by one, with the children, which may complete at any moment, the parent goes on at most once and is scheduled at most once; it
  goes on only when every child has completed; and when the last child is through, a suspended parent is scheduled.
\<close>

theorem when_all_once:
  assumes "join_reach n s"
  shows "parent_queued s + parent_resumed s \<le> 1 \<and> (parent s = PRunning \<longleftrightarrow> parent_resumed s = 1)
    \<and> (parent s = PRunning \<or> 0 < parent_queued s \<longrightarrow> (\<forall>c \<in> set (children s). \<not> open_pc c))
    \<and> (set (children s) \<subseteq> {COver} \<and> parent s = PSuspended \<longrightarrow> parent_queued s = 1)"
proof -
  have ok: "count_ok s" using join_reach_ok [OF assms] by simp
  have one: "int (parent_queued s) + int (parent_resumed s) \<le> 1"
    using one_wakeup [OF ok] wakeups_parts [of s] unfolding wakeups_def by linarith
  have "uncounted (children s) = 0" if "parent s = PRunning \<or> 0 < parent_queued s"
    using that ok no_wakeups [OF ok] by (cases "wa_iLeft (wa s)") (auto simp: count_ok_def)
  moreover have "parent_queued s = 1" if all: "set (children s) \<subseteq> {COver}" and p: "parent s = PSuspended"
  proof -
    have "at_pc CLast (children s) = 0" "at_pc CWake (children s) = 0" using all by (auto simp: at_pc_zero_iff)
    moreover have "uncounted (children s) = 0" using all uncounted_zero by fastforce
    moreover have "int (wa_iLeft (wa s)) = uncounted (children s)" "wakeups s = of_bool (wa_iLeft (wa s) = 0)" "parent_resumed s = 0"
      using ok p by (auto simp: count_ok_def)
    ultimately show ?thesis using p by (simp add: wakeups_def)
  qed
  moreover have "parent s = PRunning \<longleftrightarrow> parent_resumed s = 1" using ok one by (auto simp: count_ok_def)
  ultimately show ?thesis using one uncounted_zero [of "children s"] by auto
qed

definition demo_join :: join_run where
  "demo_join = \<lparr>wa = \<lparr>wa_iLeft = 0, wa_iGate = GateReady\<rparr>, parent = PSuspended, children = [COver], parent_queued = 1, parent_resumed = 0\<rparr>"

lemma demo_join_reach: "join_reach 1 demo_join"
proof -
  let ?s0 = "\<lparr>wa = WhenAll_start 1, parent = PLink 0, children = [CRun], parent_queued = 0, parent_resumed = 0\<rparr>"
  let ?s1 = "?s0\<lparr>parent := PLink 1, children := [CLinked]\<rparr>"
  let ?s2 = "?s1\<lparr>wa := \<lparr>wa_iLeft = 1, wa_iGate = GateWaiting\<rparr>, parent := PSuspended\<rparr>"
  let ?s3 = "?s2\<lparr>children := [CTaken]\<rparr>"
  let ?s4 = "?s3\<lparr>wa := \<lparr>wa_iLeft = 0, wa_iGate = GateWaiting\<rparr>, children := [CLast]\<rparr>"
  let ?s5 = "?s4\<lparr>wa := \<lparr>wa_iLeft = 0, wa_iGate = GateReady\<rparr>, children := [CWake]\<rparr>"
  have "join_reach 1 ?s0" using join_reach.start [of 1] by simp
  moreover have "join_step ?s0 ?s1" using link [of ?s0 0] by simp
  moreover have "join_step ?s1 ?s2" using arm_sleep [of ?s1] by (simp add: WhenAll_arm_def WhenAll_start_def)
  moreover have "join_step ?s2 ?s3" using complete [of 0 ?s2] by simp
  moreover have "join_step ?s3 ?s4" using child_count [of 0 ?s3] by (simp add: OnReady_count_def)
  moreover have "join_step ?s4 ?s5" using child_gate [of 0 ?s4] by (simp add: OnReady_gate_def)
  moreover have "join_step ?s5 demo_join" using child_wake [of 0 ?s5] by (simp add: demo_join_def)
  ultimately show ?thesis by (meson join_reach.step)
qed

theorem when_all_once_witness: "parent demo_join = PSuspended \<and> set (children demo_join) \<subseteq> {COver} \<and> parent_queued demo_join = 1"
  using when_all_once [OF demo_join_reach] by (simp add: demo_join_def)

text \<open>
  What \<open>WhenAll\<close> makes of the outcomes, awaited one after the other: all the values in the order of the tasks, or the
  first failure in this order, whichever task failed first in time.
\<close>

fun WhenAll_collect :: "'r outcome list \<Rightarrow> 'r list outcome" where
  "WhenAll_collect [] = Returned []"
| "WhenAll_collect (Threw e # os) = Threw e"
| "WhenAll_collect (NoResult # os) = NoResult"
| "WhenAll_collect (Returned v # os) =
     (case WhenAll_collect os of Returned vs \<Rightarrow> Returned (v # vs) | Threw e \<Rightarrow> Threw e | NoResult \<Rightarrow> NoResult)"

lemma WhenAll_collect_all: "WhenAll_collect (map Returned vs) = Returned vs"
  by (induction vs) auto

lemma WhenAll_collect_values: "WhenAll_collect os = Returned vs \<Longrightarrow> os = map Returned vs"
  by (induction os arbitrary: vs rule: WhenAll_collect.induct) (auto split: outcome.splits)

lemma WhenAll_collect_first: "WhenAll_collect (map Returned vs @ Threw e # os) = Threw e"
  by (induction vs) auto

section \<open>TaskScope\<close>

record ScopeState =
  pStop :: bool
  iActive :: nat
  vWaiters :: "nat list"
  bClosed :: bool
  scope_stError :: "nat option"

definition ScopeState_new :: ScopeState where
  "ScopeState_new = \<lparr>pStop = False, iActive = 0, vWaiters = [], bClosed = False, scope_stError = None\<rparr>"

text \<open>A closed scope refuses (\<open>None\<close>, a \<open>logic_error\<close>); else the task's number, the counter of numbers and the scope.\<close>

definition TaskScope_Start :: "u64 \<Rightarrow> ScopeState \<Rightarrow> (u64 \<times> u64 \<times> ScopeState) option" where
  "TaskScope_Start g s = (if bClosed s then None else let (t, g') = AllocTaskUid g in Some (t, g', s\<lparr>iActive := iActive s + 1\<rparr>))"

definition TaskScope_RequestStop :: "ScopeState \<Rightarrow> ScopeState" where
  "TaskScope_RequestStop s = s\<lparr>bClosed := True, pStop := True\<rparr>"

text \<open>\<open>Run\<close> around a task of the scope: the exception handler, and the end that takes the waiters.\<close>

definition Run_catch :: "nat \<Rightarrow> ScopeState \<Rightarrow> ScopeState" where
  "Run_catch e s = s\<lparr>scope_stError := (if scope_stError s = None then Some e else scope_stError s), pStop := True\<rparr>"

definition Run_end :: "ScopeState \<Rightarrow> nat list \<times> ScopeState" where
  "Run_end s = (let u = s\<lparr>iActive := iActive s - 1\<rparr> in if iActive u = 0 then (vWaiters u, u\<lparr>vWaiters := []\<rparr>) else ([], u))"

definition Join_suspend :: "nat \<Rightarrow> ScopeState \<Rightarrow> bool \<times> ScopeState" where
  "Join_suspend h s = (let u = s\<lparr>bClosed := True\<rparr> in if iActive u = 0 then (False, u) else (True, u\<lparr>vWaiters := vWaiters u @ [h]\<rparr>))"

definition Join_resume :: "ScopeState \<Rightarrow> nat option" where
  "Join_resume s = scope_stError s"

datatype member_pc = TRun | TCaught | TWaking "nat list"
datatype joiner_pc = JNew | JSuspended | JScheduled | JRunning | JRead "nat option"

record scope_run =
  scope :: ScopeState
  members :: "member_pc list"
  joiners :: "joiner_pc list"
  scope_queue :: "nat list"
  failures :: "nat list"

inductive scope_step :: "scope_run \<Rightarrow> scope_run \<Rightarrow> bool" where
  begin_task: "TaskScope_Start g (scope s) = Some (t, g', c) \<Longrightarrow> scope_step s (s\<lparr>scope := c, members := members s @ [TRun]\<rparr>)"
| stop: "scope_step s (s\<lparr>scope := TaskScope_RequestStop (scope s)\<rparr>)"
| fail: "i < length (members s) \<Longrightarrow> members s ! i = TRun \<Longrightarrow>
    scope_step s (s\<lparr>scope := Run_catch e (scope s), members := (members s)[i := TCaught], failures := failures s @ [e]\<rparr>)"
| end_task: "i < length (members s) \<Longrightarrow> members s ! i \<in> {TRun, TCaught} \<Longrightarrow> Run_end (scope s) = (ws, c) \<Longrightarrow>
    scope_step s (s\<lparr>scope := c, members := (members s)[i := TWaking ws]\<rparr>)"
| wake_joiner: "i < length (members s) \<Longrightarrow> members s ! i = TWaking (j # ws) \<Longrightarrow> j < length (joiners s) \<Longrightarrow>
    scope_step s (s\<lparr>members := (members s)[i := TWaking ws], joiners := (joiners s)[j := JScheduled], scope_queue := scope_queue s @ [j]\<rparr>)"
| new_joiner: "scope_step s (s\<lparr>joiners := joiners s @ [JNew]\<rparr>)"
| join: "j < length (joiners s) \<Longrightarrow> joiners s ! j = JNew \<Longrightarrow> Join_suspend j (scope s) = (b, c) \<Longrightarrow>
    scope_step s (s\<lparr>scope := c, joiners := (joiners s)[j := (if b then JSuspended else JRunning)]\<rparr>)"
| run_joiner: "scope_queue s = hs @ [j] @ hs' \<Longrightarrow> j < length (joiners s) \<Longrightarrow>
    scope_step s (s\<lparr>scope_queue := hs @ hs', joiners := (joiners s)[j := JRunning]\<rparr>)"
| read_joiner: "j < length (joiners s) \<Longrightarrow> joiners s ! j = JRunning \<Longrightarrow> scope_step s (s\<lparr>joiners := (joiners s)[j := JRead (Join_resume (scope s))]\<rparr>)"

inductive scope_reach :: "scope_run \<Rightarrow> bool" where
  start: "scope_reach \<lparr>scope = ScopeState_new, members = [], joiners = [], scope_queue = [], failures = []\<rparr>"
| step: "scope_reach s \<Longrightarrow> scope_step s s' \<Longrightarrow> scope_reach s'"

fun to_wake :: "member_pc list \<Rightarrow> nat multiset" where
  "to_wake [] = {#}"
| "to_wake (TWaking ws # ms) = mset ws + to_wake ms"
| "to_wake (m # ms) = to_wake ms"

fun own_wakes :: "member_pc \<Rightarrow> nat multiset" where
  "own_wakes (TWaking ws) = mset ws"
| "own_wakes _ = {#}"

lemma to_wake_append [simp]: "to_wake (ms @ [m]) = to_wake ms + own_wakes m"
  by (induction ms rule: to_wake.induct) (cases m; auto)+

lemma to_wake_update: "i < length ms \<Longrightarrow> to_wake (ms[i := m]) + own_wakes (ms ! i) = to_wake ms + own_wakes m"
proof (induction ms arbitrary: i rule: to_wake.induct)
  case 1
  then show ?case by simp
qed (cases m; auto simp: nth_Cons split: nat.splits)+

text \<open>The tasks that run are counted, and who is suspended is exactly who will be woken.\<close>

definition active_ok :: "scope_run \<Rightarrow> bool" where
  "active_ok s \<longleftrightarrow> int (iActive (scope s)) = at_pc TRun (members s) + at_pc TCaught (members s)"

definition waiting_ok :: "scope_run \<Rightarrow> bool" where
  "waiting_ok s \<longleftrightarrow> mset (vWaiters (scope s)) + to_wake (members s) = mset_set (at_await (joiners s) JSuspended)
     \<and> mset (scope_queue s) = mset_set (at_await (joiners s) JScheduled)"

text \<open>A scope somebody waits for is closed; who goes on finds it empty.\<close>

definition settled :: "ScopeState \<Rightarrow> bool" where
  "settled c \<longleftrightarrow> bClosed c \<and> iActive c = 0"

fun past_join :: "ScopeState \<Rightarrow> joiner_pc \<Rightarrow> bool" where
  "past_join c (JRead e) \<longleftrightarrow> settled c \<and> e = scope_stError c"
| "past_join c JScheduled \<longleftrightarrow> settled c"
| "past_join c JRunning \<longleftrightarrow> settled c"
| "past_join c _ \<longleftrightarrow> True"

definition closed_ok :: "scope_run \<Rightarrow> bool" where
  "closed_ok s \<longleftrightarrow> (vWaiters (scope s) \<noteq> [] \<longrightarrow> bClosed (scope s) \<and> 0 < iActive (scope s)) \<and> (to_wake (members s) \<noteq> {#} \<longrightarrow> settled (scope s))
     \<and> list_all (past_join (scope s)) (joiners s)"

definition failure_ok :: "scope_run \<Rightarrow> bool" where
  "failure_ok s \<longleftrightarrow> scope_stError (scope s) = (if failures s = [] then None else Some (hd (failures s)))
     \<and> (failures s \<noteq> [] \<longrightarrow> pStop (scope s))"

lemmas scope_defs = TaskScope_Start_def TaskScope_RequestStop_def Run_catch_def Run_end_def Join_suspend_def Join_resume_def Let_def

lemma step_active: "scope_step s s' \<Longrightarrow> active_ok s \<Longrightarrow> active_ok s'"
proof (induction rule: scope_step.induct)
  case (end_task i s ws c)
  then have "0 < at_pc TRun (members s) + at_pc TCaught (members s)"
    using at_pc_pos [of i "members s" TRun] at_pc_pos [of i "members s" TCaught] at_pc_nonneg [of TRun "members s"]
      at_pc_nonneg [of TCaught "members s"] by (auto simp del: at_pc_nonneg)
  then have "0 < iActive (scope s)" using end_task by (simp add: active_ok_def)
  then show ?case using end_task by (auto simp: active_ok_def scope_defs of_nat_diff split: if_splits)
qed (auto simp: active_ok_def scope_defs split: if_splits prod.splits)

lemma step_failure: "scope_step s s' \<Longrightarrow> failure_ok s \<Longrightarrow> failure_ok s'"
  by (induction rule: scope_step.induct) (auto simp: failure_ok_def scope_defs split: if_splits prod.splits)

lemma finite_at_await [simp]: "finite (at_await as a)"
  by (simp add: at_await_def)

lemma suspended_once:
  assumes "waiting_ok s" "i < length (members s)" "members s ! i = TWaking (j # ws)"
  shows "joiners s ! j = JSuspended \<and> to_wake (members s) \<noteq> {#}"
proof -
  have "j \<in># to_wake (members s)" using to_wake_update [of i "members s" TRun] assms(2,3) by (metis insert_noteq_member list.set_intros(1) mset_subset_eq_add_left mset_subset_eqD own_wakes.simps(1,2) set_mset_mset union_iff empty_neutral(2))
  then have "j \<in> at_await (joiners s) JSuspended" using assms(1) by (metis finite_at_await finite_set_mset_mset_set union_iff waiting_ok_def)
  then show ?thesis using \<open>j \<in># to_wake (members s)\<close> by (auto simp: at_await_iff)
qed

lemma queued_once:
  assumes "waiting_ok s" "scope_queue s = hs @ [j] @ hs'"
  shows "joiners s ! j = JScheduled"
proof -
  have "j \<in># mset (scope_queue s)" using assms(2) by simp
  then have "j \<in> at_await (joiners s) JScheduled" using assms(1) by (metis finite_at_await finite_set_mset_mset_set waiting_ok_def)
  then show ?thesis by (simp add: at_await_iff)
qed

lemma mset_set_take: "finite A \<Longrightarrow> i \<in> A \<Longrightarrow> mset_set A = add_mset i (mset_set (A - {i}))"
  by (simp add: mset_set.remove)

lemma step_waiting: "scope_step s s' \<Longrightarrow> waiting_ok s \<Longrightarrow> waiting_ok s'"
proof (induction rule: scope_step.induct)
  case (begin_task g s t g' c)
  then show ?case by (auto simp: waiting_ok_def scope_defs split: if_splits prod.splits)
next
  case (fail i s e)
  then show ?case using to_wake_update [of i "members s" TCaught] by (simp add: waiting_ok_def scope_defs)
next
  case (end_task i s ws c)
  then have "own_wakes (members s ! i) = {#}" by auto
  then have "to_wake ((members s)[i := TWaking ws]) = to_wake (members s) + mset ws" using end_task to_wake_update [of i "members s" "TWaking ws"] by simp
  then show ?case using end_task by (auto simp: waiting_ok_def scope_defs ac_simps split: if_splits)
next
  case (wake_joiner i s j ws)
  then have "joiners s ! j = JSuspended" using suspended_once by blast
  moreover have "to_wake (members s) = add_mset j (to_wake ((members s)[i := TWaking ws]))"
    using wake_joiner to_wake_update [of i "members s" "TWaking ws"] by simp
  ultimately show ?case using wake_joiner mset_set_take [of "at_await (joiners s) JSuspended" j]
    by (auto simp: waiting_ok_def at_await_iff)
next
  case (join j s b c)
  then show ?case by (auto simp: waiting_ok_def scope_defs at_await_iff split: if_splits)
next
  case (run_joiner s hs j hs')
  then have "joiners s ! j = JScheduled" using queued_once by blast
  then show ?case using run_joiner mset_set_take [of "at_await (joiners s) JScheduled" j] by (auto simp: waiting_ok_def at_await_iff)
qed (auto simp: waiting_ok_def scope_defs at_await_iff)

lemma past_join_mono: "list_all (past_join c) js \<Longrightarrow> (settled c \<Longrightarrow> settled c' \<and> scope_stError c' = scope_stError c) \<Longrightarrow> list_all (past_join c') js"
  by (erule list.pred_mono_strong) (metis past_join.simps joiner_pc.exhaust)

lemma running_unsettled:
  assumes "active_ok s" "i < length (members s)" "members s ! i \<in> {TRun, TCaught}"
  shows "0 < iActive (scope s) \<and> \<not> settled (scope s)"
proof -
  have "0 < at_pc TRun (members s) + at_pc TCaught (members s)"
    using assms at_pc_pos [of i "members s" TRun] at_pc_pos [of i "members s" TCaught] at_pc_nonneg [of TRun "members s"]
      at_pc_nonneg [of TCaught "members s"] by (auto simp del: at_pc_nonneg)
  then show ?thesis using assms(1) by (simp add: active_ok_def settled_def)
qed

lemma step_closed: "scope_step s s' \<Longrightarrow> active_ok s \<Longrightarrow> waiting_ok s \<Longrightarrow> closed_ok s \<Longrightarrow> closed_ok s'"
proof (induction rule: scope_step.induct)
  case (begin_task g s t g' c)
  then have "\<not> settled (scope s)" "c = (scope s)\<lparr>iActive := iActive (scope s) + 1\<rparr>"
    by (auto simp: scope_defs settled_def split: if_splits prod.splits)
  then show ?case using begin_task by (auto simp: closed_ok_def elim!: past_join_mono)
next
  case (stop s)
  then show ?case by (auto simp: closed_ok_def scope_defs settled_def elim!: past_join_mono)
next
  case (fail i s e)
  then have "\<not> settled (scope s)" using running_unsettled [of s i] by simp
  then show ?case using fail to_wake_update [of i "members s" TCaught] by (auto simp: closed_ok_def scope_defs elim!: past_join_mono)
next
  case (end_task i s ws c)
  then have pos: "0 < iActive (scope s)" "\<not> settled (scope s)" using running_unsettled [of s i] by simp_all
  have "own_wakes (members s ! i) = {#}" using end_task by auto
  then have "to_wake ((members s)[i := TWaking ws]) = to_wake (members s) + mset ws" using end_task to_wake_update [of i "members s" "TWaking ws"] by simp
  then show ?case using end_task pos by (auto simp: closed_ok_def scope_defs settled_def elim!: past_join_mono split: if_splits)
next
  case (wake_joiner i s j ws)
  then have "settled (scope s)" using suspended_once [of s i j ws] by (simp add: closed_ok_def)
  then show ?case using wake_joiner by (simp add: closed_ok_def list_all_update)
next
  case (join j s b c)
  then have "list_all (past_join c) (joiners s)" by (auto simp: closed_ok_def scope_defs settled_def elim!: past_join_mono split: if_splits)
  then show ?case using join by (auto simp: closed_ok_def scope_defs settled_def intro!: list_all_update split: if_splits)
next
  case (run_joiner s hs j hs')
  then have "joiners s ! j = JScheduled" using queued_once by blast
  then have "settled (scope s)" using run_joiner list_all_nth [of "past_join (scope s)" "joiners s" j] by (auto simp: closed_ok_def)
  then show ?case using run_joiner by (simp add: closed_ok_def list_all_update)
next
  case (read_joiner j s)
  then have "settled (scope s)" using list_all_nth [of "past_join (scope s)" "joiners s" j] by (auto simp: closed_ok_def)
  then show ?case using read_joiner by (simp add: closed_ok_def list_all_update Join_resume_def)
qed (auto simp: closed_ok_def)

lemma all_woken: "set ms \<subseteq> {TWaking []} \<Longrightarrow> to_wake ms = {#}"
  by (induction ms) auto

lemma distinct_of_mset_set: "mset xs = mset_set (A :: nat set) \<Longrightarrow> distinct xs"
  by (cases "finite A") (auto simp: distinct_count_atmost_1 count_mset_set' finite_set_mset_mset_set dest: arg_cong [where f = set_mset])

definition scope_ok :: "scope_run \<Rightarrow> bool" where
  "scope_ok s \<longleftrightarrow> active_ok s \<and> waiting_ok s \<and> closed_ok s \<and> failure_ok s"

lemma scope_reach_ok: "scope_reach s \<Longrightarrow> scope_ok s"
proof (induction rule: scope_reach.induct)
  case start
  show ?case by (simp add: scope_ok_def active_ok_def waiting_ok_def closed_ok_def failure_ok_def ScopeState_new_def at_await_def)
next
  case (step s s')
  then show ?case using step_active step_waiting step_closed step_failure unfolding scope_ok_def by blast
qed

text \<open>
  C21: joining a scope. A coroutine goes on from \<open>Join\<close> only when every task that was ever started in the scope has
  ended, and no task can be started any more; it gets the exception of the first task that failed, if one did.
  When no task runs and every ended task has woken its share, nobody is suspended in \<open>Join\<close>; each coroutine is
  scheduled at most once.
\<close>

theorem scope_joined:
  assumes "scope_reach s"
  shows "(\<forall>j < length (joiners s). joiners s ! j = JRunning \<or> (\<exists>e. joiners s ! j = JRead e) \<longrightarrow>
            TRun \<notin> set (members s) \<and> TCaught \<notin> set (members s) \<and> (\<forall>g. TaskScope_Start g (scope s) = None))
    \<and> (\<forall>j < length (joiners s). \<forall>e. joiners s ! j = JRead e \<longrightarrow> e = (if failures s = [] then None else Some (hd (failures s))))
    \<and> (set (members s) \<subseteq> {TWaking []} \<longrightarrow> JSuspended \<notin> set (joiners s)) \<and> distinct (scope_queue s)"
proof -
  have ok: "active_ok s" "waiting_ok s" "closed_ok s" "failure_ok s" using scope_reach_ok [OF assms] by (simp_all add: scope_ok_def)
  have past: "past_join (scope s) (joiners s ! j)" if "j < length (joiners s)" for j
    using ok(3) that by (simp add: closed_ok_def list_all_length)
  have gone: "TRun \<notin> set (members s) \<and> TCaught \<notin> set (members s) \<and> (\<forall>g. TaskScope_Start g (scope s) = None)" if "settled (scope s)"
  proof -
    have "0 = at_pc TRun (members s) + at_pc TCaught (members s)" using ok(1) that by (simp add: active_ok_def settled_def)
    then show ?thesis using that by (simp add: settled_def TaskScope_Start_def add_nonneg_eq_0_iff flip: at_pc_zero_iff)
  qed
  have "JSuspended \<notin> set (joiners s)" if all: "set (members s) \<subseteq> {TWaking []}"
  proof -
    have "to_wake (members s) = {#}" using all by (rule all_woken)
    moreover have "at_pc TRun (members s) = 0" "at_pc TCaught (members s) = 0" using all by (auto simp: at_pc_zero_iff)
    then have "iActive (scope s) = 0" using ok(1) by (simp add: active_ok_def)
    ultimately have "at_await (joiners s) JSuspended = {}" using ok(2,3) by (auto simp: waiting_ok_def closed_ok_def mset_set_empty_iff)
    then show ?thesis by (auto simp: at_await_def in_set_conv_nth)
  qed
  moreover have "distinct (scope_queue s)" using ok(2) distinct_of_mset_set by (auto simp: waiting_ok_def)
  moreover have "settled (scope s)" if "j < length (joiners s)" "joiners s ! j = JRunning \<or> (\<exists>e. joiners s ! j = JRead e)" for j
    using past [OF that(1)] that(2) by auto
  moreover have "e = (if failures s = [] then None else Some (hd (failures s)))" if "j < length (joiners s)" "joiners s ! j = JRead e" for j e
    using past [OF that(1)] that(2) ok(4) by (simp add: failure_ok_def)
  ultimately show ?thesis using gone by blast
qed

definition demo_scope :: scope_run where
  "demo_scope = \<lparr>scope = \<lparr>pStop = True, iActive = 0, vWaiters = [], bClosed = True, scope_stError = Some 4\<rparr>, members = [TWaking []],
     joiners = [JRead (Some 4)], scope_queue = [], failures = [4]\<rparr>"

lemma demo_scope_reach: "scope_reach demo_scope"
proof -
  let ?s0 = "\<lparr>scope = ScopeState_new, members = [], joiners = [], scope_queue = [], failures = []\<rparr>"
  let ?s1 = "?s0\<lparr>scope := ScopeState_new\<lparr>iActive := 1\<rparr>, members := [TRun]\<rparr>"
  let ?s2 = "?s1\<lparr>scope := Run_catch 4 (scope ?s1), members := [TCaught], failures := [4]\<rparr>"
  let ?s3 = "?s2\<lparr>scope := (scope ?s2)\<lparr>iActive := 0\<rparr>, members := [TWaking []]\<rparr>"
  let ?s4 = "?s3\<lparr>joiners := [JNew]\<rparr>"
  let ?s5 = "?s4\<lparr>scope := (scope ?s4)\<lparr>bClosed := True\<rparr>, joiners := [JRunning]\<rparr>"
  have "scope_step ?s0 ?s1" using begin_task [of 1 ?s0 1 2] by (simp add: TaskScope_Start_def AllocTaskUid_def ScopeState_new_def)
  moreover have "scope_step ?s1 ?s2" using fail [of 0 ?s1 4] by simp
  moreover have "scope_step ?s2 ?s3" using end_task [of 0 ?s2] by (simp add: scope_defs ScopeState_new_def)
  moreover have "scope_step ?s3 ?s4" using new_joiner [of ?s3] by simp
  moreover have "scope_step ?s4 ?s5" using join [of 0 ?s4 False] by (simp add: scope_defs ScopeState_new_def)
  moreover have "scope_step ?s5 demo_scope" using read_joiner [of 0 ?s5] by (simp add: demo_scope_def scope_defs ScopeState_new_def)
  ultimately show ?thesis using scope_reach.start by (meson scope_reach.step)
qed

theorem scope_joined_witness:
  "joiners demo_scope ! 0 = JRead (Some 4) \<and> TRun \<notin> set (members demo_scope) \<and> TaskScope_Start 9 (scope demo_scope) = None \<and> hd (failures demo_scope) = 4"
  using scope_joined [OF demo_scope_reach] by (simp add: demo_scope_def)

end
