(* ===== verification/OI_Admission.thy ===== *)
theory OI_Admission
  imports OI_Prelude
begin

text \<open>
  The quota of requests in flight (the first part of cbaselib/proto/src/oi_rpc_call.cpp). Every
  request that is handed to a handler holds a lease of one request and of the bytes of its body,
  against a limit of the process and a limit of its session; the destructor of the lease returns it.
  A session is a pair of a manager and a session id.

  The counters are \<open>size_t\<close> values with their wrap-around. What the lemmas show is that it never
  happens: the counters are at every moment the sums over the leases that are out.
\<close>

section \<open>State and operations\<close>

type_synonym session_key = "nat \<times> nat"

record usage =
  iCount :: nat
  iBytes :: nat

record admission =
  stTotal :: usage
  mAdmitted :: "session_key \<Rightarrow> usage option"
  iMaxCount :: nat
  iMaxBytes :: nat
  iSessionMaxCount :: nat
  iSessionMaxBytes :: nat

text \<open>\<open>RpcAdmissionLease\<close>; a lease that was moved from is not acquired and returns nothing.\<close>

record lease =
  stKey :: session_key
  iLeaseBytes :: nat
  bAcquired :: bool

abbreviation no_usage :: usage where
  "no_usage \<equiv> \<lparr>iCount = 0, iBytes = 0\<rparr>"

definition ReadLimit :: "int option \<Rightarrow> nat \<Rightarrow> nat option" where
  "ReadLimit cfg iLimit =
     (let iValue = (case cfg of Some v \<Rightarrow> v | None \<Rightarrow> int iLimit)
      in if iValue \<le> 0 \<or> iValue > int SIZE_MAX then None else Some (nat iValue))"

text \<open>\<open>RpcAdmission()\<close> and \<open>InitRpcAdmission\<close>: the constructor throws, that is \<open>None\<close>, on the first bad limit.\<close>

definition RpcAdmission :: "(string \<Rightarrow> int option) \<Rightarrow> admission option" where
  "RpcAdmission cfg =
     (case ReadLimit (cfg ''Rpc.max_inflight_count'') 65536 of None \<Rightarrow> None | Some a \<Rightarrow>
      (case ReadLimit (cfg ''Rpc.max_inflight_bytes'') (64 * 1024 * 1024) of None \<Rightarrow> None | Some b \<Rightarrow>
       (case ReadLimit (cfg ''Rpc.session_max_inflight_count'') 4096 of None \<Rightarrow> None | Some c \<Rightarrow>
        (case ReadLimit (cfg ''Rpc.session_max_inflight_bytes'') (16 * 1024 * 1024) of None \<Rightarrow> None | Some d \<Rightarrow>
          Some \<lparr>stTotal = no_usage, mAdmitted = (\<lambda>_. None), iMaxCount = a, iMaxBytes = b,
                iSessionMaxCount = c, iSessionMaxBytes = d\<rparr>))))"

definition InitRpcAdmission :: "(string \<Rightarrow> int option) \<Rightarrow> bool" where
  "InitRpcAdmission cfg = (case RpcAdmission cfg of None \<Rightarrow> False | Some _ \<Rightarrow> True)"

definition usage_add :: "nat \<Rightarrow> usage \<Rightarrow> usage" where
  "usage_add n u = \<lparr>iCount = (iCount u + 1) mod SIZE_MOD, iBytes = (iBytes u + n) mod SIZE_MOD\<rparr>"

definition usage_sub :: "nat \<Rightarrow> usage \<Rightarrow> usage" where
  "usage_sub n u = \<lparr>iCount = size_sub (iCount u) 1, iBytes = size_sub (iBytes u) n\<rparr>"

definition AcquireRpc :: "session_key \<Rightarrow> nat \<Rightarrow> admission \<Rightarrow> lease option \<times> admission" where
  "AcquireRpc key n a =
     (let stUsage = (case mAdmitted a key of None \<Rightarrow> no_usage | Some u \<Rightarrow> u)
      in if iCount (stTotal a) \<ge> iMaxCount a \<or> n > size_sub (iMaxBytes a) (iBytes (stTotal a))
            \<or> iCount stUsage \<ge> iSessionMaxCount a \<or> n > size_sub (iSessionMaxBytes a) (iBytes stUsage)
         then (None, a)
         else (Some \<lparr>stKey = key, iLeaseBytes = n, bAcquired = True\<rparr>,
               a\<lparr>mAdmitted := (mAdmitted a)(key \<mapsto> usage_add n stUsage), stTotal := usage_add n (stTotal a)\<rparr>))"

text \<open>
  The destructor. The code dereferences what \<open>find\<close> returns without a check; that the session is
  there whenever the lease is acquired is part of \<open>admission_exact\<close>.
\<close>

definition Lease_release :: "lease \<Rightarrow> admission \<Rightarrow> admission" where
  "Lease_release l a =
     (if \<not> bAcquired l then a
      else case mAdmitted a (stKey l) of None \<Rightarrow> a
           | Some u \<Rightarrow>
               (let u' = usage_sub (iLeaseBytes l) u;
                    a' = a\<lparr>stTotal := usage_sub (iLeaseBytes l) (stTotal a)\<rparr>
                in if iCount u' = 0 then a'\<lparr>mAdmitted := (mAdmitted a)(stKey l := None)\<rparr>
                   else a'\<lparr>mAdmitted := (mAdmitted a)(stKey l \<mapsto> u')\<rparr>))"

section \<open>Specification: the leases that are out\<close>

definition lease_usage :: "lease list \<Rightarrow> usage" where
  "lease_usage ls = \<lparr>iCount = length ls, iBytes = sum_list (map iLeaseBytes ls)\<rparr>"

definition of_session :: "session_key \<Rightarrow> lease list \<Rightarrow> lease list" where
  "of_session key ls = filter (\<lambda>l. stKey l = key) ls"

definition within :: "usage \<Rightarrow> nat \<Rightarrow> nat \<Rightarrow> bool" where
  "within u c b \<longleftrightarrow> iCount u \<le> c \<and> iBytes u \<le> b"

definition limits_ok :: "admission \<Rightarrow> bool" where
  "limits_ok a \<longleftrightarrow> iMaxCount a \<le> SIZE_MAX \<and> iMaxBytes a \<le> SIZE_MAX \<and> iSessionMaxCount a \<le> SIZE_MAX \<and> iSessionMaxBytes a \<le> SIZE_MAX"

definition exact :: "lease list \<Rightarrow> admission \<Rightarrow> bool" where
  "exact ls a \<longleftrightarrow> limits_ok a \<and> (\<forall>l \<in> set ls. bAcquired l)
     \<and> stTotal a = lease_usage ls \<and> within (stTotal a) (iMaxCount a) (iMaxBytes a)
     \<and> (\<forall>key. mAdmitted a key = (if of_session key ls = [] then None else Some (lease_usage (of_session key ls)))
          \<and> within (lease_usage (of_session key ls)) (iSessionMaxCount a) (iSessionMaxBytes a))"

text \<open>Requests come and end in any order.\<close>

inductive admission_run :: "admission \<Rightarrow> lease list \<Rightarrow> admission \<Rightarrow> bool" for a0 where
  init: "admission_run a0 [] a0"
| acquire: "admission_run a0 ls a \<Longrightarrow> AcquireRpc key n a = (Some l, a') \<Longrightarrow> admission_run a0 (l # ls) a'"
| refuse: "admission_run a0 ls a \<Longrightarrow> AcquireRpc key n a = (None, a') \<Longrightarrow> admission_run a0 ls a'"
| release: "admission_run a0 ls a \<Longrightarrow> l \<in> set ls \<Longrightarrow> admission_run a0 (remove1 l ls) (Lease_release l a)"

section \<open>Lemmas\<close>

lemma lease_usage_Nil [simp]: "lease_usage [] = no_usage"
  by (simp add: lease_usage_def)

lemma of_session_Cons [simp]: "of_session key (l # ls) = (if stKey l = key then l # of_session key ls else of_session key ls)"
  by (simp add: of_session_def)

lemma of_session_remove1:
  "of_session key (remove1 l ls) = (if stKey l = key then remove1 l (of_session key ls) else of_session key ls)"
  by (induction ls) (auto simp: of_session_def)

lemma sum_remove1: "l \<in> set ls \<Longrightarrow> f l + sum_list (map f (remove1 l ls)) = (sum_list (map f ls) :: nat)"
  by (induction ls) auto

lemma usage_sub_remove1:
  assumes "l \<in> set ls" and "length ls \<le> SIZE_MAX" and "sum_list (map iLeaseBytes ls) \<le> SIZE_MAX"
  shows "usage_sub (iLeaseBytes l) (lease_usage ls) = lease_usage (remove1 l ls)"
proof -
  have "0 < length ls" using assms(1) by (cases ls) simp_all
  moreover have "iLeaseBytes l \<le> sum_list (map iLeaseBytes ls)" using sum_remove1 [OF assms(1), of iLeaseBytes] by linarith
  ultimately show ?thesis using assms sum_remove1 [OF assms(1), of iLeaseBytes]
    by (simp add: usage_sub_def lease_usage_def length_remove1 Suc_le_eq size_sub_le [of 1, simplified])
qed

lemma usage_add_Cons:
  assumes "length ls < SIZE_MAX" and "iLeaseBytes l + sum_list (map iLeaseBytes ls) \<le> SIZE_MAX"
  shows "usage_add (iLeaseBytes l) (lease_usage ls) = lease_usage (l # ls)"
  using assms by (simp add: usage_add_def lease_usage_def add.commute)

lemma exactD:
  assumes "exact ls a"
  shows "limits_ok a" "\<And>l. l \<in> set ls \<Longrightarrow> bAcquired l" "stTotal a = lease_usage ls"
    "within (lease_usage ls) (iMaxCount a) (iMaxBytes a)"
    "mAdmitted a key = (if of_session key ls = [] then None else Some (lease_usage (of_session key ls)))"
    "within (lease_usage (of_session key ls)) (iSessionMaxCount a) (iSessionMaxBytes a)"
  using assms unfolding exact_def by metis+

lemma session_usage:
  "exact ls a \<Longrightarrow> (case mAdmitted a key of None \<Rightarrow> no_usage | Some u \<Rightarrow> u) = lease_usage (of_session key ls)"
  by (simp add: exactD(5))

lemma withinD: "within (lease_usage ls) c b \<Longrightarrow> length ls \<le> c \<and> sum_list (map iLeaseBytes ls) \<le> b"
  by (simp add: within_def lease_usage_def)

text \<open>A request is refused exactly when it would exceed one of the four limits.\<close>

definition would_exceed :: "lease list \<Rightarrow> session_key \<Rightarrow> nat \<Rightarrow> admission \<Rightarrow> bool" where
  "would_exceed ls key n a \<longleftrightarrow> length ls + 1 > iMaxCount a \<or> sum_list (map iLeaseBytes ls) + n > iMaxBytes a
     \<or> length (of_session key ls) + 1 > iSessionMaxCount a
     \<or> sum_list (map iLeaseBytes (of_session key ls)) + n > iSessionMaxBytes a"

lemma AcquireRpc_cases:
  fixes key :: session_key and n :: nat
  assumes "exact ls a"
  defines "l \<equiv> \<lparr>stKey = key, iLeaseBytes = n, bAcquired = True\<rparr>"
  shows "AcquireRpc key n a = (if would_exceed ls key n a then (None, a)
    else (Some l, a\<lparr>mAdmitted := (mAdmitted a)(key \<mapsto> lease_usage (l # of_session key ls)), stTotal := lease_usage (l # ls)\<rparr>))"
proof -
  have t: "stTotal a = lease_usage ls" and lim: "limits_ok a"
    and wt: "within (lease_usage ls) (iMaxCount a) (iMaxBytes a)"
    and ws: "within (lease_usage (of_session key ls)) (iSessionMaxCount a) (iSessionMaxBytes a)"
    using exactD [OF assms(1)] by simp_all
  have b: "sum_list (map iLeaseBytes ls) \<le> iMaxBytes a" "sum_list (map iLeaseBytes (of_session key ls)) \<le> iSessionMaxBytes a"
    using withinD [OF wt] withinD [OF ws] by simp_all
  have sub: "size_sub (iMaxBytes a) (sum_list (map iLeaseBytes ls)) = iMaxBytes a - sum_list (map iLeaseBytes ls)"
    "size_sub (iSessionMaxBytes a) (sum_list (map iLeaseBytes (of_session key ls))) = iSessionMaxBytes a - sum_list (map iLeaseBytes (of_session key ls))"
    using b lim by (auto simp: limits_ok_def intro!: size_sub_le)
  have test: "(iMaxCount a \<le> iCount (lease_usage ls) \<or> size_sub (iMaxBytes a) (iBytes (lease_usage ls)) < n
      \<or> iSessionMaxCount a \<le> iCount (lease_usage (of_session key ls))
      \<or> size_sub (iSessionMaxBytes a) (iBytes (lease_usage (of_session key ls))) < n) = would_exceed ls key n a"
    using b unfolding lease_usage_def would_exceed_def by (simp add: sub) linarith
  have add: "\<not> would_exceed ls key n a \<Longrightarrow> usage_add n (lease_usage ls) = lease_usage (l # ls)"
    "\<not> would_exceed ls key n a \<Longrightarrow> usage_add n (lease_usage (of_session key ls)) = lease_usage (l # of_session key ls)"
    using usage_add_Cons [of _ l] lim by (simp_all add: l_def would_exceed_def limits_ok_def)
  show ?thesis unfolding AcquireRpc_def Let_def session_usage [OF assms(1)] t test
    using add by (simp add: l_def)
qed

lemma AcquireRpc_exact:
  assumes "exact ls a" and "AcquireRpc key n a = (Some l, a')"
  shows "exact (l # ls) a'"
proof -
  have ex: "\<not> would_exceed ls key n a" and l: "l = \<lparr>stKey = key, iLeaseBytes = n, bAcquired = True\<rparr>"
    and a': "a' = a\<lparr>mAdmitted := (mAdmitted a)(key \<mapsto> lease_usage (l # of_session key ls)), stTotal := lease_usage (l # ls)\<rparr>"
    using assms AcquireRpc_cases [OF assms(1), of key n] by (auto split: if_splits)
  have w: "within (lease_usage (l # ls)) (iMaxCount a) (iMaxBytes a)"
    "within (lease_usage (l # of_session key ls)) (iSessionMaxCount a) (iSessionMaxBytes a)"
    using ex by (simp_all add: within_def lease_usage_def would_exceed_def l)
  have k: "stKey l = key" "bAcquired l" by (simp_all add: l)
  have "mAdmitted a' key' = (if of_session key' (l # ls) = [] then None else Some (lease_usage (of_session key' (l # ls))))
      \<and> within (lease_usage (of_session key' (l # ls))) (iSessionMaxCount a) (iSessionMaxBytes a)" for key'
    using exactD(5,6) [OF assms(1), of key'] w k by (cases "key' = key") (simp_all add: a')
  then show ?thesis using exactD(1,2) [OF assms(1)] w k unfolding exact_def by (auto simp: a' limits_ok_def)
qed

lemma Lease_release_exact:
  assumes ex: "exact ls a" and l: "l \<in> set ls"
  shows "exact (remove1 l ls) (Lease_release l a)" "mAdmitted a (stKey l) \<noteq> None"
proof -
  let ?k = "stKey l" let ?s = "of_session ?k ls"
  have ls: "l \<in> set ?s" using l by (simp add: of_session_def)
  then have ne: "?s \<noteq> []" by auto
  have acq: "bAcquired l" and t: "stTotal a = lease_usage ls" and lim: "limits_ok a" and k: "mAdmitted a ?k = Some (lease_usage ?s)"
    and wt: "within (lease_usage ls) (iMaxCount a) (iMaxBytes a)"
    and ws: "within (lease_usage ?s) (iSessionMaxCount a) (iSessionMaxBytes a)"
    using exactD(1,2,3,4) [OF ex] exactD(5,6) [OF ex, of ?k] l ne by simp_all
  show "mAdmitted a ?k \<noteq> None" using k by simp
  have u: "usage_sub (iLeaseBytes l) (lease_usage ls) = lease_usage (remove1 l ls)"
    "usage_sub (iLeaseBytes l) (lease_usage ?s) = lease_usage (remove1 l ?s)"
    using usage_sub_remove1 [OF l] usage_sub_remove1 [OF ls] withinD [OF wt] withinD [OF ws] lim by (auto simp: limits_ok_def)
  have less: "within (lease_usage (remove1 l xs)) c b" if "within (lease_usage xs) c b" "l \<in> set xs" for xs c b
    using that sum_remove1 [OF that(2), of iLeaseBytes] by (simp add: within_def lease_usage_def length_remove1 le_diff_conv)
  have a': "Lease_release l a = a\<lparr>stTotal := lease_usage (remove1 l ls),
      mAdmitted := (mAdmitted a)(?k := if remove1 l ?s = [] then None else Some (lease_usage (remove1 l ?s)))\<rparr>"
    using acq k u by (simp add: Lease_release_def Let_def t) (simp add: lease_usage_def)
  show "exact (remove1 l ls) (Lease_release l a)"
  proof -
    have "mAdmitted (Lease_release l a) key' = (if of_session key' (remove1 l ls) = [] then None else Some (lease_usage (of_session key' (remove1 l ls))))
        \<and> within (lease_usage (of_session key' (remove1 l ls))) (iSessionMaxCount a) (iSessionMaxBytes a)" for key'
      using exactD(5,6) [OF ex, of key'] less [OF ws ls]
      by (cases "key' = stKey l") (auto simp: a' of_session_remove1 within_def)
    moreover have "bAcquired x" if "x \<in> set (remove1 l ls)" for x using exactD(2) [OF ex] set_remove1_subset [of l ls] that by blast
    ultimately show ?thesis using lim less [OF wt l] unfolding exact_def by (auto simp: a' limits_ok_def)
  qed
qed

lemma ReadLimit_le: "ReadLimit cfg n = Some v \<Longrightarrow> v \<le> SIZE_MAX"
  by (auto simp: ReadLimit_def Let_def split: if_splits)

lemma RpcAdmission_exact:
  assumes "RpcAdmission cfg = Some a"
  shows "exact [] a"
proof -
  have "limits_ok a" "stTotal a = no_usage" "mAdmitted a = (\<lambda>_. None)"
    using assms unfolding RpcAdmission_def limits_ok_def by (auto split: option.splits dest: ReadLimit_le)
  then show ?thesis by (simp add: exact_def of_session_def within_def)
qed

section \<open>Properties\<close>

text \<open>
  C36: admission is exact. In whatever order requests are admitted, refused and ended, the counters of
  the process and of every session are those of the leases that are out, a session with none has no
  entry, and neither limit is ever exceeded; so the unchecked lookup of the destructor always succeeds.
\<close>

theorem admission_exact:
  assumes "RpcAdmission cfg = Some a0" and "admission_run a0 ls a"
  shows "exact ls a \<and> (\<forall>l \<in> set ls. mAdmitted a (stKey l) \<noteq> None)"
proof -
  from assms(2) have "exact ls a"
  proof induction
    case init
    then show ?case by (rule RpcAdmission_exact [OF assms(1)])
  next
    case acquire
    then show ?case by (blast intro: AcquireRpc_exact)
  next
    case refuse
    then show ?case using AcquireRpc_cases by (auto split: if_splits)
  next
    case release
    then show ?case by (blast intro: Lease_release_exact)
  qed
  then show ?thesis using Lease_release_exact(2) by blast
qed

definition demo_admission :: admission where
  "demo_admission = \<lparr>stTotal = no_usage, mAdmitted = (\<lambda>_. None), iMaxCount = 65536, iMaxBytes = 64 * 1024 * 1024,
     iSessionMaxCount = 4096, iSessionMaxBytes = 16 * 1024 * 1024\<rparr>"

definition demo_lease :: lease where
  "demo_lease = \<lparr>stKey = (1, 7), iLeaseBytes = 100, bAcquired = True\<rparr>"

lemma demo_admitted: "AcquireRpc (1, 7) 100 demo_admission = (Some demo_lease,
    demo_admission\<lparr>mAdmitted := [(1, 7) \<mapsto> \<lparr>iCount = 1, iBytes = 100\<rparr>], stTotal := \<lparr>iCount = 1, iBytes = 100\<rparr>\<rparr>)"
  by (simp add: AcquireRpc_def demo_admission_def demo_lease_def usage_add_def)

theorem admission_exact_witness:
  "RpcAdmission (\<lambda>_. None) = Some demo_admission
   \<and> exact [demo_lease] (snd (AcquireRpc (1, 7) 100 demo_admission))"
proof -
  have i: "RpcAdmission (\<lambda>_. None) = Some demo_admission"
    by (simp add: RpcAdmission_def ReadLimit_def demo_admission_def)
  show ?thesis using admission_exact [OF i admission_run.acquire [OF admission_run.init demo_admitted]] i
    unfolding demo_admitted snd_conv by blast
qed

text \<open>
  Admission refuses exactly what would exceed one of the four limits, and then changes nothing.
\<close>

theorem AcquireRpc_refuses_exactly:
  assumes "exact ls a"
  shows "(fst (AcquireRpc key n a) = None) = would_exceed ls key n a
    \<and> (would_exceed ls key n a \<longrightarrow> snd (AcquireRpc key n a) = a)"
  using AcquireRpc_cases [OF assms, of key n] by auto

theorem AcquireRpc_refuses_exactly_witness:
  "fst (AcquireRpc (1, 7) (16 * 1024 * 1024 + 1) demo_admission) = None
   \<and> fst (AcquireRpc (1, 7) (16 * 1024 * 1024) demo_admission) \<noteq> None"
proof -
  have e: "exact [] demo_admission"
    by (simp add: exact_def demo_admission_def of_session_def within_def limits_ok_def)
  show ?thesis
    using AcquireRpc_refuses_exactly [OF e, of "(1, 7)" "16 * 1024 * 1024 + 1"]
      AcquireRpc_refuses_exactly [OF e, of "(1, 7)" "16 * 1024 * 1024"]
    by (simp add: would_exceed_def demo_admission_def of_session_def)
qed

end
