(* ===== verification/OI_RpcCall.thy ===== *)
theory OI_RpcCall
  imports OI_Admission
begin

text \<open>
  The table of calls that wait for a reply (cbaselib/proto/src/oi_rpc_call.cpp). A call is a slot in
  one of 64 shards; beside the slots a shard keeps an index of the calls of each session and the
  deadlines in buckets of 200 ms. A reply, the sweep, a broken connection, a failed submission or an
  abandoning caller takes the slot out under the lock of the shard; it is completed afterwards,
  outside the lock.

  Managers, senders and guards are numbers; the list iterators kept in a slot are modelled by what
  they point at: the node of the session index by the call id, the node of a bucket by the bucket and
  the deadline. Where the code dereferences the result of a \<open>find\<close> without a test, the model leaves
  the state alone if nothing is found; \<open>shard_ok\<close> says that this does not happen. Allocation failures
  are not modelled here.

  The critical sections are the steps of \<open>rpc_run\<close>, which interleaves them in any order.
\<close>

section \<open>State\<close>

record slot =
  pSender :: "nat option"
  pManager :: nat
  iSlotSession :: nat
  iResponseId :: nat
  iCallId :: nat
  bAwaitingConnect :: bool
  bGuardArmed :: bool
  pGuard :: "nat option"
  stExpiry :: "(int \<times> int) option"
  bIndexed :: bool

record shard =
  mSlots :: "nat \<Rightarrow> slot option"
  mExpire :: "(int \<times> (int \<times> nat) list) list"
  mSessions :: "session_key \<Rightarrow> nat list option"

type_synonym guard_counts = "nat \<Rightarrow> int"

record calls =
  g_call_seq :: nat
  g_sweep_once :: bool
  g_call_shards :: "nat \<Rightarrow> shard"
  guards :: guard_counts

abbreviation kCallShards :: nat where "kCallShards \<equiv> 64"
abbreviation kSweepMs :: int where "kSweepMs \<equiv> 200"
abbreviation INT64_MAX :: int where "INT64_MAX \<equiv> 9223372036854775807"

definition empty_shard :: shard where
  "empty_shard = \<lparr>mSlots = (\<lambda>_. None), mExpire = [], mSessions = (\<lambda>_. None)\<rparr>"

definition init_calls :: calls where
  "init_calls = \<lparr>g_call_seq = 1, g_sweep_once = False, g_call_shards = (\<lambda>_. empty_shard), guards = (\<lambda>_. 0)\<rparr>"

definition ShardOf :: "nat \<Rightarrow> nat" where
  "ShardOf c = c mod kCallShards"

definition set_shard :: "nat \<Rightarrow> shard \<Rightarrow> calls \<Rightarrow> calls" where
  "set_shard k sh s = s\<lparr>g_call_shards := (g_call_shards s)(k := sh)\<rparr>"

text \<open>Division of \<open>int64_t\<close> values, which truncates.\<close>

definition bucket_of :: "int \<Rightarrow> int" where
  "bucket_of t = (if t < 0 then - ((- t) div kSweepMs) else t div kSweepMs)"

section \<open>Indexes of a shard\<close>

definition AddSessionIndex :: "slot \<Rightarrow> nat \<Rightarrow> shard \<Rightarrow> shard" where
  "AddSessionIndex sl sid sh =
     (let key = (pManager sl, sid); l = (case mSessions sh key of None \<Rightarrow> [] | Some l \<Rightarrow> l)
      in sh\<lparr>mSessions := (mSessions sh)(key \<mapsto> l @ [iCallId sl])\<rparr>)"

definition RemoveSessionIndex :: "slot \<Rightarrow> shard \<Rightarrow> slot \<times> shard" where
  "RemoveSessionIndex sl sh =
     (if \<not> bIndexed sl then (sl, sh)
      else let key = (pManager sl, iSlotSession sl)
           in (sl\<lparr>bIndexed := False\<rparr>,
               case mSessions sh key of None \<Rightarrow> sh
               | Some l \<Rightarrow> (let l' = remove1 (iCallId sl) l
                            in sh\<lparr>mSessions := (mSessions sh)(key := if l' = [] then None else Some l')\<rparr>)))"

definition bucket_push :: "int \<Rightarrow> int \<times> nat \<Rightarrow> (int \<times> (int \<times> nat) list) list \<Rightarrow> (int \<times> (int \<times> nat) list) list" where
  "bucket_push b e m = (if b \<in> set (map fst m)
     then map (\<lambda>(k, q). if k = b then (k, q @ [e]) else (k, q)) m else insort_key fst (b, [e]) m)"

definition bucket_erase :: "int \<Rightarrow> int \<times> nat \<Rightarrow> (int \<times> (int \<times> nat) list) list \<Rightarrow> (int \<times> (int \<times> nat) list) list" where
  "bucket_erase b e m = filter (\<lambda>(k, q). k \<noteq> b \<or> q \<noteq> [])
     (map (\<lambda>(k, q). if k = b then (k, remove1 e q) else (k, q)) m)"

definition RemoveRpcExpiry :: "slot \<Rightarrow> shard \<Rightarrow> slot \<times> shard" where
  "RemoveRpcExpiry sl sh =
     (case stExpiry sl of None \<Rightarrow> (sl, sh)
      | Some (b, d) \<Rightarrow> (sl\<lparr>stExpiry := None\<rparr>, sh\<lparr>mExpire := bucket_erase b (d, iCallId sl) (mExpire sh)\<rparr>))"

definition ArmRpcGuard :: "slot \<Rightarrow> guard_counts \<Rightarrow> slot \<times> guard_counts" where
  "ArmRpcGuard sl gs =
     (case pGuard sl of None \<Rightarrow> (sl, gs)
      | Some g \<Rightarrow> if bGuardArmed sl then (sl, gs) else (sl\<lparr>bGuardArmed := True\<rparr>, gs(g := gs g + 1)))"

definition erase_slot :: "nat \<Rightarrow> shard \<Rightarrow> shard" where
  "erase_slot c sh = sh\<lparr>mSlots := (mSlots sh)(c := None)\<rparr>"

section \<open>Operations\<close>

text \<open>The check of \<open>TakeRpcSlot\<close> is left out for a null manager.\<close>

definition wrong_source :: "(nat \<times> nat \<times> nat) option \<Rightarrow> slot \<Rightarrow> bool" where
  "wrong_source src sl = (case src of None \<Rightarrow> False
     | Some (m, sid, rid) \<Rightarrow> pManager sl \<noteq> m \<or> iSlotSession sl \<noteq> sid \<or> iResponseId sl \<noteq> rid)"

definition TakeRpcSlot :: "nat \<Rightarrow> (nat \<times> nat \<times> nat) option \<Rightarrow> calls \<Rightarrow> slot option \<times> calls" where
  "TakeRpcSlot c src s =
     (let k = ShardOf c; sh = g_call_shards s k
      in case mSlots sh c of None \<Rightarrow> (None, s)
         | Some sl \<Rightarrow>
             if wrong_source src sl then (None, s)
             else case RemoveRpcExpiry sl sh of (sl1, sh1) \<Rightarrow>
                  case RemoveSessionIndex sl1 sh1 of (sl2, sh2) \<Rightarrow>
                  case ArmRpcGuard sl2 (guards s) of (sl3, gs) \<Rightarrow>
                    (Some sl3, (set_shard k (erase_slot c sh2) s)\<lparr>guards := gs\<rparr>))"

text \<open>The body of a reply is of a type \<open>'b\<close>.\<close>

datatype 'b rpc_event = DropPendingCall "nat option" nat nat | Decoded nat nat 'b | Result nat int | Resumed nat

definition FinishRpcSlot :: "slot \<Rightarrow> int \<Rightarrow> 'b option \<Rightarrow> guard_counts \<Rightarrow> 'b rpc_event list \<times> guard_counts" where
  "FinishRpcSlot sl iCode pBody gs =
     ((if bAwaitingConnect sl then [DropPendingCall (pSender sl) (pManager sl) (iCallId sl)] else [])
        @ (case pBody of Some b \<Rightarrow> [Decoded (iCallId sl) (iSlotSession sl) b] | None \<Rightarrow> [Result (iCallId sl) iCode])
        @ [Resumed (iCallId sl)],
      case pGuard sl of Some g \<Rightarrow> if bGuardArmed sl then gs(g := gs g - 1) else gs | None \<Rightarrow> gs)"

fun FinishAll :: "(slot \<Rightarrow> int) \<Rightarrow> slot list \<Rightarrow> guard_counts \<Rightarrow> 'b rpc_event list \<times> guard_counts" where
  "FinishAll code [] gs = ([], gs)"
| "FinishAll code (sl # sls) gs =
     (case FinishRpcSlot sl (code sl) None gs of (ev, gs1) \<Rightarrow>
      case FinishAll code sls gs1 of (evs, gs2) \<Rightarrow> (ev @ evs, gs2))"

text \<open>The sweep: one bucket, the buckets of a shard that have begun, all shards.\<close>

fun sweep_bucket :: "int \<Rightarrow> (int \<times> nat) list \<Rightarrow> shard \<Rightarrow> guard_counts
    \<Rightarrow> slot list \<times> (int \<times> nat) list \<times> shard \<times> guard_counts" where
  "sweep_bucket iNow [] sh gs = ([], [], sh, gs)"
| "sweep_bucket iNow ((d, c) # q) sh gs =
     (case mSlots sh c of None \<Rightarrow> sweep_bucket iNow q sh gs
      | Some sl \<Rightarrow>
          if d > iNow then (case sweep_bucket iNow q sh gs of (f, q', sh', gs') \<Rightarrow> (f, (d, c) # q', sh', gs'))
          else case RemoveSessionIndex (sl\<lparr>stExpiry := None\<rparr>) sh of (sl2, sh2) \<Rightarrow>
               case ArmRpcGuard sl2 gs of (sl3, gs3) \<Rightarrow>
               case sweep_bucket iNow q (erase_slot c sh2) gs3 of (f, q', sh', gs') \<Rightarrow> (sl3 # f, q', sh', gs'))"

fun sweep_buckets :: "int \<Rightarrow> (int \<times> (int \<times> nat) list) list \<Rightarrow> shard \<Rightarrow> guard_counts
    \<Rightarrow> slot list \<times> (int \<times> (int \<times> nat) list) list \<times> shard \<times> guard_counts" where
  "sweep_buckets iNow [] sh gs = ([], [], sh, gs)"
| "sweep_buckets iNow ((b, q) # m) sh gs =
     (if b > bucket_of iNow then ([], (b, q) # m, sh, gs)
      else case sweep_bucket iNow q sh gs of (f, q', sh', gs') \<Rightarrow>
           case sweep_buckets iNow m sh' gs' of (f2, m', sh'', gs'') \<Rightarrow>
             (f @ f2, if q' = [] then m' else (b, q') # m', sh'', gs''))"

definition sweep_shard :: "int \<Rightarrow> nat \<Rightarrow> calls \<Rightarrow> slot list \<times> calls" where
  "sweep_shard iNow k s =
     (case sweep_buckets iNow (mExpire (g_call_shards s k)) (g_call_shards s k) (guards s) of (f, m', sh', gs') \<Rightarrow>
        (f, (set_shard k (sh'\<lparr>mExpire := m'\<rparr>) s)\<lparr>guards := gs'\<rparr>))"

fun sweep_shards :: "int \<Rightarrow> nat list \<Rightarrow> calls \<Rightarrow> slot list \<times> calls" where
  "sweep_shards iNow [] s = ([], s)"
| "sweep_shards iNow (k # ks) s =
     (case sweep_shard iNow k s of (f, s1) \<Rightarrow> case sweep_shards iNow ks s1 of (f2, s2) \<Rightarrow> (f @ f2, s2))"

definition sweep_code :: "slot \<Rightarrow> int" where
  "sweep_code sl = (if bAwaitingConnect sl then OI_ERR_CONNECT else OI_ERR_TIMEOUT)"

definition SweepRpcCalls :: "int \<Rightarrow> calls \<Rightarrow> 'b rpc_event list \<times> calls" where
  "SweepRpcCalls iNow s =
     (case sweep_shards iNow [0..<kCallShards] s of (vFired, s1) \<Rightarrow>
      case FinishAll sweep_code vFired (guards s1) of (ev, gs) \<Rightarrow> (ev, s1\<lparr>guards := gs\<rparr>))"

definition MarkRpcAwaitingConnect :: "nat \<Rightarrow> calls \<Rightarrow> bool \<times> calls" where
  "MarkRpcAwaitingConnect c s =
     (let k = ShardOf c; sh = g_call_shards s k
      in case mSlots sh c of None \<Rightarrow> (False, s)
         | Some sl \<Rightarrow> (True, set_shard k (sh\<lparr>mSlots := (mSlots sh)(c \<mapsto> sl\<lparr>bAwaitingConnect := True\<rparr>)\<rparr>) s))"

definition ClaimRpcSend :: "nat \<Rightarrow> nat \<Rightarrow> calls \<Rightarrow> bool \<times> calls" where
  "ClaimRpcSend c sid s =
     (let k = ShardOf c; sh = g_call_shards s k
      in case mSlots sh c of None \<Rightarrow> (False, s)
         | Some sl \<Rightarrow>
             (case (if iSlotSession sl \<noteq> sid
                    then case RemoveSessionIndex sl (AddSessionIndex sl sid sh) of (sl1, sh1) \<Rightarrow>
                           (sl1\<lparr>bIndexed := True, iSlotSession := sid\<rparr>, sh1)
                    else (sl, sh)) of
                (sl2, sh2) \<Rightarrow>
                  (True, set_shard k (sh2\<lparr>mSlots := (mSlots sh2)(c \<mapsto> sl2\<lparr>bAwaitingConnect := False\<rparr>)\<rparr>) s)))"

definition new_slot :: "nat \<Rightarrow> nat \<Rightarrow> nat \<Rightarrow> nat \<Rightarrow> nat option \<Rightarrow> nat option \<Rightarrow> slot" where
  "new_slot c m sid rid g sender = \<lparr>pSender = sender, pManager = m, iSlotSession = sid, iResponseId = rid, iCallId = c,
     bAwaitingConnect = False, bGuardArmed = False, pGuard = g, stExpiry = None, bIndexed = False\<rparr>"

definition deadline_of :: "int \<Rightarrow> int \<Rightarrow> int" where
  "deadline_of iNow iTimeout = (if iTimeout > INT64_MAX - iNow then INT64_MAX else iNow + iTimeout)"

text \<open>\<open>emplace\<close> keeps a slot that is already there.\<close>

definition BindRpcCall :: "nat \<Rightarrow> nat \<Rightarrow> nat \<Rightarrow> int \<Rightarrow> nat option \<Rightarrow> nat option \<Rightarrow> int \<Rightarrow> calls \<Rightarrow> nat \<times> calls" where
  "BindRpcCall m sid rid iTimeout g sender iNow s =
     (let c = g_call_seq s mod 2 ^ 63;
          s0 = s\<lparr>g_sweep_once := True, g_call_seq := (g_call_seq s + 1) mod SIZE_MOD\<rparr>;
          k = ShardOf c; sh = g_call_shards s0 k;
          sl = (case mSlots sh c of Some old \<Rightarrow> old | None \<Rightarrow> new_slot c m sid rid g sender);
          sh1 = AddSessionIndex sl sid sh; sl1 = sl\<lparr>bIndexed := True\<rparr>;
          iDeadline = deadline_of iNow iTimeout; iBucket = bucket_of iDeadline
      in (c, if iTimeout > 0
             then set_shard k (sh1\<lparr>mExpire := bucket_push iBucket (iDeadline, c) (mExpire sh1),
                    mSlots := (mSlots sh1)(c \<mapsto> sl1\<lparr>stExpiry := Some (iBucket, iDeadline)\<rparr>)\<rparr>) s0
             else set_shard k (sh1\<lparr>mSlots := (mSlots sh1)(c \<mapsto> sl1)\<rparr>) s0))"

definition WakeRpcCall :: "nat \<Rightarrow> int \<Rightarrow> 'b option \<Rightarrow> calls \<Rightarrow> bool \<times> 'b rpc_event list \<times> calls" where
  "WakeRpcCall c iCode pBody s =
     (case TakeRpcSlot c None s of (None, s') \<Rightarrow> (False, [], s')
      | (Some sl, s') \<Rightarrow> (case FinishRpcSlot sl iCode pBody (guards s') of (ev, gs) \<Rightarrow> (True, ev, s'\<lparr>guards := gs\<rparr>)))"

definition AbandonRpcCall :: "nat \<Rightarrow> calls \<Rightarrow> 'b rpc_event list \<times> calls" where
  "AbandonRpcCall c s =
     (let k = ShardOf c; sh = g_call_shards s k
      in case mSlots sh c of None \<Rightarrow> ([], s)
         | Some sl \<Rightarrow>
             (case RemoveRpcExpiry sl sh of (sl1, sh1) \<Rightarrow>
              case RemoveSessionIndex sl1 sh1 of (sl2, sh2) \<Rightarrow>
                (if bAwaitingConnect sl2 then [DropPendingCall (pSender sl2) (pManager sl2) (iCallId sl2)] else [],
                 set_shard k (erase_slot c sh2) s)))"

text \<open>A broken connection: batches of at most 32 slots, each taken out under the lock.\<close>

fun fail_pops :: "nat \<Rightarrow> nat list \<Rightarrow> shard \<Rightarrow> guard_counts \<Rightarrow> slot list \<times> nat list \<times> shard \<times> guard_counts" where
  "fail_pops (Suc n) (c # l) sh gs =
     (case mSlots sh c of None \<Rightarrow> fail_pops n l sh gs
      | Some sl \<Rightarrow>
          (case RemoveRpcExpiry sl sh of (sl1, sh1) \<Rightarrow>
           case ArmRpcGuard (sl1\<lparr>bIndexed := False\<rparr>) gs of (sl2, gs2) \<Rightarrow>
           case fail_pops n l (erase_slot c sh1) gs2 of (f, l', sh', gs') \<Rightarrow> (sl2 # f, l', sh', gs')))"
| "fail_pops 0 l sh gs = ([], l, sh, gs)"
| "fail_pops (Suc n) [] sh gs = ([], [], sh, gs)"

definition fail_batch :: "session_key \<Rightarrow> shard \<Rightarrow> guard_counts \<Rightarrow> (slot list \<times> shard \<times> guard_counts) option" where
  "fail_batch key sh gs =
     (case mSessions sh key of None \<Rightarrow> None
      | Some l \<Rightarrow> (case fail_pops 32 l sh gs of (f, l', sh', gs') \<Rightarrow>
          Some (f, sh'\<lparr>mSessions := (mSessions sh')(key := if l' = [] then None else Some l')\<rparr>, gs')))"

lemma RemoveRpcExpiry_sessions [simp]: "mSessions (snd (RemoveRpcExpiry sl sh)) = mSessions sh"
  by (simp add: RemoveRpcExpiry_def split: option.split)

lemma fail_pops_rest: "fail_pops n l sh gs = (f, l', sh', gs') \<Longrightarrow> l' = drop n l"
  by (induction n l sh gs arbitrary: f l' sh' gs' rule: fail_pops.induct) (auto split: option.splits prod.splits)

lemma fail_pops_shrinks: "fail_pops 32 l sh gs = (f, l', sh', gs') \<Longrightarrow> l' \<noteq> [] \<Longrightarrow> length l' < length l"
  by (cases l) (auto dest!: fail_pops_rest)

function fail_shard :: "session_key \<Rightarrow> shard \<Rightarrow> guard_counts \<Rightarrow> 'b rpc_event list \<times> shard \<times> guard_counts" where
  "fail_shard key sh gs =
     (case fail_batch key sh gs of None \<Rightarrow> ([], sh, gs)
      | Some (f, sh1, gs1) \<Rightarrow>
          (case FinishAll (\<lambda>_. OI_ERR_CONNECT) f gs1 of (ev, gs2) \<Rightarrow>
           case fail_shard key sh1 gs2 of (ev', sh', gs') \<Rightarrow> (ev @ ev', sh', gs')))"
  by pat_completeness auto
termination
  by (relation "measure (\<lambda>(key, sh, gs). case mSessions sh key of None \<Rightarrow> 0 | Some l \<Rightarrow> Suc (length l))")
    (auto simp: fail_batch_def dest!: fail_pops_shrinks split: option.splits prod.splits if_splits)

declare fail_shard.simps [simp del]

fun fail_shards :: "session_key \<Rightarrow> nat list \<Rightarrow> calls \<Rightarrow> 'b rpc_event list \<times> calls" where
  "fail_shards key [] s = ([], s)"
| "fail_shards key (k # ks) s =
     (case fail_shard key (g_call_shards s k) (guards s) of (ev, sh', gs') \<Rightarrow>
      case fail_shards key ks ((set_shard k sh' s)\<lparr>guards := gs'\<rparr>) of (evs, s') \<Rightarrow> (ev @ evs, s'))"

definition FailRpcCalls :: "session_key \<Rightarrow> calls \<Rightarrow> 'b rpc_event list \<times> calls" where
  "FailRpcCalls key s = fail_shards key [0..<kCallShards] s"

section \<open>Invariant of a shard\<close>

definition key_of :: "slot \<Rightarrow> session_key" where
  "key_of sl = (pManager sl, iSlotSession sl)"

definition calls_of :: "(nat \<Rightarrow> slot option) \<Rightarrow> session_key \<Rightarrow> nat set" where
  "calls_of slots key = {c. \<exists>sl. slots c = Some sl \<and> key_of sl = key}"

definition entries :: "(int \<times> (int \<times> nat) list) list \<Rightarrow> (int \<times> int \<times> nat) set" where
  "entries m = {(b, d, c). \<exists>q. (b, q) \<in> set m \<and> (d, c) \<in> set q}"

definition deadlines :: "(nat \<Rightarrow> slot option) \<Rightarrow> (int \<times> int \<times> nat) set" where
  "deadlines slots = {(b, d, c). \<exists>sl. slots c = Some sl \<and> stExpiry sl = Some (b, d)}"

definition index_at :: "(nat \<Rightarrow> slot option) \<Rightarrow> (session_key \<Rightarrow> nat list option) \<Rightarrow> session_key \<Rightarrow> bool" where
  "index_at slots ses key = (case ses key of None \<Rightarrow> calls_of slots key = {}
     | Some l \<Rightarrow> l \<noteq> [] \<and> distinct l \<and> set l = calls_of slots key)"

definition slot_ok :: "nat \<Rightarrow> nat \<Rightarrow> slot \<Rightarrow> bool" where
  "slot_ok k c sl \<longleftrightarrow> iCallId sl = c \<and> ShardOf c = k \<and> bIndexed sl \<and> \<not> bGuardArmed sl"

definition core_ok :: "nat \<Rightarrow> shard \<Rightarrow> bool" where
  "core_ok k sh \<longleftrightarrow> (\<forall>c sl. mSlots sh c = Some sl \<longrightarrow> slot_ok k c sl) \<and> (\<forall>key. index_at (mSlots sh) (mSessions sh) key)"

definition buckets_ok :: "(int \<times> (int \<times> nat) list) list \<Rightarrow> bool" where
  "buckets_ok m \<longleftrightarrow> sorted (map fst m) \<and> distinct (map fst m)
     \<and> (\<forall>(b, q) \<in> set m. q \<noteq> [] \<and> distinct q \<and> (\<forall>(d, c) \<in> set q. bucket_of d = b))"

definition shard_ok :: "nat \<Rightarrow> shard \<Rightarrow> bool" where
  "shard_ok k sh \<longleftrightarrow> core_ok k sh \<and> buckets_ok (mExpire sh) \<and> entries (mExpire sh) = deadlines (mSlots sh)"

section \<open>Lemmas: the session index\<close>

lemma core_okD:
  assumes "core_ok k sh"
  shows "mSlots sh c = Some sl \<Longrightarrow> slot_ok k c sl" "index_at (mSlots sh) (mSessions sh) key"
  using assms unfolding core_ok_def by blast+

lemma core_okI:
  assumes "\<And>c sl. mSlots sh c = Some sl \<Longrightarrow> slot_ok k c sl" and "\<And>key. index_at (mSlots sh) (mSessions sh) key"
  shows "core_ok k sh"
  using assms unfolding core_ok_def by blast

lemma indexed:
  assumes "core_ok k sh" and "mSlots sh c = Some sl"
  obtains l where "mSessions sh (key_of sl) = Some l" "l \<noteq> []" "distinct l" "set l = calls_of (mSlots sh) (key_of sl)" "c \<in> set l"
proof -
  have c: "c \<in> calls_of (mSlots sh) (key_of sl)" using assms(2) by (auto simp: calls_of_def)
  from core_okD(2) [OF assms(1), of "key_of sl"] c that show ?thesis
    by (auto simp: index_at_def split: option.splits)
qed

lemma calls_of_remove: "calls_of (slots(c := None)) key = calls_of slots key - {c}"
  by (auto simp: calls_of_def)

lemma calls_of_add: "calls_of (slots(c \<mapsto> sl)) key = (if key_of sl = key then insert c (calls_of slots key) else calls_of slots key - {c})"
  by (auto simp: calls_of_def)

definition unindex :: "nat \<Rightarrow> session_key \<Rightarrow> (session_key \<Rightarrow> nat list option) \<Rightarrow> session_key \<Rightarrow> nat list option" where
  "unindex c key ses = (case ses key of None \<Rightarrow> ses
     | Some l \<Rightarrow> ses(key := if remove1 c l = [] then None else Some (remove1 c l)))"

lemma RemoveSessionIndex_eq:
  "bIndexed sl \<Longrightarrow> RemoveSessionIndex sl sh = (sl\<lparr>bIndexed := False\<rparr>, sh\<lparr>mSessions := unindex (iCallId sl) (key_of sl) (mSessions sh)\<rparr>)"
  by (simp add: RemoveSessionIndex_def unindex_def key_of_def Let_def split: option.split)

lemma index_at_remove:
  assumes "slots c = Some sl" and "\<And>key. index_at slots ses key"
  shows "index_at (slots(c := None)) (unindex c (key_of sl) ses) key"
proof (cases "key = key_of sl")
  case True
  have "c \<in> calls_of slots key" using assms(1) True by (auto simp: calls_of_def)
  with assms(2) [of key] obtain l where l: "ses key = Some l" "distinct l" "set l = calls_of slots key"
    by (auto simp: index_at_def split: option.splits)
  then have "set (remove1 c l) = calls_of slots key - {c}" "distinct (remove1 c l)" by simp_all
  moreover from this have "remove1 c l = [] \<longleftrightarrow> calls_of slots key - {c} = {}" by (metis set_empty)
  ultimately show ?thesis using True l(1) by (auto simp: index_at_def unindex_def calls_of_remove)
next
  case False
  then have "c \<notin> calls_of slots key" using assms(1) by (auto simp: calls_of_def)
  then show ?thesis using False assms(2) [of key]
    by (auto simp: index_at_def unindex_def calls_of_remove split: option.splits)
qed

lemma index_at_add:
  assumes "slots c = None" and "\<And>key. index_at slots ses key"
  shows "index_at (slots(c \<mapsto> sl)) (ses(key_of sl \<mapsto> (case ses (key_of sl) of None \<Rightarrow> [] | Some l \<Rightarrow> l) @ [c])) key"
proof -
  have n: "c \<notin> calls_of slots key'" for key' using assms(1) by (simp add: calls_of_def)
  then show ?thesis using assms(2) [of key]
    by (cases "key = key_of sl") (auto simp: index_at_def calls_of_add split: option.splits)
qed

lemma calls_of_same: "slots c = Some sl \<Longrightarrow> key_of sl' = key_of sl \<Longrightarrow> calls_of (slots(c \<mapsto> sl')) key = calls_of slots key"
  by (auto simp: calls_of_def)

lemma core_ok_update:
  assumes "core_ok k sh" and "mSlots sh c = Some sl" and "key_of sl' = key_of sl" and "slot_ok k c sl'"
  shows "core_ok k (sh\<lparr>mSlots := (mSlots sh)(c \<mapsto> sl')\<rparr>)"
proof (rule core_okI)
  fix key
  show "index_at (mSlots (sh\<lparr>mSlots := (mSlots sh)(c \<mapsto> sl')\<rparr>)) (mSessions (sh\<lparr>mSlots := (mSlots sh)(c \<mapsto> sl')\<rparr>)) key"
    using core_okD(2) [OF assms(1), of key] calls_of_same [of "mSlots sh" c sl sl' key, OF assms(2,3)]
    by (simp add: index_at_def split: option.splits)
qed (use core_okD(1) [OF assms(1)] assms(4) in \<open>auto split: if_splits\<close>)

lemma core_ok_remove:
  assumes "core_ok k sh" and "mSlots sh c = Some sl"
  shows "core_ok k (sh\<lparr>mSlots := (mSlots sh)(c := None), mSessions := unindex c (key_of sl) (mSessions sh)\<rparr>)"
  using core_okD [OF assms(1)] index_at_remove [of "mSlots sh" c sl "mSessions sh", OF assms(2)]
  by (intro core_okI) (auto split: if_splits)

lemma core_ok_cong: "mSlots sh' = mSlots sh \<Longrightarrow> mSessions sh' = mSessions sh \<Longrightarrow> core_ok k sh' = core_ok k sh"
  by (simp add: core_ok_def)

section \<open>Lemmas: the buckets\<close>

lemma bucket_of_mono: "s \<le> t \<Longrightarrow> bucket_of s \<le> bucket_of t"
  by (auto simp: bucket_of_def zdiv_mono1 intro: order_trans [of _ 0])

lemma insort_key_keys: "map fst (insort_key fst (b, q) m) = insort b (map fst m)"
  by (induction m) (auto simp: insort_is_Cons)

lemma set_insort_pair: "set (insort_key f x m) = insert x (set m)"
  by (simp add: set_insort_key)

lemma map_keys: "map fst (map (\<lambda>(k, q). if k = b then (k, f q) else (k, q)) m) = map fst m"
  by (induction m) auto

lemma map_pairs:
  "(k, q) \<in> set (map (\<lambda>(k, q). if k = b then (k, f q) else (k, q)) m) \<longleftrightarrow> (\<exists>q0. (k, q0) \<in> set m \<and> q = (if k = b then f q0 else q0))"
proof (induction m)
  case (Cons p m)
  obtain a r where p: "p = (a, r)" by force
  show ?case using Cons.IH by (cases "a = b"; cases "k = b") (auto simp: p)
qed simp

lemma bucket_push_old:
  "b \<in> set (map fst m) \<Longrightarrow> (k, q) \<in> set (bucket_push b e m) \<longleftrightarrow> (\<exists>q0. (k, q0) \<in> set m \<and> q = (if k = b then q0 @ [e] else q0))"
  by (simp only: bucket_push_def if_True map_pairs)

lemma bucket_push_new:
  "b \<notin> set (map fst m) \<Longrightarrow> (k, q) \<in> set (bucket_push b e m) \<longleftrightarrow> (k, q) = (b, [e]) \<or> (k, q) \<in> set m"
  by (simp add: bucket_push_def set_insort_pair)

lemma bucket_erase_set:
  "(k, q) \<in> set (bucket_erase b e m) \<longleftrightarrow> (\<exists>q0. (k, q0) \<in> set m \<and> q = (if k = b then remove1 e q0 else q0) \<and> (k \<noteq> b \<or> q \<noteq> []))"
proof -
  have "(k, q) \<in> set (bucket_erase b e m) \<longleftrightarrow> (k, q) \<in> set (map (\<lambda>(k, q). if k = b then (k, remove1 e q) else (k, q)) m) \<and> (k \<noteq> b \<or> q \<noteq> [])"
    unfolding bucket_erase_def by simp
  then show ?thesis unfolding map_pairs by blast
qed

definition bucket_ok :: "int \<Rightarrow> (int \<times> nat) list \<Rightarrow> bool" where
  "bucket_ok b q \<longleftrightarrow> q \<noteq> [] \<and> distinct q \<and> (\<forall>d c. (d, c) \<in> set q \<longrightarrow> bucket_of d = b)"

lemma buckets_ok_iff: "buckets_ok m \<longleftrightarrow> sorted (map fst m) \<and> distinct (map fst m) \<and> (\<forall>b q. (b, q) \<in> set m \<longrightarrow> bucket_ok b q)"
  unfolding buckets_ok_def bucket_ok_def by blast

lemma in_entries: "(b, d, c) \<in> entries m \<longleftrightarrow> (\<exists>q. (b, q) \<in> set m \<and> (d, c) \<in> set q)"
  by (simp add: entries_def)

lemma bucket_push_ok:
  assumes ok: "buckets_ok m" and new: "\<And>b d. (b, d, c) \<notin> entries m"
  shows "buckets_ok (bucket_push (bucket_of d) (d, c) m)"
proof (cases "bucket_of d \<in> set (map fst m)")
  case True
  have "bucket_ok b q" if h: "(b, q) \<in> set (bucket_push (bucket_of d) (d, c) m)" for b q
  proof -
    obtain q0 where q0: "(b, q0) \<in> set m" "q = (if b = bucket_of d then q0 @ [(d, c)] else q0)"
      using h unfolding bucket_push_old [OF True] by blast
    have "(d, c) \<notin> set q0" using new q0(1) by (auto simp: in_entries)
    then show ?thesis using ok q0 by (auto simp: buckets_ok_iff bucket_ok_def)
  qed
  moreover have "map fst (bucket_push (bucket_of d) (d, c) m) = map fst m"
    using True by (simp only: bucket_push_def if_True map_keys)
  ultimately show ?thesis using ok unfolding buckets_ok_iff by simp
next
  case False
  have "bucket_ok b q" if "(b, q) \<in> set (bucket_push (bucket_of d) (d, c) m)" for b q
    using that ok unfolding bucket_push_new [OF False] by (auto simp: buckets_ok_iff bucket_ok_def)
  moreover have "map fst (bucket_push (bucket_of d) (d, c) m) = insort (bucket_of d) (map fst m)"
    using False by (simp only: bucket_push_def if_False insort_key_keys)
  ultimately show ?thesis using ok False unfolding buckets_ok_iff by (simp add: sorted_insort distinct_insort)
qed

lemma bucket_push_entries: "entries (bucket_push b (d, c) m) = insert (b, d, c) (entries m)"
proof (cases "b \<in> set (map fst m)")
  case True
  then obtain q where q: "(b, q) \<in> set m" by auto
  have "((b', d', c') \<in> entries (bucket_push b (d, c) m)) = ((b', d', c') = (b, d, c) \<or> (b', d', c') \<in> entries m)" for b' d' c'
    unfolding in_entries bucket_push_old [OF True] using q by (cases "b' = b") auto
  then show ?thesis by auto
next
  case False
  have "((b', d', c') \<in> entries (bucket_push b (d, c) m)) = ((b', d', c') = (b, d, c) \<or> (b', d', c') \<in> entries m)" for b' d' c'
    unfolding in_entries bucket_push_new [OF False] by auto
  then show ?thesis by auto
qed

lemma bucket_erase_ok:
  assumes ok: "buckets_ok m"
  shows "buckets_ok (bucket_erase b e m)"
proof -
  let ?m = "map (\<lambda>(k, q). if k = b then (k, remove1 e q) else (k, q)) m"
  have k: "map fst ?m = map fst m" by (rule map_keys)
  have "sorted (map fst (bucket_erase b e m))" "distinct (map fst (bucket_erase b e m))"
  proof -
    have "sorted (map fst ?m)" "distinct (map fst ?m)" using ok unfolding k buckets_ok_iff by blast+
    then show "sorted (map fst (bucket_erase b e m))" "distinct (map fst (bucket_erase b e m))"
      unfolding bucket_erase_def by (blast intro: sorted_filter distinct_map_filter)+
  qed
  moreover have "bucket_ok k q" if h: "(k, q) \<in> set (bucket_erase b e m)" for k q
  proof -
    obtain q0 where q0: "(k, q0) \<in> set m" "q = (if k = b then remove1 e q0 else q0)" "k \<noteq> b \<or> q \<noteq> []"
      using h unfolding bucket_erase_set by blast
    then have "bucket_ok k q0" using ok by (simp add: buckets_ok_iff)
    then show ?thesis using q0(2,3) set_remove1_subset [of e q0] by (auto simp: bucket_ok_def)
  qed
  ultimately show ?thesis by (simp add: buckets_ok_iff)
qed

lemma bucket_erase_entries:
  assumes ok: "buckets_ok m"
  shows "entries (bucket_erase b (d, c) m) = entries m - {(b, d, c)}"
proof -
  have set_rem: "set (remove1 e q) = set q - {e}" if "(k, q) \<in> set m" for k q and e :: "int \<times> nat"
    using ok that by (simp add: buckets_ok_iff bucket_ok_def)
  have "((b', d', c') \<in> entries (bucket_erase b (d, c) m)) = ((b', d', c') \<in> entries m \<and> (b', d', c') \<noteq> (b, d, c))" for b' d' c'
  proof (cases "b' = b")
    case True
    have "((b', d', c') \<in> entries (bucket_erase b (d, c) m)) = (\<exists>q0. (b, q0) \<in> set m \<and> (d', c') \<in> set (remove1 (d, c) q0))"
      unfolding in_entries bucket_erase_set True by (simp only: refl if_True simp_thms) (metis empty_iff list.set(1))
    also have "\<dots> = (\<exists>q0. (b, q0) \<in> set m \<and> (d', c') \<in> set q0 - {(d, c)})" using set_rem by blast
    finally show ?thesis unfolding in_entries True by auto
  next
    case False
    then show ?thesis unfolding in_entries bucket_erase_set by auto
  qed
  then show ?thesis by auto
qed

section \<open>Lemmas: taking a slot out\<close>

definition released :: "slot \<Rightarrow> slot" where
  "released sl = sl\<lparr>stExpiry := None, bIndexed := False\<rparr>"

definition armed :: "slot \<Rightarrow> slot" where
  "armed sl = (released sl)\<lparr>bGuardArmed := (pGuard sl \<noteq> None)\<rparr>"

definition guarding :: "slot list \<Rightarrow> nat \<Rightarrow> int" where
  "guarding sls g = int (length (filter (\<lambda>sl. pGuard sl = Some g) sls))"

lemma released_simps [simp]:
  "iCallId (released sl) = iCallId sl" "pGuard (released sl) = pGuard sl" "bGuardArmed (released sl) = bGuardArmed sl"
  by (simp_all add: released_def)

lemma armed_simps [simp]:
  "iCallId (armed sl) = iCallId sl" "pGuard (armed sl) = pGuard sl" "bGuardArmed (armed sl) = (pGuard sl \<noteq> None)"
  "bAwaitingConnect (armed sl) = bAwaitingConnect sl" "pManager (armed sl) = pManager sl" "pSender (armed sl) = pSender sl"
  "iSlotSession (armed sl) = iSlotSession sl"
  by (simp_all add: armed_def released_def)

lemma guarding_simps [simp]:
  "guarding [] g = 0" "guarding (sl # sls) g = (if pGuard sl = Some g then 1 else 0) + guarding sls g"
  "guarding (sls @ sls') g = guarding sls g + guarding sls' g"
  by (simp_all add: guarding_def)

lemma ArmRpcGuard_eq:
  "\<not> bGuardArmed sl \<Longrightarrow> ArmRpcGuard (released sl) gs = (armed sl, \<lambda>g. gs g + guarding [sl] g)"
  by (cases "pGuard sl") (auto simp: ArmRpcGuard_def armed_def released_def)

lemma deadlines_remove: "deadlines (slots(c := None)) = {(b, d, c') \<in> deadlines slots. c' \<noteq> c}"
  by (auto simp: deadlines_def)

lemma shard_okD:
  assumes "shard_ok k sh"
  shows "core_ok k sh" "buckets_ok (mExpire sh)" "entries (mExpire sh) = deadlines (mSlots sh)"
  using assms by (simp_all add: shard_ok_def)

lemma RemoveRpcExpiry_ok:
  assumes ok: "shard_ok k sh" and c: "mSlots sh c = Some sl"
  obtains m where "RemoveRpcExpiry sl sh = (sl\<lparr>stExpiry := None\<rparr>, sh\<lparr>mExpire := m\<rparr>)"
    "buckets_ok m" "entries m = deadlines ((mSlots sh)(c := None))"
proof (cases "stExpiry sl")
  case None
  have "deadlines ((mSlots sh)(c := None)) = entries (mExpire sh)"
    using shard_okD(3) [OF ok] None c by (auto simp: deadlines_def)
  moreover have "sl\<lparr>stExpiry := None\<rparr> = sl" using None by simp
  ultimately show ?thesis using that [of "mExpire sh"] shard_okD(2) [OF ok] None by (simp add: RemoveRpcExpiry_def)
next
  case (Some p)
  obtain b d where p: "p = (b, d)" by force
  have id: "iCallId sl = c" using core_okD(1) [OF shard_okD(1) [OF ok] c] by (simp add: slot_ok_def)
  have "deadlines ((mSlots sh)(c := None)) = entries (mExpire sh) - {(b, d, c)}"
    using shard_okD(3) [OF ok] Some c p by (auto simp: deadlines_def)
  then show ?thesis using that [of "bucket_erase b (d, c) (mExpire sh)"] Some p id
      bucket_erase_ok [OF shard_okD(2) [OF ok]] bucket_erase_entries [OF shard_okD(2) [OF ok]]
    by (simp add: RemoveRpcExpiry_def)
qed

lemma take_out:
  assumes ok: "shard_ok k sh" and c: "mSlots sh c = Some sl" and r: "RemoveRpcExpiry sl sh = (sl1, sh1)"
  shows "RemoveSessionIndex sl1 sh1 = (released sl, sh1\<lparr>mSessions := unindex c (key_of sl) (mSessions sh)\<rparr>)"
    and "mSlots sh1 = mSlots sh"
    and "shard_ok k (erase_slot c (sh1\<lparr>mSessions := unindex c (key_of sl) (mSessions sh)\<rparr>))"
    and "sl1\<lparr>bIndexed := False\<rparr> = released sl" and "mSessions sh1 = mSessions sh"
proof -
  obtain m where m: "sl1 = sl\<lparr>stExpiry := None\<rparr>" "sh1 = sh\<lparr>mExpire := m\<rparr>" "buckets_ok m" "entries m = deadlines ((mSlots sh)(c := None))"
    using RemoveRpcExpiry_ok [OF ok c] r by (metis prod.inject)
  have sk: "slot_ok k c sl" using core_okD(1) [OF shard_okD(1) [OF ok] c] .
  then have i: "bIndexed sl1" "iCallId sl1 = c" "key_of sl1 = key_of sl" by (simp_all add: m slot_ok_def key_of_def)
  show "RemoveSessionIndex sl1 sh1 = (released sl, sh1\<lparr>mSessions := unindex c (key_of sl) (mSessions sh)\<rparr>)"
    unfolding RemoveSessionIndex_eq [OF i(1)] i(2,3) by (simp add: m released_def)
  show "mSlots sh1 = mSlots sh" "sl1\<lparr>bIndexed := False\<rparr> = released sl" "mSessions sh1 = mSessions sh" by (simp_all add: m released_def)
  have "core_ok k (erase_slot c (sh1\<lparr>mSessions := unindex c (key_of sl) (mSessions sh)\<rparr>))"
    using core_ok_remove [OF shard_okD(1) [OF ok] c]
    by (subst core_ok_cong [of _ "sh\<lparr>mSlots := (mSlots sh)(c := None), mSessions := unindex c (key_of sl) (mSessions sh)\<rparr>"])
      (simp_all add: m erase_slot_def)
  then show "shard_ok k (erase_slot c (sh1\<lparr>mSessions := unindex c (key_of sl) (mSessions sh)\<rparr>))"
    using m(3,4) by (simp add: shard_ok_def erase_slot_def m(2))
qed

lemma slot_unarmed: "shard_ok k sh \<Longrightarrow> mSlots sh c = Some sl \<Longrightarrow> \<not> bGuardArmed sl \<and> iCallId sl = c \<and> ShardOf c = k"
  using core_okD(1) [OF shard_okD(1)] by (simp add: slot_ok_def)

section \<open>Lemmas: the sweep\<close>

definition expired :: "int \<Rightarrow> slot \<Rightarrow> bool" where
  "expired iNow sl = (case stExpiry sl of None \<Rightarrow> False | Some (b, d) \<Rightarrow> d \<le> iNow)"

lemma expired_iff: "expired iNow sl \<longleftrightarrow> (\<exists>b d. stExpiry sl = Some (b, d) \<and> d \<le> iNow)"
  by (auto simp: expired_def split: option.splits)

definition due :: "int \<Rightarrow> (int \<times> nat) list \<Rightarrow> nat list" where
  "due iNow q = map snd (filter (\<lambda>(d, c). d \<le> iNow) q)"

definition without :: "nat set \<Rightarrow> (nat \<Rightarrow> slot option) \<Rightarrow> nat \<Rightarrow> slot option" where
  "without C slots = (\<lambda>c. if c \<in> C then None else slots c)"

definition taken_slots :: "(nat \<Rightarrow> slot option) \<Rightarrow> nat list \<Rightarrow> slot list" where
  "taken_slots slots cs = map (\<lambda>c. armed (the (slots c))) cs"

lemma without_simps: "without {} slots = slots" "without C (slots(c := None)) = without (insert c C) slots"
  "without C (without D slots) = without (D \<union> C) slots"
  by (auto simp: without_def)

lemma taken_slots_cong: "(\<And>c. c \<in> set cs \<Longrightarrow> slots' c = slots c) \<Longrightarrow> taken_slots slots' cs = taken_slots slots cs"
  by (simp add: taken_slots_def)

lemma due_subset: "set (due iNow q) \<subseteq> set (map snd q)"
  by (auto simp: due_def)

lemma sweep_bucket_eq:
  assumes "core_ok k sh" and "distinct (map snd q)" and "\<And>c. c \<in> set (map snd q) \<Longrightarrow> mSlots sh c \<noteq> None"
    and "sweep_bucket iNow q sh gs = (f, q', sh', gs')"
  shows "core_ok k sh' \<and> mExpire sh' = mExpire sh \<and> q' = filter (\<lambda>(d, c). d > iNow) q
    \<and> mSlots sh' = without (set (due iNow q)) (mSlots sh) \<and> f = taken_slots (mSlots sh) (due iNow q)
    \<and> gs' = (\<lambda>g. gs g + guarding f g)"
  using assms
proof (induction iNow q sh gs arbitrary: f q' sh' gs' rule: sweep_bucket.induct)
  case (1 iNow sh gs)
  then show ?case by (simp add: due_def without_simps taken_slots_def)
next
  case (2 iNow d c q sh gs)
  obtain sl where c: "mSlots sh c = Some sl" using "2.prems"(3) [of c] by auto
  have sk: "slot_ok k c sl" using core_okD(1) [OF "2.prems"(1) c] .
  show ?case
  proof (cases "d > iNow")
    case True
    then show ?thesis using "2.prems" "2.IH"(2) [OF c True] c
      by (auto simp: due_def split: prod.splits)
  next
    case False
    let ?sh = "erase_slot c (sh\<lparr>mSessions := unindex c (key_of sl) (mSessions sh)\<rparr>)"
    let ?gs = "\<lambda>g. gs g + guarding [sl] g"
    have rm: "RemoveSessionIndex (sl\<lparr>stExpiry := None\<rparr>) sh = (released sl, sh\<lparr>mSessions := unindex c (key_of sl) (mSessions sh)\<rparr>)"
      using sk by (subst RemoveSessionIndex_eq) (simp_all add: slot_ok_def released_def key_of_def)
    have ar: "ArmRpcGuard (released sl) gs = (armed sl, ?gs)" using sk by (intro ArmRpcGuard_eq) (simp add: slot_ok_def)
    obtain f0 where r: "sweep_bucket iNow q ?sh ?gs = (f0, q', sh', gs')" and f: "f = armed sl # f0"
      using "2.prems"(4) c False rm ar by (auto split: prod.splits)
    have ok: "core_ok k ?sh"
      using core_ok_remove [OF "2.prems"(1) c]
      by (subst core_ok_cong [of _ "sh\<lparr>mSlots := (mSlots sh)(c := None), mSessions := unindex c (key_of sl) (mSessions sh)\<rparr>"])
        (simp_all add: erase_slot_def)
    have live: "mSlots ?sh c' \<noteq> None" if "c' \<in> set (map snd q)" for c'
      using that "2.prems"(2,3) by (auto simp: erase_slot_def)
    have IH: "core_ok k sh' \<and> mExpire sh' = mExpire ?sh \<and> q' = filter (\<lambda>(d, c). d > iNow) q
        \<and> mSlots sh' = without (set (due iNow q)) (mSlots ?sh) \<and> f0 = taken_slots (mSlots ?sh) (due iNow q)
        \<and> gs' = (\<lambda>g. ?gs g + guarding f0 g)"
      using "2.IH"(3) [OF c False rm [symmetric] ar [symmetric] ok _ live r] "2.prems"(2) by simp
    have "c \<notin> set (due iNow q)" using "2.prems"(2) due_subset [of iNow q] by auto
    then have "taken_slots (mSlots ?sh) (due iNow q) = taken_slots (mSlots sh) (due iNow q)"
      by (intro taken_slots_cong) (auto simp: erase_slot_def)
    then show ?thesis using IH False c
      by (auto simp: f due_def taken_slots_def erase_slot_def without_simps)
  qed
qed

definition flat :: "(int \<times> (int \<times> nat) list) list \<Rightarrow> (int \<times> nat) list" where
  "flat m = concat (map snd m)"

lemma flat_simps [simp]: "flat [] = []" "flat ((b, q) # m) = q @ flat m"
  by (simp_all add: flat_def)

lemma in_flat: "(d, c) \<in> set (flat m) \<longleftrightarrow> (\<exists>b. (b, d, c) \<in> entries m)"
  by (force simp: flat_def in_entries)

lemma due_append [simp]: "due iNow (q @ q') = due iNow q @ due iNow q'"
  by (simp add: due_def)

lemma due_Nil_iff: "due iNow q = [] \<longleftrightarrow> (\<forall>(d, c) \<in> set q. d > iNow)"
  by (auto simp: due_def filter_empty_conv)

lemma buckets_ok_Cons:
  "buckets_ok ((b, q) # m) \<longleftrightarrow> bucket_ok b q \<and> (\<forall>(b', q') \<in> set m. b < b') \<and> buckets_ok m"
proof -
  have "(\<forall>y \<in> set (map fst m). b \<le> y) \<and> b \<notin> set (map fst m) \<longleftrightarrow> (\<forall>(b', q') \<in> set m. b < b')"
    by (induction m) (auto simp: order.strict_iff_order)
  then show ?thesis unfolding buckets_ok_iff by auto
qed

lemma later_buckets:
  assumes "buckets_ok ((b, q) # m)" and "b > bucket_of iNow"
  shows "due iNow (flat ((b, q) # m)) = []"
proof -
  have "d > iNow" if "(b', d, c) \<in> entries ((b, q) # m)" for b' d c
  proof -
    from that have "bucket_of d = b'" "b \<le> b'"
      using assms(1) unfolding buckets_ok_Cons by (auto simp: in_entries buckets_ok_iff bucket_ok_def) force
    then show ?thesis using assms(2) bucket_of_mono [of d iNow] by force
  qed
  then show ?thesis unfolding due_Nil_iff using in_flat by blast
qed

lemma sweep_buckets_eq:
  assumes "core_ok k sh" and "buckets_ok m" and "distinct (map snd (flat m))"
    and "\<And>c. c \<in> set (map snd (flat m)) \<Longrightarrow> mSlots sh c \<noteq> None"
    and "sweep_buckets iNow m sh gs = (f, m', sh', gs')"
  shows "core_ok k sh' \<and> buckets_ok m' \<and> entries m' = {(b, d, c) \<in> entries m. d > iNow}
    \<and> mSlots sh' = without (set (due iNow (flat m))) (mSlots sh) \<and> f = taken_slots (mSlots sh) (due iNow (flat m))
    \<and> gs' = (\<lambda>g. gs g + guarding f g)"
  using assms
proof (induction iNow m sh gs arbitrary: f m' sh' gs' rule: sweep_buckets.induct)
  case (1 iNow sh gs)
  then show ?case by (auto simp: due_def without_simps taken_slots_def entries_def)
next
  case (2 iNow b q m sh gs)
  show ?case
  proof (cases "b > bucket_of iNow")
    case True
    have none: "due iNow (flat ((b, q) # m)) = []" by (rule later_buckets [OF "2.prems"(2) True])
    then have "{(b', d, c) \<in> entries ((b, q) # m). d > iNow} = entries ((b, q) # m)"
      using in_flat [of _ _ "(b, q) # m"] unfolding due_Nil_iff by blast
    then show ?thesis using "2.prems" True none by (simp add: without_simps taken_slots_def)
  next
    case False
    obtain f1 q1 sh1 gs1 where r1: "sweep_bucket iNow q sh gs = (f1, q1, sh1, gs1)" by (metis prod_cases4)
    obtain f2 m2 sh2 gs2 where r2: "sweep_buckets iNow m sh1 gs1 = (f2, m2, sh2, gs2)" by (metis prod_cases4)
    have res: "f = f1 @ f2" "m' = (if q1 = [] then m2 else (b, q1) # m2)" "sh' = sh2" "gs' = gs2"
      using "2.prems"(5) False r1 r2 by auto
    have dis: "distinct (map snd q)" "distinct (map snd (flat m))" "set (map snd q) \<inter> set (map snd (flat m)) = {}"
      using "2.prems"(3) by auto
    have live: "mSlots sh c \<noteq> None" if "c \<in> set (map snd q) \<union> set (map snd (flat m))" for c
      using "2.prems"(4) [of c] that by auto
    note s1 = sweep_bucket_eq [OF "2.prems"(1) dis(1) live r1]
    have s1: "core_ok k sh1" "q1 = filter (\<lambda>(d, c). d > iNow) q" "mSlots sh1 = without (set (due iNow q)) (mSlots sh)"
      "f1 = taken_slots (mSlots sh) (due iNow q)" "gs1 = (\<lambda>g. gs g + guarding f1 g)"
      using s1 by auto
    have keep: "mSlots sh1 c = mSlots sh c" if "c \<in> set (map snd (flat m))" for c
      using that dis(3) due_subset [of iNow q] unfolding s1(3) without_def by auto
    have ok: "buckets_ok m" "bucket_ok b q" "\<forall>(b', q') \<in> set m. b < b'" using "2.prems"(2) unfolding buckets_ok_Cons by blast+
    have "core_ok k sh2 \<and> buckets_ok m2 \<and> entries m2 = {(b, d, c) \<in> entries m. d > iNow}
        \<and> mSlots sh2 = without (set (due iNow (flat m))) (mSlots sh1) \<and> f2 = taken_slots (mSlots sh1) (due iNow (flat m))
        \<and> gs2 = (\<lambda>g. gs1 g + guarding f2 g)"
      using "2.IH" [OF False r1 [symmetric] refl refl s1(1) ok(1) dis(2) _ r2] keep live by simp
    then have s2: "core_ok k sh2" "buckets_ok m2" "entries m2 = {(b, d, c) \<in> entries m. d > iNow}"
        "mSlots sh2 = without (set (due iNow (flat m))) (mSlots sh1)" "f2 = taken_slots (mSlots sh1) (due iNow (flat m))"
        "gs2 = (\<lambda>g. gs1 g + guarding f2 g)" by blast+
    have f2: "f2 = taken_slots (mSlots sh) (due iNow (flat m))"
      unfolding s2(5) using keep due_subset by (intro taken_slots_cong) blast
    have ents: "entries m' = {(b', d, c) \<in> entries ((b, q) # m). d > iNow}"
    proof -
      have "entries m' = {b} \<times> set q1 \<union> entries m2" by (auto simp: entries_def res(2))
      also have "\<dots> = {(b', d, c) \<in> entries ((b, q) # m). d > iNow}" unfolding s2(3) s1(2) by (auto simp: entries_def)
      finally show ?thesis .
    qed
    have "b < b'" if "(b', q') \<in> set m2" for b' q'
    proof -
      have "q' \<noteq> []" using s2(2) that by (auto simp: buckets_ok_iff bucket_ok_def)
      then obtain d c where "(d, c) \<in> set q'" by (metis list.set_intros(1) list.exhaust prod.exhaust)
      then have "(b', d, c) \<in> entries m2" using that in_entries by blast
      then have "(b', d, c) \<in> entries m" unfolding s2(3) by simp
      then show ?thesis using ok(3) by (auto simp: in_entries)
    qed
    then have "buckets_ok m'" using s2(2) ok(2) unfolding res(2) s1(2)
      by (auto simp: buckets_ok_Cons) (auto simp: bucket_ok_def filter_empty_conv)
    then show ?thesis using s1 s2 f2 ents res by (auto simp: taken_slots_def without_simps)
  qed
qed

lemma flat_distinct:
  assumes ok: "shard_ok k sh"
  shows "distinct (map snd (flat (mExpire sh)))"
proof -
  have uniq: "b = b' \<and> d = d'" if "(b, d, c) \<in> entries (mExpire sh)" "(b', d', c) \<in> entries (mExpire sh)" for b b' d d' c
    using that shard_okD(3) [OF ok] by (auto simp: deadlines_def)
  have "distinct (map snd (flat m))" if "buckets_ok m" "entries m \<subseteq> entries (mExpire sh)" for m
    using that
  proof (induction m)
    case (Cons p m)
    obtain b q where p: "p = (b, q)" by force
    have sub: "{b} \<times> set q \<subseteq> entries (mExpire sh)" "entries m \<subseteq> entries (mExpire sh)"
    proof -
      have "entries (p # m) = {b} \<times> set q \<union> entries m" by (auto simp: p entries_def)
      then show "{b} \<times> set q \<subseteq> entries (mExpire sh)" "entries m \<subseteq> entries (mExpire sh)" using Cons.prems(2) by simp_all
    qed
    have "distinct q" "buckets_ok m" "\<forall>(b', q') \<in> set m. b < b'"
      using Cons.prems(1) by (auto simp: p buckets_ok_Cons bucket_ok_def)
    moreover have "inj_on snd (set q)" using uniq sub(1) by (fastforce simp: inj_on_def)
    moreover have "set (map snd q) \<inter> set (map snd (flat m)) = {}"
    proof (rule ccontr)
      assume "set (map snd q) \<inter> set (map snd (flat m)) \<noteq> {}"
      then obtain d d' c where "(d, c) \<in> set q" "(d', c) \<in> set (flat m)" by auto
      then obtain b' where "(b', d', c) \<in> entries m" "(b, d, c) \<in> entries (mExpire sh)" using in_flat sub(1) by blast
      moreover from this have "b = b'" using uniq sub(2) by blast
      ultimately show False using \<open>\<forall>(b', q') \<in> set m. b < b'\<close> by (auto simp: in_entries)
    qed
    ultimately show ?case using Cons.IH sub(2) by (simp add: p distinct_map)
  qed simp
  then show ?thesis using shard_okD(2) [OF ok] by blast
qed

section \<open>The table as a map of pending calls\<close>

text \<open>
  The abstraction: which calls are pending, with their slots. Every operation that takes slots out
  does it in the same way: some calls disappear from the map and from nothing else, and their slots,
  armed, are handed out.
\<close>

definition pending :: "calls \<Rightarrow> nat \<Rightarrow> slot option" where
  "pending s c = mSlots (g_call_shards s (ShardOf c)) c"

definition calls_ok :: "calls \<Rightarrow> bool" where
  "calls_ok s \<longleftrightarrow> (\<forall>k < kCallShards. shard_ok k (g_call_shards s k)) \<and> (\<forall>c. pending s c \<noteq> None \<longrightarrow> 0 < c \<and> c < g_call_seq s)"

definition takes_shard :: "nat \<Rightarrow> shard \<Rightarrow> guard_counts \<Rightarrow> nat list \<Rightarrow> slot list \<Rightarrow> shard \<Rightarrow> guard_counts \<Rightarrow> bool" where
  "takes_shard k sh gs cs f sh' gs' \<longleftrightarrow> shard_ok k sh' \<and> distinct cs \<and> (\<forall>c \<in> set cs. mSlots sh c \<noteq> None)
     \<and> f = taken_slots (mSlots sh) cs \<and> mSlots sh' = without (set cs) (mSlots sh) \<and> gs' = (\<lambda>g. gs g + guarding f g)"

definition takes :: "calls \<Rightarrow> nat list \<Rightarrow> slot list \<Rightarrow> calls \<Rightarrow> bool" where
  "takes s cs f s' \<longleftrightarrow> calls_ok s' \<and> distinct cs \<and> (\<forall>c \<in> set cs. pending s c \<noteq> None)
     \<and> f = taken_slots (pending s) cs \<and> pending s' = without (set cs) (pending s)
     \<and> guards s' = (\<lambda>g. guards s g + guarding f g) \<and> g_call_seq s' = g_call_seq s"

lemma ShardOf_less [simp]: "ShardOf c < kCallShards"
  by (simp add: ShardOf_def)

lemma calls_okD:
  assumes "calls_ok s"
  shows "k < kCallShards \<Longrightarrow> shard_ok k (g_call_shards s k)" "pending s c = Some sl \<Longrightarrow> 0 < c \<and> c < g_call_seq s \<and> iCallId sl = c \<and> \<not> bGuardArmed sl"
proof -
  show "k < kCallShards \<Longrightarrow> shard_ok k (g_call_shards s k)" using assms by (simp add: calls_ok_def)
  assume p: "pending s c = Some sl"
  then have "\<not> bGuardArmed sl \<and> iCallId sl = c"
    using assms slot_unarmed [of "ShardOf c" "g_call_shards s (ShardOf c)" c sl] by (simp add: calls_ok_def pending_def)
  then show "0 < c \<and> c < g_call_seq s \<and> iCallId sl = c \<and> \<not> bGuardArmed sl" using assms p by (auto simp: calls_ok_def)
qed

lemma set_shard_simps [simp]:
  "g_call_seq (set_shard k sh s) = g_call_seq s" "guards (set_shard k sh s) = guards s"
  "g_call_shards (set_shard k sh s) = (g_call_shards s)(k := sh)"
  by (simp_all add: set_shard_def)

lemma pending_cong: "g_call_shards s' = g_call_shards s \<Longrightarrow> pending s' = pending s"
  by (rule ext) (simp add: pending_def)

lemma pending_set_shard: "pending (set_shard k sh s) c = (if ShardOf c = k then mSlots sh c else pending s c)"
  by (simp add: pending_def)

lemma shard_slots: "calls_ok s \<Longrightarrow> k < kCallShards \<Longrightarrow> mSlots (g_call_shards s k) c = (if ShardOf c = k then pending s c else None)"
  using calls_okD(1) [of s k] slot_unarmed [of k "g_call_shards s k" c] by (cases "mSlots (g_call_shards s k) c") (auto simp: pending_def)

lemma calls_ok_set_shard:
  assumes "calls_ok s" and "shard_ok k sh" and "\<And>c. mSlots sh c \<noteq> None \<Longrightarrow> 0 < c \<and> c < g_call_seq s'"
    and "g_call_shards s' = (g_call_shards s)(k := sh)" and "g_call_seq s \<le> g_call_seq s'"
  shows "calls_ok s'"
proof -
  have "pending s' c = (if ShardOf c = k then mSlots sh c else pending s c)" for c by (simp add: pending_def assms(4))
  then show ?thesis using assms unfolding calls_ok_def by (auto dest: order.strict_trans2)
qed

lemma takes_lift:
  assumes "calls_ok s" and "k < kCallShards" and t: "takes_shard k (g_call_shards s k) (guards s) cs f sh' gs'"
  shows "takes s cs f ((set_shard k sh' s)\<lparr>guards := gs'\<rparr>)"
proof -
  let ?s' = "(set_shard k sh' s)\<lparr>guards := gs'\<rparr>"
  have slots: "mSlots (g_call_shards s k) c = (if ShardOf c = k then pending s c else None)" for c
    by (rule shard_slots [OF assms(1,2)])
  have t': "shard_ok k sh'" "distinct cs" "\<forall>c \<in> set cs. mSlots (g_call_shards s k) c \<noteq> None" "f = taken_slots (mSlots (g_call_shards s k)) cs"
    "mSlots sh' = without (set cs) (mSlots (g_call_shards s k))" "gs' = (\<lambda>g. guards s g + guarding f g)"
    using t by (auto simp: takes_shard_def)
  have "calls_ok ?s'"
    using calls_okD(2) [OF assms(1)] by (intro calls_ok_set_shard [OF assms(1) t'(1)]) (auto simp: t'(5) without_def slots split: if_splits)
  moreover have on: "ShardOf c = k \<and> pending s c \<noteq> None" if "c \<in> set cs" for c using t'(3) that by (auto simp: slots split: if_splits)
  moreover have "f = taken_slots (pending s) cs" unfolding t'(4) using on by (intro taken_slots_cong) (simp add: slots)
  moreover have "pending ?s' = without (set cs) (pending s)"
  proof
    fix c
    have "pending ?s' c = (if ShardOf c = k then mSlots sh' c else pending s c)" by (simp add: pending_def)
    then show "pending ?s' c = without (set cs) (pending s) c" using on by (auto simp: t'(5) without_def slots)
  qed
  ultimately show ?thesis using t'(2,6) by (simp add: takes_def)
qed

lemma takes_nil: "calls_ok s \<Longrightarrow> takes s [] [] s"
  by (simp add: takes_def taken_slots_def without_simps)

lemma takes_trans:
  assumes "takes s cs f s1" and "takes s1 cs2 f2 s2"
  shows "takes s (cs @ cs2) (f @ f2) s2"
proof -
  have p: "pending s1 = without (set cs) (pending s)" and l2: "\<forall>c \<in> set cs2. pending s1 c \<noteq> None"
    using assms by (simp_all add: takes_def)
  then have dis: "set cs \<inter> set cs2 = {}" and keep: "\<forall>c \<in> set cs2. pending s1 c = pending s c" by (auto simp: without_def split: if_splits)
  have "taken_slots (pending s1) cs2 = taken_slots (pending s) cs2" using keep by (intro taken_slots_cong) simp
  then show ?thesis using assms dis keep l2 by (auto simp: takes_def taken_slots_def without_simps)
qed

lemma TakeRpcSlot_cases:
  assumes ok: "calls_ok s" and t: "TakeRpcSlot c src s = (r, s')"
  obtains (none) "r = None" "s' = s" "\<And>sl. pending s c = Some sl \<Longrightarrow> wrong_source src sl"
  | (taken) sl where "pending s c = Some sl" "\<not> wrong_source src sl" "r = Some (armed sl)" "takes s [c] [armed sl] s'"
proof (cases "pending s c")
  case None
  then show ?thesis using t none by (simp add: TakeRpcSlot_def pending_def Let_def)
next
  case (Some sl)
  show ?thesis
  proof (cases "wrong_source src sl")
    case True
    then show ?thesis using Some t none by (simp add: TakeRpcSlot_def pending_def Let_def)
  next
    case False
    let ?k = "ShardOf c" let ?sh = "g_call_shards s ?k"
    have sh: "shard_ok ?k ?sh" and c: "mSlots ?sh c = Some sl" using calls_okD(1) [OF ok] Some by (simp_all add: pending_def)
    obtain sl1 sh1 where r1: "RemoveRpcExpiry sl ?sh = (sl1, sh1)" by force
    note o = take_out [OF sh c r1]
    have un: "\<not> bGuardArmed sl" using slot_unarmed [OF sh c] by simp
    let ?sh2 = "erase_slot c (sh1\<lparr>mSessions := unindex c (key_of sl) (mSessions ?sh)\<rparr>)"
    have res: "r = Some (armed sl)" "s' = (set_shard ?k ?sh2 s)\<lparr>guards := \<lambda>g. guards s g + guarding [sl] g\<rparr>"
      using t c False r1 o(1) ArmRpcGuard_eq [OF un] by (simp_all add: TakeRpcSlot_def Let_def)
    have "takes_shard ?k ?sh (guards s) [c] [armed sl] ?sh2 (\<lambda>g. guards s g + guarding [sl] g)"
      using o(2,3) c by (auto simp: takes_shard_def taken_slots_def without_def erase_slot_def)
    from takes_lift [OF ok _ this] res False Some taken show ?thesis by simp
  qed
qed

lemma sweep_shard_takes:
  assumes ok: "calls_ok s" and k: "k < kCallShards" and r: "sweep_shard iNow k s = (f, s')"
  obtains cs where "takes s cs f s'" "set cs = {c. ShardOf c = k \<and> (\<exists>sl. pending s c = Some sl \<and> expired iNow sl)}"
proof -
  let ?sh = "g_call_shards s k" let ?m = "mExpire ?sh" let ?cs = "due iNow (flat ?m)"
  have sh: "shard_ok k ?sh" using calls_okD(1) [OF ok k] .
  obtain m' sh' gs' where b: "sweep_buckets iNow ?m ?sh (guards s) = (f, m', sh', gs')" and s': "s' = (set_shard k (sh'\<lparr>mExpire := m'\<rparr>) s)\<lparr>guards := gs'\<rparr>"
    using r by (auto simp: sweep_shard_def split: prod.splits)
  have fl: "(d, c) \<in> set (flat ?m) \<longleftrightarrow> (\<exists>b sl. mSlots ?sh c = Some sl \<and> stExpiry sl = Some (b, d))" for d c
    unfolding in_flat shard_okD(3) [OF sh] by (auto simp: deadlines_def)
  have live: "mSlots ?sh c \<noteq> None" if "c \<in> set (map snd (flat ?m))" for c using that fl by auto
  have e: "core_ok k sh'" "buckets_ok m'" "entries m' = {(b, d, c) \<in> entries ?m. d > iNow}" "mSlots sh' = without (set ?cs) (mSlots ?sh)"
    "f = taken_slots (mSlots ?sh) ?cs" "gs' = (\<lambda>g. guards s g + guarding f g)"
    using sweep_buckets_eq [OF shard_okD(1,2) [OF sh] flat_distinct [OF sh] live b] by blast+
  have due_iff: "c \<in> set ?cs \<longleftrightarrow> (\<exists>sl. mSlots ?sh c = Some sl \<and> expired iNow sl)" for c
  proof -
    have "c \<in> set ?cs \<longleftrightarrow> (\<exists>d. (d, c) \<in> set (flat ?m) \<and> d \<le> iNow)" by (force simp: due_def)
    also have "\<dots> \<longleftrightarrow> (\<exists>sl. mSlots ?sh c = Some sl \<and> expired iNow sl)" unfolding fl expired_iff by blast
    finally show ?thesis .
  qed
  have "entries m' = deadlines (mSlots sh')"
  proof -
    have "(b, d, c) \<in> entries m' \<longleftrightarrow> (b, d, c) \<in> deadlines (mSlots sh')" for b d c
      unfolding e(3,4) shard_okD(3) [OF sh] using due_iff [of c] by (auto simp: deadlines_def without_def expired_def)
    then show ?thesis by auto
  qed
  then have "shard_ok k (sh'\<lparr>mExpire := m'\<rparr>)"
    using e(1,2) core_ok_cong [of "sh'\<lparr>mExpire := m'\<rparr>" sh' k] by (simp add: shard_ok_def)
  moreover have "distinct ?cs" using flat_distinct [OF sh] by (simp add: due_def distinct_map_filter)
  ultimately have "takes_shard k ?sh (guards s) ?cs f (sh'\<lparr>mExpire := m'\<rparr>) gs'"
    using e due_iff by (auto simp: takes_shard_def)
  moreover have "set ?cs = {c. ShardOf c = k \<and> (\<exists>sl. pending s c = Some sl \<and> expired iNow sl)}"
    unfolding set_eq_iff due_iff shard_slots [OF ok k] by auto
  ultimately show ?thesis using that [of ?cs] takes_lift [OF ok k] s' by simp
qed

lemma sweep_shards_takes:
  assumes "calls_ok s" and "distinct ks" and "\<forall>k \<in> set ks. k < kCallShards" and "sweep_shards iNow ks s = (f, s')"
  shows "\<exists>cs. takes s cs f s' \<and> set cs = {c. ShardOf c \<in> set ks \<and> (\<exists>sl. pending s c = Some sl \<and> expired iNow sl)}"
  using assms
proof (induction ks arbitrary: s f)
  case Nil
  then show ?case using takes_nil by fastforce
next
  case (Cons k ks)
  obtain f1 s1 where r1: "sweep_shard iNow k s = (f1, s1)" by force
  obtain f2 where r2: "sweep_shards iNow ks s1 = (f2, s')" and f: "f = f1 @ f2" using Cons.prems(4) r1 by (auto split: prod.splits)
  obtain cs1 where t1: "takes s cs1 f1 s1" and c1: "set cs1 = {c. ShardOf c = k \<and> (\<exists>sl. pending s c = Some sl \<and> expired iNow sl)}"
    using sweep_shard_takes [OF Cons.prems(1) _ r1] Cons.prems(3) by auto
  have "calls_ok s1" and p1: "pending s1 = without (set cs1) (pending s)" using t1 by (simp_all add: takes_def)
  then obtain cs2 where t2: "takes s1 cs2 f2 s'" and c2: "set cs2 = {c. ShardOf c \<in> set ks \<and> (\<exists>sl. pending s1 c = Some sl \<and> expired iNow sl)}"
    using Cons.IH [OF _ _ _ r2] Cons.prems(2,3) by auto
  have "set (cs1 @ cs2) = {c. ShardOf c \<in> set (k # ks) \<and> (\<exists>sl. pending s c = Some sl \<and> expired iNow sl)}"
    using Cons.prems(2) unfolding set_append c1 c2 p1 without_def by auto
  then show ?case using takes_trans [OF t1 t2] f by blast
qed

section \<open>Lemmas: completion\<close>

definition finish_events :: "int \<Rightarrow> slot \<Rightarrow> 'b rpc_event list" where
  "finish_events code sl = (if bAwaitingConnect sl then [DropPendingCall (pSender sl) (pManager sl) (iCallId sl)] else [])
     @ [Result (iCallId sl) code, Resumed (iCallId sl)]"

lemma finish_events_armed: "finish_events code (armed sl) = finish_events code sl"
  by (simp add: finish_events_def)

lemma FinishRpcSlot_guards:
  "bGuardArmed sl = (pGuard sl \<noteq> None) \<Longrightarrow> snd (FinishRpcSlot sl code body gs) = (\<lambda>g. gs g - guarding [sl] g)"
  by (auto simp: FinishRpcSlot_def split: option.split)

lemma FinishRpcSlot_eq:
  "bGuardArmed sl = (pGuard sl \<noteq> None) \<Longrightarrow> FinishRpcSlot sl code None gs = (finish_events code sl, \<lambda>g. gs g - guarding [sl] g)"
  by (intro prod_eqI) (simp_all add: FinishRpcSlot_guards, simp add: FinishRpcSlot_def finish_events_def)

lemma FinishAll_eq:
  "(\<forall>sl \<in> set f. bGuardArmed sl = (pGuard sl \<noteq> None)) \<Longrightarrow>
    FinishAll code f gs = (concat (map (\<lambda>sl. finish_events (code sl) sl) f), \<lambda>g. gs g - guarding f g)"
proof (induction f arbitrary: gs)
  case (Cons sl f)
  then show ?case by (simp add: FinishRpcSlot_eq algebra_simps)
qed simp

lemma taken_armed: "sl \<in> set (taken_slots slots cs) \<Longrightarrow> bGuardArmed sl = (pGuard sl \<noteq> None)"
  by (auto simp: taken_slots_def)

text \<open>Completing what was taken out returns every guard to its old count.\<close>

lemma FinishAll_takes:
  assumes "takes s cs f s'"
  shows "FinishAll code f (guards s') = (concat (map (\<lambda>c. finish_events (code (armed (the (pending s c)))) (the (pending s c))) cs), guards s)"
proof -
  have f: "f = taken_slots (pending s) cs" and g: "guards s' = (\<lambda>g. guards s g + guarding f g)" using assms by (simp_all add: takes_def)
  have "FinishAll code f (guards s') = (concat (map (\<lambda>sl. finish_events (code sl) sl) f), \<lambda>x. guards s' x - guarding f x)"
    using taken_armed f by (intro FinishAll_eq) blast
  then show ?thesis by (simp add: g) (simp add: f taken_slots_def comp_def finish_events_armed)
qed

section \<open>Lemmas: a broken connection\<close>

definition with_index :: "session_key \<Rightarrow> nat list \<Rightarrow> shard \<Rightarrow> shard" where
  "with_index key l sh = sh\<lparr>mSessions := (mSessions sh)(key := if l = [] then None else Some l)\<rparr>"

lemma with_index_slots [simp]: "mSlots (with_index key l sh) = mSlots sh" "mExpire (with_index key l sh) = mExpire sh"
  by (simp_all add: with_index_def)

lemma with_index_calls:
  assumes "core_ok k (with_index key l sh)"
  shows "set l = calls_of (mSlots sh) key" "distinct l"
  using core_okD(2) [OF assms, of key] by (auto simp: index_at_def with_index_def split: if_splits)

lemma pop_ok:
  assumes ok: "shard_ok k (with_index key (c # l) sh)"
  obtains sl sl1 sh1 where "mSlots sh c = Some sl" "RemoveRpcExpiry sl sh = (sl1, sh1)" "sl1\<lparr>bIndexed := False\<rparr> = released sl"
    "shard_ok k (with_index key l (erase_slot c sh1))" "mSlots sh1 = mSlots sh" "\<not> bGuardArmed sl" "mSessions sh1 = mSessions sh"
proof -
  let ?w = "with_index key (c # l) sh"
  have "c \<in> calls_of (mSlots sh) key" using with_index_calls(1) [OF shard_okD(1) [OF ok]] by auto
  then obtain sl where c: "mSlots sh c = Some sl" and key: "key_of sl = key" by (auto simp: calls_of_def)
  obtain sl1 sh1 where r: "RemoveRpcExpiry sl sh = (sl1, sh1)" by force
  then have rw: "RemoveRpcExpiry sl ?w = (sl1, with_index key (c # l) sh1)" and s1: "mSessions sh1 = mSessions sh"
    by (auto simp: RemoveRpcExpiry_def with_index_def split: option.splits)
  have "unindex c (key_of sl) (mSessions ?w) = (mSessions ?w)(key := if l = [] then None else Some l)"
    by (simp add: unindex_def key with_index_def)
  then have "erase_slot c (with_index key (c # l) sh1\<lparr>mSessions := unindex c (key_of sl) (mSessions ?w)\<rparr>) = with_index key l (erase_slot c sh1)"
    using s1 by (simp add: with_index_def erase_slot_def)
  then show ?thesis using that [of sl sl1 sh1] c r take_out [of k ?w c sl, OF ok _ rw] slot_unarmed [OF ok, of c sl] s1 by simp
qed

lemma fail_pops_ok:
  assumes "shard_ok k (with_index key l sh)" and "fail_pops n l sh gs = (f, l', sh', gs')"
  shows "takes_shard k sh gs (take n l) f (with_index key l' sh') gs' \<and> l' = drop n l \<and> mSessions sh' = mSessions sh"
  using assms
proof (induction n l sh gs arbitrary: f l' sh' gs' rule: fail_pops.induct)
  case (1 n c l sh gs)
  obtain sl sl1 sh1 where p: "mSlots sh c = Some sl" "RemoveRpcExpiry sl sh = (sl1, sh1)" "sl1\<lparr>bIndexed := False\<rparr> = released sl"
    "shard_ok k (with_index key l (erase_slot c sh1))" "mSlots sh1 = mSlots sh" "\<not> bGuardArmed sl" "mSessions sh1 = mSessions sh"
    using pop_ok [OF "1.prems"(1)] by blast
  let ?gs = "\<lambda>g. gs g + guarding [sl] g"
  have ar: "ArmRpcGuard (sl1\<lparr>bIndexed := False\<rparr>) gs = (armed sl, ?gs)" unfolding p(3) by (rule ArmRpcGuard_eq [OF p(6)])
  obtain f0 where r: "fail_pops n l (erase_slot c sh1) ?gs = (f0, l', sh', gs')" and f: "f = armed sl # f0"
    using "1.prems"(2) p(1,2) ar by (auto split: prod.splits)
  have IH: "takes_shard k (erase_slot c sh1) ?gs (take n l) f0 (with_index key l' sh') gs'" "l' = drop n l" "mSessions sh' = mSessions (erase_slot c sh1)"
    using "1.IH"(2) [OF p(1) p(2) [symmetric] ar [symmetric] p(4) r] by blast+
  have slots: "mSlots (erase_slot c sh1) = (mSlots sh)(c := None)" by (simp add: erase_slot_def p(5))
  have nc: "c \<notin> set (take n l)" using IH(1) unfolding takes_shard_def slots by auto
  then have "taken_slots ((mSlots sh)(c := None)) (take n l) = taken_slots (mSlots sh) (take n l)" by (intro taken_slots_cong) auto
  then have "takes_shard k sh gs (c # take n l) f (with_index key l' sh') gs'"
    using IH(1) nc p(1) unfolding takes_shard_def slots by (auto simp: f taken_slots_def without_simps split: if_splits)
  then show ?case using IH(2,3) p(7) by (simp add: erase_slot_def)
next
  case (2 l sh gs)
  then show ?case by (auto simp: takes_shard_def taken_slots_def without_simps)
next
  case (3 n sh gs)
  then show ?case by (auto simp: takes_shard_def taken_slots_def without_simps)
qed

lemma with_index_id:
  assumes "core_ok k sh" and "mSessions sh key = Some l"
  shows "with_index key l sh = sh" "l \<noteq> []"
proof -
  show "l \<noteq> []" using core_okD(2) [OF assms(1), of key] assms(2) by (simp add: index_at_def)
  then show "with_index key l sh = sh" using assms(2) by (simp add: with_index_def fun_upd_idem)
qed

lemma fail_batch_takes:
  assumes ok: "shard_ok k sh" and b: "fail_batch key sh gs = Some (f, sh', gs')"
  obtains cs where "takes_shard k sh gs cs f sh' gs'" "cs \<noteq> []" "set cs \<subseteq> calls_of (mSlots sh) key"
proof -
  obtain l l' sh1 where l: "mSessions sh key = Some l" and r: "fail_pops 32 l sh gs = (f, l', sh1, gs')"
    and sh': "sh' = with_index key l' sh1"
    using b by (auto simp: fail_batch_def with_index_def split: option.splits prod.splits)
  note id = with_index_id [OF shard_okD(1) [OF ok] l]
  have "shard_ok k (with_index key l sh)" using ok id(1) by simp
  from fail_pops_ok [OF this r] have "takes_shard k sh gs (take 32 l) f sh' gs'" unfolding sh' by blast
  moreover have "set l = calls_of (mSlots sh) key" using core_okD(2) [OF shard_okD(1) [OF ok], of key] l by (simp add: index_at_def)
  then have "set (take 32 l) \<subseteq> calls_of (mSlots sh) key" using set_take_subset by fast
  moreover have "take 32 l \<noteq> []" using id(2) by simp
  ultimately show ?thesis using that by blast
qed

lemma fail_shard_ok:
  fixes ev :: "'b rpc_event list"
  assumes "shard_ok k sh" and "fail_shard key sh gs = (ev, sh', gs')"
  shows "\<exists>cs. distinct cs \<and> set cs = calls_of (mSlots sh) key \<and> shard_ok k sh' \<and> mSlots sh' = without (set cs) (mSlots sh)
    \<and> ev = concat (map (\<lambda>c. finish_events OI_ERR_CONNECT (the (mSlots sh c))) cs) \<and> gs' = gs"
  using assms
proof (induction key sh gs arbitrary: ev sh' gs' rule: fail_shard.induct [where ?'a = 'b])
  case (1 key sh gs)
  show ?case
  proof (cases "fail_batch key sh gs")
    case None
    then have "mSessions sh key = None" by (auto simp: fail_batch_def split: option.splits prod.splits)
    then have "calls_of (mSlots sh) key = {}" using core_okD(2) [OF shard_okD(1) [OF "1.prems"(1)], of key] by (simp add: index_at_def)
    then show ?thesis using None "1.prems" by (simp add: fail_shard.simps [of key sh gs] without_simps)
  next
    case (Some p)
    obtain f sh1 gs1 where p: "p = (f, sh1, gs1)" by (metis prod_cases3)
    obtain cs1 where t: "takes_shard k sh gs cs1 f sh1 gs1" and sub: "set cs1 \<subseteq> calls_of (mSlots sh) key"
      using fail_batch_takes [OF "1.prems"(1)] Some p by blast
    have t': "shard_ok k sh1" "distinct cs1" "f = taken_slots (mSlots sh) cs1" "mSlots sh1 = without (set cs1) (mSlots sh)"
      "gs1 = (\<lambda>g. gs g + guarding f g)" using t by (simp_all add: takes_shard_def)
    have fin: "FinishAll (\<lambda>_. OI_ERR_CONNECT) f gs1 = (concat (map (finish_events OI_ERR_CONNECT) f) :: 'b rpc_event list, gs)"
      using taken_armed t'(3) by (subst FinishAll_eq) (auto simp: t'(5))
    obtain ev2 where r: "fail_shard key sh1 gs = (ev2, sh', gs')" and ev: "ev = concat (map (finish_events OI_ERR_CONNECT) f) @ ev2"
      using "1.prems"(2) Some p fin by (auto simp: fail_shard.simps [of key sh gs] split: prod.splits)
    obtain cs2 where c2: "distinct cs2" "set cs2 = calls_of (mSlots sh1) key" "shard_ok k sh'" "mSlots sh' = without (set cs2) (mSlots sh1)"
      "ev2 = concat (map (\<lambda>c. finish_events OI_ERR_CONNECT (the (mSlots sh1 c))) cs2)" "gs' = gs"
      using "1.IH" [OF Some p [symmetric] refl fin [symmetric] t'(1) r] by blast
    have rest: "calls_of (mSlots sh1) key = calls_of (mSlots sh) key - set cs1" unfolding t'(4) by (auto simp: calls_of_def without_def)
    have keep: "mSlots sh1 c = mSlots sh c" if "c \<in> set cs2" for c using that unfolding c2(2) rest by (simp add: t'(4) without_def)
    have "ev = concat (map (\<lambda>c. finish_events OI_ERR_CONNECT (the (mSlots sh c))) (cs1 @ cs2))"
      unfolding ev c2(5) t'(3) using keep by (simp add: taken_slots_def comp_def finish_events_armed cong: map_cong)
    moreover have "distinct (cs1 @ cs2)" "set (cs1 @ cs2) = calls_of (mSlots sh) key"
      using c2(1,2) t'(2) sub unfolding rest by auto
    moreover have "mSlots sh' = without (set (cs1 @ cs2)) (mSlots sh)" unfolding c2(4) t'(4) without_simps set_append ..
    ultimately show ?thesis using c2(3,6) by blast
  qed
qed

definition session_calls :: "calls \<Rightarrow> session_key \<Rightarrow> nat set" where
  "session_calls s key = {c. \<exists>sl. pending s c = Some sl \<and> key_of sl = key}"

lemma fail_shards_ok:
  fixes ev :: "'b rpc_event list"
  assumes "calls_ok s" and "distinct ks" and "\<forall>k \<in> set ks. k < kCallShards" and "fail_shards key ks s = (ev, s')"
  shows "\<exists>cs. distinct cs \<and> set cs = {c \<in> session_calls s key. ShardOf c \<in> set ks} \<and> calls_ok s' \<and> pending s' = without (set cs) (pending s)
    \<and> ev = concat (map (\<lambda>c. finish_events OI_ERR_CONNECT (the (pending s c))) cs) \<and> guards s' = guards s \<and> g_call_seq s' = g_call_seq s"
  using assms
proof (induction ks arbitrary: s ev)
  case Nil
  then show ?case by (simp add: without_simps)
next
  case (Cons k ks)
  let ?sh = "g_call_shards s k"
  have k: "k < kCallShards" using Cons.prems(3) by simp
  obtain ev1 sh1 gs1 where r1: "(fail_shard key ?sh (guards s) :: 'b rpc_event list \<times> shard \<times> guard_counts) = (ev1, sh1, gs1)" by (metis prod_cases3)
  obtain cs1 where c1: "distinct cs1" "set cs1 = calls_of (mSlots ?sh) key" "shard_ok k sh1" "mSlots sh1 = without (set cs1) (mSlots ?sh)"
    "ev1 = concat (map (\<lambda>c. finish_events OI_ERR_CONNECT (the (mSlots ?sh c))) cs1)" "gs1 = guards s"
    using fail_shard_ok [OF calls_okD(1) [OF Cons.prems(1) k] r1] by blast
  let ?s1 = "(set_shard k sh1 s)\<lparr>guards := gs1\<rparr>"
  obtain ev2 where r2: "fail_shards key ks ?s1 = (ev2, s')" and ev: "ev = ev1 @ ev2"
    using Cons.prems(4) r1 by (auto split: prod.splits)
  have set1: "set cs1 = {c \<in> session_calls s key. ShardOf c = k}"
    unfolding c1(2) calls_of_def session_calls_def shard_slots [OF Cons.prems(1) k] by (auto split: if_splits)
  have slots: "mSlots ?sh c = pending s c" if "ShardOf c = k" for c using shard_slots [OF Cons.prems(1) k, of c] that by simp
  have p1: "pending ?s1 = without (set cs1) (pending s)"
  proof
    fix c
    have "pending ?s1 c = (if ShardOf c = k then mSlots sh1 c else pending s c)" by (simp add: pending_def)
    then show "pending ?s1 c = without (set cs1) (pending s) c" using slots set1 by (auto simp: c1(4) without_def)
  qed
  have "calls_ok ?s1"
    using calls_okD(2) [OF Cons.prems(1)] by (intro calls_ok_set_shard [OF Cons.prems(1) c1(3)])
      (auto simp: c1(4) without_def shard_slots [OF Cons.prems(1) k] split: if_splits)
  from Cons.IH [OF this _ _ r2] Cons.prems(2,3) obtain cs2 where c2: "distinct cs2" "set cs2 = {c \<in> session_calls ?s1 key. ShardOf c \<in> set ks}"
    "calls_ok s'" "pending s' = without (set cs2) (pending ?s1)" "ev2 = concat (map (\<lambda>c. finish_events OI_ERR_CONNECT (the (pending ?s1 c))) cs2)"
    "guards s' = guards ?s1" "g_call_seq s' = g_call_seq ?s1" by auto
  have set2: "set cs2 = {c \<in> session_calls s key. ShardOf c \<in> set ks}"
    using Cons.prems(2) unfolding c2(2) session_calls_def p1 set1 by (auto simp: without_def session_calls_def)
  have keep: "pending ?s1 c = pending s c" if "c \<in> set cs2" for c
    using that Cons.prems(2) unfolding p1 without_def set1 set2 by auto
  have "ev = concat (map (\<lambda>c. finish_events OI_ERR_CONNECT (the (pending s c))) (cs1 @ cs2))"
  proof -
    have "map (\<lambda>c. finish_events OI_ERR_CONNECT (the (mSlots ?sh c)) :: 'b rpc_event list) cs1 = map (\<lambda>c. finish_events OI_ERR_CONNECT (the (pending s c))) cs1"
      "map (\<lambda>c. finish_events OI_ERR_CONNECT (the (pending ?s1 c)) :: 'b rpc_event list) cs2 = map (\<lambda>c. finish_events OI_ERR_CONNECT (the (pending s c))) cs2"
      using keep slots set1 by simp_all
    then show ?thesis unfolding ev c1(5) c2(5) map_append concat_append by (simp only:)
  qed
  moreover have "distinct (cs1 @ cs2)" "set (cs1 @ cs2) = {c \<in> session_calls s key. ShardOf c \<in> set (k # ks)}"
    using c1(1) c2(1) Cons.prems(2) set1 set2 by auto
  moreover have "pending s' = without (set (cs1 @ cs2)) (pending s)" unfolding c2(4) p1 without_simps set_append ..
  moreover have "guards s' = guards s" "g_call_seq s' = g_call_seq s" using c2(6,7) c1(6) by simp_all
  ultimately show ?case using c2(3) by (intro exI [of _ "cs1 @ cs2"]) blast
qed

section \<open>Lemmas: calls that stay\<close>

lemma deadlines_update:
  "slots c = Some sl \<Longrightarrow> stExpiry sl' = stExpiry sl \<Longrightarrow> deadlines (slots(c \<mapsto> sl')) = deadlines slots"
  by (auto simp: deadlines_def)

lemma MarkRpcAwaitingConnect_ok:
  assumes ok: "calls_ok s" and m: "MarkRpcAwaitingConnect c s = (r, s')"
  shows "calls_ok s' \<and> guards s' = guards s \<and> g_call_seq s' = g_call_seq s \<and> r = (pending s c \<noteq> None)
    \<and> pending s' = (pending s)(c := map_option (\<lambda>sl. sl\<lparr>bAwaitingConnect := True\<rparr>) (pending s c))"
proof (cases "pending s c")
  case None
  then show ?thesis using assms by (auto simp: MarkRpcAwaitingConnect_def pending_def Let_def fun_eq_iff)
next
  case (Some sl)
  let ?k = "ShardOf c" let ?sh = "g_call_shards s ?k" let ?sl = "sl\<lparr>bAwaitingConnect := True\<rparr>"
  let ?sh' = "?sh\<lparr>mSlots := (mSlots ?sh)(c \<mapsto> ?sl)\<rparr>"
  have sh: "shard_ok ?k ?sh" and c: "mSlots ?sh c = Some sl" using calls_okD(1) [OF ok] Some by (simp_all add: pending_def)
  have s': "s' = set_shard ?k ?sh' s" "r" using m c by (auto simp: MarkRpcAwaitingConnect_def Let_def)
  have "core_ok ?k ?sh'" using core_okD(1) [OF shard_okD(1) [OF sh] c]
    by (intro core_ok_update [OF shard_okD(1) [OF sh] c]) (simp_all add: key_of_def slot_ok_def)
  moreover have "deadlines ((mSlots ?sh)(c \<mapsto> ?sl)) = deadlines (mSlots ?sh)" using c by (rule deadlines_update) simp
  ultimately have "shard_ok ?k ?sh'" using shard_okD(2,3) [OF sh] by (simp add: shard_ok_def)
  then have "calls_ok s'" using calls_okD(2) [OF ok] c
    by (intro calls_ok_set_shard [OF ok, of ?k ?sh']) (auto simp: s' shard_slots [OF ok] split: if_splits)
  then show ?thesis using Some by (auto simp: s' pending_set_shard fun_eq_iff) (auto simp: pending_def)
qed

lemma core_ok_add:
  assumes "core_ok k sh" and "mSlots sh c = None" and "slot_ok k c sl"
  shows "core_ok k (sh\<lparr>mSlots := (mSlots sh)(c \<mapsto> sl),
    mSessions := (mSessions sh)(key_of sl \<mapsto> (case mSessions sh (key_of sl) of None \<Rightarrow> [] | Some l \<Rightarrow> l) @ [c])\<rparr>)"
  using core_okD [OF assms(1)] assms(3) index_at_add [of "mSlots sh" c "mSessions sh" sl, OF assms(2)]
  by (intro core_okI) (auto split: if_splits)

lemma unindex_commute:
  "key \<noteq> old \<Longrightarrow> unindex c old (ses(key \<mapsto> l)) = (unindex c old ses)(key \<mapsto> l) \<and> unindex c old ses key = ses key"
  by (auto simp: unindex_def fun_upd_twist split: option.split)

lemma shard_order:
  "sh\<lparr>mSessions := x, mSlots := y\<rparr> = sh\<lparr>mSlots := y, mSessions := x\<rparr>"
  "sh\<lparr>mSessions := x, mExpire := z\<rparr> = sh\<lparr>mExpire := z, mSessions := x\<rparr>"
  "sh\<lparr>mExpire := z, mSlots := y\<rparr> = sh\<lparr>mSlots := y, mExpire := z\<rparr>"
  by simp_all

lemma ClaimRpcSend_ok:
  assumes ok: "calls_ok s" and m: "ClaimRpcSend c sid s = (r, s')"
  shows "calls_ok s' \<and> guards s' = guards s \<and> g_call_seq s' = g_call_seq s \<and> r = (pending s c \<noteq> None)
    \<and> pending s' = (pending s)(c := map_option (\<lambda>sl. sl\<lparr>iSlotSession := sid, bAwaitingConnect := False\<rparr>) (pending s c))"
proof (cases "pending s c")
  case None
  then show ?thesis using assms by (auto simp: ClaimRpcSend_def pending_def Let_def fun_eq_iff)
next
  case (Some sl)
  let ?k = "ShardOf c" let ?sh = "g_call_shards s ?k" let ?sl = "sl\<lparr>iSlotSession := sid, bAwaitingConnect := False\<rparr>"
  have sh: "shard_ok ?k ?sh" and c: "mSlots ?sh c = Some sl" using calls_okD(1) [OF ok] Some by (simp_all add: pending_def)
  have sk: "slot_ok ?k c sl" using core_okD(1) [OF shard_okD(1) [OF sh] c] .
  obtain sh' where s': "s' = set_shard ?k sh' s" "r" and core: "core_ok ?k sh'" and sl': "mSlots sh' = (mSlots ?sh)(c \<mapsto> ?sl)" "mExpire sh' = mExpire ?sh"
  proof (cases "iSlotSession sl = sid")
    case True
    let ?sh' = "?sh\<lparr>mSlots := (mSlots ?sh)(c \<mapsto> ?sl)\<rparr>"
    have "core_ok ?k ?sh'" using sk True
      by (intro core_ok_update [OF shard_okD(1) [OF sh] c]) (simp_all add: key_of_def slot_ok_def)
    moreover have "sl\<lparr>bAwaitingConnect := False\<rparr> = ?sl" using True by simp
    ultimately show ?thesis using that [of ?sh'] m c True by (auto simp: ClaimRpcSend_def Let_def)
  next
    case False
    let ?new = "(pManager sl, sid)"
    let ?l = "(case mSessions ?sh ?new of None \<Rightarrow> [] | Some l \<Rightarrow> l) @ [c]"
    let ?ses = "unindex c (key_of sl) (mSessions ?sh)"
    let ?sh' = "?sh\<lparr>mSlots := (mSlots ?sh)(c \<mapsto> ?sl), mSessions := ?ses(?new \<mapsto> ?l)\<rparr>"
    have u: "unindex c (key_of sl) ((mSessions ?sh)(?new \<mapsto> ?l)) = ?ses(?new \<mapsto> ?l)" "?ses ?new = mSessions ?sh ?new"
      using unindex_commute [of ?new "key_of sl"] False by (auto simp: key_of_def)
    have "RemoveSessionIndex sl (AddSessionIndex sl sid ?sh) = (sl\<lparr>bIndexed := False\<rparr>, ?sh\<lparr>mSessions := ?ses(?new \<mapsto> ?l)\<rparr>)"
      using sk u(1) by (subst RemoveSessionIndex_eq) (simp_all add: AddSessionIndex_def slot_ok_def Let_def)
    moreover have "sl\<lparr>bIndexed := False, bIndexed := True, iSlotSession := sid, bAwaitingConnect := False\<rparr> = ?sl"
      using sk by (simp add: slot_ok_def)
    ultimately have "s' = set_shard ?k ?sh' s" "r" using m c False by (auto simp: ClaimRpcSend_def Let_def shard_order)
    moreover have "core_ok ?k ?sh'"
      using core_ok_add [OF core_ok_remove [OF shard_okD(1) [OF sh] c], of c ?sl] sk u(2) by (simp add: slot_ok_def key_of_def)
    ultimately show ?thesis using that [of ?sh'] by simp
  qed
  have "deadlines ((mSlots ?sh)(c \<mapsto> ?sl)) = deadlines (mSlots ?sh)" using c by (rule deadlines_update) simp
  then have "shard_ok ?k sh'" using core shard_okD(2,3) [OF sh] by (simp add: shard_ok_def sl')
  then have "calls_ok s'" using calls_okD(2) [OF ok] c
    by (intro calls_ok_set_shard [OF ok, of ?k sh']) (auto simp: s' sl' shard_slots [OF ok] split: if_splits)
  then show ?thesis using Some by (auto simp: s' sl' pending_set_shard fun_eq_iff) (auto simp: pending_def)
qed

lemma AbandonRpcCall_ok:
  assumes ok: "calls_ok s" and a: "AbandonRpcCall c s = (ev, s')"
  shows "calls_ok s' \<and> guards s' = guards s \<and> g_call_seq s' = g_call_seq s \<and> pending s' = (pending s)(c := None)"
proof (cases "pending s c")
  case None
  then have "(pending s)(c := None) = pending s" by auto
  then show ?thesis using assms None by (auto simp: AbandonRpcCall_def pending_def Let_def)
next
  case (Some sl)
  let ?k = "ShardOf c" let ?sh = "g_call_shards s ?k"
  have sh: "shard_ok ?k ?sh" and c: "mSlots ?sh c = Some sl" using calls_okD(1) [OF ok] Some by (simp_all add: pending_def)
  obtain sl1 sh1 where r1: "RemoveRpcExpiry sl ?sh = (sl1, sh1)" by force
  note o = take_out [OF sh c r1]
  obtain sh2 where sh2: "sh2 = erase_slot c (sh1\<lparr>mSessions := unindex c (key_of sl) (mSessions ?sh)\<rparr>)" by blast
  have s': "s' = set_shard ?k sh2 s" using a c r1 o(1) by (auto simp: AbandonRpcCall_def Let_def sh2)
  have slots: "mSlots sh2 = (mSlots ?sh)(c := None)" by (simp add: sh2 erase_slot_def o(2))
  have "calls_ok s'" using calls_okD(2) [OF ok] o(3)
    by (intro calls_ok_set_shard [OF ok, of ?k sh2]) (auto simp: s' slots shard_slots [OF ok] sh2 [symmetric] split: if_splits)
  then show ?thesis by (auto simp: s' slots pending_set_shard fun_eq_iff) (auto simp: pending_def)
qed

definition bound_slot :: "nat \<Rightarrow> nat \<Rightarrow> nat \<Rightarrow> nat \<Rightarrow> int \<Rightarrow> nat option \<Rightarrow> nat option \<Rightarrow> int \<Rightarrow> slot" where
  "bound_slot c m sid rid iTimeout g sender iNow = (new_slot c m sid rid g sender)\<lparr>bIndexed := True,
     stExpiry := (if iTimeout > 0 then Some (bucket_of (deadline_of iNow iTimeout), deadline_of iNow iTimeout) else None)\<rparr>"

lemma BindRpcCall_ok:
  assumes ok: "calls_ok s" and seq: "0 < g_call_seq s" "g_call_seq s < 2 ^ 63" and b: "BindRpcCall m sid rid iTimeout g sender iNow s = (c, s')"
  shows "c = g_call_seq s \<and> pending s c = None \<and> calls_ok s' \<and> guards s' = guards s \<and> g_call_seq s' = g_call_seq s + 1
    \<and> pending s' = (pending s)(c \<mapsto> bound_slot c m sid rid iTimeout g sender iNow)"
proof -
  let ?sl = "bound_slot (g_call_seq s) m sid rid iTimeout g sender iNow"
  have c: "c = g_call_seq s" using b seq by (simp add: BindRpcCall_def Let_def)
  let ?k = "ShardOf c" let ?sh = "g_call_shards s ?k"
  have none: "pending s c = None" using calls_okD(2) [OF ok] c by (metis less_irrefl option.exhaust)
  then have slot: "mSlots ?sh c = None" by (simp add: pending_def)
  have sh: "shard_ok ?k ?sh" using calls_okD(1) [OF ok] by simp
  let ?b = "bucket_of (deadline_of iNow iTimeout)" and ?d = "deadline_of iNow iTimeout"
  let ?m = "if iTimeout > 0 then bucket_push ?b (?d, c) (mExpire ?sh) else mExpire ?sh"
  let ?sh' = "?sh\<lparr>mSlots := (mSlots ?sh)(c \<mapsto> ?sl), mExpire := ?m,
    mSessions := (mSessions ?sh)(key_of ?sl \<mapsto> (case mSessions ?sh (key_of ?sl) of None \<Rightarrow> [] | Some l \<Rightarrow> l) @ [c])\<rparr>"
  have sq: "(g_call_seq s + 1) mod SIZE_MOD = g_call_seq s + 1" using seq by simp
  have new: "new_slot c m sid rid g sender\<lparr>bIndexed := True\<rparr> = ?sl" if "\<not> iTimeout > 0"
    using that by (simp add: bound_slot_def c new_slot_def)
  have s': "s' = set_shard ?k ?sh' (s\<lparr>g_sweep_once := True, g_call_seq := g_call_seq s + 1\<rparr>)"
    using b seq slot sq new c unfolding BindRpcCall_def Let_def
    by (auto simp: AddSessionIndex_def Let_def key_of_def bound_slot_def new_slot_def set_shard_def shard_order)
  have "slot_ok ?k c ?sl" by (simp add: slot_ok_def bound_slot_def new_slot_def c)
  from core_ok_add [OF shard_okD(1) [OF sh] slot this] have core: "core_ok ?k ?sh'"
    by (subst core_ok_cong [symmetric]) simp_all
  have fresh: "(b, d, c) \<notin> entries (mExpire ?sh)" for b d using slot unfolding shard_okD(3) [OF sh] by (simp add: deadlines_def)
  have "buckets_ok ?m" using bucket_push_ok [OF shard_okD(2) [OF sh] fresh] shard_okD(2) [OF sh] by simp
  moreover have "entries ?m = deadlines ((mSlots ?sh)(c \<mapsto> ?sl))"
    using shard_okD(3) [OF sh] slot by (auto simp: bucket_push_entries deadlines_def bound_slot_def)
  ultimately have "shard_ok ?k ?sh'" using core by (simp add: shard_ok_def)
  then have "calls_ok s'" using calls_okD(2) [OF ok] c seq
    by (intro calls_ok_set_shard [OF ok, of ?k ?sh']) (auto simp: s' shard_slots [OF ok] less_Suc_eq split: if_splits)
  moreover have "pending s' = (pending s)(c \<mapsto> ?sl)"
    by (rule ext) (auto simp: s' pending_def)
  ultimately show ?thesis using c none s' by simp
qed

section \<open>Interleavings\<close>

text \<open>
  Each step is one critical section, or one completion, of some thread. \<open>rpc_run s tk fin ab\<close>: the
  table is \<open>s\<close>, the slots \<open>tk\<close> have been taken out and are yet to be completed, and the calls \<open>fin\<close>
  and \<open>ab\<close> have been completed and abandoned.
\<close>

inductive rpc_run :: "calls \<Rightarrow> slot list \<Rightarrow> nat list \<Rightarrow> nat list \<Rightarrow> bool" where
  start: "rpc_run init_calls [] [] []"
| bind: "rpc_run s tk fin ab \<Longrightarrow> g_call_seq s < 2 ^ 63 \<Longrightarrow> BindRpcCall m sid rid iTimeout g sender iNow s = (c, s')
    \<Longrightarrow> rpc_run s' tk fin ab"
| take: "rpc_run s tk fin ab \<Longrightarrow> TakeRpcSlot c src s = (Some sl, s') \<Longrightarrow> rpc_run s' (tk @ [sl]) fin ab"
| sweep: "rpc_run s tk fin ab \<Longrightarrow> k < kCallShards \<Longrightarrow> sweep_shard iNow k s = (f, s') \<Longrightarrow> rpc_run s' (tk @ f) fin ab"
| fail_step: "rpc_run s tk fin ab \<Longrightarrow> k < kCallShards \<Longrightarrow> fail_batch key (g_call_shards s k) (guards s) = Some (f, sh', gs')
    \<Longrightarrow> rpc_run ((set_shard k sh' s)\<lparr>guards := gs'\<rparr>) (tk @ f) fin ab"
| mark: "rpc_run s tk fin ab \<Longrightarrow> MarkRpcAwaitingConnect c s = (r, s') \<Longrightarrow> rpc_run s' tk fin ab"
| claim: "rpc_run s tk fin ab \<Longrightarrow> ClaimRpcSend c sid s = (r, s') \<Longrightarrow> rpc_run s' tk fin ab"
| abandon: "rpc_run s tk fin ab \<Longrightarrow> pending s c \<noteq> None \<Longrightarrow> AbandonRpcCall c s = (ev :: bytes rpc_event list, s')
    \<Longrightarrow> rpc_run s' tk fin (ab @ [c])"
| finish: "rpc_run s tk fin ab \<Longrightarrow> sl \<in> set tk \<Longrightarrow> FinishRpcSlot sl code (body :: bytes option) (guards s) = (ev, gs)
    \<Longrightarrow> rpc_run (s\<lparr>guards := gs\<rparr>) (remove1 sl tk) (fin @ [iCallId sl]) ab"

definition accounted :: "calls \<Rightarrow> slot list \<Rightarrow> nat list \<Rightarrow> nat list \<Rightarrow> bool" where
  "accounted s tk fin ab \<longleftrightarrow> distinct (map iCallId tk @ fin @ ab) \<and> dom (pending s) \<inter> set (map iCallId tk @ fin @ ab) = {}
     \<and> dom (pending s) \<union> set (map iCallId tk @ fin @ ab) = {1..<g_call_seq s}"

definition run_ok :: "calls \<Rightarrow> slot list \<Rightarrow> nat list \<Rightarrow> nat list \<Rightarrow> bool" where
  "run_ok s tk fin ab \<longleftrightarrow> calls_ok s \<and> 0 < g_call_seq s \<and> guards s = guarding tk
     \<and> (\<forall>sl \<in> set tk. bGuardArmed sl = (pGuard sl \<noteq> None)) \<and> accounted s tk fin ab"

lemma init_calls_ok: "calls_ok init_calls" "pending init_calls = (\<lambda>_. None)"
proof -
  show p: "pending init_calls = (\<lambda>_. None)" by (rule ext) (simp add: pending_def init_calls_def empty_shard_def)
  have "shard_ok k empty_shard" for k
    by (auto simp: shard_ok_def empty_shard_def core_ok_def index_at_def calls_of_def buckets_ok_def entries_def deadlines_def)
  then show "calls_ok init_calls" using p by (auto simp: calls_ok_def init_calls_def)
qed

lemma run_ok_takes:
  assumes r: "run_ok s tk fin ab" and t: "takes s cs f s'"
  shows "run_ok s' (tk @ f) fin ab"
proof -
  have ok: "calls_ok s" and acc: "accounted s tk fin ab" using r by (simp_all add: run_ok_def)
  have t': "calls_ok s'" "distinct cs" "\<forall>c \<in> set cs. pending s c \<noteq> None" "f = taken_slots (pending s) cs"
    "pending s' = without (set cs) (pending s)" "guards s' = (\<lambda>g. guards s g + guarding f g)" "g_call_seq s' = g_call_seq s"
    using t by (simp_all add: takes_def)
  have ids: "map iCallId f = cs" unfolding t'(4) taken_slots_def using calls_okD(2) [OF ok] t'(3)
    by (auto simp: comp_def intro!: map_idI)
  have dom: "dom (pending s') = dom (pending s) - set cs" unfolding t'(5) without_def by (auto simp: dom_def split: if_splits)
  have sub: "set cs \<subseteq> dom (pending s)" using t'(3) by auto
  have acc': "distinct (map iCallId tk @ fin @ ab)" "dom (pending s) \<inter> set (map iCallId tk @ fin @ ab) = {}"
    "dom (pending s) \<union> set (map iCallId tk @ fin @ ab) = {1..<g_call_seq s}" using acc unfolding accounted_def by blast+
  then have "set cs \<inter> set (map iCallId tk @ fin @ ab) = {}" using sub by blast
  then have "distinct (map iCallId (tk @ f) @ fin @ ab)" using acc'(1) t'(2) unfolding map_append ids by auto
  moreover have "set (map iCallId (tk @ f) @ fin @ ab) = set cs \<union> set (map iCallId tk @ fin @ ab)" unfolding map_append ids by auto
  ultimately have "accounted s' (tk @ f) fin ab"
    unfolding accounted_def dom t'(7) using acc'(2,3) sub by auto
  moreover have "guards s' = guarding (tk @ f)" using r by (auto simp: t'(6) run_ok_def)
  moreover have "\<forall>sl \<in> set (tk @ f). bGuardArmed sl = (pGuard sl \<noteq> None)"
    using r taken_armed [of _ "pending s" cs] unfolding t'(4) run_ok_def by auto
  ultimately show ?thesis using r t'(1,7) by (simp add: run_ok_def)
qed

lemma accounted_same: "accounted s tk fin ab \<Longrightarrow> dom (pending s') = dom (pending s) \<Longrightarrow> g_call_seq s' = g_call_seq s \<Longrightarrow> accounted s' tk fin ab"
  by (simp add: accounted_def)

lemma guarding_remove1: "sl \<in> set tk \<Longrightarrow> guarding (remove1 sl tk) g = guarding tk g - guarding [sl] g"
  by (induction tk) auto

lemma rpc_run_ok: "rpc_run s tk fin ab \<Longrightarrow> run_ok s tk fin ab"
proof (induction rule: rpc_run.induct)
  case start
  then show ?case using init_calls_ok by (auto simp: run_ok_def accounted_def init_calls_def)
next
  case (bind s tk fin ab m sid rid iTimeout g sender iNow c s')
  then have b: "c = g_call_seq s \<and> pending s c = None \<and> calls_ok s' \<and> guards s' = guards s \<and> g_call_seq s' = g_call_seq s + 1
    \<and> pending s' = (pending s)(c \<mapsto> bound_slot c m sid rid iTimeout g sender iNow)"
    by (intro BindRpcCall_ok) (simp_all add: run_ok_def)
  have "accounted s tk fin ab" "0 < g_call_seq s" using bind by (simp_all add: run_ok_def)
  moreover have "{1..<g_call_seq s + 1} = insert (g_call_seq s) {1..<g_call_seq s}" using calculation(2) by auto
  ultimately have "accounted s' tk fin ab" using b unfolding accounted_def by auto
  then show ?case using b bind by (simp add: run_ok_def)
next
  case (take s tk fin ab c src sl s')
  have ok: "calls_ok s" using take by (simp add: run_ok_def)
  obtain sl' where "sl = armed sl'" "takes s [c] [armed sl'] s'" by (rule TakeRpcSlot_cases [OF ok take.hyps(2)]) auto
  then show ?case using run_ok_takes [OF take.IH] by simp
next
  case (sweep s tk fin ab k iNow f s')
  have "calls_ok s" using sweep by (simp add: run_ok_def)
  then show ?case using sweep_shard_takes [OF _ sweep.hyps(2,3)] run_ok_takes [OF sweep.IH] by metis
next
  case (fail_step s tk fin ab k key f sh' gs')
  have ok: "calls_ok s" using fail_step by (simp add: run_ok_def)
  then obtain cs where "takes_shard k (g_call_shards s k) (guards s) cs f sh' gs'"
    using fail_batch_takes [OF calls_okD(1) [OF ok fail_step.hyps(2)] fail_step.hyps(3)] by metis
  from run_ok_takes [OF fail_step.IH takes_lift [OF ok fail_step.hyps(2) this]] show ?case .
next
  case (mark s tk fin ab c r s')
  then have m: "calls_ok s' \<and> guards s' = guards s \<and> g_call_seq s' = g_call_seq s \<and> r = (pending s c \<noteq> None)
    \<and> pending s' = (pending s)(c := map_option (\<lambda>sl. sl\<lparr>bAwaitingConnect := True\<rparr>) (pending s c))"
    by (intro MarkRpcAwaitingConnect_ok) (simp_all add: run_ok_def)
  then have "dom (pending s') = dom (pending s)" by (auto simp: dom_def split: if_splits)
  then show ?case using m mark.IH accounted_same [of s] by (simp add: run_ok_def)
next
  case (claim s tk fin ab c sid r s')
  then have m: "calls_ok s' \<and> guards s' = guards s \<and> g_call_seq s' = g_call_seq s \<and> r = (pending s c \<noteq> None)
    \<and> pending s' = (pending s)(c := map_option (\<lambda>sl. sl\<lparr>iSlotSession := sid, bAwaitingConnect := False\<rparr>) (pending s c))"
    by (intro ClaimRpcSend_ok) (simp_all add: run_ok_def)
  then have "dom (pending s') = dom (pending s)" by (auto simp: dom_def split: if_splits)
  then show ?case using m claim.IH accounted_same [of s] by (simp add: run_ok_def)
next
  case (abandon s tk fin ab c ev s')
  have a: "calls_ok s' \<and> guards s' = guards s \<and> g_call_seq s' = g_call_seq s \<and> pending s' = (pending s)(c := None)"
    using abandon by (intro AbandonRpcCall_ok) (simp_all add: run_ok_def)
  then have "dom (pending s') = dom (pending s) - {c}" "c \<in> dom (pending s)" using abandon by auto
  then have "accounted s' tk fin (ab @ [c])" using a abandon.IH unfolding run_ok_def accounted_def by auto
  then show ?case using a abandon.IH by (simp add: run_ok_def)
next
  case (finish s tk fin ab sl code body ev gs)
  have p: "pending (s\<lparr>guards := gs\<rparr>) = pending s" by (rule pending_cong) simp
  have ar: "bGuardArmed sl = (pGuard sl \<noteq> None)" using finish by (simp add: run_ok_def)
  have gs: "gs = (\<lambda>g. guards s g - guarding [sl] g)" using FinishRpcSlot_guards [OF ar, of code body "guards s"] finish.hyps(3) by simp
  obtain xs ys where tk: "tk = xs @ sl # ys" "sl \<notin> set xs" using finish.hyps(2) by (metis split_list_first)
  then have rm: "remove1 sl tk = xs @ ys" by (simp add: remove1_append)
  have "accounted (s\<lparr>guards := gs\<rparr>) (remove1 sl tk) (fin @ [iCallId sl]) ab"
    using finish.IH unfolding run_ok_def accounted_def p rm by (auto simp: tk)
  moreover have "calls_ok (s\<lparr>guards := gs\<rparr>)" using finish.IH p by (simp add: run_ok_def calls_ok_def)
  ultimately show ?case using finish.IH guarding_remove1 [OF finish.hyps(2)] set_remove1_subset [of sl tk]
    by (auto simp: run_ok_def gs)
qed

section \<open>Properties\<close>

text \<open>
  C2: no call is lost and none is completed twice. Under every interleaving of the critical sections,
  each call number that was given out is in exactly one place: waiting in the table, taken out and
  about to be completed, completed once, or abandoned by its caller and then never completed.
\<close>

theorem rpc_calls_complete_once:
  assumes "rpc_run s tk fin ab"
  shows "distinct (map iCallId tk @ fin @ ab) \<and> dom (pending s) \<inter> set (map iCallId tk @ fin @ ab) = {}
    \<and> dom (pending s) \<union> set (map iCallId tk @ fin @ ab) = {1..<g_call_seq s}"
  using rpc_run_ok [OF assms] unfolding run_ok_def accounted_def by blast

definition demo_calls :: calls where
  "demo_calls = snd (BindRpcCall 1 7 9 100 (Some 3) None 1000 init_calls)"

lemma demo_bound:
  "BindRpcCall 1 7 9 100 (Some 3) None 1000 init_calls = (1, demo_calls)" "calls_ok demo_calls" "g_call_seq demo_calls = 2"
  "pending demo_calls = [1 \<mapsto> bound_slot 1 1 7 9 100 (Some 3) None 1000]" "guards demo_calls = (\<lambda>_. 0)"
proof -
  obtain c s' where b: "BindRpcCall 1 7 9 100 (Some 3) None 1000 init_calls = (c, s')" by force
  have seq: "g_call_seq init_calls = 1" "guards init_calls = (\<lambda>_. 0)" by (simp_all add: init_calls_def)
  note o = BindRpcCall_ok [OF init_calls_ok(1) _ _ b]
  show "BindRpcCall 1 7 9 100 (Some 3) None 1000 init_calls = (1, demo_calls)" "calls_ok demo_calls" "g_call_seq demo_calls = 2"
    "pending demo_calls = [1 \<mapsto> bound_slot 1 1 7 9 100 (Some 3) None 1000]" "guards demo_calls = (\<lambda>_. 0)"
    using o b seq init_calls_ok(2) by (simp_all add: demo_calls_def)
qed

lemma demo_rpc_run: "rpc_run demo_calls [] [] []"
  by (rule rpc_run.bind [OF rpc_run.start _ demo_bound(1)]) (simp add: init_calls_def)

lemma demo_rpc_take:
  obtains s' where "TakeRpcSlot 1 None demo_calls = (Some (armed (bound_slot 1 1 7 9 100 (Some 3) None 1000)), s')"
proof -
  obtain r s' where t: "TakeRpcSlot 1 None demo_calls = (r, s')" by force
  then have "r = Some (armed (bound_slot 1 1 7 9 100 (Some 3) None 1000))"
    by (rule TakeRpcSlot_cases [OF demo_bound(2)]) (auto simp: demo_bound(4) wrong_source_def)
  then show ?thesis using that t by simp
qed

theorem rpc_calls_complete_once_witness:
  "\<exists>s tk. rpc_run s tk [] [] \<and> map iCallId tk = [1] \<and> pending s 1 = None"
proof -
  obtain s' where t: "TakeRpcSlot 1 None demo_calls = (Some (armed (bound_slot 1 1 7 9 100 (Some 3) None 1000)), s')"
    by (rule demo_rpc_take)
  have r: "rpc_run s' [armed (bound_slot 1 1 7 9 100 (Some 3) None 1000)] [] []"
    using rpc_run.take [OF demo_rpc_run t] by simp
  have "iCallId (armed (bound_slot 1 1 7 9 100 (Some 3) None 1000)) = 1" by (simp add: bound_slot_def new_slot_def)
  moreover from this have "pending s' 1 = None" using rpc_calls_complete_once [OF r] by auto
  ultimately show ?thesis using r by (intro exI [of _ s'] exI [of _ "[armed (bound_slot 1 1 7 9 100 (Some 3) None 1000)]"]) simp
qed

text \<open>
  A guard counts the completions in progress. Under every interleaving a guard is the number of
  slots that hold it, have been taken out of the table and are not yet completed; so \<open>WaitRpcGuard\<close>,
  which waits for zero, does not return while a callback of the call may still run.
\<close>

theorem rpc_guard_counts_callbacks:
  assumes "rpc_run s tk fin ab"
  shows "guards s g = int (length (filter (\<lambda>sl. pGuard sl = Some g) tk))"
  using rpc_run_ok [OF assms] by (simp add: run_ok_def guarding_def)

theorem rpc_guard_counts_callbacks_witness:
  "\<exists>s tk. rpc_run s tk [] [] \<and> guards s 3 = 1"
proof -
  obtain s' where t: "TakeRpcSlot 1 None demo_calls = (Some (armed (bound_slot 1 1 7 9 100 (Some 3) None 1000)), s')"
    by (rule demo_rpc_take)
  have r: "rpc_run s' [armed (bound_slot 1 1 7 9 100 (Some 3) None 1000)] [] []"
    using rpc_run.take [OF demo_rpc_run t] by simp
  have "guards s' 3 = 1" using rpc_guard_counts_callbacks [OF r, of 3] by (simp add: bound_slot_def new_slot_def)
  then show ?thesis using r by blast
qed

text \<open>
  C28: a reply is accepted only from where it is expected. A slot is taken for a reply exactly when the
  call is waiting and the manager, the session and the protocol of the reply are those of the call;
  otherwise nothing changes, so a wrong reply cannot use up another connection's call.
\<close>

theorem reply_only_from_its_source:
  assumes "calls_ok s" and "TakeRpcSlot c (Some (m, sid, rid)) s = (r, s')"
  shows "(r \<noteq> None) = (\<exists>sl. pending s c = Some sl \<and> pManager sl = m \<and> iSlotSession sl = sid \<and> iResponseId sl = rid)
    \<and> (r = None \<longrightarrow> s' = s) \<and> (r \<noteq> None \<longrightarrow> pending s' = (pending s)(c := None))"
proof (rule TakeRpcSlot_cases [OF assms])
  assume "r = None" "s' = s" "\<And>sl. pending s c = Some sl \<Longrightarrow> wrong_source (Some (m, sid, rid)) sl"
  then show ?thesis by (auto simp: wrong_source_def)
next
  fix sl
  assume "pending s c = Some sl" "\<not> wrong_source (Some (m, sid, rid)) sl" "r = Some (armed sl)" "takes s [c] [armed sl] s'"
  then show ?thesis by (auto simp: wrong_source_def takes_def without_def)
qed

theorem reply_only_from_its_source_witness:
  "calls_ok demo_calls \<and> fst (TakeRpcSlot 1 (Some (1, 8, 9)) demo_calls) = None \<and> fst (TakeRpcSlot 1 (Some (1, 7, 9)) demo_calls) \<noteq> None"
  using reply_only_from_its_source [OF demo_bound(2) prod.collapse [symmetric], of 1 1 8 9]
    reply_only_from_its_source [OF demo_bound(2) prod.collapse [symmetric], of 1 1 7 9] demo_bound(2)
  by (simp add: demo_bound(4) bound_slot_def new_slot_def)

text \<open>
  C26: the sweep completes exactly the calls whose deadline has passed, each once, with the connect
  error if it was still waiting for its connection and the timeout error otherwise; all others stay
  as they are, whatever bucket they are in.
\<close>

theorem sweep_fires_exactly_the_expired:
  fixes ev :: "'b rpc_event list"
  assumes "calls_ok s" and "SweepRpcCalls iNow s = (ev, s')"
  shows "\<exists>cs. distinct cs \<and> set cs = {c. \<exists>sl. pending s c = Some sl \<and> expired iNow sl}
    \<and> ev = concat (map (\<lambda>c. finish_events (sweep_code (the (pending s c))) (the (pending s c))) cs)
    \<and> pending s' = (\<lambda>c. if c \<in> set cs then None else pending s c) \<and> guards s' = guards s \<and> calls_ok s'"
proof -
  obtain f s1 where r: "sweep_shards iNow [0..<kCallShards] s = (f, s1)" by force
  obtain cs where t: "takes s cs f s1" and cs: "set cs = {c. ShardOf c \<in> set [0..<kCallShards] \<and> (\<exists>sl. pending s c = Some sl \<and> expired iNow sl)}"
    using sweep_shards_takes [OF assms(1) _ _ r] by auto
  let ?ev = "concat (map (\<lambda>c. finish_events (sweep_code (the (pending s c))) (the (pending s c))) cs) :: 'b rpc_event list"
  have code: "sweep_code (armed sl) = sweep_code sl" for sl by (simp add: sweep_code_def)
  have fin: "FinishAll sweep_code f (guards s1) = (?ev, guards s)" using FinishAll_takes [OF t, of sweep_code] by (simp add: code)
  have s': "s' = s1\<lparr>guards := guards s\<rparr>" "ev = ?ev" using assms(2) r fin by (simp_all add: SweepRpcCalls_def)
  have p: "pending s' = pending s1" "calls_ok s' = calls_ok s1" by (simp_all add: s' pending_def calls_ok_def fun_eq_iff)
  show ?thesis using t cs s' p by (intro exI [of _ cs]) (auto simp: takes_def without_def)
qed

theorem sweep_fires_exactly_the_expired_witness:
  "calls_ok demo_calls \<and> pending (snd (SweepRpcCalls 1099 demo_calls :: bytes rpc_event list \<times> calls)) 1 \<noteq> None
   \<and> pending (snd (SweepRpcCalls 1100 demo_calls :: bytes rpc_event list \<times> calls)) 1 = None"
proof -
  have e: "{c. \<exists>sl. pending demo_calls c = Some sl \<and> expired 1099 sl} = {}" "{c. \<exists>sl. pending demo_calls c = Some sl \<and> expired 1100 sl} = {1}"
    by (auto simp: demo_bound(4) expired_def bound_slot_def new_slot_def deadline_of_def split: if_splits)
  let ?S = "\<lambda>now. SweepRpcCalls now demo_calls :: bytes rpc_event list \<times> calls"
  obtain cs where "set cs = {}" "pending (snd (?S 1099)) = (\<lambda>c. if c \<in> set cs then None else pending demo_calls c)"
    using sweep_fires_exactly_the_expired [OF demo_bound(2) prod.collapse [symmetric, of "?S 1099"]] unfolding e by blast
  moreover obtain ds where "set ds = {1}" "pending (snd (?S 1100)) = (\<lambda>c. if c \<in> set ds then None else pending demo_calls c)"
    using sweep_fires_exactly_the_expired [OF demo_bound(2) prod.collapse [symmetric, of "?S 1100"]] unfolding e by blast
  ultimately show ?thesis using demo_bound(2,4) by simp
qed

text \<open>
  C27: a broken connection fails exactly the calls of that session, each once, with the connect error,
  however many there are (they are taken out in batches of 32); all others stay.
\<close>

theorem disconnect_fails_exactly_its_calls:
  assumes "calls_ok s" and "FailRpcCalls key s = (ev, s')"
  shows "\<exists>cs. distinct cs \<and> set cs = session_calls s key
    \<and> ev = concat (map (\<lambda>c. finish_events OI_ERR_CONNECT (the (pending s c))) cs)
    \<and> pending s' = (\<lambda>c. if c \<in> set cs then None else pending s c) \<and> guards s' = guards s \<and> calls_ok s'"
proof -
  have r: "fail_shards key [0..<kCallShards] s = (ev, s')" using assms(2) by (simp add: FailRpcCalls_def)
  obtain cs where "distinct cs" "set cs = {c \<in> session_calls s key. ShardOf c \<in> set [0..<kCallShards]}" "calls_ok s'"
    "pending s' = without (set cs) (pending s)" "ev = concat (map (\<lambda>c. finish_events OI_ERR_CONNECT (the (pending s c))) cs)" "guards s' = guards s"
    using fail_shards_ok [OF assms(1) _ _ r] by auto
  then show ?thesis by (intro exI [of _ cs]) (auto simp: without_def)
qed

theorem disconnect_fails_exactly_its_calls_witness:
  "calls_ok demo_calls \<and> pending (snd (FailRpcCalls (1, 7) demo_calls :: bytes rpc_event list \<times> calls)) 1 = None
   \<and> pending (snd (FailRpcCalls (1, 8) demo_calls :: bytes rpc_event list \<times> calls)) 1 \<noteq> None"
proof -
  have e: "session_calls demo_calls (1, 7) = {1}" "session_calls demo_calls (1, 8) = {}"
    by (auto simp: session_calls_def demo_bound(4) key_of_def bound_slot_def new_slot_def split: if_splits)
  let ?F = "\<lambda>key. FailRpcCalls key demo_calls :: bytes rpc_event list \<times> calls"
  obtain cs where "set cs = {1}" "pending (snd (?F (1, 7))) = (\<lambda>c. if c \<in> set cs then None else pending demo_calls c)"
    using disconnect_fails_exactly_its_calls [OF demo_bound(2) prod.collapse [symmetric, of "?F (1, 7)"]] unfolding e by blast
  moreover obtain ds where "set ds = {}" "pending (snd (?F (1, 8))) = (\<lambda>c. if c \<in> set ds then None else pending demo_calls c)"
    using disconnect_fails_exactly_its_calls [OF demo_bound(2) prod.collapse [symmetric, of "?F (1, 8)"]] unfolding e by blast
  ultimately show ?thesis using demo_bound(2,4) by simp
qed

end
