(* ===== verification/OI_Deliver.thy ===== *)
theory OI_Deliver
  imports OI_RpcCall OI_Session
begin

unbundle bit_operations_syntax

text \<open>
  Dispatch of a received RPC message (\<open>DeliverRpc\<close> and \<open>BindRpcHandler\<close>, the last part of
  cbaselib/proto/src/oi_rpc_call.cpp). The body begins with the call number; its top bit marks a
  request and the number 0 a one-way message. A reply completes the waiting call of the table
  (\<open>OI_RpcCall\<close>), a request takes a lease of the admission quota (\<open>OI_Admission\<close>) and starts the
  handler, or is answered with the busy code.

  The registered handlers are the set of their protocol ids; starting one is an effect. Whether the
  session accepts the busy reply is an argument.
\<close>

record rpc_node =
  table :: calls
  admission :: admission

datatype deliver_effect =
    Events "stream rpc_event list"
  | StartTask lease u32 nat nat stream
  | SendBytes nat nat bytes
  | CloseSession nat nat

abbreviation RPC_REQ_MASK :: u64 where
  "RPC_REQ_MASK \<equiv> 0x8000000000000000"

text \<open>The busy reply: the call number without the mark and the code, framed.\<close>

definition busy_reply :: "allocator \<Rightarrow> u32 \<Rightarrow> u64 \<Rightarrow> exc + stream" where
  "busy_reply A iId iRaw =
     (case w_then (put_word A (iRaw AND NOT RPC_REQ_MASK)) (put_word A (word_of_int OI_ERR_BUSY :: u32)) Stream_empty of
        (Some e, _) \<Rightarrow> Inl e | (None, stReply) \<Rightarrow> EncodePbFrame A iId stReply)"

definition BindRpcHandler :: "u32 \<Rightarrow> u32 set \<Rightarrow> u32 set" where
  "BindRpcHandler iId handlers = insert iId handlers"

text \<open>
  \<open>Inl\<close> is an exception that leaves the function (an allocation failure: a \<open>ParserException\<close> is
  caught).
\<close>

definition DeliverRpc :: "allocator \<Rightarrow> u32 set \<Rightarrow> (bytes \<Rightarrow> bool) \<Rightarrow> u32 \<Rightarrow> stream \<Rightarrow> nat \<Rightarrow> nat \<Rightarrow> rpc_node
    \<Rightarrow> exc + bool \<times> deliver_effect list \<times> rpc_node" where
  "DeliverRpc A handlers accepts iId stBody m sid n =
     (case get_word (StartTransaction stBody) :: (exc + u64) \<times> stream of
        (Inl ParserException, _) \<Rightarrow> Inr (False, [], n)
      | (Inl e, _) \<Rightarrow> Inl e
      | (Inr iRaw, s1) \<Rightarrow>
          (let stBody' = RollBack s1; bIsNotify = (iRaw = 0); bIsRequest = (iRaw AND RPC_REQ_MASK \<noteq> 0 \<or> bIsNotify)
           in if bIsRequest \<and> iId \<notin> handlers then Inr (False, [], n)
              else if \<not> bIsRequest then
                (case get_word stBody' :: (exc + u64) \<times> stream of
                   (Inl ParserException, _) \<Rightarrow> Inr (True, [], n)
                 | (Inl e, _) \<Rightarrow> Inl e
                 | (Inr iCall, s2) \<Rightarrow>
                     (case TakeRpcSlot (unat (iCall AND NOT RPC_REQ_MASK)) (Some (m, sid, unat iId)) (table n) of
                        (None, t) \<Rightarrow> Inr (True, [], n\<lparr>table := t\<rparr>)
                      | (Some sl, t) \<Rightarrow>
                          (case FinishRpcSlot sl 0 (Some s2) (guards t) of
                             (ev, gs) \<Rightarrow> Inr (True, [Events ev], n\<lparr>table := t\<lparr>guards := gs\<rparr>\<rparr>))))
              else
                (case AcquireRpc (m, sid) (m_iSize (buf stBody')) (admission n) of
                   (Some l, a) \<Rightarrow> Inr (True, [StartTask l iId m sid stBody'], n\<lparr>admission := a\<rparr>)
                 | (None, a) \<Rightarrow>
                     if bIsNotify then Inr (True, [], n)
                     else (case busy_reply A iId iRaw of
                             Inl ParserException \<Rightarrow> Inr (True, [], n)
                           | Inl e \<Rightarrow> Inl e
                           | Inr stFrame \<Rightarrow>
                               let d = content (buf stFrame)
                               in Inr (True, SendBytes m sid d # (if accepts d then [] else [CloseSession m sid]), n)))))"

section \<open>Lemmas\<close>

lemma peek_call_id:
  assumes ok: "stream_ok st" and u: "unread st = le_bytes 8 (unat (w :: u64)) @ rest"
  shows "get_word (StartTransaction st) = (Inr w, AddCurPos 8 (StartTransaction st))"
    and "unread (RollBack (AddCurPos 8 (StartTransaction st))) = unread st" "stream_ok (RollBack (AddCurPos 8 (StartTransaction st)))"
    and "buf (RollBack (AddCurPos 8 (StartTransaction st))) = buf st"
proof -
  have ok': "stream_ok (StartTransaction st)" "unread (StartTransaction st) = le_bytes 8 (unat w) @ rest"
    using ok u by (simp_all add: StartTransaction_def stream_ok_def unread_def)
  show "get_word (StartTransaction st) = (Inr w, AddCurPos 8 (StartTransaction st))"
    using get_word_reads [of w] ok' unfolding reads_def by simp
  show "unread (RollBack (AddCurPos 8 (StartTransaction st))) = unread st" "buf (RollBack (AddCurPos 8 (StartTransaction st))) = buf st"
    "stream_ok (RollBack (AddCurPos 8 (StartTransaction st)))"
    using ok by (simp_all add: RollBack_def AddCurPos_def StartTransaction_def unread_def stream_ok_def)
qed

lemma disjoint_mask:
  fixes w M :: "'a::len word"
  assumes "\<And>n. bit M n \<Longrightarrow> \<not> bit w n"
  shows "w AND M = 0 \<and> w AND NOT M = w"
  using assms by (intro conjI bit_word_eqI) (auto simp: bit_and_iff bit_not_iff)

lemma mask_top: "unat (w :: u64) < 2 ^ 63 \<Longrightarrow> w AND RPC_REQ_MASK = 0 \<and> w AND NOT RPC_REQ_MASK = w"
proof -
  assume w: "unat w < 2 ^ 63"
  have mask: "RPC_REQ_MASK = 2 ^ 63" by simp
  have top: "bit RPC_REQ_MASK n \<Longrightarrow> n = 63" for n unfolding mask bit_exp_iff by simp
  have "unat (take_bit 63 w) = unat w" using w by (simp only: unsigned_take_bit_eq take_bit_nat_eq_self)
  then have t: "take_bit 63 w = w" by (rule unsigned_word_eqI)
  have "\<not> bit w 63" by (subst t [symmetric]) (simp add: bit_take_bit_iff)
  then show ?thesis using top by (intro disjoint_mask) blast
qed

lemma reply_delivered:
  assumes "calls_ok (table n)" and "stream_ok st" and "unread st = le_bytes 8 c @ rest" and "0 < c" and "c < 2 ^ 63"
    and "pending (table n) c = Some sl" and "pManager sl = m" and "iSlotSession sl = sid" and "iResponseId sl = unat iId"
  shows "\<exists>st' n'. DeliverRpc A handlers accepts iId st m sid n = Inr (True, [Events
      ((if bAwaitingConnect sl then [DropPendingCall (pSender sl) m c] else []) @ [Decoded c sid st', Resumed c])], n')
    \<and> unread st' = rest \<and> stream_ok st' \<and> pending (table n') = (pending (table n))(c := None) \<and> calls_ok (table n')
    \<and> guards (table n') = guards (table n) \<and> admission n' = admission n"
proof -
  define w :: u64 where "w = word_of_nat c"
  have uw: "unat w = c" using assms(5) by (simp add: w_def unat_of_nat)
  have u: "unread st = le_bytes 8 (unat w) @ rest" using assms(3) uw by simp
  note p = peek_call_id [OF assms(2) u]
  let ?b = "RollBack (AddCurPos 8 (StartTransaction st))"
  have g2: "get_word ?b = (Inr w, AddCurPos 8 ?b)" using get_word_reads [of w] p(2,3) u unfolding reads_def by simp
  have w0: "w \<noteq> 0" using uw assms(4) by auto
  have mk: "w AND RPC_REQ_MASK = 0 \<and> w AND NOT RPC_REQ_MASK = w" using assms(5) uw by (intro mask_top) simp
  have rest: "unread (AddCurPos 8 ?b) = rest" "stream_ok (AddCurPos 8 ?b)" using AddCurPos_unread [of ?b 8] p(2,3) u by simp_all
  obtain r t where tk: "TakeRpcSlot c (Some (m, sid, unat iId)) (table n) = (r, t)" by force
  have r: "r = Some (armed sl)" and ts: "takes (table n) [c] [armed sl] t"
    by (rule TakeRpcSlot_cases [OF assms(1) tk]; use assms(6-9) in \<open>auto simp: wrong_source_def\<close>)+
  have t: "calls_ok t" "guards t = (\<lambda>g. guards (table n) g + guarding [armed sl] g)" "pending t = without (set [c]) (pending (table n))"
    using ts unfolding takes_def by blast+
  then have pt: "pending t = (pending (table n))(c := None)" by (auto simp: without_def)
  let ?ev = "(if bAwaitingConnect sl then [DropPendingCall (pSender sl) m c] else []) @ [Decoded c sid (AddCurPos 8 ?b), Resumed c]"
  have id: "iCallId sl = c" using calls_okD(2) [OF assms(1,6)] by simp
  have "FinishRpcSlot (armed sl) 0 (Some (AddCurPos 8 ?b)) (guards t) = (?ev, guards (table n))"
  proof (rule prod_eqI)
    show "fst (FinishRpcSlot (armed sl) 0 (Some (AddCurPos 8 ?b)) (guards t)) = fst (?ev, guards (table n))"
      by (simp add: FinishRpcSlot_def id assms(7,8))
    show "snd (FinishRpcSlot (armed sl) 0 (Some (AddCurPos 8 ?b)) (guards t)) = snd (?ev, guards (table n))"
      by (simp add: FinishRpcSlot_guards t(2))
  qed
  then have d: "DeliverRpc A handlers accepts iId st m sid n = Inr (True, [Events ?ev], n\<lparr>table := t\<lparr>guards := guards (table n)\<rparr>\<rparr>)"
    unfolding DeliverRpc_def using p(1) g2 w0 mk tk r uw by (simp add: Let_def)
  have "pending (t\<lparr>guards := guards (table n)\<rparr>) = pending t" by (rule pending_cong) simp
  moreover from this have "calls_ok (t\<lparr>guards := guards (table n)\<rparr>)" using t(1) by (simp add: calls_ok_def)
  ultimately show ?thesis using d rest pt by (intro exI [of _ "AddCurPos 8 ?b"] exI [of _ "n\<lparr>table := t\<lparr>guards := guards (table n)\<rparr>\<rparr>"]) simp
qed

section \<open>Properties\<close>

text \<open>
  C29: a reply completes its call. A body that begins with the number of a waiting call, received for
  the manager, session and protocol the call was made with, takes the call out of the table and hands
  its caller exactly the bytes after the number, and resumes it; nothing else changes.
\<close>

theorem reply_completes_its_call:
  assumes "calls_ok (table n)" and "stream_ok st" and "unread st = le_bytes 8 c @ rest" and "0 < c" and "c < 2 ^ 63"
    and "pending (table n) c = Some sl" and "pManager sl = m" and "iSlotSession sl = sid" and "iResponseId sl = unat iId"
  shows "\<exists>st' n'. DeliverRpc A handlers accepts iId st m sid n = Inr (True, [Events
      ((if bAwaitingConnect sl then [DropPendingCall (pSender sl) m c] else []) @ [Decoded c sid st', Resumed c])], n')
    \<and> unread st' = rest \<and> pending (table n') = (pending (table n))(c := None) \<and> calls_ok (table n')
    \<and> guards (table n') = guards (table n) \<and> admission n' = admission n"
  using reply_delivered [OF assms] by blast

definition demo_node :: rpc_node where
  "demo_node = \<lparr>table = demo_calls, admission = demo_admission\<rparr>"

definition demo_body :: "bytes \<Rightarrow> stream" where
  "demo_body d = \<lparr>buf = \<lparr>m_pMemory = d, m_iCapacity = length d, m_iHead = 0, m_iSize = length d\<rparr>, m_iCurrentPosition = 0, m_iSnapshotPosition = 0\<rparr>"

lemma demo_body_ok: "length d \<le> OBJECT_MAX \<Longrightarrow> stream_ok (demo_body d) \<and> unread (demo_body d) = d"
  by (simp add: demo_body_def stream_ok_def unread_def bytes_ok_def content_def)

theorem reply_completes_its_call_witness:
  "\<exists>st' n'. DeliverRpc demo_alloc {} (\<lambda>_. True) 9 (demo_body (le_bytes 8 1 @ ''ok'')) 1 7 demo_node
     = Inr (True, [Events [Decoded 1 7 st', Resumed 1]], n') \<and> unread st' = ''ok'' \<and> pending (table n') 1 = None"
proof -
  have b: "stream_ok (demo_body (le_bytes 8 1 @ ''ok''))" "unread (demo_body (le_bytes 8 1 @ ''ok'')) = le_bytes 8 1 @ ''ok''"
    using demo_body_ok [of "le_bytes 8 1 @ ''ok''"] by simp_all
  have "pending (table demo_node) 1 = Some (bound_slot 1 1 7 9 100 (Some 3) None 1000)" "calls_ok (table demo_node)"
    by (simp_all add: demo_node_def demo_bound)
  from reply_completes_its_call [OF this(2) b _ _ this(1), of 1 7 9 demo_alloc "{}" "\<lambda>_. True"] show ?thesis
    by (simp add: bound_slot_def new_slot_def) (metis fun_upd_same)
qed

lemma busy_reply_content:
  assumes "busy_reply A iId iRaw = Inr fr"
  shows "content (buf fr) = pb_field iId (le_bytes 8 (unat (iRaw AND NOT RPC_REQ_MASK)) @ le_bytes 4 4294967291)"
proof -
  let ?w = "w_then (put_word A (iRaw AND NOT RPC_REQ_MASK)) (put_word A (word_of_int OI_ERR_BUSY :: u32))"
  obtain s where s: "?w Stream_empty = (None, s)" and f: "EncodePbFrame A iId s = Inr fr"
    using assms by (auto simp: busy_reply_def split: prod.splits option.splits)
  have "writes (put_word A (iRaw AND NOT RPC_REQ_MASK)) (le_bytes 8 (unat (iRaw AND NOT RPC_REQ_MASK)))"
    using writes_word [of A "iRaw AND NOT RPC_REQ_MASK"] by simp
  moreover have "writes (put_word A (word_of_int OI_ERR_BUSY :: u32)) (le_bytes 4 4294967291)"
    using put_u32 [of A "word_of_int OI_ERR_BUSY"] by simp
  ultimately have "writes ?w (le_bytes 8 (unat (iRaw AND NOT RPC_REQ_MASK)) @ le_bytes 4 4294967291)" by (rule writes_then)
  from writesD(1,2) [OF this _ s] have "stream_ok s" "content (buf s) = le_bytes 8 (unat (iRaw AND NOT RPC_REQ_MASK)) @ le_bytes 4 4294967291"
    by simp_all
  then show ?thesis using EncodePbFrame_content [OF f] by (simp add: stream_ok_def)
qed

text \<open>
  C35: a request is either handed to its handler or answered as busy. Within the limits, the handler
  of the protocol gets the body from the call number on, together with a lease that the quota accounts
  for; beyond them nothing is started and the reply is the frame of the call number without its
  mark and the busy code, and the session is closed if it does not take the reply.
\<close>

theorem request_started_or_refused:
  assumes "exact ls (admission n)" and "stream_ok st" and "unread st = le_bytes 8 (unat iRaw) @ rest"
    and "iRaw AND RPC_REQ_MASK \<noteq> 0" and "iId \<in> handlers"
  shows "if would_exceed ls (m, sid) (m_iSize (buf st)) (admission n)
    then \<forall>fr. busy_reply A iId iRaw = Inr fr \<longrightarrow>
      (let d = pb_field iId (le_bytes 8 (unat (iRaw AND NOT RPC_REQ_MASK)) @ le_bytes 4 4294967291)
       in DeliverRpc A handlers accepts iId st m sid n
         = Inr (True, SendBytes m sid d # (if accepts d then [] else [CloseSession m sid]), n))
    else \<exists>l st' n'. DeliverRpc A handlers accepts iId st m sid n = Inr (True, [StartTask l iId m sid st'], n')
      \<and> unread st' = unread st \<and> exact (l # ls) (admission n') \<and> table n' = table n"
proof -
  note p = peek_call_id [OF assms(2,3)]
  let ?b = "RollBack (AddCurPos 8 (StartTransaction st))"
  have raw: "iRaw \<noteq> 0" using assms(4) by auto
  obtain r a where q: "AcquireRpc (m, sid) (m_iSize (buf st)) (admission n) = (r, a)" by force
  note c = AcquireRpc_cases [OF assms(1), of "(m, sid)" "m_iSize (buf st)"]
  show ?thesis
  proof (cases "would_exceed ls (m, sid) (m_iSize (buf st)) (admission n)")
    case True
    then have "r = None" using c q by simp
    then show ?thesis using True p(1,4) q raw assms(4,5) busy_reply_content
      unfolding DeliverRpc_def by (simp add: Let_def)
  next
    case False
    then obtain l where l: "r = Some l" using c q by auto
    then have "DeliverRpc A handlers accepts iId st m sid n = Inr (True, [StartTask l iId m sid ?b], n\<lparr>admission := a\<rparr>)"
      using p(1,4) q raw assms(4,5) unfolding DeliverRpc_def by (simp add: Let_def)
    moreover have "exact (l # ls) a" using AcquireRpc_exact [OF assms(1)] q l by simp
    ultimately show ?thesis using False p(2) by auto
  qed
qed

theorem request_started_or_refused_witness:
  "\<exists>l st' n'. DeliverRpc demo_alloc {9} (\<lambda>_. True) 9 (demo_body (le_bytes 8 9223372036854775809 @ ''rq'')) 1 7 demo_node
     = Inr (True, [StartTask l 9 1 7 st'], n') \<and> unread st' = le_bytes 8 9223372036854775809 @ ''rq''"
proof -
  have e: "exact [] (admission demo_node)"
    by (simp add: demo_node_def exact_def demo_admission_def of_session_def within_def limits_ok_def)
  have b: "stream_ok (demo_body (le_bytes 8 9223372036854775809 @ ''rq''))"
    "unread (demo_body (le_bytes 8 9223372036854775809 @ ''rq'')) = le_bytes 8 (unat (9223372036854775809 :: u64)) @ ''rq''"
    using demo_body_ok [of "le_bytes 8 9223372036854775809 @ ''rq''"] by simp_all
  have w: "\<not> would_exceed [] (1, 7) (m_iSize (buf (demo_body (le_bytes 8 9223372036854775809 @ ''rq'')))) (admission demo_node)"
    by (simp add: would_exceed_def demo_node_def demo_admission_def of_session_def demo_body_def)
  show ?thesis using request_started_or_refused [OF e b, of 9 "{9}" 1 7 demo_alloc "\<lambda>_. True"] w b by auto
qed

end
