(* ===== verification/OI_RpcTask.thy ===== *)
theory OI_RpcTask
  imports OI_Deliver OI_RpcData OI_Coro
begin

unbundle bit_operations_syntax

text \<open>
  The two ends of a remote call (the first half of cbaselib/proto/inc/oi_rpc_coro.h): the task that runs a handler and
  sends its reply (\<open>RunHandledRpc\<close>), one-way messages, and the awaiter of the caller (\<open>RpcCallAwaiter\<close>), whose gate
  decides between the caller that goes to sleep and the callback that brings the result.

  The classes of requests and responses are arguments with the contract \<open>pb_object\<close> (\<open>OI_Stream\<close>), which the
  generated messages of \<open>OI_RpcData\<close> fulfil; a handler is a function that returns the code and the response, or
  None where it throws. A coroutine that awaits inside a handler is that function too: only its result counts here.
\<close>

section \<open>Replies\<close>

definition frame_of :: "allocator \<Rightarrow> u32 \<Rightarrow> wr \<Rightarrow> exc + stream" where
  "frame_of A iId w = (case w Stream_empty of (Some e, _) \<Rightarrow> Inl e | (None, s) \<Rightarrow> EncodePbFrame A iId s)"

text \<open>The call number, the code and, where the handler succeeded, the response.\<close>

definition reply_writer :: "allocator \<Rightarrow> u64 \<Rightarrow> int \<Rightarrow> wr \<Rightarrow> wr" where
  "reply_writer A iCall iRetcode w =
    (let h = w_then (put_word A iCall) (put_word A (word_of_int iRetcode :: u32)) in if iRetcode = 0 then w_then h w else h)"

definition send_reply :: "(bytes \<Rightarrow> bool) \<Rightarrow> nat \<Rightarrow> nat \<Rightarrow> stream \<Rightarrow> deliver_effect list" where
  "send_reply accepts m sid fr = SendBytes m sid (content (buf fr)) # (if accepts (content (buf fr)) then [] else [CloseSession m sid])"

text \<open>
  What the task does: the request that was handed to the handler, if any, and the effects. \<open>accepts\<close> is the
  answer of \<open>SendBytes\<close>, false where it throws.
\<close>

definition handle_request :: "(stream \<Rightarrow> exc option \<times> 'q \<times> stream) \<Rightarrow> ('q \<Rightarrow> (int \<times> 'r) option) \<Rightarrow> 'r \<Rightarrow> stream \<Rightarrow> 'q option \<times> int \<times> 'r" where
  "handle_request deser fn r0 s = (case deser s of
      (Some e, _, _) \<Rightarrow> (None, OI_ERR_FAIL, r0)
    | (None, q, _) \<Rightarrow> (case fn q of None \<Rightarrow> (Some q, OI_ERR_FAIL, r0) | Some (c, r) \<Rightarrow> (Some q, c, r)))"

definition RunHandledRpc :: "allocator \<Rightarrow> (stream \<Rightarrow> exc option \<times> 'q \<times> stream) \<Rightarrow> ('q \<Rightarrow> (int \<times> 'r) option) \<Rightarrow> 'r \<Rightarrow> ('r \<Rightarrow> wr) \<Rightarrow> (bytes \<Rightarrow> bool)
    \<Rightarrow> u32 \<Rightarrow> nat \<Rightarrow> nat \<Rightarrow> stream \<Rightarrow> 'q option \<times> deliver_effect list" where
  "RunHandledRpc A deser fn r0 ser accepts iResId m sid stBody =
    (case get_word stBody :: (exc + u64) \<times> stream of
       (Inl e, _) \<Rightarrow> (None, [])
     | (Inr iRaw, s) \<Rightarrow>
         (let iCall = iRaw AND NOT RPC_REQ_MASK in
          case handle_request deser fn r0 s of (q, iRetcode, r) \<Rightarrow>
            (q, if iRaw = 0 then []
                else case frame_of A iResId (reply_writer A iCall iRetcode (ser r)) of
                    Inr fr \<Rightarrow> send_reply accepts m sid fr
                  | Inl _ \<Rightarrow> (case frame_of A iResId (reply_writer A iCall OI_ERR_FAIL (ser r)) of
                        Inr fr \<Rightarrow> send_reply accepts m sid fr
                      | Inl _ \<Rightarrow> [CloseSession m sid]))))"

text \<open>One-way messages: the number 0 and the message, no reply.\<close>

definition RunHandledNotify :: "(stream \<Rightarrow> exc option \<times> 'q \<times> stream) \<Rightarrow> stream \<Rightarrow> 'q option" where
  "RunHandledNotify deser stBody = (case get_word stBody :: (exc + u64) \<times> stream of
       (Inl e, _) \<Rightarrow> None
     | (Inr _, s) \<Rightarrow> (case deser s of (Some e, _, _) \<Rightarrow> None | (None, q, _) \<Rightarrow> Some q))"

abbreviation (input) OI_ERR_ENCODE :: int where "OI_ERR_ENCODE \<equiv> - 12"

definition RpcNotify :: "allocator \<Rightarrow> ('q \<Rightarrow> wr) \<Rightarrow> (bytes \<Rightarrow> int) \<Rightarrow> u32 \<Rightarrow> 'q \<Rightarrow> int" where
  "RpcNotify A ser send iId v = (case frame_of A iId (w_then (put_word A (0 :: u64)) (ser v)) of
      Inl _ \<Rightarrow> OI_ERR_ENCODE
    | Inr fr \<Rightarrow> send (content (buf fr)))"

section \<open>The awaiter of the caller\<close>

text \<open>\<open>stReply\<close> is None where \<open>bReplied\<close> is false; \<open>scheduled\<close> logs the calls of \<open>Schedule\<close>.\<close>

record RpcCallAwaiter =
  ca_iCallId :: nat
  iResult :: int
  stHandle :: "nat option"
  iGate :: Gate
  bAwaitStarted :: bool
  bDispatched :: bool
  stReply :: "stream option"
  stSubmissionError :: "exc option"
  scheduled :: "nat option list"

definition RpcCallAwaiter_new :: RpcCallAwaiter where
  "RpcCallAwaiter_new = \<lparr>ca_iCallId = 0, iResult = OI_ERR_FAIL, stHandle = None, iGate = GateIdle, bAwaitStarted = False, bDispatched = False,
     stReply = None, stSubmissionError = None, scheduled = []\<rparr>"

text \<open>None where a second await throws.\<close>

definition ClaimAwait :: "RpcCallAwaiter \<Rightarrow> RpcCallAwaiter option" where
  "ClaimAwait a = (if bAwaitStarted a then None else Some (a\<lparr>bAwaitStarted := True\<rparr>))"

text \<open>\<open>Dispatch\<close> up to \<open>BindRpcCall\<close>, which gives the number; the frame it then submits; and its error path.\<close>

definition Dispatch :: "nat \<Rightarrow> RpcCallAwaiter \<Rightarrow> RpcCallAwaiter" where
  "Dispatch c a = (if bDispatched a then a
     else a\<lparr>bDispatched := True, iResult := OI_ERR_FAIL, stReply := None, stSubmissionError := None, iGate := GateIdle, ca_iCallId := c\<rparr>)"

definition request_frame :: "allocator \<Rightarrow> u32 \<Rightarrow> nat \<Rightarrow> wr \<Rightarrow> exc + stream" where
  "request_frame A iId c w = frame_of A iId (w_then (put_word A ((word_of_nat c :: u64) OR RPC_REQ_MASK)) w)"

definition Dispatch_failed :: "exc \<Rightarrow> RpcCallAwaiter \<Rightarrow> RpcCallAwaiter" where
  "Dispatch_failed e a = a\<lparr>stSubmissionError := Some e\<rparr>"

text \<open>The callbacks that \<open>BindRpcCall\<close> is given, and the code that the call table writes where there is no reply.\<close>

definition fnDecode :: "stream \<Rightarrow> RpcCallAwaiter \<Rightarrow> RpcCallAwaiter" where
  "fnDecode s a = a\<lparr>stReply := Some s\<rparr>"

definition fnResult :: "int \<Rightarrow> RpcCallAwaiter \<Rightarrow> RpcCallAwaiter" where
  "fnResult c a = a\<lparr>iResult := c\<rparr>"

definition fnResume :: "RpcCallAwaiter \<Rightarrow> RpcCallAwaiter" where
  "fnResume a = (let a' = a\<lparr>iGate := GateReady\<rparr> in if iGate a = GateWaiting then a'\<lparr>scheduled := scheduled a @ [stHandle a]\<rparr> else a')"

text \<open>Whether the caller stays suspended.\<close>

definition Arm :: "nat \<Rightarrow> RpcCallAwaiter \<Rightarrow> bool \<times> RpcCallAwaiter" where
  "Arm h a = (iGate a \<noteq> GateReady, a\<lparr>stHandle := Some h, iGate := GateWaiting\<rparr>)"

text \<open>The code, and the response where it was decoded; Inl is an exception that leaves the function.\<close>

definition call_resume :: "(stream \<Rightarrow> exc option \<times> 'r \<times> stream) \<Rightarrow> RpcCallAwaiter \<Rightarrow> exc + int \<times> 'r option" where
  "call_resume deser a = (case stSubmissionError a of
      Some e \<Rightarrow> Inl e
    | None \<Rightarrow> (case stReply a of
        None \<Rightarrow> Inr (iResult a, None)
      | Some s \<Rightarrow> (case get_word s :: (exc + u32) \<times> stream of
          (Inl ParserException, _) \<Rightarrow> Inr (OI_ERR_FAIL, None)
        | (Inl e, _) \<Rightarrow> Inl e
        | (Inr w, s') \<Rightarrow> if sint w = 0 then
            (case deser s' of
               (Some ParserException, _, _) \<Rightarrow> Inr (OI_ERR_FAIL, None)
             | (Some e, _, _) \<Rightarrow> Inl e
             | (None, r, _) \<Rightarrow> Inr (0, Some r))
          else Inr (sint w, None))))"

section \<open>Sleeping and waking\<close>

text \<open>
  The caller and the callback run on different threads. The call table runs the callback at most once
  (\<open>OI_RpcCall\<close>); it writes the result and then passes the gate. A caller may submit first and await later.
\<close>

datatype caller_pc = CallerNew | CallerClaimed | CallerSuspended | CallerRunning
datatype callback_pc = CallbackWaits | CallbackWritten | CallbackDone

record await_state =
  aw :: RpcCallAwaiter
  caller :: caller_pc
  callback :: callback_pc
  resumes :: nat

inductive await_step :: "nat \<Rightarrow> await_state \<Rightarrow> await_state \<Rightarrow> bool" for h where
  claim: "ClaimAwait (aw s) = Some a \<Longrightarrow> await_step h s (s\<lparr>aw := a, caller := CallerClaimed\<rparr>)"
| dispatch: "caller s \<in> {CallerNew, CallerClaimed} \<Longrightarrow> await_step h s (s\<lparr>aw := Dispatch c (aw s)\<rparr>)"
| error: "caller s \<in> {CallerNew, CallerClaimed} \<Longrightarrow> bDispatched (aw s) \<Longrightarrow> await_step h s (s\<lparr>aw := Dispatch_failed e (aw s)\<rparr>)"
| decode: "bDispatched (aw s) \<Longrightarrow> callback s = CallbackWaits \<Longrightarrow> await_step h s (s\<lparr>aw := fnDecode b (aw s), callback := CallbackWritten\<rparr>)"
| result: "bDispatched (aw s) \<Longrightarrow> callback s = CallbackWaits \<Longrightarrow> await_step h s (s\<lparr>aw := fnResult c (aw s), callback := CallbackWritten\<rparr>)"
| resume: "callback s = CallbackWritten \<Longrightarrow> await_step h s (s\<lparr>aw := fnResume (aw s), callback := CallbackDone\<rparr>)"
| suspend: "caller s = CallerClaimed \<Longrightarrow> bDispatched (aw s) \<Longrightarrow> Arm h (aw s) = (True, a) \<Longrightarrow> await_step h s (s\<lparr>aw := a, caller := CallerSuspended\<rparr>)"
| go_on: "caller s = CallerClaimed \<Longrightarrow> bDispatched (aw s) \<Longrightarrow> Arm h (aw s) = (False, a) \<Longrightarrow>
    await_step h s (s\<lparr>aw := a, caller := CallerRunning, resumes := resumes s + 1\<rparr>)"
| run: "scheduled (aw s) = hs @ [Some h] @ hs' \<Longrightarrow>
    await_step h s (s\<lparr>aw := (aw s)\<lparr>scheduled := hs @ hs'\<rparr>, caller := CallerRunning, resumes := resumes s + 1\<rparr>)"

definition await_start :: await_state where
  "await_start = \<lparr>aw = RpcCallAwaiter_new, caller = CallerNew, callback = CallbackWaits, resumes = 0\<rparr>"

inductive await_run :: "nat \<Rightarrow> await_state \<Rightarrow> bool" for h where
  start: "await_run h await_start"
| step: "await_run h s \<Longrightarrow> await_step h s s' \<Longrightarrow> await_run h s'"

definition await_ok :: "nat \<Rightarrow> await_state \<Rightarrow> bool" where
  "await_ok h s \<longleftrightarrow>
     (case caller s of
        CallerNew \<Rightarrow> \<not> bAwaitStarted (aw s) \<and> scheduled (aw s) = [] \<and> resumes s = 0
      | CallerClaimed \<Rightarrow> bAwaitStarted (aw s) \<and> scheduled (aw s) = [] \<and> resumes s = 0
      | CallerSuspended \<Rightarrow> bAwaitStarted (aw s) \<and> bDispatched (aw s) \<and> resumes s = 0 \<and> stHandle (aw s) = Some h
          \<and> scheduled (aw s) = (if callback s = CallbackDone then [Some h] else []) \<and> (iGate (aw s) = GateWaiting \<longleftrightarrow> callback s \<noteq> CallbackDone)
      | CallerRunning \<Rightarrow> bAwaitStarted (aw s) \<and> bDispatched (aw s) \<and> resumes s = 1 \<and> scheduled (aw s) = [] \<and> callback s = CallbackDone)
     \<and> (caller s \<in> {CallerNew, CallerClaimed} \<longrightarrow> iGate (aw s) = (if callback s = CallbackDone then GateReady else GateIdle))
     \<and> (\<not> bDispatched (aw s) \<longrightarrow> callback s = CallbackWaits)"

lemma await_step_ok: "await_step h s s' \<Longrightarrow> await_ok h s \<Longrightarrow> await_ok h s'"
proof (induction rule: await_step.induct)
  case (run s hs hs')
  then show ?case by (cases "caller s") (auto simp: await_ok_def append_eq_Cons_conv split: if_splits)
qed (auto simp: await_ok_def ClaimAwait_def Dispatch_def Dispatch_failed_def fnDecode_def fnResult_def fnResume_def Arm_def Let_def
    split: caller_pc.splits if_splits)

lemma await_start_ok: "await_ok h await_start"
  by (simp add: await_start_def await_ok_def RpcCallAwaiter_new_def)

lemma await_run_ok: "await_run h s \<Longrightarrow> await_ok h s"
  by (induction rule: await_run.induct) (auto simp: await_start_ok intro: await_step_ok)

text \<open>
  C5: the gate between a caller and the callback of its call loses no wakeup and makes none too many. In every
  interleaving the caller is resumed at most once, and only after the result was written; \<open>Schedule\<close> is called at
  most once, with the caller's own handle; and once the callback is done, a caller that is suspended has been scheduled.
\<close>

theorem await_resumes_once:
  assumes "await_run h s"
  shows "resumes s \<le> 1 \<and> (resumes s = 1 \<longrightarrow> callback s = CallbackDone) \<and> set (scheduled (aw s)) \<subseteq> {Some h} \<and> length (scheduled (aw s)) + resumes s \<le> 1
    \<and> (caller s = CallerSuspended \<and> callback s = CallbackDone \<longrightarrow> scheduled (aw s) = [Some h])"
  using await_run_ok [OF assms] by (auto simp: await_ok_def split: caller_pc.splits if_splits)

definition await_demo :: "await_state" where
  "await_demo = \<lparr>aw = RpcCallAwaiter_new\<lparr>bAwaitStarted := True, bDispatched := True, ca_iCallId := 4, stHandle := Some 9, iGate := GateReady, iResult := - 2,
     scheduled := [Some 9]\<rparr>, caller = CallerSuspended, callback = CallbackDone, resumes = 0\<rparr>"

lemma await_demo_run: "await_run 9 await_demo"
proof -
  let ?a1 = "RpcCallAwaiter_new\<lparr>bAwaitStarted := True\<rparr>"
  let ?a2 = "Dispatch 4 ?a1"
  let ?a3 = "?a2\<lparr>stHandle := Some 9, iGate := GateWaiting\<rparr>"
  have "await_run 9 \<lparr>aw = ?a1, caller = CallerClaimed, callback = CallbackWaits, resumes = 0\<rparr>"
    using await_run.step [OF await_run.start claim, of ?a1 9] by (simp add: await_start_def ClaimAwait_def RpcCallAwaiter_new_def)
  then have "await_run 9 \<lparr>aw = ?a2, caller = CallerClaimed, callback = CallbackWaits, resumes = 0\<rparr>"
    using await_run.step [OF _ dispatch, of 9 "\<lparr>aw = ?a1, caller = CallerClaimed, callback = CallbackWaits, resumes = 0\<rparr>" 4] by simp
  then have "await_run 9 \<lparr>aw = ?a3, caller = CallerSuspended, callback = CallbackWaits, resumes = 0\<rparr>"
    using await_run.step [OF _ suspend, of 9 "\<lparr>aw = ?a2, caller = CallerClaimed, callback = CallbackWaits, resumes = 0\<rparr>" ?a3]
    by (simp add: Dispatch_def RpcCallAwaiter_new_def Arm_def)
  then have "await_run 9 \<lparr>aw = fnResult (- 2) ?a3, caller = CallerSuspended, callback = CallbackWritten, resumes = 0\<rparr>"
    using await_run.step [OF _ result, of 9 "\<lparr>aw = ?a3, caller = CallerSuspended, callback = CallbackWaits, resumes = 0\<rparr>" "- 2"]
    by (simp add: Dispatch_def RpcCallAwaiter_new_def)
  then have "await_run 9 \<lparr>aw = fnResume (fnResult (- 2) ?a3), caller = CallerSuspended, callback = CallbackDone, resumes = 0\<rparr>"
    using await_run.step [OF _ resume, of 9 "\<lparr>aw = fnResult (- 2) ?a3, caller = CallerSuspended, callback = CallbackWritten, resumes = 0\<rparr>"] by simp
  then show ?thesis by (simp add: await_demo_def fnResume_def fnResult_def Dispatch_def RpcCallAwaiter_new_def)
qed

theorem await_resumes_once_witness: "scheduled (aw await_demo) = [Some 9] \<and> resumes await_demo \<le> 1"
  using await_resumes_once [OF await_demo_run] by (simp add: await_demo_def)

section \<open>From the caller to the handler and back\<close>

lemma frame_content:
  assumes "frame_of A iId w = Inr fr" and "OI_Stream.writes w d"
  shows "content (buf fr) = pb_field iId d"
proof -
  obtain s where s: "w Stream_empty = (None, s)" and f: "EncodePbFrame A iId s = Inr fr"
    using assms(1) by (auto simp: frame_of_def split: prod.splits option.splits)
  from writesD(1,2) [OF assms(2) stream_ok_empty(1) s] have "stream_ok s" "content (buf s) = d" by simp_all
  then show ?thesis using EncodePbFrame_content [OF f] by (simp add: stream_ok_def)
qed

lemma reply_writes:
  assumes "iRetcode = 0 \<Longrightarrow> OI_Stream.writes w d"
  shows "OI_Stream.writes (reply_writer A iCall iRetcode w)
    (le_bytes 8 (unat iCall) @ le_bytes 4 (unat (word_of_int iRetcode :: u32)) @ (if iRetcode = 0 then d else []))"
proof -
  have h: "OI_Stream.writes (w_then (put_word A iCall) (put_word A (word_of_int iRetcode :: u32))) (le_bytes 8 (unat iCall) @ le_bytes 4 (unat (word_of_int iRetcode :: u32)))"
    by (rule writes_then) (use writes_word [of A iCall] put_u32 [of A "word_of_int iRetcode"] in simp_all)
  show ?thesis
  proof (cases "iRetcode = 0")
    case True
    from writes_then [OF h assms [OF True]] show ?thesis using True by (simp add: reply_writer_def)
  next
    case False
    then show ?thesis using h by (simp add: reply_writer_def)
  qed
qed

lemma mask_or: "c < 2 ^ 63 \<Longrightarrow> ((word_of_nat c :: u64) OR RPC_REQ_MASK) AND NOT RPC_REQ_MASK = word_of_nat c \<and> (word_of_nat c :: u64) OR RPC_REQ_MASK \<noteq> 0"
proof -
  assume c: "c < 2 ^ 63"
  then have "unat (word_of_nat c :: u64) < 2 ^ 63" by (simp add: unat_of_nat)
  from mask_top [OF this] have m: "(word_of_nat c :: u64) AND NOT RPC_REQ_MASK = word_of_nat c" by simp
  have "((word_of_nat c :: u64) OR RPC_REQ_MASK) AND NOT RPC_REQ_MASK = (word_of_nat c AND NOT RPC_REQ_MASK) OR (RPC_REQ_MASK AND NOT RPC_REQ_MASK)"
    by (simp only: bit.conj_disj_distrib2)
  also have "\<dots> = word_of_nat c" using m by (simp only: bit.conj_cancel_right bit.disj_zero_right)
  moreover have "(word_of_nat c :: u64) OR RPC_REQ_MASK \<noteq> 0"
    by (simp only: or_eq_0_iff) simp
  ultimately show ?thesis by simp
qed

lemma code_word: "- (2 ^ 31) \<le> c \<Longrightarrow> c < 2 ^ 31 \<Longrightarrow> sint (word_of_int c :: u32) = c"
  by (rule sint_word_of_int_range) simp_all

text \<open>The awaiter of a call whose reply has arrived.\<close>

definition replied :: "stream \<Rightarrow> RpcCallAwaiter" where
  "replied st = fnDecode st (RpcCallAwaiter_new\<lparr>bDispatched := True, bAwaitStarted := True\<rparr>)"

lemma call_resume_reply:
  assumes c: "pb_object layr okr serr deserr r0" and r: "iRetcode = 0 \<longrightarrow> okr r" and A: "all_avail A"
    and st: "stream_ok st" "unread st = le_bytes 4 (unat (word_of_int iRetcode :: u32)) @ (if iRetcode = 0 then layr r else [])"
    and code: "- (2 ^ 31) \<le> iRetcode" "iRetcode < 2 ^ 31"
  shows "call_resume (deserr A r0) (replied st) = Inr (iRetcode, if iRetcode = 0 then Some r else None)"
proof -
  have g: "get_word st = (Inr (word_of_int iRetcode :: u32), AddCurPos 4 st)"
    using get_word_reads [of "word_of_int iRetcode :: u32"] st unfolding reads_def by simp
  have s: "sint (word_of_int iRetcode :: u32) = iRetcode" by (rule code_word [OF code])
  show ?thesis
  proof (cases "iRetcode = 0")
    case True
    have "stream_ok (AddCurPos 4 st)" "unread (AddCurPos 4 st) = layr r" using AddCurPos_unread [OF st(1), of 4] st(2) True by simp_all
    then obtain s' where "deserr A r0 (AddCurPos 4 st) = (None, r, s')" using pb_object.deser_law [OF c _ A] r True by blast
    then show ?thesis using g s True by (simp add: call_resume_def replied_def fnDecode_def RpcCallAwaiter_new_def)
  next
    case False
    then show ?thesis using g s by (simp add: call_resume_def replied_def fnDecode_def RpcCallAwaiter_new_def)
  qed
qed

text \<open>
  C3: a remote call is a call of its handler. The frame that the caller submits holds the marked call number and the
  request; the task that is started with this body hands exactly that request to the handler and sends one reply
  frame; and that reply, delivered to the caller's call table, completes the call, and the awaiter returns the
  handler's code and, if it is 0, the handler's response.
\<close>

theorem remote_call_roundtrip:
  assumes q: "pb_object layq okq serq deserq q0" "okq q" and r: "pb_object layr okr serr deserr r0" "okr r" and A: "all_avail A"
    and c: "0 < c" "c < 2 ^ 63" and code: "- (2 ^ 31) \<le> iRetcode" "iRetcode < 2 ^ 31"
    and req: "request_frame A iId c (serq A q) = Inr fr"
    and fn: "fn q = Some (iRetcode, r)"
    and rep: "frame_of A iId (reply_writer A (word_of_nat c) iRetcode (serr A r)) = Inr fr'"
    and n: "calls_ok (table n)" "pending (table n) c = Some sl" "pManager sl = m" "iSlotSession sl = sid" "OI_RpcCall.iResponseId sl = unat iId"
  shows "\<exists>body reply. content (buf fr) = pb_field iId body \<and> content (buf fr') = pb_field iId reply
    \<and> (\<forall>sb. stream_ok sb \<and> unread sb = body \<longrightarrow>
         RunHandledRpc A (deserq A q0) fn r0 (serr A) accepts iId m' sid' sb = (Some q, send_reply accepts m' sid' fr'))
    \<and> (\<forall>st. stream_ok st \<and> unread st = reply \<longrightarrow> (\<exists>st' n' ev.
         DeliverRpc A handlers accepts iId st m sid n = Inr (True, [Events (ev @ [Decoded c sid st', Resumed c])], n')
         \<and> call_resume (deserr A r0) (replied st') = Inr (iRetcode, if iRetcode = 0 then Some r else None)))"
proof -
  let ?w = "(word_of_nat c :: u64) OR RPC_REQ_MASK"
  let ?body = "le_bytes 8 (unat ?w) @ layq q"
  let ?rest = "le_bytes 4 (unat (word_of_int iRetcode :: u32)) @ (if iRetcode = 0 then layr r else [])"
  note m = mask_or [OF c(2)]
  have uc: "unat (word_of_nat c :: u64) = c" using c(2) by (simp add: unat_of_nat)
  have "OI_Stream.writes (w_then (put_word A ?w) (serq A q)) ?body"
    by (rule writes_then) (use writes_word [of A ?w] pb_object.ser_law [OF q(1,2)] in simp_all)
  then have body: "content (buf fr) = pb_field iId ?body" using req unfolding request_frame_def by (rule frame_content [rotated])
  have reply: "content (buf fr') = pb_field iId (le_bytes 8 c @ ?rest)"
    using frame_content [OF rep reply_writes, of "layr r"] pb_object.ser_law [OF r] uc by simp
  have run: "RunHandledRpc A (deserq A q0) fn r0 (serr A) accepts iId m' sid' sb = (Some q, send_reply accepts m' sid' fr')"
    if sb: "stream_ok sb" "unread sb = ?body" for sb
  proof -
    have g: "get_word sb = (Inr ?w, AddCurPos 8 sb)" using get_word_reads [of ?w] sb unfolding reads_def by simp
    have "stream_ok (AddCurPos 8 sb)" "unread (AddCurPos 8 sb) = layq q" using AddCurPos_unread [OF sb(1), of 8] sb(2) by simp_all
    then obtain s' where "deserq A q0 (AddCurPos 8 sb) = (None, q, s')" using pb_object.deser_law [OF q A] by blast
    then have "handle_request (deserq A q0) fn r0 (AddCurPos 8 sb) = (Some q, iRetcode, r)" using fn by (simp add: handle_request_def)
    then show ?thesis unfolding RunHandledRpc_def g using m rep by (simp add: Let_def)
  qed
  have del: "\<exists>st' n' ev. DeliverRpc A handlers accepts iId st m sid n = Inr (True, [Events (ev @ [Decoded c sid st', Resumed c])], n')
      \<and> call_resume (deserr A r0) (replied st') = Inr (iRetcode, if iRetcode = 0 then Some r else None)"
    if st: "stream_ok st" "unread st = le_bytes 8 c @ ?rest" for st
  proof -
    obtain st' n' where d: "DeliverRpc A handlers accepts iId st m sid n = Inr (True, [Events
      ((if bAwaitingConnect sl then [DropPendingCall (pSender sl) m c] else []) @ [Decoded c sid st', Resumed c])], n')"
      and s: "unread st' = ?rest" "stream_ok st'"
      using reply_delivered [OF n(1) st c n(2-5), of A handlers accepts] by blast
    have "call_resume (deserr A r0) (replied st') = Inr (iRetcode, if iRetcode = 0 then Some r else None)"
      by (rule call_resume_reply [OF r(1) _ A s(2,1) code]) (use r(2) in simp)
    then show ?thesis using d by blast
  qed
  show ?thesis using body reply run del by (intro exI [of _ ?body] exI [of _ "le_bytes 8 c @ ?rest"]) blast
qed

lemmas frame_eval = frame_of_def EncodePbFrame_def content_def WritePbRaw_def w_then_def put_word_def s_append_def Stream_empty_def
  Append_ext_def Grow_def grow_cap.simps malloc_def Bytes_empty_def sint_neg_u32 memcpy_def Let_def demo_alloc_def

definition demo_request :: stream where
  "demo_request = projr (request_frame demo_alloc 9 1 (RegRegisterRes_serialize demo_alloc \<lparr>regres_iCode = 5\<rparr>))"

definition demo_reply :: stream where
  "demo_reply = projr (frame_of demo_alloc 9 (reply_writer demo_alloc (word_of_nat 1) 0 (RegRegisterRes_serialize demo_alloc \<lparr>regres_iCode = 6\<rparr>)))"

lemma demo_frames:
  "request_frame demo_alloc 9 1 (RegRegisterRes_serialize demo_alloc \<lparr>regres_iCode = 5\<rparr>) = Inr demo_request"
  "frame_of demo_alloc 9 (reply_writer demo_alloc (word_of_nat 1) 0 (RegRegisterRes_serialize demo_alloc \<lparr>regres_iCode = 6\<rparr>)) = Inr demo_reply"
  by (simp_all add: demo_request_def demo_reply_def request_frame_def reply_writer_def RegRegisterRes_serialize_def WritePb_word_def frame_eval)

theorem remote_call_roundtrip_witness:
  "\<exists>body reply. content (buf demo_request) = pb_field 9 body \<and> content (buf demo_reply) = pb_field 9 reply
    \<and> (\<forall>sb. stream_ok sb \<and> unread sb = body \<longrightarrow>
         RunHandledRpc demo_alloc (RegRegisterRes_deserialize demo_alloc RegRegisterRes_default) (\<lambda>q. Some (0, \<lparr>regres_iCode = regres_iCode q + 1\<rparr>))
           RegRegisterRes_default (RegRegisterRes_serialize demo_alloc) (\<lambda>_. True) 9 2 3 sb = (Some \<lparr>regres_iCode = 5\<rparr>, send_reply (\<lambda>_. True) 2 3 demo_reply))
    \<and> (\<forall>st. stream_ok st \<and> unread st = reply \<longrightarrow> (\<exists>st' n' ev.
         DeliverRpc demo_alloc {} (\<lambda>_. True) 9 st 1 7 demo_node = Inr (True, [Events (ev @ [Decoded 1 7 st', Resumed 1])], n')
         \<and> call_resume (RegRegisterRes_deserialize demo_alloc RegRegisterRes_default) (replied st') = Inr (0, if (0 :: int) = 0 then Some \<lparr>regres_iCode = 6\<rparr> else None)))"
proof -
  have b: "pending (table demo_node) 1 = Some (bound_slot 1 1 7 9 100 (Some 3) None 1000)" "calls_ok (table demo_node)"
    by (simp_all add: demo_node_def demo_bound)
  have A: "all_avail demo_alloc" by (simp add: all_avail_def demo_alloc_def)
  have ok: "RegRegisterRes_ok v" for v by (simp add: RegRegisterRes_ok_def)
  have sl: "pManager (bound_slot 1 1 7 9 100 (Some 3) None 1000) = 1" "iSlotSession (bound_slot 1 1 7 9 100 (Some 3) None 1000) = 7"
    "OI_RpcCall.iResponseId (bound_slot 1 1 7 9 100 (Some 3) None 1000) = unat (9 :: u32)"
    by (simp_all add: bound_slot_def new_slot_def)
  show ?thesis
    by (rule remote_call_roundtrip [OF RegRegisterRes.pb_object_axioms ok RegRegisterRes.pb_object_axioms ok A _ _ _ _ demo_frames(1) _ demo_frames(2) b(2,1) sl])
       simp_all
qed


definition demo_message :: RegRegisterRes where
  "demo_message = \<lparr>regres_iCode = 5\<rparr>"


end
