(* ===== verification/OI_Held.thy ===== *)
theory OI_Held
  imports OI_Prelude "HOL-Library.Multiset"
begin

text \<open>
  Remote calls that wait for a connection. The client manager (cbaselib/proto/src/oi_rpc_session_manager.cpp)
  and a routed connection (cbaselib/proto/src/oi_rpc_route.cpp) both keep them in a list with an index and a
  count of bytes, and both decide under their lock what to do with a call and do it after they have released
  the lock. This theory holds the queue, the actions that are still to be done, and the accounting: every
  call that was submitted is in exactly one place. \<open>OI_RpcClient\<close> and \<open>OI_Route\<close> extend the record.

  The table of calls (\<open>OI_RpcCall\<close>) answers whether a call is still waiting (\<open>ClaimRpcSend\<close>,
  \<open>MarkRpcAwaitingConnect\<close>) and completes it (\<open>WakeRpcCall\<close>); its answers are arguments, the completions are
  logged in \<open>woken\<close>. \<open>gone\<close> are the calls it no longer had. \<open>sent\<close> are the payloads that a session has taken.
\<close>

section \<open>The queue\<close>

record heldq =
  vHeld :: "(nat \<times> bytes) list"
  mHeld :: "nat set"
  iHeldBytes :: nat
  iHeldMaxCount :: nat
  iHeldMaxBytes :: nat

definition held_full :: "bytes \<Rightarrow> heldq \<Rightarrow> bool" where
  "held_full d h \<longleftrightarrow> length (vHeld h) \<ge> iHeldMaxCount h \<or> iHeldBytes h > iHeldMaxBytes h
     \<or> length d > size_sub (iHeldMaxBytes h) (iHeldBytes h)"

definition held_push :: "nat \<Rightarrow> bytes \<Rightarrow> heldq \<Rightarrow> heldq" where
  "held_push i d h = h\<lparr>vHeld := vHeld h @ [(i, d)], mHeld := insert i (mHeld h), iHeldBytes := iHeldBytes h + length d\<rparr>"

definition held_drop :: "nat \<Rightarrow> heldq \<Rightarrow> heldq" where
  "held_drop i h =
    (if i \<notin> mHeld h then h
     else case map_of (vHeld h) i of
         None \<Rightarrow> h
       | Some d \<Rightarrow> h\<lparr>iHeldBytes := size_sub (iHeldBytes h) (length d), vHeld := filter (\<lambda>x. fst x \<noteq> i) (vHeld h), mHeld := mHeld h - {i}\<rparr>)"

definition held_clear :: "heldq \<Rightarrow> heldq" where
  "held_clear h = h\<lparr>vHeld := [], mHeld := {}, iHeldBytes := 0\<rparr>"

definition held_sum :: "(nat \<times> bytes) list \<Rightarrow> nat" where
  "held_sum v = sum_list (map (length \<circ> snd) v)"

text \<open>The index holds the calls of the list, the count their bytes, within the limit they were accepted under.\<close>

definition held_ok :: "heldq \<Rightarrow> bool" where
  "held_ok h \<longleftrightarrow> distinct (map fst (vHeld h)) \<and> mHeld h = fst ` set (vHeld h) \<and> iHeldBytes h = held_sum (vHeld h)
     \<and> iHeldBytes h < SIZE_MOD \<and> iHeldMaxBytes h < SIZE_MOD"

lemma held_push_ok:
  assumes "held_ok h" and "\<not> held_full d h" and "i \<notin> fst ` set (vHeld h)"
  shows "held_ok (held_push i d h)" "length (vHeld (held_push i d h)) \<le> iHeldMaxCount h" "iHeldBytes (held_push i d h) \<le> iHeldMaxBytes h"
proof -
  have "length d \<le> iHeldMaxBytes h - iHeldBytes h" "iHeldBytes h \<le> iHeldMaxBytes h"
    using assms(1,2) size_sub_le [of "iHeldBytes h" "iHeldMaxBytes h"] by (auto simp: held_full_def held_ok_def)
  then show b: "iHeldBytes (held_push i d h) \<le> iHeldMaxBytes h" by (simp add: held_push_def)
  show "length (vHeld (held_push i d h)) \<le> iHeldMaxCount h" using assms(2) by (simp add: held_full_def held_push_def)
  show "held_ok (held_push i d h)"
    using assms(1,3) b by (auto simp: held_ok_def held_push_def held_sum_def)
qed

lemma held_sum_filter:
  "distinct (map fst v) \<Longrightarrow> map_of v i = Some d \<Longrightarrow> held_sum v = length d + held_sum (filter (\<lambda>x. fst x \<noteq> i) v)"
proof (induction v)
  case (Cons x v)
  show ?case
  proof (cases "fst x = i")
    case True
    then have "i \<notin> fst ` set v" using Cons.prems(1) by auto
    then have "filter (\<lambda>x. fst x \<noteq> i) v = v" by (intro filter_True) force
    then show ?thesis using True Cons.prems(2) by (cases x) (simp add: held_sum_def)
  next
    case False
    then show ?thesis using Cons by (cases x) (simp add: held_sum_def)
  qed
qed simp

lemma held_drop_eq:
  assumes "held_ok h"
  shows "vHeld (held_drop i h) = filter (\<lambda>x. fst x \<noteq> i) (vHeld h)" "held_ok (held_drop i h)"
    "iHeldMaxCount (held_drop i h) = iHeldMaxCount h" "iHeldMaxBytes (held_drop i h) = iHeldMaxBytes h"
proof -
  show "iHeldMaxCount (held_drop i h) = iHeldMaxCount h" "iHeldMaxBytes (held_drop i h) = iHeldMaxBytes h"
    by (simp_all add: held_drop_def split: option.splits)
  have "vHeld (held_drop i h) = filter (\<lambda>x. fst x \<noteq> i) (vHeld h) \<and> held_ok (held_drop i h)"
  proof (cases "i \<in> mHeld h")
    case False
    then have "i \<notin> fst ` set (vHeld h)" using assms by (simp add: held_ok_def)
    then have "filter (\<lambda>x. fst x \<noteq> i) (vHeld h) = vHeld h" by (intro filter_True) force
    then show ?thesis using False assms by (simp add: held_drop_def)
  next
    case True
    then have "i \<in> fst ` set (vHeld h)" using assms by (simp add: held_ok_def)
    then obtain d where d: "map_of (vHeld h) i = Some d" by (cases "map_of (vHeld h) i") (auto simp: map_of_eq_None_iff)
    have dist: "distinct (map fst (vHeld h))" using assms by (simp add: held_ok_def)
    have s: "held_sum (vHeld h) = length d + held_sum (filter (\<lambda>x. fst x \<noteq> i) (vHeld h))" by (rule held_sum_filter [OF dist d])
    then have "size_sub (iHeldBytes h) (length d) = held_sum (filter (\<lambda>x. fst x \<noteq> i) (vHeld h))"
      using assms size_sub_le [of "length d" "iHeldBytes h"] by (simp add: held_ok_def)
    moreover have "distinct (map fst (filter (\<lambda>x. fst x \<noteq> i) (vHeld h)))" using dist by (simp add: distinct_map_filter)
    moreover have "fst ` set (filter (\<lambda>x. fst x \<noteq> i) (vHeld h)) = mHeld h - {i}" using assms by (auto simp: held_ok_def)
    ultimately show ?thesis using True d assms s by (auto simp: held_drop_def held_ok_def)
  qed
  then show "vHeld (held_drop i h) = filter (\<lambda>x. fst x \<noteq> i) (vHeld h)" "held_ok (held_drop i h)" by simp_all
qed

lemma held_clear_ok: "held_ok h \<Longrightarrow> held_ok (held_clear h)"
  by (simp add: held_ok_def held_clear_def held_sum_def)

section \<open>Calls in all their places\<close>

text \<open>
  What is to be done after the lock was released: complete a call with an error, send a call whose
  session was set in the table, set the session of a call and send it, and make sure of a connection.
\<close>

datatype act = ActWake nat int | ActSend int nat bytes | ActFlush int nat bytes | ActEnsure

record callw =
  held :: heldq
  todo :: "act list"
  sent :: "(int \<times> nat \<times> bytes) list"
  woken :: "(nat \<times> int) list"
  gone :: "nat list"
  submitted :: "(nat \<times> bytes) list"

fun act_ids :: "act \<Rightarrow> nat multiset" where
  "act_ids (ActWake i c) = {#i#}"
| "act_ids (ActSend s i d) = {#i#}"
| "act_ids (ActFlush s i d) = {#i#}"
| "act_ids ActEnsure = {#}"

fun act_data :: "act \<Rightarrow> (nat \<times> bytes) set" where
  "act_data (ActSend s i d) = {(i, d)}"
| "act_data (ActFlush s i d) = {(i, d)}"
| "act_data _ = {}"

definition places :: "'a callw_scheme \<Rightarrow> nat multiset" where
  "places w = mset (map fst (vHeld (held w))) + sum_list (map act_ids (todo w)) + mset (map (fst \<circ> snd) (sent w)) + mset (map fst (woken w)) + mset (gone w)"

definition acct_ok :: "'a callw_scheme \<Rightarrow> bool" where
  "acct_ok w \<longleftrightarrow> places w = mset (map fst (submitted w)) \<and> distinct (map fst (submitted w)) \<and> held_ok (held w)
     \<and> set (vHeld (held w)) \<union> \<Union> (act_data ` set (todo w)) \<union> snd ` set (sent w) \<subseteq> set (submitted w)"

text \<open>
  One action is done; \<open>claim\<close> is the answer of \<open>ClaimRpcSend\<close>, \<open>r\<close> the result of \<open>SendBytesResult\<close>.
  \<open>ActEnsure\<close> has its effect in the extensions.
\<close>

definition send_claimed :: "int \<Rightarrow> int \<Rightarrow> nat \<Rightarrow> bytes \<Rightarrow> 'a callw_scheme \<Rightarrow> 'a callw_scheme" where
  "send_claimed r s i d w = (if r = OI_OK then w\<lparr>sent := sent w @ [(s, i, d)]\<rparr> else w\<lparr>woken := woken w @ [(i, r)]\<rparr>)"

fun do_act :: "bool \<Rightarrow> int \<Rightarrow> act \<Rightarrow> 'a callw_scheme \<Rightarrow> 'a callw_scheme" where
  "do_act claim r (ActWake i c) w = w\<lparr>woken := woken w @ [(i, c)]\<rparr>"
| "do_act claim r (ActSend s i d) w = send_claimed r s i d w"
| "do_act claim r (ActFlush s i d) w = (if claim then send_claimed r s i d w else w\<lparr>gone := gone w @ [i]\<rparr>)"
| "do_act claim r ActEnsure w = w"

definition take_act :: "nat \<Rightarrow> 'a callw_scheme \<Rightarrow> 'a callw_scheme" where
  "take_act k w = w\<lparr>todo := take k (todo w) @ drop (Suc k) (todo w)\<rparr>"

definition run_act :: "nat \<Rightarrow> bool \<Rightarrow> int \<Rightarrow> 'a callw_scheme \<Rightarrow> 'a callw_scheme" where
  "run_act k claim r w = (if k < length (todo w) then do_act claim r (todo w ! k) (take_act k w) else w)"

lemma split_at: "k < length xs \<Longrightarrow> xs = take k xs @ xs ! k # drop (Suc k) xs"
  by (rule id_take_nth_drop)

lemma run_act_ok:
  assumes ok: "acct_ok w"
  shows "acct_ok (run_act k claim r w)"
proof (cases "k < length (todo w)")
  case True
  define t1 where "t1 = take k (todo w)"
  define t2 where "t2 = drop (Suc k) (todo w)"
  define a where "a = todo w ! k"
  have t: "todo w = t1 @ a # t2" using split_at [OF True] by (simp add: t1_def t2_def a_def)
  have w: "run_act k claim r w = do_act claim r a (w\<lparr>todo := t1 @ t2\<rparr>)"
    using True by (simp add: run_act_def take_act_def t1_def t2_def a_def)
  show ?thesis unfolding w
    using ok t by (cases a) (auto simp: acct_ok_def places_def send_claimed_def ac_simps)
qed (use ok in \<open>simp add: run_act_def\<close>)

text \<open>A call arrives and goes to one place.\<close>

definition arrives :: "nat \<Rightarrow> bytes \<Rightarrow> 'a callw_scheme \<Rightarrow> 'a callw_scheme" where
  "arrives i d w = w\<lparr>submitted := submitted w @ [(i, d)]\<rparr>"

definition act_later :: "act \<Rightarrow> 'a callw_scheme \<Rightarrow> 'a callw_scheme" where
  "act_later a w = w\<lparr>todo := todo w @ [a]\<rparr>"

lemma arrives_act:
  assumes "acct_ok w" and "i \<notin> fst ` set (submitted w)" and "act_ids a = {#i#}" and "act_data a \<subseteq> {(i, d)}"
  shows "acct_ok (act_later a (arrives i d w))"
  using assms by (auto simp: acct_ok_def places_def act_later_def arrives_def)

lemma arrives_gone:
  "acct_ok w \<Longrightarrow> i \<notin> fst ` set (submitted w) \<Longrightarrow> acct_ok ((arrives i d w)\<lparr>gone := gone w @ [i]\<rparr>)"
  by (auto simp: acct_ok_def places_def arrives_def)

lemma held_submitted: "acct_ok w \<Longrightarrow> fst ` set (vHeld (held w)) \<subseteq> fst ` set (submitted w)"
  unfolding acct_ok_def by blast

lemma arrives_held:
  assumes "acct_ok w" and "i \<notin> fst ` set (submitted w)" and "\<not> held_full d (held w)"
  shows "acct_ok ((arrives i d w)\<lparr>held := held_push i d (held w)\<rparr>)"
proof -
  have "i \<notin> fst ` set (vHeld (held w))" using held_submitted [OF assms(1)] assms(2) by blast
  then have "held_ok (held_push i d (held w))" using held_push_ok [OF _ assms(3)] assms(1) by (simp add: acct_ok_def)
  then show ?thesis using assms(1,2) by (auto simp: acct_ok_def places_def arrives_def held_push_def)
qed

lemma act_later_ensure: "acct_ok w \<Longrightarrow> acct_ok (act_later ActEnsure w)"
  by (auto simp: acct_ok_def places_def act_later_def)

text \<open>A call that is dropped was completed by the table.\<close>

definition drop_held :: "nat \<Rightarrow> 'a callw_scheme \<Rightarrow> 'a callw_scheme" where
  "drop_held i w = w\<lparr>held := held_drop i (held w), gone := gone w @ (if i \<in> mHeld (held w) then [i] else [])\<rparr>"

lemma filter_out_mset: "distinct xs \<Longrightarrow> i \<in> set xs \<Longrightarrow> mset xs = add_mset i (mset (filter (\<lambda>x. x \<noteq> i) xs))"
proof (induction xs)
  case (Cons x xs)
  show ?case
  proof (cases "x = i")
    case True
    then have "filter (\<lambda>x. x \<noteq> i) xs = xs" using Cons.prems(1) by (intro filter_True) auto
    then show ?thesis using True by (simp del: mset_filter)
  next
    case False
    then show ?thesis using Cons by (simp del: mset_filter)
  qed
qed simp

lemma drop_held_ok:
  assumes ok: "acct_ok w"
  shows "acct_ok (drop_held i w)"
proof -
  let ?h = "held w"
  have h: "held_ok ?h" using ok by (simp add: acct_ok_def)
  note e = held_drop_eq [OF h, of i]
  have m: "map fst (filter (\<lambda>x. fst x \<noteq> i) (vHeld ?h)) = filter (\<lambda>x. x \<noteq> i) (map fst (vHeld ?h))" by (simp add: filter_map o_def)
  have "mset (map fst (vHeld ?h)) = mset (map fst (vHeld (held_drop i ?h))) + (if i \<in> mHeld ?h then {#i#} else {#})"
  proof (cases "i \<in> mHeld ?h")
    case True
    then have "i \<in> set (map fst (vHeld ?h))" using h by (auto simp: held_ok_def)
    then have "mset (map fst (vHeld ?h)) = add_mset i (mset (filter (\<lambda>x. x \<noteq> i) (map fst (vHeld ?h))))"
      by (intro filter_out_mset) (use h in \<open>simp add: held_ok_def\<close>)
    then show ?thesis using True unfolding e(1) m by simp
  next
    case False
    then show ?thesis by (simp add: held_drop_def)
  qed
  then have "places (drop_held i w) = places w" by (auto simp: places_def drop_held_def)
  then show ?thesis using ok e by (auto simp: acct_ok_def drop_held_def)
qed

text \<open>All calls that are held are handed on.\<close>

definition flush_held :: "(nat \<times> bytes \<Rightarrow> act) \<Rightarrow> 'a callw_scheme \<Rightarrow> 'a callw_scheme" where
  "flush_held f w = w\<lparr>held := held_clear (held w), todo := todo w @ map f (vHeld (held w))\<rparr>"

lemma flush_held_ok:
  assumes ok: "acct_ok w" and f: "\<And>i d. act_ids (f (i, d)) = {#i#}" "\<And>i d. act_data (f (i, d)) \<subseteq> {(i, d)}"
  shows "acct_ok (flush_held f w)"
proof -
  have "sum_list (map act_ids (map f v)) = mset (map fst v)" for v by (induction v) (auto simp: f(1))
  then have "places (flush_held f w) = places w" by (simp add: places_def flush_held_def held_clear_def)
  moreover have "\<Union> (act_data ` set (map f v)) \<subseteq> set v" for v using f(2) by fastforce
  ultimately show ?thesis using ok held_clear_ok [of "held w"] by (auto simp: acct_ok_def flush_held_def held_clear_def)
qed

end
