(* ===== verification/OI_RpcClient.thy ===== *)
theory OI_RpcClient
  imports OI_Held
begin

text \<open>
  The client manager of remote calls (cbaselib/proto/inc/oi_rpc_session_manager.h and
  cbaselib/proto/src/oi_rpc_session_manager.cpp): it has one connection to one server, keeps the calls that
  are made before the first connection (\<open>m_vHeldCalls\<close>) and the raw payloads that are sent while there is no
  connection (\<open>m_vPending\<close>), and hands both on when the connection comes up.

  Each definition is the part of a method under \<open>m_stClientLocker\<close>; what the method does afterwards is an
  action in \<open>todo\<close> (\<open>OI_Held\<close>) or, for \<open>OnAddSession\<close>, an entry of \<open>flush_due\<close>, so that the methods of
  several threads interleave at every point where the lock is free. The answers of the call table and of
  \<open>SendBytes\<close> are arguments. Payloads of \<open>SendRaw\<close> and \<open>SendRawOrPend\<close> that were pended are logged in
  \<open>pended\<close>, and in \<open>settled\<close> when a session took them (True) or \<open>FailHeldCalls\<close> discarded them (False).
\<close>

section \<open>State\<close>

record rpc_client = callw +
  m_iSessionId :: int
  m_bConnected :: bool
  m_bEverConnected :: bool
  m_vPending :: "bytes list"
  m_iPendingBytes :: nat
  iMaxSendQueueBytes :: nat
  bServiceDown :: bool
  sEndpoint :: string
  flush_due :: "int list"
  reconnects :: "int list"
  pended :: "bytes list"
  settled :: "(bool \<times> bytes) list"

definition ProtoClientManager :: "nat \<Rightarrow> string \<Rightarrow> rpc_client" where
  "ProtoClientManager q e =
    \<lparr>held = \<lparr>vHeld = [], mHeld = {}, iHeldBytes = 0, iHeldMaxCount = 65536, iHeldMaxBytes = 64 * 1024 * 1024\<rparr>,
     todo = [], sent = [], woken = [], gone = [], submitted = [],
     m_iSessionId = INVALID_SID, m_bConnected = False, m_bEverConnected = False, m_vPending = [], m_iPendingBytes = 0,
     iMaxSendQueueBytes = q, bServiceDown = False, sEndpoint = e, flush_due = [], reconnects = [], pended = [], settled = []\<rparr>"

definition connected :: "rpc_client \<Rightarrow> bool" where
  "connected c \<longleftrightarrow> m_bConnected c \<and> m_iSessionId c \<noteq> INVALID_SID"

definition ConnectedSid :: "rpc_client \<Rightarrow> int" where
  "ConnectedSid c = (if m_bConnected c then m_iSessionId c else INVALID_SID)"

definition UnavailableCode :: "rpc_client \<Rightarrow> int" where
  "UnavailableCode c = (if m_bConnected c then OI_ERR_FAIL else OI_ERR_CONNECT)"

section \<open>Raw payloads\<close>

text \<open>The session to send to, if any; the payload is then given to \<open>SendBytes\<close>.\<close>

definition SendRaw :: "rpc_client \<Rightarrow> int option" where
  "SendRaw c = (if connected c then Some (m_iSessionId c) else None)"

datatype raw_result = RawSend int | RawPended | RawRefused

definition SendRawOrPend :: "bytes \<Rightarrow> nat \<Rightarrow> rpc_client \<Rightarrow> raw_result \<times> rpc_client" where
  "SendRawOrPend d iMaxPendingBytes c =
    (if connected c then (RawSend (m_iSessionId c), c)
     else let m = min iMaxPendingBytes (iMaxSendQueueBytes c) in
       if m_iPendingBytes c > m \<or> length d > size_sub m (m_iPendingBytes c) then (RawRefused, c)
       else (RawPended, c\<lparr>m_vPending := m_vPending c @ [d], m_iPendingBytes := m_iPendingBytes c + length d, pended := pended c @ [d]\<rparr>))"

section \<open>Calls\<close>

text \<open>
  \<open>mark\<close> is the answer of \<open>MarkRpcAwaitingConnect\<close>, \<open>claim\<close> of \<open>ClaimRpcSend\<close>. \<open>HoldCallLocked\<close> is None when
  the queue is full; a call that has timed out meanwhile is not kept.
\<close>

definition HoldCallLocked :: "bool \<Rightarrow> nat \<Rightarrow> bytes \<Rightarrow> rpc_client \<Rightarrow> rpc_client option" where
  "HoldCallLocked mark i d c =
    (if held_full d (held c) then None
     else if \<not> mark then Some (c\<lparr>gone := gone c @ [i]\<rparr>)
     else Some (c\<lparr>held := held_push i d (held c)\<rparr>))"

definition TryPendCall :: "bool \<Rightarrow> nat \<Rightarrow> bytes \<Rightarrow> rpc_client \<Rightarrow> bool \<times> rpc_client" where
  "TryPendCall mark i d c =
    (if m_bEverConnected c \<or> connected c then (False, c)
     else case HoldCallLocked mark i d (arrives i d c) of
         Some c' \<Rightarrow> (True, c')
       | None \<Rightarrow> (True, act_later (ActWake i OI_ERR_BUSY) (arrives i d c)))"

definition SubmitCall :: "bool \<Rightarrow> bool \<Rightarrow> nat \<Rightarrow> bytes \<Rightarrow> rpc_client \<Rightarrow> rpc_client" where
  "SubmitCall claim mark i d c0 = (let c = arrives i d c0 in
     if connected c then
       if \<not> claim then c\<lparr>gone := gone c @ [i]\<rparr> else act_later (ActSend (m_iSessionId c) i d) c
     else if \<not> m_bEverConnected c then
       (case HoldCallLocked mark i d c of
          Some c' \<Rightarrow> c'
        | None \<Rightarrow> act_later (ActWake i OI_ERR_BUSY) c)
     else act_later (ActWake i OI_ERR_CONNECT) c)"

definition Rpc_DropPendingCall :: "nat \<Rightarrow> rpc_client \<Rightarrow> rpc_client" where
  "Rpc_DropPendingCall i c = drop_held i c"

definition FlushHeldCalls :: "int \<Rightarrow> rpc_client \<Rightarrow> rpc_client" where
  "FlushHeldCalls s c = flush_held (\<lambda>(i, d). ActFlush s i d) c"

definition FailHeldCalls :: "rpc_client \<Rightarrow> rpc_client" where
  "FailHeldCalls c = (flush_held (\<lambda>(i, d). ActWake i OI_ERR_CONNECT) c)
     \<lparr>m_vPending := [], m_iPendingBytes := 0, settled := settled c @ map (Pair False) (m_vPending c)\<rparr>"

section \<open>The connection\<close>

definition Reconnect :: "int \<Rightarrow> rpc_client \<Rightarrow> rpc_client" where
  "Reconnect ms c = c\<lparr>reconnects := reconnects c @ [if ms > 0 then ms else 1]\<rparr>"

text \<open>The loop over \<open>m_vPending\<close>: \<open>acc k\<close> is the answer of the k-th \<open>SendBytes\<close>; what was taken and what is left.\<close>

fun send_pending :: "(nat \<Rightarrow> bool) \<Rightarrow> bytes list \<Rightarrow> nat \<Rightarrow> bytes list \<times> bytes list \<times> nat" where
  "send_pending acc [] n = ([], [], n)"
| "send_pending acc (d # ds) n =
    (if acc 0 then (case send_pending (\<lambda>k. acc (Suc k)) ds (size_sub n (length d)) of (a, r, m) \<Rightarrow> (d # a, r, m))
     else ([], d # ds, n))"

definition Rpc_OnAddSession :: "(nat \<Rightarrow> bool) \<Rightarrow> int \<Rightarrow> rpc_client \<Rightarrow> rpc_client" where
  "Rpc_OnAddSession acc s c = (case send_pending acc (m_vPending c) (m_iPendingBytes c) of (a, r, n) \<Rightarrow>
     c\<lparr>m_bConnected := True, m_iSessionId := s, m_vPending := r, m_iPendingBytes := n, m_bEverConnected := True,
       flush_due := flush_due c @ [s], settled := settled c @ map (Pair True) a\<rparr>)"

text \<open>The rest of \<open>OnAddSession\<close>, after the lock: the flush of the k-th session that waits for it.\<close>

definition Rpc_OnAddSession_flush :: "nat \<Rightarrow> rpc_client \<Rightarrow> rpc_client" where
  "Rpc_OnAddSession_flush k c =
    (if k < length (flush_due c)
     then (FlushHeldCalls (flush_due c ! k) c)\<lparr>flush_due := take k (flush_due c) @ drop (Suc k) (flush_due c)\<rparr>
     else c)"

definition Rpc_OnConnectFailed :: "bool \<Rightarrow> rpc_client \<Rightarrow> rpc_client" where
  "Rpc_OnConnectFailed auto_reconnect c = (if \<not> auto_reconnect \<or> bServiceDown c \<or> sEndpoint c = [] then FailHeldCalls c else Reconnect 2000 c)"

definition OnServiceDown :: "rpc_client \<Rightarrow> rpc_client" where
  "OnServiceDown c = FailHeldCalls c"

definition Rpc_OnDelSession :: "bool \<Rightarrow> int \<Rightarrow> string \<Rightarrow> rpc_client \<Rightarrow> rpc_client" where
  "Rpc_OnDelSession auto_reconnect s e c =
    (if m_iSessionId c = s then
       let c' = c\<lparr>m_iSessionId := INVALID_SID, m_bConnected := False\<rparr> in
       if auto_reconnect \<and> \<not> bServiceDown c \<and> sEndpoint c \<noteq> [] \<and> e = sEndpoint c then Reconnect 0 c' else c'
     else c)"

definition SetPendingCallLimits :: "nat \<Rightarrow> nat \<Rightarrow> rpc_client \<Rightarrow> rpc_client" where
  "SetPendingCallLimits n b c = c\<lparr>held := (held c)\<lparr>iHeldMaxCount := n, iHeldMaxBytes := b\<rparr>\<rparr>"

definition PendingCallLimits :: "rpc_client \<Rightarrow> nat \<times> nat" where
  "PendingCallLimits c = (iHeldMaxCount (held c), iHeldMaxBytes (held c))"

section \<open>All runs\<close>

text \<open>Call identifiers are those of the call table, which gives each of them once.\<close>

inductive client_step :: "rpc_client \<Rightarrow> rpc_client \<Rightarrow> bool" where
  raw: "client_step c (snd (SendRawOrPend d m c))"
| try_pend: "i \<notin> fst ` set (submitted c) \<Longrightarrow> client_step c (snd (TryPendCall mark i d c))"
| submit: "i \<notin> fst ` set (submitted c) \<Longrightarrow> client_step c (SubmitCall claim mark i d c)"
| drop: "client_step c (Rpc_DropPendingCall i c)"
| act: "client_step c (run_act k claim r c)"
| add: "client_step c (Rpc_OnAddSession acc s c)"
| flush: "client_step c (Rpc_OnAddSession_flush k c)"
| failed: "client_step c (Rpc_OnConnectFailed a c)"
| down: "client_step c (OnServiceDown (c\<lparr>bServiceDown := True\<rparr>))"
| del: "client_step c (Rpc_OnDelSession a s e c)"
| limits: "n < SIZE_MOD \<Longrightarrow> b < SIZE_MOD \<Longrightarrow> client_step c (SetPendingCallLimits n b c)"

inductive client_run :: "nat \<Rightarrow> string \<Rightarrow> rpc_client \<Rightarrow> bool" for q e where
  start: "client_run q e (ProtoClientManager q e)"
| step: "client_run q e c \<Longrightarrow> client_step c c' \<Longrightarrow> client_run q e c'"

text \<open>
  After the first connection nothing is held unless its flush is still due. The raw payloads that wait are
  counted exactly, within the send budget, and those that were pended are settled in their order.
\<close>

definition raw_ok :: "rpc_client \<Rightarrow> bool" where
  "raw_ok c \<longleftrightarrow> m_iPendingBytes c = sum_list (map length (m_vPending c)) \<and> m_iPendingBytes c \<le> iMaxSendQueueBytes c
     \<and> iMaxSendQueueBytes c < SIZE_MOD \<and> map snd (settled c) @ m_vPending c = pended c"

definition client_ok :: "rpc_client \<Rightarrow> bool" where
  "client_ok c \<longleftrightarrow> acct_ok c \<and> raw_ok c \<and> (m_bEverConnected c \<longrightarrow> flush_due c = [] \<longrightarrow> vHeld (held c) = [])
     \<and> (m_bConnected c \<longrightarrow> m_bEverConnected c) \<and> (flush_due c \<noteq> [] \<longrightarrow> m_bEverConnected c)"

section \<open>Every step keeps the invariant\<close>

lemma send_pending_split:
  "send_pending acc ds n = (a, r, m) \<Longrightarrow> n = sum_list (map length ds) \<Longrightarrow> n < SIZE_MOD \<Longrightarrow>
   ds = a @ r \<and> m = sum_list (map length r) \<and> m \<le> n"
proof (induction acc ds n arbitrary: a r m rule: send_pending.induct)
  case (2 acc d ds n)
  show ?case
  proof (cases "acc 0")
    case True
    obtain a' r' m' where s: "send_pending (\<lambda>k. acc (Suc k)) ds (size_sub n (length d)) = (a', r', m')" by (metis prod_cases3)
    have sub: "size_sub n (length d) = sum_list (map length ds)" "size_sub n (length d) < SIZE_MOD" using 2(3,4) by simp_all
    have "ds = a' @ r' \<and> m' = sum_list (map length r') \<and> m' \<le> size_sub n (length d)" by (rule 2(1) [OF True s sub])
    moreover have "a = d # a'" "r = r'" "m = m'" using 2(2) True s by auto
    ultimately show ?thesis using 2(3,4) sub by auto
  next
    case False
    then show ?thesis using 2 by auto
  qed
qed auto

text \<open>The views of the invariant: what a change of other fields keeps.\<close>

lemma acct_ok_same:
  "acct_ok w \<Longrightarrow> held v = held w \<Longrightarrow> todo v = todo w \<Longrightarrow> sent v = sent w \<Longrightarrow> woken v = woken w \<Longrightarrow> gone v = gone w \<Longrightarrow>
   submitted v = submitted w \<Longrightarrow> acct_ok v"
  by (simp add: acct_ok_def places_def)

lemma raw_ok_same:
  "raw_ok c \<Longrightarrow> m_vPending c' = m_vPending c \<Longrightarrow> m_iPendingBytes c' = m_iPendingBytes c \<Longrightarrow> iMaxSendQueueBytes c' = iMaxSendQueueBytes c \<Longrightarrow>
   settled c' = settled c \<Longrightarrow> pended c' = pended c \<Longrightarrow> raw_ok c'"
  by (simp add: raw_ok_def)

lemma client_start_ok: "q < SIZE_MOD \<Longrightarrow> client_ok (ProtoClientManager q e)"
  by (simp add: client_ok_def acct_ok_def places_def held_ok_def held_sum_def raw_ok_def ProtoClientManager_def)

lemma SendRawOrPend_ok:
  assumes ok: "client_ok c"
  shows "client_ok (snd (SendRawOrPend d m c))"
proof -
  let ?m = "min m (iMaxSendQueueBytes c)"
  have raw: "raw_ok (snd (SendRawOrPend d m c))"
  proof (cases "connected c \<or> m_iPendingBytes c > ?m \<or> length d > size_sub ?m (m_iPendingBytes c)")
    case True
    then show ?thesis using ok by (auto simp: SendRawOrPend_def Let_def client_ok_def)
  next
    case False
    have q: "?m < SIZE_MOD" using ok unfolding client_ok_def raw_ok_def by linarith
    then have "m_iPendingBytes c + length d \<le> ?m" using False size_sub_le [of "m_iPendingBytes c" ?m] by linarith
    then show ?thesis using ok False by (auto simp: SendRawOrPend_def Let_def client_ok_def raw_ok_def)
  qed
  have "acct_ok (snd (SendRawOrPend d m c))"
    by (rule acct_ok_same [of c]) (use ok in \<open>auto simp: client_ok_def SendRawOrPend_def Let_def\<close>)
  then show ?thesis using raw ok by (auto simp: client_ok_def SendRawOrPend_def Let_def)
qed

lemma HoldCallLocked_ok:
  assumes "HoldCallLocked mark i d (arrives i d c) = Some c'" and "client_ok c" and "i \<notin> fst ` set (submitted c)" and "\<not> m_bEverConnected c"
  shows "client_ok c'"
proof -
  have a: "acct_ok c" using assms(2) by (simp add: client_ok_def)
  have f: "\<not> held_full d (held c)" using assms(1) by (auto simp: HoldCallLocked_def arrives_def split: if_splits)
  have "acct_ok c'"
    using assms(1) arrives_gone [OF a assms(3), of d] arrives_held [OF a assms(3) f]
    by (auto simp: HoldCallLocked_def arrives_def split: if_splits)
  moreover have "raw_ok c'" using assms(1,2) by (auto simp: HoldCallLocked_def arrives_def client_ok_def raw_ok_def split: if_splits)
  moreover have "m_bEverConnected c' = m_bEverConnected c" "m_bConnected c' = m_bConnected c" "flush_due c' = flush_due c"
    using assms(1) by (auto simp: HoldCallLocked_def arrives_def split: if_splits)
  ultimately show ?thesis using assms(2,4) by (simp add: client_ok_def)
qed

lemma later_ok:
  assumes "client_ok c" and "i \<notin> fst ` set (submitted c)" and "act_ids a = {#i#}" and "act_data a \<subseteq> {(i, d)}"
  shows "client_ok (act_later a (arrives i d c))"
proof -
  have "acct_ok (act_later a (arrives i d c))" by (rule arrives_act) (use assms in \<open>simp_all add: client_ok_def\<close>)
  then show ?thesis using assms(1) by (simp add: client_ok_def raw_ok_def act_later_def arrives_def)
qed

lemma SubmitCall_ok:
  assumes "client_ok c" and "i \<notin> fst ` set (submitted c)"
  shows "client_ok (SubmitCall claim mark i d c)"
proof -
  have gone: "client_ok ((arrives i d c)\<lparr>gone := gone c @ [i]\<rparr>)"
    using arrives_gone [OF _ assms(2), of d] assms(1) by (simp add: client_ok_def raw_ok_def arrives_def)
  show ?thesis
    using later_ok [OF assms, of _ d] HoldCallLocked_ok [OF _ assms] gone
    by (auto simp: SubmitCall_def Let_def arrives_def split: option.splits)
qed

lemma TryPendCall_ok:
  assumes "client_ok c" and "i \<notin> fst ` set (submitted c)"
  shows "client_ok (snd (TryPendCall mark i d c))"
  using later_ok [OF assms, of _ d] HoldCallLocked_ok [OF _ assms] assms(1)
  by (auto simp: TryPendCall_def split: option.splits)

lemma run_act_keeps:
  "m_bEverConnected (run_act k claim r c) = m_bEverConnected c" "m_bConnected (run_act k claim r c) = m_bConnected c"
  "flush_due (run_act k claim r c) = flush_due c" "held (run_act k claim r c) = held c" "raw_ok (run_act k claim r c) = raw_ok c"
  by (cases "todo c ! k"; simp add: run_act_def take_act_def send_claimed_def raw_ok_def)+

lemma act_ok: "client_ok c \<Longrightarrow> client_ok (run_act k claim r c)"
  using run_act_ok [of c] by (simp add: client_ok_def run_act_keeps)

lemma Rpc_DropPendingCall_ok:
  assumes "client_ok c"
  shows "client_ok (Rpc_DropPendingCall i c)"
proof -
  have "held_ok (held c)" using assms by (simp add: client_ok_def acct_ok_def)
  from held_drop_eq(1) [OF this]
  show ?thesis using assms drop_held_ok [of c i]
    by (auto simp: client_ok_def Rpc_DropPendingCall_def raw_ok_def drop_held_def)
qed

lemma flush_all:
  assumes "acct_ok c" and "\<And>i d. act_ids (f (i, d)) = {#i#}" "\<And>i d. act_data (f (i, d)) \<subseteq> {(i, d)}"
  shows "acct_ok (flush_held f c)" "vHeld (held (flush_held f c)) = []"
  using flush_held_ok [OF assms] by (simp_all add: flush_held_def held_clear_def)

lemma FailHeldCalls_ok:
  assumes ok: "client_ok c"
  shows "client_ok (FailHeldCalls c)"
proof -
  let ?f = "\<lambda>(i, d). ActWake i OI_ERR_CONNECT"
  have f: "acct_ok (flush_held ?f c)" "vHeld (held (flush_held ?f c)) = []" by (rule flush_all; use ok in \<open>simp add: client_ok_def\<close>)+
  have "acct_ok (FailHeldCalls c)" by (rule acct_ok_same [OF f(1)]) (simp_all add: FailHeldCalls_def)
  moreover have "raw_ok (FailHeldCalls c)" using ok by (simp add: client_ok_def raw_ok_def FailHeldCalls_def flush_held_def o_def)
  moreover have "vHeld (held (FailHeldCalls c)) = []" using f(2) by (simp add: FailHeldCalls_def)
  ultimately show ?thesis using ok by (simp add: client_ok_def FailHeldCalls_def flush_held_def)
qed

lemma flush_step_ok:
  assumes ok: "client_ok c"
  shows "client_ok (Rpc_OnAddSession_flush k c)"
proof (cases "k < length (flush_due c)")
  case True
  let ?f = "\<lambda>(i, d). ActFlush (flush_due c ! k) i d"
  have f: "acct_ok (flush_held ?f c)" "vHeld (held (flush_held ?f c)) = []" by (rule flush_all; use ok in \<open>simp add: client_ok_def\<close>)+
  have "acct_ok (Rpc_OnAddSession_flush k c)"
    by (rule acct_ok_same [OF f(1)]) (use True in \<open>simp_all add: Rpc_OnAddSession_flush_def FlushHeldCalls_def\<close>)
  moreover have "raw_ok (Rpc_OnAddSession_flush k c)"
    using ok True by (simp add: client_ok_def raw_ok_def Rpc_OnAddSession_flush_def FlushHeldCalls_def flush_held_def)
  moreover have "vHeld (held (Rpc_OnAddSession_flush k c)) = []" using True f(2) by (simp add: Rpc_OnAddSession_flush_def FlushHeldCalls_def)
  ultimately show ?thesis using ok True by (auto simp: client_ok_def Rpc_OnAddSession_flush_def FlushHeldCalls_def flush_held_def)
qed (use ok in \<open>simp add: Rpc_OnAddSession_flush_def\<close>)

lemma Rpc_OnAddSession_ok:
  assumes ok: "client_ok c"
  shows "client_ok (Rpc_OnAddSession acc s c)"
proof -
  obtain a r n where s: "send_pending acc (m_vPending c) (m_iPendingBytes c) = (a, r, n)" by (metis prod_cases3)
  have b: "m_iPendingBytes c = sum_list (map length (m_vPending c))" "m_iPendingBytes c < SIZE_MOD"
    using ok unfolding client_ok_def raw_ok_def by linarith+
  note p = send_pending_split [OF s b]
  have "acct_ok (Rpc_OnAddSession acc s c)" by (rule acct_ok_same [of c]) (use ok s in \<open>simp_all add: client_ok_def Rpc_OnAddSession_def\<close>)
  moreover have "raw_ok (Rpc_OnAddSession acc s c)" using ok p s by (auto simp: client_ok_def raw_ok_def Rpc_OnAddSession_def o_def)
  ultimately show ?thesis using s by (simp add: client_ok_def Rpc_OnAddSession_def)
qed

lemma view_ok:
  "client_ok (c\<lparr>reconnects := l\<rparr>) = client_ok c" "client_ok (c\<lparr>bServiceDown := x\<rparr>) = client_ok c"
  "client_ok c \<Longrightarrow> client_ok (c\<lparr>m_iSessionId := s, m_bConnected := False\<rparr>)"
  by (simp_all add: client_ok_def acct_ok_def places_def raw_ok_def)

lemma Reconnect_ok: "client_ok (Reconnect ms c) = client_ok c"
  by (simp add: Reconnect_def view_ok)

lemma Rpc_OnDelSession_ok: "client_ok c \<Longrightarrow> client_ok (Rpc_OnDelSession a s e c)"
  by (simp add: Rpc_OnDelSession_def Let_def Reconnect_ok view_ok)

lemma down_ok: "client_ok c \<Longrightarrow> client_ok (OnServiceDown (c\<lparr>bServiceDown := True\<rparr>))"
  by (simp add: OnServiceDown_def FailHeldCalls_ok view_ok)

lemma limits_ok: "client_ok c \<Longrightarrow> b < SIZE_MOD \<Longrightarrow> client_ok (SetPendingCallLimits n b c)"
  by (simp add: client_ok_def acct_ok_def places_def held_ok_def raw_ok_def SetPendingCallLimits_def)

lemma client_step_ok: "client_step c c' \<Longrightarrow> client_ok c \<Longrightarrow> client_ok c'"
proof (induction rule: client_step.induct)
  case (failed c a)
  then show ?case by (simp add: Rpc_OnConnectFailed_def FailHeldCalls_ok Reconnect_ok)
qed (simp_all add: SendRawOrPend_ok TryPendCall_ok SubmitCall_ok Rpc_DropPendingCall_ok act_ok Rpc_OnAddSession_ok flush_step_ok down_ok Rpc_OnDelSession_ok limits_ok)

lemma client_run_ok: "client_run q e c \<Longrightarrow> q < SIZE_MOD \<Longrightarrow> client_ok c"
  by (induction rule: client_run.induct) (auto simp: client_start_ok intro: client_step_ok)

section \<open>Properties\<close>

text \<open>
  C6: in every run of the client manager, whatever the order in which its methods, the actions they leave and the
  flush after a connection interleave, each submitted call is in exactly one place: held, about to be sent or
  completed, sent, completed with an error, or no longer known to the call table. A payload that was sent is
  the one that was submitted. Once a connection was made, its flush and the actions are done, no call waits:
  each of them was sent, completed or had left the table.
\<close>

theorem client_calls_accounted:
  assumes "client_run q e c" and "q < SIZE_MOD"
  shows "places c = mset (map fst (submitted c)) \<and> distinct (map fst (submitted c)) \<and> snd ` set (sent c) \<subseteq> set (submitted c)
    \<and> (m_bEverConnected c \<and> flush_due c = [] \<and> todo c = [] \<longrightarrow>
         mset (map fst (submitted c)) = mset (map (fst \<circ> snd) (sent c)) + mset (map fst (woken c)) + mset (gone c))"
proof -
  note ok = client_run_ok [OF assms]
  have "places c = mset (map fst (submitted c))" "distinct (map fst (submitted c))" "snd ` set (sent c) \<subseteq> set (submitted c)"
    using ok by (simp_all add: client_ok_def acct_ok_def)
  moreover have "m_bEverConnected c \<and> flush_due c = [] \<longrightarrow> vHeld (held c) = []" using ok by (simp add: client_ok_def)
  ultimately show ?thesis by (auto simp: places_def)
qed

lemmas client_eval = ProtoClientManager_def connected_def SubmitCall_def HoldCallLocked_def Rpc_OnAddSession_def Rpc_OnAddSession_flush_def FlushHeldCalls_def
  FailHeldCalls_def SendRawOrPend_def arrives_def act_later_def held_full_def held_push_def held_clear_def flush_held_def run_act_def take_act_def send_claimed_def

definition client_demo1 :: "rpc_client" where
  "client_demo1 = SubmitCall True True 2 ''bb'' (SubmitCall True True 1 ''a'' (ProtoClientManager 100 ''10.0.0.1:80''))"

definition client_demo2 :: "rpc_client" where
  "client_demo2 = Rpc_OnAddSession_flush 0 (SubmitCall True True 3 ''c'' (Rpc_OnAddSession (\<lambda>k. True) 5 client_demo1))"

definition client_demo3 :: "rpc_client" where
  "client_demo3 = run_act 0 True (- 5) (run_act 0 False 0 (run_act 0 True 0 client_demo2))"

lemma client_demo1_eq: "client_demo1 =
   (ProtoClientManager 100 ''10.0.0.1:80'')\<lparr>held := \<lparr>vHeld = [(1, ''a''), (2, ''bb'')], mHeld = {2, 1}, iHeldBytes = 3, iHeldMaxCount = 65536, iHeldMaxBytes = 67108864\<rparr>,
     submitted := [(1, ''a''), (2, ''bb'')]\<rparr>"
  by (simp add: client_demo1_def client_eval)

lemma client_demo2_eq: "client_demo2 =
   (ProtoClientManager 100 ''10.0.0.1:80'')\<lparr>todo := [ActSend 5 3 ''c'', ActFlush 5 1 ''a'', ActFlush 5 2 ''bb''],
     submitted := [(1, ''a''), (2, ''bb''), (3, ''c'')], m_bConnected := True, m_bEverConnected := True, m_iSessionId := 5\<rparr>"
  by (simp add: client_demo2_def client_demo1_eq client_eval)

lemma client_demo3_eq: "client_demo3 = client_demo2\<lparr>todo := [], sent := [(5, 3, ''c'')], gone := [1], woken := [(2, - 5)]\<rparr>"
  by (simp add: client_demo3_def client_demo2_eq client_eval)

lemma client_demo_run: "client_run 100 ''10.0.0.1:80'' client_demo3"
proof -
  have "client_run 100 ''10.0.0.1:80'' client_demo1"
    unfolding client_demo1_def
    by (rule client_run.step, rule client_run.step, rule client_run.start; rule submit; simp add: client_eval)
  then have "client_run 100 ''10.0.0.1:80'' (Rpc_OnAddSession (\<lambda>k. True) 5 client_demo1)" by (rule client_run.step) (rule add)
  then have "client_run 100 ''10.0.0.1:80'' (SubmitCall True True 3 ''c'' (Rpc_OnAddSession (\<lambda>k. True) 5 client_demo1))"
    by (rule client_run.step) (rule submit, simp add: client_demo1_eq client_eval)
  then have "client_run 100 ''10.0.0.1:80'' client_demo2" unfolding client_demo2_def by (rule client_run.step) (rule flush)
  then show ?thesis unfolding client_demo3_def by (meson client_run.step act)
qed

theorem client_calls_accounted_witness:
  "mset (map fst (submitted client_demo3)) = {#3#} + {#2#} + {#1#} \<and> sent client_demo3 = [(5, 3, ''c'')] \<and> woken client_demo3 = [(2, - 5)] \<and> gone client_demo3 = [1]"
proof -
  have "m_bEverConnected client_demo3 \<and> flush_due client_demo3 = [] \<and> todo client_demo3 = []"
    by (simp add: client_demo3_eq client_demo2_eq ProtoClientManager_def)
  then have "mset (map fst (submitted client_demo3)) = mset (map (fst \<circ> snd) (sent client_demo3)) + mset (map fst (woken client_demo3)) + mset (gone client_demo3)"
    using client_calls_accounted [OF client_demo_run] by simp
  then show ?thesis by (simp add: client_demo3_eq)
qed

text \<open>
  Raw payloads that are sent before there is a connection wait within the send budget of a session, and their
  bytes are counted exactly. They leave in the order in which they were accepted, each at most once: taken by
  a session, or discarded when the connection is given up.
\<close>

theorem pended_settled_in_order:
  assumes "client_run q e c" and "q < SIZE_MOD"
  shows "map snd (settled c) @ m_vPending c = pended c \<and> m_iPendingBytes c = sum_list (map length (m_vPending c))
    \<and> m_iPendingBytes c \<le> iMaxSendQueueBytes c"
  using client_run_ok [OF assms] by (simp add: client_ok_def raw_ok_def)

definition raw_demo :: "rpc_client" where
  "raw_demo = Rpc_OnAddSession (\<lambda>k. k = 0) 5 (snd (SendRawOrPend ''bb'' 9 (snd (SendRawOrPend ''a'' 9 (ProtoClientManager 100 ''x'')))))"

lemma raw_demo_run: "client_run 100 ''x'' raw_demo"
  unfolding raw_demo_def by (meson client_run.intros raw add)

theorem pended_settled_in_order_witness: "settled raw_demo = [(True, ''a'')] \<and> map snd (settled raw_demo) @ m_vPending raw_demo = [''a'', ''bb'']"
  using pended_settled_in_order [OF raw_demo_run] by (simp add: raw_demo_def client_eval Let_def)

end
