(* ===== verification/OI_Route.thy ===== *)
theory OI_Route
  imports OI_Held OI_NetAddr
begin

text \<open>
  A routed connection (\<open>RouteConnection\<close> and \<open>RouteConnector\<close> of cbaselib/proto/src/oi_rpc_route.cpp): the calls
  to one address share one connection, which is made on demand on the poll thread and retired when the pool
  has no more use for it.

  \<open>Submit\<close>, \<open>Drop\<close>, \<open>Disconnected\<close> and \<open>Ensure\<close> run on any thread; each definition is the part under the mutex,
  what follows is an action in \<open>todo\<close> (\<open>OI_Held\<close>). The poll thread runs \<open>Begin\<close>, the callback of the resolver,
  the connector and \<open>Retire\<close>; \<open>pc\<close> is where it stands between the parts that need the mutex, so that other
  threads interleave there too. \<open>posted\<close> counts the requests of \<open>Begin\<close> that wait in the poll loop and
  \<open>resolving\<close> the lookups whose callback is still to come. What the system answers (the lookup, the
  socket, \<open>Adopt\<close>) is an argument; a failing allocation, which the code reports as an exception, is not modelled.
\<close>

section \<open>State\<close>

datatype loop_pc = PcIdle | PcResolve | PcFinish int

record route_conn = callw +
  sPort :: string
  iSessionId :: int
  bConnecting :: bool
  bPosted :: bool
  bRetired :: bool
  pConnector :: bool
  posted :: nat
  resolving :: nat
  pc :: loop_pc
  closed :: "int list"

definition RouteConnection :: "string \<Rightarrow> nat \<Rightarrow> nat \<Rightarrow> route_conn" where
  "RouteConnection p n b =
    \<lparr>held = \<lparr>vHeld = [], mHeld = {}, iHeldBytes = 0, iHeldMaxCount = n, iHeldMaxBytes = b\<rparr>,
     todo = [], sent = [], woken = [], gone = [], submitted = [],
     sPort = p, iSessionId = INVALID_SID, bConnecting = False, bPosted = False, bRetired = False, pConnector = False,
     posted = 0, resolving = 0, pc = PcIdle, closed = []\<rparr>"

section \<open>Calls\<close>

definition Route_Submit :: "bool \<Rightarrow> bool \<Rightarrow> nat \<Rightarrow> bytes \<Rightarrow> route_conn \<Rightarrow> route_conn" where
  "Route_Submit claim mark i d c0 = (let c = arrives i d c0 in
     if bRetired c then act_later (ActWake i OI_ERR_CONNECT) c
     else if iSessionId c \<noteq> INVALID_SID then
       if \<not> claim then c\<lparr>gone := gone c @ [i]\<rparr> else act_later (ActSend (iSessionId c) i d) c
     else if held_full d (held c) then act_later (ActWake i OI_ERR_BUSY) c
     else if mark then act_later ActEnsure (c\<lparr>held := held_push i d (held c)\<rparr>)
     else c\<lparr>gone := gone c @ [i]\<rparr>)"

definition Drop :: "nat \<Rightarrow> route_conn \<Rightarrow> route_conn" where
  "Drop i c = drop_held i c"

definition Route_Finish :: "int \<Rightarrow> route_conn \<Rightarrow> route_conn" where
  "Route_Finish s c = (flush_held (\<lambda>(i, d). if s = INVALID_SID then ActWake i OI_ERR_CONNECT else ActFlush s i d) c)
     \<lparr>bConnecting := False, iSessionId := s, pc := PcIdle\<rparr>"

definition Disconnected :: "int \<Rightarrow> route_conn \<Rightarrow> route_conn" where
  "Disconnected s c = (if iSessionId c = s then c\<lparr>iSessionId := INVALID_SID\<rparr> else c)"

section \<open>The connection\<close>

definition Ensure :: "route_conn \<Rightarrow> route_conn" where
  "Ensure c = (if bRetired c \<or> bConnecting c \<or> bPosted c \<or> iSessionId c \<noteq> INVALID_SID then c
     else c\<lparr>bPosted := True, posted := posted c + 1\<rparr>)"

text \<open>The request that waits in the poll loop is run; then the port is checked and the address is looked up.\<close>

definition Begin :: "route_conn \<Rightarrow> route_conn" where
  "Begin c0 = (let c = c0\<lparr>posted := posted c0 - 1, bPosted := False\<rparr> in
     if bRetired c \<or> bConnecting c \<or> iSessionId c \<noteq> INVALID_SID then c
     else c\<lparr>bConnecting := True, pc := PcResolve\<rparr>)"

definition port_valid :: "string \<Rightarrow> bool" where
  "port_valid p = (case strtol (c_str p) of (iPort, pEnd) \<Rightarrow> p \<noteq> [] \<and> pEnd = [] \<and> 1 \<le> iPort \<and> iPort \<le> 65535)"

definition Begin_resolve :: "route_conn \<Rightarrow> route_conn" where
  "Begin_resolve c = (if port_valid (sPort c) then c\<lparr>resolving := resolving c + 1, pc := PcIdle\<rparr> else c\<lparr>pc := PcFinish INVALID_SID\<rparr>)"

text \<open>
  What \<open>Connect\<close> meets: no socket, a connection at once (with the session that \<open>Adopt\<close> made of it, or
  \<open>INVALID_SID\<close>), one in progress (with whether the poll loop took the connector), or an error.
\<close>

datatype connect_result = ConnNoSocket | ConnDone int | ConnInProgress bool | ConnFailed

fun Route_Connect :: "connect_result \<Rightarrow> route_conn \<Rightarrow> route_conn" where
  "Route_Connect ConnNoSocket c = c\<lparr>pc := PcFinish INVALID_SID\<rparr>"
| "Route_Connect (ConnDone s) c = c\<lparr>pc := PcFinish s\<rparr>"
| "Route_Connect (ConnInProgress token) c = (if token then c\<lparr>pConnector := True\<rparr> else c\<lparr>pc := PcFinish INVALID_SID\<rparr>)"
| "Route_Connect ConnFailed c = c\<lparr>pc := PcFinish INVALID_SID\<rparr>"

definition Route_OnResolved :: "bool \<Rightarrow> connect_result \<Rightarrow> route_conn \<Rightarrow> route_conn" where
  "Route_OnResolved bOk res c0 = (let c = c0\<lparr>resolving := resolving c0 - 1\<rparr> in
     if \<not> bOk \<or> bRetired c then c\<lparr>pc := PcFinish INVALID_SID\<rparr> else Route_Connect res c)"

text \<open>
  The connector is writable: \<open>err\<close> is the error of the socket, None while the connection is in progress, and \<open>s\<close>
  the session that \<open>Adopt\<close> made of the duplicate of the socket, or \<open>INVALID_SID\<close>.
\<close>

definition Route_DataOut :: "int option \<Rightarrow> int \<Rightarrow> route_conn \<Rightarrow> route_conn" where
  "Route_DataOut err s c = (case err of
      None \<Rightarrow> c
    | Some e \<Rightarrow> c\<lparr>pConnector := False, pc := PcFinish (if e \<noteq> 0 then INVALID_SID else s)\<rparr>)"

definition Retire :: "route_conn \<Rightarrow> route_conn" where
  "Retire c = c\<lparr>bRetired := True, pConnector := False,
     closed := closed c @ (if iSessionId c \<noteq> INVALID_SID then [iSessionId c] else []), pc := PcFinish INVALID_SID\<rparr>"

definition route_act :: "nat \<Rightarrow> bool \<Rightarrow> int \<Rightarrow> route_conn \<Rightarrow> route_conn" where
  "route_act k claim r c = (if k < length (todo c) \<and> todo c ! k = ActEnsure then Ensure (take_act k c) else run_act k claim r c)"

section \<open>All runs\<close>

inductive route_step :: "route_conn \<Rightarrow> route_conn \<Rightarrow> bool" where
  submit: "i \<notin> fst ` set (submitted c) \<Longrightarrow> route_step c (Route_Submit claim mark i d c)"
| drop: "route_step c (Drop i c)"
| act: "route_step c (route_act k claim r c)"
| ensure: "route_step c (Ensure c)"
| disconnected: "route_step c (Disconnected s c)"
| post: "pc c = PcIdle \<Longrightarrow> posted c > 0 \<Longrightarrow> route_step c (Begin c)"
| resolve: "pc c = PcResolve \<Longrightarrow> route_step c (Begin_resolve c)"
| resolved: "pc c = PcIdle \<Longrightarrow> resolving c > 0 \<Longrightarrow> route_step c (Route_OnResolved bOk res c)"
| out: "pc c = PcIdle \<Longrightarrow> pConnector c \<Longrightarrow> route_step c (Route_DataOut err s c)"
| finish: "pc c = PcFinish s \<Longrightarrow> route_step c (Route_Finish s c)"
| retire: "pc c = PcIdle \<Longrightarrow> route_step c (Retire c)"

inductive route_run :: "route_conn \<Rightarrow> bool" where
  start: "b < SIZE_MOD \<Longrightarrow> route_run (RouteConnection p n b)"
| step: "route_run c \<Longrightarrow> route_step c c' \<Longrightarrow> route_run c'"

text \<open>The attempts that are under way: a lookup, a connector, or a part of the poll thread.\<close>

definition attempts :: "route_conn \<Rightarrow> nat" where
  "attempts c = resolving c + (if pConnector c then 1 else 0) + (if pc c \<noteq> PcIdle then 1 else 0)"

definition finishing :: "route_conn \<Rightarrow> bool" where
  "finishing c \<longleftrightarrow> pc c = PcFinish INVALID_SID"

definition conn_ok :: "route_conn \<Rightarrow> bool" where
  "conn_ok c \<longleftrightarrow> posted c = (if bPosted c then 1 else 0) \<and> (\<not> bRetired c \<longrightarrow> attempts c = (if bConnecting c then 1 else 0))
     \<and> (bRetired c \<longrightarrow> \<not> pConnector c \<and> (pc c = PcIdle \<or> finishing c))
     \<and> (bRetired c \<and> \<not> finishing c \<longrightarrow> \<not> bConnecting c \<and> iSessionId c = INVALID_SID)
     \<and> (\<not> bRetired c \<and> bConnecting c \<longrightarrow> iSessionId c = INVALID_SID)"

definition wait_ok :: "route_conn \<Rightarrow> bool" where
  "wait_ok c \<longleftrightarrow> vHeld (held c) \<noteq> [] \<longrightarrow>
     (if bRetired c then finishing c else iSessionId c = INVALID_SID \<and> (bPosted c \<or> bConnecting c \<or> ActEnsure \<in> set (todo c)))"

definition route_ok :: "route_conn \<Rightarrow> bool" where
  "route_ok c \<longleftrightarrow> acct_ok c \<and> conn_ok c \<and> wait_ok c"

section \<open>Every step keeps the invariant\<close>

lemma acct_ok_view:
  "acct_ok (w\<lparr>iSessionId := s\<rparr>) = acct_ok w" "acct_ok (w\<lparr>bConnecting := b\<rparr>) = acct_ok w" "acct_ok (w\<lparr>bPosted := b\<rparr>) = acct_ok w"
  "acct_ok (w\<lparr>bRetired := b\<rparr>) = acct_ok w" "acct_ok (w\<lparr>pConnector := b\<rparr>) = acct_ok w" "acct_ok (w\<lparr>posted := n\<rparr>) = acct_ok w"
  "acct_ok (w\<lparr>resolving := n\<rparr>) = acct_ok w" "acct_ok (w\<lparr>pc := p\<rparr>) = acct_ok w" "acct_ok (w\<lparr>closed := l\<rparr>) = acct_ok w"
  by (simp_all add: acct_ok_def places_def)

lemmas loop_ops = Begin_def Begin_resolve_def Route_OnResolved_def Route_DataOut_def Retire_def Ensure_def Disconnected_def
lemmas conn_defs = conn_ok_def attempts_def finishing_def

lemma Route_Connect_acct: "acct_ok (Route_Connect res c) = acct_ok c"
  by (cases res) (simp_all add: acct_ok_view)

lemma loop_acct:
  "acct_ok (Begin c) = acct_ok c" "acct_ok (Begin_resolve c) = acct_ok c" "acct_ok (Route_OnResolved b res c) = acct_ok c"
  "acct_ok (Route_DataOut err s c) = acct_ok c" "acct_ok (Retire c) = acct_ok c" "acct_ok (Ensure c) = acct_ok c" "acct_ok (Disconnected s c) = acct_ok c"
  by (simp_all add: loop_ops acct_ok_view Route_Connect_acct Let_def split: option.splits)

lemma start_route_ok: "b < SIZE_MOD \<Longrightarrow> route_ok (RouteConnection p n b)"
  by (simp add: route_ok_def acct_ok_def places_def held_ok_def held_sum_def conn_defs wait_ok_def RouteConnection_def)

text \<open>The steps of the poll thread.\<close>

lemma Begin_ok: "route_ok c \<Longrightarrow> pc c = PcIdle \<Longrightarrow> route_ok (Begin c)"
  unfolding route_ok_def loop_acct
  by (auto simp: conn_defs wait_ok_def Begin_def Let_def split: if_splits)

lemma Begin_resolve_ok: "route_ok c \<Longrightarrow> pc c = PcResolve \<Longrightarrow> route_ok (Begin_resolve c)"
  unfolding route_ok_def loop_acct
  by (auto simp: conn_defs wait_ok_def Begin_resolve_def split: if_splits)

lemma Route_OnResolved_ok: "route_ok c \<Longrightarrow> pc c = PcIdle \<Longrightarrow> resolving c > 0 \<Longrightarrow> route_ok (Route_OnResolved b res c)"
  unfolding route_ok_def loop_acct
  by (cases res) (auto simp: conn_defs wait_ok_def Route_OnResolved_def Let_def split: if_splits)

lemma Route_DataOut_ok: "route_ok c \<Longrightarrow> pc c = PcIdle \<Longrightarrow> pConnector c \<Longrightarrow> route_ok (Route_DataOut err s c)"
  unfolding route_ok_def loop_acct
  by (auto simp: conn_defs wait_ok_def Route_DataOut_def split: if_splits option.splits)

lemma Retire_ok: "route_ok c \<Longrightarrow> pc c = PcIdle \<Longrightarrow> route_ok (Retire c)"
  unfolding route_ok_def loop_acct
  by (auto simp: conn_defs wait_ok_def Retire_def split: if_splits)

lemma Route_Finish_ok:
  assumes ok: "route_ok c" and pc: "pc c = PcFinish s"
  shows "route_ok (Route_Finish s c)"
proof -
  let ?f = "\<lambda>(i, d). if s = INVALID_SID then ActWake i OI_ERR_CONNECT else ActFlush s i d"
  have "acct_ok (flush_held ?f c)" by (rule flush_held_ok) (use ok in \<open>simp_all add: route_ok_def\<close>)
  then have "acct_ok (Route_Finish s c)" by (simp add: Route_Finish_def acct_ok_view)
  moreover have "vHeld (held (Route_Finish s c)) = []" by (simp add: Route_Finish_def flush_held_def held_clear_def)
  moreover have "conn_ok (Route_Finish s c)" using ok pc by (auto simp: route_ok_def conn_defs Route_Finish_def flush_held_def split: if_splits)
  ultimately show ?thesis by (simp add: route_ok_def wait_ok_def)
qed

text \<open>The steps of the other threads.\<close>

lemma Disconnected_ok: "route_ok c \<Longrightarrow> route_ok (Disconnected s c)"
  unfolding route_ok_def loop_acct
  by (auto simp: conn_defs wait_ok_def Disconnected_def split: if_splits)

lemma Ensure_ok: "route_ok c \<Longrightarrow> route_ok (Ensure c)"
  unfolding route_ok_def loop_acct
  by (auto simp: conn_defs wait_ok_def Ensure_def split: if_splits)

lemma conn_ok_same:
  "conn_ok c \<Longrightarrow> iSessionId c' = iSessionId c \<Longrightarrow> bConnecting c' = bConnecting c \<Longrightarrow> bPosted c' = bPosted c \<Longrightarrow> bRetired c' = bRetired c \<Longrightarrow>
   pConnector c' = pConnector c \<Longrightarrow> posted c' = posted c \<Longrightarrow> resolving c' = resolving c \<Longrightarrow> pc c' = pc c \<Longrightarrow> conn_ok c'"
  by (simp add: conn_defs)

lemma wait_ok_same:
  "wait_ok c \<Longrightarrow> iSessionId c' = iSessionId c \<Longrightarrow> bConnecting c' = bConnecting c \<Longrightarrow> bPosted c' = bPosted c \<Longrightarrow> bRetired c' = bRetired c \<Longrightarrow>
   pc c' = pc c \<Longrightarrow> (vHeld (held c') \<noteq> [] \<longrightarrow> vHeld (held c) \<noteq> []) \<Longrightarrow> (ActEnsure \<in> set (todo c) \<longrightarrow> ActEnsure \<in> set (todo c')) \<Longrightarrow> wait_ok c'"
  by (auto simp: wait_ok_def finishing_def split: if_splits)

lemma Drop_ok:
  assumes ok: "route_ok c"
  shows "route_ok (Drop i c)"
proof -
  have "held_ok (held c)" using ok by (simp add: route_ok_def acct_ok_def)
  note v = held_drop_eq(1) [OF this, of i]
  have "acct_ok (Drop i c)" using drop_held_ok [of c i] ok by (simp add: route_ok_def Drop_def)
  moreover have "conn_ok (Drop i c)" by (rule conn_ok_same [of c]) (use ok in \<open>simp_all add: route_ok_def Drop_def drop_held_def\<close>)
  moreover have "wait_ok (Drop i c)" by (rule wait_ok_same [of c]) (use ok v in \<open>auto simp: route_ok_def Drop_def drop_held_def\<close>)
  ultimately show ?thesis by (simp add: route_ok_def)
qed

lemma Route_Submit_ok:
  assumes ok: "route_ok c" and new: "i \<notin> fst ` set (submitted c)"
  shows "route_ok (Route_Submit claim mark i d c)"
proof -
  have a: "acct_ok c" using ok by (simp add: route_ok_def)
  have "acct_ok (Route_Submit claim mark i d c)"
    using arrives_act [OF a new, of _ d] arrives_gone [OF a new, of d] act_later_ensure [OF arrives_held [OF a new, of d]]
    by (simp add: Route_Submit_def Let_def arrives_def)
  moreover have "conn_ok (Route_Submit claim mark i d c)"
    by (rule conn_ok_same [of c]) (use ok in \<open>simp_all add: route_ok_def Route_Submit_def Let_def arrives_def act_later_def\<close>)
  moreover have "wait_ok (Route_Submit claim mark i d c)"
    using ok by (auto simp: route_ok_def wait_ok_def finishing_def Route_Submit_def Let_def arrives_def act_later_def held_push_def split: if_splits)
  ultimately show ?thesis by (simp add: route_ok_def)
qed

lemma route_act_ok:
  assumes ok: "route_ok c"
  shows "route_ok (route_act k claim r c)"
proof (cases "k < length (todo c) \<and> todo c ! k = ActEnsure")
  case True
  have r: "run_act k claim r c = take_act k c" using True by (simp add: run_act_def)
  have "acct_ok (take_act k c)" using run_act_ok [of c k claim r] ok unfolding r by (simp add: route_ok_def)
  moreover have "conn_ok (take_act k c)" by (rule conn_ok_same [of c]) (use ok in \<open>simp_all add: route_ok_def take_act_def\<close>)
  moreover have "vHeld (held c) \<noteq> [] \<Longrightarrow> bRetired c \<Longrightarrow> finishing c" "vHeld (held c) \<noteq> [] \<Longrightarrow> \<not> bRetired c \<Longrightarrow> iSessionId c = INVALID_SID"
    using ok by (auto simp: route_ok_def wait_ok_def)
  ultimately show ?thesis using True
    by (auto simp: route_act_def route_ok_def loop_acct acct_ok_view wait_ok_def conn_defs Ensure_def take_act_def)
next
  case False
  have e: "ActEnsure \<in> set (todo (run_act k claim r c))" if "ActEnsure \<in> set (todo c)"
  proof (cases "k < length (todo c)")
    case True
    have "todo c = take k (todo c) @ todo c ! k # drop (Suc k) (todo c)" by (rule split_at [OF True])
    then have "ActEnsure \<in> set (take k (todo c) @ drop (Suc k) (todo c))" using that False True
      by (metis Un_iff list.set_intros(2) set_ConsD set_append)
    then show ?thesis using True by (cases "todo c ! k") (simp_all add: run_act_def take_act_def send_claimed_def)
  qed (use that in \<open>simp add: run_act_def\<close>)
  have "acct_ok (run_act k claim r c)" using run_act_ok [of c] ok by (simp add: route_ok_def)
  moreover have "conn_ok (run_act k claim r c)"
    by (rule conn_ok_same [of c]; cases "todo c ! k"; use ok in \<open>simp add: route_ok_def run_act_def take_act_def send_claimed_def\<close>)
  moreover have "wait_ok (run_act k claim r c)"
    by (rule wait_ok_same [of c]; cases "todo c ! k"; use ok e in \<open>simp add: route_ok_def run_act_def take_act_def send_claimed_def\<close>)
  ultimately show ?thesis using False by (auto simp: route_act_def route_ok_def)
qed

lemma route_step_ok: "route_step c c' \<Longrightarrow> route_ok c \<Longrightarrow> route_ok c'"
  by (induction rule: route_step.induct)
     (simp_all add: Route_Submit_ok Drop_ok route_act_ok Ensure_ok Disconnected_ok Begin_ok Begin_resolve_ok Route_OnResolved_ok Route_DataOut_ok Route_Finish_ok Retire_ok)

lemma route_run_ok: "route_run c \<Longrightarrow> route_ok c"
  by (induction rule: route_run.induct) (auto simp: start_route_ok intro: route_step_ok)

section \<open>Properties\<close>

text \<open>
  C4: in every run of a routed connection, with the threads that submit, drop and disconnect interleaved with the poll
  thread, each submitted call is in exactly one place, and a call that is held has someone who will end its
  wait: a request to connect that waits in the poll loop or is still to be posted, an attempt that is under
  way, or the end of the connection. Where nothing is under way any more, no call waits: each was sent,
  completed with an error, or had left the call table.
\<close>

theorem route_calls_settled:
  assumes "route_run c"
  shows "places c = mset (map fst (submitted c)) \<and> distinct (map fst (submitted c)) \<and> snd ` set (sent c) \<subseteq> set (submitted c)
    \<and> (vHeld (held c) \<noteq> [] \<longrightarrow> posted c > 0 \<or> attempts c > 0 \<or> ActEnsure \<in> set (todo c))
    \<and> (todo c = [] \<and> posted c = 0 \<and> attempts c = 0 \<longrightarrow>
         mset (map fst (submitted c)) = mset (map (fst \<circ> snd) (sent c)) + mset (map fst (woken c)) + mset (gone c))"
proof -
  note ok = route_run_ok [OF assms]
  have "places c = mset (map fst (submitted c))" "distinct (map fst (submitted c))" "snd ` set (sent c) \<subseteq> set (submitted c)"
    using ok by (simp_all add: route_ok_def acct_ok_def)
  moreover have w: "vHeld (held c) \<noteq> [] \<longrightarrow> posted c > 0 \<or> attempts c > 0 \<or> ActEnsure \<in> set (todo c)"
    using ok by (auto simp: route_ok_def wait_ok_def conn_ok_def attempts_def finishing_def split: if_splits)
  ultimately show ?thesis by (auto simp: places_def)
qed

lemmas route_eval = RouteConnection_def Route_Submit_def Route_Finish_def Disconnected_def Ensure_def Begin_def Begin_resolve_def Route_OnResolved_def Route_DataOut_def Retire_def
  route_act_def arrives_def act_later_def held_full_def held_push_def held_clear_def flush_held_def run_act_def take_act_def send_claimed_def Let_def

definition route_demo1 :: "route_conn" where
  "route_demo1 = Begin (route_act 0 True 0 (Route_Submit True True 2 ''bb'' (Route_Submit True True 1 ''a'' (RouteConnection ''80'' 10 100))))"

definition route_demo2 :: "route_conn" where
  "route_demo2 = Route_Finish 7 (Route_DataOut (Some 0) 7 (Route_OnResolved True (ConnInProgress True) (Begin_resolve route_demo1)))"

definition route_demo3 :: "route_conn" where
  "route_demo3 = route_act 0 True (- 5) (route_act 0 True 0 (route_act 0 True 0 route_demo2))"

lemma route_demo1_eq: "route_demo1 = (RouteConnection ''80'' 10 100)
    \<lparr>held := \<lparr>vHeld = [(1, ''a''), (2, ''bb'')], mHeld = {2, 1}, iHeldBytes = 3, iHeldMaxCount = 10, iHeldMaxBytes = 100\<rparr>,
     todo := [ActEnsure], submitted := [(1, ''a''), (2, ''bb'')], bConnecting := True, pc := PcResolve\<rparr>"
  by (simp add: route_demo1_def route_eval)

lemma port_80: "port_valid ''80''" by code_simp

lemma route_demo2_eq: "route_demo2 = (RouteConnection ''80'' 10 100)
    \<lparr>todo := [ActEnsure, ActFlush 7 1 ''a'', ActFlush 7 2 ''bb''], submitted := [(1, ''a''), (2, ''bb'')], iSessionId := 7\<rparr>"
  by (simp add: route_demo2_def route_demo1_eq route_eval port_80)

lemma route_demo3_eq: "route_demo3 = route_demo2\<lparr>todo := [], sent := [(7, 1, ''a'')], woken := [(2, - 5)]\<rparr>"
  by (simp add: route_demo3_def route_demo2_eq route_eval)

lemma route_demo_run: "route_run route_demo3"
proof -
  have "route_run (Route_Submit True True 2 ''bb'' (Route_Submit True True 1 ''a'' (RouteConnection ''80'' 10 100)))"
    by (rule route_run.step, rule route_run.step, rule route_run.start; (rule submit)?; simp add: route_eval)
  then have "route_run (route_act 0 True 0 (Route_Submit True True 2 ''bb'' (Route_Submit True True 1 ''a'' (RouteConnection ''80'' 10 100))))"
    by (rule route_run.step) (rule act)
  then have r: "route_run route_demo1" unfolding route_demo1_def by (rule route_run.step) (rule post; simp add: route_eval)
  then have "route_run (Begin_resolve route_demo1)" by (rule route_run.step) (rule resolve, simp add: route_demo1_eq)
  then have "route_run (Route_OnResolved True (ConnInProgress True) (Begin_resolve route_demo1))"
    by (rule route_run.step) (rule resolved; simp add: route_demo1_eq route_eval port_80)
  then have "route_run (Route_DataOut (Some 0) 7 (Route_OnResolved True (ConnInProgress True) (Begin_resolve route_demo1)))"
    by (rule route_run.step) (rule out; simp add: route_demo1_eq route_eval port_80)
  then have "route_run route_demo2" unfolding route_demo2_def
    by (rule route_run.step) (rule finish, simp add: route_demo1_eq route_eval port_80)
  then show ?thesis unfolding route_demo3_def by (meson route_run.step act)
qed

theorem route_calls_settled_witness:
  "mset (map fst (submitted route_demo3)) = {#1#} + {#2#} + {#} \<and> sent route_demo3 = [(7, 1, ''a'')] \<and> woken route_demo3 = [(2, - 5)]"
proof -
  have "todo route_demo3 = [] \<and> posted route_demo3 = 0 \<and> attempts route_demo3 = 0"
    by (simp add: route_demo3_eq route_demo2_eq RouteConnection_def attempts_def)
  then have "mset (map fst (submitted route_demo3)) = mset (map (fst \<circ> snd) (sent route_demo3)) + mset (map fst (woken route_demo3)) + mset (gone route_demo3)"
    using route_calls_settled [OF route_demo_run] by simp
  then show ?thesis by (simp add: route_demo3_eq route_demo2_eq RouteConnection_def)
qed

text \<open>
  A routed connection has at most one request to connect in the poll loop and, until it is retired, at most one
  attempt to connect under way, exactly while \<open>bConnecting\<close> is set, and none beside a session. Once it was
  retired and the poll thread is done with that, it has no session, no connector and no call that waits, and
  so it stays in every later state.
\<close>

theorem route_one_attempt:
  assumes "route_run c"
  shows "posted c \<le> 1 \<and> (\<not> bRetired c \<longrightarrow> attempts c = (if bConnecting c then 1 else 0))
    \<and> (\<not> bRetired c \<and> iSessionId c \<noteq> INVALID_SID \<longrightarrow> attempts c = 0 \<and> vHeld (held c) = [])
    \<and> (bRetired c \<and> pc c = PcIdle \<longrightarrow> iSessionId c = INVALID_SID \<and> \<not> pConnector c \<and> \<not> bConnecting c \<and> vHeld (held c) = [])
    \<and> (\<forall>c'. route_step c c' \<longrightarrow> bRetired c \<longrightarrow> bRetired c')"
proof -
  note ok = route_run_ok [OF assms]
  have r: "bRetired c'" if "route_step c c'" "bRetired c" for c'
    using that(1)
  proof cases
    case (act k claim r)
    then show ?thesis using that(2) by (cases "todo c ! k") (simp_all add: route_eval)
  next
    case (resolved bOk res)
    then show ?thesis using that(2) by (cases res) (simp_all add: route_eval)
  qed (use that(2) in \<open>simp_all add: route_eval Drop_def drop_held_def split: option.splits\<close>)
  have c: "conn_ok c" "wait_ok c" using ok by (simp_all add: route_ok_def)
  have "posted c \<le> 1" "\<not> bRetired c \<longrightarrow> attempts c = (if bConnecting c then 1 else 0)"
    "\<not> bRetired c \<and> iSessionId c \<noteq> INVALID_SID \<longrightarrow> \<not> bConnecting c"
    "bRetired c \<and> pc c = PcIdle \<longrightarrow> iSessionId c = INVALID_SID \<and> \<not> pConnector c \<and> \<not> bConnecting c"
    using c(1) by (auto simp: conn_ok_def finishing_def)
  moreover have "\<not> bRetired c \<and> iSessionId c \<noteq> INVALID_SID \<longrightarrow> vHeld (held c) = []" "bRetired c \<and> pc c = PcIdle \<longrightarrow> vHeld (held c) = []"
    using c(2) by (auto simp: wait_ok_def finishing_def split: if_splits)
  ultimately show ?thesis using r by auto
qed

definition route_demo4 :: "route_conn" where
  "route_demo4 = Route_Finish INVALID_SID (Retire route_demo3)"

theorem route_one_attempt_witness: "bRetired route_demo4 \<and> closed route_demo4 = [7] \<and> iSessionId route_demo4 = INVALID_SID \<and> vHeld (held route_demo4) = []"
proof -
  have "route_run (Retire route_demo3)"
    using route_demo_run by (rule route_run.step) (rule retire, simp add: route_demo3_eq route_demo2_eq RouteConnection_def)
  then have r: "route_run route_demo4" unfolding route_demo4_def by (rule route_run.step) (rule finish, simp add: Retire_def)
  have "bRetired route_demo4" "pc route_demo4 = PcIdle" "closed route_demo4 = [7]"
    by (simp_all add: route_demo4_def route_demo3_eq route_demo2_eq route_eval)
  then show ?thesis using route_one_attempt [OF r] by simp
qed

end
