(* ===== verification/OI_RouteTable.thy ===== *)
theory OI_RouteTable
  imports OI_Registry "HOL-Library.Multiset" "HOL-Library.Product_Lexorder"
begin

text \<open>
  Targets of remote calls such as \<open>name\<close>, \<open>name.zone\<close> and \<open>name.*\<close>, and the pool of routed connections (the second
  half of cbaselib/proto/src/oi_rpc_route.cpp). The routes that are chosen from them are in \<open>OI_Routes\<close>.

  A routed connection (\<open>OI_Route\<close>) is named by a number here. \<open>leases\<close> counts the references to it that
  callers and running handlers have (\<open>pLease\<close>), \<open>retired\<close> logs the connections that the pool retires and
  \<open>ensured\<close> those that \<open>ClientFor\<close> asks to connect.
\<close>

section \<open>Targets\<close>

definition token_char :: "char \<Rightarrow> bool" where
  "token_char ch \<longleftrightarrow> (CHR ''a'' \<le> ch \<and> ch \<le> CHR ''z'') \<or> (CHR ''A'' \<le> ch \<and> ch \<le> CHR ''Z'') \<or> (CHR ''0'' \<le> ch \<and> ch \<le> CHR ''9'')
     \<or> ch = CHR ''_'' \<or> ch = CHR ''-''"

definition ValidServiceToken :: "string \<Rightarrow> bool" where
  "ValidServiceToken s \<longleftrightarrow> s \<noteq> [] \<and> list_all token_char s"

record ParsedTarget =
  pt_sName :: string
  pt_sZone :: string
  pt_bAll :: bool

text \<open>None where \<open>ParseTarget\<close> returns false. The first dot splits the target; a second one is an error.\<close>

definition ParseTarget :: "string \<Rightarrow> ParsedTarget option" where
  "ParseTarget t =
    (if length t \<ge> 3 \<and> drop (length t - 2) t = ''.*'' then
       let n = take (length t - 2) t in if ValidServiceToken n then Some \<lparr>pt_sName = n, pt_sZone = [], pt_bAll = True\<rparr> else None
     else let n = takeWhile (\<lambda>ch. ch \<noteq> CHR ''.'') t in
       case dropWhile (\<lambda>ch. ch \<noteq> CHR ''.'') t of
         [] \<Rightarrow> if ValidServiceToken t then Some \<lparr>pt_sName = t, pt_sZone = [], pt_bAll = False\<rparr> else None
       | _ # z \<Rightarrow>
           if CHR ''.'' \<in> set z then None
           else if ValidServiceToken n \<and> ValidServiceToken z then Some \<lparr>pt_sName = n, pt_sZone = z, pt_bAll = False\<rparr> else None)"

datatype ServicePick = PickAny | PickZone | PickAll

datatype ServiceRouteStatus = RouteOk | RouteBadName | RouteWrongKind | RouteOffline | RouteTimeout | RouteBusy

fun RouteError :: "ServiceRouteStatus \<Rightarrow> int" where
  "RouteError RouteTimeout = OI_ERR_TIMEOUT"
| "RouteError RouteBusy = OI_ERR_BUSY"
| "RouteError RouteBadName = OI_ERR_FAIL"
| "RouteError RouteWrongKind = OI_ERR_FAIL"
| "RouteError RouteOk = OI_ERR_CONNECT"
| "RouteError RouteOffline = OI_ERR_CONNECT"

text \<open>Inl is the status of a target that is refused, Inr the name, the way to pick and the zone.\<close>

definition PrepareTarget :: "string \<Rightarrow> bool \<Rightarrow> ServiceRouteStatus + string \<times> ServicePick \<times> string" where
  "PrepareTarget t bBatch = (case ParseTarget t of
      None \<Rightarrow> Inl RouteBadName
    | Some p \<Rightarrow> if pt_bAll p \<noteq> bBatch then Inl RouteBadName
        else Inr (pt_sName p, if bBatch then PickAll else if pt_sZone p \<noteq> [] then PickZone else PickAny, pt_sZone p))"

fun zone_names :: "int list \<Rightarrow> string list option" where
  "zone_names [] = Some []"
| "zone_names (z # zs) = (if z < 0 then None else map_option (\<lambda>ns. to_string z # ns) (zone_names zs))"

definition PrepareZones :: "string \<Rightarrow> int list \<Rightarrow> ServiceRouteStatus + string list" where
  "PrepareZones n vZoneIds = (if \<not> ValidServiceToken n \<or> vZoneIds = [] then Inl RouteBadName
     else case zone_names vZoneIds of None \<Rightarrow> Inl RouteBadName | Some ns \<Rightarrow> Inr ns)"

section \<open>The pool of connections\<close>

text \<open>The limits a connection is made with, compared in this order (\<open>RoutePolicy::operator<\<close>).\<close>

type_synonym policy = "nat \<times> nat \<times> nat \<times> nat \<times> nat \<times> nat"
type_synonym route_key = "string \<times> string \<times> policy"

record pool_entry =
  pClient :: nat
  iIdleSince :: int

record route_pool =
  mClients :: "(route_key \<times> pool_entry) list"
  iMaxClients :: nat
  iEvicted :: nat
  iIdleMilliseconds :: int
  bStopped :: bool
  conns :: nat
  leases :: "nat list"
  retired :: "nat list"
  ensured :: "nat list"

text \<open>The limits come from the configuration; others than positive ones are refused with an exception.\<close>

definition RoutePool :: "int \<Rightarrow> int \<Rightarrow> route_pool option" where
  "RoutePool iLimit iIdle = (if iLimit \<le> 0 \<or> iIdle \<le> 0 then None
     else Some \<lparr>mClients = [], iMaxClients = nat iLimit, iEvicted = 0, iIdleMilliseconds = iIdle, bStopped = False,
       conns = 0, leases = [], retired = [], ensured = []\<rparr>)"

definition HasLease :: "nat \<Rightarrow> route_pool \<Rightarrow> bool" where
  "HasLease c P \<longleftrightarrow> c \<in> set (leases P)"

definition AcquireLease :: "nat \<Rightarrow> route_pool \<Rightarrow> route_pool" where
  "AcquireLease c P = P\<lparr>leases := c # leases P\<rparr>"

definition release_lease :: "nat \<Rightarrow> route_pool \<Rightarrow> route_pool" where
  "release_lease c P = P\<lparr>leases := remove1 c (leases P)\<rparr>"

text \<open>The map is kept in the order of its keys.\<close>

definition set_idle :: "int \<Rightarrow> route_key \<Rightarrow> (route_key \<times> pool_entry) list \<Rightarrow> (route_key \<times> pool_entry) list" where
  "set_idle v k = map (\<lambda>(k', e). (k', if k' = k then e\<lparr>iIdleSince := v\<rparr> else e))"

definition ClientFor :: "bool \<Rightarrow> route_key \<Rightarrow> route_pool \<Rightarrow> nat option \<times> route_pool" where
  "ClientFor stop_requested k P =
    (if bStopped P \<or> stop_requested then (None, P)
     else case map_of (mClients P) k of
         Some e \<Rightarrow> (Some (pClient e), (AcquireLease (pClient e) P)\<lparr>mClients := set_idle 0 k (mClients P), ensured := ensured P @ [pClient e]\<rparr>)
       | None \<Rightarrow>
           if length (mClients P) \<ge> iMaxClients P then (None, P)
           else (Some (conns P), (AcquireLease (conns P) P)\<lparr>mClients := insort_key fst (k, \<lparr>pClient = conns P, iIdleSince = 0\<rparr>) (mClients P),
              conns := conns P + 1, ensured := ensured P @ [conns P]\<rparr>))"

text \<open>The loop of \<open>SweepRoutePool\<close>: the entries that stay and the connections that are retired.\<close>

fun sweep :: "(nat \<Rightarrow> bool) \<Rightarrow> bool \<Rightarrow> int \<Rightarrow> int \<Rightarrow> (route_key \<times> pool_entry) list \<Rightarrow> (route_key \<times> pool_entry) list \<times> nat list" where
  "sweep lease bStop iNow iIdle [] = ([], [])"
| "sweep lease bStop iNow iIdle ((k, e) # m) = (case sweep lease bStop iNow iIdle m of (kept, out) \<Rightarrow>
     if \<not> bStop \<and> lease (pClient e) then ((k, e\<lparr>iIdleSince := 0\<rparr>) # kept, out)
     else let since = (if iIdleSince e = 0 then iNow else iIdleSince e) in
       if \<not> bStop \<and> iNow - since < iIdle then ((k, e\<lparr>iIdleSince := since\<rparr>) # kept, out)
       else (kept, pClient e # out))"

definition SweepRoutePool :: "bool \<Rightarrow> int \<Rightarrow> route_pool \<Rightarrow> route_pool" where
  "SweepRoutePool bStop iNow P = (case sweep (\<lambda>c. HasLease c P) bStop iNow (iIdleMilliseconds P) (mClients P) of (kept, out) \<Rightarrow>
     P\<lparr>mClients := kept, iEvicted := iEvicted P + length out, bStopped := bStopped P \<or> bStop, retired := retired P @ out\<rparr>)"

definition StopRoutePool :: "int \<Rightarrow> route_pool \<Rightarrow> route_pool" where
  "StopRoutePool iNow P = SweepRoutePool True iNow P"

section \<open>Lemmas on targets\<close>

lemma token_char_plain: "\<not> token_char (CHR ''.'')" "\<not> token_char (CHR ''*'')"
  by code_simp+

lemma token_no_dot: "ValidServiceToken s \<Longrightarrow> CHR ''.'' \<notin> set s \<and> CHR ''*'' \<notin> set s"
  using token_char_plain by (auto simp: ValidServiceToken_def list_all_iff)

lemma first_dot: "CHR ''.'' \<notin> set n \<Longrightarrow> takeWhile (\<lambda>ch. ch \<noteq> CHR ''.'') (n @ CHR ''.'' # z) = n \<and> dropWhile (\<lambda>ch. ch \<noteq> CHR ''.'') (n @ CHR ''.'' # z) = CHR ''.'' # z"
  by (induction n) auto

lemma no_dot: "CHR ''.'' \<notin> set n \<Longrightarrow> dropWhile (\<lambda>ch. ch \<noteq> CHR ''.'') n = []"
  by (induction n) auto

lemma last_two: "length t \<ge> 2 \<Longrightarrow> drop (length t - 2) t = ''.*'' \<longleftrightarrow> t = take (length t - 2) t @ ''.*''"
  by (metis append_take_drop_id same_append_eq)

lemma ParseTarget_all: "ValidServiceToken n \<Longrightarrow> ParseTarget (n @ ''.*'') = Some \<lparr>pt_sName = n, pt_sZone = [], pt_bAll = True\<rparr>"
  by (cases n) (simp_all add: ParseTarget_def ValidServiceToken_def)

lemma not_all: "CHR ''*'' \<notin> set t \<Longrightarrow> drop k t \<noteq> ''.*''"
  by (metis in_set_dropD list.set_intros)

lemma ParseTarget_plain:
  "\<not> (length t \<ge> 3 \<and> drop (length t - 2) t = ''.*'') \<Longrightarrow> ParseTarget t = (case dropWhile (\<lambda>ch. ch \<noteq> CHR ''.'') t of
     [] \<Rightarrow> if ValidServiceToken t then Some \<lparr>pt_sName = t, pt_sZone = [], pt_bAll = False\<rparr> else None
   | _ # z \<Rightarrow> if CHR ''.'' \<in> set z then None
       else if ValidServiceToken (takeWhile (\<lambda>ch. ch \<noteq> CHR ''.'') t) \<and> ValidServiceToken z
       then Some \<lparr>pt_sName = takeWhile (\<lambda>ch. ch \<noteq> CHR ''.'') t, pt_sZone = z, pt_bAll = False\<rparr> else None)"
  unfolding ParseTarget_def Let_def by (rule if_not_P)

lemma ParseTarget_name: "ValidServiceToken n \<Longrightarrow> ParseTarget n = Some \<lparr>pt_sName = n, pt_sZone = [], pt_bAll = False\<rparr>"
  using token_no_dot [of n] not_all [of n "length n - 2"] by (simp add: ParseTarget_plain no_dot)

lemma ParseTarget_zone:
  assumes n: "ValidServiceToken n" and z: "ValidServiceToken z"
  shows "ParseTarget (n @ ''.'' @ z) = Some \<lparr>pt_sName = n, pt_sZone = z, pt_bAll = False\<rparr>"
proof -
  have s: "CHR ''*'' \<notin> set (n @ ''.'' @ z)" using token_no_dot [OF n] token_no_dot [OF z] by simp
  then have "\<not> (length (n @ ''.'' @ z) \<ge> 3 \<and> drop (length (n @ ''.'' @ z) - 2) (n @ ''.'' @ z) = ''.*'')" using not_all by blast
  from ParseTarget_plain [OF this] show ?thesis
    using first_dot [of n z] token_no_dot [OF n] token_no_dot [OF z] n z by simp
qed

lemma ParseTarget_shape:
  assumes "ParseTarget t = Some p"
  shows "ValidServiceToken (pt_sName p) \<and>
    (if pt_bAll p then pt_sZone p = [] \<and> t = pt_sName p @ ''.*''
     else if pt_sZone p = [] then t = pt_sName p else ValidServiceToken (pt_sZone p) \<and> t = pt_sName p @ ''.'' @ pt_sZone p)"
proof (cases "length t \<ge> 3 \<and> drop (length t - 2) t = ''.*''")
  case True
  then obtain n where t: "t = n @ ''.*''" using last_two [of t] by force
  then have "n \<noteq> []" using True by auto
  then show ?thesis using assms t by (cases n) (auto simp: ParseTarget_def Let_def split: if_splits)
next
  case False
  note plain = assms [unfolded ParseTarget_plain [OF False]]
  show ?thesis
  proof (cases "CHR ''.'' \<in> set t")
    case False
    then show ?thesis using plain by (auto simp: no_dot split: if_splits)
  next
    case True
    then obtain n z where t: "t = n @ CHR ''.'' # z" "CHR ''.'' \<notin> set n" by (meson split_list_first)
    then show ?thesis using plain first_dot [OF t(2), of z] by (auto simp: ValidServiceToken_def split: if_splits)
  qed
qed

text \<open>
  C39: \<open>ParseTarget\<close> accepts exactly the targets of the three forms \<open>name\<close>, \<open>name.zone\<close> and \<open>name.*\<close>, where a name
  and a zone are not empty and consist of letters, digits, underscores and hyphens, and returns their parts.
\<close>

theorem ParseTarget_iff:
  "ParseTarget t = Some p \<longleftrightarrow> ValidServiceToken (pt_sName p) \<and>
    (if pt_bAll p then pt_sZone p = [] \<and> t = pt_sName p @ ''.*''
     else if pt_sZone p = [] then t = pt_sName p else ValidServiceToken (pt_sZone p) \<and> t = pt_sName p @ ''.'' @ pt_sZone p)"
proof
  assume r: "ValidServiceToken (pt_sName p) \<and>
    (if pt_bAll p then pt_sZone p = [] \<and> t = pt_sName p @ ''.*''
     else if pt_sZone p = [] then t = pt_sName p else ValidServiceToken (pt_sZone p) \<and> t = pt_sName p @ ''.'' @ pt_sZone p)"
  then show "ParseTarget t = Some p"
    using ParseTarget_all [of "pt_sName p"] ParseTarget_name [of "pt_sName p"] ParseTarget_zone [of "pt_sName p" "pt_sZone p"]
    by (cases p) (auto split: if_splits)
qed (rule ParseTarget_shape)

section \<open>Lemmas on the pool\<close>

text \<open>
  The map is in order; the connections that were made are in it or retired, each once; it has at most
  \<open>iMaxClients\<close> entries, and none after the pool was stopped.
\<close>

definition pool_ok :: "route_pool \<Rightarrow> bool" where
  "pool_ok P \<longleftrightarrow> sorted (map fst (mClients P)) \<and> distinct (map fst (mClients P))
     \<and> mset (map (pClient \<circ> snd) (mClients P)) + mset (retired P) = mset [0..<conns P]
     \<and> length (mClients P) \<le> iMaxClients P \<and> iEvicted P = length (retired P) \<and> (bStopped P \<longrightarrow> mClients P = [])"

lemma set_idle_simps [simp]:
  "map fst (set_idle v k m) = map fst m" "map (pClient \<circ> snd) (set_idle v k m) = map (pClient \<circ> snd) m" "length (set_idle v k m) = length m"
  "image_mset (pClient \<circ> snd) (mset (set_idle v k m)) = image_mset (pClient \<circ> snd) (mset m)"
  by (induction m) (auto simp: set_idle_def)

lemma map_of_set_idle: "map_of (set_idle v k m) k' = map_option (\<lambda>e. if k' = k then e\<lparr>iIdleSince := v\<rparr> else e) (map_of m k')"
  by (induction m) (auto simp: set_idle_def)

lemma insort_keys: "map fst (insort_key fst x m) = insort (fst x) (map fst m)"
  by (induction m) auto

lemma insort_clients: "mset (map f (insort_key g x m)) = add_mset (f x) (mset (map f m))"
  by (induction m) auto

lemma map_of_insort: "k \<notin> fst ` set m \<Longrightarrow> map_of (insort_key fst (k, e) m) k' = (if k' = k then Some e else map_of m k')"
  by (induction m) auto

lemma distinct_insort_keys: "k \<notin> fst ` set m \<Longrightarrow> distinct (map fst m) \<Longrightarrow> distinct (insort k (map fst m))"
  by (simp add: distinct_insort)

lemma ClientFor_ok:
  assumes ok: "pool_ok P" and r: "ClientFor stop k P = (c, P')"
  shows "pool_ok P'"
proof (cases "bStopped P \<or> stop")
  case True
  then show ?thesis using ok r by (auto simp: ClientFor_def)
next
  case False
  show ?thesis
  proof (cases "map_of (mClients P) k")
    case None
    then have k: "k \<notin> fst ` set (mClients P)" by (simp add: map_of_eq_None_iff)
    show ?thesis
      using ok r False None k distinct_insort_keys [OF k]
      by (auto simp: ClientFor_def pool_ok_def AcquireLease_def insort_keys insort_clients sorted_insort atLeast0_lessThan_Suc split: if_splits)
  next
    case (Some e)
    then show ?thesis using ok r False by (auto simp: ClientFor_def pool_ok_def AcquireLease_def)
  qed
qed

text \<open>What the sweep keeps and retires.\<close>

definition idle_since :: "int \<Rightarrow> pool_entry \<Rightarrow> int" where
  "idle_since iNow e = (if iIdleSince e = 0 then iNow else iIdleSince e)"

definition stays :: "(nat \<Rightarrow> bool) \<Rightarrow> int \<Rightarrow> int \<Rightarrow> pool_entry \<Rightarrow> bool" where
  "stays lease iNow iIdle e \<longleftrightarrow> lease (pClient e) \<or> iNow - idle_since iNow e < iIdle"

lemma sweep_eq:
  "sweep lease bStop iNow iIdle m =
    (map (\<lambda>(k, e). (k, e\<lparr>iIdleSince := if lease (pClient e) then 0 else idle_since iNow e\<rparr>)) (filter (\<lambda>(k, e). \<not> bStop \<and> stays lease iNow iIdle e) m),
     map (pClient \<circ> snd) (filter (\<lambda>(k, e). bStop \<or> \<not> stays lease iNow iIdle e) m))"
  by (induction lease bStop iNow iIdle m rule: sweep.induct) (auto simp: stays_def idle_since_def Let_def)

lemma filter_split_mset: "mset (map f (filter p m)) + mset (map f (filter (\<lambda>x. \<not> p x) m)) = mset (map f m)"
  by (induction m) auto

lemma sorted_map_filter': "sorted (map f m) \<Longrightarrow> sorted (map f (filter p m))"
  by (induction m) (auto simp: sorted_wrt_map)

lemma Sweep_ok:
  assumes ok: "pool_ok P"
  shows "pool_ok (SweepRoutePool bStop iNow P)"
proof -
  let ?p = "\<lambda>(k, e). \<not> bStop \<and> stays (\<lambda>c. HasLease c P) iNow (iIdleMilliseconds P) e"
  let ?kept = "map (\<lambda>(k, e). (k, e\<lparr>iIdleSince := if HasLease (pClient e) P then 0 else idle_since iNow e\<rparr>)) (filter ?p (mClients P))"
  have out: "(\<lambda>(k, e). bStop \<or> \<not> stays (\<lambda>c. HasLease c P) iNow (iIdleMilliseconds P) e) = (\<lambda>x. \<not> ?p x)" by auto
  have s: "SweepRoutePool bStop iNow P = P\<lparr>mClients := ?kept, iEvicted := iEvicted P + length (filter (\<lambda>x. \<not> ?p x) (mClients P)),
      bStopped := bStopped P \<or> bStop, retired := retired P @ map (pClient \<circ> snd) (filter (\<lambda>x. \<not> ?p x) (mClients P))\<rparr>"
    by (simp add: SweepRoutePool_def sweep_eq out)
  have k: "map fst ?kept = map fst (filter ?p (mClients P))" "map (pClient \<circ> snd) ?kept = map (pClient \<circ> snd) (filter ?p (mClients P))"
    by (auto simp: comp_def split: prod.splits)
  have e: "bStop \<longrightarrow> filter ?p (mClients P) = []" by (auto simp: filter_empty_conv)
  have m: "mset (map (pClient \<circ> snd) ?kept) + mset (retired P @ map (pClient \<circ> snd) (filter (\<lambda>x. \<not> ?p x) (mClients P))) = mset [0..<conns P]"
    using ok filter_split_mset [of "pClient \<circ> snd" ?p "mClients P"] unfolding k pool_ok_def by (simp add: ac_simps)
  have "length ?kept \<le> length (mClients P)" by simp
  then have "length ?kept \<le> iMaxClients P" using ok unfolding pool_ok_def by linarith
  moreover have "sorted (map fst ?kept)" "distinct (map fst ?kept)"
    unfolding k using ok by (simp_all add: pool_ok_def sorted_map_filter' distinct_map_filter)
  ultimately show ?thesis using ok m e unfolding s pool_ok_def by auto
qed

section \<open>All runs of the pool\<close>

inductive pool_step :: "route_pool \<Rightarrow> route_pool \<Rightarrow> bool" where
  client: "ClientFor stop k P = (c, P') \<Longrightarrow> pool_step P P'"
| hold: "pool_step P (AcquireLease c P)"
| release: "pool_step P (release_lease c P)"
| sweeps: "pool_step P (SweepRoutePool bStop iNow P)"

inductive pool_run :: "route_pool \<Rightarrow> bool" where
  start: "RoutePool iLimit iIdle = Some P \<Longrightarrow> pool_run P"
| step: "pool_run P \<Longrightarrow> pool_step P P' \<Longrightarrow> pool_run P'"

lemma pool_step_ok: "pool_step P P' \<Longrightarrow> pool_ok P \<Longrightarrow> pool_ok P'"
proof (induction rule: pool_step.induct)
  case (client stop k P c P')
  then show ?case using ClientFor_ok by blast
next
  case (sweeps P bStop iNow)
  then show ?case by (rule Sweep_ok)
qed (simp_all add: pool_ok_def AcquireLease_def release_lease_def)

lemma pool_run_ok: "pool_run P \<Longrightarrow> pool_ok P"
proof (induction rule: pool_run.induct)
  case (start iLimit iIdle P)
  then show ?case by (auto simp: RoutePool_def pool_ok_def split: if_splits)
qed (rule pool_step_ok)

text \<open>
  C23: in every run of the pool of routed connections it holds at most \<open>max_clients\<close> of them, at most one per address
  and limits; each connection it ever made is either still in the pool or was retired, exactly once; and a
  stopped pool is empty, stays so and gives out no connection.
\<close>

theorem pool_accounts:
  assumes "pool_run P"
  shows "length (mClients P) \<le> iMaxClients P \<and> distinct (map fst (mClients P)) \<and> iEvicted P = length (retired P)
    \<and> mset (map (pClient \<circ> snd) (mClients P)) + mset (retired P) = mset [0..<conns P]
    \<and> (bStopped P \<longrightarrow> mClients P = [] \<and> ClientFor stop k P = (None, P))
    \<and> (\<forall>P'. pool_step P P' \<longrightarrow> bStopped P \<longrightarrow> bStopped P')"
proof -
  have "bStopped P'" if "pool_step P P'" "bStopped P" for P'
    using that by cases (auto simp: ClientFor_def AcquireLease_def release_lease_def SweepRoutePool_def split: prod.splits if_splits)
  then show ?thesis using pool_run_ok [OF assms] by (auto simp: pool_ok_def ClientFor_def)
qed

definition pool_demo :: "route_pool" where
  "pool_demo = SweepRoutePool False 70000 (SweepRoutePool False 5 (release_lease 0 (snd (ClientFor False (''b'', ''1'', (0, 0, 0, 0, 0, 0))
     (snd (ClientFor False (''a'', ''1'', (0, 0, 0, 0, 0, 0)) (the (RoutePool 2 60000))))))))"

lemma pool_client: "pool_run P \<Longrightarrow> pool_run (snd (ClientFor stop k P))"
  by (rule pool_run.step [OF _ client [of stop k P "fst (ClientFor stop k P)"]]) simp_all

lemma pool_demo_run: "pool_run pool_demo"
  unfolding pool_demo_def
  by (rule pool_run.step [OF pool_run.step [OF pool_run.step [OF pool_client [OF pool_client] release] sweeps] sweeps],
      rule pool_run.start [of 2 60000]) (simp add: RoutePool_def)

lemma pool_demo_eq:
  "mClients pool_demo = [((''b'', ''1'', (0, 0, 0, 0, 0, 0)), \<lparr>pClient = 1, iIdleSince = 0\<rparr>)]" "leases pool_demo = [1]"
  "retired pool_demo = [0]" "conns pool_demo = 2"
  by code_simp+

theorem pool_accounts_witness:
  "retired pool_demo = [0] \<and> length (mClients pool_demo) \<le> iMaxClients pool_demo \<and> {#1#} + {#0#} = mset [0..<(2::nat)]"
  using pool_accounts [OF pool_demo_run] by (simp add: pool_demo_eq)

text \<open>
  A sweep that does not stop the pool keeps a connection exactly if it has a lease or has not been idle for the
  configured time, counted from the first sweep that found it without a lease; it retires all others and
  never one with a lease.
\<close>

theorem sweep_exact:
  assumes "pool_run P"
  shows "map_of (mClients (SweepRoutePool False iNow P)) k = (case map_of (mClients P) k of
      None \<Rightarrow> None
    | Some e \<Rightarrow> if HasLease (pClient e) P then Some (e\<lparr>iIdleSince := 0\<rparr>)
        else if iNow - idle_since iNow e < iIdleMilliseconds P then Some (e\<lparr>iIdleSince := idle_since iNow e\<rparr>) else None)
    \<and> (\<exists>out. retired (SweepRoutePool False iNow P) = retired P @ out
         \<and> set out = {pClient e | e. e \<in> snd ` set (mClients P) \<and> \<not> HasLease (pClient e) P \<and> iNow - idle_since iNow e \<ge> iIdleMilliseconds P})"
proof -
  let ?l = "\<lambda>c. HasLease c P"
  have d: "distinct (map fst (mClients P))" using pool_run_ok [OF assms] by (simp add: pool_ok_def)
  have m: "map_of (map (\<lambda>(k, e). (k, e\<lparr>iIdleSince := if ?l (pClient e) then 0 else idle_since iNow e\<rparr>)) (filter (\<lambda>(k, e). stays ?l iNow i e) m)) k =
     (case map_of m k of None \<Rightarrow> None | Some e \<Rightarrow> if ?l (pClient e) then Some (e\<lparr>iIdleSince := 0\<rparr>)
        else if iNow - idle_since iNow e < i then Some (e\<lparr>iIdleSince := idle_since iNow e\<rparr>) else None)"
    if "distinct (map fst m)" for m i
    using that by (induction m) (auto simp: stays_def map_of_eq_None_iff image_iff split: option.splits)
  have o: "set (map (pClient \<circ> snd) (filter (\<lambda>(k, e). \<not> stays ?l iNow i e) m)) = {pClient e | e. e \<in> snd ` set m \<and> \<not> ?l (pClient e) \<and> iNow - idle_since iNow e \<ge> i}" for m i
    by (auto simp: stays_def image_iff not_less)
  show ?thesis using m [OF d] o by (simp add: SweepRoutePool_def sweep_eq)
qed

theorem sweep_exact_witness:
  "map_of (mClients (SweepRoutePool False 70000 pool_demo)) (''b'', ''1'', (0, 0, 0, 0, 0, 0)) = Some \<lparr>pClient = 1, iIdleSince = 0\<rparr>
   \<and> map_of (mClients (SweepRoutePool False 70000 pool_demo)) (''a'', ''1'', (0, 0, 0, 0, 0, 0)) = None"
proof -
  show ?thesis
    using sweep_exact [OF pool_demo_run, of 70000 "(''b'', ''1'', (0, 0, 0, 0, 0, 0))"] sweep_exact [OF pool_demo_run, of 70000 "(''a'', ''1'', (0, 0, 0, 0, 0, 0))"]
    by (simp add: pool_demo_eq HasLease_def)
qed

end
