(* ===== verification/OI_Routes.thy ===== *)
theory OI_Routes
  imports OI_RouteTable
begin

text \<open>
  The routes of remote calls by service name (cbaselib/proto/src/oi_rpc_route.cpp and the routing part of
  cbaselib/proto/inc/oi_rpc_coro.h): the choice among the instances that the registry lists, the deadline that
  all parts of a call share, and the results of a call to many.
\<close>

section \<open>Routes\<close>

text \<open>A sender is that of the calling manager or a routed connection; None is the null pointer.\<close>

datatype sender = OwnSender nat | RouteSender nat

record ServiceRoute =
  iStatus :: ServiceRouteStatus
  vClients :: "sender option list"
  vOwners :: "nat option list"

definition ServiceRoute_new :: ServiceRoute where
  "ServiceRoute_new = \<lparr>iStatus = RouteOffline, vClients = [], vOwners = []\<rparr>"

text \<open>The manager of the call, with its limits and whether the pool's thread pool has been asked to stop.\<close>

definition AddRouteClient :: "bool \<Rightarrow> policy \<Rightarrow> ServiceInstance \<Rightarrow> ServiceRoute \<times> route_pool \<Rightarrow> bool \<times> ServiceRoute \<times> route_pool" where
  "AddRouteClient stop pol x RP = (case RP of (R, P) \<Rightarrow>
    (case ClientFor stop (si_sIp x, si_sPort x, pol) P of
       (None, P') \<Rightarrow> (False, R\<lparr>vClients := [], vOwners := [], iStatus := RouteBusy\<rparr>, P')
     | (Some c, P') \<Rightarrow> (True, R\<lparr>vClients := vClients R @ [Some (RouteSender c)], vOwners := vOwners R @ [Some c]\<rparr>, P')))"

text \<open>
  Inr where the registry has to be asked: \<open>watches\<close> says that the manager is one of the watchers of the name
  and connected (\<open>IsConnect\<close>) to it.
\<close>

definition PrepareRoute :: "(nat \<Rightarrow> string \<Rightarrow> bool) \<Rightarrow> nat option \<Rightarrow> string \<Rightarrow> ServicePick \<Rightarrow> string \<Rightarrow> ServiceRoute option" where
  "PrepareRoute watches mgr n pick z =
    (if \<not> ValidServiceToken n \<or> (pick = PickZone \<and> \<not> ValidServiceToken z) then Some (ServiceRoute_new\<lparr>iStatus := RouteBadName\<rparr>)
     else case mgr of
         Some m \<Rightarrow> if pick = PickAny \<and> watches m n then Some \<lparr>iStatus = RouteOk, vClients = [Some (OwnSender m)], vOwners = [None]\<rparr> else None
       | None \<Rightarrow> None)"

definition matched :: "string \<Rightarrow> ServicePick \<Rightarrow> string \<Rightarrow> ServiceInstance list \<Rightarrow> ServiceInstance list" where
  "matched n pick z v = filter (\<lambda>x. si_sName x = n \<and> (pick = PickZone \<longrightarrow> si_sZone x = z)) v"

definition has_global :: "string \<Rightarrow> ServiceInstance list \<Rightarrow> bool" where
  "has_global n v \<longleftrightarrow> (\<exists>x \<in> set v. si_sName x = n \<and> si_sZone x = [])"

definition has_zoned :: "string \<Rightarrow> ServiceInstance list \<Rightarrow> bool" where
  "has_zoned n v \<longleftrightarrow> (\<exists>x \<in> set v. si_sName x = n \<and> si_sZone x \<noteq> [])"

fun add_all :: "bool \<Rightarrow> policy \<Rightarrow> ServiceInstance list \<Rightarrow> ServiceRoute \<times> route_pool \<Rightarrow> bool \<times> ServiceRoute \<times> route_pool" where
  "add_all stop pol [] RP = (True, RP)"
| "add_all stop pol (x # xs) RP = (case AddRouteClient stop pol x RP of
     (ok, RP') \<Rightarrow> if ok then add_all stop pol xs RP' else (False, RP'))"

text \<open>\<open>srt\<close> is \<open>std::sort\<close> by \<open>iId\<close>; \<open>cur\<close> is \<open>iCursor\<close>, which is read and advanced when there is a choice.\<close>

definition FinishRoute :: "(ServiceInstance list \<Rightarrow> ServiceInstance list) \<Rightarrow> bool \<Rightarrow> policy \<Rightarrow> string \<Rightarrow> ServicePick \<Rightarrow> string \<Rightarrow> int \<Rightarrow> ServiceInstance list
    \<Rightarrow> 32 word \<Rightarrow> route_pool \<Rightarrow> ServiceRoute \<times> 32 word \<times> route_pool" where
  "FinishRoute srt stop pol n pick z iCode vList cur P =
    (if iCode \<noteq> OI_OK then (ServiceRoute_new, cur, P)
     else let vMatched = matched n pick z vList; bGlobal = has_global n vList; bZoned = has_zoned n vList in
       if bGlobal \<and> bZoned then (ServiceRoute_new\<lparr>iStatus := RouteWrongKind\<rparr>, cur, P)
       else if pick = PickZone \<and> bGlobal then (ServiceRoute_new\<lparr>iStatus := RouteWrongKind\<rparr>, cur, P)
       else if vMatched = [] then (ServiceRoute_new, cur, P)
       else let v = srt vMatched in
         if pick = PickAll then
           (case add_all stop pol v (ServiceRoute_new, P) of (ok, R, P') \<Rightarrow> (if ok then R\<lparr>iStatus := RouteOk\<rparr> else R, cur, P'))
         else
           let many = pick = PickAny \<and> length v > 1; iPick = (if many then unat cur mod length v else 0); cur' = (if many then cur + 1 else cur) in
           (case AddRouteClient stop pol (v ! iPick) (ServiceRoute_new, P) of (ok, R, P') \<Rightarrow> (if ok then R\<lparr>iStatus := RouteOk\<rparr> else R, cur', P')))"

text \<open>The inner loop of \<open>FinishZones\<close>: the instance of the zone with the least \<open>iId\<close>.\<close>

fun best_of :: "string \<Rightarrow> string \<Rightarrow> ServiceInstance option \<Rightarrow> ServiceInstance list \<Rightarrow> ServiceInstance option" where
  "best_of n z best [] = best"
| "best_of n z best (x # xs) =
    (if si_sName x \<noteq> n \<or> si_sZone x \<noteq> z then best_of n z best xs
     else best_of n z (case best of None \<Rightarrow> Some x | Some b \<Rightarrow> if si_iId x < si_iId b then Some x else best) xs)"

fun add_zones :: "bool \<Rightarrow> policy \<Rightarrow> string \<Rightarrow> ServiceInstance list \<Rightarrow> string list \<Rightarrow> ServiceRoute \<times> route_pool \<Rightarrow> bool \<times> ServiceRoute \<times> route_pool" where
  "add_zones stop pol n v [] RP = (True, RP)"
| "add_zones stop pol n v (z # zs) RP = (case best_of n z None v of
     None \<Rightarrow> (case RP of (R, P) \<Rightarrow> add_zones stop pol n v zs (R\<lparr>vClients := vClients R @ [None], vOwners := vOwners R @ [None]\<rparr>, P))
   | Some x \<Rightarrow> (case AddRouteClient stop pol x RP of (ok, RP') \<Rightarrow> if ok then add_zones stop pol n v zs RP' else (False, RP')))"

definition FinishZones :: "bool \<Rightarrow> policy \<Rightarrow> string \<Rightarrow> string list \<Rightarrow> int \<Rightarrow> ServiceInstance list \<Rightarrow> route_pool \<Rightarrow> ServiceRoute \<times> route_pool" where
  "FinishZones stop pol n vZones iCode vList P =
    (if iCode \<noteq> OI_OK then (ServiceRoute_new, P)
     else if has_global n vList then (ServiceRoute_new\<lparr>iStatus := RouteWrongKind\<rparr>, P)
     else case add_zones stop pol n vList vZones (ServiceRoute_new, P) of (ok, R, P') \<Rightarrow> (if ok then R\<lparr>iStatus := RouteOk\<rparr> else R, P'))"

section \<open>The contract of sorting\<close>

locale std_sort =
  fixes srt :: "ServiceInstance list \<Rightarrow> ServiceInstance list"
  assumes srt_mset: "mset (srt v) = mset v"
    and srt_sorted: "sorted (map si_iId (srt v))"
begin

lemma srt_set: "set (srt v) = set v"
  using srt_mset [of v] by (metis set_mset_mset)

lemma srt_length: "length (srt v) = length v"
  using srt_mset [of v] by (metis size_mset)

lemma srt_hd:
  assumes "v \<noteq> []"
  shows "srt v ! 0 \<in> set v" "y \<in> set v \<Longrightarrow> si_iId (srt v ! 0) \<le> si_iId y"
proof -
  obtain x xs where s: "srt v = x # xs" using assms srt_length [of v] by (cases "srt v") auto
  show "srt v ! 0 \<in> set v" using s srt_set [of v] by auto
  assume "y \<in> set v"
  then show "si_iId (srt v ! 0) \<le> si_iId y" using s srt_set [of v] srt_sorted [of v] by auto
qed

lemma srt_nth: "i < length v \<Longrightarrow> srt v ! i \<in> set v"
  using srt_set [of v] srt_length [of v] by (metis nth_mem)

end

text \<open>A stable sort fulfils it.\<close>

interpretation stable_sort: std_sort "sort_key si_iId"
  by unfold_locales simp_all

section \<open>Connections behind a route\<close>

definition client_of :: "route_pool \<Rightarrow> route_key \<Rightarrow> nat \<Rightarrow> bool" where
  "client_of P k c \<longleftrightarrow> map_option pClient (map_of (mClients P) k) = Some c"

text \<open>The sender is the connection of the pool to the address of the instance, and is leased.\<close>

definition serves :: "route_pool \<Rightarrow> policy \<Rightarrow> ServiceInstance \<Rightarrow> sender option \<Rightarrow> bool" where
  "serves P pol x s \<longleftrightarrow> (case s of Some (RouteSender c) \<Rightarrow> client_of P (si_sIp x, si_sPort x, pol) c \<and> HasLease c P | _ \<Rightarrow> False)"

definition grows :: "route_pool \<Rightarrow> route_pool \<Rightarrow> bool" where
  "grows P P' \<longleftrightarrow> (\<forall>k c. client_of P k c \<longrightarrow> client_of P' k c) \<and> set (leases P) \<subseteq> set (leases P')"

lemma growsI: "(\<And>k c. client_of P k c \<Longrightarrow> client_of P' k c) \<Longrightarrow> set (leases P) \<subseteq> set (leases P') \<Longrightarrow> grows P P'"
  unfolding grows_def by blast

lemma growsD: "grows P P' \<Longrightarrow> client_of P k c \<Longrightarrow> client_of P' k c" "grows P P' \<Longrightarrow> HasLease c P \<Longrightarrow> HasLease c P'"
  unfolding grows_def HasLease_def by blast+

lemma grows_refl: "grows P P" by (rule growsI) simp_all

lemma grows_trans: "grows P Q \<Longrightarrow> grows Q R \<Longrightarrow> grows P R"
  unfolding grows_def by blast

lemma serves_mono: "grows P P' \<Longrightarrow> serves P pol x s \<Longrightarrow> serves P' pol x s"
  by (auto simp: serves_def growsD split: option.splits sender.splits)

lemma ClientFor_grows:
  assumes r: "ClientFor stop k P = (r, P')"
  shows "grows P P'" "r = Some c \<Longrightarrow> client_of P' k c \<and> HasLease c P'"
proof -
  have "grows P P' \<and> (r = Some c \<longrightarrow> client_of P' k c \<and> HasLease c P')"
  proof (cases "bStopped P \<or> stop")
    case True
    then show ?thesis using r by (auto simp: ClientFor_def grows_refl)
  next
    case False
    show ?thesis
    proof (cases "map_of (mClients P) k")
      case (Some e)
      then have p: "P' = (AcquireLease (pClient e) P)\<lparr>mClients := set_idle 0 k (mClients P), ensured := ensured P @ [pClient e]\<rparr>" "r = Some (pClient e)"
        using r False by (simp_all add: ClientFor_def)
      have "client_of P' k' c'" if "client_of P k' c'" for k' c'
        using that unfolding client_of_def p by (cases "map_of (mClients P) k'") (simp_all add: map_of_set_idle)
      then have "grows P P'" by (rule growsI) (auto simp: p AcquireLease_def)
      then show ?thesis using Some by (simp add: p client_of_def map_of_set_idle HasLease_def AcquireLease_def)
    next
      case None
      then have k: "k \<notin> fst ` set (mClients P)" by (simp add: map_of_eq_None_iff)
      show ?thesis
      proof (cases "length (mClients P) \<ge> iMaxClients P")
        case True
        then show ?thesis using r False None by (auto simp: ClientFor_def grows_refl)
      next
        case room: False
        let ?e = "\<lparr>pClient = conns P, iIdleSince = 0\<rparr>"
        have p: "P' = (AcquireLease (conns P) P)\<lparr>mClients := insort_key fst (k, ?e) (mClients P), conns := conns P + 1, ensured := ensured P @ [conns P]\<rparr>" "r = Some (conns P)"
          using r False None room by (simp_all add: ClientFor_def)
        have "client_of P' k' c'" if "client_of P k' c'" for k' c'
          using that None unfolding client_of_def p by (auto simp: map_of_insort [OF k])
        then have "grows P P'" by (rule growsI) (auto simp: p AcquireLease_def)
        then show ?thesis by (simp add: p client_of_def map_of_insort [OF k] HasLease_def AcquireLease_def)
      qed
    qed
  qed
  then show "grows P P'" "r = Some c \<Longrightarrow> client_of P' k c \<and> HasLease c P'" by simp_all
qed

text \<open>Clients are added one by one, or the route is given up as busy.\<close>

lemma AddRouteClient_extends:
  assumes "AddRouteClient stop pol x (R, P) = (ok, R', P')"
  shows "grows P P'" "ok \<Longrightarrow> iStatus R' = iStatus R \<and> (\<exists>s. vClients R' = vClients R @ [s] \<and> serves P' pol x s)"
    "\<not> ok \<Longrightarrow> iStatus R' = RouteBusy \<and> vClients R' = [] \<and> vOwners R' = []"
proof -
  obtain r P1 where c: "ClientFor stop (si_sIp x, si_sPort x, pol) P = (r, P1)" by fastforce
  show "grows P P'" using assms ClientFor_grows(1) [OF c] c by (auto simp: AddRouteClient_def split: option.splits)
  show "ok \<Longrightarrow> iStatus R' = iStatus R \<and> (\<exists>s. vClients R' = vClients R @ [s] \<and> serves P' pol x s)"
    using assms ClientFor_grows(2) [OF c] c by (auto simp: AddRouteClient_def serves_def split: option.splits)
  show "\<not> ok \<Longrightarrow> iStatus R' = RouteBusy \<and> vClients R' = [] \<and> vOwners R' = []"
    using assms c by (auto simp: AddRouteClient_def split: option.splits)
qed

lemma add_all_extends:
  "add_all stop pol xs (R, P) = (ok, R', P') \<Longrightarrow> grows P P' \<and>
    (if ok then \<exists>new. vClients R' = vClients R @ new \<and> list_all2 (serves P' pol) xs new
     else iStatus R' = RouteBusy \<and> vClients R' = [] \<and> vOwners R' = [])"
proof (induction xs arbitrary: R P)
  case (Cons x xs)
  obtain ok1 R1 P1 where a: "AddRouteClient stop pol x (R, P) = (ok1, R1, P1)" by (metis prod_cases3)
  show ?case
  proof (cases ok1)
    case True
    obtain s where s: "vClients R1 = vClients R @ [s]" "serves P1 pol x s" using AddRouteClient_extends(2) [OF a True] by blast
    have r: "add_all stop pol xs (R1, P1) = (ok, R', P')" using Cons.prems a True by simp
    note ih = Cons.IH [OF r]
    have g: "grows P P'" using grows_trans AddRouteClient_extends(1) [OF a] ih by blast
    have "serves P' pol x s" using serves_mono ih s(2) by blast
    then have "list_all2 (serves P' pol) (x # xs) (s # new)" if "list_all2 (serves P' pol) xs new" for new using that by simp
    then show ?thesis using g ih s(1) by (metis append.assoc append_Cons append_Nil)
  next
    case False
    then show ?thesis using Cons.prems a AddRouteClient_extends [OF a] by simp
  qed
qed (auto simp: grows_refl)

lemma best_of_spec:
  "(best_of n z b xs = None \<longleftrightarrow> b = None \<and> (\<forall>x \<in> set xs. \<not> (si_sName x = n \<and> si_sZone x = z)))
   \<and> (\<forall>y. best_of n z b xs = Some y \<longrightarrow> (b = Some y \<or> y \<in> set xs \<and> si_sName y = n \<and> si_sZone y = z)
        \<and> (\<forall>x. (b = Some x \<or> x \<in> set xs \<and> si_sName x = n \<and> si_sZone x = z) \<longrightarrow> si_iId y \<le> si_iId x))"
proof (induction xs arbitrary: b)
  case (Cons x xs)
  show ?case
  proof (cases "si_sName x = n \<and> si_sZone x = z")
    case False
    then show ?thesis using Cons.IH [of b] by auto
  next
    case True
    let ?b = "case b of None \<Rightarrow> Some x | Some c \<Rightarrow> if si_iId x < si_iId c then Some x else b"
    have e: "best_of n z b (x # xs) = best_of n z ?b xs" using True by simp
    show ?thesis unfolding e using Cons.IH [of ?b] True by (cases b) (auto split: if_splits, (metis linorder_not_less order.trans order.strict_implies_order)+)
  qed
qed simp

lemma add_zones_extends:
  "add_zones stop pol n v zs (R, P) = (ok, R', P') \<Longrightarrow> grows P P' \<and>
    (if ok then \<exists>new. vClients R' = vClients R @ new \<and> list_all2 (\<lambda>z s. case best_of n z None v of None \<Rightarrow> s = None | Some x \<Rightarrow> serves P' pol x s) zs new
     else iStatus R' = RouteBusy \<and> vClients R' = [] \<and> vOwners R' = [])"
proof (induction zs arbitrary: R P)
  case (Cons z zs)
  let ?good = "\<lambda>P' z s. case best_of n z None v of None \<Rightarrow> s = None | Some x \<Rightarrow> serves P' pol x s"
  have all: "?good P' z s \<Longrightarrow> list_all2 (?good P') zs new \<Longrightarrow> list_all2 (?good P') (z # zs) (s # new)" for s new by simp
  show ?case
  proof (cases "best_of n z None v")
    case None
    then have r: "add_zones stop pol n v zs (R\<lparr>vClients := vClients R @ [None], vOwners := vOwners R @ [None]\<rparr>, P) = (ok, R', P')"
      using Cons.prems by simp
    note ih = Cons.IH [OF r]
    show ?thesis
    proof (cases ok)
      case True
      then obtain new where "vClients R' = vClients R @ None # new" "list_all2 (?good P') zs new" using ih by auto
      then show ?thesis using True ih all [of None new] None by auto
    next
      case False
      then show ?thesis using ih by simp
    qed
  next
    case (Some x)
    obtain ok1 R1 P1 where a: "AddRouteClient stop pol x (R, P) = (ok1, R1, P1)" by (metis prod_cases3)
    show ?thesis
    proof (cases ok1)
      case True
      obtain s where s: "vClients R1 = vClients R @ [s]" "serves P1 pol x s" using AddRouteClient_extends(2) [OF a True] by blast
      have r: "add_zones stop pol n v zs (R1, P1) = (ok, R', P')" using Cons.prems a True Some by simp
      note ih = Cons.IH [OF r]
      have g: "grows P P'" using grows_trans AddRouteClient_extends(1) [OF a] ih by blast
      have "serves P' pol x s" by (rule serves_mono [OF _ s(2)]) (use ih in simp)
      then have "?good P' z s" using Some by simp
      show ?thesis
      proof (cases ok)
        case True
        then obtain new where "vClients R' = vClients R @ s # new" "list_all2 (?good P') zs new" using ih s(1) by auto
        then show ?thesis using True g all [OF \<open>?good P' z s\<close>] by auto
      next
        case False
        then show ?thesis using g ih by simp
      qed
    next
      case False
      then show ?thesis using Cons.prems a Some AddRouteClient_extends [OF a] by simp
    qed
  qed
qed (auto simp: grows_refl)

section \<open>Properties of routes\<close>

text \<open>The list of the registry is one that routes can be chosen from.\<close>

definition consistent :: "string \<Rightarrow> ServicePick \<Rightarrow> ServiceInstance list \<Rightarrow> bool" where
  "consistent n pick v \<longleftrightarrow> \<not> (has_global n v \<and> has_zoned n v) \<and> (pick = PickZone \<longrightarrow> \<not> has_global n v)"

text \<open>What is asked of the instances behind a route.\<close>

fun picks :: "string \<Rightarrow> ServicePick \<Rightarrow> string \<Rightarrow> ServiceInstance list \<Rightarrow> ServiceInstance list \<Rightarrow> bool" where
  "picks n PickAll z v xs \<longleftrightarrow> mset xs = mset (filter (\<lambda>x. si_sName x = n) v) \<and> sorted (map si_iId xs)"
| "picks n PickAny z v xs \<longleftrightarrow> (\<exists>x \<in> set v. xs = [x] \<and> si_sName x = n)"
| "picks n PickZone z v xs \<longleftrightarrow> (\<exists>x \<in> set v. xs = [x] \<and> si_sName x = n \<and> si_sZone x = z \<and>
     (\<forall>y \<in> set v. si_sName y = n \<and> si_sZone y = z \<longrightarrow> si_iId x \<le> si_iId y))"

definition chosen :: "(ServiceInstance list \<Rightarrow> ServiceInstance list) \<Rightarrow> string \<Rightarrow> ServicePick \<Rightarrow> string \<Rightarrow> ServiceInstance list \<Rightarrow> 32 word \<Rightarrow> ServiceInstance list" where
  "chosen srt n pick z vList cur = (let v = srt (matched n pick z vList) in
     if pick = PickAll then v else [v ! (if pick = PickAny \<and> length v > 1 then unat cur mod length v else 0)])"

context std_sort
begin

lemma chosen_picks:
  assumes "matched n pick z vList \<noteq> []"
  shows "picks n pick z vList (chosen srt n pick z vList cur)"
proof (cases pick)
  case PickAny
  let ?m = "matched n PickAny z vList"
  have "0 < length ?m" using assms PickAny by simp
  then have i: "(if length (srt ?m) > 1 then unat cur mod length (srt ?m) else 0) < length ?m" by (simp add: srt_length)
  from srt_nth [OF i] show ?thesis using PickAny by (auto simp: chosen_def matched_def Let_def)
next
  case PickZone
  note h = srt_hd [OF assms]
  then show ?thesis using PickZone by (auto simp: chosen_def matched_def Let_def)
next
  case PickAll
  then show ?thesis using srt_mset srt_sorted by (simp add: chosen_def matched_def)
qed

lemma FinishRoute_served:
  assumes r: "FinishRoute srt stop pol n pick z iCode vList cur P = (R, cur', P')"
  shows "(if iStatus R = RouteOk then list_all2 (serves P' pol) (chosen srt n pick z vList cur) (vClients R) else vClients R = [] \<and> vOwners R = [])
    \<and> (iStatus R \<in> {RouteOk, RouteBusy} \<longleftrightarrow> iCode = OI_OK \<and> consistent n pick vList \<and> matched n pick z vList \<noteq> [])"
proof (cases "iCode = OI_OK \<and> consistent n pick vList \<and> matched n pick z vList \<noteq> []")
  case False
  then show ?thesis using r by (auto simp: FinishRoute_def Let_def consistent_def ServiceRoute_new_def split: if_splits)
next
  case True
  let ?v = "srt (matched n pick z vList)"
  show ?thesis
  proof (cases "pick = PickAll")
    case all: True
    obtain ok R1 P1 where a: "add_all stop pol ?v (ServiceRoute_new, P) = (ok, R1, P1)" by (metis prod_cases3)
    have "R = (if ok then R1\<lparr>iStatus := RouteOk\<rparr> else R1)" "P' = P1"
      using r True all a by (auto simp: FinishRoute_def Let_def consistent_def)
    then show ?thesis using add_all_extends [OF a] True all by (auto simp: chosen_def ServiceRoute_new_def split: if_splits)
  next
    case one: False
    define x where "x = ?v ! (if pick = PickAny \<and> length ?v > 1 then unat cur mod length ?v else 0)"
    obtain ok R1 P1 where a: "AddRouteClient stop pol x (ServiceRoute_new, P) = (ok, R1, P1)" by (metis prod_cases3)
    have "R = (if ok then R1\<lparr>iStatus := RouteOk\<rparr> else R1)" "P' = P1"
      using r True one a unfolding x_def by (auto simp: FinishRoute_def Let_def consistent_def)
    moreover have "chosen srt n pick z vList cur = [x]" using one by (simp add: chosen_def Let_def x_def)
    ultimately show ?thesis using AddRouteClient_extends(2,3) [OF a] True one by (cases ok) (auto simp: ServiceRoute_new_def)
  qed
qed

end

text \<open>
  C22: a route that \<open>FinishRoute\<close> hands out leads, for each instance it was chosen for, to the pool's connection to that
  instance's address, and holds a lease on it: for a call to any an instance of the name, for a call to a
  zone the one of that zone with the least number, for a call to all every instance of the name in the order
  of their numbers. A route is found, or the pool is full, exactly if the registry answered, lists a matching
  instance and does not mix global instances with zoned ones; a route that is not handed out has no client.
\<close>

theorem FinishRoute_spec:
  assumes "std_sort srt" and "FinishRoute srt stop pol n pick z iCode vList cur P = (R, cur', P')"
  shows "(if iStatus R = RouteOk then (\<exists>xs. picks n pick z vList xs \<and> list_all2 (serves P' pol) xs (vClients R)) else vClients R = [] \<and> vOwners R = [])
    \<and> (iStatus R \<in> {RouteOk, RouteBusy} \<longleftrightarrow> iCode = OI_OK \<and> consistent n pick vList \<and> matched n pick z vList \<noteq> [])"
  using std_sort.FinishRoute_served [OF assms] std_sort.chosen_picks [OF assms(1), of n pick z vList cur] by auto

definition inst :: "int \<Rightarrow> string \<Rightarrow> ServiceInstance" where
  "inst i a = \<lparr>si_sName = ''s'', si_iId = i, si_sIp = a, si_sPort = ''1'', si_sZone = []\<rparr>"

definition route_pool0 :: route_pool where
  "route_pool0 = \<lparr>mClients = [], iMaxClients = 2, iEvicted = 0, iIdleMilliseconds = 9, bStopped = False, conns = 0, leases = [], retired = [], ensured = []\<rparr>"

definition route_any :: "ServiceRoute \<times> 32 word \<times> route_pool" where
  "route_any = FinishRoute (sort_key si_iId) False (0, 0, 0, 0, 0, 0) ''s'' PickAny [] 0 [inst 4 ''b'', inst 2 ''a''] 5 route_pool0"

lemma route_any_eq: "iStatus (fst route_any) = RouteOk" "vClients (fst route_any) = [Some (RouteSender 0)]"
  "map (\<lambda>(k, e). (fst k, pClient e)) (mClients (snd (snd route_any))) = [(''b'', 0)]"
  by code_simp+

theorem FinishRoute_spec_witness:
  "vClients (fst route_any) = [Some (RouteSender 0)] \<and> map (\<lambda>(k, e). (fst k, pClient e)) (mClients (snd (snd route_any))) = [(''b'', 0)]
   \<and> (\<exists>xs. picks ''s'' PickAny [] [inst 4 ''b'', inst 2 ''a''] xs \<and> list_all2 (serves (snd (snd route_any)) (0, 0, 0, 0, 0, 0)) xs (vClients (fst route_any)))"
proof -
  have "FinishRoute (sort_key si_iId) False (0, 0, 0, 0, 0, 0) ''s'' PickAny [] 0 [inst 4 ''b'', inst 2 ''a''] 5 route_pool0
      = (fst route_any, fst (snd route_any), snd (snd route_any))" by (simp add: route_any_def)
  from FinishRoute_spec [OF stable_sort.std_sort_axioms this] show ?thesis using route_any_eq by simp
qed

lemma unat_add_small: "unat (cur :: 32 word) + k < 4294967296 \<Longrightarrow> unat (cur + of_nat k) = unat cur + k"
  by (simp add: unat_word_ariths unat_of_nat)

lemma mod_shift_inj:
  assumes "a < n" "b < n" "(s + a) mod n = (s + b) mod (n :: nat)"
  shows "a = b"
proof -
  have le: "a' = b'" if "a' \<le> b'" "b' < n" "(s + b') mod n = (s + a') mod n" for a' b'
  proof -
    have "n dvd (s + b') - (s + a')" using that(1,3) by (simp add: mod_eq_dvd_iff_nat)
    then have "n dvd b' - a'" by simp
    then show ?thesis using that(1,2) by (metis diff_is_0_eq dvd_imp_le le_antisym less_imp_diff_less linorder_not_less neq0_conv)
  qed
  show ?thesis using le [of a b] le [of b a] assms by (cases "a \<le> b") simp_all
qed

lemma rotation: "0 < n \<Longrightarrow> n = length v \<Longrightarrow> mset (map (\<lambda>k. v ! ((s + k) mod n)) [0..<n]) = mset v"
proof -
  assume n: "0 < n" "n = length v"
  let ?f = "\<lambda>k. (s + k) mod n"
  have i: "inj_on ?f {0..<n}" by (rule inj_onI) (auto intro: mod_shift_inj)
  moreover have "?f ` {0..<n} \<subseteq> {0..<n}" using n by auto
  ultimately have "?f ` {0..<n} = {0..<n}" by (simp add: endo_inj_surj)
  then have "set (map ?f [0..<n]) = set [0..<n]" by simp
  moreover have "distinct (map ?f [0..<n])" using i by (simp add: distinct_map)
  ultimately have "mset (map ?f [0..<n]) = mset [0..<n]" using set_eq_iff_mset_eq_distinct [OF _ distinct_upt] by blast
  then have "image_mset ((!) v) (mset (map ?f [0..<n])) = image_mset ((!) v) (mset [0..<n])" by simp
  moreover have "image_mset ((!) v) (mset [0..<n]) = mset v" using n map_nth [of v] by (metis mset_map)
  ultimately show ?thesis by (simp add: multiset.map_comp comp_def)
qed



text \<open>
  \<open>FinishZones\<close> answers slot by slot: where it hands out a route, the k-th client belongs to the k-th zone asked
  for, repeated zones included. It is the null pointer exactly if no instance of that zone is listed, and else
  the pool's leased connection to the instance of the zone with the least number.
\<close>

theorem FinishZones_slots:
  assumes "FinishZones stop pol n vZones iCode vList P = (R, P')"
  shows "(if iStatus R = RouteOk then list_all2 (\<lambda>z s.
        (s = None \<and> (\<forall>x \<in> set vList. \<not> (si_sName x = n \<and> si_sZone x = z))) \<or>
        (\<exists>x \<in> set vList. si_sName x = n \<and> si_sZone x = z \<and> serves P' pol x s \<and> (\<forall>y \<in> set vList. si_sName y = n \<and> si_sZone y = z \<longrightarrow> si_iId x \<le> si_iId y)))
      vZones (vClients R) else vClients R = [] \<and> vOwners R = [])
    \<and> (iStatus R \<in> {RouteOk, RouteBusy} \<longleftrightarrow> iCode = OI_OK \<and> \<not> has_global n vList)"
proof (cases "iCode = OI_OK \<and> \<not> has_global n vList")
  case False
  then show ?thesis using assms by (auto simp: FinishZones_def ServiceRoute_new_def split: if_splits)
next
  case True
  obtain ok R1 P1 where a: "add_zones stop pol n vList vZones (ServiceRoute_new, P) = (ok, R1, P1)" by (metis prod_cases3)
  have e: "R = (if ok then R1\<lparr>iStatus := RouteOk\<rparr> else R1)" "P' = P1" using assms True a by (auto simp: FinishZones_def)
  show ?thesis
  proof (cases ok)
    case True
    have "list_all2 (\<lambda>z s. case best_of n z None vList of None \<Rightarrow> s = None | Some x \<Rightarrow> serves P' pol x s) vZones (vClients R)"
      using add_zones_extends [OF a] True unfolding e by (simp add: ServiceRoute_new_def)
    then have "list_all2 (\<lambda>z s.
        (s = None \<and> (\<forall>x \<in> set vList. \<not> (si_sName x = n \<and> si_sZone x = z))) \<or>
        (\<exists>x \<in> set vList. si_sName x = n \<and> si_sZone x = z \<and> serves P' pol x s \<and> (\<forall>y \<in> set vList. si_sName y = n \<and> si_sZone y = z \<longrightarrow> si_iId x \<le> si_iId y)))
      vZones (vClients R)"
    proof (rule list_all2_mono)
      fix z s assume "case best_of n z None vList of None \<Rightarrow> s = None | Some x \<Rightarrow> serves P' pol x s"
      then show "(s = None \<and> (\<forall>x \<in> set vList. \<not> (si_sName x = n \<and> si_sZone x = z))) \<or>
        (\<exists>x \<in> set vList. si_sName x = n \<and> si_sZone x = z \<and> serves P' pol x s \<and> (\<forall>y \<in> set vList. si_sName y = n \<and> si_sZone y = z \<longrightarrow> si_iId x \<le> si_iId y))"
        using best_of_spec [of n z None vList] by (cases "best_of n z None vList") auto
    qed
    then show ?thesis using True e \<open>iCode = OI_OK \<and> \<not> has_global n vList\<close> by simp
  next
    case False
    then show ?thesis using add_zones_extends [OF a] e True by simp
  qed
qed

definition route_zones :: "ServiceRoute \<times> route_pool" where
  "route_zones = FinishZones False (0, 0, 0, 0, 0, 0) ''s'' [''7'', ''8'', ''7''] 0 [(inst 4 ''b'')\<lparr>si_sZone := ''7''\<rparr>, (inst 2 ''a'')\<lparr>si_sZone := ''7''\<rparr>] route_pool0"

lemma route_zones_eq: "iStatus (fst route_zones) = RouteOk" "vClients (fst route_zones) = [Some (RouteSender 0), None, Some (RouteSender 0)]"
  by code_simp+

theorem FinishZones_slots_witness:
  "vClients (fst route_zones) = [Some (RouteSender 0), None, Some (RouteSender 0)] \<and> length (vClients (fst route_zones)) = length [''7'', ''8'', ''7'']"
proof -
  have "FinishZones False (0, 0, 0, 0, 0, 0) ''s'' [''7'', ''8'', ''7''] 0 [(inst 4 ''b'')\<lparr>si_sZone := ''7''\<rparr>, (inst 2 ''a'')\<lparr>si_sZone := ''7''\<rparr>] route_pool0
     = (fst route_zones, snd route_zones)" by (simp add: route_zones_def)
  note s = FinishZones_slots [OF this, unfolded route_zones_eq(1) if_P [OF refl], THEN conjunct1, THEN list_all2_lengthD]
  then show ?thesis using route_zones_eq by simp
qed

end
