(* ===== verification/OI_RouteCall.thy ===== *)
theory OI_RouteCall
  imports OI_Routes
begin

text \<open>
  Remote calls by service name (the second half of cbaselib/proto/inc/oi_rpc_coro.h): the deadline that looking up
  the service, connecting and the reply share, the wait for a route (\<open>RouteAwaiter\<close>), and calls to one instance
  (\<open>CallNamed\<close>), to several zones (\<open>CallMany\<close>) and to all instances (\<open>CallAll\<close>, \<open>RpcCallBatch\<close>).

  A coroutine is the composition of what it does between its waits; what it waits for (the answer of the
  registry, the outcome of a call) and the times at which it reads the clock are arguments. The outcome of a call to
  a sender is None where the awaiter throws. A call that cannot be built because an allocation fails is not modelled.
\<close>

section \<open>Deadlines\<close>

abbreviation INT64_MAX :: int where "INT64_MAX \<equiv> 9223372036854775807"

definition RpcDeadline :: "int \<Rightarrow> int \<Rightarrow> int" where
  "RpcDeadline iNow iTimeout = (if iTimeout > 0 then (if iTimeout > INT64_MAX - iNow then INT64_MAX else iNow + iTimeout) else 0)"

definition Expired :: "int \<Rightarrow> int \<Rightarrow> bool" where
  "Expired iNow d \<longleftrightarrow> d > 0 \<and> iNow \<ge> d"

definition Remaining :: "int \<Rightarrow> int \<Rightarrow> int" where
  "Remaining iNow d = (if d = 0 then 0 else max 1 (d - iNow))"

section \<open>Waiting for a route\<close>

datatype Kind = KindNamed | KindZones | KindTarget

record RouteAwaiter =
  stDeadline :: int
  iKind :: Kind
  pManager :: "nat option"
  ra_sName :: string
  ra_sZone :: string
  ra_iPick :: ServicePick
  ra_vZones :: "int list"
  ra_sTarget :: string
  ra_bBatch :: bool
  bResolved :: bool
  ra_iCode :: int
  ra_vList :: "ServiceInstance list"
  ra_vZoneNames :: "string list"
  stRoute :: ServiceRoute

definition refused :: "ServiceRouteStatus \<Rightarrow> RouteAwaiter \<Rightarrow> RouteAwaiter" where
  "refused st a = a\<lparr>stRoute := (stRoute a)\<lparr>iStatus := st\<rparr>, bResolved := True\<rparr>"

text \<open>
  \<open>await_suspend\<close> up to the pull. The second result is None where the coroutine does not wait, else the time
  that the pull may take.
\<close>

definition suspend_target :: "RouteAwaiter \<Rightarrow> RouteAwaiter" where
  "suspend_target a = (if iKind a = KindTarget then
     (case PrepareTarget (ra_sTarget a) (ra_bBatch a) of
        Inl st \<Rightarrow> refused st a
      | Inr (n, p, z) \<Rightarrow> a\<lparr>ra_sName := n, ra_iPick := p, ra_sZone := z\<rparr>)
     else a)"

definition suspend_prepare :: "(nat \<Rightarrow> string \<Rightarrow> bool) \<Rightarrow> RouteAwaiter \<Rightarrow> RouteAwaiter" where
  "suspend_prepare watches a = (if bResolved a then a
     else if iKind a = KindZones then
       (case PrepareZones (ra_sName a) (ra_vZones a) of
          Inl st \<Rightarrow> refused st a
        | Inr ns \<Rightarrow> a\<lparr>ra_vZoneNames := ns\<rparr>)
     else (case PrepareRoute watches (pManager a) (ra_sName a) (ra_iPick a) (ra_sZone a) of
          Some R \<Rightarrow> a\<lparr>stRoute := R, bResolved := True\<rparr>
        | None \<Rightarrow> a))"

definition route_suspend :: "(nat \<Rightarrow> string \<Rightarrow> bool) \<Rightarrow> int \<Rightarrow> int \<Rightarrow> RouteAwaiter \<Rightarrow> RouteAwaiter \<times> int option" where
  "route_suspend watches iNow iNow2 a0 = (let a = suspend_prepare watches (suspend_target a0) in
     if bResolved a then (a, None)
     else if Expired iNow (stDeadline a) then (refused RouteTimeout a, None)
     else let r = Remaining iNow2 (stDeadline a) in (a, Some (if r > 0 then min r 1000 else 1000)))"

text \<open>The answer of the registry, and \<open>await_resume\<close>.\<close>

definition pull_done :: "int \<Rightarrow> ServiceInstance list \<Rightarrow> RouteAwaiter \<Rightarrow> RouteAwaiter" where
  "pull_done iCode vList a = a\<lparr>ra_iCode := iCode, ra_vList := vList\<rparr>"

definition route_resume :: "(ServiceInstance list \<Rightarrow> ServiceInstance list) \<Rightarrow> bool \<Rightarrow> policy \<Rightarrow> int \<Rightarrow> RouteAwaiter \<Rightarrow> 32 word \<Rightarrow> route_pool \<Rightarrow> ServiceRoute \<times> 32 word \<times> route_pool" where
  "route_resume srt stop pol iNow a cur P =
    (if Expired iNow (stDeadline a) \<or> ra_iCode a = OI_ERR_TIMEOUT then ((stRoute a)\<lparr>iStatus := RouteTimeout\<rparr>, cur, P)
     else if ra_iCode a = OI_ERR_BUSY then ((stRoute a)\<lparr>iStatus := RouteBusy\<rparr>, cur, P)
     else if bResolved a then (stRoute a, cur, P)
     else if iKind a = KindZones then (case FinishZones stop pol (ra_sName a) (ra_vZoneNames a) (ra_iCode a) (ra_vList a) P of (R, P') \<Rightarrow> (R, cur, P'))
     else FinishRoute srt stop pol (ra_sName a) (ra_iPick a) (ra_sZone a) (ra_iCode a) (ra_vList a) cur P)"

text \<open>The whole wait: the clock is read at the two places of \<open>await_suspend\<close> and in \<open>await_resume\<close>.\<close>

definition await_route :: "(ServiceInstance list \<Rightarrow> ServiceInstance list) \<Rightarrow> bool \<Rightarrow> policy \<Rightarrow> (nat \<Rightarrow> string \<Rightarrow> bool) \<Rightarrow> int \<times> int \<times> int \<Rightarrow> int \<times> ServiceInstance list
    \<Rightarrow> RouteAwaiter \<Rightarrow> 32 word \<Rightarrow> route_pool \<Rightarrow> ServiceRoute \<times> 32 word \<times> route_pool" where
  "await_route srt stop pol watches t ans a cur P = (case t of (t1, t2, t3) \<Rightarrow>
     (case route_suspend watches t1 t2 a of
        (a', None) \<Rightarrow> route_resume srt stop pol t3 a' cur P
      | (a', Some _) \<Rightarrow> route_resume srt stop pol t3 (pull_done (fst ans) (snd ans) a') cur P))"

section \<open>Calls\<close>

text \<open>\<open>call s ms\<close> is the outcome of the call to the sender with that timeout: the code and the response.\<close>

definition CallNamed :: "(sender \<Rightarrow> int \<Rightarrow> (int \<times> 'r) option) \<Rightarrow> 'r \<Rightarrow> int \<times> int \<Rightarrow> int \<Rightarrow> ServiceRoute \<Rightarrow> (int \<times> 'r) option" where
  "CallNamed call res0 t d R = (case vClients R of
     [Some c] \<Rightarrow> if iStatus R \<noteq> RouteOk then Some (RouteError (iStatus R), res0)
       else if Expired (fst t) d then Some (OI_ERR_TIMEOUT, res0)
       else call c (Remaining (snd t) d)
   | _ \<Rightarrow> Some (RouteError (iStatus R), res0))"

text \<open>
  The slots of \<open>SendRouted\<close>: skipped with a code, or called. All calls are submitted before any is awaited;
  the clock is read twice for each slot.
\<close>

datatype call_slot = Skipped int | Called sender int

fun send_slots :: "(nat \<Rightarrow> int \<times> int) \<Rightarrow> int \<Rightarrow> nat \<Rightarrow> sender option list \<Rightarrow> call_slot list" where
  "send_slots t d i [] = []"
| "send_slots t d i (None # cs) = Skipped OI_ERR_CONNECT # send_slots t d (Suc i) cs"
| "send_slots t d i (Some c # cs) =
    (if Expired (fst (t i)) d then Skipped OI_ERR_TIMEOUT else Called c (Remaining (snd (t i)) d)) # send_slots t d (Suc i) cs"

text \<open>\<open>call i s ms\<close> is the outcome of the call of slot \<open>i\<close>.\<close>

definition await_slot :: "(nat \<Rightarrow> sender \<Rightarrow> int \<Rightarrow> (int \<times> 'r) option) \<Rightarrow> 'r \<Rightarrow> nat \<Rightarrow> call_slot \<Rightarrow> int \<times> 'r" where
  "await_slot call res0 i s = (case s of
     Skipped c \<Rightarrow> (c, res0)
   | Called c ms \<Rightarrow> (case call i c ms of Some r \<Rightarrow> r | None \<Rightarrow> (OI_ERR_FAIL, res0)))"

definition SendRouted :: "(nat \<Rightarrow> sender \<Rightarrow> int \<Rightarrow> (int \<times> 'r) option) \<Rightarrow> 'r \<Rightarrow> (nat \<Rightarrow> int \<times> int) \<Rightarrow> int \<Rightarrow> nat \<Rightarrow> ServiceRoute \<Rightarrow> (int \<times> 'r) list" where
  "SendRouted call res0 t d iFailureCount R =
    (if iStatus R \<noteq> RouteOk then replicate iFailureCount (RouteError (iStatus R), res0)
     else let ss = send_slots t d 0 (vClients R) in map (\<lambda>i. await_slot call res0 i (ss ! i)) [0..<length ss])"

definition CallRouted :: "(ServiceInstance list \<Rightarrow> ServiceInstance list) \<Rightarrow> bool \<Rightarrow> policy \<Rightarrow> (nat \<Rightarrow> string \<Rightarrow> bool) \<Rightarrow> int \<times> int \<times> int \<Rightarrow> int \<times> ServiceInstance list
    \<Rightarrow> (nat \<Rightarrow> sender \<Rightarrow> int \<Rightarrow> (int \<times> 'r) option) \<Rightarrow> 'r \<Rightarrow> (nat \<Rightarrow> int \<times> int) \<Rightarrow> RouteAwaiter \<Rightarrow> 32 word \<Rightarrow> route_pool \<Rightarrow> (int \<times> 'r) list \<times> 32 word \<times> route_pool" where
  "CallRouted srt stop pol watches t ans call res0 ts a cur P =
    (let iFailureCount = (if iKind a = KindZones then length (ra_vZones a) else 1) in
     case await_route srt stop pol watches t ans a cur P of (R, cur', P') \<Rightarrow> (SendRouted call res0 ts (stDeadline a) iFailureCount R, cur', P'))"

definition RouteAwaiter_new :: RouteAwaiter where
  "RouteAwaiter_new = \<lparr>stDeadline = 0, iKind = KindNamed, pManager = None, ra_sName = [], ra_sZone = [], ra_iPick = PickAny, ra_vZones = [], ra_sTarget = [],
     ra_bBatch = False, bResolved = False, ra_iCode = OI_ERR_CONNECT, ra_vList = [], ra_vZoneNames = [], stRoute = ServiceRoute_new\<rparr>"

definition CallMany :: "nat \<Rightarrow> string \<Rightarrow> int list \<Rightarrow> int \<Rightarrow> RouteAwaiter" where
  "CallMany m sServiceName vZoneIds d = RouteAwaiter_new\<lparr>stDeadline := d, iKind := KindZones, pManager := Some m, ra_sName := sServiceName, ra_vZones := vZoneIds\<rparr>"

definition CallAll :: "nat \<Rightarrow> string \<Rightarrow> int \<Rightarrow> RouteAwaiter" where
  "CallAll m sServiceName d = RouteAwaiter_new\<lparr>stDeadline := d, pManager := Some m, ra_sName := sServiceName, ra_iPick := PickAll\<rparr>"

definition RpcCallBatch :: "string \<Rightarrow> int \<Rightarrow> RouteAwaiter" where
  "RpcCallBatch sService d = RouteAwaiter_new\<lparr>stDeadline := d, iKind := KindTarget, ra_sTarget := sService, ra_bBatch := True\<rparr>"

definition RunTargetCall :: "string \<Rightarrow> int \<Rightarrow> RouteAwaiter" where
  "RunTargetCall sService d = RouteAwaiter_new\<lparr>stDeadline := d, iKind := KindTarget, ra_sTarget := sService\<rparr>"

section \<open>Properties\<close>

text \<open>
  C40: the deadline of a call stays within 64 bits whatever the timeout is. Until it has expired, what remains of it is
  positive and at most the timeout, and shrinks as the clock advances; a timeout that is not positive never expires.
\<close>

theorem deadline_bounds:
  assumes "0 \<le> iNow" and "iNow \<le> t" and "t \<le> INT64_MAX" and "iTimeout \<le> INT64_MAX"
  shows "(0 < iTimeout \<longrightarrow> RpcDeadline iNow iTimeout \<in> {1..INT64_MAX} \<and> (\<not> Expired t (RpcDeadline iNow iTimeout) \<longrightarrow>
       0 < Remaining t (RpcDeadline iNow iTimeout) \<and> t + Remaining t (RpcDeadline iNow iTimeout) = RpcDeadline iNow iTimeout
       \<and> Remaining t (RpcDeadline iNow iTimeout) \<le> iTimeout))
    \<and> (iTimeout \<le> 0 \<longrightarrow> \<not> Expired t (RpcDeadline iNow iTimeout) \<and> Remaining t (RpcDeadline iNow iTimeout) = 0)"
  using assms by (auto simp: RpcDeadline_def Expired_def Remaining_def)

theorem deadline_bounds_witness:
  "RpcDeadline 5 INT64_MAX \<in> {1..INT64_MAX} \<and> 9 + Remaining 9 (RpcDeadline 5 10) = RpcDeadline 5 10"
proof -
  have "\<not> Expired 9 (RpcDeadline 5 10)" by (simp add: Expired_def RpcDeadline_def)
  then show ?thesis using deadline_bounds [of 5 9 INT64_MAX] deadline_bounds [of 5 9 10] by simp
qed

lemma length_send_slots [simp]: "length (send_slots t d i cs) = length cs"
  by (induction t d i cs rule: send_slots.induct) auto

lemma nth_send_slots: "k < length cs \<Longrightarrow> send_slots t d i cs ! k = (case cs ! k of
    None \<Rightarrow> Skipped OI_ERR_CONNECT
  | Some c \<Rightarrow> if Expired (fst (t (i + k))) d then Skipped OI_ERR_TIMEOUT else Called c (Remaining (snd (t (i + k))) d))"
proof (induction t d i cs arbitrary: k rule: send_slots.induct)
  case (2 t d i cs)
  then show ?case by (cases k) (auto split: option.split)
next
  case (3 t d i c cs)
  then show ?case by (cases k) (auto split: option.split)
qed simp

lemma zone_names_length: "zone_names zs = Some ns \<Longrightarrow> ns = map to_string zs"
  by (induction zs arbitrary: ns) (auto split: if_splits)

lemma zones_prepared: "PrepareZones n zs = Inr ns \<Longrightarrow> ns = map to_string zs"
  by (auto simp: PrepareZones_def zone_names_length split: if_splits option.splits)

text \<open>The wait for the zones of a call to many: refused with a code for the whole call, or answered by \<open>FinishZones\<close>.\<close>

lemma await_route_zones:
  assumes "iKind a = KindZones" and "\<not> bResolved a" and "await_route srt stop pol watches t ans a cur P = (R, cur', P')"
  shows "iStatus R = RouteOk \<Longrightarrow> FinishZones stop pol (ra_sName a) (map to_string (ra_vZones a)) (fst ans) (snd ans) P = (R, P')"
proof -
  assume ok: "iStatus R = RouteOk"
  obtain t1 t2 t3 where t: "t = (t1, t2, t3)" by (metis prod_cases3)
  have s: "suspend_target a = a" using assms(1) by (simp add: suspend_target_def)
  show ?thesis
  proof (cases "PrepareZones (ra_sName a) (ra_vZones a)")
    case (Inl st)
    then have "st = RouteBadName" by (auto simp: PrepareZones_def split: if_splits option.splits)
    then have "iStatus R \<noteq> RouteOk"
      using assms Inl s t by (auto simp: await_route_def route_suspend_def suspend_prepare_def refused_def route_resume_def Let_def split: if_splits)
    then show ?thesis using ok by simp
  next
    case (Inr ns)
    have ns: "ns = map to_string (ra_vZones a)" using zones_prepared [OF Inr] .
    have p: "suspend_prepare watches a = a\<lparr>ra_vZoneNames := ns\<rparr>" using assms(1,2) Inr by (simp add: suspend_prepare_def)
    show ?thesis
      using assms ok s t p ns
      by (auto simp: await_route_def route_suspend_def refused_def route_resume_def pull_done_def Let_def split: if_splits prod.splits)
  qed
qed

text \<open>
  C17: a call to many zones answers slot by slot. It always has one result for each zone that was asked for, also
  when it fails as a whole. If a route was found, the k-th result is that of the k-th zone: a failure to connect
  exactly for zones without an instance, and for the others a timeout or the outcome of a call, within what is left
  of the deadline, on the pool's connection to the zone's instance with the least number.
\<close>

theorem CallMany_slots:
  assumes "CallRouted srt stop pol watches t ans call res0 ts (CallMany m n vZoneIds d) cur P = (rs, cur', P')"
  shows "length rs = length vZoneIds \<and>
    ((\<exists>code. code \<noteq> OI_OK \<and> rs = replicate (length vZoneIds) (code, res0)) \<or>
     (\<forall>k < length vZoneIds.
        (rs ! k = (OI_ERR_CONNECT, res0) \<and> (\<forall>x \<in> set (snd ans). \<not> (si_sName x = n \<and> si_sZone x = to_string (vZoneIds ! k)))) \<or>
        (\<exists>x \<in> set (snd ans). \<exists>c. si_sName x = n \<and> si_sZone x = to_string (vZoneIds ! k) \<and> serves P' pol x (Some c)
           \<and> (\<forall>y \<in> set (snd ans). si_sName y = n \<and> si_sZone y = to_string (vZoneIds ! k) \<longrightarrow> si_iId x \<le> si_iId y)
           \<and> rs ! k = await_slot call res0 k (if Expired (fst (ts k)) d then Skipped OI_ERR_TIMEOUT else Called c (Remaining (snd (ts k)) d)))))"
proof -
  let ?a = "CallMany m n vZoneIds d"
  have a: "iKind ?a = KindZones" "\<not> bResolved ?a" "ra_sName ?a = n" "ra_vZones ?a = vZoneIds" "stDeadline ?a = d"
    by (simp_all add: CallMany_def RouteAwaiter_new_def)
  obtain R cc PP where r: "await_route srt stop pol watches t ans ?a cur P = (R, cc, PP)" by (metis prod_cases3)
  have rs: "rs = SendRouted call res0 ts d (length vZoneIds) R" "P' = PP"
    using assms r a by (simp_all add: CallRouted_def)
  show ?thesis
  proof (cases "iStatus R = RouteOk")
    case False
    then have "RouteError (iStatus R) \<noteq> OI_OK" by (cases "iStatus R") simp_all
    then show ?thesis using False rs(1) by (auto simp: SendRouted_def)
  next
    case True
    have f: "FinishZones stop pol n (map to_string vZoneIds) (fst ans) (snd ans) P = (R, P')"
      using await_route_zones [OF a(1,2) r True] a rs(2) by simp
    note slots = FinishZones_slots [OF f, unfolded True if_P [OF refl], THEN conjunct1]
    have l: "length (vClients R) = length vZoneIds" using list_all2_lengthD [OF slots] by simp
    have k: "rs ! k = await_slot call res0 k (send_slots ts d 0 (vClients R) ! k)" if "k < length vZoneIds" for k
      using that True l by (simp add: rs(1) SendRouted_def Let_def)
    have "(rs ! k = (OI_ERR_CONNECT, res0) \<and> (\<forall>x \<in> set (snd ans). \<not> (si_sName x = n \<and> si_sZone x = to_string (vZoneIds ! k)))) \<or>
        (\<exists>x \<in> set (snd ans). \<exists>c. si_sName x = n \<and> si_sZone x = to_string (vZoneIds ! k) \<and> serves P' pol x (Some c)
           \<and> (\<forall>y \<in> set (snd ans). si_sName y = n \<and> si_sZone y = to_string (vZoneIds ! k) \<longrightarrow> si_iId x \<le> si_iId y)
           \<and> rs ! k = await_slot call res0 k (if Expired (fst (ts k)) d then Skipped OI_ERR_TIMEOUT else Called c (Remaining (snd (ts k)) d)))"
      if h: "k < length vZoneIds" for k
    proof (cases "vClients R ! k")
      case None
      then show ?thesis using list_all2_nthD [OF slots, of k] h l k [OF h] by (auto simp: nth_send_slots await_slot_def serves_def)
    next
      case (Some c)
      then have "rs ! k = await_slot call res0 k (if Expired (fst (ts k)) d then Skipped OI_ERR_TIMEOUT else Called c (Remaining (snd (ts k)) d))"
        using h l k [OF h] by (simp add: nth_send_slots)
      then show ?thesis using list_all2_nthD [OF slots, of k] h Some by auto
    qed
    moreover have "length rs = length vZoneIds" using True l by (simp add: rs(1) SendRouted_def Let_def)
    ultimately show ?thesis by blast
  qed
qed

definition many_demo :: "(int \<times> string) list \<times> 32 word \<times> route_pool" where
  "many_demo = CallRouted (sort_key si_iId) False (0, 0, 0, 0, 0, 0) (\<lambda>m n. False) (1, 1, 2)
     (0, [(inst 4 ''b'')\<lparr>si_sZone := ''7''\<rparr>, (inst 2 ''a'')\<lparr>si_sZone := ''7''\<rparr>])
     (\<lambda>i s ms. Some (0, if s = RouteSender 0 then ''hi'' else [])) [] (\<lambda>i. (3, 3)) (CallMany 0 ''s'' [8, 7] 100) 0 route_pool0"

lemma many_demo_eq: "fst many_demo = [(- 3, []), (0, ''hi'')]"
  by code_simp

theorem CallMany_slots_witness: "length (fst many_demo) = length [8, 7 :: int] \<and> fst many_demo = [(- 3, []), (0, ''hi'')]"
proof -
  have "CallRouted (sort_key si_iId) False (0, 0, 0, 0, 0, 0) (\<lambda>m n. False) (1, 1, 2)
     (0, [(inst 4 ''b'')\<lparr>si_sZone := ''7''\<rparr>, (inst 2 ''a'')\<lparr>si_sZone := ''7''\<rparr>])
     (\<lambda>i s ms. Some (0, if s = RouteSender 0 then ''hi'' else [])) [] (\<lambda>i. (3, 3)) (CallMany 0 ''s'' [8, 7] 100) 0 route_pool0
     = (fst many_demo, fst (snd many_demo), snd (snd many_demo))" by (simp add: many_demo_def)
  from CallMany_slots [OF this]
  show ?thesis using many_demo_eq by simp
qed

end
