(* ===== verification/Spec2Isabelle.thy ===== *)
theory Spec2Isabelle
  imports OI_Tcp OI_Timer OI_Calendar OI_Udp OI_RegClient OI_Pool OI_Join OI_RpcTask OI_RpcClient OI_Route OI_RouteCall
begin

text \<open>
  A verification library for openidea, a C++ framework for networked game and service processes
  (src/cbaselib) and the service processes built on it (src/modules).

  \<^bold>\<open>The program and its parts\<close>

  A process has a poll loop that moves bytes between sockets and sessions (net), a buffer and a tagged
  binary format for messages (base), sessions that cut a byte stream into messages, a table of remote
  calls that matches replies with waiting callers and a router that finds the service of a call (proto), a timer wheel and calendar helpers (timer), and
  a client that pipelines commands to Redis (redis). The registry process (modules/registry) keeps the
  addresses of service instances in Redis for the others. A received frame goes from the channel
  (\<open>DataIn\<close>) to the session's input buffer, from there through \<open>OnDataIn\<close> to \<open>DeliverRpc\<close>, and either
  completes a waiting call or starts a handler within the admission limits; what a handler or a caller
  sends is framed, queued at the session and written by \<open>DataOut\<close>.

  \<^bold>\<open>Theories, in the order of their imports\<close>

  \<^item> \<open>OI_Prelude\<close>: types of machine integers and bytes, the exceptions, the C memory primitives on byte
    lists with the allocator as a parameter, little-endian codecs, list lemmas.
  \<^item> \<open>OI_Bytes\<close> (base/oi_bytes): the growable buffer with a gap at its front. Invariant and refinement to
    byte lists for every sequence of operations, also where the source aliases the buffer; capacity bound.
  \<^item> \<open>OI_Stream\<close> (base/oi_bytes_stream): the read position, plain and tagged encoders and decoders.
    Decoding what was encoded, for every field type; locale for codecs, interpreted for each of them.
  \<^item> \<open>OI_Decimal\<close>, \<open>OI_Json\<close> (proto/oi_json.h): conversion of values to and from JSON. Integers are read
    exactly or refused; maps and vectors survive the conversion.
  \<^item> \<open>OI_RpcData\<close> (base/oi_rpcdata_reg*.h): the seven registry messages. Round trips in both formats,
    unknown fields are skipped, decoding any bytes ends.
  \<^item> \<open>OI_Session\<close> (net/oi_session, net/oi_net_session, proto/oi_rpc_session, proto/oi_parser): session status,
    send queue, frame splitting and the timer for incomplete frames. Frames survive any chunking, reception
    depends on the bytes only, oversized frames close the session.
  \<^item> \<open>OI_Tcp\<close> (net/oi_tcp_channel, net/oi_poll): reading and writing against a script of socket results.
    What is on the wire is a prefix of what was accepted; a willing socket drains the queue.
  \<^item> \<open>OI_NetAddr\<close> (net/oi_socket): literal addresses, ports and endpoint texts. The text determines the address.
  \<^item> \<open>OI_Manager\<close> (net/oi_session_manager, net/oi_connect_channel): the table of sessions with their
    references, attempts to connect and the coroutines that wait for them. No freed session is used; every
    wait for a connection ends, and each coroutine is resumed once.
  \<^item> \<open>OI_Udp\<close> (net/oi_udp_channel): one session per peer of a datagram socket. Each session number is open,
    closing or reported as closed, one payload is one datagram, a datagram is split on its own.
  \<^item> \<open>OI_Timer\<close> (timer/oi_timer_manager, oi_timer_level): the wheel with its levels, redistribution and
    callbacks that add and remove timers. A timer fires once, at its tick, never early.
  \<^item> \<open>OI_Calendar\<close> (timer/oi_timer_helper, oi_duration): day numbers and periods in local time. The day
    number counts the days of the calendar; a period is crossed exactly when a boundary lies between.
  \<^item> \<open>OI_Admission\<close>, \<open>OI_RpcCall\<close>, \<open>OI_Deliver\<close> (proto/oi_rpc_call): quotas, the table of waiting calls as
    interleaved critical sections, dispatch of received messages. A call completes at most once, a reply
    only from its source, the sweep and a broken connection complete exactly their calls.
  \<^item> \<open>OI_Coro\<close> (base/oi_coro): task numbers, launch information, the state of a task and its operations, and the
    ready queue of the single-threaded build. A started task is queued and keeps its closure.
  \<^item> \<open>OI_Pool\<close> (base/oi_thread): the workers that resume coroutines, their condition variable and the stop protocol.
    No wakeup is lost, coroutines are taken in the order of posting, and a stopped pool ends.
  \<^item> \<open>OI_Task\<close>, \<open>OI_Join\<close> (base/oi_coro.h): one task with everybody who awaits it, \<open>WhenAll\<close> and \<open>TaskScope\<close>. Who
    waits goes on once and only after completion, a frame is destroyed when its last user has gone, and no
    exception is lost.
  \<^item> \<open>OI_RpcTask\<close> (proto/oi_rpc_coro.h, first half): the task that runs a handler and answers, and the awaiter
    of a caller. A remote call returns what its handler returned, every request is answered, and the gate
    between caller and callback resumes the caller once.
  \<^item> \<open>OI_Held\<close>, \<open>OI_RpcClient\<close> (proto/oi_rpc_session_manager): calls and payloads that wait for a connection. Every
    call is in exactly one place and none is left waiting once a connection was made.
  \<^item> \<open>OI_Route\<close> (proto/oi_rpc_route.cpp, \<open>RouteConnection\<close>): the connection that the calls to one address share.
    At most one attempt to connect at a time, and every call that waits has someone who ends its wait.
  \<^item> \<open>OI_RouteTable\<close>, \<open>OI_Routes\<close>, \<open>OI_RouteCall\<close> (the rest of proto/oi_rpc_route.cpp and proto/oi_rpc_coro.h): targets, the
    pool of routed connections, the choice among instances and calls to one, many or all of them. The pool is
    bounded and retires each connection once, a route leads to the instances it was chosen for, and the results
    of a call to many belong to its zones. \<open>std_sort\<close> is the contract of \<open>std::sort\<close>.
  \<^item> \<open>OI_RedisClient\<close> (redis/oi_redis): the queue of pipelined calls with reference counts and completion
    gates. No freed call is touched, each waiting coroutine is woken once, replies reach their commands in
    order also after timeouts.
  \<^item> \<open>OI_Registry\<close> (modules/registry/registry_server): sessions, bindings, snapshot, the coroutines split at
    their waits and the Lua scripts. No registration outlives its session unnoticed; an instance is never
    taken over while it is held.
  \<^item> \<open>OI_RegClient\<close> (base/oi_registry): the frames of the registry's protocol, the table of watched services, and
    the client with its two queues of pulls. The callback of a pull runs exactly once, replies reach the pulls
    they answer, a service follows what the registry lists.

  \<^bold>\<open>How the code is rendered\<close>

  A class is a record, an operation a function from the old to the new state with the source's name. A
  \<open>size_t\<close> is a natural number below \<open>2 ^ 64\<close> with wrap-around written out; fields of fixed width on the
  wire are words; \<open>int\<close> and \<open>int64_t\<close> counters are integers where overflow would be undefined. An
  exception is a value of the type \<open>exc\<close>; a pointer that may be freed is a key of a heap and a use after
  free is \<open>None\<close>. Answers of the operating system and of other processes are arguments: what \<open>recv\<close> and
  \<open>send\<close> return, the clock, the time zone, the replies of Redis. Code that several threads run is split
  into its critical sections, and theorems quantify over all their interleavings (\<open>rpc_run\<close> in
  \<open>OI_RpcCall\<close>, \<open>happens\<close> in \<open>OI_RedisClient\<close>, \<open>reg_run\<close> in \<open>OI_Registry\<close>, \<open>udp_run\<close> in \<open>OI_Udp\<close>,
  \<open>rc_run\<close> in \<open>OI_RegClient\<close>, \<open>client_run\<close> in \<open>OI_RpcClient\<close>, \<open>route_run\<close> in \<open>OI_Route\<close>, \<open>pool_run\<close> in
  \<open>OI_RouteTable\<close>, \<open>await_run\<close> in \<open>OI_RpcTask\<close>,
  \<open>pool_reach\<close> in \<open>OI_Pool\<close>, \<open>task_reach\<close> in \<open>OI_Task\<close>, \<open>join_reach\<close> and \<open>scope_reach\<close> in \<open>OI_Join\<close>). What a method does after it has released its lock is an
  action of the state that is done later. A coroutine is split where it waits.

  \<^bold>\<open>Bounds and fuel\<close>

  \<open>data_in_loop\<close> and the message decoders have fuel equal to the bytes that remain, since every round
  takes a header of eight bytes; the theorems show that it is never used up. The loops of \<open>OI_Timer\<close> run
  over the levels and the ticks that have passed. All other recursions are structural or have a measure.

  \<^bold>\<open>Not modelled\<close>

  The libuv handles and system calls of the poll loop and of the port layer, the local variables of
  C++ coroutine frames, the JSON reader and writer and the RESP codec (third-party code, whose results are
  arguments), listening sockets, logging, configuration files and process start, the HTTP wrapper, the
  typed Redis commands and the sample modules. In the modelled parts, statistics and logs are left out, and so
  are the paths of the RPC code that are taken only when an allocation fails.
\<close>

end
